(* ===== verification/Prelude.thy ===== *)
theory Prelude
  imports Main "HOL-Library.Word" "HOL-Library.Monad_Syntax"
begin

text \<open>
  Shared ground of the development: the fixed-width integer types of the C code, the
  theorem collections its proofs draw on, and generic lemmas about lists, options and
  words that no single component owns.
\<close>

unbundle bit_operations_syntax

section \<open>The machine's integers\<close>

text \<open>
  The target is x86-64 (LP64): \<open>char\<close> 8 bits, \<open>short\<close> 16, \<open>int\<close> 32, \<open>long\<close>,
  \<open>long long\<close> and pointers 64. Unsigned values are words read by \<open>unat\<close>; signed
  values are the same words read by \<open>sint\<close>.
\<close>

type_synonym u8 = "8 word"
type_synonym u16 = "16 word"
type_synonym u32 = "32 word"
type_synonym u64 = "64 word"
type_synonym addr = "64 word"

section \<open>Theorem collections\<close>

text \<open>
  \<open>word_value\<close>: equations that read a word operation as arithmetic on \<open>nat\<close>.
  \<open>len_simps\<close>: lengths of the arrays the operations return.
\<close>

named_theorems word_value
named_theorems len_simps

section \<open>Words\<close>

lemma unat_lt_256: "unat (w :: u8) < 256"
  using unsigned_less [of w] by simp

lemma unat_le_255: "unat (w :: u8) \<le> 255"
  using unat_lt_256 [of w] by linarith

lemma unat_drop_bit_div [word_value]:
  "unat (drop_bit n (w :: 'a::len word)) = unat w div 2 ^ n"
  by (simp only: unat_drop_bit_eq) (simp only: drop_bit_eq_div)

lemma unat_take_bit_mod [word_value]:
  "unat (take_bit n (w :: 'a::len word)) = unat w mod 2 ^ n"
  by (simp only: unsigned_take_bit_eq) (simp only: take_bit_eq_mod)

lemma unat_and_mask_mod [word_value]:
  "unat (w AND mask n :: 'a::len word) = unat w mod 2 ^ n"
  by (simp only: take_bit_eq_mask [symmetric] unat_take_bit_mod)

lemma sint_unat_small:
  assumes "unat (w :: 'a::len word) < 2 ^ (LENGTH('a) - 1)"
  shows "sint w = int (unat w)"
proof -
  have "int (unat w) < 2 ^ (LENGTH('a) - Suc 0)"
    using assms by (simp only: of_nat_less_numeral_power_cancel_iff One_nat_def)
  then have "signed_take_bit (LENGTH('a) - Suc 0) (uint w) = uint w"
    by (intro signed_take_bit_int_eq_self) (auto intro: order_trans [of _ 0])
  then show ?thesis by (simp add: sint_uint)
qed

lemma unat_ucast_mod:
  "unat (ucast (x :: 'a::len word) :: 'b::len word) = unat x mod 2 ^ LENGTH('b)"
  by (simp only: unsigned_ucast_eq) (simp only: take_bit_eq_mod)

lemma unat_ucast_up:
  "LENGTH('a) \<le> LENGTH('b) \<Longrightarrow> unat (ucast (x :: 'a::len word) :: 'b::len word) = unat x"
  unfolding unat_ucast_mod
  by (rule mod_less, rule less_le_trans [OF unsigned_less]) simp

lemma unat_ucast_u8_up [simp]:
  "unat (ucast (x :: u8) :: u16) = unat x" "unat (ucast (x :: u8) :: u32) = unat x"
  "unat (ucast (x :: u8) :: u64) = unat x"
  by (simp_all add: unat_ucast_up)

lemma unat_ucast_u8_down [word_value]: "unat (ucast (w :: 'a::len word) :: u8) = unat w mod 256"
  by (simp add: unat_ucast_mod)

lemma unat_add_noover:
  "unat a + unat b < 2 ^ LENGTH('a) \<Longrightarrow> unat (a + b) = unat a + unat (b :: 'a::len word)"
  by (rule unat_add_lem [THEN iffD1])

lemma unat_mult_noover:
  "unat a * unat b < 2 ^ LENGTH('a) \<Longrightarrow> unat (a * b) = unat a * unat (b :: 'a::len word)"
  by (rule unat_mult_lem [THEN iffD1])

text \<open>Equality of bytes bit by bit; the bits of a byte end at 7.\<close>

lemma u8_bitD: "bit (w :: u8) n \<Longrightarrow> n < 8"
  using bit_imp_le_length [of w n] by simp

lemma u8_bit_beyond [simp]: "8 \<le> n \<Longrightarrow> \<not> bit (w :: u8) n"
  using u8_bitD [of w n] by auto

lemma u8_eqI:
  assumes "bit a 0 = bit b 0" "bit a 1 = bit b 1" "bit a 2 = bit b 2" "bit a 3 = bit b 3"
    "bit a 4 = bit b 4" "bit a 5 = bit b 5" "bit a 6 = bit b 6" "bit a 7 = bit (b :: u8) 7"
  shows "a = b"
proof (rule bit_word_eqI)
  fix n
  assume "n < LENGTH(8)"
  then have "n \<in> {0, 1, 2, 3, 4, 5, 6, 7}" by auto
  with assms show "bit a n = bit b n" by auto
qed

section \<open>Outcomes of code that may fail\<close>

text \<open>
  \<open>Null\<close> is the error return of the code, \<open>Fault\<close> an access outside an object (which C
  leaves undefined): a theorem that no \<open>Fault\<close> happens is a memory-safety theorem.
\<close>

datatype 'a outcome = Null | Fault | Ok 'a

section \<open>Checked access to byte arrays\<close>

definition rd :: "'a list \<Rightarrow> nat \<Rightarrow> 'a option" where
  "rd xs i = (if i < length xs then Some (xs ! i) else None)"

definition rd_n :: "'a list \<Rightarrow> nat \<Rightarrow> nat \<Rightarrow> 'a list option" where
  "rd_n xs i n = (if i + n \<le> length xs then Some (take n (drop i xs)) else None)"

definition wr_n :: "'a list \<Rightarrow> nat \<Rightarrow> 'a list \<Rightarrow> 'a list option" where
  "wr_n xs i ys =
     (if i + length ys \<le> length xs
      then Some (take i xs @ ys @ drop (i + length ys) xs) else None)"

lemma rd_Some [simp]: "i < length xs \<Longrightarrow> rd xs i = Some (xs ! i)"
  by (simp add: rd_def)

lemma rd_eq_None [simp]: "rd xs i = None \<longleftrightarrow> length xs \<le> i"
  by (simp add: rd_def not_less)

lemma rd_eq_Some: "rd xs i = Some y \<longleftrightarrow> i < length xs \<and> y = xs ! i"
  by (auto simp: rd_def)

lemma rd_append_length [simp]: "rd (xs @ y # ys) (length xs) = Some y"
  by (simp add: rd_def)

lemma rd_n_append [simp]: "rd_n (xs @ ys @ zs) (length xs) (length ys) = Some ys"
  by (simp add: rd_n_def)

lemma rd_n_eq_None [simp]: "rd_n xs i n = None \<longleftrightarrow> length xs < i + n"
  by (simp add: rd_n_def not_le)

lemma rd_n_length [len_simps]: "rd_n xs i n = Some ys \<Longrightarrow> length ys = n"
  by (auto simp: rd_n_def split: if_splits)

lemma wr_n_length [len_simps]: "wr_n xs i ys = Some zs \<Longrightarrow> length zs = length xs"
  by (auto simp: wr_n_def split: if_splits)

lemma wr_n_eq_None [simp]: "wr_n xs i ys = None \<longleftrightarrow> length xs < i + length ys"
  by (simp add: wr_n_def not_le)

lemma wr_n_append:
  "length js = length ys \<Longrightarrow> wr_n (xs @ js @ zs) (length xs) ys = Some (xs @ ys @ zs)"
  by (simp add: wr_n_def)

section \<open>Separated lists\<close>

fun join :: "'a \<Rightarrow> 'a list list \<Rightarrow> 'a list" where
  "join sep [] = []"
| "join sep [x] = x"
| "join sep (x # y # xs) = x @ sep # join sep (y # xs)"

lemma concat_terminated_join:
  "xss \<noteq> [] \<Longrightarrow> concat (map (\<lambda>x. x @ [sep]) xss) = join sep xss @ [sep]"
  by (induction sep xss rule: join.induct) auto

lemma length_join:
  "length (join sep xss) = sum_list (map length xss) + (length xss - 1)"
  by (induction sep xss rule: join.induct) auto

end
