(* ===== verification/Kvisual.thy ===== *)
theory Kvisual
  imports Prelude
begin

text \<open>
  The kernel module \<^verbatim>\<open>extra_module/kvisual\<close>: eight return probes along the write path
  of the kernel (VFS, ext4, page cache, buffer heads, bio, SCSI), three static trace points,
  and the module's load and unload functions. A handler reads the traced function's
  arguments from the saved registers, follows pointers into kernel structures and prints
  what it finds; the kernel's memory is a parameter of the model, a partial map from
  addresses to the fields the handlers read, so that a wild pointer is an oops
  (no return value) and not a made-up number.
\<close>

section \<open>printk\<close>

text \<open>
  Log levels in the kernel's order, and the arguments of a message as their conversion
  specifiers read them: \<open>%d\<close> and \<open>%ld\<close>/\<open>%lld\<close> read the word as signed,
  \<open>%lu\<close> as unsigned, \<open>%s\<close> a string, \<open>%pK\<close> an address and \<open>%c\<close> a byte.
  A message is its level, the first line of its format and its arguments.
\<close>

datatype klevel = KERN_ERR | KERN_INFO | KERN_DEBUG | KERN_DEFAULT

datatype karg = Kd int | Kld int | Klld int | Klu nat | Ks string | KpK addr | Kc u8

datatype klog = Klog klevel string "karg list"

fun klevel_num :: "klevel \<Rightarrow> nat" where
  "klevel_num KERN_ERR = 3"
| "klevel_num KERN_DEFAULT = 4"
| "klevel_num KERN_INFO = 6"
| "klevel_num KERN_DEBUG = 7"

instantiation klevel :: linorder
begin

definition less_eq_klevel :: "klevel \<Rightarrow> klevel \<Rightarrow> bool" where
  "less_eq_klevel a b \<longleftrightarrow> klevel_num a \<le> klevel_num b"

definition less_klevel :: "klevel \<Rightarrow> klevel \<Rightarrow> bool" where
  "less_klevel a b \<longleftrightarrow> klevel_num a < klevel_num b"

instance
proof
  fix x y z :: klevel
  show "(x < y) = (x \<le> y \<and> \<not> y \<le> x)"
    by (auto simp: less_eq_klevel_def less_klevel_def)
  show "x \<le> x"
    by (simp add: less_eq_klevel_def)
  show "x \<le> y \<Longrightarrow> y \<le> z \<Longrightarrow> x \<le> z"
    by (simp add: less_eq_klevel_def)
  show "x \<le> y \<Longrightarrow> y \<le> x \<Longrightarrow> x = y"
    by (cases x; cases y) (simp_all add: less_eq_klevel_def)
  show "x \<le> y \<or> y \<le> x"
    by (auto simp: less_eq_klevel_def)
qed

end

section \<open>Registers and the kernel structures the handlers read\<close>

record pt_regs =
  di :: u64
  si :: u64
  dx :: u64
  cx :: u64
  ax :: u64

record open_how =
  oh_flags :: u64
  oh_mode :: u64

record kiocb =
  ki_filp :: addr
  ki_pos :: u64

record iov_iter =
  it_count :: u64
  it_iov :: addr

record kfile =
  f_path_dentry :: addr
  f_inode :: addr
  f_flags :: u32
  f_mode :: u32
  f_pos :: u64

record kdentry =
  d_name_name :: addr

record kinode =
  i_ino :: u64
  i_size :: u64
  i_bytes :: u16
  i_blocks :: u64
  i_sb :: addr

record ksuper =
  s_blocksize :: u64
  s_maxbytes :: u64
  s_type :: addr
  s_root :: addr

record kmapping =
  host :: addr
  nrpages :: u64

record kbh =
  b_page :: addr
  b_blocknr :: u64
  b_size :: u64

record kbio_vec =
  bv_page :: addr
  bv_len :: u32
  bv_offset :: u32

record kbio =
  bi_disk :: addr
  bi_sector :: u64
  bi_size :: u32
  bi_vcnt :: u16
  bi_max_vecs :: u16
  bi_io_vec :: addr

record kqueue =
  q_queue_depth :: u32
  q_nr_hw_queues :: u32
  queuedata :: addr

record kscsi_dev =
  sdev_host :: addr
  sdev_queue_depth :: u16
  max_queue_depth :: u16
  sdev_id :: u32
  channel :: u32
  lun :: u64
  sector_size :: u32
  scsi_level :: u8

record ktag_set =
  nr_maps :: u32
  ts_nr_hw_queues :: u32
  ts_queue_depth :: u32
  numa_node :: u32

text \<open>
  The kernel's memory, one partial map per structure type. \<open>km_iov\<close> gives the
  \<open>iov_base\<close> of an iovec, \<open>km_fs_name\<close> the name pointer of a file system type,
  \<open>km_fops\<close> a disk's \<open>fops\<close> pointer, \<open>km_submit\<close> the \<open>submit_bio\<close> pointer
  of an operations table, \<open>km_rq\<close> the queue of a request, \<open>km_bd\<close> the request of a
  dispatch, \<open>km_host\<close> the tag set embedded in a host. An array of \<open>bio_vec\<close> is a
  map from the array's address and an index.
\<close>

record kmem =
  km_str :: "addr \<rightharpoonup> string"
  km_how :: "addr \<rightharpoonup> open_how"
  km_iocb :: "addr \<rightharpoonup> kiocb"
  km_iter :: "addr \<rightharpoonup> iov_iter"
  km_iov :: "addr \<rightharpoonup> addr"
  km_file :: "addr \<rightharpoonup> kfile"
  km_dentry :: "addr \<rightharpoonup> kdentry"
  km_inode :: "addr \<rightharpoonup> kinode"
  km_super :: "addr \<rightharpoonup> ksuper"
  km_fs_name :: "addr \<rightharpoonup> addr"
  km_mapping :: "addr \<rightharpoonup> kmapping"
  km_bh :: "addr \<rightharpoonup> kbh"
  km_bio :: "addr \<rightharpoonup> kbio"
  km_bvec :: "addr \<Rightarrow> nat \<rightharpoonup> kbio_vec"
  km_fops :: "addr \<rightharpoonup> addr"
  km_submit :: "addr \<rightharpoonup> addr"
  km_bd :: "addr \<rightharpoonup> addr"
  km_rq :: "addr \<rightharpoonup> addr"
  km_queue :: "addr \<rightharpoonup> kqueue"
  km_sdev :: "addr \<rightharpoonup> kscsi_dev"
  km_host :: "addr \<rightharpoonup> ktag_set"

text \<open>The probe point the ext4 handler fills; \<open>pp_mapping\<close> is declared and never set.\<close>

record ext4_write_probe_point =
  pp_iocb :: addr
  pp_from :: addr
  pp_file :: addr
  pp_flags :: u32
  pp_mode :: u32
  pp_pos :: u64
  pp_dentry :: addr
  pp_name :: addr
  pp_inode :: addr
  pp_ino :: u64
  pp_size :: u64
  pp_bytes :: u16
  pp_blocks :: u64
  pp_mapping :: "addr option"
  pp_sb :: addr
  pp_blocksize :: u64
  pp_maxbytes :: u64
  pp_fs_type :: addr
  pp_root :: addr

section \<open>Architecture\<close>

record kconfig =
  config_x86 :: bool
  config_x86_64 :: bool

definition kvisual_supported_arch :: "kconfig \<Rightarrow> klog list \<times> bool" where
  "kvisual_supported_arch c =
     (if \<not> config_x86 c \<or> \<not> config_x86_64 c
      then ([Klog KERN_INFO ''Only x86 is supported!'' []], False)
      else ([], True))"

definition regs_return_value :: "pt_regs \<Rightarrow> u64" where
  "regs_return_value regs = ax regs"

record kprobe =
  symbol_name :: string
  kp_addr :: addr

definition kvisual_handler_fault :: "kprobe \<Rightarrow> pt_regs \<Rightarrow> u32 \<Rightarrow> klog list \<times> int" where
  "kvisual_handler_fault p regs trapnr =
     ([Klog KERN_ERR ''fault_handler'' [Ks (symbol_name p), KpK (kp_addr p), Kd (sint trapnr)]], 0)"

text \<open>
  A handler's outcome: what it printed, and its return value, \<open>None\<close> when it followed a
  pointer to nothing. The guard every entry handler starts with, the shape of one that
  reads and then prints once, and a signed 64-bit argument:
\<close>

type_synonym koutcome = "klog list \<times> int option"

definition arch_guard :: "kconfig \<Rightarrow> koutcome \<Rightarrow> koutcome" where
  "arch_guard c body =
     (case kvisual_supported_arch c of
        (l, False) \<Rightarrow> (l, Some (-1))
      | (l, True) \<Rightarrow> (l @ fst body, snd body))"

definition print_one :: "klog option \<Rightarrow> koutcome" where
  "print_one m = (case m of None \<Rightarrow> ([], None) | Some l \<Rightarrow> ([l], Some 0))"

lemma print_one_simps [simp]:
  "print_one None = ([], None)"
  "print_one (Some l) = ([l], Some 0)"
  by (simp_all add: print_one_def)

section \<open>The eight probes: entry and return handlers\<close>

definition do_sys_openat2_entry_handler :: "kconfig \<Rightarrow> kmem \<Rightarrow> pt_regs \<Rightarrow> koutcome" where
  "do_sys_openat2_entry_handler c m regs = arch_guard c (print_one (do {
     let dfd = (ucast (di regs) :: u32);
     let filename = si regs;
     how \<leftarrow> km_how m (dx regs);
     name \<leftarrow> km_str m filename;
     Some (Klog KERN_INFO ''Function: do_sys_openat2 in linux/fs/open.c''
       [Kd (sint dfd), Ks name, Klld (sint (oh_flags how)), Klld (sint (oh_mode how))])
   }))"

definition do_sys_openat2_ret_handler :: "kconfig \<Rightarrow> kmem \<Rightarrow> pt_regs \<Rightarrow> koutcome" where
  "do_sys_openat2_ret_handler c m regs =
     ([Klog KERN_INFO ''Return Function: do_sys_openat2'' [Kld (sint (regs_return_value regs))]],
      Some 0)"

definition ext4_fill_probe_point :: "kmem \<Rightarrow> pt_regs \<Rightarrow> ext4_write_probe_point option" where
  "ext4_fill_probe_point m regs = do {
     iocb \<leftarrow> km_iocb m (di regs);
     let pfile = ki_filp iocb;
     fil \<leftarrow> km_file m pfile;
     dent \<leftarrow> km_dentry m (f_path_dentry fil);
     ino \<leftarrow> km_inode m (f_inode fil);
     sb \<leftarrow> km_super m (i_sb ino);
     Some \<lparr> pp_iocb = di regs, pp_from = si regs, pp_file = pfile,
       pp_flags = f_flags fil, pp_mode = f_mode fil, pp_pos = f_pos fil,
       pp_dentry = f_path_dentry fil, pp_name = d_name_name dent,
       pp_inode = f_inode fil, pp_ino = i_ino ino, pp_size = i_size ino,
       pp_bytes = i_bytes ino, pp_blocks = i_blocks ino, pp_mapping = None,
       pp_sb = i_sb ino, pp_blocksize = s_blocksize sb, pp_maxbytes = s_maxbytes sb,
       pp_fs_type = s_type sb, pp_root = s_root sb \<rparr>
   }"

definition ext4_file_write_iter_entry_handler :: "kconfig \<Rightarrow> kmem \<Rightarrow> pt_regs \<Rightarrow> koutcome" where
  "ext4_file_write_iter_entry_handler c m regs = arch_guard c (print_one (do {
     pp \<leftarrow> ext4_fill_probe_point m regs;
     fs_name_p \<leftarrow> km_fs_name m (pp_fs_type pp);
     fs_name \<leftarrow> km_str m fs_name_p;
     root \<leftarrow> km_dentry m (pp_root pp);
     root_name \<leftarrow> km_str m (d_name_name root);
     file_name \<leftarrow> km_str m (pp_name pp);
     iocb \<leftarrow> km_iocb m (pp_iocb pp);
     it \<leftarrow> km_iter m (pp_from pp);
     base \<leftarrow> km_iov m (it_iov it);
     Some (Klog KERN_INFO ''Function: ext4_file_write_iter in linux/fs/ext4/file.c''
       [Ks fs_name, Klu (unat (pp_blocksize pp)), Ks root_name,
        Kld (sint (pp_ino pp)), Ks file_name,
        Klld (sint (ki_pos iocb)), Kld (sint (it_count it)), KpK base])
   }))"

definition ext4_file_write_iter_ret_handler :: "kconfig \<Rightarrow> kmem \<Rightarrow> pt_regs \<Rightarrow> koutcome" where
  "ext4_file_write_iter_ret_handler c m regs =
     ([Klog KERN_INFO ''Return Function: ext4_file_write_iter''
        [Kld (sint (regs_return_value regs))]], Some 0)"

definition page_size :: u64 where
  "page_size = 4096"

definition first_offset :: "u64 \<Rightarrow> u64" where
  "first_offset pos = pos AND (page_size - 1)"

definition first_write_bytes :: "u64 \<Rightarrow> u64 \<Rightarrow> u64" where
  "first_write_bytes pos cnt = min (page_size - first_offset pos) cnt"

definition generic_perform_write_entry_handler :: "kconfig \<Rightarrow> kmem \<Rightarrow> pt_regs \<Rightarrow> koutcome" where
  "generic_perform_write_entry_handler c m regs = arch_guard c (print_one (do {
     i \<leftarrow> km_iter m (si regs);
     let pos = dx regs;
     let off = first_offset pos;
     let bytes = first_write_bytes pos (it_count i);
     Some (Klog KERN_INFO ''Function: generic_perform_write in linux/mm/filemap.c''
       [Kld (sint off), Kld (sint bytes)])
   }))"

definition generic_perform_write_ret_handler :: "kconfig \<Rightarrow> kmem \<Rightarrow> pt_regs \<Rightarrow> koutcome" where
  "generic_perform_write_ret_handler c m regs =
     ([Klog KERN_INFO ''Return Function: generic_perform_write''
        [Kld (sint (regs_return_value regs))]], Some 0)"

definition grab_cache_page_write_begin_entry_handler ::
  "kconfig \<Rightarrow> kmem \<Rightarrow> pt_regs \<Rightarrow> koutcome" where
  "grab_cache_page_write_begin_entry_handler c m regs = arch_guard c (print_one (do {
     mp \<leftarrow> km_mapping m (di regs);
     let index = si regs;
     let flags = (ucast (dx regs) :: u32);
     h \<leftarrow> km_inode m (host mp);
     Some (Klog KERN_INFO ''Function: grab_cache_page_write_begin in linux/mm/filemap.c''
       [Kld (sint (i_ino h)), Kld (sint (nrpages mp)), Kld (sint index), Kd (sint flags)])
   }))"

definition grab_cache_page_write_begin_ret_handler ::
  "kconfig \<Rightarrow> kmem \<Rightarrow> pt_regs \<Rightarrow> koutcome" where
  "grab_cache_page_write_begin_ret_handler c m regs =
     ([Klog KERN_INFO ''Return Function: grab_cache_page_write_begin''
        [KpK (regs_return_value regs)]], Some 0)"

definition iov_iter_copy_from_user_atomic_entry_handler ::
  "kconfig \<Rightarrow> kmem \<Rightarrow> pt_regs \<Rightarrow> koutcome" where
  "iov_iter_copy_from_user_atomic_entry_handler c m regs = arch_guard c (print_one (Some
     (Klog KERN_INFO ''Function: iov_iter_copy_from_user_atomic in linux/lib/iov_iter.c''
       [KpK (di regs), Kld (sint (dx regs)), Kld (sint (cx regs))])))"

definition iov_iter_copy_from_user_atomic_ret_handler ::
  "kconfig \<Rightarrow> kmem \<Rightarrow> pt_regs \<Rightarrow> koutcome" where
  "iov_iter_copy_from_user_atomic_ret_handler c m regs =
     ([Klog KERN_INFO ''Return Function: iov_iter_copy_from_user_atomic''
        [Kld (sint (regs_return_value regs))]], Some 0)"

definition submit_bh_entry_handler :: "kconfig \<Rightarrow> kmem \<Rightarrow> pt_regs \<Rightarrow> koutcome" where
  "submit_bh_entry_handler c m regs = arch_guard c (print_one (do {
     let opr = (ucast (di regs) :: u32);
     let op_flags = (ucast (si regs) :: u32);
     bh \<leftarrow> km_bh m (dx regs);
     Some (Klog KERN_INFO ''Function: submit_bh in linux/fs/buffer.c''
       [Kd (sint opr), Kd (sint op_flags), KpK (b_page bh),
        Klld (sint (b_blocknr bh)), Kld (sint (b_size bh))])
   }))"

definition submit_bh_ret_handler :: "kconfig \<Rightarrow> kmem \<Rightarrow> pt_regs \<Rightarrow> koutcome" where
  "submit_bh_ret_handler c m regs = ([], Some 0)"

definition has_submit_bio_op :: "kmem \<Rightarrow> kbio \<Rightarrow> bool option" where
  "has_submit_bio_op m bio = do {
     fops \<leftarrow> km_fops m (bi_disk bio);
     if fops \<noteq> 0 then do {
       sb \<leftarrow> km_submit m fops;
       Some (sb \<noteq> 0)
     } else Some False
   }"

fun bio_vec_loop :: "kmem \<Rightarrow> addr \<Rightarrow> nat \<Rightarrow> nat \<Rightarrow> koutcome" where
  "bio_vec_loop m vec i 0 = ([], Some 0)"
| "bio_vec_loop m vec i (Suc left) =
     (case km_bvec m vec i of
        None \<Rightarrow> ([], None)
      | Some bv \<Rightarrow>
          (let rest = bio_vec_loop m vec (Suc i) left
           in (Klog KERN_INFO ''io vector''
                 [Kd (int i), KpK (bv_page bv), Kd (sint (bv_offset bv)), Kd (sint (bv_len bv))]
               # fst rest, snd rest)))"

definition submit_bio_entry_handler :: "kconfig \<Rightarrow> kmem \<Rightarrow> pt_regs \<Rightarrow> koutcome" where
  "submit_bio_entry_handler c m regs = arch_guard c
     (case do { bio \<leftarrow> km_bio m (di regs); has \<leftarrow> has_submit_bio_op m bio; Some (bio, has) } of
        None \<Rightarrow> ([], None)
      | Some (bio, has) \<Rightarrow>
          (let vecs = bio_vec_loop m (bi_io_vec bio) 0 (unat (bi_vcnt bio))
           in (Klog KERN_INFO ''Function: submit_bio in linux/block/blk-core.c''
                 [Kd (if has then 1 else 0), Klld (sint (bi_sector bio)), Kd (sint (bi_size bio)),
                  Kd (int (unat (bi_vcnt bio))), Kd (int (unat (bi_max_vecs bio)))]
               # fst vecs, snd vecs)))"

definition submit_bio_ret_handler :: "kconfig \<Rightarrow> kmem \<Rightarrow> pt_regs \<Rightarrow> koutcome" where
  "submit_bio_ret_handler c m regs = ([], Some 0)"

definition scsi_queue_rq_entry_handler :: "kconfig \<Rightarrow> kmem \<Rightarrow> pt_regs \<Rightarrow> koutcome" where
  "scsi_queue_rq_entry_handler c m regs = arch_guard c (print_one (do {
     req \<leftarrow> km_bd m (si regs);
     qp \<leftarrow> km_rq m req;
     q \<leftarrow> km_queue m qp;
     sdev \<leftarrow> km_sdev m (queuedata q);
     ts \<leftarrow> km_host m (sdev_host sdev);
     Some (Klog KERN_INFO ''Function: scsi_queue_rq in linux/drivers/scsi/scsi_lib.c''
       [Kd (sint (q_queue_depth q)), Kd (sint (q_nr_hw_queues q)),
        Kd (int (unat (sdev_queue_depth sdev))), Kd (int (unat (max_queue_depth sdev))),
        Kd (sint (sdev_id sdev)), Kd (sint (channel sdev)), Klld (sint (lun sdev)),
        Kd (sint (sector_size sdev)), Kc (scsi_level sdev),
        Kd (sint (nr_maps ts)), Kd (sint (ts_nr_hw_queues ts)), Kd (sint (ts_queue_depth ts)),
        Kd (sint (numa_node ts))])
   }))"

definition scsi_queue_rq_ret_handler :: "kconfig \<Rightarrow> kmem \<Rightarrow> pt_regs \<Rightarrow> koutcome" where
  "scsi_queue_rq_ret_handler c m regs = ([], Some 0)"

section \<open>The probe table\<close>

record kretprobe =
  krp_symbol :: string
  krp_entry :: "kconfig \<Rightarrow> kmem \<Rightarrow> pt_regs \<Rightarrow> koutcome"
  krp_handler :: "kconfig \<Rightarrow> kmem \<Rightarrow> pt_regs \<Rightarrow> koutcome"
  krp_maxactive :: nat

definition do_sys_openat2_kretp :: kretprobe where
  "do_sys_openat2_kretp = \<lparr>krp_symbol = ''do_sys_openat2'',
     krp_entry = do_sys_openat2_entry_handler, krp_handler = do_sys_openat2_ret_handler,
     krp_maxactive = 0\<rparr>"

definition ext4_file_write_iter_kretp :: kretprobe where
  "ext4_file_write_iter_kretp = \<lparr>krp_symbol = ''ext4_file_write_iter'',
     krp_entry = ext4_file_write_iter_entry_handler,
     krp_handler = ext4_file_write_iter_ret_handler, krp_maxactive = 0\<rparr>"

definition generic_perform_write_kretp :: kretprobe where
  "generic_perform_write_kretp = \<lparr>krp_symbol = ''generic_perform_write'',
     krp_entry = generic_perform_write_entry_handler,
     krp_handler = generic_perform_write_ret_handler, krp_maxactive = 0\<rparr>"

definition grab_cache_page_write_begin_kretp :: kretprobe where
  "grab_cache_page_write_begin_kretp = \<lparr>krp_symbol = ''grab_cache_page_write_begin'',
     krp_entry = grab_cache_page_write_begin_entry_handler,
     krp_handler = grab_cache_page_write_begin_ret_handler, krp_maxactive = 0\<rparr>"

definition iov_iter_copy_from_user_kretp :: kretprobe where
  "iov_iter_copy_from_user_kretp = \<lparr>krp_symbol = ''iov_iter_copy_from_user_atomic'',
     krp_entry = iov_iter_copy_from_user_atomic_entry_handler,
     krp_handler = iov_iter_copy_from_user_atomic_ret_handler, krp_maxactive = 0\<rparr>"

definition submit_bh_kretp :: kretprobe where
  "submit_bh_kretp = \<lparr>krp_symbol = ''submit_bh'',
     krp_entry = submit_bh_entry_handler, krp_handler = submit_bh_ret_handler,
     krp_maxactive = 0\<rparr>"

definition submit_bio_kretp :: kretprobe where
  "submit_bio_kretp = \<lparr>krp_symbol = ''submit_bio'',
     krp_entry = submit_bio_entry_handler, krp_handler = submit_bio_ret_handler,
     krp_maxactive = 0\<rparr>"

definition scsi_queue_rq_kretp :: kretprobe where
  "scsi_queue_rq_kretp = \<lparr>krp_symbol = ''scsi_queue_rq'',
     krp_entry = scsi_queue_rq_entry_handler, krp_handler = scsi_queue_rq_ret_handler,
     krp_maxactive = 0\<rparr>"

definition iopath_kps :: "kprobe list" where
  "iopath_kps = []"

definition io_dynamic_kprobe_num :: nat where
  "io_dynamic_kprobe_num = 0"

definition io_dynamic_kretprobe_num :: nat where
  "io_dynamic_kretprobe_num = 8"

definition iopath_kretps :: "kretprobe list" where
  "iopath_kretps = [do_sys_openat2_kretp, ext4_file_write_iter_kretp,
     generic_perform_write_kretp, grab_cache_page_write_begin_kretp,
     iov_iter_copy_from_user_kretp, submit_bh_kretp, submit_bio_kretp, scsi_queue_rq_kretp]"

lemmas kretp_defs =
  do_sys_openat2_kretp_def ext4_file_write_iter_kretp_def generic_perform_write_kretp_def
  grab_cache_page_write_begin_kretp_def iov_iter_copy_from_user_kretp_def submit_bh_kretp_def
  submit_bio_kretp_def scsi_queue_rq_kretp_def

lemmas entry_handler_defs =
  do_sys_openat2_entry_handler_def ext4_file_write_iter_entry_handler_def
  generic_perform_write_entry_handler_def grab_cache_page_write_begin_entry_handler_def
  iov_iter_copy_from_user_atomic_entry_handler_def submit_bh_entry_handler_def
  submit_bio_entry_handler_def scsi_queue_rq_entry_handler_def

lemmas ret_handler_defs =
  do_sys_openat2_ret_handler_def ext4_file_write_iter_ret_handler_def
  generic_perform_write_ret_handler_def grab_cache_page_write_begin_ret_handler_def
  iov_iter_copy_from_user_atomic_ret_handler_def submit_bh_ret_handler_def
  submit_bio_ret_handler_def scsi_queue_rq_ret_handler_def

section \<open>Static trace points\<close>

definition ext4_da_write_begin_trace :: "kmem \<Rightarrow> addr \<Rightarrow> u64 \<Rightarrow> u32 \<Rightarrow> u32 \<Rightarrow> klog list option" where
  "ext4_da_write_begin_trace m inode pos len flags = do {
     ino \<leftarrow> km_inode m inode;
     Some [Klog KERN_INFO ''Function: ext4_da_write_begin in linux/fs/ext4/inode.c''
       [Kld (sint (i_ino ino)), Klld (sint pos), Kd (sint len), Kd (sint flags)]]
   }"

definition ext4_da_write_end_trace :: "kmem \<Rightarrow> addr \<Rightarrow> u64 \<Rightarrow> u32 \<Rightarrow> u32 \<Rightarrow> klog list option" where
  "ext4_da_write_end_trace m inode pos len copied = do {
     ino \<leftarrow> km_inode m inode;
     Some [Klog KERN_INFO ''Function: ext4_da_write_end!''
       [Kld (sint (i_ino ino)), Klld (sint pos), Kd (sint len), Kd (sint copied)]]
   }"

definition block_getrq_trace :: "kmem \<Rightarrow> addr \<Rightarrow> klog list" where
  "block_getrq_trace m bio = [Klog KERN_INFO ''Function: block_getrq!'' []]"

section \<open>Load and unload\<close>

text \<open>
  What the module changes in the kernel: the registered probes and trace points, and the
  log. The kernel's registration functions are parameters, collected in a record;
  \<open>kapi_ok\<close> states what the kernel documents of them: \<^verbatim>\<open>register_kretprobes\<close> registers
  the first \<open>n\<close> probes or, when it returns a negative error, none of them;
  \<^verbatim>\<open>unregister_kprobes\<close> removes plain probes and touches no return probe;
  the trace functions add and remove one trace point.
\<close>

record kstate =
  ks_kretprobes :: "string list"
  ks_kprobes :: "string list"
  ks_traces :: "string list"
  ks_log :: "klog list"
  ks_warned :: nat

record kapi =
  register_kretprobes :: "kretprobe list \<Rightarrow> nat \<Rightarrow> kstate \<Rightarrow> int \<times> kstate"
  unregister_kprobes :: "kprobe list \<Rightarrow> nat \<Rightarrow> kstate \<Rightarrow> kstate"
  register_trace :: "string \<Rightarrow> kstate \<Rightarrow> int \<times> kstate"
  unregister_trace :: "string \<Rightarrow> kstate \<Rightarrow> kstate"

definition printk :: "klog \<Rightarrow> kstate \<Rightarrow> kstate" where
  "printk l s = s\<lparr>ks_log := ks_log s @ [l]\<rparr>"

definition warn_on :: "int \<Rightarrow> kstate \<Rightarrow> kstate" where
  "warn_on r s = (if r \<noteq> 0 then s\<lparr>ks_warned := Suc (ks_warned s)\<rparr> else s)"

definition register_static_io_trace :: "kapi \<Rightarrow> kstate \<Rightarrow> kstate" where
  "register_static_io_trace k s =
     (let (r1, s1) = register_trace k ''ext4_da_write_begin'' s; s1 = warn_on r1 s1;
          (r2, s2) = register_trace k ''ext4_da_write_end'' s1; s2 = warn_on r2 s2;
          (r3, s3) = register_trace k ''block_getrq'' s2
      in warn_on r3 s3)"

definition unregister_static_io_trace :: "kapi \<Rightarrow> kstate \<Rightarrow> kstate" where
  "unregister_static_io_trace k s =
     unregister_trace k ''block_getrq''
       (unregister_trace k ''ext4_da_write_end'' (unregister_trace k ''ext4_da_write_begin'' s))"

definition kvisual_init :: "kapi \<Rightarrow> kstate \<Rightarrow> int \<times> kstate" where
  "kvisual_init k s =
     (let (ret, s1) = register_kretprobes k iopath_kretps io_dynamic_kretprobe_num s
      in if ret < 0
         then (ret, printk (Klog KERN_ERR ''register_kretprobe failed, returned'' [Kd ret]) s1)
         else (0, printk (Klog KERN_INFO ''Welcome to Kernel Visualization!'' [])
                    (register_static_io_trace k s1)))"

definition kvisual_exit :: "kapi \<Rightarrow> kstate \<Rightarrow> kstate" where
  "kvisual_exit k s =
     printk (Klog KERN_DEFAULT ''Kernel Visualization exit!'' [])
       (unregister_static_io_trace k (unregister_kprobes k iopath_kps io_dynamic_kprobe_num s))"

definition kapi_ok :: "kapi \<Rightarrow> bool" where
  "kapi_ok k \<longleftrightarrow>
     (\<forall>ps n s r s'. register_kretprobes k ps n s = (r, s') \<longrightarrow>
        s'\<lparr>ks_kretprobes := ks_kretprobes s\<rparr> = s \<and>
        ks_kretprobes s' =
          (if r < 0 then ks_kretprobes s else ks_kretprobes s @ map krp_symbol (take n ps))) \<and>
     (\<forall>ps n s. ks_kretprobes (unregister_kprobes k ps n s) = ks_kretprobes s \<and>
        ks_traces (unregister_kprobes k ps n s) = ks_traces s) \<and>
     (\<forall>t s r s'. register_trace k t s = (r, s') \<longrightarrow>
        ks_kretprobes s' = ks_kretprobes s \<and>
        ks_traces s' = (if r = 0 then ks_traces s @ [t] else ks_traces s)) \<and>
     (\<forall>t s. ks_kretprobes (unregister_trace k t s) = ks_kretprobes s \<and>
        ks_traces (unregister_trace k t s) = removeAll t (ks_traces s))"

text \<open>A kernel whose registrations always succeed, for the witnesses.\<close>

definition kapi_plain :: kapi where
  "kapi_plain = \<lparr>
     register_kretprobes = (\<lambda>ps n s. (0, s\<lparr>ks_kretprobes := ks_kretprobes s @ map krp_symbol (take n ps)\<rparr>)),
     unregister_kprobes = (\<lambda>ps n s. s\<lparr>ks_kprobes := filter (\<lambda>x. x \<notin> set (map symbol_name (take n ps))) (ks_kprobes s)\<rparr>),
     register_trace = (\<lambda>t s. (0, s\<lparr>ks_traces := ks_traces s @ [t]\<rparr>)),
     unregister_trace = (\<lambda>t s. s\<lparr>ks_traces := removeAll t (ks_traces s)\<rparr>)\<rparr>"

definition kstate_empty :: kstate where
  "kstate_empty = \<lparr>ks_kretprobes = [], ks_kprobes = [], ks_traces = [], ks_log = [], ks_warned = 0\<rparr>"

lemma kapi_plain_ok: "kapi_ok kapi_plain"
  by (auto simp: kapi_ok_def kapi_plain_def)

lemma kapi_okD:
  assumes "kapi_ok k"
  shows "register_kretprobes k ps n s = (r, s') \<Longrightarrow> ks_kretprobes s' =
           (if r < 0 then ks_kretprobes s else ks_kretprobes s @ map krp_symbol (take n ps))"
    and "register_kretprobes k ps n s = (r, s') \<Longrightarrow> ks_traces s' = ks_traces s"
    and "ks_kretprobes (unregister_kprobes k qs n s) = ks_kretprobes s"
    and "ks_traces (unregister_kprobes k qs n s) = ks_traces s"
    and "register_trace k t s = (r, s') \<Longrightarrow> ks_kretprobes s' = ks_kretprobes s"
    and "register_trace k t s = (r, s') \<Longrightarrow>
           ks_traces s' = (if r = 0 then ks_traces s @ [t] else ks_traces s)"
    and "ks_kretprobes (unregister_trace k t s) = ks_kretprobes s"
    and "ks_traces (unregister_trace k t s) = removeAll t (ks_traces s)"
  using assms unfolding kapi_ok_def
  by (metis kstate.select_convs(3) kstate.surjective kstate.update_convs(1))+

section \<open>Behaviour of the handlers\<close>

lemma arch_guard_supported [simp]:
  "config_x86 c \<Longrightarrow> config_x86_64 c \<Longrightarrow> arch_guard c body = body"
  by (simp add: arch_guard_def kvisual_supported_arch_def)

lemma arch_guard_unsupported:
  "\<not> (config_x86 c \<and> config_x86_64 c) \<Longrightarrow>
   arch_guard c body = ([Klog KERN_INFO ''Only x86 is supported!'' []], Some (-1))"
  by (auto simp: arch_guard_def kvisual_supported_arch_def)

lemma first_offset_mod: "unat (first_offset pos) = unat pos mod 4096"
proof -
  have "first_offset pos = pos AND mask 12"
    by (simp add: first_offset_def page_size_def mask_eq_exp_minus_1)
  then show ?thesis by (simp add: unat_and_mask_mod)
qed

lemma first_write_bytes_min:
  "unat (first_write_bytes pos cnt) = min (4096 - unat pos mod 4096) (unat cnt)"
proof -
  have off: "unat (first_offset pos) = unat pos mod 4096" by (rule first_offset_mod)
  then have le: "first_offset pos \<le> page_size"
    by (simp add: word_le_nat_alt page_size_def less_imp_le)
  have "unat (page_size - first_offset pos) = 4096 - unat pos mod 4096"
    using unat_sub [OF le] off by (simp add: page_size_def)
  then show ?thesis
    by (auto simp: first_write_bytes_def min_def word_le_nat_alt)
qed

lemma sint_small: "unat (w :: u64) < 2 ^ 63 \<Longrightarrow> sint w = int (unat w)"
  by (rule sint_unat_small) simp

lemma bio_vec_loop_log:
  assumes "\<forall>j < left. km_bvec m vec (i + j) = Some (bvs j)"
  shows "bio_vec_loop m vec i left =
    (map (\<lambda>j. Klog KERN_INFO ''io vector''
       [Kd (int (i + j)), KpK (bv_page (bvs j)), Kd (sint (bv_offset (bvs j))),
        Kd (sint (bv_len (bvs j)))]) [0..<left], Some 0)"
  using assms
proof (induction left arbitrary: i bvs)
  case 0
  then show ?case by simp
next
  case (Suc left)
  from Suc.prems have "km_bvec m vec i = Some (bvs 0)" by auto
  moreover have "\<forall>j < left. km_bvec m vec (Suc i + j) = Some (bvs (Suc j))"
    using Suc.prems by auto
  note Suc.IH [OF this]
  ultimately show ?case
    by (simp add: Let_def map_upt_Suc del: upt_Suc)
qed

lemma bio_vec_loop_fault:
  assumes "\<forall>j < k. km_bvec m vec (i + j) \<noteq> None"
    and "km_bvec m vec (i + k) = None" and "k < left"
  shows "snd (bio_vec_loop m vec i left) = None \<and> length (fst (bio_vec_loop m vec i left)) = k"
  using assms
proof (induction k arbitrary: i left)
  case 0
  then show ?case by (cases left) simp_all
next
  case (Suc k)
  then obtain left' where left: "left = Suc left'" by (cases left) simp_all
  from Suc.prems(1) obtain bv where bv: "km_bvec m vec i = Some bv" by force
  have "\<forall>j < k. km_bvec m vec (Suc i + j) \<noteq> None"
    using Suc.prems(1) by (metis Suc_less_eq add_Suc add_Suc_right)
  from Suc.IH [OF this] Suc.prems(2,3) left bv show ?case
    by (simp add: Let_def)
qed

text \<open>
  C34: the page-cache handler reports, for a write at file position \<open>pos\<close> with \<open>count\<close> bytes
  left, the offset of \<open>pos\<close> in its page and the number of bytes that go to that first page:
  all of the rest of the page or all of the request, whichever is smaller. The first chunk
  never crosses the page.
\<close>

theorem generic_perform_write_reports_first_chunk:
  assumes "config_x86 c" and "config_x86_64 c" and "km_iter m (si regs) = Some it"
  shows "generic_perform_write_entry_handler c m regs =
    ([Klog KERN_INFO ''Function: generic_perform_write in linux/mm/filemap.c''
       [Kld (int (unat (dx regs) mod 4096)),
        Kld (int (min (4096 - unat (dx regs) mod 4096) (unat (it_count it))))]], Some 0)
    \<and> unat (first_offset (dx regs)) + unat (first_write_bytes (dx regs) (it_count it)) \<le> 4096"
proof -
  let ?p = "dx regs" and ?n = "it_count it"
  have "unat (first_offset ?p) < 2 ^ 63"
    using mod_less_divisor [of 4096 "unat ?p"] by (simp add: first_offset_mod)
  then have o: "sint (first_offset ?p) = int (unat ?p mod 4096)"
    by (simp add: sint_small first_offset_mod)
  have "unat (first_write_bytes ?p ?n) \<le> 4096"
    by (simp add: first_write_bytes_min)
  then have b: "sint (first_write_bytes ?p ?n) = int (min (4096 - unat ?p mod 4096) (unat ?n))"
    by (simp add: sint_small first_write_bytes_min)
  have "unat (first_offset ?p) + unat (first_write_bytes ?p ?n) \<le> 4096"
    using mod_less_divisor [of 4096 "unat ?p"]
    by (simp add: first_offset_mod first_write_bytes_min)
  with assms o b show ?thesis
    by (simp add: generic_perform_write_entry_handler_def Let_def)
qed

definition kmem_empty :: kmem where
  "kmem_empty = \<lparr>km_str = Map.empty, km_how = Map.empty, km_iocb = Map.empty,
     km_iter = Map.empty, km_iov = Map.empty, km_file = Map.empty, km_dentry = Map.empty,
     km_inode = Map.empty, km_super = Map.empty, km_fs_name = Map.empty,
     km_mapping = Map.empty, km_bh = Map.empty, km_bio = Map.empty, km_bvec = (\<lambda>_. Map.empty),
     km_fops = Map.empty, km_submit = Map.empty, km_bd = Map.empty, km_rq = Map.empty,
     km_queue = Map.empty, km_sdev = Map.empty, km_host = Map.empty\<rparr>"

lemma generic_perform_write_reports_first_chunk_witness:
  "generic_perform_write_entry_handler \<lparr>config_x86 = True, config_x86_64 = True\<rparr>
     (kmem_empty\<lparr>km_iter := [64 \<mapsto> \<lparr>it_count = 10000, it_iov = 0\<rparr>]\<rparr>)
     \<lparr>di = 0, si = 64, dx = 8292, cx = 0, ax = 0\<rparr> =
   ([Klog KERN_INFO ''Function: generic_perform_write in linux/mm/filemap.c''
       [Kld 100, Kld 3996]], Some 0)"
  using generic_perform_write_reports_first_chunk
    [of "\<lparr>config_x86 = True, config_x86_64 = True\<rparr>"
        "kmem_empty\<lparr>km_iter := [64 \<mapsto> \<lparr>it_count = 10000, it_iov = 0\<rparr>]\<rparr>"
        "\<lparr>di = 0, si = 64, dx = 8292, cx = 0, ax = 0\<rparr>" "\<lparr>it_count = 10000, it_iov = 0\<rparr>"]
  by simp

text \<open>
  the bio handler prints one line for the bio and then exactly one line per
  \<open>bio_vec\<close>, numbered 0 to \<open>bi_vcnt - 1\<close> in order, and says whether the disk's
  operations have a \<open>submit_bio\<close>.
\<close>

theorem submit_bio_prints_every_vector:
  assumes "config_x86 c" and "config_x86_64 c" and "km_bio m (di regs) = Some bio"
    and "has_submit_bio_op m bio = Some has"
    and "\<forall>j < unat (bi_vcnt bio). km_bvec m (bi_io_vec bio) j = Some (bvs j)"
  shows "submit_bio_entry_handler c m regs =
    (Klog KERN_INFO ''Function: submit_bio in linux/block/blk-core.c''
       [Kd (of_bool has), Klld (sint (bi_sector bio)), Kd (sint (bi_size bio)),
        Kd (int (unat (bi_vcnt bio))), Kd (int (unat (bi_max_vecs bio)))]
     # map (\<lambda>j. Klog KERN_INFO ''io vector''
         [Kd (int j), KpK (bv_page (bvs j)), Kd (sint (bv_offset (bvs j))),
          Kd (sint (bv_len (bvs j)))]) [0..<unat (bi_vcnt bio)], Some 0)"
  using assms bio_vec_loop_log [of "unat (bi_vcnt bio)" m "bi_io_vec bio" 0 bvs]
  by (simp add: submit_bio_entry_handler_def Let_def)

definition bio_example :: kbio where
  "bio_example = \<lparr>bi_disk = 8, bi_sector = 2048, bi_size = 8192, bi_vcnt = 2,
     bi_max_vecs = 4, bi_io_vec = 96\<rparr>"

definition bvec_example :: "nat \<Rightarrow> kbio_vec" where
  "bvec_example j = \<lparr>bv_page = of_nat (4096 * j), bv_len = 4096, bv_offset = 0\<rparr>"

definition bio_mem_example :: kmem where
  "bio_mem_example = kmem_empty\<lparr>km_bio := [16 \<mapsto> bio_example], km_fops := [8 \<mapsto> 24],
     km_submit := [24 \<mapsto> 0], km_bvec := (\<lambda>a j. if a = 96 then Some (bvec_example j) else None)\<rparr>"

lemma submit_bio_prints_every_vector_witness:
  "length (fst (submit_bio_entry_handler \<lparr>config_x86 = True, config_x86_64 = True\<rparr>
     bio_mem_example \<lparr>di = 16, si = 0, dx = 0, cx = 0, ax = 0\<rparr>)) = 3"
proof -
  have "has_submit_bio_op bio_mem_example bio_example = Some False"
    by (simp add: has_submit_bio_op_def bio_mem_example_def bio_example_def)
  from submit_bio_prints_every_vector [of "\<lparr>config_x86 = True, config_x86_64 = True\<rparr>"
      bio_mem_example "\<lparr>di = 16, si = 0, dx = 0, cx = 0, ax = 0\<rparr>" bio_example False
      bvec_example, OF _ _ _ this]
  show ?thesis by (simp add: bio_mem_example_def bio_example_def)
qed

text \<open>
  on a kernel that is not x86-64, every probe of the table refuses in its entry handler:
  it prints the one refusal line, touches no argument and returns -1, so the return handler
  of that call is never armed.
\<close>

theorem entry_handlers_refuse_other_arch:
  assumes "\<not> (config_x86 c \<and> config_x86_64 c)" and "p \<in> set iopath_kretps"
  shows "krp_entry p c m regs = ([Klog KERN_INFO ''Only x86 is supported!'' []], Some (-1))"
  using assms(2)
  by (auto simp: iopath_kretps_def kretp_defs entry_handler_defs
      arch_guard_unsupported [OF assms(1)])

lemma entry_handlers_refuse_other_arch_witness:
  "krp_entry submit_bio_kretp \<lparr>config_x86 = True, config_x86_64 = False\<rparr> kmem_empty
     \<lparr>di = 0, si = 0, dx = 0, cx = 0, ax = 0\<rparr> =
   ([Klog KERN_INFO ''Only x86 is supported!'' []], Some (-1))"
  by (rule entry_handlers_refuse_other_arch) (simp_all add: iopath_kretps_def)

lemma iopath_kretps_length: "length iopath_kretps = io_dynamic_kretprobe_num"
  by (simp add: iopath_kretps_def io_dynamic_kretprobe_num_def)

lemma iopath_kretps_distinct: "distinct (map krp_symbol iopath_kretps)"
  by (simp add: iopath_kretps_def kretp_defs)

lemma take_iopath_kretps [simp]: "take io_dynamic_kretprobe_num iopath_kretps = iopath_kretps"
  by (simp flip: iopath_kretps_length)

lemma printk_frame [simp]:
  "ks_kretprobes (printk l s) = ks_kretprobes s" "ks_traces (printk l s) = ks_traces s"
  by (simp_all add: printk_def)

lemma warn_on_frame [simp]:
  "ks_kretprobes (warn_on r s) = ks_kretprobes s" "ks_traces (warn_on r s) = ks_traces s"
  by (simp_all add: warn_on_def)

lemma register_static_io_trace_frame:
  assumes "kapi_ok k"
  shows "ks_kretprobes (register_static_io_trace k s) = ks_kretprobes s"
    and "set (ks_traces (register_static_io_trace k s)) \<subseteq>
      set (ks_traces s) \<union> {''ext4_da_write_begin'', ''ext4_da_write_end'', ''block_getrq''}"
  by (auto simp: register_static_io_trace_def Let_def kapi_okD [OF assms]
      split: prod.splits if_splits)

lemma unregister_static_io_trace_frame:
  assumes "kapi_ok k"
  shows "ks_kretprobes (unregister_static_io_trace k s) = ks_kretprobes s"
    and "set (ks_traces (unregister_static_io_trace k s)) =
      set (ks_traces s) - {''ext4_da_write_begin'', ''ext4_da_write_end'', ''block_getrq''}"
  by (auto simp: unregister_static_io_trace_def kapi_okD [OF assms])

text \<open>
  C36: loading is all or nothing for the probes. When the kernel refuses them the module
  returns its error, leaves the registered probes and trace points as they were and has
  printed the refusal; otherwise it returns 0 with the eight probes registered, in order.
\<close>

theorem kvisual_init_all_or_nothing:
  assumes "kapi_ok k" and "kvisual_init k s = (r, s')"
  shows "if r < 0
    then ks_kretprobes s' = ks_kretprobes s \<and> ks_traces s' = ks_traces s \<and>
      last (ks_log s') = Klog KERN_ERR ''register_kretprobe failed, returned'' [Kd r]
    else r = 0 \<and> ks_kretprobes s' = ks_kretprobes s @ map krp_symbol iopath_kretps \<and>
      last (ks_log s') = Klog KERN_INFO ''Welcome to Kernel Visualization!'' []"
  using assms(2)
  by (auto simp: kvisual_init_def printk_def kapi_okD [OF assms(1)] register_static_io_trace_frame [OF assms(1)]
      split: prod.splits if_splits)

lemma kvisual_init_all_or_nothing_witness:
  "ks_kretprobes (snd (kvisual_init kapi_plain kstate_empty)) =
     [''do_sys_openat2'', ''ext4_file_write_iter'', ''generic_perform_write'',
      ''grab_cache_page_write_begin'', ''iov_iter_copy_from_user_atomic'', ''submit_bh'',
      ''submit_bio'', ''scsi_queue_rq'']"
proof -
  obtain s' where s': "kvisual_init kapi_plain kstate_empty = (0, s')"
    by (simp add: kvisual_init_def kapi_plain_def)
  from kvisual_init_all_or_nothing [OF kapi_plain_ok s'] s' show ?thesis
    by (simp add: kstate_empty_def iopath_kretps_def kretp_defs)
qed

text \<open>
  C40: unloading removes the trace points the module may have added but none of its return
  probes: \<^verbatim>\<open>kvisual_exit\<close> calls \<^verbatim>\<open>unregister_kprobes\<close> on the empty table of plain
  probes, so after a successful load and an unload all eight return probes are still
  registered, with handlers in memory the kernel has freed.
\<close>

theorem kvisual_exit_leaks_kretprobes:
  assumes "kapi_ok k" and "kvisual_init k s = (0, s1)"
  shows "ks_kretprobes (kvisual_exit k s1) = ks_kretprobes s @ map krp_symbol iopath_kretps \<and>
    set (ks_traces (kvisual_exit k s1)) \<inter>
      {''ext4_da_write_begin'', ''ext4_da_write_end'', ''block_getrq''} = {}"
proof
  have "ks_kretprobes s1 = ks_kretprobes s @ map krp_symbol iopath_kretps"
    using assms(2)
    by (auto simp: kvisual_init_def kapi_okD [OF assms(1)]
        register_static_io_trace_frame [OF assms(1)] split: prod.splits if_splits)
  then show "ks_kretprobes (kvisual_exit k s1) = ks_kretprobes s @ map krp_symbol iopath_kretps"
    by (simp add: kvisual_exit_def unregister_static_io_trace_frame [OF assms(1)]
        kapi_okD [OF assms(1)])
  show "set (ks_traces (kvisual_exit k s1)) \<inter>
      {''ext4_da_write_begin'', ''ext4_da_write_end'', ''block_getrq''} = {}"
    by (auto simp: kvisual_exit_def unregister_static_io_trace_frame [OF assms(1)]
        kapi_okD [OF assms(1)])
qed

lemma kvisual_exit_leaks_kretprobes_witness:
  "length (ks_kretprobes (kvisual_exit kapi_plain (snd (kvisual_init kapi_plain kstate_empty)))) = 8"
proof -
  obtain s' where s': "kvisual_init kapi_plain kstate_empty = (0, s')"
    by (simp add: kvisual_init_def kapi_plain_def)
  from kvisual_exit_leaks_kretprobes [OF kapi_plain_ok s'] s' show ?thesis
    by (simp add: kstate_empty_def iopath_kretps_def)
qed

end
