(* ===== verification/DomainCodec.thy ===== *)
theory DomainCodec
  imports Prelude
begin

text \<open>
  \<^verbatim>\<open>networking/udhcp/domain_codec.c\<close>: the RFC 1035 encoding of domain names that the
  DHCP client and server exchange. \<open>dname_dec\<close> expands a compressed list of names from an
  untrusted packet; \<open>convert_dname\<close> and \<open>dname_enc\<close> encode one name.
  Every read of the packet and every write of the result buffer is checked in the model: a
  read or write out of bounds is the outcome \<open>Fault\<close>, an error return is \<open>Null\<close>.
\<close>

section \<open>Decoding\<close>

definition ns_maxdname :: nat where "ns_maxdname = 1025"
definition ns_maxcdname :: nat where "ns_maxcdname = 255"
definition ns_maxlabel :: nat where "ns_maxlabel = 63"
definition ns_maxdnsrch :: nat where "ns_maxdnsrch = 6"
definition ns_cmprsflgs :: u8 where "ns_cmprsflgs = 0xc0"

lemmas ns_defs = ns_maxdname_def ns_maxcdname_def ns_maxlabel_def ns_maxdnsrch_def

text \<open>
  The variables of one pass: the position in the packet, the top-level position to come
  back to (0 at the top level), the number of jumps since then, the length of the result so
  far, and the result buffer, \<open>None\<close> on the first, measuring pass.
\<close>

record dn =
  crtpos :: nat
  retpos :: nat
  depth :: nat
  dlen :: nat
  dst :: "u8 list option"

definition dname_pointer :: "u8 list \<Rightarrow> nat \<Rightarrow> dn \<Rightarrow> u8 \<Rightarrow> dn outcome" where
  "dname_pointer cstr clen s c =
     (if crtpos s + 2 > clen then Null
      else case rd cstr (crtpos s + 1) of
        None \<Rightarrow> Fault
      | Some c1 \<Rightarrow>
          Ok (s\<lparr>retpos := (if retpos s = 0 then crtpos s + 2 else retpos s),
                depth := Suc (depth s),
                crtpos := unat (c AND 0x3f) * 256 + unat c1\<rparr>))"

definition dname_label :: "u8 list \<Rightarrow> nat \<Rightarrow> dn \<Rightarrow> u8 \<Rightarrow> dn outcome" where
  "dname_label cstr clen s c =
     (if crtpos s + unat c + 1 > clen then Null
      else case (case dst s of None \<Rightarrow> Some None
                 | Some b \<Rightarrow> do { bs \<leftarrow> rd_n cstr (crtpos s + 1) (unat c);
                               b' \<leftarrow> wr_n b (dlen s) (bs @ [0x2e]);
                               Some (Some b') }) of
        None \<Rightarrow> Fault
      | Some d \<Rightarrow> Ok (s\<lparr>dst := d, dlen := dlen s + unat c + 1,
                        crtpos := crtpos s + unat c + 1\<rparr>))"

definition dname_nul :: "dn \<Rightarrow> dn outcome" where
  "dname_nul s =
     (let s1 = (if retpos s = 0 then s\<lparr>crtpos := Suc (crtpos s)\<rparr>
                else s\<lparr>crtpos := retpos s, retpos := 0, depth := 0\<rparr>)
      in case dst s of
        None \<Rightarrow> Ok s1
      | Some b \<Rightarrow>
          (if dlen s = 0 then Ok s1
           else (case wr_n b (dlen s - 1) [0x20] of
                   None \<Rightarrow> Fault
                 | Some b' \<Rightarrow> Ok (s1\<lparr>dst := Some b'\<rparr>))))"

definition dname_step :: "u8 list \<Rightarrow> nat \<Rightarrow> dn \<Rightarrow> dn outcome" where
  "dname_step cstr clen s =
     (case rd cstr (crtpos s) of
        None \<Rightarrow> Fault
      | Some c \<Rightarrow>
          (case (if c AND ns_cmprsflgs = ns_cmprsflgs then dname_pointer cstr clen s c
                 else if c \<noteq> 0 then dname_label cstr clen s c
                 else dname_nul s) of
             Null \<Rightarrow> Null
           | Fault \<Rightarrow> Fault
           | Ok s' \<Rightarrow>
               if depth s' > ns_maxdnsrch \<or> dlen s' > ns_maxdname * ns_maxdnsrch
               then Null else Ok s'))"

text \<open>
  The inner loop stops: the top-level position never goes back, between two of its moves
  there are at most six jumps, and between two jumps the position grows.
\<close>

definition dname_rank :: "nat \<Rightarrow> dn \<Rightarrow> nat" where
  "dname_rank clen s =
     (if retpos s = 0 then 2 * (clen - crtpos s) else Suc (2 * (clen - retpos s)))"

lemma dname_step_decreases:
  assumes "dname_step cstr clen s = Ok s'" and "crtpos s < clen"
  shows "(s', s) \<in> measures [dname_rank clen, \<lambda>s. Suc ns_maxdnsrch - depth s, \<lambda>s. clen - crtpos s]"
  using assms
  by (auto simp: dname_step_def dname_pointer_def dname_label_def dname_nul_def Let_def
      dname_rank_def split: option.splits if_splits outcome.splits)

function dname_pass :: "u8 list \<Rightarrow> nat \<Rightarrow> dn \<Rightarrow> dn outcome" where
  "dname_pass cstr clen s =
     (if crtpos s < clen then
        case dname_step cstr clen s of
          Null \<Rightarrow> Null
        | Fault \<Rightarrow> Fault
        | Ok s' \<Rightarrow> dname_pass cstr clen s'
      else Ok s)"
  by pat_completeness auto
termination
  by (relation "inv_image (measures [\<lambda>(c, n, s). dname_rank n s,
        \<lambda>(c, n, s). Suc ns_maxdnsrch - depth s, \<lambda>(c, n, s). n - crtpos s]) (\<lambda>x. x)")
    (use dname_step_decreases in \<open>fastforce\<close>)+

declare dname_pass.simps [simp del]

definition dn_start :: "u8 list option \<Rightarrow> dn" where
  "dn_start b = \<lparr>crtpos = 0, retpos = 0, depth = 0, dlen = 0, dst = b\<rparr>"

text \<open>
  The two passes: measure, allocate \<open>plen + len\<close> bytes (uninitialised: the parameter
  \<open>junk\<close> is what they hold), copy \<open>pre\<close>, expand, terminate. The result is the content of
  the returned buffer.
\<close>

definition dname_dec :: "u8 \<Rightarrow> u8 list \<Rightarrow> nat \<Rightarrow> u8 list \<Rightarrow> u8 list outcome" where
  "dname_dec junk cstr clen pre =
     (case dname_pass cstr clen (dn_start None) of
        Null \<Rightarrow> Null
      | Fault \<Rightarrow> Fault
      | Ok s1 \<Rightarrow>
          (if dlen s1 = 0 then Null
           else (case dname_pass cstr clen (dn_start (Some (replicate (dlen s1) junk))) of
                   Null \<Rightarrow> Null
                 | Fault \<Rightarrow> Fault
                 | Ok s2 \<Rightarrow>
                     (if dlen s2 = 0 then Null
                      else (case Option.bind (dst s2) (\<lambda>b. wr_n b (dlen s2 - 1) [0]) of
                              None \<Rightarrow> Fault
                            | Some b \<Rightarrow> Ok (pre @ b))))))"

section \<open>Encoding\<close>

text \<open>
  \<open>convert_dname\<close>: \<open>done\<close> is the finished part of the result, \<open>lab\<close> the label being
  read, whose length byte \<open>lenptr\<close> points at; \<open>dst - res\<close> is
  \<open>length done + 1 + length lab\<close>. The source is a C string, so its end is its NUL.
\<close>

fun convert_dname_loop :: "u8 list \<Rightarrow> u8 list \<Rightarrow> u8 list \<Rightarrow> u8 list option" where
  "convert_dname_loop done lab [] =
     (let len = length lab
      in if len > ns_maxlabel \<or> len = 0 then None
         else Some (done @ [of_nat len] @ lab))"
| "convert_dname_loop done lab (c # src) =
     (if c = 0x2e then
        (let len = length lab
         in if len > ns_maxlabel \<or> len = 0 \<or> (src \<noteq> [] \<and> hd src = 0x2e) then None
            else if src = [] then Some (done @ [of_nat len] @ lab)
            else convert_dname_loop (done @ [of_nat len] @ lab) [] src)
      else convert_dname_loop done
             (lab @ [if 0x41 \<le> c \<and> c \<le> 0x5a then c + (0x61 - 0x41) else c]) src)"

definition convert_dname :: "u8 list \<Rightarrow> u8 list option" where
  "convert_dname src =
     (case convert_dname_loop [] [] src of
        None \<Rightarrow> None
      | Some res \<Rightarrow> if length res \<ge> ns_maxcdname then None else Some (res @ [0]))"

definition dname_enc :: "u8 list \<Rightarrow> u8 list option" where
  "dname_enc src = convert_dname src"

section \<open>Memory safety of the decoder\<close>

abbreviation erase :: "dn \<Rightarrow> dn" where
  "erase s \<equiv> s\<lparr>dst := None\<rparr>"

lemma dname_step_measuring_no_fault:
  assumes "dst s = None" and "clen \<le> length cstr" and "crtpos s < clen"
  shows "dname_step cstr clen s \<noteq> Fault"
  using assms
  by (auto simp: dname_step_def dname_pointer_def dname_label_def dname_nul_def Let_def
      split: option.splits if_splits outcome.splits)

lemma dname_step_dlen_mono: "dname_step cstr clen s = Ok s' \<Longrightarrow> dlen s \<le> dlen s'"
  by (auto simp: dname_step_def dname_pointer_def dname_label_def dname_nul_def Let_def
      split: option.splits if_splits outcome.splits)

lemma dname_step_dst_None: "dname_step cstr clen s = Ok s' \<Longrightarrow> dst s = None \<Longrightarrow> dst s' = None"
  by (auto simp: dname_step_def dname_pointer_def dname_label_def dname_nul_def Let_def
      split: option.splits if_splits outcome.splits)

lemma dname_step_dlen_bound: "dname_step cstr clen s = Ok s' \<Longrightarrow> dlen s' \<le> ns_maxdname * ns_maxdnsrch"
  by (auto simp: dname_step_def split: option.splits if_splits outcome.splits)

text \<open>A step of the filling pass follows the measuring step, as long as the buffer is long enough.\<close>

lemma dn_dst_same [simp]: "dst s = x \<Longrightarrow> s\<lparr>dst := x\<rparr> = s"
  by (cases s) simp

lemma dname_pointer_erase:
  "dname_pointer cstr clen (erase s) c = Ok t \<Longrightarrow>
   dname_pointer cstr clen s c = Ok (t\<lparr>dst := dst s\<rparr>)"
  by (cases s) (auto simp: dname_pointer_def rd_eq_Some split: if_splits option.splits)

lemma dname_label_erase:
  assumes "dname_label cstr clen (erase s) c = Ok t" and "dst s = Some b"
    and "dlen t \<le> length b" and "clen \<le> length cstr"
  shows "\<exists>b'. dname_label cstr clen s c = Ok (t\<lparr>dst := Some b'\<rparr>) \<and> length b' = length b"
proof -
  from assms(1) have fits: "crtpos s + unat c + 1 \<le> clen"
    and t: "t = s\<lparr>dst := None, dlen := dlen s + unat c + 1, crtpos := crtpos s + unat c + 1\<rparr>"
    by (auto simp: dname_label_def split: if_splits)
  let ?bs = "take (unat c) (drop (Suc (crtpos s)) cstr)"
  have rd: "rd_n cstr (crtpos s + 1) (unat c) = Some ?bs" and len: "length ?bs = unat c"
    using fits assms(4) by (simp_all add: rd_n_def)
  moreover have "dlen s + Suc (unat c) \<le> length b"
    using assms(3) t by simp
  ultimately obtain b' where b': "wr_n b (dlen s) (?bs @ [0x2e]) = Some b'"
    by (cases "wr_n b (dlen s) (?bs @ [0x2e])") simp_all
  then have "length b' = length b" by (rule wr_n_length)
  then show ?thesis
    using fits t rd b' assms(2) by (cases s) (auto simp: dname_label_def)
qed

lemma dname_nul_erase:
  assumes "dname_nul (erase s) = Ok t" and "dst s = Some b" and "dlen t \<le> length b"
  shows "\<exists>b'. dname_nul s = Ok (t\<lparr>dst := Some b'\<rparr>) \<and> length b' = length b"
proof (cases "dlen s = 0")
  case True
  with assms show ?thesis
    by (cases s) (auto simp: dname_nul_def Let_def split: if_splits)
next
  case False
  from assms(1,3) have "dlen s \<le> length b"
    by (auto simp: dname_nul_def Let_def split: if_splits)
  with False obtain b' where b': "wr_n b (dlen s - 1) [0x20] = Some b'"
    by (cases "wr_n b (dlen s - 1) [0x20]") simp_all
  then have "length b' = length b" by (rule wr_n_length)
  then show ?thesis
    using False b' assms by (cases s) (auto simp: dname_nul_def Let_def split: if_splits)
qed

lemma dname_step_lockstep:
  assumes step: "dname_step cstr clen (erase s) = Ok t" and b: "dst s = Some b"
    and len: "dlen t \<le> length b" and clen: "clen \<le> length cstr"
  shows "\<exists>b'. dname_step cstr clen s = Ok (t\<lparr>dst := Some b'\<rparr>) \<and> length b' = length b"
proof -
  from step obtain c where c: "rd cstr (crtpos s) = Some c"
    by (auto simp: dname_step_def split: option.splits)
  from step c have lim: "\<not> (depth t > ns_maxdnsrch \<or> dlen t > ns_maxdname * ns_maxdnsrch)"
    and body: "(if c AND ns_cmprsflgs = ns_cmprsflgs then dname_pointer cstr clen (erase s) c
       else if c \<noteq> 0 then dname_label cstr clen (erase s) c else dname_nul (erase s)) = Ok t"
    by (auto simp: dname_step_def split: outcome.splits if_splits)
  have "\<exists>b'. (if c AND ns_cmprsflgs = ns_cmprsflgs then dname_pointer cstr clen s c
       else if c \<noteq> 0 then dname_label cstr clen s c else dname_nul s) = Ok (t\<lparr>dst := Some b'\<rparr>)
     \<and> length b' = length b"
    using body dname_pointer_erase [of cstr clen s c t] b
      dname_label_erase [OF _ b len clen, of c] dname_nul_erase [OF _ b len]
    by (auto split: if_splits)
  with c lim show ?thesis by (auto simp: dname_step_def)
qed

lemma dname_pass_measuring_no_fault:
  "dst s = None \<Longrightarrow> clen \<le> length cstr \<Longrightarrow> dname_pass cstr clen s \<noteq> Fault"
proof (induction cstr clen s rule: dname_pass.induct)
  case (1 cstr clen s)
  then show ?case
    using dname_step_measuring_no_fault [of s clen cstr]
    by (auto simp: dname_pass.simps [of cstr clen s] dest: dname_step_dst_None split: outcome.splits)
qed

lemma dname_pass_dlen_mono: "dname_pass cstr clen s = Ok t \<Longrightarrow> dlen s \<le> dlen t"
proof (induction cstr clen s rule: dname_pass.induct)
  case (1 cstr clen s)
  then show ?case
    by (subst (asm) (2) dname_pass.simps)
      (fastforce split: if_splits outcome.splits dest: dname_step_dlen_mono)
qed

lemma dname_pass_dlen_bound:
  "dname_pass cstr clen s = Ok t \<Longrightarrow> dlen s \<le> ns_maxdname * ns_maxdnsrch \<Longrightarrow>
   dlen t \<le> ns_maxdname * ns_maxdnsrch"
proof (induction cstr clen s rule: dname_pass.induct)
  case (1 cstr clen s)
  then show ?case
    by (subst (asm) (2) dname_pass.simps)
      (fastforce split: if_splits outcome.splits dest: dname_step_dlen_bound)
qed

lemma dname_pass_lockstep:
  "dname_pass cstr clen (erase s) = Ok t \<Longrightarrow> dst s = Some b \<Longrightarrow> dlen t \<le> length b \<Longrightarrow>
   clen \<le> length cstr \<Longrightarrow>
   \<exists>b'. dname_pass cstr clen s = Ok (t\<lparr>dst := Some b'\<rparr>) \<and> length b' = length b"
proof (induction cstr clen "erase s" arbitrary: s b rule: dname_pass.induct)
  case (1 cstr clen s)
  show ?case
  proof (cases "crtpos s < clen")
    case False
    with "1.prems" show ?thesis
      by (auto simp: dname_pass.simps [of cstr clen s] dname_pass.simps [of cstr clen "erase s"]
          intro!: exI [of _ b])
  next
    case True
    with "1.prems"(1) obtain u where u: "dname_step cstr clen (erase s) = Ok u"
      and rest: "dname_pass cstr clen u = Ok t"
      by (auto simp: dname_pass.simps [of cstr clen "erase s"] split: outcome.splits)
    have un: "erase u = u"
      using dname_step_dst_None [OF u] by simp
    from dname_pass_dlen_mono [OF rest] "1.prems"(3) have "dlen u \<le> length b" by simp
    with dname_step_lockstep [OF u "1.prems"(2) _ "1.prems"(4)] obtain b1
      where b1: "dname_step cstr clen s = Ok (u\<lparr>dst := Some b1\<rparr>)" "length b1 = length b"
      by blast
    have "\<exists>b'. dname_pass cstr clen (u\<lparr>dst := Some b1\<rparr>) = Ok (t\<lparr>dst := Some b'\<rparr>) \<and> length b' = length b1"
      by (rule "1.hyps") (use True u un rest "1.prems"(3,4) b1(2) in simp_all)
    with True b1 show ?thesis
      by (simp add: dname_pass.simps [of cstr clen s])
  qed
qed

text \<open>
  C30: whatever bytes a packet carries, \<open>dname_dec\<close> stops, reads only inside the packet and
  writes only inside the buffer it has allocated. When it succeeds the buffer holds the
  prefix, then at most 6150 bytes of which the last is the terminating NUL.
\<close>

theorem dname_dec_memory_safe:
  assumes "clen \<le> length cstr"
  shows "dname_dec junk cstr clen pre = Null \<or>
    (\<exists>body. dname_dec junk cstr clen pre = Ok (pre @ body @ [0]) \<and>
       length body < ns_maxdname * ns_maxdnsrch)"
proof (cases "dname_pass cstr clen (dn_start None)")
  case Null
  then show ?thesis by (simp add: dname_dec_def)
next
  case Fault
  then show ?thesis
    using dname_pass_measuring_no_fault [of "dn_start None"] assms by (simp add: dn_start_def)
next
  case (Ok s1)
  show ?thesis
  proof (cases "dlen s1 = 0")
    case True
    with Ok show ?thesis by (simp add: dname_dec_def)
  next
    case False
    let ?s = "dn_start (Some (replicate (dlen s1) junk))"
    have "erase ?s = dn_start None" by (simp add: dn_start_def)
    with Ok dname_pass_lockstep [where cstr = cstr and clen = clen and s = ?s and t = s1] assms obtain b
      where b: "dname_pass cstr clen ?s = Ok (s1\<lparr>dst := Some b\<rparr>)" "length b = dlen s1"
      by (auto simp: dn_start_def)
    have "dlen s1 \<le> ns_maxdname * ns_maxdnsrch"
      using dname_pass_dlen_bound [OF Ok] by (simp add: dn_start_def)
    moreover have "wr_n b (dlen s1 - 1) [0] = Some (take (dlen s1 - 1) b @ [0])"
      using b(2) False by (simp add: wr_n_def)
    ultimately show ?thesis
      using Ok b False by (auto simp: dname_dec_def intro!: exI [of _ "take (dlen s1 - 1) b"])
  qed
qed

section \<open>The encoding and its inverse\<close>

definition lower_byte :: "u8 \<Rightarrow> u8" where
  "lower_byte c = (if 0x41 \<le> c \<and> c \<le> 0x5a then c + 0x20 else c)"

definition wire_label :: "u8 list \<Rightarrow> u8 list" where
  "wire_label l = of_nat (length l) # l"

definition wire_name :: "u8 list list \<Rightarrow> u8 list" where
  "wire_name ls = concat (map wire_label ls) @ [0]"

definition valid_label :: "u8 list \<Rightarrow> bool" where
  "valid_label l \<longleftrightarrow> l \<noteq> [] \<and> length l \<le> ns_maxlabel \<and> 0x2e \<notin> set l"

definition valid_name :: "u8 list list \<Rightarrow> bool" where
  "valid_name ls \<longleftrightarrow> ls \<noteq> [] \<and> list_all valid_label ls \<and> length (wire_name ls) \<le> ns_maxcdname"

lemma convert_dname_loop_label:
  "0x2e \<notin> set l \<Longrightarrow> convert_dname_loop don lab (l @ rest) =
     convert_dname_loop don (lab @ map lower_byte l) rest"
  by (induction l arbitrary: lab) (simp_all add: lower_byte_def)

lemma hd_join: "l \<noteq> [] \<Longrightarrow> hd (join sep (l # ls)) = hd l" "l \<noteq> [] \<Longrightarrow> join sep (l # ls) \<noteq> []"
  by (cases ls; simp)+

lemma convert_dname_loop_join:
  "ls \<noteq> [] \<Longrightarrow> list_all valid_label ls \<Longrightarrow>
   convert_dname_loop don [] (join 0x2e ls) =
     Some (don @ concat (map (wire_label \<circ> map lower_byte) ls))"
proof (induction "0x2e :: u8" ls arbitrary: don rule: join.induct)
  case 1
  then show ?case by simp
next
  case (2 l)
  then show ?case
    using convert_dname_loop_label [of l don "[]" "[]"]
    by (simp add: valid_label_def wire_label_def Let_def)
next
  case (3 l l' ls)
  then have l': "l' \<noteq> []" "0x2e \<notin> set l'"
    by (auto simp: valid_label_def)
  then have "hd l' \<noteq> 0x2e"
    by (metis hd_in_set)
  with 3 l' show ?case
    by (simp add: convert_dname_loop_label hd_join valid_label_def wire_label_def Let_def)
qed

lemma length_wire_lower [simp]: "length (wire_name (map (map lower_byte) ls)) = length (wire_name ls)"
  by (simp add: wire_name_def length_concat wire_label_def comp_def)

lemma dname_enc_valid:
  assumes "valid_name ls"
  shows "dname_enc (join 0x2e ls) = Some (wire_name (map (map lower_byte) ls))"
proof -
  have "length (concat (map (wire_label \<circ> map lower_byte) ls)) < ns_maxcdname"
    using assms length_wire_lower [of ls] by (simp add: valid_name_def wire_name_def)
  then show ?thesis
    using assms convert_dname_loop_join [of ls "[]"]
    by (simp add: valid_name_def dname_enc_def convert_dname_def wire_name_def)
qed

lemma lower_byte_not_dot: "c \<noteq> 0x2e \<Longrightarrow> lower_byte c \<noteq> 0x2e"
proof -
  assume c: "c \<noteq> 0x2e"
  have "c + 0x20 \<noteq> 0x2e" if "0x41 \<le> c" "c \<le> 0x5a"
  proof -
    have "unat (c + 0x20) = unat c + 0x20"
      using that by (simp add: word_le_nat_alt unat_word_ariths)
    then show ?thesis using that by (auto simp: word_le_nat_alt)
  qed
  with c show ?thesis by (simp add: lower_byte_def)
qed

lemma convert_dname_loop_length:
  "convert_dname_loop don lab src = Some r \<Longrightarrow> length r \<le> length don + length lab + length src + 1"
  by (induction don lab src rule: convert_dname_loop.induct)
    (fastforce simp: Let_def split: if_splits)+

subsection \<open>Decoding what was encoded\<close>

text \<open>
  \<open>fill d n bs\<close>: the buffer after \<open>bs\<close> has been written at position \<open>n\<close>, on either pass.
\<close>

definition fill :: "u8 list option \<Rightarrow> nat \<Rightarrow> u8 list \<Rightarrow> u8 list option" where
  "fill d n bs = map_option (\<lambda>b. take n b @ bs @ drop (n + length bs) b) d"

definition room :: "u8 list option \<Rightarrow> nat \<Rightarrow> bool" where
  "room d n \<longleftrightarrow> (\<forall>b. d = Some b \<longrightarrow> n \<le> length b)"

lemma fill_fill:
  "room d (n + length xs + length ys) \<Longrightarrow>
   fill (fill d n xs) (n + length xs) ys = fill d n (xs @ ys)"
  by (cases d) (auto simp: fill_def room_def ac_simps)

lemma room_fill: "room d (n + length xs) \<Longrightarrow> room (fill d n xs) m \<longleftrightarrow> room d m"
  by (cases d) (auto simp: fill_def room_def)

lemma room_mono: "room d n \<Longrightarrow> m \<le> n \<Longrightarrow> room d m"
  by (auto simp: room_def)

lemma label_byte:
  assumes "l \<noteq> []" and "length l \<le> 63"
  shows "unat (of_nat (length l) :: u8) = length l" "(of_nat (length l) :: u8) \<noteq> 0"
    "(of_nat (length l) :: u8) AND ns_cmprsflgs \<noteq> ns_cmprsflgs"
proof -
  show u: "unat (of_nat (length l) :: u8) = length l"
    using assms by (simp add: unat_of_nat)
  then show "(of_nat (length l) :: u8) \<noteq> 0"
    using assms(1) by (metis length_0_conv unat_0)
  show "(of_nat (length l) :: u8) AND ns_cmprsflgs \<noteq> ns_cmprsflgs"
  proof
    assume "(of_nat (length l) :: u8) AND ns_cmprsflgs = ns_cmprsflgs"
    then have "ns_cmprsflgs \<le> (of_nat (length l) :: u8)"
      using word_and_le2 [of "of_nat (length l) :: u8" ns_cmprsflgs] by simp
    then show False
      using u assms(2) by (simp add: word_le_nat_alt ns_cmprsflgs_def)
  qed
qed

definition at_top :: "nat \<Rightarrow> nat \<Rightarrow> u8 list option \<Rightarrow> dn" where
  "at_top p n d = \<lparr>crtpos = p, retpos = 0, depth = 0, dlen = n, dst = d\<rparr>"

lemma dname_step_at_label:
  assumes "l \<noteq> []" and "length l \<le> 63" and "n + length l + 1 \<le> ns_maxdname * ns_maxdnsrch"
    and "room d (n + length l + 1)" and "length P + length l + 1 \<le> clen"
  shows "dname_step (P @ wire_label l @ R) clen (at_top (length P) n d) =
    Ok (at_top (length P + length (wire_label l)) (n + length l + 1) (fill d n (l @ [0x2e])))"
proof -
  let ?c = "of_nat (length l) :: u8" and ?xs = "P @ wire_label l @ R"
  have rdc: "rd ?xs (length P) = Some ?c"
    by (simp add: wire_label_def)
  have rdn: "rd_n ?xs (Suc (length P)) (length l) = Some l"
    using rd_n_append [of "P @ [?c]" l R] by (simp add: wire_label_def)
  have wr: "wr_n b n (l @ [0x2e]) = fill (Some b) n (l @ [0x2e])" if "d = Some b" for b
    using that assms(4) by (simp add: wr_n_def fill_def room_def)
  show ?thesis
    using assms(3,5) rdc rdn wr label_byte [OF assms(1,2)]
    by (cases d) (auto simp: dname_step_def dname_label_def at_top_def wire_label_def fill_def)
qed

lemma dname_step_at_nul:
  assumes "0 < n" and "n \<le> ns_maxdname * ns_maxdnsrch" and "room d n"
  shows "dname_step (P @ 0 # R) clen (at_top (length P) n d) =
    Ok (at_top (Suc (length P)) n (fill d (n - 1) [0x20]))"
  using assms
  by (cases d) (auto simp: dname_step_def dname_nul_def at_top_def fill_def room_def wr_n_def
      ns_cmprsflgs_def)

lemma dname_pass_step:
  "crtpos s < clen \<Longrightarrow> dname_step cstr clen s = Ok s' \<Longrightarrow>
   dname_pass cstr clen s = dname_pass cstr clen s'"
  by (simp add: dname_pass.simps [of cstr clen s])

lemma dname_pass_labels:
  assumes "list_all valid_label ls"
    and "n + length (concat (map (\<lambda>l. l @ [0x2e]) ls)) \<le> ns_maxdname * ns_maxdnsrch"
    and "room d (n + length (concat (map (\<lambda>l. l @ [0x2e]) ls)))"
    and "length P + length (concat (map wire_label ls)) \<le> clen"
  shows "dname_pass (P @ concat (map wire_label ls) @ R) clen (at_top (length P) n d) =
    dname_pass (P @ concat (map wire_label ls) @ R) clen
      (at_top (length P + length (concat (map wire_label ls)))
         (n + length (concat (map (\<lambda>l. l @ [0x2e]) ls)))
         (fill d n (concat (map (\<lambda>l. l @ [0x2e]) ls))))"
  using assms
proof (induction ls arbitrary: P n d)
  case Nil
  then show ?case by (cases d) (simp_all add: fill_def)
next
  case (Cons l ls)
  let ?R = "concat (map wire_label ls) @ R" and ?D = "concat (map (\<lambda>l. l @ [0x2e]) ls)"
  have l: "l \<noteq> []" "length l \<le> 63"
    using Cons.prems(1) by (simp_all add: valid_label_def ns_defs)
  have step: "dname_step (P @ wire_label l @ ?R) clen (at_top (length P) n d) =
    Ok (at_top (length P + length (wire_label l)) (n + length l + 1) (fill d n (l @ [0x2e])))"
    using Cons.prems l
    by (intro dname_step_at_label) (auto simp: wire_label_def elim: room_mono)
  have rf: "room (fill d n (l @ [0x2e])) m \<longleftrightarrow> room d m" for m
    by (rule room_fill) (use Cons.prems(3) in \<open>auto elim: room_mono\<close>)
  have ff: "fill (fill d n (l @ [0x2e])) (n + length l + 1) ?D = fill d n ((l @ [0x2e]) @ ?D)"
    using fill_fill [of d n "l @ [0x2e]" ?D] Cons.prems(3) by (simp add: add.assoc)
  have "dname_pass (P @ wire_label l @ ?R) clen (at_top (length P) n d) =
    dname_pass ((P @ wire_label l) @ ?R) clen
      (at_top (length (P @ wire_label l)) (n + length l + 1) (fill d n (l @ [0x2e])))"
    using dname_pass_step [OF _ step] Cons.prems(4)
    by (simp add: at_top_def wire_label_def)
  also have "\<dots> = dname_pass ((P @ wire_label l) @ ?R) clen
      (at_top (length (P @ wire_label l) + length (concat (map wire_label ls)))
        (n + length l + 1 + length ?D) (fill (fill d n (l @ [0x2e])) (n + length l + 1) ?D))"
    using Cons.prems by (intro Cons.IH) (auto simp: rf add.assoc)
  finally show ?case
    using ff by (simp add: add.assoc)
qed

text \<open>One name: its labels, then the NUL that turns the last dot into a space.\<close>

definition spaced :: "u8 list list \<Rightarrow> u8 list" where
  "spaced ls = join 0x2e ls @ [0x20]"

lemma length_spaced: "ls \<noteq> [] \<Longrightarrow> length (spaced ls) = length (concat (map (\<lambda>l. l @ [0x2e]) ls))"
  by (simp add: spaced_def concat_terminated_join)

lemma dname_pass_name:
  assumes "ls \<noteq> []" and "list_all valid_label ls"
    and "n + length (spaced ls) \<le> ns_maxdname * ns_maxdnsrch"
    and "room d (n + length (spaced ls))" and "length P + length (wire_name ls) \<le> clen"
  shows "dname_pass (P @ wire_name ls @ R) clen (at_top (length P) n d) =
    dname_pass (P @ wire_name ls @ R) clen
      (at_top (length P + length (wire_name ls)) (n + length (spaced ls)) (fill d n (spaced ls)))"
proof -
  let ?W = "concat (map wire_label ls)" and ?D = "concat (map (\<lambda>l. l @ [0x2e]) ls)"
  have D: "?D = join 0x2e ls @ [0x2e]" and len: "length ?D = length (spaced ls)"
    using assms(1) by (simp_all add: concat_terminated_join spaced_def)
  let ?m = "n + length (spaced ls)"
  have ff: "fill (fill d n ?D) (?m - 1) [0x20] = fill d n (spaced ls)"
    using assms(4) by (cases d) (auto simp: fill_def room_def D spaced_def)
  have rf: "room (fill d n ?D) ?m"
    using assms(4) room_fill [of d n ?D ?m] by (simp add: len)
  have step: "dname_step ((P @ ?W) @ 0 # R) clen (at_top (length (P @ ?W)) ?m (fill d n ?D)) =
    Ok (at_top (Suc (length (P @ ?W))) ?m (fill (fill d n ?D) (?m - 1) [0x20]))"
    using assms(3) rf by (intro dname_step_at_nul) (simp_all add: spaced_def)
  have "dname_pass (P @ ?W @ 0 # R) clen (at_top (length P) n d) =
    dname_pass (P @ ?W @ 0 # R) clen (at_top (length P + length ?W) ?m (fill d n ?D))"
    using assms dname_pass_labels [of ls n d P clen "0 # R"]
    by (simp add: len wire_name_def)
  also have "\<dots> = dname_pass (P @ ?W @ 0 # R) clen
      (at_top (Suc (length P + length ?W)) ?m (fill (fill d n ?D) (?m - 1) [0x20]))"
    using dname_pass_step [OF _ step] assms(5) by (simp add: at_top_def wire_name_def)
  finally show ?thesis
    by (simp only: ff) (simp add: wire_name_def)
qed

lemma dname_pass_names:
  assumes "\<forall>ls \<in> set ns. ls \<noteq> [] \<and> list_all valid_label ls"
    and "n + length (concat (map spaced ns)) \<le> ns_maxdname * ns_maxdnsrch"
    and "room d (n + length (concat (map spaced ns)))"
    and "clen = length P + length (concat (map wire_name ns))"
  shows "dname_pass (P @ concat (map wire_name ns)) clen (at_top (length P) n d) =
    Ok (at_top clen (n + length (concat (map spaced ns))) (fill d n (concat (map spaced ns))))"
  using assms
proof (induction ns arbitrary: P n d)
  case Nil
  then show ?case
    by (cases d) (simp_all add: dname_pass.simps [of P] at_top_def fill_def)
next
  case (Cons ls ns)
  let ?S = "concat (map spaced ns)" and ?R = "concat (map wire_name ns)"
  have rf: "room (fill d n (spaced ls)) m \<longleftrightarrow> room d m" for m
    by (rule room_fill) (use Cons.prems(3) in \<open>auto elim: room_mono\<close>)
  have ff: "fill (fill d n (spaced ls)) (n + length (spaced ls)) ?S = fill d n (spaced ls @ ?S)"
    using fill_fill [of d n "spaced ls" ?S] Cons.prems(3) by (simp add: add.assoc)
  have "dname_pass (P @ wire_name ls @ ?R) clen (at_top (length P) n d) =
    dname_pass ((P @ wire_name ls) @ ?R) clen
      (at_top (length (P @ wire_name ls)) (n + length (spaced ls)) (fill d n (spaced ls)))"
    using Cons.prems dname_pass_name [of ls n d P clen ?R]
      room_mono [OF Cons.prems(3), of "n + length (spaced ls)"]
    by simp
  also have "\<dots> = Ok (at_top clen (n + length (spaced ls) + length ?S)
      (fill (fill d n (spaced ls)) (n + length (spaced ls)) ?S))"
    using Cons.prems by (intro Cons.IH) (auto simp: rf add.assoc)
  finally show ?case
    using ff by (simp add: add.assoc)
qed

lemma concat_spaced: "ns \<noteq> [] \<Longrightarrow> concat (map spaced ns) = join 0x20 (map (join 0x2e) ns) @ [0x20]"
  using concat_terminated_join [of "map (join 0x2e) ns" "0x20"]
  by (simp add: spaced_def [abs_def] comp_def)

lemma dname_dec_names:
  assumes "ns \<noteq> []" and "\<forall>ls \<in> set ns. ls \<noteq> [] \<and> list_all valid_label ls"
    and "length (join 0x20 (map (join 0x2e) ns)) < ns_maxdname * ns_maxdnsrch"
  shows "dname_dec junk (concat (map wire_name ns)) (length (concat (map wire_name ns))) pre =
    Ok (pre @ join 0x20 (map (join 0x2e) ns) @ [0])"
proof -
  let ?S = "concat (map spaced ns)" and ?W = "concat (map wire_name ns)"
  have S: "?S = join 0x20 (map (join 0x2e) ns) @ [0x20]"
    by (rule concat_spaced [OF assms(1)])
  have run: "dname_pass ?W (length ?W) (dn_start d) =
      Ok (at_top (length ?W) (length ?S) (fill d 0 ?S))" if "room d (length ?S)" for d
    using dname_pass_names [of ns 0 d "length ?W" "[]"] assms that S
    by (simp add: dn_start_def at_top_def)
  have first: "dname_pass ?W (length ?W) (dn_start None) = Ok (at_top (length ?W) (length ?S) None)"
    using run [of None] by (simp add: room_def fill_def)
  have second: "dname_pass ?W (length ?W) (dn_start (Some (replicate (length ?S) junk))) =
      Ok (at_top (length ?W) (length ?S) (Some ?S))"
    using run [of "Some (replicate (length ?S) junk)"] by (simp add: room_def fill_def)
  have "wr_n ?S (length ?S - 1) [0] = Some (join 0x20 (map (join 0x2e) ns) @ [0])"
    by (simp add: S wr_n_def)
  then show ?thesis
    using first second S by (simp add: dname_dec_def at_top_def)
qed

text \<open>
  C32: decoding inverts encoding. For any domain names made of labels of 1 to 63 bytes
  without dots, \<open>dname_enc\<close> accepts their dotted text, and \<open>dname_dec\<close> applied to the
  concatenation of the encodings returns the prefix, the lower-cased names separated by single
  spaces, and the terminating NUL, as long as the text fits the decoder's limit.
\<close>

theorem dname_roundtrip:
  assumes "ns \<noteq> []" and "\<forall>ls \<in> set ns. valid_name ls"
    and "length (join 0x20 (map (join 0x2e) ns)) < ns_maxdname * ns_maxdnsrch"
  shows "\<exists>encs. map (\<lambda>ls. dname_enc (join 0x2e ls)) ns = map Some encs \<and>
    dname_dec junk (concat encs) (length (concat encs)) pre =
      Ok (pre @ join 0x20 (map (join 0x2e \<circ> map (map lower_byte)) ns) @ [0])"
proof -
  let ?low = "map (map (map lower_byte)) ns" and ?encs = "map (wire_name \<circ> map (map lower_byte)) ns"
  have enc: "map (\<lambda>ls. dname_enc (join 0x2e ls)) ns = map Some ?encs"
    using assms(2) by (simp add: dname_enc_valid)
  have lower_dot: "0x2e \<notin> set (map lower_byte l)" if "0x2e \<notin> set l" for l
    using that lower_byte_not_dot by force
  have "\<forall>ls \<in> set ?low. ls \<noteq> [] \<and> list_all valid_label ls"
    using assms(2) lower_dot by (auto simp: valid_name_def valid_label_def list_all_iff)
  moreover have "length (join 0x20 (map (join 0x2e) ?low)) = length (join 0x20 (map (join 0x2e) ns))"
    by (simp add: length_join comp_def)
  ultimately have "dname_dec junk (concat (map wire_name ?low)) (length (concat (map wire_name ?low))) pre =
      Ok (pre @ join 0x20 (map (join 0x2e) ?low) @ [0])"
    using assms(1,3) by (intro dname_dec_names) simp_all
  with enc show ?thesis
    by (intro exI [of _ ?encs]) (simp add: comp_def)
qed

text \<open>\<^verbatim>\<open>www.Ab\<close> and \<^verbatim>\<open>c\<close>, with the prefix \<^verbatim>\<open>x\<close>.\<close>

definition dname_example_wire :: "u8 list" where
  "dname_example_wire = [3, 0x77, 0x77, 0x77, 2, 0x61, 0x62, 0, 1, 0x63, 0]"

lemma dname_roundtrip_witness:
  "dname_dec 0 dname_example_wire (length dname_example_wire) [0x78] =
     Ok [0x78, 0x77, 0x77, 0x77, 0x2e, 0x61, 0x62, 0x20, 0x63, 0]"
  using dname_roundtrip [of "[[[0x77, 0x77, 0x77], [0x41, 0x62]], [[0x63]]]" 0 "[0x78]"]
  by (auto simp: valid_name_def valid_label_def wire_name_def wire_label_def ns_defs
      lower_byte_def dname_enc_def convert_dname_def Let_def
      dname_example_wire_def)

lemma dname_dec_memory_safe_witness:
  "dname_dec 0 [0xc0, 0, 0xc0] 3 [] \<noteq> Fault"
  using dname_dec_memory_safe [of 3 "[0xc0, 0, 0xc0]" 0 "[]"] by auto

text \<open>
  An encoded name is well formed whatever the source: at most 255 bytes, ended by a NUL,
  and never longer than the \<open>strlen(src) + 2\<close> bytes the code allocates for it.
\<close>

theorem convert_dname_fits:
  assumes "convert_dname src = Some res"
  shows "length res \<le> length src + 2 \<and> length res \<le> 255 \<and> last res = 0"
proof -
  obtain r where r: "convert_dname_loop [] [] src = Some r" and res: "res = r @ [0]"
    and "length r < 255"
    using assms by (auto simp: convert_dname_def ns_defs split: option.splits if_splits)
  with convert_dname_loop_length [OF r] show ?thesis by simp
qed

lemma convert_dname_fits_witness:
  "length (the (convert_dname [0x61, 0x2e, 0x62, 0x2e])) \<le> 6"
  using convert_dname_fits [of "[0x61, 0x2e, 0x62, 0x2e]" "[1, 0x61, 1, 0x62, 0]"]
  by (simp add: convert_dname_def Let_def ns_defs)

end
