(* ===== verification/Base64.thy ===== *)
theory Base64
  imports Prelude
begin

text \<open>
  \<^verbatim>\<open>libbb/uuencode.c\<close> and the uudecode loop of \<^verbatim>\<open>coreutils/uudecode.c\<close>: the base64 and
  uuencode encoders over a table, the base64 decoder, and the stream reader that feeds the
  decoder 64 bytes at a time. A C string is the list of its bytes before the NUL; a
  \<open>FILE*\<close> is the list of bytes still to be read.
\<close>

section \<open>The tables\<close>

definition ascii :: "string \<Rightarrow> u8 list" where
  "ascii s = map of_char s"

definition bb_uuenc_tbl_base64 :: "u8 list" where
  "bb_uuenc_tbl_base64 =
     ascii ''ABCDEFGHIJKLMNOPQRSTUVWXYZabcdefghijklmnopqrstuvwxyz0123456789+/=''"

definition bb_uuenc_tbl_std :: "u8 list" where
  "bb_uuenc_tbl_std = 0x60 # map (\<lambda>i. 0x20 + of_nat i) [1..<64] @ [0x60]"

section \<open>Encoding\<close>

text \<open>
  \<open>uuencode_loop\<close> is the loop over groups of three bytes; \<open>len\<close> is the C variable
  \<open>length\<close>, which ends at 0, -1 or -2, and the result is what has been stored at \<open>p\<close>
  together with that final value.
\<close>

definition uu_quad :: "u8 list \<Rightarrow> u8 \<Rightarrow> u8 \<Rightarrow> u8 \<Rightarrow> u8 list" where
  "uu_quad tbl s0 s1 s2 =
     [tbl ! unat (drop_bit 2 s0),
      tbl ! unat (push_bit 4 (s0 AND 3) + drop_bit 4 s1),
      tbl ! unat (push_bit 2 (s1 AND 0xf) + drop_bit 6 s2),
      tbl ! unat (s2 AND 0x3f)]"

function uuencode_loop :: "u8 list \<Rightarrow> int \<Rightarrow> u8 list \<Rightarrow> u8 list \<times> int" where
  "uuencode_loop tbl len s =
     (if len > 0 then
        (let len' = len - 3;
             s1 = (if len' \<ge> -1 then s ! 1 else 0);
             s2 = (if len' \<ge> 0 then s ! 2 else 0);
             (out, l) = uuencode_loop tbl len' (drop 3 s)
         in (uu_quad tbl (s ! 0) s1 s2 @ out, l))
      else ([], len))"
  by pat_completeness auto
termination
  by (relation "measure (\<lambda>(tbl, len, s). nat len)") auto

declare uuencode_loop.simps [simp del]

definition bb_uuencode :: "u8 list \<Rightarrow> u8 list \<Rightarrow> u8 list" where
  "bb_uuencode src tbl =
     (let (out, len) = uuencode_loop tbl (int (length src)) src;
          pad = nat (- len)
      in take (length out - pad) out @ replicate pad (tbl ! 64))"

section \<open>Decoding base64\<close>

text \<open>
  \<open>strchr_index\<close> is \<open>strchr(bb_uuenc_tbl_base64, ch) - bb_uuenc_tbl_base64\<close>;
  \<open>fetch_six\<close> fetches up to four valid characters, skipping the others, and says whether it
  stopped at the end of the string.
\<close>

fun strchr_index :: "u8 list \<Rightarrow> u8 \<Rightarrow> nat option" where
  "strchr_index [] c = None"
| "strchr_index (x # xs) c = (if x = c then Some 0 else map_option Suc (strchr_index xs c))"

fun fetch_six :: "u8 list \<Rightarrow> u8 list \<Rightarrow> u8 list \<times> u8 list \<times> bool" where
  "fetch_six six [] = (if length six < 4 then (six, [], True) else (six, [], False))"
| "fetch_six six (ch # src) =
     (if length six < 4 then
        (case strchr_index bb_uuenc_tbl_base64 ch of
           None \<Rightarrow> fetch_six six src
         | Some v \<Rightarrow> if v = 64 then (six, src, False) else fetch_six (six @ [of_nat v]) src)
      else (six, ch # src, False))"

definition six_to_bytes :: "u8 list \<Rightarrow> u8 list" where
  "six_to_bytes six =
     (if length six > 1 then [push_bit 2 (six ! 0) OR drop_bit 4 (six ! 1)] else []) @
     (if length six > 2 then [push_bit 4 (six ! 1) OR drop_bit 2 (six ! 2)] else []) @
     (if length six > 3 then [push_bit 6 (six ! 2) OR six ! 3] else [])"

lemma fetch_six_shorter:
  "fetch_six six src = (six', rest, False) \<Longrightarrow> length six < 4 \<Longrightarrow> src \<noteq> [] \<and> length rest < length src"
proof (induction six src rule: fetch_six.induct)
  case (2 six ch src)
  then show ?case
    by (cases src) (fastforce split: option.splits if_splits)+
qed simp

text \<open>The result is the decoded bytes and \<open>src_tail\<close>, the undecoded rest of the source.\<close>

function decode_base64 :: "u8 list \<Rightarrow> u8 list \<times> u8 list" where
  "decode_base64 src =
     (let (six, rest, ended) = fetch_six [] src
      in if ended then ([], if six = [] then [] else src)
         else (let (out, tail) = decode_base64 rest in (six_to_bytes six @ out, tail)))"
  by pat_completeness auto
termination
  by (relation "measure length") (auto dest: fetch_six_shorter [OF sym])

declare decode_base64.simps [simp del]

section \<open>Reading a base64 stream\<close>

text \<open>
  One fill of \<open>in_buf\<close> up to \<open>BUFFER_SIZE\<close> = 64 bytes. The last component says what
  ended it: the stream or buffer position (\<open>FillMore\<close>), the terminator or end of file with
  something in the buffer (\<open>FillTerm\<close>), the terminator with nothing (\<open>FillReturn\<close>).
  \<open>exit_char\<close> is -1 when only the end of file ends the data.
\<close>

datatype fill_end = FillMore | FillTerm | FillReturn

fun fgetc :: "u8 list \<Rightarrow> int" where
  "fgetc [] = -1"
| "fgetc (c # _) = uint c"

function fill_in_buf :: "int \<Rightarrow> u8 list \<Rightarrow> u8 list \<Rightarrow> u8 list \<times> u8 list \<times> fill_end" where
  "fill_in_buf exit_char in_buf stream =
     (if length in_buf < 64 then
        (let ch = fgetc stream
         in if ch = exit_char then
              (if in_buf = [] then (in_buf, tl stream, FillReturn) else (in_buf, tl stream, FillTerm))
            else if ch = -1 then (in_buf, tl stream, FillTerm)
            else if ch \<le> 0x20 then (in_buf, tl stream, FillMore)
            else fill_in_buf exit_char (in_buf @ [hd stream]) (tl stream))
      else (in_buf, stream, FillMore))"
  by pat_completeness auto
termination
  by (relation "measure (\<lambda>(e, b, s). 64 - length b)") auto

declare fill_in_buf.simps [simp del]

datatype b64_result = B64Done "u8 list" | B64Truncated "u8 list" | B64Running "u8 list"

text \<open>
  The reader's loop, with fuel: \<open>B64Running\<close> means that the fuel ran out before the loop
  ended. Every result carries what has been written to the destination.
\<close>

fun read_base64_loop ::
  "nat \<Rightarrow> int \<Rightarrow> bool \<Rightarrow> u8 list \<Rightarrow> u8 list \<Rightarrow> u8 list \<Rightarrow> b64_result" where
  "read_base64_loop 0 exit_char uu_stop in_buf stream written = B64Running written"
| "read_base64_loop (Suc fuel) exit_char uu_stop in_buf stream written =
     (case fill_in_buf exit_char in_buf stream of
        (buf, stream', why) \<Rightarrow>
          if why = FillReturn then B64Done written
          else if uu_stop \<and> buf = ascii ''===='' then B64Done written
          else (case decode_base64 buf of
                  (out, tail) \<Rightarrow>
                    if why = FillTerm then
                      (if tail = [] then B64Done (written @ out) else B64Truncated (written @ out))
                    else read_base64_loop fuel exit_char uu_stop tail stream' (written @ out)))"

definition read_base64 :: "nat \<Rightarrow> int \<Rightarrow> bool \<Rightarrow> u8 list \<Rightarrow> b64_result" where
  "read_base64 fuel exit_char uu_stop stream = read_base64_loop fuel exit_char uu_stop [] stream []"

section \<open>Encoding: shape of the output\<close>

lemma uuencode_loop_pad:
  "uuencode_loop tbl len s = (out, l) \<Longrightarrow>
   length out = 4 * nat ((len + 2) div 3) \<and> (len \<ge> 0 \<longrightarrow> -2 \<le> l \<and> l \<le> 0) \<and>
   (len > 0 \<longrightarrow> 4 \<le> length out)"
proof (induction tbl len s arbitrary: out l rule: uuencode_loop.induct)
  case (1 tbl len s)
  show ?case
  proof (cases "len > 0")
    case False
    with "1.prems" show ?thesis by (simp add: uuencode_loop.simps [of tbl len s])
  next
    case True
    obtain out' where rec: "uuencode_loop tbl (len - 3) (drop 3 s) = (out', l)"
      and out: "length out = 4 + length out'"
      using "1.prems" True
      by (auto simp: uuencode_loop.simps [of tbl len s] Let_def uu_quad_def split: prod.splits)
    have "len \<ge> 3 \<or> out' = [] \<and> l = len - 3"
      using rec by (auto simp: uuencode_loop.simps [of tbl "len - 3"])
    moreover have "length out' = 4 * nat ((len - 3 + 2) div 3)"
      and "len - 3 \<ge> 0 \<longrightarrow> -2 \<le> l \<and> l \<le> 0"
      using "1.IH" [OF True refl refl refl rec] by simp_all
    moreover have "nat ((len + 2) div 3) = Suc (nat ((len - 3 + 2) div 3))"
    proof -
      have "(len + 2) div 3 = (len - 3 + 2) div 3 + 1" by presburger
      moreover have "0 \<le> (len - 3 + 2) div 3" using True by simp
      ultimately show ?thesis by (simp add: Suc_nat_eq_nat_zadd1)
    qed
    ultimately show ?thesis using True out by auto
  qed
qed

lemma bb_uuencode_Nil [simp]: "bb_uuencode [] tbl = []"
  by (simp add: bb_uuencode_def uuencode_loop.simps)

lemma bb_uuencode_1:
  "bb_uuencode [a] tbl = take 2 (uu_quad tbl a 0 0) @ [tbl ! 64, tbl ! 64]"
  by (simp add: bb_uuencode_def uuencode_loop.simps uu_quad_def numeral_eq_Suc)

lemma bb_uuencode_2:
  "bb_uuencode [a, b] tbl = take 3 (uu_quad tbl a b 0) @ [tbl ! 64]"
  by (simp add: bb_uuencode_def uuencode_loop.simps uu_quad_def numeral_eq_Suc)

lemma bb_uuencode_3:
  "bb_uuencode (a # b # c # s) tbl = uu_quad tbl a b c @ bb_uuencode s tbl"
proof -
  obtain out l where rec: "uuencode_loop tbl (int (length s)) s = (out, l)"
    by fastforce
  have "uuencode_loop tbl (int (length (a # b # c # s))) (a # b # c # s) =
      (uu_quad tbl a b c @ out, l)"
    using rec by (subst uuencode_loop.simps) (simp add: Let_def numeral_eq_Suc)
  moreover have "nat (- l) \<le> length out"
    using uuencode_loop_pad [OF rec] rec
    by (cases "s = []") (auto simp: uuencode_loop.simps)
  ultimately show ?thesis
    using rec by (simp add: bb_uuencode_def Let_def)
qed

lemmas bb_uuencode_simps = bb_uuencode_Nil bb_uuencode_1 bb_uuencode_2 bb_uuencode_3

text \<open>Induction in groups of three bytes, as the encoder goes.\<close>

lemma triple_induct [case_names Nil One Two Three]:
  "P [] \<Longrightarrow> (\<And>a. P [a]) \<Longrightarrow> (\<And>a b. P [a, b]) \<Longrightarrow> (\<And>a b c s. P s \<Longrightarrow> P (a # b # c # s)) \<Longrightarrow> P s"
proof (induction s rule: length_induct)
  case (1 s)
  show ?case
  proof (cases "length s < 3")
    case True
    then consider "s = []" | a where "s = [a]" | a b where "s = [a, b]"
      by (cases s; cases "tl s"; cases "tl (tl s)") auto
    then show ?thesis using "1.prems" by cases auto
  next
    case False
    then obtain a b c s' where s: "s = a # b # c # s'"
      by (cases s; cases "tl s"; cases "tl (tl s)") auto
    then show ?thesis using "1.IH" "1.prems" by auto
  qed
qed

lemma length_uu_quad [simp]: "length (uu_quad tbl a b c) = 4"
  by (simp add: uu_quad_def)

lemma length_bb_uuencode: "length (bb_uuencode src tbl) = 4 * ((length src + 2) div 3)"
proof (induction src rule: triple_induct)
  case (Three a b c s)
  have "(length (a # b # c # s) + 2) div 3 = Suc ((length s + 2) div 3)" by simp
  with Three show ?case by (simp add: bb_uuencode_simps)
qed (simp_all add: bb_uuencode_simps)

section \<open>Six-bit values\<close>

definition six0 :: "u8 \<Rightarrow> u8" where "six0 a = drop_bit 2 a"
definition six1 :: "u8 \<Rightarrow> u8 \<Rightarrow> u8" where "six1 a b = push_bit 4 (a AND 3) + drop_bit 4 b"
definition six2 :: "u8 \<Rightarrow> u8 \<Rightarrow> u8" where "six2 b c = push_bit 2 (b AND 0xf) + drop_bit 6 c"
definition six3 :: "u8 \<Rightarrow> u8" where "six3 c = c AND 0x3f"

lemmas six_defs = six0_def six1_def six2_def six3_def

lemma uu_quad_six:
  "uu_quad tbl a b c = [tbl ! unat (six0 a), tbl ! unat (six1 a b), tbl ! unat (six2 b c), tbl ! unat (six3 c)]"
  by (simp add: uu_quad_def six_defs)

lemma masks: "(3 :: u8) = mask 2" "(0xf :: u8) = mask 4" "(0x3f :: u8) = mask 6"
  by (simp_all add: mask_eq_exp_minus_1)

lemma six1_or: "six1 a b = push_bit 4 (a AND mask 2) OR drop_bit 4 b"
  unfolding six1_def masks
  by (rule disjunctive_add) (auto simp: bit_simps dest: u8_bitD)

lemma six2_or: "six2 b c = push_bit 2 (b AND mask 4) OR drop_bit 6 c"
  unfolding six2_def masks
  by (rule disjunctive_add) (auto simp: bit_simps dest: u8_bitD)

lemma less_64_iff: "unat (w :: u8) < 64 \<longleftrightarrow> take_bit 6 w = w"
proof -
  have "take_bit 6 w = w \<longleftrightarrow> unat (take_bit 6 w) = unat w" by (simp add: word_unat_eq_iff)
  also have "\<dots> \<longleftrightarrow> unat w < 64" by (auto simp: unat_take_bit_mod)
  finally show ?thesis by simp
qed

lemma six_less: "unat (six0 a) < 64" "unat (six1 a b) < 64" "unat (six2 b c) < 64" "unat (six3 c) < 64"
  unfolding less_64_iff six1_or six2_or
  by (rule u8_eqI; simp add: six0_def six3_def masks bit_simps)+

lemma six_join:
  "push_bit 2 (six0 a) OR drop_bit 4 (six1 a b) = a"
  "push_bit 4 (six1 a b) OR drop_bit 2 (six2 b c) = b"
  "push_bit 6 (six2 b c) OR six3 c = c"
  unfolding six1_or six2_or
  by (rule u8_eqI; simp add: six0_def six3_def masks bit_simps)+

section \<open>Decoding undoes encoding\<close>

definition valid_char :: "u8 \<Rightarrow> bool" where
  "valid_char c \<longleftrightarrow> strchr_index bb_uuenc_tbl_base64 c \<noteq> None"

lemma tbl_base64_index:
  assumes "v < 65"
  shows "strchr_index bb_uuenc_tbl_base64 (bb_uuenc_tbl_base64 ! v) = Some v"
proof -
  have "list_all (\<lambda>v. strchr_index bb_uuenc_tbl_base64 (bb_uuenc_tbl_base64 ! v) = Some v) [0..<65]"
    by code_simp
  with assms show ?thesis by (simp add: list_all_iff)
qed

lemma strchr_index_Some: "strchr_index xs c = Some v \<Longrightarrow> v < length xs \<and> xs ! v = c"
  by (induction xs arbitrary: v) (auto split: if_splits)

lemma length_tbl_base64: "length bb_uuenc_tbl_base64 = 65"
  by code_simp

lemma fetch_six_value:
  "unat w < 64 \<Longrightarrow> length six < 4 \<Longrightarrow>
   fetch_six six (bb_uuenc_tbl_base64 ! unat w # src) = fetch_six (six @ [w]) src"
  by (simp add: tbl_base64_index)

lemma fetch_six_equals:
  "length six < 4 \<Longrightarrow> fetch_six six (bb_uuenc_tbl_base64 ! 64 # src) = (six, src, False)"
  by (simp add: tbl_base64_index)

lemma fetch_six_full: "length six = 4 \<Longrightarrow> fetch_six six src = (six, src, False)"
  by (cases src) simp_all

lemma decode_base64_Nil [simp]: "decode_base64 [] = ([], [])"
  by (simp add: decode_base64.simps)

lemma decode_base64_group:
  "fetch_six [] src = (six, rest, False) \<Longrightarrow>
   decode_base64 src = (six_to_bytes six @ fst (decode_base64 rest), snd (decode_base64 rest))"
  by (simp add: decode_base64.simps [of src] split: prod.split)

lemma fetch_uu_quad:
  "fetch_six [] (uu_quad bb_uuenc_tbl_base64 a b c @ rest) =
     ([six0 a, six1 a b, six2 b c, six3 c], rest, False)"
  by (simp add: uu_quad_six fetch_six_value six_less fetch_six_full del: fetch_six.simps)

lemma decode_equals [simp]:
  "decode_base64 [bb_uuenc_tbl_base64 ! 64] = ([], [])"
  using decode_base64_group [of "[bb_uuenc_tbl_base64 ! 64]" "[]" "[]"]
  by (simp add: fetch_six_equals six_to_bytes_def del: fetch_six.simps)

lemma decode_bb_uuencode: "decode_base64 (bb_uuencode src bb_uuenc_tbl_base64) = (src, [])"
proof (induction src rule: triple_induct)
  case Nil
  then show ?case by simp
next
  case (One a)
  have "fetch_six [] (bb_uuencode [a] bb_uuenc_tbl_base64) =
      ([six0 a, six1 a 0], [bb_uuenc_tbl_base64 ! 64], False)"
    by (simp add: bb_uuencode_1 uu_quad_six fetch_six_value fetch_six_equals six_less
        numeral_2_eq_2 numeral_3_eq_3 del: fetch_six.simps)
  from decode_base64_group [OF this] show ?case
    using six_join(1) [of a 0] by (simp add: six_to_bytes_def)
next
  case (Two a b)
  have "fetch_six [] (bb_uuencode [a, b] bb_uuenc_tbl_base64) =
      ([six0 a, six1 a b, six2 b 0], [], False)"
    by (simp add: bb_uuencode_2 uu_quad_six fetch_six_value fetch_six_equals six_less
        numeral_2_eq_2 numeral_3_eq_3 del: fetch_six.simps)
  from decode_base64_group [OF this] show ?case
    using six_join(1) [of a b] six_join(2) [of a b 0] by (simp add: six_to_bytes_def)
next
  case (Three a b c s)
  have "fetch_six [] (bb_uuencode (a # b # c # s) bb_uuenc_tbl_base64) =
      ([six0 a, six1 a b, six2 b c, six3 c], bb_uuencode s bb_uuenc_tbl_base64, False)"
    by (simp add: bb_uuencode_3 fetch_uu_quad)
  from decode_base64_group [OF this] show ?case
    using Three six_join(1) [of a b] six_join(2) [of a b c] six_join(3) [of b c]
    by (simp add: six_to_bytes_def)
qed

text \<open>
  C35: base64 is lossless. Decoding the base64 text of any byte string gives back the string
  and consumes the whole text, whose length is four characters per started group of three bytes
  (the \<open>BASE64_LENGTH\<close> the callers allocate).
\<close>

theorem base64_roundtrip:
  "decode_base64 (bb_uuencode src bb_uuenc_tbl_base64) = (src, []) \<and>
   length (bb_uuencode src bb_uuenc_tbl_base64) = 4 * ((length src + 2) div 3)"
  by (simp add: decode_bb_uuencode length_bb_uuencode)

section \<open>Decoding in pieces\<close>

lemma fetch_six_append:
  "fetch_six six x = (six', rest, False) \<Longrightarrow> length six \<le> 4 \<Longrightarrow>
   fetch_six six (x @ y) = (six', rest @ y, False)"
  by (induction six x rule: fetch_six.induct)
    (auto simp: fetch_six_full split: option.splits if_splits)

lemma fetch_six_ended:
  "fetch_six six x = (six', rest, True) \<Longrightarrow> fetch_six six (x @ y) = fetch_six six' y \<and> length six' < 4"
  by (induction six x rule: fetch_six.induct) (auto split: option.splits if_splits)

lemma fetch_six_ended_length:
  "fetch_six six x = (six', rest, True) \<Longrightarrow> list_all valid_char x \<Longrightarrow> length six' = length six + length x"
  by (induction six x rule: fetch_six.induct)
    (auto simp: valid_char_def split: option.splits if_splits)

lemma fetch_six_rest: "fetch_six six x = (six', rest, e) \<Longrightarrow> set rest \<subseteq> set x"
  by (induction six x rule: fetch_six.induct) (auto split: option.splits if_splits)

lemma decode_base64_ended:
  "fetch_six [] x = (six, rest, True) \<Longrightarrow> decode_base64 x = ([], if six = [] then [] else x)"
  by (simp add: decode_base64.simps [of x])

text \<open>Decoding a text in two pieces: the undecoded tail of the first goes in front of the second.\<close>

lemma decode_base64_append:
  "list_all valid_char x \<Longrightarrow> decode_base64 x = (o1, t) \<Longrightarrow>
   decode_base64 (x @ y) = (o1 @ fst (decode_base64 (t @ y)), snd (decode_base64 (t @ y)))"
proof (induction x arbitrary: o1 t rule: decode_base64.induct)
  case (1 x)
  obtain six rest ended where f: "fetch_six [] x = (six, rest, ended)"
    by (metis prod_cases3)
  show ?case
  proof (cases ended)
    case True
    with f "1.prems" have "o1 = []" and t: "t = (if six = [] then [] else x)"
      by (simp_all add: decode_base64_ended)
    moreover have "x = []" if "six = []"
      using fetch_six_ended_length [of "[]" x six rest] f True that "1.prems"(1) by simp
    ultimately show ?thesis by auto
  next
    case False
    have rest: "list_all valid_char rest"
      using fetch_six_rest [OF f] "1.prems"(1) by (auto simp: list_all_iff)
    obtain o2 where o2: "decode_base64 rest = (o2, t)" and o1: "o1 = six_to_bytes six @ o2"
      using "1.prems"(2) f False
      by (cases "decode_base64 rest") (auto simp: decode_base64_group)
    have IH: "decode_base64 (rest @ y) =
        (o2 @ fst (decode_base64 (t @ y)), snd (decode_base64 (t @ y)))"
      using "1.IH" [OF f [symmetric] refl refl False rest o2] .
    have "fetch_six [] (x @ y) = (six, rest @ y, False)"
      using fetch_six_append [of "[]" x six rest y] f False by simp
    from decode_base64_group [OF this] IH o1 show ?thesis by simp
  qed
qed

text \<open>The undecoded tail of a valid text is at most three characters long.\<close>

lemma decode_base64_tail:
  "list_all valid_char x \<Longrightarrow> decode_base64 x = (o1, t) \<Longrightarrow> length t < 4 \<and> set t \<subseteq> set x"
proof (induction x arbitrary: o1 t rule: decode_base64.induct)
  case (1 x)
  obtain six rest ended where f: "fetch_six [] x = (six, rest, ended)"
    by (metis prod_cases3)
  show ?case
  proof (cases ended)
    case True
    with f "1.prems" have "t = (if six = [] then [] else x)"
      by (simp add: decode_base64_ended)
    with fetch_six_ended [of "[]" x six rest "[]"] fetch_six_ended_length [of "[]" x six rest]
      f True "1.prems"(1) show ?thesis by simp
  next
    case False
    have sub: "set rest \<subseteq> set x" by (rule fetch_six_rest [OF f])
    then have rest: "list_all valid_char rest"
      using "1.prems"(1) by (auto simp: list_all_iff)
    obtain o2 where o2: "decode_base64 rest = (o2, t)"
      using "1.prems"(2) f False
      by (cases "decode_base64 rest") (auto simp: decode_base64_group)
    from "1.IH" [OF f [symmetric] refl refl False rest o2] sub show ?thesis by auto
  qed
qed

section \<open>The stream reader\<close>

definition printing :: "u8 \<Rightarrow> bool" where
  "printing c \<longleftrightarrow> c > 0x20"

lemma printing_int: "printing c \<longleftrightarrow> uint c > 0x20"
  by (simp add: printing_def word_less_alt)

lemma uint_not_eof [simp]: "uint (c :: u8) \<noteq> -1"
  using uint_ge_0 [of c] by linarith

text \<open>
  One fill of the buffer on a stream that ends at the end of file: the printing characters
  move to the buffer until it is full, a control character or blank is dropped, or the stream
  ends.
\<close>

lemma fill_in_buf_eof:
  "fill_in_buf (-1) buf stream = (buf', stream', why) \<Longrightarrow> length buf < 64 \<Longrightarrow>
   \<exists>moved. buf' = buf @ moved \<and> filter printing stream = moved @ filter printing stream' \<and>
     set moved \<subseteq> set stream \<and> set stream' \<subseteq> set stream \<and>
     (why = FillMore \<longrightarrow> length stream' < length stream) \<and>
     (why \<noteq> FillMore \<longrightarrow> filter printing stream' = []) \<and> (why = FillReturn \<longleftrightarrow> why \<noteq> FillMore \<and> buf' = [])"
proof (induction "-1 :: int" buf stream arbitrary: buf' rule: fill_in_buf.induct)
  case (1 buf stream)
  show ?case
  proof (cases stream)
    case Nil
    with 1 show ?thesis
      by (auto simp: fill_in_buf.simps [of _ buf] split: if_splits)
  next
    case (Cons c rest)
    show ?thesis
    proof (cases "printing c")
      case False
      with 1 Cons show ?thesis
        by (auto simp: fill_in_buf.simps [of _ buf] printing_int Let_def)
    next
      case True
      with 1 Cons have rec: "fill_in_buf (-1) (buf @ [c]) rest = (buf', stream', why)"
        by (auto simp: fill_in_buf.simps [of _ buf] printing_int Let_def)
      show ?thesis
      proof (cases "length (buf @ [c]) < 64")
        case False
        with rec Cons True show ?thesis
          by (auto simp: fill_in_buf.simps [of _ "buf @ [c]"] intro!: exI [of _ "[c]"])
      next
        case less: True
        have "\<exists>moved. buf' = (buf @ [c]) @ moved \<and>
            filter printing rest = moved @ filter printing stream' \<and>
            set moved \<subseteq> set rest \<and> set stream' \<subseteq> set rest \<and>
            (why = FillMore \<longrightarrow> length stream' < length rest) \<and>
            (why \<noteq> FillMore \<longrightarrow> filter printing stream' = []) \<and>
            (why = FillReturn \<longleftrightarrow> why \<noteq> FillMore \<and> buf' = [])"
          using "1.hyps" [of "fgetc stream"] rec less Cons True "1.prems"(2)
          by (simp add: printing_int)
        then obtain moved where m: "buf' = (buf @ [c]) @ moved"
          "filter printing rest = moved @ filter printing stream'"
          "set moved \<subseteq> set rest" "set stream' \<subseteq> set rest"
          "why = FillMore \<longrightarrow> length stream' < length rest"
          "why \<noteq> FillMore \<longrightarrow> filter printing stream' = []"
          "why = FillReturn \<longleftrightarrow> why \<noteq> FillMore \<and> buf' = []" by blast
        then show ?thesis
          using Cons True by (intro exI [of _ "c # moved"]) auto
      qed
    qed
  qed
qed

definition finish :: "u8 list \<Rightarrow> u8 list \<times> u8 list \<Rightarrow> b64_result" where
  "finish written r =
     (if snd r = [] then B64Done (written @ fst r) else B64Truncated (written @ fst r))"

lemma read_base64_loop_correct:
  "length stream < fuel \<Longrightarrow> list_all valid_char buf \<Longrightarrow> length buf < 4 \<Longrightarrow>
   list_all valid_char (filter printing stream) \<Longrightarrow>
   read_base64_loop fuel (-1) False buf stream written =
     finish written (decode_base64 (buf @ filter printing stream))"
proof (induction fuel arbitrary: buf stream written)
  case 0
  then show ?case by simp
next
  case (Suc fuel)
  obtain buf' stream' why where f: "fill_in_buf (-1) buf stream = (buf', stream', why)"
    by (metis prod_cases3)
  from fill_in_buf_eof [OF f] Suc.prems(3) obtain moved where
    m: "buf' = buf @ moved" "filter printing stream = moved @ filter printing stream'"
      "why = FillMore \<longrightarrow> length stream' < length stream"
      "why \<noteq> FillMore \<longrightarrow> filter printing stream' = []"
      "why = FillReturn \<longleftrightarrow> why \<noteq> FillMore \<and> buf' = []"
    by auto
  have valid: "list_all valid_char buf'" "list_all valid_char (filter printing stream')"
    using Suc.prems(2,4) m(1,2) by simp_all
  obtain out tail where d: "decode_base64 buf' = (out, tail)" by fastforce
  have whole: "decode_base64 (buf @ filter printing stream) =
      (out @ fst (decode_base64 (tail @ filter printing stream')),
       snd (decode_base64 (tail @ filter printing stream')))"
    using decode_base64_append [OF valid(1) d, of "filter printing stream'"] m(1,2) by simp
  have tail: "length tail < 4" "list_all valid_char tail"
    using decode_base64_tail [OF valid(1) d] valid(1) by (auto simp: list_all_iff)
  show ?case
  proof (cases why)
    case FillMore
    with f d m(3) Suc.prems(1) Suc.IH [of stream' tail "written @ out"] tail valid(2) whole
    show ?thesis by (simp add: finish_def)
  next
    case FillTerm
    with m(4) whole d m(1,2) have "decode_base64 (buf @ filter printing stream) = (out, tail)"
      by simp
    with FillTerm f d show ?thesis by (simp add: finish_def)
  next
    case FillReturn
    with m f show ?thesis by (simp add: finish_def)
  qed
qed

text \<open>
  The reader's buffering is invisible. On a stream whose printing characters all belong to
  the base64 alphabet, with any line lengths and blanks, \<open>read_base64\<close> stops within one round
  per byte, writes what decoding the text in one piece would write, and reports truncated
  input exactly when that decoding leaves characters over.
\<close>

theorem read_base64_is_decode:
  assumes "list_all valid_char (filter printing stream)" and "length stream < fuel"
  shows "read_base64 fuel (-1) False stream =
    (case decode_base64 (filter printing stream) of
       (out, tail) \<Rightarrow> if tail = [] then B64Done out else B64Truncated out)"
  using read_base64_loop_correct [OF assms(2), of "[]" "[]"] assms(1)
  by (simp add: read_base64_def finish_def split: prod.split)

text \<open>\<^verbatim>\<open>QUJD\<close>, a newline and \<^verbatim>\<open>RA==\<close> decode to \<^verbatim>\<open>ABCD\<close>.\<close>

lemma read_base64_is_decode_witness:
  "read_base64 20 (-1) False (ascii ''QUJD'' @ 10 # ascii ''RA=='') = B64Done (ascii ''ABCD'')"
proof -
  let ?s = "ascii ''QUJD'' @ 10 # ascii ''RA==''"
  have flt: "filter printing ?s = bb_uuencode (ascii ''ABCD'') bb_uuenc_tbl_base64"
    by code_simp
  have "list_all valid_char (filter printing ?s)" and "length ?s < 20"
    by code_simp+
  from read_base64_is_decode [OF this] show ?thesis
    by (simp only: flt decode_bb_uuencode) simp
qed

text \<open>
  The reader hangs on garbage. When the buffer is full (64 bytes) and holds no complete group,
  the reader keeps all of it, never reads again and never ends, whatever follows and however
  long it runs: one alphabet character followed by 63 characters outside the alphabet is enough.
\<close>

theorem read_base64_hangs:
  assumes "length x = 64" and "list_all printing x" and "decode_base64 x = ([], x)"
  shows "read_base64 fuel (-1) False (x @ rest) = B64Running []"
proof (cases fuel)
  case 0
  then show ?thesis by (simp add: read_base64_def)
next
  case (Suc n)
  have full: "fill_in_buf (-1) x s = (x, s, FillMore)" for s
    using assms(1) by (simp add: fill_in_buf.simps)
  have stuck: "read_base64_loop k (-1) False x s [] = B64Running []" for k s
    using full assms(3) by (induction k arbitrary: s) simp_all
  have first: "fill_in_buf (-1) (take i x) (drop i x @ rest) = (x, rest, FillMore)"
    if "i \<le> 64" for i
    using that
  proof (induction "64 - i" arbitrary: i)
    case 0
    with assms(1) full show ?case by simp
  next
    case (Suc d)
    then have i: "i < length x" using assms(1) by simp
    have "uint (x ! i) > 0x20"
      using assms(2) i by (simp add: list_all_length printing_int)
    then have "fill_in_buf (-1) (take i x) (drop i x @ rest) =
        fill_in_buf (-1) (take (Suc i) x) (drop (Suc i) x @ rest)"
      using i assms(1) by (subst fill_in_buf.simps)
        (simp add: Cons_nth_drop_Suc [symmetric] take_Suc_conv_app_nth)
    also have "\<dots> = (x, rest, FillMore)"
      using Suc by (intro Suc.hyps(1)) simp_all
    finally show ?case .
  qed
  from first [of 0] stuck [of n rest] assms(3) Suc show ?thesis
    by (simp add: read_base64_def)
qed

lemma read_base64_hangs_witness:
  "read_base64 1000000 (-1) False ((0x41 # replicate 63 0x21) @ ascii ''QUJD'') = B64Running []"
  by (rule read_base64_hangs) code_simp+

end
