(* ===== verification/TlsFe.thy ===== *)
theory TlsFe
  imports Prelude
begin

text \<open>
  \<^verbatim>\<open>networking/tls_fe.c\<close>: arithmetic in the field of \<open>2\<^sup>2\<^sup>5\<^sup>5 - 19\<close> elements on arrays of 32
  little-endian bytes, with 32-bit accumulators, and the X25519 key exchange of the TLS client
  built on it. The lemmas read every operation as arithmetic modulo the prime; the accumulators
  are \<open>u32\<close> words, so that the absence of overflow is part of what is proved. The functions that
  return through a pointer return the array.
\<close>

section \<open>The operations\<close>

text \<open>
  \<open>carry_loop\<close> is the loop that three of the functions end with:
  \<^verbatim>\<open>c += r[i]; r[i] = c; c >>= 8\<close> over the whole array. The result is the array and the
  last \<open>c\<close>.
\<close>

fun carry_loop :: "u32 \<Rightarrow> u8 list \<Rightarrow> u8 list \<times> u32" where
  "carry_loop c [] = ([], c)"
| "carry_loop c (x # xs) =
     (let c = c + ucast x;
          (ys, c') = carry_loop (drop_bit 8 c) xs
      in (ucast c # ys, c'))"

definition fe_select :: "u8 list \<Rightarrow> u8 list \<Rightarrow> u8 \<Rightarrow> u8 list" where
  "fe_select zero one condition =
     (let msk = - condition in map2 (\<lambda>z o'. z XOR (msk AND (o' XOR z))) zero one)"

definition fe_normalize :: "u8 list \<Rightarrow> u8 list" where
  "fe_normalize x =
     (let c = ucast (drop_bit 7 (x ! 31)) * 19;
          x = x[31 := x ! 31 AND 127];
          x = fst (carry_loop c x);
          (minusp, c) = carry_loop 19 (take 31 x);
          c = c + (ucast (x ! 31) - 128);
          minusp = minusp @ [ucast c]
      in fe_select minusp x (ucast (drop_bit 15 c AND 1)))"

text \<open>
  \<^verbatim>\<open>r[31] &= 127; c = (c >> 7) * 19\<close> and the carry loop: the folding of the bits above
  255 that ends \<open>lm_add\<close>, \<open>fe_mul__distinct\<close> and \<open>fe_mul_c\<close>.
\<close>

definition fe_fold :: "u32 \<Rightarrow> u8 list \<Rightarrow> u8 list" where
  "fe_fold c r = fst (carry_loop (drop_bit 7 c * 19) (r[31 := r ! 31 AND 127]))"

fun lm_add_loop :: "u32 \<Rightarrow> u8 list \<Rightarrow> u8 list \<Rightarrow> u8 list \<times> u32" where
  "lm_add_loop c (x # xs) (y # ys) =
     (let c = drop_bit 8 c + (ucast x + ucast y);
          (rs, c') = lm_add_loop c xs ys
      in (ucast c # rs, c'))"
| "lm_add_loop c _ _ = ([], c)"

definition lm_add :: "u8 list \<Rightarrow> u8 list \<Rightarrow> u8 list" where
  "lm_add a b = (let (r, c) = lm_add_loop 0 a b in fe_fold c r)"

fun lm_sub_loop :: "u32 \<Rightarrow> u8 list \<Rightarrow> u8 list \<Rightarrow> u8 list \<times> u32" where
  "lm_sub_loop c (x # xs) (y # ys) =
     (let c = c + (65280 + ucast x - ucast y);
          (rs, c') = lm_sub_loop (drop_bit 8 c) xs ys
      in (ucast c # rs, c'))"
| "lm_sub_loop c _ _ = ([], c)"

definition lm_sub :: "u8 list \<Rightarrow> u8 list \<Rightarrow> u8 list" where
  "lm_sub a b =
     (let (r, c) = lm_sub_loop 218 (take 31 a) (take 31 b);
          c = c + (ucast (a ! 31) - ucast (b ! 31));
          r = r @ [ucast (c AND 127)]
      in fst (carry_loop (drop_bit 7 c * 19) r))"

text \<open>Column \<open>i\<close> of the product: the two inner loops over \<open>j\<close>.\<close>

definition mul_term :: "u8 list \<Rightarrow> u8 list \<Rightarrow> nat \<Rightarrow> nat \<Rightarrow> u32" where
  "mul_term a b i j =
     (if j \<le> i then ucast (a ! j) * ucast (b ! (i - j))
      else ucast (a ! j) * ucast (b ! (i + 32 - j)) * 38)"

definition mul_column :: "u8 list \<Rightarrow> u8 list \<Rightarrow> nat \<Rightarrow> u32 \<Rightarrow> u32" where
  "mul_column a b i c = foldl (\<lambda>c j. c + mul_term a b i j) c [0..<32]"

fun fe_mul_loop :: "u8 list \<Rightarrow> u8 list \<Rightarrow> nat \<Rightarrow> nat \<Rightarrow> u32 \<Rightarrow> u8 list \<times> u32" where
  "fe_mul_loop a b i 0 c = ([], c)"
| "fe_mul_loop a b i (Suc n) c =
     (let c = mul_column a b i (drop_bit 8 c);
          (rs, c') = fe_mul_loop a b (Suc i) n c
      in (ucast c # rs, c'))"

definition fe_mul__distinct :: "u8 list \<Rightarrow> u8 list \<Rightarrow> u8 list" where
  "fe_mul__distinct a b = (let (r, c) = fe_mul_loop a b 0 32 0 in fe_fold c r)"

fun fe_mul_c_loop :: "u32 \<Rightarrow> u8 list \<Rightarrow> u32 \<Rightarrow> u8 list \<times> u32" where
  "fe_mul_c_loop c [] b = ([], c)"
| "fe_mul_c_loop c (x # xs) b =
     (let c = drop_bit 8 c + b * ucast x;
          (rs, c') = fe_mul_c_loop c xs b
      in (ucast c # rs, c'))"

definition fe_mul_c :: "u8 list \<Rightarrow> u32 \<Rightarrow> u8 list" where
  "fe_mul_c a b = (let (r, c) = fe_mul_c_loop 0 a b in fe_fold c r)"

definition fe_inv__distinct :: "u8 list \<Rightarrow> u8 list" where
  "fe_inv__distinct x =
     (let s = fe_mul__distinct x x;
          r = fe_mul__distinct s x;
          r = ((\<lambda>r. fe_mul__distinct (fe_mul__distinct r r) x) ^^ 248) r;
          s = fe_mul__distinct r r;
          r = fe_mul__distinct s s;
          s = fe_mul__distinct r x;
          r = fe_mul__distinct s s;
          s = fe_mul__distinct r r;
          r = fe_mul__distinct s x;
          s = fe_mul__distinct r r
      in fe_mul__distinct s x)"

definition xc_diffadd ::
  "u8 list \<Rightarrow> u8 list \<Rightarrow> u8 list \<Rightarrow> u8 list \<Rightarrow> u8 list \<Rightarrow> u8 list \<Rightarrow> u8 list \<times> u8 list" where
  "xc_diffadd x1 z1 x2 z2 x3 z3 =
     (let a = lm_add x2 z2;
          b = lm_sub x3 z3;
          da = fe_mul__distinct a b;
          b = lm_sub x2 z2;
          a = lm_add x3 z3;
          cb = fe_mul__distinct a b;
          a = lm_add da cb;
          b = fe_mul__distinct a a;
          x5 = fe_mul__distinct z1 b;
          a = lm_sub da cb;
          b = fe_mul__distinct a a;
          z5 = fe_mul__distinct x1 b
      in (x5, z5))"

definition xc_double :: "u8 list \<Rightarrow> u8 list \<Rightarrow> u8 list \<times> u8 list" where
  "xc_double x1 z1 =
     (let x1sq = fe_mul__distinct x1 x1;
          z1sq = fe_mul__distinct z1 z1;
          x1z1 = fe_mul__distinct x1 z1;
          a = lm_sub x1sq z1sq;
          x3 = fe_mul__distinct a a;
          a = fe_mul_c x1z1 486662;
          a = lm_add x1sq a;
          a = lm_add z1sq a;
          x1sq = fe_mul__distinct x1z1 a;
          z3 = fe_mul_c x1sq 4
      in (x3, z3))"

record ladder =
  xm :: "u8 list"
  zm :: "u8 list"
  xm1 :: "u8 list"
  zm1 :: "u8 list"

definition f25519_one :: "u8 list" where
  "f25519_one = 1 # replicate 31 0"

definition f25519_zero :: "u8 list" where
  "f25519_zero = replicate 32 0"

text \<open>One turn of the ladder for exponent bit \<open>i\<close>; the conditional moves use the bit as a byte.\<close>

definition exponent_bit :: "u8 list \<Rightarrow> nat \<Rightarrow> u8" where
  "exponent_bit e i = drop_bit (i mod 8) (e ! (i div 8)) AND 1"

definition ladder_step :: "u8 list \<Rightarrow> u8 \<Rightarrow> ladder \<Rightarrow> ladder" where
  "ladder_step q b s =
     (let (xm1', zm1') = xc_diffadd q f25519_one (xm s) (zm s) (xm1 s) (zm1 s);
          (xm', zm') = xc_double (xm s) (zm s);
          (xms, zms) = xc_diffadd xm1' zm1' xm' zm' q f25519_one
      in \<lparr>xm = fe_select xm' xms b, zm = fe_select zm' zms b,
          xm1 = fe_select xm1' xm' b, zm1 = fe_select zm1' zm' b\<rparr>)"

definition ladder_init :: "u8 list \<Rightarrow> ladder" where
  "ladder_init q = \<lparr>xm = q, zm = f25519_one, xm1 = f25519_one, zm1 = f25519_zero\<rparr>"

definition ladder_loop :: "u8 list \<Rightarrow> u8 list \<Rightarrow> ladder" where
  "ladder_loop e q = foldl (\<lambda>s i. ladder_step q (exponent_bit e i) s) (ladder_init q) (rev [0..<254])"

definition curve25519 :: "u8 list \<Rightarrow> u8 list \<Rightarrow> u8 list" where
  "curve25519 e q =
     (let s = ladder_loop e q;
          zm1 = fe_inv__distinct (zm s)
      in fe_normalize (fe_mul__distinct zm1 (xm s)))"

section \<open>The value of an array\<close>

fun fe_val :: "u8 list \<Rightarrow> nat" where
  "fe_val [] = 0"
| "fe_val (x # xs) = unat x + 256 * fe_val xs"

definition p25519 :: nat where
  "p25519 = 2 ^ 255 - 19"

lemma fe_val_append: "fe_val (xs @ ys) = fe_val xs + 256 ^ length xs * fe_val ys"
  by (induction xs) (simp_all add: algebra_simps)

lemma fe_val_less: "fe_val xs < 256 ^ length xs"
proof (induction xs)
  case (Cons x xs)
  have "unat x + 256 * fe_val xs \<le> 255 + 256 * (256 ^ length xs - 1)"
    using Cons unat_le_255 [of x] by (intro add_mono mult_left_mono) simp_all
  also have "\<dots> < 256 ^ length (x # xs)"
    by (simp add: algebra_simps)
  finally show ?case by simp
qed simp

lemma fe_val_replicate_0 [simp]: "fe_val (replicate n 0) = 0"
  by (induction n) simp_all

lemma fe_val_sum: "fe_val xs = (\<Sum>j<length xs. unat (xs ! j) * 256 ^ j)"
proof (induction xs)
  case (Cons x xs)
  have "(\<Sum>j<length (x # xs). unat ((x # xs) ! j) * 256 ^ j) =
      unat x + (\<Sum>j<length xs. unat (xs ! j) * 256 ^ Suc j)"
    by (simp add: sum.lessThan_Suc_shift del: sum.lessThan_Suc)
  also have "\<dots> = unat x + 256 * (\<Sum>j<length xs. unat (xs ! j) * 256 ^ j)"
    by (simp add: sum_distrib_left algebra_simps)
  finally show ?case using Cons by simp
qed simp

lemma list_split_31: "length (r :: 'a list) = 32 \<Longrightarrow> r = take 31 r @ [r ! 31]"
  using id_take_nth_drop [of 31 r] by simp

section \<open>The carry loop and the folding of the top bits\<close>

lemma byte_carry: "unat (ucast (c :: u32) :: u8) + 256 * unat (drop_bit 8 c) = unat c"
  by (simp add: unat_ucast_u8_down unat_drop_bit_div)

lemma carry_loop_value:
  "carry_loop c xs = (ys, c') \<Longrightarrow> unat c < 2 ^ 31 \<Longrightarrow>
   length ys = length xs \<and> fe_val ys + 256 ^ length xs * unat c' = fe_val xs + unat c"
proof (induction c xs arbitrary: ys c' rule: carry_loop.induct)
  case (1 c)
  then show ?case by simp
next
  case (2 c x xs)
  define d where "d = c + ucast x"
  have d: "unat d = unat c + unat x"
    unfolding d_def using "2.prems"(2) unat_le_255 [of x] by (subst unat_add_noover) simp_all
  obtain zs where rec: "carry_loop (drop_bit 8 d) xs = (zs, c')" and ys: "ys = ucast d # zs"
    using "2.prems"(1) by (auto simp: d_def Let_def split: prod.splits)
  have "unat (drop_bit 8 d) < 2 ^ 31"
    using d "2.prems"(2) unat_le_255 [of x] by (simp add: unat_drop_bit_div)
  from "2.IH" [OF d_def rec this]
  have IH: "length zs = length xs" "fe_val zs + 256 ^ length xs * unat c' = fe_val xs + unat (drop_bit 8 d)"
    by simp_all
  have "fe_val ys + 256 ^ length (x # xs) * unat c' =
      unat (ucast d :: u8) + 256 * (fe_val zs + 256 ^ length xs * unat c')"
    by (simp add: ys algebra_simps)
  also have "\<dots> = 256 * fe_val xs + (unat (ucast d :: u8) + 256 * unat (drop_bit 8 d))"
    by (simp only: IH) (simp add: algebra_simps)
  also have "\<dots> = fe_val (x # xs) + unat c"
    by (simp only: byte_carry d) simp
  finally show ?case using IH ys by simp
qed

lemma length_carry_loop [len_simps]: "length (fst (carry_loop c xs)) = length xs"
  by (induction c xs rule: carry_loop.induct) (auto simp: Let_def split: prod.splits)

lemma carry_loop_fits:
  assumes "unat c < 2 ^ 31" and "fe_val xs + unat c < 256 ^ length xs"
  shows "fe_val (fst (carry_loop c xs)) = fe_val xs + unat c"
proof -
  obtain ys c' where r: "carry_loop c xs = (ys, c')" by fastforce
  have "fe_val ys + 256 ^ length xs * unat c' = fe_val xs + unat c"
    using carry_loop_value [OF r assms(1)] by simp
  moreover from this have "unat c' = 0"
    using assms(2) by (cases "unat c'") auto
  ultimately show ?thesis using r by simp
qed

text \<open>
  Clearing bit 255 of the array and folding: with \<open>T\<close> the value that the array and the
  pending bits of \<open>c\<close> above it stand for, the result is \<open>T mod 2\<^sup>2\<^sup>5\<^sup>5 + 19 * (T div 2\<^sup>2\<^sup>5\<^sup>5)\<close>.
\<close>

lemma unat_and_127: "unat (x AND 127 :: u8) = unat x mod 128"
proof -
  have "(127 :: u8) = mask 7" by (simp add: mask_eq_exp_minus_1)
  then show ?thesis by (simp only: unat_and_mask_mod) simp
qed

lemma fe_val_31: "length r = 32 \<Longrightarrow> fe_val r = fe_val (take 31 r) + 256 ^ 31 * unat (r ! 31)"
  by (subst list_split_31) (simp_all add: fe_val_append)

lemma top_split:
  assumes "v < (N :: nat)"
  shows "(v + N * b) div (N * 128) = b div 128" "(v + N * b) mod (N * 128) = v + N * (b mod 128)"
proof -
  have d: "(v + N * b) div N = b" and m: "(v + N * b) mod N = v" using assms by simp_all
  show "(v + N * b) div (N * 128) = b div 128"
    by (simp only: div_mult2_eq d)
  show "(v + N * b) mod (N * 128) = v + N * (b mod 128)"
    by (simp only: mod_mult2_eq d m add.commute)
qed

lemma power_255: "2 ^ 255 = 256 ^ 31 * (128 :: nat)" and power_256: "256 ^ 32 = 2 ^ 255 * (2 :: nat)"
  by simp_all

lemma fe_val_top:
  assumes "length r = 32"
  shows "fe_val r div 2 ^ 255 = unat (r ! 31) div 128"
    and "fe_val (r[31 := r ! 31 AND 127]) = fe_val r mod 2 ^ 255"
proof -
  have v: "fe_val (take 31 r) < 256 ^ 31" using fe_val_less [of "take 31 r"] assms by simp
  show "fe_val r div 2 ^ 255 = unat (r ! 31) div 128"
    by (simp only: fe_val_31 [OF assms] power_255 top_split [OF v])
  have "fe_val (r[31 := r ! 31 AND 127]) = fe_val (take 31 r) + 256 ^ 31 * (unat (r ! 31) mod 128)"
    using assms fe_val_31 [of "r[31 := r ! 31 AND 127]"] by (simp add: unat_and_127)
  then show "fe_val (r[31 := r ! 31 AND 127]) = fe_val r mod 2 ^ 255"
    by (simp only: fe_val_31 [OF assms] power_255 top_split [OF v])
qed

lemma fe_fold_value:
  assumes len: "length r = 32" and top: "unat (r ! 31) = unat c mod 256"
    and T: "T = fe_val r + 256 ^ 32 * (unat c div 256)" and small: "19 * (T div 2 ^ 255) < 2 ^ 31"
  shows "fe_val (fe_fold c r) = T mod 2 ^ 255 + 19 * (T div 2 ^ 255) \<and> length (fe_fold c r) = 32"
proof -
  define M :: nat where "M = 2 ^ 255"
  have M: "0 < M" "2 ^ 31 + M \<le> 256 ^ 32" by (simp_all add: M_def)
  have small': "19 * (T div M) < 2 ^ 31" using small by (simp only: M_def)
  have T': "T = fe_val r + M * (2 * (unat c div 256))"
    by (simp only: T power_256 M_def mult.assoc)
  then have m: "T mod M = fe_val r mod M" and "T div M = fe_val r div M + 2 * (unat c div 256)"
    using M(1) by simp_all
  moreover have "fe_val r div M = unat c mod 256 div 128"
    by (simp only: M_def fe_val_top [OF len] top)
  moreover have "k mod 256 div 128 + 2 * (k div 256) = k div 128" for k :: nat
  proof -
    have "k = k mod 256 + 2 * (k div 256) * 128" by simp
    then have "k div 128 = (k mod 256 + 2 * (k div 256) * 128) div 128" by simp
    then show ?thesis by (simp only: div_mult_self1)
  qed
  ultimately have q: "T div M = unat c div 128" by simp
  have c19: "unat (drop_bit 7 c * 19) = 19 * (T div M)"
    using small' by (subst unat_mult_noover) (simp_all add: unat_drop_bit_div q)
  have "T mod M < M" using M(1) by simp
  then have less: "fe_val r mod M + 19 * (T div M) < 256 ^ 32"
    using small' M(2) m by linarith
  let ?r = "r[31 := r ! 31 AND 127]"
  have lr: "length ?r = 32" using len by simp
  have vr: "fe_val ?r = fe_val r mod M" by (simp only: M_def fe_val_top(2) [OF len])
  have "fe_val (fst (carry_loop (drop_bit 7 c * 19) ?r)) = fe_val r mod M + 19 * (T div M)"
    using carry_loop_fits [of "drop_bit 7 c * 19" ?r] small' less by (simp only: c19 vr lr)
  then have "fe_val (fe_fold c r) = T mod M + 19 * (T div M)"
    by (simp only: fe_fold_def m)
  moreover have "length (fe_fold c r) = 32"
    by (simp only: fe_fold_def length_carry_loop lr)
  ultimately show ?thesis by (simp only: M_def)
qed

text \<open>Reduction modulo the prime.\<close>

lemma fold_mod_p: "(T mod 2 ^ 255 + 19 * (T div 2 ^ 255)) mod p25519 = T mod p25519"
proof -
  have "T = T mod 2 ^ 255 + 2 ^ 255 * (T div 2 ^ 255)" by simp
  also have "\<dots> = T mod 2 ^ 255 + 19 * (T div 2 ^ 255) + p25519 * (T div 2 ^ 255)"
    by (simp add: p25519_def algebra_simps)
  finally show ?thesis by (metis mod_mult_self2)
qed

text \<open>
  \<open>fe_ok\<close>: a loosely reduced element, 32 bytes with a value of at most \<open>2p\<close>; what every
  operation returns, and what \<open>lm_sub\<close> needs of its second argument.
\<close>

definition fe_ok :: "u8 list \<Rightarrow> bool" where
  "fe_ok x \<longleftrightarrow> length x = 32 \<and> fe_val x \<le> 2 * p25519"

lemma fe_ok_length: "fe_ok x \<Longrightarrow> length x = 32"
  by (simp add: fe_ok_def)

lemma fe_fold_ok:
  assumes "length r = 32" and "unat (r ! 31) = unat c mod 256"
    and "T = fe_val r + 256 ^ 32 * (unat c div 256)" and "19 * (T div 2 ^ 255) < 2 ^ 31"
  shows "fe_val (fe_fold c r) mod p25519 = T mod p25519 \<and> fe_ok (fe_fold c r)"
proof -
  have v: "fe_val (fe_fold c r) = T mod 2 ^ 255 + 19 * (T div 2 ^ 255)"
    and l: "length (fe_fold c r) = 32"
    using fe_fold_value [OF assms] by simp_all
  have "fe_val (fe_fold c r) \<le> 2 * p25519"
    using v assms(4) mod_less_divisor [of "2 ^ 255" T] by (simp add: p25519_def)
  with v l fold_mod_p [of T] show ?thesis by (simp add: fe_ok_def)
qed

section \<open>Addition, subtraction, multiplication by a constant\<close>

lemma last_byte: "unat (ucast (c :: u32) :: u8) = unat c mod 256"
  by (rule unat_ucast_u8_down)

text \<open>The three loops that shift first: the array, and the last accumulator, unshifted.\<close>

lemma lm_add_loop_value:
  "lm_add_loop c a b = (r, c') \<Longrightarrow> length a = length b \<Longrightarrow> unat c < 2 ^ 31 \<Longrightarrow> a \<noteq> [] \<Longrightarrow>
   length r = length a \<and> unat (last r) = unat c' mod 256 \<and>
   fe_val r + 256 ^ length a * (unat c' div 256) = fe_val a + fe_val b + unat c div 256"
proof (induction c a b arbitrary: r c' rule: lm_add_loop.induct)
  case (1 c x xs y ys)
  define d where "d = drop_bit 8 c + (ucast x + ucast y)"
  have xy: "unat x \<le> 255" "unat y \<le> 255" by (rule unat_le_255)+
  have s: "unat (ucast x + ucast y :: u32) = unat x + unat y"
    using xy by (subst unat_add_noover) simp_all
  have d: "unat d = unat c div 256 + unat x + unat y"
    unfolding d_def using xy "1.prems"(3) by (subst unat_add_noover) (simp_all add: s unat_drop_bit_div)
  obtain zs where rec: "lm_add_loop d xs ys = (zs, c')" and r: "r = ucast d # zs"
    using "1.prems"(1) by (auto simp: d_def Let_def split: prod.splits)
  show ?case
  proof (cases "xs = []")
    case True
    with rec r "1.prems"(2) d show ?thesis by (simp add: last_byte)
  next
    case False
    have "unat d < 2 ^ 31" using d xy "1.prems"(3) by simp
    from "1.IH" [OF d_def rec _ this False] "1.prems"(2)
    have IH: "length zs = length xs" "unat (last zs) = unat c' mod 256"
      "fe_val zs + 256 ^ length xs * (unat c' div 256) = fe_val xs + fe_val ys + unat d div 256"
      by simp_all
    have "fe_val r + 256 ^ length (x # xs) * (unat c' div 256) =
        unat d mod 256 + 256 * (fe_val zs + 256 ^ length xs * (unat c' div 256))"
      by (simp add: r last_byte algebra_simps)
    also have "\<dots> = 256 * (fe_val xs + fe_val ys) + (unat d mod 256 + 256 * (unat d div 256))"
      by (simp only: IH) (simp add: algebra_simps)
    also have "\<dots> = fe_val (x # xs) + fe_val (y # ys) + unat c div 256"
      by (simp add: d)
    finally show ?thesis using IH r False by auto
  qed
qed auto

lemma fe_mul_c_loop_value:
  "fe_mul_c_loop c a b = (r, c') \<Longrightarrow> unat c < 2 ^ 31 \<Longrightarrow> unat b < 2 ^ 22 \<Longrightarrow> a \<noteq> [] \<Longrightarrow>
   length r = length a \<and> unat (last r) = unat c' mod 256 \<and>
   fe_val r + 256 ^ length a * (unat c' div 256) = unat b * fe_val a + unat c div 256"
proof (induction c a b arbitrary: r c' rule: fe_mul_c_loop.induct)
  case (2 c x xs b)
  define d where "d = drop_bit 8 c + b * ucast x"
  have x: "unat x \<le> 255" by (rule unat_le_255)
  have "unat b * unat x \<le> 2 ^ 22 * 255"
    using x "2.prems"(3) by (intro mult_le_mono) simp_all
  then have bx: "unat b * unat x < 2 ^ 30" by simp
  then have s: "unat (b * ucast x :: u32) = unat b * unat x"
    by (subst unat_mult_noover) simp_all
  have d: "unat d = unat c div 256 + unat b * unat x"
    unfolding d_def using bx "2.prems"(2) by (subst unat_add_noover) (simp_all add: s unat_drop_bit_div)
  obtain zs where rec: "fe_mul_c_loop d xs b = (zs, c')" and r: "r = ucast d # zs"
    using "2.prems"(1) by (auto simp: d_def Let_def split: prod.splits)
  show ?case
  proof (cases "xs = []")
    case True
    with rec r d show ?thesis by (simp add: last_byte)
  next
    case False
    have "unat d < 2 ^ 31" using d bx "2.prems"(2) by simp
    from "2.IH" [OF d_def rec this "2.prems"(3) False]
    have IH: "length zs = length xs" "unat (last zs) = unat c' mod 256"
      "fe_val zs + 256 ^ length xs * (unat c' div 256) = unat b * fe_val xs + unat d div 256"
      by simp_all
    have "fe_val r + 256 ^ length (x # xs) * (unat c' div 256) =
        unat d mod 256 + 256 * (fe_val zs + 256 ^ length xs * (unat c' div 256))"
      by (simp add: r last_byte algebra_simps)
    also have "\<dots> = 256 * (unat b * fe_val xs) + (unat d mod 256 + 256 * (unat d div 256))"
      by (simp only: IH) (simp add: algebra_simps)
    also have "\<dots> = unat b * fe_val (x # xs) + unat c div 256"
      by (simp add: d algebra_simps)
    finally show ?thesis using IH r False by auto
  qed
qed auto

lemma last_31: "length r = 32 \<Longrightarrow> last r = r ! 31"
  by (subst last_conv_nth) auto

lemma lm_add_correct:
  assumes "length a = 32" and "length b = 32"
  shows "fe_val (lm_add a b) mod p25519 = (fe_val a + fe_val b) mod p25519 \<and> fe_ok (lm_add a b)"
proof -
  obtain r c where r: "lm_add_loop 0 a b = (r, c)" by fastforce
  have ne: "a \<noteq> []" using assms(1) by auto
  have v: "length r = 32" "unat (r ! 31) = unat c mod 256"
    "fe_val a + fe_val b = fe_val r + 256 ^ 32 * (unat c div 256)"
    using lm_add_loop_value [OF r _ _ ne] assms last_31 [of r] by simp_all
  have "(fe_val a + fe_val b) div 2 ^ 255 < 4"
    using fe_val_less [of a] fe_val_less [of b] assms by simp
  then have "19 * ((fe_val a + fe_val b) div 2 ^ 255) < 2 ^ 31" by simp
  from fe_fold_ok [OF v this] r show ?thesis by (simp add: lm_add_def)
qed

lemma fe_mul_c_correct:
  assumes "length a = 32" and "unat b < 2 ^ 22"
  shows "fe_val (fe_mul_c a b) mod p25519 = (unat b * fe_val a) mod p25519 \<and> fe_ok (fe_mul_c a b)"
proof -
  obtain r c where r: "fe_mul_c_loop 0 a b = (r, c)" by fastforce
  have ne: "a \<noteq> []" using assms(1) by auto
  have v: "length r = 32" "unat (r ! 31) = unat c mod 256"
    "unat b * fe_val a = fe_val r + 256 ^ 32 * (unat c div 256)"
    using fe_mul_c_loop_value [OF r _ assms(2) ne] assms(1) last_31 [of r] by simp_all
  have "fe_val a < 256 ^ 32" using fe_val_less [of a] assms(1) by simp
  then have "unat b * fe_val a < 2 ^ 22 * 256 ^ 32"
    by (intro mult_strict_mono' assms(2)) simp_all
  also have "2 ^ 22 * 256 ^ 32 = 2 ^ 23 * (2 ^ 255 :: nat)" by simp
  finally have "(unat b * fe_val a) div 2 ^ 255 < 2 ^ 23"
    by (rule less_mult_imp_div_less)
  then have "19 * ((unat b * fe_val a) div 2 ^ 255) < 2 ^ 31" by simp
  from fe_fold_ok [OF v this] r show ?thesis by (simp add: fe_mul_c_def)
qed

section \<open>Subtraction\<close>

lemma lm_sub_loop_value:
  "lm_sub_loop c a b = (r, c') \<Longrightarrow> length a = length b \<Longrightarrow> unat c < 2 ^ 31 \<Longrightarrow>
   length r = length a \<and> unat c' < 2 ^ 31 \<and>
   fe_val r + 256 ^ length a * unat c' + fe_val b + 256 = fe_val a + unat c + 256 ^ Suc (length a)"
proof (induction c a b arbitrary: r c' rule: lm_sub_loop.induct)
  case (1 c x xs y ys)
  define d where "d = c + (65280 + ucast x - ucast y)"
  have xy: "unat x \<le> 255" "unat y \<le> 255" by (rule unat_le_255)+
  have s: "unat (65280 + ucast x :: u32) = 65280 + unat x"
    using xy by (subst unat_add_noover) simp_all
  have "unat (65280 + ucast x - ucast y :: u32) = 65280 + unat x - unat y"
    using s xy by (subst unat_sub) (simp_all add: word_le_nat_alt)
  then have d: "unat d + unat y = unat c + 65280 + unat x"
    unfolding d_def using xy "1.prems"(3) by (subst unat_add_noover) simp_all
  obtain zs where rec: "lm_sub_loop (drop_bit 8 d) xs ys = (zs, c')" and r: "r = ucast d # zs"
    using "1.prems"(1) by (auto simp: d_def Let_def split: prod.splits)
  have "unat (drop_bit 8 d) < 2 ^ 31" using d xy "1.prems"(3) by (simp add: unat_drop_bit_div)
  from "1.IH" [OF d_def rec _ this] "1.prems"(2)
  have IH: "length zs = length xs" "unat c' < 2 ^ 31"
    "fe_val zs + 256 ^ length xs * unat c' + fe_val ys + 256 =
       fe_val xs + unat (drop_bit 8 d) + 256 ^ Suc (length xs)"
    by simp_all
  have "fe_val r + 256 ^ length (x # xs) * unat c' + fe_val (y # ys) + 256 + 65280 =
      256 * (fe_val zs + 256 ^ length xs * unat c' + fe_val ys + 256) +
      unat (ucast d :: u8) + unat y"
    by (simp add: r algebra_simps)
  also have "\<dots> = 256 * (fe_val xs + 256 ^ Suc (length xs)) + unat y +
      (unat (ucast d :: u8) + 256 * unat (drop_bit 8 d))"
    by (simp only: IH) (simp add: algebra_simps)
  also have "\<dots> = fe_val (x # xs) + unat c + 65280 + 256 ^ Suc (length (x # xs))"
    using d by (simp add: byte_carry)
  finally show ?case using IH r by simp
qed auto

lemma ucast_and_127: "(ucast (c AND 127 :: u32) :: u8) = ucast c AND 127"
  by (rule bit_word_eqI) (auto simp: bit_simps)

lemma lm_sub_correct:
  assumes "length a = 32" and "length b = 32" and "fe_val b \<le> 2 * p25519 + fe_val a"
  shows "int (fe_val (lm_sub a b)) mod int p25519 = (int (fe_val a) - int (fe_val b)) mod int p25519 \<and>
    fe_ok (lm_sub a b)"
proof -
  define N :: nat where "N = 256 ^ 31"
  have N: "0 < N" "2 * p25519 + 38 = 256 * N" by (simp_all add: N_def p25519_def)
  let ?a = "unat (a ! 31)" and ?b = "unat (b ! 31)"
  obtain r c where r: "lm_sub_loop 218 (take 31 a) (take 31 b) = (r, c)" by fastforce
  have v: "length r = 31" "unat c < 2 ^ 31"
    "fe_val r + N * unat c + fe_val (take 31 b) + 256 = fe_val (take 31 a) + 218 + 256 * N"
    using lm_sub_loop_value [OF r] assms(1,2) by (simp_all add: N_def)
  have ab: "fe_val a = fe_val (take 31 a) + N * ?a" "fe_val b = fe_val (take 31 b) + N * ?b"
    using fe_val_31 assms(1,2) by (simp_all only: N_def)
  define T where "T = 2 * p25519 + fe_val a - fe_val b"
  have T: "T + fe_val b = 2 * p25519 + fe_val a" using assms(3) by (simp add: T_def)
  have key: "fe_val r + N * (unat c + ?a) = T + N * ?b"
    using v(3) ab T N(2) by (simp add: algebra_simps)
  have rN: "fe_val r < N" using fe_val_less [of r] v(1) by (simp only: N_def)
  have le: "?b \<le> unat c + ?a"
  proof (rule ccontr)
    assume "\<not> ?b \<le> unat c + ?a"
    then have "N * (unat c + ?a + 1) \<le> N * ?b" by (intro mult_le_mono2) simp
    with key rN show False by (simp add: algebra_simps)
  qed
  define d where "d = c + (ucast (a ! 31) - ucast (b ! 31))"
  have "unat (c + ucast (a ! 31)) = unat c + ?a"
    using v(2) unat_le_255 [of "a ! 31"] by (subst unat_add_noover) simp_all
  then have d: "unat d = unat c + ?a - ?b"
    using le unat_sub [of "ucast (b ! 31)" "c + ucast (a ! 31)"]
    by (simp add: d_def word_le_nat_alt add_diff_eq)
  have Td: "T = fe_val r + N * unat d"
  proof -
    have "N * (unat c + ?a) = N * unat d + N * ?b"
      using le d by (simp flip: distrib_left)
    with key show ?thesis by simp
  qed
  have sub: "lm_sub a b = fe_fold d (r @ [ucast d])"
    using r v(1) by (simp add: lm_sub_def fe_fold_def d_def ucast_and_127 Let_def nth_append list_update_append)
  have "T = fe_val (r @ [ucast d]) + 256 ^ 32 * (unat d div 256)"
  proof -
    have "N * unat d = N * (unat d mod 256) + 256 ^ 32 * (unat d div 256)"
    proof -
      have "256 ^ 32 = N * 256" by (simp add: N_def)
      then show ?thesis by (metis distrib_left mult.assoc mod_mult_div_eq)
    qed
    with Td v(1) show ?thesis by (simp add: fe_val_append last_byte N_def)
  qed
  moreover have "19 * (T div 2 ^ 255) < 2 ^ 31"
  proof -
    have "fe_val a < 256 ^ 32" using fe_val_less [of a] assms(1) by simp
    then have "T < 4 * 2 ^ 255" by (simp add: T_def p25519_def)
    then have "T div 2 ^ 255 < 4" by (rule less_mult_imp_div_less)
    then show ?thesis by simp
  qed
  ultimately have "fe_val (lm_sub a b) mod p25519 = T mod p25519" "fe_ok (lm_sub a b)"
    using fe_fold_ok [of "r @ [ucast d]" d T] v(1) sub by (simp_all add: last_byte nth_append)
  moreover have "int T mod int p25519 = (int (fe_val a) - int (fe_val b)) mod int p25519"
  proof -
    have "int T = int (fe_val a) - int (fe_val b) + int p25519 * 2"
      using T by linarith
    then show ?thesis by (simp only: mod_mult_self2)
  qed
  ultimately show ?thesis by (metis of_nat_mod)
qed

section \<open>Multiplication\<close>

definition term_val :: "u8 list \<Rightarrow> u8 list \<Rightarrow> nat \<Rightarrow> nat \<Rightarrow> nat" where
  "term_val a b i j =
     (if j \<le> i then unat (a ! j) * unat (b ! (i - j))
      else 38 * (unat (a ! j) * unat (b ! (i + 32 - j))))"

definition column_val :: "u8 list \<Rightarrow> u8 list \<Rightarrow> nat \<Rightarrow> nat" where
  "column_val a b i = (\<Sum>j<32. term_val a b i j)"

lemma byte_product: "unat (x :: u8) * unat (y :: u8) \<le> 65025"
  using mult_le_mono [OF unat_le_255 unat_le_255, of x y] by simp

lemma unat_byte_product: "unat (ucast (x :: u8) * ucast (y :: u8) :: u32) = unat x * unat y"
  using byte_product [of x y] by (subst unat_mult_noover) simp_all

lemma mul_term_val: "unat (mul_term a b i j) = term_val a b i j"
  and term_val_le: "term_val a b i j \<le> 2470950"
proof -
  show "term_val a b i j \<le> 2470950"
    using byte_product [of "a ! j" "b ! (i - j)"] byte_product [of "a ! j" "b ! (i + 32 - j)"]
    by (simp add: term_val_def)
  show "unat (mul_term a b i j) = term_val a b i j"
  proof (cases "j \<le> i")
    case True
    then show ?thesis by (simp add: mul_term_def term_val_def unat_byte_product)
  next
    case False
    have "unat (ucast (a ! j) * ucast (b ! (i + 32 - j)) * 38 :: u32) =
        unat (a ! j) * unat (b ! (i + 32 - j)) * 38"
      using byte_product [of "a ! j" "b ! (i + 32 - j)"]
      by (subst unat_mult_noover) (simp_all add: unat_byte_product)
    with False show ?thesis by (simp add: mul_term_def term_val_def)
  qed
qed

lemma foldl_terms:
  "unat c + length js * 2470950 < 2 ^ 32 \<Longrightarrow>
   unat (foldl (\<lambda>c j. c + mul_term a b i j) c js) = unat c + sum_list (map (term_val a b i) js)"
proof (induction js arbitrary: c)
  case (Cons j js)
  have t: "unat (mul_term a b i j) \<le> 2470950" by (simp add: mul_term_val term_val_le)
  have "unat (c + mul_term a b i j) = unat c + term_val a b i j"
    using Cons.prems t by (subst unat_add_noover) (simp_all add: mul_term_val)
  moreover from this have "unat (c + mul_term a b i j) + length js * 2470950 < 2 ^ 32"
    using Cons.prems term_val_le [of a b i j] by simp
  ultimately show ?case using Cons.IH [of "c + mul_term a b i j"] by simp
qed simp

lemma mul_column_val:
  assumes "unat c < 2 ^ 31"
  shows "unat (mul_column a b i c) = unat c + column_val a b i"
proof -
  have "unat c + length [0..<32] * 2470950 < 2 ^ 32" using assms by simp
  from foldl_terms [OF this, of a b i] show ?thesis
    by (simp add: mul_column_def column_val_def interv_sum_list_conv_sum_set_nat atLeast0LessThan del: upt_rec_numeral upt_Suc)
qed

lemma column_val_le: "column_val a b i \<le> 79070400"
proof -
  have "column_val a b i \<le> (\<Sum>j::nat<32. 2470950)"
    unfolding column_val_def by (intro sum_mono term_val_le)
  then show ?thesis by simp
qed

lemma fe_mul_loop_value:
  "fe_mul_loop a b i n c = (r, c') \<Longrightarrow> unat c < 2 ^ 31 \<Longrightarrow> 0 < n \<Longrightarrow>
   length r = n \<and> unat (last r) = unat c' mod 256 \<and> unat c' < 2 ^ 31 \<and>
   fe_val r + 256 ^ n * (unat c' div 256) = (\<Sum>k<n. column_val a b (i + k) * 256 ^ k) + unat c div 256"
proof (induction n arbitrary: i c r c')
  case (Suc n)
  define d where "d = mul_column a b i (drop_bit 8 c)"
  have d: "unat d = unat c div 256 + column_val a b i"
    unfolding d_def using Suc.prems(2) by (subst mul_column_val) (simp_all add: unat_drop_bit_div)
  have d31: "unat d < 2 ^ 31" using d column_val_le [of a b i] Suc.prems(2) by simp
  obtain zs where rec: "fe_mul_loop a b (Suc i) n d = (zs, c')" and r: "r = ucast d # zs"
    using Suc.prems(1) by (auto simp: d_def Let_def split: prod.splits)
  show ?case
  proof (cases "n = 0")
    case True
    with rec r d d31 show ?thesis by (simp add: last_byte)
  next
    case False
    from Suc.IH [OF rec d31] False
    have IH: "length zs = n" "unat (last zs) = unat c' mod 256" "unat c' < 2 ^ 31"
      "fe_val zs + 256 ^ n * (unat c' div 256) =
         (\<Sum>k<n. column_val a b (Suc i + k) * 256 ^ k) + unat d div 256"
      by simp_all
    have "fe_val r + 256 ^ Suc n * (unat c' div 256) =
        unat d mod 256 + 256 * (fe_val zs + 256 ^ n * (unat c' div 256))"
      by (simp add: r last_byte algebra_simps)
    also have "\<dots> = 256 * (\<Sum>k<n. column_val a b (Suc i + k) * 256 ^ k) +
        (unat d mod 256 + 256 * (unat d div 256))"
      by (simp only: IH) (simp add: algebra_simps)
    also have "\<dots> = (\<Sum>k<n. column_val a b (i + Suc k) * 256 ^ Suc k) + unat d"
      by (simp add: sum_distrib_left algebra_simps)
    also have "\<dots> = (\<Sum>k<Suc n. column_val a b (i + k) * 256 ^ k) + unat c div 256"
      by (simp add: sum.lessThan_Suc_shift d del: sum.lessThan_Suc)
    finally show ?thesis using IH r False by auto
  qed
qed simp

text \<open>
  Folding the columns above 31 back with weight 38 keeps the product modulo the prime, since
  \<open>256\<^sup>3\<^sup>2 = 38 + 2p\<close>.
\<close>

lemma columns_of_row:
  assumes "j < 32" and "length b = 32"
  shows "(\<Sum>i<32. term_val a b i j * 256 ^ i) mod p25519 =
    (unat (a ! j) * 256 ^ j * fe_val b) mod p25519"
proof -
  let ?x = "unat (a ! j)" and ?B = "\<lambda>k. unat (b ! k)"
  define F where "F = (\<Sum>k<32 - j. ?B k * 256 ^ (k + j))"
  define G where "G = (\<Sum>i<j. ?B (i + (32 - j)) * 256 ^ i)"
  have split: "sum f {..<32} = sum f {..<m} + sum f {m..<32}" if "m \<le> 32" for f :: "nat \<Rightarrow> nat" and m
    using that by (simp add: sum.atLeastLessThan_concat flip: atLeast0LessThan)
  have low: "(\<Sum>i<j. term_val a b i j * 256 ^ i) = 38 * ?x * G"
  proof -
    have "(\<Sum>i<j. term_val a b i j * 256 ^ i) = (\<Sum>i<j. 38 * ?x * (?B (i + (32 - j)) * 256 ^ i))"
      using assms(1) by (intro sum.cong) (simp_all add: term_val_def algebra_simps)
    then show ?thesis by (simp add: G_def sum_distrib_left)
  qed
  have high: "(\<Sum>i=j..<32. term_val a b i j * 256 ^ i) = ?x * F"
  proof -
    have "(\<Sum>i=j..<32. term_val a b i j * 256 ^ i) =
        (\<Sum>i=0 + j..<(32 - j) + j. ?x * (?B (i - j) * 256 ^ i))"
      using assms(1) by (intro sum.cong) (simp_all add: term_val_def algebra_simps)
    also have "\<dots> = (\<Sum>k=0..<32 - j. ?x * (?B (k + j - j) * 256 ^ (k + j)))"
      by (rule sum.shift_bounds_nat_ivl)
    finally show ?thesis by (simp add: F_def sum_distrib_left atLeast0LessThan)
  qed
  have val: "256 ^ j * fe_val b = F + 256 ^ 32 * G"
  proof -
    have "256 ^ j * fe_val b = (\<Sum>k<32. ?B k * 256 ^ (k + j))"
      using assms(2) by (simp add: fe_val_sum sum_distrib_left power_add algebra_simps)
    also have "\<dots> = F + (\<Sum>k=32 - j..<32. ?B k * 256 ^ (k + j))"
      by (subst split [of "32 - j"]) (simp_all add: F_def)
    also have "(\<Sum>k=32 - j..<32. ?B k * 256 ^ (k + j)) =
        (\<Sum>k=0 + (32 - j)..<j + (32 - j). ?B k * 256 ^ (k + j))"
      using assms(1) by simp
    also have "\<dots> = (\<Sum>i=0..<j. ?B (i + (32 - j)) * 256 ^ (i + (32 - j) + j))"
      by (rule sum.shift_bounds_nat_ivl)
    also have "\<dots> = 256 ^ 32 * G"
    proof -
      have "i + (32 - j) + j = 32 + i" for i using assms(1) by simp
      then have "256 ^ (i + (32 - j) + j) = 256 ^ 32 * (256 :: nat) ^ i" for i
        by (simp only: power_add [of _ 32 i])
      then show ?thesis
        by (simp only: G_def sum_distrib_left atLeast0LessThan) (simp add: algebra_simps)
    qed
    finally show ?thesis .
  qed
  have "?x * (256 ^ j * fe_val b) = (\<Sum>i<32. term_val a b i j * 256 ^ i) + p25519 * (2 * ?x * G)"
  proof -
    have "256 ^ 32 = 38 + p25519 * 2" by (simp add: p25519_def)
    then have "?x * (256 ^ j * fe_val b) = ?x * F + 38 * ?x * G + p25519 * (2 * ?x * G)"
      by (simp only: val) (simp add: algebra_simps)
    then show ?thesis
      using split [of j "\<lambda>i. term_val a b i j * 256 ^ i"] assms(1) low high by simp
  qed
  then show ?thesis by (simp only: mult.assoc mod_mult_self2)
qed

lemma columns_product:
  assumes "length a = 32" and "length b = 32"
  shows "(\<Sum>i<32. column_val a b i * 256 ^ i) mod p25519 = (fe_val a * fe_val b) mod p25519"
proof -
  have "(\<Sum>i<32. column_val a b i * 256 ^ i) = (\<Sum>j<32. \<Sum>i<32. term_val a b i j * 256 ^ i)"
    unfolding column_val_def sum_distrib_right by (rule sum.swap)
  also have "\<dots> mod p25519 = (\<Sum>j<32. (\<Sum>i<32. term_val a b i j * 256 ^ i) mod p25519) mod p25519"
    by (rule mod_sum_eq [symmetric])
  also have "(\<Sum>j<32. (\<Sum>i<32. term_val a b i j * 256 ^ i) mod p25519) =
      (\<Sum>j<32. (unat (a ! j) * 256 ^ j * fe_val b) mod p25519)"
    using columns_of_row [OF _ assms(2), of _ a] by (intro sum.cong) (simp_all only: lessThan_iff)
  also have "\<dots> mod p25519 = (\<Sum>j<32. unat (a ! j) * 256 ^ j * fe_val b) mod p25519"
    by (rule mod_sum_eq)
  also have "(\<Sum>j<32. unat (a ! j) * 256 ^ j * fe_val b) = fe_val a * fe_val b"
    using assms(1) by (simp add: fe_val_sum [of a] sum_distrib_right)
  finally show ?thesis .
qed

lemma geometric_256: "255 * (\<Sum>i<n. 256 ^ i) < (256 :: nat) ^ n"
  by (induction n) simp_all

lemma fe_mul_correct:
  assumes "length a = 32" and "length b = 32"
  shows "fe_val (fe_mul__distinct a b) mod p25519 = (fe_val a * fe_val b) mod p25519 \<and>
    fe_ok (fe_mul__distinct a b)"
proof -
  obtain r c where r: "fe_mul_loop a b 0 32 0 = (r, c)" by fastforce
  define T where "T = (\<Sum>i<32. column_val a b i * 256 ^ i)"
  have v: "length r = 32" "unat (last r) = unat c mod 256" "unat c < 2 ^ 31"
    "T = fe_val r + 256 ^ 32 * (unat c div 256)"
    using fe_mul_loop_value [OF r] by (simp_all add: T_def)
  have "T \<le> (\<Sum>i<32. 79070400 * 256 ^ i)"
    unfolding T_def by (intro sum_mono mult_right_mono column_val_le) simp
  also have "(\<Sum>i<32. 79070400 * 256 ^ i) = 79070400 * (\<Sum>i<32. 256 ^ i :: nat)"
    by (simp only: sum_distrib_left)
  finally have "255 * T \<le> 79070400 * (255 * (\<Sum>i<32. 256 ^ i))"
    by (simp only: mult.left_commute [of 255] mult_le_mono2)
  also have "\<dots> < 79070400 * 256 ^ 32"
    by (intro mult_strict_left_mono geometric_256) simp
  finally have "T < 2 ^ 21 * 2 ^ 255" by simp
  then have "T div 2 ^ 255 < 2 ^ 21" by (rule less_mult_imp_div_less)
  then have "19 * (T div 2 ^ 255) < 2 ^ 31" by simp
  from fe_fold_ok [OF v(1) _ v(4) this] v(1,2) r show ?thesis
    by (simp add: fe_mul__distinct_def last_31 T_def columns_product [OF assms])
qed

section \<open>Selection and full reduction\<close>

lemma fe_select_0: "length zero = length one \<Longrightarrow> fe_select zero one 0 = zero"
  by (rule nth_equalityI) (simp_all add: fe_select_def)

lemma fe_select_1: "length zero = length one \<Longrightarrow> fe_select zero one 1 = one"
  by (rule nth_equalityI)
    (simp_all add: fe_select_def xor.left_commute xor.commute flip: xor.assoc)

lemma bit_15_negative:
  assumes "int (unat c) = z mod 2 ^ 32" and "- (2 ^ 15) \<le> z" and "z < 2 ^ 15"
  shows "(ucast (drop_bit 15 (c :: u32) AND 1) :: u8) = (if z < 0 then 1 else 0)"
proof -
  have "unat (drop_bit 15 c AND 1) = unat c div 2 ^ 15 mod 2"
    using unat_and_mask_mod [of "drop_bit 15 c" 1]
    by (simp add: unat_drop_bit_div mask_eq_exp_minus_1)
  moreover have "unat c div 2 ^ 15 mod 2 = (if z < 0 then 1 else 0)"
  proof (cases "z < 0")
    case True
    with assms have "int (unat c) = z + 2 ^ 32"
      by (simp add: mod_pos_pos_trivial [of "z + 2 ^ 32" "2 ^ 32", simplified, symmetric])
    then have "int (unat c) div 2 ^ 15 = z div 2 ^ 15 + 2 ^ 17"
      by simp
    moreover have "z div 2 ^ 15 = -1"
      using True assms(2) by (intro int_div_pos_eq [where r = "z + 2 ^ 15"]) simp_all
    ultimately have "int (unat c div 2 ^ 15) = 131071"
      by (simp add: zdiv_int)
    then have "unat c div 2 ^ 15 = 131071" by linarith
    with True show ?thesis by simp
  next
    case False
    with assms have "int (unat c) = z" by simp
    then have "unat c = nat z" by (metis nat_int)
    with assms(3) have "unat c < 2 ^ 15" by simp
    with False show ?thesis by simp
  qed
  ultimately have "unat (ucast (drop_bit 15 c AND 1) :: u8) = (if z < 0 then 1 else 0)"
    by (simp add: unat_ucast_u8_down)
  then show ?thesis
    by (cases "z < 0") (simp_all add: word_unat_eq_iff)
qed

lemma fe_normalize_correct:
  assumes "length x = 32"
  shows "fe_val (fe_normalize x) = fe_val x mod p25519 \<and> length (fe_normalize x) = 32"
proof -
  define N :: nat where "N = 256 ^ 31"
  have N: "p25519 + 19 = 128 * N" "0 < N" by (simp_all add: N_def p25519_def)
  define x' where "x' = fst (carry_loop (ucast (drop_bit 7 (x ! 31)) * 19) (x[31 := x ! 31 AND 127]))"
  have "drop_bit 7 (ucast (x ! 31) :: u32) = ucast (drop_bit 7 (x ! 31))"
    by (simp add: word_unat_eq_iff unat_drop_bit_div)
  then have x': "x' = fe_fold (ucast (x ! 31)) x"
    by (simp add: x'_def fe_fold_def)
  have v32: "fe_val x < 256 ^ 32" using fe_val_less [of x] assms by simp
  then have "fe_val x < 2 * 2 ^ 255" by simp
  then have "fe_val x div 2 ^ 255 < 2" by (rule less_mult_imp_div_less)
  then have top: "fe_val x div 2 ^ 255 \<le> 1" by simp
  have xv: "fe_val x' = fe_val x mod 2 ^ 255 + 19 * (fe_val x div 2 ^ 255)" "length x' = 32"
    using fe_fold_value [OF assms, of "ucast (x ! 31)" "fe_val x"] top unat_lt_256 [of "x ! 31"]
    by (simp_all add: x')
  have xp: "fe_val x' mod p25519 = fe_val x mod p25519"
    unfolding xv(1) by (rule fold_mod_p)
  have "fe_val x mod 2 ^ 255 < 2 ^ 255" by simp
  with xv(1) top have x2p: "fe_val x' < 2 * p25519" by (simp add: p25519_def)
  obtain m c where m: "carry_loop 19 (take 31 x') = (m, c)" by fastforce
  have mv: "length m = 31" "fe_val m + N * unat c = fe_val (take 31 x') + 19"
    using carry_loop_value [OF m] xv(2) by (simp_all add: N_def)
  have x31: "fe_val x' = fe_val (take 31 x') + N * unat (x' ! 31)"
    using fe_val_31 [OF xv(2)] by (simp only: N_def)
  define d where "d = c + (ucast (x' ! 31) - 128)"
  define z :: int where "z = int (unat c) + int (unat (x' ! 31)) - 128"
  have mN: "fe_val m < N" using fe_val_less [of m] mv(1) by (simp only: N_def)
  have "fe_val (take 31 x') < N" using fe_val_less [of "take 31 x'"] xv(2) by (simp only: N_def) simp
  moreover have "19 \<le> N" by (simp add: N_def)
  ultimately have "N * unat c < N * 2" using mv(2) by linarith
  then have c2: "unat c < 2" using N(2) by simp
  have zb: "-128 \<le> z" "z < 256" unfolding z_def using c2 unat_le_255 [of "x' ! 31"] by linarith+
  have dz: "int (unat d) = z mod 2 ^ 32"
  proof -
    have "uint d = (uint c + (uint (ucast (x' ! 31) :: u32) - 128)) mod 2 ^ 32"
      by (simp add: d_def uint_word_ariths mod_simps)
    moreover have "uint (ucast (x' ! 31) :: u32) = int (unat (x' ! 31))"
      by (simp only: uint_nat unat_ucast_u8_up)
    ultimately show ?thesis by (simp only: z_def uint_nat add_diff_eq)
  qed
  have key: "int (fe_val m) + int N * z = int (fe_val x') - int p25519"
  proof -
    have "int (fe_val m) + int N * int (unat c) = int (fe_val (take 31 x')) + 19"
      using arg_cong [OF mv(2), of int] by (simp only: of_nat_add of_nat_mult of_nat_numeral)
    moreover have "int p25519 + 19 = 128 * int N"
      using arg_cong [OF N(1), of int] by (simp only: of_nat_add of_nat_mult of_nat_numeral)
    moreover have "int (fe_val x') = int (fe_val (take 31 x')) + int N * int (unat (x' ! 31))"
      using arg_cong [OF x31, of int] by (simp only: of_nat_add of_nat_mult)
    ultimately show ?thesis unfolding z_def by (simp only: algebra_simps)
  qed
  have cond: "ucast (drop_bit 15 d AND 1) = (if z < 0 then 1 else 0 :: u8)"
    using bit_15_negative [OF dz] zb by simp
  have neg: "z < 0 \<longleftrightarrow> fe_val x' < p25519"
  proof
    assume "z < 0"
    then have "int N * z \<le> int N * - 1" by (intro mult_left_mono) simp_all
    with key mN show "fe_val x' < p25519" by linarith
  next
    assume "fe_val x' < p25519"
    with key have "int N * z < 0" by linarith
    then show "z < 0" using N(2) by (simp add: mult_less_0_iff)
  qed
  have norm: "fe_normalize x = fe_select (m @ [ucast d]) x' (ucast (drop_bit 15 d AND 1))"
    using m by (simp add: fe_normalize_def Let_def x'_def d_def)
  have len: "length (m @ [ucast d :: u8]) = length x'" using mv(1) xv(2) by simp
  show ?thesis
  proof (cases "z < 0")
    case True
    then have "fe_normalize x = x'" using norm cond len by (simp add: fe_select_1)
    moreover have "fe_val x' mod p25519 = fe_val x'" using True neg by simp
    ultimately show ?thesis using xp xv(2) by simp
  next
    case False
    then have n: "fe_normalize x = m @ [ucast d]" using norm cond len by (simp add: fe_select_0)
    have d: "int (unat d) = z" unfolding dz using False zb by (intro mod_pos_pos_trivial) simp_all
    then have d256: "unat d mod 256 = unat d" using zb(2) by (intro mod_less) linarith
    have "fe_val (m @ [ucast d]) = fe_val m + N * unat d"
      by (simp only: fe_val_append mv(1) N_def fe_val.simps last_byte d256 mult_0_right add_0_right)
    moreover have "int (fe_val m) + int N * int (unat d) = int (fe_val x') - int p25519"
      using key by (simp only: d)
    ultimately have "int (fe_val (m @ [ucast d]) + p25519) = int (fe_val x')"
      by (simp only: of_nat_add of_nat_mult)
    then have "fe_val (m @ [ucast d]) + p25519 = fe_val x'" by (simp only: of_nat_eq_iff)
    moreover have "fe_val x' mod p25519 = fe_val x' - p25519"
      using neg False x2p by (simp add: le_mod_geq)
    ultimately show ?thesis using n xp mv(1) by simp
  qed
qed

lemma fe_val_inject: "length x = length y \<Longrightarrow> fe_val x = fe_val y \<longleftrightarrow> x = y"
proof (induction x y rule: list_induct2)
  case (Cons x xs y ys)
  have "u + 256 * m = v + 256 * n \<longleftrightarrow> u = v \<and> m = n" if "u < 256" "v < 256" for u v m n :: nat
  proof -
    have "(u + 256 * m) div 256 = m" "(v + 256 * n) div 256 = n" using that by simp_all
    then have "m = n" if "u + 256 * m = v + 256 * n" by (metis that)
    then show ?thesis by (metis add_right_cancel)
  qed
  from this [OF unat_lt_256 unat_lt_256] have "fe_val (x # xs) = fe_val (y # ys) \<longleftrightarrow> x = y \<and> fe_val xs = fe_val ys"
    by (simp add: word_unat_eq_iff)
  with Cons show ?case by simp
qed simp

section \<open>Representation of field elements\<close>

lemma bit_fe_val: "bit (fe_val xs) i \<longleftrightarrow> i div 8 < length xs \<and> bit (xs ! (i div 8)) (i mod 8)"
proof (induction xs arbitrary: i)
  case (Cons x xs)
  have split: "unat x + 256 * fe_val xs = push_bit 8 (fe_val xs) OR take_bit 8 (unat x)"
  proof -
    have "take_bit 8 (unat x) = unat x" using unat_lt_256 [of x] by (simp add: take_bit_nat_eq_self_iff)
    moreover have "push_bit 8 (fe_val xs) OR take_bit 8 (unat x) = push_bit 8 (fe_val xs) + take_bit 8 (unat x)"
      by (rule disjunctive_add [symmetric]) (auto simp: bit_push_bit_iff bit_take_bit_iff)
    ultimately show ?thesis by (simp add: push_bit_eq_mult)
  qed
  show ?case
  proof (cases "i < 8")
    case True
    then show ?thesis
      by (simp add: split bit_or_iff bit_push_bit_iff bit_take_bit_iff bit_unsigned_iff)
  next
    case False
    then have "i div 8 = Suc ((i - 8) div 8)" "i mod 8 = (i - 8) mod 8"
      using le_div_geq [of 8 i] le_mod_geq [of 8 i] by simp_all
    then show ?thesis using False Cons [of "i - 8"]
      by (simp add: split bit_or_iff bit_push_bit_iff bit_take_bit_iff)
  qed
qed simp

lemma exponent_bit_value:
  "i div 8 < length e \<Longrightarrow> exponent_bit e i = (if bit (fe_val e) i then 1 else 0)"
proof -
  assume "i div 8 < length e"
  then have "bit (fe_val e) i = bit (e ! (i div 8)) (i mod 8)" by (simp add: bit_fe_val)
  then show ?thesis
    by (simp add: exponent_bit_def and_one_eq mod_2_eq_odd bit_iff_odd_drop_bit)
qed

definition fe_rep :: "u8 list \<Rightarrow> int \<Rightarrow> bool" where
  "fe_rep x X \<longleftrightarrow> length x = 32 \<and> int (fe_val x) mod int p25519 = X mod int p25519"

lemma fe_rep_self: "length x = 32 \<Longrightarrow> fe_rep x (int (fe_val x))"
  by (simp add: fe_rep_def)

lemma fe_repI:
  "fe_val r mod p25519 = v mod p25519 \<Longrightarrow> length r = 32 \<Longrightarrow> int v mod int p25519 = X mod int p25519 \<Longrightarrow> fe_rep r X"
  unfolding fe_rep_def by (metis of_nat_mod)

lemma fe_rep_mul:
  assumes "fe_rep a A" and "fe_rep b B"
  shows "fe_rep (fe_mul__distinct a b) (A * B)"
proof -
  have l: "length a = 32" "length b = 32" using assms by (simp_all add: fe_rep_def)
  have "int (fe_val a * fe_val b) mod int p25519 = (A * B) mod int p25519"
    using assms by (simp only: fe_rep_def of_nat_mult) (blast intro: mod_mult_cong)
  then show ?thesis
    using fe_mul_correct [OF l] by (auto intro: fe_repI fe_ok_length)
qed

lemma fe_rep_add:
  assumes "fe_rep a A" and "fe_rep b B"
  shows "fe_rep (lm_add a b) (A + B)"
proof -
  have l: "length a = 32" "length b = 32" using assms by (simp_all add: fe_rep_def)
  have "int (fe_val a + fe_val b) mod int p25519 = (A + B) mod int p25519"
    using assms by (simp only: fe_rep_def of_nat_add) (blast intro: mod_add_cong)
  then show ?thesis
    using lm_add_correct [OF l] by (auto intro: fe_repI fe_ok_length)
qed

lemma fe_rep_sub:
  assumes "fe_rep a A" and "fe_rep b B" and "fe_ok b"
  shows "fe_rep (lm_sub a b) (A - B)"
proof -
  have l: "length a = 32" "length b = 32" using assms by (simp_all add: fe_rep_def)
  have "(int (fe_val a) - int (fe_val b)) mod int p25519 = (A - B) mod int p25519"
    using assms by (simp only: fe_rep_def) (blast intro: mod_diff_cong)
  then show ?thesis
    using lm_sub_correct [OF l] assms(3) by (simp add: fe_rep_def fe_ok_def)
qed

lemma fe_rep_mul_c:
  assumes "fe_rep a A" and "unat b < 2 ^ 22"
  shows "fe_rep (fe_mul_c a b) (int (unat b) * A)"
proof -
  have l: "length a = 32" using assms by (simp_all add: fe_rep_def)
  have "int (unat b * fe_val a) mod int p25519 = (int (unat b) * A) mod int p25519"
    using assms by (simp only: fe_rep_def of_nat_mult) (blast intro: mod_mult_cong)
  then show ?thesis
    using fe_mul_c_correct [OF l assms(2)] by (auto intro: fe_repI fe_ok_length)
qed

lemma fe_ok_mul: "length a = 32 \<Longrightarrow> length b = 32 \<Longrightarrow> fe_ok (fe_mul__distinct a b)"
  using fe_mul_correct by blast

lemma fe_rep_length: "fe_rep x X \<Longrightarrow> length x = 32"
  by (simp add: fe_rep_def)

section \<open>Powers by squaring and multiplying\<close>

text \<open>
  A multiplication that a representation relation reads as the integer product, as seen by the
  code that raises an element to a fixed power by squaring and multiplying.
\<close>

locale represented_product =
  fixes mul :: "'a \<Rightarrow> 'a \<Rightarrow> 'a"
    and rep :: "'a \<Rightarrow> int \<Rightarrow> bool"
  assumes rep_mul: "rep a A \<Longrightarrow> rep b B \<Longrightarrow> rep (mul a b) (A * B)"
begin

lemma square: "rep r (X ^ k) \<Longrightarrow> rep (mul r r) (X ^ (2 * k))"
  using rep_mul [of r "X ^ k" r "X ^ k"] by (simp add: mult_2 power_add)

lemma times_base: "rep r (X ^ k) \<Longrightarrow> rep x X \<Longrightarrow> rep (mul r x) (X ^ Suc k)"
  using rep_mul [of r "X ^ k" x X] by (simp add: mult.commute)

lemma square_times_chain:
  "rep r (X ^ k) \<Longrightarrow> rep x X \<Longrightarrow>
   rep (((\<lambda>r. mul (mul r r) x) ^^ n) r) (X ^ (2 ^ n * Suc k - 1))"
proof (induction n)
  case (Suc n)
  have "Suc (2 * (2 ^ n * Suc k - 1)) = 2 ^ Suc n * Suc k - 1"
    by (cases "2 ^ n * Suc k") simp_all
  then show ?case
    using times_base [OF square [OF Suc.IH [OF Suc.prems]] Suc.prems(2)] by simp
qed simp

end

interpretation fe: represented_product fe_mul__distinct fe_rep
  by unfold_locales (rule fe_rep_mul)

lemma fe_inv_rep:
  assumes "fe_rep x X"
  shows "fe_rep (fe_inv__distinct x) (X ^ (p25519 - 2))"
proof -
  define K :: nat where "K = 2 ^ 248 * Suc 3 - 1"
  have K: "Suc (2 * Suc (2 * (2 * Suc (2 * (2 * K))))) = p25519 - 2"
    by (simp add: K_def p25519_def)
  have "fe_rep x (X ^ 1)" using assms by simp
  from fe.times_base [OF fe.square [OF this] assms]
  have "fe_rep (fe_mul__distinct (fe_mul__distinct x x) x) (X ^ 3)" by (simp add: eval_nat_numeral)
  from fe.square_times_chain [OF this assms, of 248, folded K_def]
  have "fe_rep (((\<lambda>r. fe_mul__distinct (fe_mul__distinct r r) x) ^^ 248)
      (fe_mul__distinct (fe_mul__distinct x x) x)) (X ^ K)" .
  note this [THEN fe.square, THEN fe.square, THEN fe.times_base [OF _ assms],
      THEN fe.square, THEN fe.square, THEN fe.times_base [OF _ assms],
      THEN fe.square, THEN fe.times_base [OF _ assms]]
  then show ?thesis by (simp only: fe_inv__distinct_def Let_def K)
qed

section \<open>The ladder over the integers\<close>

text \<open>
  The formulas the code cites (dbl-1987-m3 and dbl-1987-m) on projective points with integer
  coordinates, the ladder over them with the bits of the exponent as a number, and the relation
  that the byte arrays keep to them. The second coordinate stays loosely reduced, as \<open>lm_sub\<close>
  needs of what it subtracts.
\<close>

definition diffadd_spec :: "int \<times> int \<Rightarrow> int \<times> int \<Rightarrow> int \<times> int \<Rightarrow> int \<times> int" where
  "diffadd_spec = (\<lambda>(X1, Z1) (X2, Z2) (X3, Z3).
     let DA = (X2 + Z2) * (X3 - Z3); CB = (X3 + Z3) * (X2 - Z2)
     in (Z1 * (DA + CB) ^ 2, X1 * (DA - CB) ^ 2))"

definition double_spec :: "int \<times> int \<Rightarrow> int \<times> int" where
  "double_spec = (\<lambda>(X, Z).
     ((X ^ 2 - Z ^ 2) ^ 2, 4 * X * Z * (X ^ 2 + 486662 * X * Z + Z ^ 2)))"

definition ladder_step_spec ::
  "int \<Rightarrow> bool \<Rightarrow> (int \<times> int) \<times> (int \<times> int) \<Rightarrow> (int \<times> int) \<times> (int \<times> int)" where
  "ladder_step_spec Q b = (\<lambda>(P, P1).
     let A = diffadd_spec (Q, 1) P P1; D = double_spec P; S = diffadd_spec A D (Q, 1)
     in if b then (S, D) else (D, A))"

definition ladder_spec :: "nat \<Rightarrow> int \<Rightarrow> (int \<times> int) \<times> (int \<times> int)" where
  "ladder_spec m Q = foldl (\<lambda>s i. ladder_step_spec Q (bit m i) s) ((Q, 1), (1, 0)) (rev [0..<254])"

definition point_rep :: "u8 list \<Rightarrow> u8 list \<Rightarrow> int \<times> int \<Rightarrow> bool" where
  "point_rep x z P \<longleftrightarrow> fe_rep x (fst P) \<and> fe_rep z (snd P) \<and> fe_ok z"

lemma xc_diffadd_correct:
  assumes "fe_rep x1 (fst P1)" and "fe_rep z1 (snd P1)" and "point_rep x2 z2 P2" and "point_rep x3 z3 P3"
    and "xc_diffadd x1 z1 x2 z2 x3 z3 = (x5, z5)"
  shows "point_rep x5 z5 (diffadd_spec P1 P2 P3)"
proof -
  define da where "da = fe_mul__distinct (lm_add x2 z2) (lm_sub x3 z3)"
  define cb where "cb = fe_mul__distinct (lm_add x3 z3) (lm_sub x2 z2)"
  define DA where "DA = (fst P2 + snd P2) * (fst P3 - snd P3)"
  define CB where "CB = (fst P3 + snd P3) * (fst P2 - snd P2)"
  have r: "fe_rep x2 (fst P2)" "fe_rep z2 (snd P2)" "fe_ok z2"
    "fe_rep x3 (fst P3)" "fe_rep z3 (snd P3)" "fe_ok z3"
    using assms(3,4) by (simp_all add: point_rep_def)
  have da: "fe_rep da DA" and cb: "fe_rep cb CB"
    unfolding da_def DA_def cb_def CB_def by (intro fe_rep_mul fe_rep_add fe_rep_sub r)+
  have "fe_ok cb"
    unfolding cb_def using r by (intro fe_ok_mul fe_rep_length [OF fe_rep_add] fe_rep_length [OF fe_rep_sub])
  then have s: "fe_rep (lm_add da cb) (DA + CB)" "fe_rep (lm_sub da cb) (DA - CB)"
    using da cb by (simp_all add: fe_rep_add fe_rep_sub)
  have x5: "x5 = fe_mul__distinct z1 (fe_mul__distinct (lm_add da cb) (lm_add da cb))"
    and z5: "z5 = fe_mul__distinct x1 (fe_mul__distinct (lm_sub da cb) (lm_sub da cb))"
    using assms(5) by (simp_all add: xc_diffadd_def Let_def da_def cb_def)
  have spec: "diffadd_spec P1 P2 P3 = (snd P1 * ((DA + CB) * (DA + CB)), fst P1 * ((DA - CB) * (DA - CB)))"
    by (simp add: diffadd_spec_def DA_def CB_def Let_def power2_eq_square split: prod.splits)
  have "fe_rep x5 (fst (diffadd_spec P1 P2 P3))" "fe_rep z5 (snd (diffadd_spec P1 P2 P3))"
    unfolding x5 z5 spec fst_conv snd_conv by (intro fe_rep_mul s assms)+
  moreover have "fe_ok z5"
    unfolding z5 by (intro fe_ok_mul fe_rep_length [OF assms(1)] fe_rep_length [OF fe_rep_mul [OF s(2) s(2)]])
  ultimately show ?thesis by (simp add: point_rep_def)
qed

lemma xc_double_correct:
  assumes "fe_rep x1 (fst P)" and "fe_rep z1 (snd P)" and "xc_double x1 z1 = (x3, z3)"
  shows "point_rep x3 z3 (double_spec P)"
proof -
  define X Z where "X = fst P" and "Z = snd P"
  have r: "fe_rep x1 X" "fe_rep z1 Z" using assms by (simp_all add: X_def Z_def)
  define s t u a where "s = fe_mul__distinct x1 x1" and "t = fe_mul__distinct z1 z1"
    and "u = fe_mul__distinct x1 z1" and "a = lm_add t (lm_add s (fe_mul_c u 486662))"
  have s: "fe_rep s (X * X)" and t: "fe_rep t (Z * Z)" and u: "fe_rep u (X * Z)"
    unfolding s_def t_def u_def by (intro fe_rep_mul r)+
  have "fe_ok t" unfolding t_def by (intro fe_ok_mul fe_rep_length [OF r(2)])
  then have d: "fe_rep (lm_sub s t) (X * X - Z * Z)" by (intro fe_rep_sub s t)
  have "fe_rep (fe_mul_c u 486662) (486662 * (X * Z))"
    using fe_rep_mul_c [OF u, of 486662] by simp
  then have a: "fe_rep a (Z * Z + (X * X + 486662 * (X * Z)))"
    unfolding a_def by (intro fe_rep_add s t)
  have ua: "fe_rep (fe_mul__distinct u a) (X * Z * (Z * Z + (X * X + 486662 * (X * Z))))"
    by (intro fe_rep_mul u a)
  have x3: "x3 = fe_mul__distinct (lm_sub s t) (lm_sub s t)"
    and z3: "z3 = fe_mul_c (fe_mul__distinct u a) 4"
    using assms(3) by (simp_all add: xc_double_def Let_def s_def t_def u_def a_def)
  have spec: "double_spec P = ((X * X - Z * Z) * (X * X - Z * Z),
      4 * (X * Z * (Z * Z + (X * X + 486662 * (X * Z)))))"
    by (simp add: double_spec_def X_def Z_def power2_eq_square algebra_simps split: prod.splits)
  have "fe_rep x3 (fst (double_spec P))"
    unfolding x3 spec fst_conv by (intro fe_rep_mul d)
  moreover have "fe_rep z3 (snd (double_spec P))"
    using fe_rep_mul_c [OF ua, of 4] by (simp add: z3 spec)
  moreover have "fe_ok z3"
    using fe_mul_c_correct [OF fe_rep_length [OF ua], of 4] by (simp add: z3)
  ultimately show ?thesis by (simp add: point_rep_def)
qed

definition ladder_rep :: "ladder \<Rightarrow> (int \<times> int) \<times> (int \<times> int) \<Rightarrow> bool" where
  "ladder_rep s S \<longleftrightarrow> point_rep (xm s) (zm s) (fst S) \<and> point_rep (xm1 s) (zm1 s) (snd S)"

lemma f25519_one_rep: "fe_rep f25519_one 1" "fe_ok f25519_one"
  and f25519_zero_rep: "fe_rep f25519_zero 0" "fe_ok f25519_zero"
  by (simp_all add: fe_rep_def fe_ok_def f25519_one_def f25519_zero_def p25519_def)

lemma point_rep_length: "point_rep x z P \<Longrightarrow> length x = 32 \<and> length z = 32"
  by (simp add: point_rep_def fe_rep_def)

lemma ladder_step_correct:
  assumes "fe_rep q Q" and "ladder_rep s S"
  shows "ladder_rep (ladder_step q (if b then 1 else 0) s) (ladder_step_spec Q b S)"
proof -
  have q: "point_rep q f25519_one (Q, 1)"
    using assms(1) f25519_one_rep by (simp add: point_rep_def)
  obtain P P1 where S: "S = (P, P1)" by (cases S)
  have s: "point_rep (xm s) (zm s) P" "point_rep (xm1 s) (zm1 s) P1"
    using assms(2) by (simp_all add: S ladder_rep_def)
  obtain xa za where a: "xc_diffadd q f25519_one (xm s) (zm s) (xm1 s) (zm1 s) = (xa, za)" by fastforce
  obtain xd zd where d: "xc_double (xm s) (zm s) = (xd, zd)" by fastforce
  obtain xs zs where c: "xc_diffadd xa za xd zd q f25519_one = (xs, zs)" by fastforce
  have A: "point_rep xa za (diffadd_spec (Q, 1) P P1)"
    by (rule xc_diffadd_correct [OF _ _ s a]) (use q in \<open>simp_all add: point_rep_def\<close>)
  have D: "point_rep xd zd (double_spec P)"
    by (rule xc_double_correct [OF _ _ d]) (use s in \<open>simp_all add: point_rep_def\<close>)
  have C: "point_rep xs zs (diffadd_spec (diffadd_spec (Q, 1) P P1) (double_spec P) (Q, 1))"
    by (rule xc_diffadd_correct [OF _ _ D q c]) (use A in \<open>simp_all add: point_rep_def\<close>)
  have "fe_select xd xs 0 = xd" "fe_select zd zs 0 = zd" "fe_select xa xd 0 = xa" "fe_select za zd 0 = za"
    "fe_select xd xs 1 = xs" "fe_select zd zs 1 = zs" "fe_select xa xd 1 = xd" "fe_select za zd 1 = zd"
    using point_rep_length [OF A] point_rep_length [OF D] point_rep_length [OF C]
    by (simp_all add: fe_select_0 fe_select_1)
  then show ?thesis
    using A D C by (simp add: ladder_step_def a d c S ladder_rep_def ladder_step_spec_def Let_def)
qed

lemma ladder_loop_correct:
  assumes "length e = 32" and "fe_rep q Q"
  shows "ladder_rep (ladder_loop e q) (ladder_spec (fe_val e) Q)"
proof -
  have "ladder_rep (foldl (\<lambda>s i. ladder_step q (exponent_bit e i) s) s is)
      (foldl (\<lambda>s i. ladder_step_spec Q (bit (fe_val e) i) s) S is)"
    if "ladder_rep s S" "\<forall>i\<in>set is. i < 254" for s S "is"
    using that
  proof (induction "is" arbitrary: s S)
    case (Cons i "is")
    then have "i div 8 < length e" using assms(1) by auto
    then show ?case
      using Cons ladder_step_correct [OF assms(2) Cons.prems(1), of "bit (fe_val e) i"]
      by (simp add: exponent_bit_value)
  qed simp
  moreover have "ladder_rep (ladder_init q) ((Q, 1), (1, 0))"
    using assms(2) f25519_one_rep f25519_zero_rep by (simp add: ladder_init_def ladder_rep_def point_rep_def)
  ultimately show ?thesis by (simp add: ladder_loop_def ladder_spec_def del: upt_rec_numeral upt_Suc)
qed

lemma curve25519_value:
  assumes "length e = 32" and "length q = 32"
  shows "length (curve25519 e q) = 32 \<and>
    (case ladder_spec (fe_val e) (int (fe_val q)) of ((X, Z), _) \<Rightarrow>
       int (fe_val (curve25519 e q)) = (X * Z ^ (p25519 - 2)) mod int p25519)"
proof -
  obtain X Z S where S: "ladder_spec (fe_val e) (int (fe_val q)) = ((X, Z), S)"
    by (metis surj_pair)
  let ?s = "ladder_loop e q"
  have "point_rep (xm ?s) (zm ?s) (X, Z)"
    using ladder_loop_correct [OF assms(1) fe_rep_self [OF assms(2)]] by (simp add: S ladder_rep_def)
  then have "fe_rep (xm ?s) X" "fe_rep (zm ?s) Z" by (simp_all add: point_rep_def)
  then have "fe_rep (fe_mul__distinct (fe_inv__distinct (zm ?s)) (xm ?s)) (Z ^ (p25519 - 2) * X)"
    by (intro fe_rep_mul fe_inv_rep)
  then show ?thesis
    using fe_normalize_correct [of "fe_mul__distinct (fe_inv__distinct (zm ?s)) (xm ?s)"]
    by (simp add: S curve25519_def Let_def fe_rep_def mult.commute of_nat_mod)
qed

section \<open>The properties\<close>

text \<open>
  C29: for all peer keys and exponents of 32 bytes, \<open>curve25519\<close> returns the canonical bytes of
  \<open>X * Z^(p - 2) mod p\<close>, where \<open>(X, Z)\<close> is the result of the Montgomery ladder over the integers
  with the bits 253 to 0 of the exponent: none of the 32-bit accumulators of the field arithmetic
  loses a carry or a sign.
\<close>

theorem curve25519_correct:
  assumes "length e = 32" and "length q = 32"
  shows "length (curve25519 e q) = 32 \<and>
    (case ladder_spec (fe_val e) (int (fe_val q)) of ((X, Z), _) \<Rightarrow>
       int (fe_val (curve25519 e q)) = (X * Z ^ (p25519 - 2)) mod int p25519)"
  by (rule curve25519_value [OF assms])

lemma curve25519_correct_witness:
  "length (curve25519 (replicate 32 7) (9 # replicate 31 0)) = 32"
  using curve25519_correct [of "replicate 32 7" "9 # replicate 31 0"] by simp

text \<open>
  \<open>fe_normalize\<close> brings every 32-byte array, reduced or not, to the one representative below
  the prime: two arrays normalise to the same bytes exactly when they stand for the same field
  element. The sign it reads from bit 15 of a wrapped 32-bit accumulator is the right one.
\<close>

theorem fe_normalize_canonical:
  assumes "length x = 32" and "length y = 32"
  shows "fe_val (fe_normalize x) = fe_val x mod p25519 \<and> fe_val (fe_normalize x) < p25519 \<and>
    (fe_normalize x = fe_normalize y \<longleftrightarrow> fe_val x mod p25519 = fe_val y mod p25519)"
proof -
  have v: "fe_val (fe_normalize x) = fe_val x mod p25519" "fe_val (fe_normalize y) = fe_val y mod p25519"
    and l: "length (fe_normalize x) = length (fe_normalize y)"
    using fe_normalize_correct assms by simp_all
  moreover have "0 < p25519" by (simp add: p25519_def)
  ultimately show ?thesis using fe_val_inject [OF l] by simp
qed

lemma fe_normalize_canonical_witness:
  "fe_val (fe_normalize (replicate 32 255)) = fe_val (replicate 32 255) mod p25519"
  using fe_normalize_canonical [of "replicate 32 255" "replicate 32 0"] by simp

text \<open>
  Addition, subtraction, multiplication and multiplication by a small constant on arrays are
  the field operations, and each result is again loosely reduced, so that it may be the operand
  of any other. Addition and multiplication ask nothing of their operands but their length;
  \<open>lm_sub\<close> asks that the subtrahend be loosely reduced.
\<close>

theorem fe_operations_are_field_operations:
  assumes "length a = 32" and "length b = 32" and "fe_ok s" and "unat c < 2 ^ 22"
  shows "fe_val (fe_mul__distinct a b) mod p25519 = (fe_val a * fe_val b) mod p25519 \<and>
    fe_val (lm_add a b) mod p25519 = (fe_val a + fe_val b) mod p25519 \<and>
    int (fe_val (lm_sub a s)) mod int p25519 = (int (fe_val a) - int (fe_val s)) mod int p25519 \<and>
    fe_val (fe_mul_c a c) mod p25519 = (unat c * fe_val a) mod p25519 \<and>
    list_all fe_ok [fe_mul__distinct a b, lm_add a b, lm_sub a s, fe_mul_c a c]"
  using assms fe_mul_correct [of a b] lm_add_correct [of a b] lm_sub_correct [of a s]
    fe_mul_c_correct [of a c] by (simp add: fe_ok_def)

lemma fe_operations_are_field_operations_witness:
  "fe_val (fe_mul__distinct (replicate 32 255) (replicate 32 254)) mod p25519 =
     (fe_val (replicate 32 255) * fe_val (replicate 32 254)) mod p25519 \<and>
   fe_ok (lm_sub (replicate 32 255) (replicate 32 0))"
  using fe_operations_are_field_operations [of "replicate 32 255" "replicate 32 254" "replicate 32 0" 486662]
  by (simp add: fe_ok_def)

text \<open>
  \<open>fe_inv__distinct\<close> raises its argument to the power \<open>p - 2\<close>, the inverse of a nonzero
  element of the field: the chain of 248 squarings and multiplications and the nine operations after it compute that
  exponent.
\<close>

theorem fe_inv_is_power:
  assumes "length x = 32"
  shows "int (fe_val (fe_inv__distinct x)) mod int p25519 = int (fe_val x) ^ (p25519 - 2) mod int p25519"
  using fe_inv_rep [OF fe_rep_self [OF assms]] by (simp add: fe_rep_def)

lemma fe_inv_is_power_witness:
  "int (fe_val (fe_inv__distinct (replicate 32 3))) mod int p25519 =
     int (fe_val (replicate 32 3)) ^ (p25519 - 2) mod int p25519"
  by (rule fe_inv_is_power) simp

end
