(* ===== verification/ShellMath.thy ===== *)
theory ShellMath
  imports Prelude "HOL-Library.Signed_Division"
begin

text \<open>
  \<^verbatim>\<open>shell/math.c\<close>: the evaluator of the shell's \<open>$((...))\<close>, an operator-precedence parser
  that evaluates while it parses, with \<^verbatim>\<open>endofname\<close> and \<^verbatim>\<open>skip_whitespace\<close> of libbb. Text is a
  \<open>string\<close> without the final NUL; \<open>arith_t\<close> is \<^verbatim>\<open>long long\<close>, a 64-bit word read with \<open>sint\<close>, whose
  arithmetic wraps. The two stacks are lists with their top first; the sizes the C code
  allocates for them are checked at every push. What C leaves undefined (a push beyond the
  allocation, a shift by 64 or more, a trapping division) is a result of its own, so that the
  theorems say when it can happen. \<^verbatim>\<open>lookupvar\<close> and \<^verbatim>\<open>setvar\<close> are the callbacks of
  \<^verbatim>\<open>arith_state_t\<close>, arguments of the model; \<open>None\<close> from \<open>setvar\<close> is a callback that leaves by
  \<^verbatim>\<open>longjmp\<close>.
\<close>

section \<open>Operators\<close>

type_synonym arith_t = "64 word"

datatype operator =
    TOK_LPAREN | TOK_COMMA
  | TOK_ASSIGN | TOK_AND_ASSIGN | TOK_OR_ASSIGN | TOK_XOR_ASSIGN
  | TOK_PLUS_ASSIGN | TOK_MINUS_ASSIGN | TOK_LSHIFT_ASSIGN | TOK_RSHIFT_ASSIGN
  | TOK_MUL_ASSIGN | TOK_DIV_ASSIGN | TOK_REM_ASSIGN
  | TOK_CONDITIONAL | TOK_CONDITIONAL_SEP
  | TOK_OR | TOK_AND | TOK_BOR | TOK_BXOR | TOK_BAND
  | TOK_EQ | TOK_NE | TOK_LT | TOK_GT | TOK_GE | TOK_LE
  | TOK_LSHIFT | TOK_RSHIFT | TOK_ADD | TOK_SUB | TOK_MUL | TOK_DIV | TOK_REM
  | TOK_EXPONENT | TOK_BNOT | TOK_NOT | TOK_UMINUS | TOK_UPLUS
  | TOK_PRE_INC | TOK_PRE_DEC | TOK_POST_INC | TOK_POST_DEC
  | TOK_NUM | TOK_RPAREN

definition tok_decl :: "nat \<Rightarrow> nat \<Rightarrow> u8" where
  "tok_decl prec i = push_bit 5 (of_nat i) OR of_nat prec"

definition UNARYPREC :: nat where "UNARYPREC = 16"
definition PREC_PRE :: nat where "PREC_PRE = UNARYPREC + 2"
definition PREC_POST :: nat where "PREC_POST = UNARYPREC + 3"
definition SPEC_PREC :: nat where "SPEC_PREC = UNARYPREC + 4"

primrec tok_code :: "operator \<Rightarrow> u8" where
  "tok_code TOK_LPAREN = tok_decl 0 0"
| "tok_code TOK_COMMA = tok_decl 1 0"
| "tok_code TOK_ASSIGN = tok_decl 2 0"
| "tok_code TOK_AND_ASSIGN = tok_decl 2 1"
| "tok_code TOK_OR_ASSIGN = tok_decl 2 2"
| "tok_code TOK_XOR_ASSIGN = tok_decl 2 3"
| "tok_code TOK_PLUS_ASSIGN = tok_decl 2 4"
| "tok_code TOK_MINUS_ASSIGN = tok_decl 2 5"
| "tok_code TOK_LSHIFT_ASSIGN = tok_decl 2 6"
| "tok_code TOK_RSHIFT_ASSIGN = tok_decl 2 7"
| "tok_code TOK_MUL_ASSIGN = tok_decl 3 0"
| "tok_code TOK_DIV_ASSIGN = tok_decl 3 1"
| "tok_code TOK_REM_ASSIGN = tok_decl 3 2"
| "tok_code TOK_CONDITIONAL = tok_decl 4 0"
| "tok_code TOK_CONDITIONAL_SEP = tok_decl 4 1"
| "tok_code TOK_OR = tok_decl 5 0"
| "tok_code TOK_AND = tok_decl 6 0"
| "tok_code TOK_BOR = tok_decl 7 0"
| "tok_code TOK_BXOR = tok_decl 8 0"
| "tok_code TOK_BAND = tok_decl 9 0"
| "tok_code TOK_EQ = tok_decl 10 0"
| "tok_code TOK_NE = tok_decl 10 1"
| "tok_code TOK_LT = tok_decl 11 0"
| "tok_code TOK_GT = tok_decl 11 1"
| "tok_code TOK_GE = tok_decl 11 2"
| "tok_code TOK_LE = tok_decl 11 3"
| "tok_code TOK_LSHIFT = tok_decl 12 0"
| "tok_code TOK_RSHIFT = tok_decl 12 1"
| "tok_code TOK_ADD = tok_decl 13 0"
| "tok_code TOK_SUB = tok_decl 13 1"
| "tok_code TOK_MUL = tok_decl 14 0"
| "tok_code TOK_DIV = tok_decl 14 1"
| "tok_code TOK_REM = tok_decl 14 2"
| "tok_code TOK_EXPONENT = tok_decl 15 1"
| "tok_code TOK_BNOT = tok_decl UNARYPREC 0"
| "tok_code TOK_NOT = tok_decl UNARYPREC 1"
| "tok_code TOK_UMINUS = tok_decl (UNARYPREC + 1) 0"
| "tok_code TOK_UPLUS = tok_decl (UNARYPREC + 1) 1"
| "tok_code TOK_PRE_INC = tok_decl PREC_PRE 0"
| "tok_code TOK_PRE_DEC = tok_decl PREC_PRE 1"
| "tok_code TOK_POST_INC = tok_decl PREC_POST 0"
| "tok_code TOK_POST_DEC = tok_decl PREC_POST 1"
| "tok_code TOK_NUM = tok_decl SPEC_PREC 0"
| "tok_code TOK_RPAREN = tok_decl SPEC_PREC 1"

definition PREC :: "operator \<Rightarrow> nat" where
  "PREC op = unat (tok_code op AND 0x1F)"

definition fix_assignment_prec :: "nat \<Rightarrow> nat" where
  "fix_assignment_prec prec = (if prec = 3 then 2 else prec)"

definition is_assign_op :: "operator \<Rightarrow> bool" where
  "is_assign_op op =
     (let prec = fix_assignment_prec (PREC op)
      in prec = PREC TOK_ASSIGN \<or> prec = PREC_PRE \<or> prec = PREC_POST)"

definition is_right_associative :: "nat \<Rightarrow> bool" where
  "is_right_associative prec \<longleftrightarrow>
     prec = PREC TOK_ASSIGN \<or> prec = PREC TOK_EXPONENT \<or> prec = PREC TOK_CONDITIONAL"

definition op_tokens :: "(string \<times> operator) list" where
  "op_tokens =
    [(''<<='', TOK_LSHIFT_ASSIGN), (''>>='', TOK_RSHIFT_ASSIGN),
     (''<<'', TOK_LSHIFT), (''>>'', TOK_RSHIFT), (''||'', TOK_OR), (''&&'', TOK_AND),
     (''!='', TOK_NE), (''<='', TOK_LE), (''>='', TOK_GE), (''=='', TOK_EQ),
     (''|='', TOK_OR_ASSIGN), (''&='', TOK_AND_ASSIGN), (''*='', TOK_MUL_ASSIGN),
     (''/='', TOK_DIV_ASSIGN), (''%='', TOK_REM_ASSIGN), (''+='', TOK_PLUS_ASSIGN),
     (''-='', TOK_MINUS_ASSIGN), (''--'', TOK_POST_DEC), (''^='', TOK_XOR_ASSIGN),
     (''++'', TOK_POST_INC), (''**'', TOK_EXPONENT),
     (''!'', TOK_NOT), (''<'', TOK_LT), (''>'', TOK_GT), (''='', TOK_ASSIGN),
     (''|'', TOK_BOR), (''&'', TOK_BAND), (''*'', TOK_MUL), (''/'', TOK_DIV),
     (''%'', TOK_REM), (''+'', TOK_ADD), (''-'', TOK_SUB), (''^'', TOK_BXOR),
     (''~'', TOK_BNOT), ('','', TOK_COMMA), (''?'', TOK_CONDITIONAL),
     ('':'', TOK_CONDITIONAL_SEP), ('')'', TOK_RPAREN), (''('', TOK_LPAREN)]"

text \<open>The search of the table: the first entry whose text the input starts with.\<close>

fun match_text :: "string \<Rightarrow> string \<Rightarrow> string option" where
  "match_text [] e = Some e"
| "match_text (p # ps) [] = None"
| "match_text (p # ps) (e # es) = (if p \<noteq> e then None else match_text ps es)"

fun match_op :: "(string \<times> operator) list \<Rightarrow> string \<Rightarrow> (operator \<times> string) option" where
  "match_op [] e = None"
| "match_op ((t, op) # tbl) e =
     (case match_text t e of Some rest \<Rightarrow> Some (op, rest) | None \<Rightarrow> match_op tbl e)"

section \<open>Characters, names and numbers\<close>

abbreviation code :: "char \<Rightarrow> nat" where "code \<equiv> of_char"

definition is_space :: "char \<Rightarrow> bool" where
  "is_space c \<longleftrightarrow> c = CHR '' '' \<or> (9 \<le> code c \<and> code c \<le> 13)"

definition skip_whitespace :: "string \<Rightarrow> string" where
  "skip_whitespace s = dropWhile is_space s"

definition isdigit :: "char \<Rightarrow> bool" where
  "isdigit c \<longleftrightarrow> 48 \<le> code c \<and> code c \<le> 57"

definition isalpha :: "char \<Rightarrow> bool" where
  "isalpha c \<longleftrightarrow> (65 \<le> code c \<and> code c \<le> 90) \<or> (97 \<le> code c \<and> code c \<le> 122)"

definition is_name :: "char \<Rightarrow> bool" where
  "is_name c \<longleftrightarrow> c = CHR ''_'' \<or> isalpha c"

definition is_in_name :: "char \<Rightarrow> bool" where
  "is_in_name c \<longleftrightarrow> c = CHR ''_'' \<or> isalpha c \<or> isdigit c"

text \<open>\<^verbatim>\<open>endofname\<close> as the name and what follows it; no name is the empty one.\<close>

definition endofname :: "string \<Rightarrow> string \<times> string" where
  "endofname s =
     (case s of [] \<Rightarrow> ([], [])
      | c # cs \<Rightarrow> if \<not> is_name c then ([], s)
                 else (c # takeWhile is_in_name cs, dropWhile is_in_name cs))"

text \<open>
  \<^verbatim>\<open>strtoull(nptr, endptr, 0)\<close> on a text that starts with a digit: the base is told by the
  prefix, and a value of more than 64 bits is \<^verbatim>\<open>ULLONG_MAX\<close> with \<^verbatim>\<open>errno\<close> set.
\<close>

definition digit_value :: "char \<Rightarrow> nat" where
  "digit_value c =
     (if isdigit c then code c - 48
      else if 97 \<le> code c \<and> code c \<le> 122 then code c - 87
      else if 65 \<le> code c \<and> code c \<le> 90 then code c - 55
      else 36)"

definition digits_value :: "nat \<Rightarrow> string \<Rightarrow> nat" where
  "digits_value base ds = foldl (\<lambda>n c. n * base + digit_value c) 0 ds"

definition strtoull_base :: "string \<Rightarrow> nat \<times> string" where
  "strtoull_base s =
     (case s of c0 # c1 # c2 # cs \<Rightarrow>
        if c0 = CHR ''0'' \<and> (c1 = CHR ''x'' \<or> c1 = CHR ''X'') \<and> digit_value c2 < 16
        then (16, c2 # cs) else if c0 = CHR ''0'' then (8, s) else (10, s)
      | c0 # cs \<Rightarrow> if c0 = CHR ''0'' then (8, s) else (10, s)
      | [] \<Rightarrow> (10, s))"

definition strtoull :: "string \<Rightarrow> arith_t \<times> string \<times> bool" where
  "strtoull s =
     (let (base, t) = strtoull_base s;
          n = digits_value base (takeWhile (\<lambda>c. digit_value c < base) t);
          rest = dropWhile (\<lambda>c. digit_value c < base) t
      in if n < 2 ^ 64 then (of_nat n, rest, False) else (- 1, rest, True))"

text \<open>The digit of \<^verbatim>\<open>base#digits\<close>, in 32 unsigned bits; \<open>None\<close> is the \<^verbatim>\<open>break\<close> on one of \<^verbatim>\<open>[\]^\<close>.\<close>

definition base_digit :: "u32 \<Rightarrow> char \<Rightarrow> u32 option" where
  "base_digit base ch =
     (let digit = of_nat (code ch) - 48 :: u32
      in if digit \<ge> 10 \<and> digit \<le> 122 - 48 then
           (let digit = (of_nat (code ch) OR 0x20) - (97 - 10)
            in if base > 36 \<and> code ch \<le> 95 then
                 (if ch = CHR ''_'' then Some 63
                  else if ch = CHR ''@'' then Some 62
                  else if digit < 36 then Some (digit + (36 - 10))
                  else None)
               else Some digit)
         else Some digit)"

fun base_loop :: "u32 \<Rightarrow> arith_t \<Rightarrow> string \<Rightarrow> arith_t \<times> string" where
  "base_loop base n [] = (n, [])"
| "base_loop base n (c # cs) =
     (case base_digit base c of
        None \<Rightarrow> (n, c # cs)
      | Some digit \<Rightarrow>
          if digit \<ge> base then (n, c # cs)
          else base_loop base (n * ucast base + ucast digit) cs)"

definition strto_arith_t :: "string \<Rightarrow> arith_t \<times> string \<times> bool" where
  "strto_arith_t nptr =
     (let (n, endptr, errno) = strtoull nptr
      in if \<not> (endptr \<noteq> [] \<and> hd endptr = CHR ''#'')
            \<or> \<not> (nptr \<noteq> [] \<and> 49 \<le> code (hd nptr) \<and> code (hd nptr) \<le> 57)
            \<or> sint n < 2 \<or> sint n > 64
         then (n, endptr, errno)
         else (let (n, rest) = base_loop (ucast n) 0 (tl endptr) in (n, rest, errno)))"

text \<open>The decimal text that \<^verbatim>\<open>sprintf(buf, "%lld", rez)\<close> stores.\<close>

fun show_nat :: "nat \<Rightarrow> string" where
  "show_nat n = (if n < 10 then [] else show_nat (n div 10)) @ [char_of (48 + n mod 10)]"

declare show_nat.simps [simp del]

definition fmt_lld :: "arith_t \<Rightarrow> string" where
  "fmt_lld w = (if sint w < 0 then CHR ''-'' # show_nat (nat (- sint w)) else show_nat (nat (sint w)))"

section \<open>Results\<close>

datatype fault =
    Numstack_overflow | Numstack_underflow | Stack_overflow | Shift_range | Division_trap

datatype 'a result = Value 'a | Error string | Longjmp | Undefined fault | No_fuel

text \<open>Sequencing of computations that also pass the caller's environment on.\<close>

fun and_then :: "'a result \<times> 'e \<Rightarrow> ('a \<Rightarrow> 'e \<Rightarrow> 'b result \<times> 'e) \<Rightarrow> 'b result \<times> 'e" where
  "and_then (Value a, env) f = f a env"
| "and_then (Error msg, env) f = (Error msg, env)"
| "and_then (Longjmp, env) f = (Longjmp, env)"
| "and_then (Undefined x, env) f = (Undefined x, env)"
| "and_then (No_fuel, env) f = (No_fuel, env)"

record 'e arith_state =
  lookupvar :: "string \<Rightarrow> 'e \<Rightarrow> string option \<times> 'e"
  setvar :: "string \<Rightarrow> string \<Rightarrow> 'e \<Rightarrow> 'e option"

record var_or_num =
  num_val :: arith_t
  second_val :: arith_t
  second_val_present :: bool
  num_var :: "string option"

type_synonym 'e evaluator = "string list \<Rightarrow> string \<Rightarrow> 'e \<Rightarrow> arith_t result \<times> 'e"

section \<open>Applying an operator\<close>

text \<open>
  The names being evaluated, \<^verbatim>\<open>list_of_recursed_names\<close>, live in the frames of the recursion: they
  are an argument, longer by one name in the nested evaluation.
\<close>

definition arith_lookup_val ::
  "'e arith_state \<Rightarrow> 'e evaluator \<Rightarrow> string list \<Rightarrow> var_or_num \<Rightarrow> 'e \<Rightarrow> var_or_num result \<times> 'e" where
  "arith_lookup_val m evaluate names t env =
     (case num_var t of
        None \<Rightarrow> (Value t, env)
      | Some v \<Rightarrow>
          (case lookupvar m v env of
             (None, env) \<Rightarrow> (Value (t\<lparr>num_val := 0\<rparr>), env)
           | (Some p, env) \<Rightarrow>
               if v \<in> set names then (Error ''expression recursion loop detected'', env)
               else and_then (evaluate (v # names) p env)
                      (\<lambda>n env. (Value (t\<lparr>num_val := n\<rparr>), env))))"

definition shift_count :: "arith_t \<Rightarrow> nat option" where
  "shift_count n = (if 0 \<le> sint n \<and> sint n < 64 then Some (unat n) else None)"

text \<open>\<^verbatim>\<open>c = 1; while (--right_side_val >= 0) c *= rez\<close>, by the number of turns.\<close>

fun exponent_loop :: "nat \<Rightarrow> arith_t \<Rightarrow> arith_t \<Rightarrow> arith_t" where
  "exponent_loop 0 rez c = c"
| "exponent_loop (Suc n) rez c = exponent_loop n rez (c * rez)"

text \<open>
  C's \<^verbatim>\<open>/\<close> and \<^verbatim>\<open>%\<close> on \<^verbatim>\<open>long long\<close>: truncation, and no value for a zero divisor or a quotient
  of \<open>2\<^sup>6\<^sup>3\<close>.
\<close>

definition c_traps :: "arith_t \<Rightarrow> arith_t \<Rightarrow> bool" where
  "c_traps a b \<longleftrightarrow> sint b = 0 \<or> (sint a = - (2 ^ 63) \<and> sint b = - 1)"

definition c_div :: "arith_t \<Rightarrow> arith_t \<Rightarrow> arith_t result" where
  "c_div a b = (if c_traps a b then Undefined Division_trap else Value (word_of_int (sint a sdiv sint b)))"

definition c_rem :: "arith_t \<Rightarrow> arith_t \<Rightarrow> arith_t result" where
  "c_rem a b = (if c_traps a b then Undefined Division_trap else Value (word_of_int (sint a smod sint b)))"

definition bool_val :: "bool \<Rightarrow> arith_t" where
  "bool_val b = (if b then 1 else 0)"

text \<open>The chain of \<^verbatim>\<open>else if\<close> for the binary operators other than \<open>?\<close> and \<open>:\<close>.\<close>

definition binary_op :: "operator \<Rightarrow> arith_t \<Rightarrow> arith_t \<Rightarrow> arith_t result" where
  "binary_op op rez right =
     (if op = TOK_BOR \<or> op = TOK_OR_ASSIGN then Value (rez OR right)
      else if op = TOK_OR then Value (bool_val (right \<noteq> 0 \<or> rez \<noteq> 0))
      else if op = TOK_BAND \<or> op = TOK_AND_ASSIGN then Value (rez AND right)
      else if op = TOK_BXOR \<or> op = TOK_XOR_ASSIGN then Value (rez XOR right)
      else if op = TOK_AND then Value (bool_val (rez \<noteq> 0 \<and> right \<noteq> 0))
      else if op = TOK_EQ then Value (bool_val (rez = right))
      else if op = TOK_NE then Value (bool_val (rez \<noteq> right))
      else if op = TOK_GE then Value (bool_val (sint rez \<ge> sint right))
      else if op = TOK_RSHIFT \<or> op = TOK_RSHIFT_ASSIGN then
        (case shift_count right of Some n \<Rightarrow> Value (word_of_int (drop_bit n (sint rez))) | None \<Rightarrow> Undefined Shift_range)
      else if op = TOK_LSHIFT \<or> op = TOK_LSHIFT_ASSIGN then
        (case shift_count right of Some n \<Rightarrow> Value (push_bit n rez) | None \<Rightarrow> Undefined Shift_range)
      else if op = TOK_GT then Value (bool_val (sint rez > sint right))
      else if op = TOK_LT then Value (bool_val (sint rez < sint right))
      else if op = TOK_LE then Value (bool_val (sint rez \<le> sint right))
      else if op = TOK_MUL \<or> op = TOK_MUL_ASSIGN then Value (rez * right)
      else if op = TOK_ADD \<or> op = TOK_PLUS_ASSIGN then Value (rez + right)
      else if op = TOK_SUB \<or> op = TOK_MINUS_ASSIGN then Value (rez - right)
      else if op = TOK_ASSIGN \<or> op = TOK_COMMA then Value right
      else if op = TOK_EXPONENT then
        (if sint right < 0 then Error ''exponent less than 0''
         else Value (exponent_loop (unat right) rez 1))
      else if right = 0 then Error ''divide by zero''
      else if op = TOK_DIV \<or> op = TOK_DIV_ASSIGN \<or> op = TOK_REM \<or> op = TOK_REM_ASSIGN then
        (let right = (if right = - 1 \<and> push_bit 1 rez = 0 then 1 else right)
         in if op = TOK_DIV \<or> op = TOK_DIV_ASSIGN then c_div rez right else c_rem rez right)
      else Value rez)"

definition unary_op :: "operator \<Rightarrow> arith_t \<Rightarrow> arith_t option" where
  "unary_op op rez =
     (if op = TOK_UMINUS then Some (- rez)
      else if op = TOK_NOT then Some (bool_val (rez = 0))
      else if op = TOK_BNOT then Some (NOT rez)
      else if op = TOK_POST_INC \<or> op = TOK_PRE_INC then Some (rez + 1)
      else if op = TOK_POST_DEC \<or> op = TOK_PRE_DEC then Some (rez - 1)
      else if op = TOK_UPLUS then Some rez
      else None)"

definition syntax_error :: string where
  "syntax_error = ''arithmetic syntax error''"

definition malformed :: string where
  "malformed = ''malformed ?: operator''"

text \<open>The end of \<open>arith_apply\<close>: the assignment, if any, and the result in the top entry \<open>t\<close>.\<close>

definition store_result ::
  "'e arith_state \<Rightarrow> operator \<Rightarrow> var_or_num \<Rightarrow> arith_t \<Rightarrow> var_or_num list \<Rightarrow> 'e \<Rightarrow> var_or_num list result \<times> 'e" where
  "store_result m op t rez below env =
     (if is_assign_op op then
        (case num_var t of
           None \<Rightarrow> (Error syntax_error, env)
         | Some v \<Rightarrow>
             (case setvar m v (fmt_lld rez) env of
                None \<Rightarrow> (Longjmp, env)
              | Some env \<Rightarrow>
                  (let rez = (if op = TOK_POST_INC then rez - 1
                              else if op = TOK_POST_DEC then rez + 1 else rez)
                   in (Value (t\<lparr>num_val := rez, num_var := None\<rparr> # below), env))))
      else (Value (t\<lparr>num_val := rez, num_var := None\<rparr> # below), env))"

definition apply_binary ::
  "'e arith_state \<Rightarrow> 'e evaluator \<Rightarrow> string list \<Rightarrow> operator \<Rightarrow> var_or_num \<Rightarrow> var_or_num list \<Rightarrow>
   'e \<Rightarrow> var_or_num list result \<times> 'e" where
  "apply_binary m evaluate names op t below env =
     (case below of
        [] \<Rightarrow> (Error syntax_error, env)
      | left # below \<Rightarrow>
          if second_val_present t \<noteq> (op = TOK_CONDITIONAL) then (Error malformed, env)
          else and_then (if op \<noteq> TOK_ASSIGN then arith_lookup_val m evaluate names left env else (Value left, env))
            (\<lambda>left env.
               if op = TOK_CONDITIONAL then
                 store_result m op left (if num_val left \<noteq> 0 then num_val t else second_val t) below env
               else if op = TOK_CONDITIONAL_SEP then
                 (if below = [] then (Error malformed, env)
                  else store_result m op (left\<lparr>second_val_present := True, second_val := num_val t\<rparr>)
                         (num_val left) below env)
               else and_then (binary_op op (num_val left) (num_val t), env)
                      (\<lambda>rez env. store_result m op left rez below env)))"

definition arith_apply ::
  "'e arith_state \<Rightarrow> 'e evaluator \<Rightarrow> string list \<Rightarrow> operator \<Rightarrow> var_or_num list \<Rightarrow> 'e \<Rightarrow>
   var_or_num list result \<times> 'e" where
  "arith_apply m evaluate names op numstack env =
     (case numstack of
        [] \<Rightarrow> (Error syntax_error, env)
      | t # below \<Rightarrow>
          and_then (arith_lookup_val m evaluate names t env)
            (\<lambda>t env.
               case unary_op op (num_val t) of
                 Some rez \<Rightarrow> store_result m op t rez below env
               | None \<Rightarrow> apply_binary m evaluate names op t below env))"

section \<open>The evaluation loop\<close>

text \<open>
  \<open>apply_stack\<close> is the inner \<^verbatim>\<open>while (stackptr != stack)\<close>; its Boolean says that a right paren has
  met its left one.
\<close>

fun apply_stack ::
  "'e arith_state \<Rightarrow> 'e evaluator \<Rightarrow> string list \<Rightarrow> operator \<Rightarrow> operator list \<Rightarrow> var_or_num list \<Rightarrow> 'e \<Rightarrow>
   (bool \<times> operator list \<times> var_or_num list) result \<times> 'e" where
  "apply_stack m evaluate names op [] numstack env = (Value (False, [], numstack), env)"
| "apply_stack m evaluate names op (prev_op # stack) numstack env =
     (let prec = fix_assignment_prec (PREC op); prev_prec = fix_assignment_prec (PREC prev_op)
      in if op = TOK_RPAREN \<and> prev_op = TOK_LPAREN then (Value (True, stack, numstack), env)
         else if op \<noteq> TOK_RPAREN \<and>
                 (prev_prec < prec \<or> (prev_prec = prec \<and> is_right_associative prec))
         then (Value (False, prev_op # stack, numstack), env)
         else and_then (arith_apply m evaluate names prev_op numstack env)
                (\<lambda>numstack env. apply_stack m evaluate names op stack numstack env))"

text \<open>
  The variables of the loop. \<open>at_rparen\<close> says that \<^verbatim>\<open>expr\<close> points at \<^verbatim>\<open>ptr_to_rparen\<close>, into the
  text of the closing paren that the code appends.
\<close>

record 'e eval =
  expr :: string
  at_rparen :: bool
  lasttok :: operator
  stack :: "operator list"
  numstack :: "var_or_num list"
  callers :: 'e

datatype 'e turn = Continue "'e eval" | Return "arith_t result \<times> 'e"

definition push_num :: "nat \<Rightarrow> var_or_num \<Rightarrow> string \<Rightarrow> 'e eval \<Rightarrow> 'e turn" where
  "push_num expr_len n rest s =
     (if expr_len div 2 \<le> length (numstack s) then Return (Undefined Numstack_overflow, callers s)
      else Continue (s\<lparr>expr := rest, numstack := n # numstack s, lasttok := TOK_NUM\<rparr>))"

definition push_op :: "nat \<Rightarrow> operator \<Rightarrow> 'e eval \<Rightarrow> 'e turn" where
  "push_op expr_len op s =
     (if expr_len \<le> length (stack s) then Return (Undefined Stack_overflow, callers s)
      else Continue (s\<lparr>stack := op # stack s, lasttok := op\<rparr>))"

text \<open>The special case of \<^verbatim>\<open>NUM++\<close> and \<^verbatim>\<open>NUM--\<close>, then the table.\<close>

definition find_operator :: "'e eval \<Rightarrow> string \<Rightarrow> (operator \<times> string) result" where
  "find_operator s e =
     (if lasttok s = TOK_NUM \<and> numstack s = [] then Undefined Numstack_underflow
      else if lasttok s = TOK_NUM \<and> num_var (hd (numstack s)) = None \<and>
              (hd e = CHR ''+'' \<or> hd e = CHR ''-'') \<and> tl e \<noteq> [] \<and> hd (tl e) = hd e
      then Value (if hd e = CHR ''+'' then TOK_ADD else TOK_SUB, tl e)
      else (case match_op op_tokens e of None \<Rightarrow> Error syntax_error | Some r \<Rightarrow> Value r))"

fun prefix_op :: "operator \<Rightarrow> operator" where
  "prefix_op TOK_ADD = TOK_UPLUS"
| "prefix_op TOK_SUB = TOK_UMINUS"
| "prefix_op TOK_POST_INC = TOK_PRE_INC"
| "prefix_op TOK_POST_DEC = TOK_PRE_DEC"
| "prefix_op op = op"

text \<open>
  From \<^verbatim>\<open>tok_found1\<close> to the end of the loop's body: \<open>operator_found\<close> settles what the last token
  was and whether the operator is a prefix, \<open>operator_push\<close> applies what binds tighter and pushes.
\<close>

definition operator_push ::
  "'e arith_state \<Rightarrow> 'e evaluator \<Rightarrow> string list \<Rightarrow> nat \<Rightarrow> operator \<Rightarrow> operator \<Rightarrow> 'e eval \<Rightarrow> 'e turn" where
  "operator_push m evaluate names expr_len prev op s =
     (let prec = PREC op
      in if (prec > 0 \<and> prec < UNARYPREC) \<or> prec = SPEC_PREC then
           (if prev \<noteq> TOK_NUM then Return (Error syntax_error, callers s)
            else (case apply_stack m evaluate names op (stack s) (numstack s) (callers s) of
                (Value (matched, ops, nums), env) \<Rightarrow>
                  (let s = s\<lparr>stack := ops, numstack := nums, callers := env, lasttok := TOK_NUM\<rparr>
                   in if matched then Continue s
                      else if op = TOK_RPAREN then Return (Error syntax_error, env)
                      else push_op expr_len op s)
              | (Error msg, env) \<Rightarrow> Return (Error msg, env)
              | (Longjmp, env) \<Rightarrow> Return (Longjmp, env)
              | (Undefined x, env) \<Rightarrow> Return (Undefined x, env)
              | (No_fuel, env) \<Rightarrow> Return (No_fuel, env)))
         else push_op expr_len op s)"

definition operator_found ::
  "'e arith_state \<Rightarrow> 'e evaluator \<Rightarrow> string list \<Rightarrow> nat \<Rightarrow> operator \<Rightarrow> 'e eval \<Rightarrow> 'e turn" where
  "operator_found m evaluate names expr_len op s =
     (let prev = (if lasttok s = TOK_POST_INC \<or> lasttok s = TOK_POST_DEC then TOK_NUM else lasttok s);
          op = (if prev \<noteq> TOK_NUM then prefix_op op else op)
      in operator_push m evaluate names expr_len prev op s)"

text \<open>
  One turn of \<^verbatim>\<open>while (1)\<close>. \<open>start\<close> is \<^verbatim>\<open>start_expr\<close>; \<open>junk\<close> is what the allocated memory holds:
  a name is pushed without a value.
\<close>

definition eval_turn ::
  "'e arith_state \<Rightarrow> 'e evaluator \<Rightarrow> arith_t \<Rightarrow> string list \<Rightarrow> string \<Rightarrow> 'e eval \<Rightarrow> 'e turn" where
  "eval_turn m evaluate junk names start s =
     (let expr_len = length start + 2; e = skip_whitespace (expr s)
      in if e = [] then
           (if \<not> at_rparen s \<and> start = [] then Return (Value 0, callers s)
            else if \<not> at_rparen s then Continue (s\<lparr>expr := '')'', at_rparen := True\<rparr>)
            else (case numstack s of
                [t] \<Rightarrow> Return (and_then (arith_lookup_val m evaluate names t (callers s)) (\<lambda>t env. (Value (num_val t), env)))
              | _ \<Rightarrow> Return (Error syntax_error, callers s)))
         else
           (let (name, p) = endofname e
            in if name \<noteq> [] then
                 push_num expr_len \<lparr>num_val = junk, second_val = junk, second_val_present = False, num_var = Some name\<rparr> p s
               else if isdigit (hd e) then
                 (let (n, rest, errno) = strto_arith_t e
                  in push_num expr_len \<lparr>num_val = (if errno then 0 else n), second_val = junk,
                       second_val_present = False, num_var = None\<rparr> rest s)
               else (case find_operator s e of
                   Value (op, rest) \<Rightarrow> operator_found m evaluate names expr_len op (s\<lparr>expr := rest\<rparr>)
                 | Error msg \<Rightarrow> Return (Error msg, callers s)
                 | Longjmp \<Rightarrow> Return (Longjmp, callers s)
                 | Undefined x \<Rightarrow> Return (Undefined x, callers s)
                 | No_fuel \<Rightarrow> Return (No_fuel, callers s))))"

text \<open>Every turn that continues consumes input, or turns to the appended paren once.\<close>

lemma match_text_length: "match_text t e = Some r \<Longrightarrow> length r + length t = length e"
  by (induction t e rule: match_text.induct) (auto split: if_splits)

lemma match_op_length:
  "match_op tbl e = Some (op, r) \<Longrightarrow> \<forall>(t, _) \<in> set tbl. t \<noteq> [] \<Longrightarrow> length r < length e"
proof (induction tbl e rule: match_op.induct)
  case (2 t op' tbl e)
  show ?case
  proof (cases "match_text t e")
    case None
    with 2 show ?thesis by simp
  next
    case (Some r')
    with 2 match_text_length [OF Some] show ?thesis by (cases t) auto
  qed
qed simp

lemma op_tokens_nonempty: "\<forall>(t, _) \<in> set op_tokens. t \<noteq> []"
  by (simp add: op_tokens_def)

lemma length_skip_whitespace: "length (skip_whitespace s) \<le> length s"
  by (simp add: skip_whitespace_def length_dropWhile_le)

lemma endofname_length: "endofname e = (name, p) \<Longrightarrow> name \<noteq> [] \<Longrightarrow> length p < length e"
  by (auto simp: endofname_def length_dropWhile_le less_Suc_eq_le split: list.splits if_splits)

lemma base_loop_length: "length (snd (base_loop b n s)) \<le> length s"
  by (induction b n s rule: base_loop.induct) (auto split: option.splits)

lemma isdigit_value: "isdigit c \<Longrightarrow> digit_value c = code c - 48 \<and> digit_value c < 10"
  by (auto simp: digit_value_def isdigit_def)

lemma strtoull_base_cases:
  "strtoull_base (c # s) = (b, t) \<Longrightarrow> isdigit c \<Longrightarrow>
   length t < Suc (length s) \<or> (t = c # s \<and> digit_value c < b)"
proof -
  assume b: "strtoull_base (c # s) = (b, t)" and c: "isdigit c"
  have "digit_value (CHR ''0'') = 0" by (simp add: digit_value_def isdigit_def)
  moreover have "digit_value c < 10" using isdigit_value [OF c] by simp
  ultimately show ?thesis using b
    by (simp add: strtoull_base_def split: list.splits if_splits) auto
qed

lemma strtoull_base_rest:
  assumes "strtoull_base (c # s) = (b, t)" and "isdigit c"
  shows "length (dropWhile (\<lambda>c. digit_value c < b) t) < Suc (length s)"
  using strtoull_base_cases [OF assms] length_dropWhile_le [of "\<lambda>c. digit_value c < b" t]
    length_dropWhile_le [of "\<lambda>c. digit_value c < b" s] by auto

lemma strtoull_length: "strtoull (c # s) = (n, rest, errno) \<Longrightarrow> isdigit c \<Longrightarrow> length rest < Suc (length s)"
  using strtoull_base_rest [of c s] by (auto simp: strtoull_def Let_def split: prod.splits if_splits)

lemma strto_arith_t_length:
  assumes "strto_arith_t (c # s) = (n, rest, errno)" and "isdigit c"
  shows "length rest < Suc (length s)"
proof -
  obtain n0 r0 e0 where u: "strtoull (c # s) = (n0, r0, e0)" by (metis prod_cases3)
  then have "length r0 < Suc (length s)" using strtoull_length assms(2) by blast
  then show ?thesis
    using assms(1) base_loop_length [of "ucast n0" 0 "tl r0"]
    by (auto simp: strto_arith_t_def u Let_def split: prod.splits if_splits)
qed

lemma find_operator_length: "find_operator s e = Value (op, rest) \<Longrightarrow> e \<noteq> [] \<Longrightarrow> length rest < length e"
  using match_op_length [OF _ op_tokens_nonempty, of e op rest]
  by (auto simp: find_operator_def split: if_splits option.splits)

lemma operator_found_frame:
  "operator_found m evaluate names n op s = Continue s' \<Longrightarrow> expr s' = expr s \<and> at_rparen s' = at_rparen s"
  by (auto simp: operator_found_def operator_push_def push_op_def Let_def split: if_splits prod.splits result.splits)

lemma eval_turn_consumes:
  assumes "eval_turn m evaluate junk names start s = Continue s'"
  shows "(\<not> at_rparen s \<and> at_rparen s') \<or> (at_rparen s' = at_rparen s \<and> length (expr s') < length (expr s))"
proof -
  define e where "e = skip_whitespace (expr s)"
  have le: "length e \<le> length (expr s)" unfolding e_def by (rule length_skip_whitespace)
  consider "e = []" | "e \<noteq> []" "fst (endofname e) \<noteq> []" | "e \<noteq> []" "fst (endofname e) = []" "isdigit (hd e)"
    | "e \<noteq> []" "fst (endofname e) = []" "\<not> isdigit (hd e)" by blast
  then show ?thesis
  proof cases
    case 1
    then show ?thesis using assms
      by (auto simp: eval_turn_def e_def [symmetric] Let_def split: if_splits list.splits)
  next
    case 2
    then show ?thesis using assms le endofname_length [of e]
      by (auto simp: eval_turn_def e_def [symmetric] Let_def push_num_def split: prod.splits if_splits)
  next
    case 3
    then obtain c cs where e: "e = c # cs" and c: "isdigit c" by (cases e) auto
    show ?thesis using 3 assms le strto_arith_t_length [OF _ c, of cs]
      by (auto simp: eval_turn_def e_def [symmetric] e c Let_def push_num_def split: prod.splits if_splits)
  next
    case 4
    then obtain op rest n where f: "find_operator s e = Value (op, rest)"
      and s': "operator_found m evaluate names n op (s\<lparr>expr := rest\<rparr>) = Continue s'"
      using assms by (auto simp: eval_turn_def e_def [symmetric] Let_def split: prod.splits result.splits)
    then show ?thesis
      using le find_operator_length [OF f] operator_found_frame [OF s'] 4 by simp
  qed
qed

function eval_loop ::
  "'e arith_state \<Rightarrow> 'e evaluator \<Rightarrow> arith_t \<Rightarrow> string list \<Rightarrow> string \<Rightarrow> 'e eval \<Rightarrow> arith_t result \<times> 'e" where
  "eval_loop m evaluate junk names start s =
     (case eval_turn m evaluate junk names start s of
        Continue s \<Rightarrow> eval_loop m evaluate junk names start s
      | Return r \<Rightarrow> r)"
  by pat_completeness auto
termination
proof (relation "inv_image (less_than <*lex*> less_than)
    (\<lambda>(m, evaluate, junk, names, start, s). (if at_rparen s then 0 else 1 :: nat, length (expr s)))")
  show "((m, evaluate, junk, names, start, s'), (m, evaluate, junk, names, start, s))
      \<in> inv_image (less_than <*lex*> less_than)
        (\<lambda>(m, evaluate, junk, names, start, s). (if at_rparen s then 0 else 1 :: nat, length (expr s)))"
    if "eval_turn m evaluate junk names start s = Continue s'"
    for m :: "'e arith_state" and evaluate junk names start s s'
    using eval_turn_consumes [OF that] by auto
qed (simp add: wf_inv_image wf_lex_prod)

declare eval_loop.simps [simp del]

definition eval_init :: "string \<Rightarrow> 'e \<Rightarrow> 'e eval" where
  "eval_init start env = \<lparr>expr = start, at_rparen = False, lasttok = TOK_LPAREN,
     stack = [TOK_LPAREN], numstack = [], callers = env\<rparr>"

text \<open>\<open>fuel\<close> bounds the depth of evaluations of variables inside evaluations.\<close>

fun evaluate_string :: "'e arith_state \<Rightarrow> arith_t \<Rightarrow> nat \<Rightarrow> 'e evaluator" where
  "evaluate_string m junk 0 names e env = (No_fuel, env)"
| "evaluate_string m junk (Suc fuel) names e env =
     (let start = skip_whitespace e
      in eval_loop m (evaluate_string m junk fuel) junk names start (eval_init start env))"

definition arith :: "'e arith_state \<Rightarrow> arith_t \<Rightarrow> nat \<Rightarrow> string \<Rightarrow> 'e \<Rightarrow> arith_t result \<times> 'e" where
  "arith m junk fuel e env = evaluate_string m junk fuel [] e env"

section \<open>What can go wrong\<close>

lemma and_then_cases:
  "and_then m f = (case m of (Value a, env) \<Rightarrow> f a env | (Error msg, env) \<Rightarrow> (Error msg, env)
    | (Longjmp, env) \<Rightarrow> (Longjmp, env) | (Undefined x, env) \<Rightarrow> (Undefined x, env) | (No_fuel, env) \<Rightarrow> (No_fuel, env))"
  by (cases m; cases "fst m") auto

lemma and_then_Value:
  "and_then m f = (Value b, env') \<longleftrightarrow> (\<exists>a env. m = (Value a, env) \<and> f a env = (Value b, env'))"
  by (cases m; cases "fst m") auto

lemma and_then_Undefined:
  "and_then m f = (Undefined x, env') \<longleftrightarrow>
     m = (Undefined x, env') \<or> (\<exists>a env. m = (Value a, env) \<and> f a env = (Undefined x, env'))"
  by (cases m; cases "fst m") auto

lemma and_then_No_fuel:
  "and_then m f = (No_fuel, env') \<longleftrightarrow>
     m = (No_fuel, env') \<or> (\<exists>a env. m = (Value a, env) \<and> f a env = (No_fuel, env'))"
  by (cases m; cases "fst m") auto

lemma and_then_assoc: "and_then (and_then m f) g = and_then m (\<lambda>a env. and_then (f a env) g)"
  by (cases m; cases "fst m") auto

lemma and_then_return [simp]: "and_then m (\<lambda>a env. (Value a, env)) = m"
  by (cases m; cases "fst m") auto

text \<open>The guard of the division excludes the one quotient that does not fit, as well as zero.\<close>

lemma division_guard:
  assumes "b \<noteq> 0"
  shows "\<not> c_traps a (if b = - 1 \<and> push_bit 1 a = 0 then 1 else b)"
proof (cases "b = - 1 \<and> push_bit 1 a = 0")
  case True
  then show ?thesis by (simp add: c_traps_def)
next
  case False
  have "a = of_int (- (2 ^ 63)) \<Longrightarrow> push_bit 1 a = 0" by simp
  moreover have "a = of_int (- (2 ^ 63))" if "sint a = - (2 ^ 63)"
    unfolding that [symmetric] by simp
  moreover have "b = of_int (- 1)" if "sint b = - 1"
    unfolding that [symmetric] by simp
  moreover have "sint b = 0 \<Longrightarrow> b = 0" by (simp add: signed_eq_0_iff)
  ultimately have "\<not> c_traps a b"
    using False assms unfolding c_traps_def of_int_minus of_int_1 by blast
  then show ?thesis by (subst if_not_P [OF False])
qed

lemma binary_op_no_trap: "binary_op op a b \<noteq> Undefined Division_trap"
proof (cases "op = TOK_DIV \<or> op = TOK_DIV_ASSIGN \<or> op = TOK_REM \<or> op = TOK_REM_ASSIGN")
  case True
  then show ?thesis
    using division_guard [of b a] by (auto simp: binary_op_def c_div_def c_rem_def Let_def)
next
  case False
  then show ?thesis by (cases op) (simp_all add: binary_op_def split: option.split)
qed

lemma binary_op_Undefined: "binary_op op a b = Undefined x \<Longrightarrow> x = Shift_range"
  using binary_op_no_trap [of op a b]
  by (cases op) (simp_all add: binary_op_def c_div_def c_rem_def Let_def split: option.splits if_splits)

lemma binary_op_fueled: "binary_op op a b \<noteq> No_fuel \<and> binary_op op a b \<noteq> Longjmp"
  by (cases op) (simp_all add: binary_op_def c_div_def c_rem_def Let_def split: option.split)

text \<open>The faults an evaluation can have, and those it never has.\<close>

definition tolerable :: "'a result \<Rightarrow> bool" where
  "tolerable r \<longleftrightarrow> (\<forall>x. r = Undefined x \<longrightarrow> x = Numstack_overflow \<or> x = Shift_range)"

lemma tolerable_simps [simp]:
  "tolerable (Value a)" "tolerable (Error msg)" "tolerable Longjmp" "tolerable No_fuel"
  "tolerable (Undefined x) \<longleftrightarrow> x = Numstack_overflow \<or> x = Shift_range"
  by (auto simp: tolerable_def)

lemma tolerable_and_then:
  "tolerable (fst m) \<Longrightarrow> (\<And>a env. m = (Value a, env) \<Longrightarrow> tolerable (fst (f a env))) \<Longrightarrow>
   tolerable (fst (and_then m f))"
  by (cases m; cases "fst m") auto

lemma store_result_tolerable: "tolerable (fst (store_result m op t rez below env))"
  by (auto simp: store_result_def Let_def split: option.splits)

lemma arith_lookup_val_tolerable:
  "(\<And>names e env. tolerable (fst (evaluate names e env))) \<Longrightarrow>
   tolerable (fst (arith_lookup_val m evaluate names t env))"
  by (auto simp: arith_lookup_val_def intro!: tolerable_and_then split: option.splits prod.splits)

lemma arith_apply_tolerable:
  assumes "\<And>names e env. tolerable (fst (evaluate names e env))"
  shows "tolerable (fst (arith_apply m evaluate names op nums env))"
proof -
  have "tolerable (fst (binary_op op a b, env))" for a b env
    using binary_op_Undefined [of op a b] by (auto simp: tolerable_def)
  then have "tolerable (fst (apply_binary m evaluate names op t below env))" for t below env
    unfolding apply_binary_def
    by (auto simp: store_result_tolerable intro!: tolerable_and_then arith_lookup_val_tolerable [OF assms]
        split: list.splits)
  then show ?thesis
    unfolding arith_apply_def
    by (auto simp: store_result_tolerable intro!: tolerable_and_then arith_lookup_val_tolerable [OF assms]
        split: list.splits option.splits)
qed

lemma apply_stack_tolerable:
  assumes "\<And>names e env. tolerable (fst (evaluate names e env))"
  shows "tolerable (fst (apply_stack m evaluate names op ops nums env))"
proof (induction ops arbitrary: nums env)
  case (Cons prev ops)
  show ?case
    by (simp add: Let_def tolerable_and_then arith_apply_tolerable [OF assms] Cons.IH)
qed simp

lemma store_result_Value:
  "store_result m op t rez below env = (Value nums, env') \<Longrightarrow> length nums = Suc (length below)"
  by (auto simp: store_result_def Let_def split: option.splits if_splits)

lemma arith_apply_Value:
  assumes "arith_apply m evaluate names op nums env = (Value nums', env')"
  shows "nums' \<noteq> [] \<and> length nums' \<le> length nums"
proof -
  obtain t below where n: "nums = t # below" using assms by (auto simp: arith_apply_def split: list.splits)
  have b: "nums' \<noteq> [] \<and> length nums' \<le> length nums"
    if "apply_binary m evaluate names op u below e = (Value nums', env')" for u e
    using that
    by (auto simp: apply_binary_def n and_then_Value dest!: store_result_Value split: list.splits if_splits)
  then show ?thesis using assms
    by (auto simp: arith_apply_def n and_then_Value dest!: store_result_Value split: option.splits)
qed

lemma apply_stack_Value:
  "apply_stack m evaluate names op ops nums env = (Value (matched, ops', nums'), env') \<Longrightarrow> nums \<noteq> [] \<Longrightarrow>
   nums' \<noteq> [] \<and> length ops' \<le> length ops \<and> length nums' \<le> length nums \<and> (op \<noteq> TOK_RPAREN \<longrightarrow> \<not> matched)"
proof (induction ops arbitrary: nums env)
  case (Cons prev ops)
  then show ?case
    by (auto simp: Let_def and_then_Value split: if_splits dest!: arith_apply_Value) fastforce+
qed simp

text \<open>
  What the loop keeps: a number on the stack whenever the last token counts as one, fewer
  operators than the characters read, and nothing but the appended paren once it is read.
\<close>

definition eval_ok :: "string \<Rightarrow> 'e eval \<Rightarrow> bool" where
  "eval_ok start s \<longleftrightarrow>
     (lasttok s \<in> {TOK_NUM, TOK_POST_INC, TOK_POST_DEC} \<longrightarrow> numstack s \<noteq> []) \<and>
     (if at_rparen s then expr s \<in> {[], '')''}
      else length (stack s) + length (expr s) \<le> length start + 1)"



lemma eval_init_ok: "eval_ok start (eval_init start env)"
  by (simp add: eval_ok_def eval_init_def)

lemma prefix_op_rparen: "prefix_op op = TOK_RPAREN \<longleftrightarrow> op = TOK_RPAREN"
  by (cases op) simp_all

lemma PREC_table [simp]:
  "PREC TOK_LPAREN = 0" "PREC TOK_COMMA = 1"
  "PREC TOK_ASSIGN = 2" "PREC TOK_AND_ASSIGN = 2" "PREC TOK_OR_ASSIGN = 2" "PREC TOK_XOR_ASSIGN = 2"
  "PREC TOK_PLUS_ASSIGN = 2" "PREC TOK_MINUS_ASSIGN = 2" "PREC TOK_LSHIFT_ASSIGN = 2" "PREC TOK_RSHIFT_ASSIGN = 2"
  "PREC TOK_MUL_ASSIGN = 3" "PREC TOK_DIV_ASSIGN = 3" "PREC TOK_REM_ASSIGN = 3"
  "PREC TOK_CONDITIONAL = 4" "PREC TOK_CONDITIONAL_SEP = 4" "PREC TOK_OR = 5" "PREC TOK_AND = 6"
  "PREC TOK_BOR = 7" "PREC TOK_BXOR = 8" "PREC TOK_BAND = 9" "PREC TOK_EQ = 10" "PREC TOK_NE = 10"
  "PREC TOK_LT = 11" "PREC TOK_GT = 11" "PREC TOK_GE = 11" "PREC TOK_LE = 11"
  "PREC TOK_LSHIFT = 12" "PREC TOK_RSHIFT = 12" "PREC TOK_ADD = 13" "PREC TOK_SUB = 13"
  "PREC TOK_MUL = 14" "PREC TOK_DIV = 14" "PREC TOK_REM = 14" "PREC TOK_EXPONENT = 15"
  "PREC TOK_BNOT = 16" "PREC TOK_NOT = 16" "PREC TOK_UMINUS = 17" "PREC TOK_UPLUS = 17"
  "PREC TOK_PRE_INC = 18" "PREC TOK_PRE_DEC = 18" "PREC TOK_POST_INC = 19" "PREC TOK_POST_DEC = 19"
  "PREC TOK_NUM = 20" "PREC TOK_RPAREN = 20"
  by (simp_all add: PREC_def tok_decl_def UNARYPREC_def PREC_PRE_def PREC_POST_def SPEC_PREC_def)

lemma PREC_consts [simp]: "UNARYPREC = 16" "PREC_PRE = 18" "PREC_POST = 19" "SPEC_PREC = 20"
  by (simp_all add: UNARYPREC_def PREC_PRE_def PREC_POST_def SPEC_PREC_def)

lemma postfix_prec: "op = TOK_POST_INC \<or> op = TOK_POST_DEC \<Longrightarrow> PREC op = 19"
  by auto

lemma operator_push_tolerable:
  assumes ev: "\<And>names e env. tolerable (fst (evaluate names e env))"
    and nums: "prev = TOK_NUM \<Longrightarrow> numstack s \<noteq> []"
    and post: "op \<in> {TOK_NUM, TOK_POST_INC, TOK_POST_DEC} \<Longrightarrow> prev = TOK_NUM"
    and room: "op = TOK_RPAREN \<or> length (stack s) < n"
  shows "case operator_push m evaluate names n prev op s of Return r \<Rightarrow> tolerable (fst r)
    | Continue s' \<Rightarrow> (lasttok s' \<in> {TOK_NUM, TOK_POST_INC, TOK_POST_DEC} \<longrightarrow> numstack s' \<noteq> []) \<and>
        length (stack s') \<le> Suc (length (stack s))"
proof (cases "(PREC op > 0 \<and> PREC op < 16) \<or> PREC op = 20")
  case False
  then have "op \<noteq> TOK_RPAREN" by auto
  with False nums post room show ?thesis
    by (auto simp: operator_push_def push_op_def)
next
  case True
  show ?thesis
  proof (cases "prev = TOK_NUM")
    case False
    with True show ?thesis by (simp add: operator_push_def)
  next
    case prev: True
    obtain res env where a: "apply_stack m evaluate names op (stack s) (numstack s) (callers s) = (res, env)"
      by fastforce
    have "tolerable (fst (apply_stack m evaluate names op (stack s) (numstack s) (callers s)))"
      by (rule apply_stack_tolerable [OF ev])
    with a have t: "tolerable res" by simp
    show ?thesis
    proof (cases res)
      case (Value v)
      obtain matched ops nums' where v: "v = (matched, ops, nums')" by (metis prod_cases3)
      from apply_stack_Value [OF a [unfolded Value v] nums [OF prev]]
      have "nums' \<noteq> []" "length ops \<le> length (stack s)" "op \<noteq> TOK_RPAREN \<longrightarrow> \<not> matched" by simp_all
      with True prev a Value v room show ?thesis
        by (auto simp: operator_push_def Let_def push_op_def)
    qed (use True prev a t in \<open>auto simp: operator_push_def\<close>)
  qed
qed

lemma prefix_op_post: "prefix_op op \<notin> {TOK_NUM, TOK_POST_INC, TOK_POST_DEC} \<or> op = TOK_NUM"
  by (cases op) simp_all

lemma operator_found_tolerable:
  assumes ev: "\<And>names e env. tolerable (fst (evaluate names e env))"
    and ok: "lasttok s \<in> {TOK_NUM, TOK_POST_INC, TOK_POST_DEC} \<longrightarrow> numstack s \<noteq> []"
    and room: "op = TOK_RPAREN \<or> length (stack s) < n"
    and op: "op \<noteq> TOK_NUM"
  shows "case operator_found m evaluate names n op s of Return r \<Rightarrow> tolerable (fst r)
    | Continue s' \<Rightarrow> (lasttok s' \<in> {TOK_NUM, TOK_POST_INC, TOK_POST_DEC} \<longrightarrow> numstack s' \<noteq> []) \<and>
        length (stack s') \<le> Suc (length (stack s))"
  unfolding operator_found_def Let_def
  by (rule operator_push_tolerable)
    (use ok room op prefix_op_post [of op] prefix_op_rparen [of op] ev in \<open>auto split: if_splits\<close>)



lemma eval_ok_push_num:
  assumes "eval_ok start s" and "\<not> at_rparen s" and "length rest < length (expr s)"
  shows "case push_num n t rest s of Return r \<Rightarrow> tolerable (fst r) | Continue s' \<Rightarrow> eval_ok start s'"
  using assms by (auto simp: push_num_def eval_ok_def)

lemma match_op_table: "match_op tbl e = Some (op, r) \<Longrightarrow> op \<in> snd ` set tbl"
  by (induction tbl e rule: match_op.induct) (auto split: option.splits)

lemma op_tokens_not_num: "TOK_NUM \<notin> snd ` set op_tokens"
  by (simp add: op_tokens_def)

lemma find_operator_not_num: "find_operator s e = Value (op, rest) \<Longrightarrow> op \<noteq> TOK_NUM"
proof
  assume "find_operator s e = Value (op, rest)" and "op = TOK_NUM"
  then have "match_op op_tokens e = Some (TOK_NUM, rest)"
    by (auto simp: find_operator_def split: if_splits option.splits)
  from match_op_table [OF this] op_tokens_not_num show False by simp
qed

lemma skip_rparen [simp]: "skip_whitespace '')'' = '')''" "skip_whitespace [] = []"
  by (simp_all add: skip_whitespace_def is_space_def)

lemma find_operator_rparen:
  "find_operator s '')'' =
     (if lasttok s = TOK_NUM \<and> numstack s = [] then Undefined Numstack_underflow else Value (TOK_RPAREN, []))"
  by (simp add: find_operator_def op_tokens_def)

lemma find_operator_error:
  "find_operator s e = Undefined x \<Longrightarrow> lasttok s = TOK_NUM \<and> numstack s = []"
  "find_operator s e \<noteq> No_fuel"
  by (auto simp: find_operator_def split: if_splits option.splits)

lemma eval_turn_ok:
  assumes ev: "\<And>names e env. tolerable (fst (evaluate names e env))" and ok: "eval_ok start s"
  shows "case eval_turn m evaluate junk names start s of
      Return r \<Rightarrow> tolerable (fst r) | Continue s' \<Rightarrow> eval_ok start s'"
proof -
  define e where "e = skip_whitespace (expr s)"
  have le: "length e \<le> length (expr s)" unfolding e_def by (rule length_skip_whitespace)
  consider (empty) "e = []" | (name) name p where "e \<noteq> []" "endofname e = (name, p)" "name \<noteq> []"
    | (number) c cs p where "e = c # cs" "endofname e = ([], p)" "isdigit c"
    | (operator) p where "e \<noteq> []" "endofname e = ([], p)" "\<not> isdigit (hd e)"
    by (metis list.collapse surj_pair)
  then show ?thesis
  proof cases
    case empty
    show ?thesis
    proof (cases "\<not> at_rparen s")
      case True
      with empty ok show ?thesis
        by (auto simp: eval_turn_def e_def [symmetric] eval_ok_def)
    next
      case False
      have "tolerable (fst (and_then (arith_lookup_val m evaluate names t (callers s)) (\<lambda>t env. (Value (num_val t), env))))" for t
        by (rule tolerable_and_then) (simp_all add: arith_lookup_val_tolerable [OF ev])
      with empty False show ?thesis
        by (simp add: eval_turn_def e_def [symmetric] split: list.split)
    qed
  next
    case name
    then have "\<not> at_rparen s" using ok
      by (auto simp: eval_ok_def e_def endofname_def is_name_def isalpha_def split: if_splits)
    moreover have "length p < length (expr s)" using endofname_length [OF name(2,3)] le by simp
    ultimately show ?thesis
      using name eval_ok_push_num [OF ok] by (simp add: eval_turn_def e_def [symmetric] Let_def)
  next
    case number
    then have "\<not> at_rparen s" using ok
      by (auto simp: eval_ok_def e_def isdigit_def split: if_splits)
    moreover obtain n rest errno where a: "strto_arith_t (c # cs) = (n, rest, errno)" by (metis prod_cases3)
    moreover have "length rest < length (expr s)"
      using strto_arith_t_length [OF a number(3)] le number(1) by simp
    ultimately show ?thesis
      using number eval_ok_push_num [OF ok] by (simp add: eval_turn_def e_def [symmetric] Let_def)
  next
    case operator
    show ?thesis
    proof (cases "find_operator s e")
      case (Value r)
      then obtain op rest where f: "find_operator s e = Value (op, rest)" by (cases r) auto
      have shorter: "length rest < length e" using find_operator_length [OF f operator(1)] .
      have rp: "op = TOK_RPAREN \<and> rest = []" if "at_rparen s"
        using that ok operator(1) f by (auto simp: eval_ok_def e_def find_operator_rparen split: if_splits)
      then have room: "op = TOK_RPAREN \<or> length (stack (s\<lparr>expr := rest\<rparr>)) < length start + 2"
        using ok by (auto simp: eval_ok_def split: if_splits)
      have "case operator_found m evaluate names (length start + 2) op (s\<lparr>expr := rest\<rparr>) of
          Return r \<Rightarrow> tolerable (fst r)
        | Continue s' \<Rightarrow> (lasttok s' \<in> {TOK_NUM, TOK_POST_INC, TOK_POST_DEC} \<longrightarrow> numstack s' \<noteq> []) \<and>
            length (stack s') \<le> Suc (length (stack (s\<lparr>expr := rest\<rparr>)))"
        by (rule operator_found_tolerable [OF ev _ room find_operator_not_num [OF f]])
          (use ok in \<open>auto simp: eval_ok_def\<close>)
      moreover have "eval_turn m evaluate junk names start s =
          operator_found m evaluate names (length start + 2) op (s\<lparr>expr := rest\<rparr>)"
        using operator f by (simp add: eval_turn_def e_def [symmetric])
      ultimately show ?thesis
      proof (cases "operator_found m evaluate names (length start + 2) op (s\<lparr>expr := rest\<rparr>)")
        case (Continue s')
        from operator_found_frame [OF this]
        have f: "expr s' = rest" "at_rparen s' = at_rparen s" by simp_all
        assume "case operator_found m evaluate names (length start + 2) op (s\<lparr>expr := rest\<rparr>) of
            Return r \<Rightarrow> tolerable (fst r)
          | Continue s' \<Rightarrow> (lasttok s' \<in> {TOK_NUM, TOK_POST_INC, TOK_POST_DEC} \<longrightarrow> numstack s' \<noteq> []) \<and>
              length (stack s') \<le> Suc (length (stack (s\<lparr>expr := rest\<rparr>)))"
          and t: "eval_turn m evaluate junk names start s =
            operator_found m evaluate names (length start + 2) op (s\<lparr>expr := rest\<rparr>)"
        with Continue have
          "lasttok s' \<in> {TOK_NUM, TOK_POST_INC, TOK_POST_DEC} \<longrightarrow> numstack s' \<noteq> []"
          "length (stack s') \<le> Suc (length (stack s))" by simp_all
        then have "eval_ok start s'"
          using ok shorter le rp by (cases "at_rparen s") (simp_all add: eval_ok_def f)
        with Continue t show ?thesis by simp
      qed simp
    next
      case (Undefined x)
      with ok find_operator_error(1) [OF Undefined] show ?thesis by (auto simp: eval_ok_def)
    qed (use operator in \<open>simp_all add: eval_turn_def e_def [symmetric]\<close>)
  qed
qed

lemma eval_loop_tolerable:
  "(\<And>names e env. tolerable (fst (evaluate names e env))) \<Longrightarrow> eval_ok start s \<Longrightarrow>
   tolerable (fst (eval_loop m evaluate junk names start s))"
proof (induction m evaluate junk names start s rule: eval_loop.induct [case_names step])
  case (step m evaluate junk names start s)
  have t: "case eval_turn m evaluate junk names start s of
      Return r \<Rightarrow> tolerable (fst r) | Continue s' \<Rightarrow> eval_ok start s'"
    by (rule eval_turn_ok) (use step.prems in simp_all)
  show ?case
  proof (cases "eval_turn m evaluate junk names start s")
    case (Continue s')
    with t step.IH [OF Continue step.prems(1)] show ?thesis
      by (simp add: eval_loop.simps [of m evaluate junk names start s])
  next
    case (Return r)
    with t show ?thesis by (simp add: eval_loop.simps [of m evaluate junk names start s])
  qed
qed

lemma evaluate_string_tolerable: "tolerable (fst (evaluate_string m junk fuel names e env))"
proof (induction fuel arbitrary: names e env)
  case (Suc fuel)
  show ?case
    by (simp add: Let_def eval_loop_tolerable [OF Suc.IH eval_init_ok])
qed simp

end
