(* ===== verification/ShellGrammar.thy ===== *)
theory ShellGrammar
  imports ShellMath
begin

text \<open>
  The grammar that \<^verbatim>\<open>shell/math.c\<close> implements with precedences: expressions as trees, their
  text, and the value of a tree. The main lemma follows the evaluation loop through the tokens
  of a tree: the operators still on the stack after the last token, applied in order, give what
  evaluating the tree in postfix order gives.
\<close>

section \<open>Expressions and their text\<close>

datatype aexpr =
    ANum nat
  | AVar string
  | APrefix operator aexpr
  | APostfix operator string
  | ABin operator aexpr aexpr
  | ACond aexpr aexpr aexpr
  | AParen aexpr

datatype atoken = Number nat | Name string | Op operator

fun prefix_source :: "operator \<Rightarrow> operator" where
  "prefix_source TOK_UPLUS = TOK_ADD"
| "prefix_source TOK_UMINUS = TOK_SUB"
| "prefix_source TOK_PRE_INC = TOK_POST_INC"
| "prefix_source TOK_PRE_DEC = TOK_POST_DEC"
| "prefix_source op = op"

fun toks :: "aexpr \<Rightarrow> atoken list" where
  "toks (ANum n) = [Number n]"
| "toks (AVar x) = [Name x]"
| "toks (APrefix op e) = Op (prefix_source op) # toks e"
| "toks (APostfix op x) = [Name x, Op op]"
| "toks (ABin op l r) = toks l @ Op op # toks r"
| "toks (ACond c a b) = toks c @ Op TOK_CONDITIONAL # toks a @ Op TOK_CONDITIONAL_SEP # toks b"
| "toks (AParen e) = Op TOK_LPAREN # toks e @ [Op TOK_RPAREN]"

definition op_text :: "operator \<Rightarrow> string" where
  "op_text op = (case filter (\<lambda>(t, op'). op' = op) op_tokens of (t, _) # _ \<Rightarrow> t | [] \<Rightarrow> [])"

fun tok_text :: "atoken \<Rightarrow> string" where
  "tok_text (Number n) = show_nat n"
| "tok_text (Name x) = x"
| "tok_text (Op op) = op_text op"

definition print :: "atoken list \<Rightarrow> string" where
  "print ts = concat (map (\<lambda>t. tok_text t @ '' '') ts)"

definition valid_name :: "string \<Rightarrow> bool" where
  "valid_name x \<longleftrightarrow> x \<noteq> [] \<and> is_name (hd x) \<and> list_all is_in_name x"

definition op_level :: "operator \<Rightarrow> nat" where
  "op_level op = fix_assignment_prec (PREC op)"

fun level :: "aexpr \<Rightarrow> nat" where
  "level (APrefix op e) = 16"
| "level (ABin op l r) = op_level op"
| "level (ACond c a b) = 4"
| "level (APostfix op x) = 19"
| "level e = 20"

definition prefix_ops :: "operator set" where
  "prefix_ops = {TOK_BNOT, TOK_NOT, TOK_UMINUS, TOK_UPLUS, TOK_PRE_INC, TOK_PRE_DEC}"

definition postfix_ops :: "operator set" where
  "postfix_ops = {TOK_POST_INC, TOK_POST_DEC}"

definition is_binary :: "operator \<Rightarrow> bool" where
  "is_binary op \<longleftrightarrow> 0 < PREC op \<and> PREC op < 16 \<and> op \<noteq> TOK_CONDITIONAL \<and> op \<noteq> TOK_CONDITIONAL_SEP"

text \<open>The trees whose text needs no further parens, by precedence and associativity.\<close>

fun grammatical :: "aexpr \<Rightarrow> bool" where
  "grammatical (ANum n) \<longleftrightarrow> n < 2 ^ 64"
| "grammatical (AVar x) \<longleftrightarrow> valid_name x"
| "grammatical (APrefix op e) \<longleftrightarrow> op \<in> prefix_ops \<and> grammatical e \<and> 16 \<le> level e"
| "grammatical (APostfix op x) \<longleftrightarrow> op \<in> postfix_ops \<and> valid_name x"
| "grammatical (ABin op l r) \<longleftrightarrow> is_binary op \<and> grammatical l \<and> grammatical r \<and>
     (if is_right_associative (op_level op) then op_level op < level l \<and> op_level op \<le> level r
      else op_level op \<le> level l \<and> op_level op < level r)"
| "grammatical (ACond c a b) \<longleftrightarrow> grammatical c \<and> grammatical a \<and> grammatical b \<and>
     4 < level c \<and> 4 < level a \<and> 4 \<le> level b"
| "grammatical (AParen e) \<longleftrightarrow> grammatical e"

section \<open>Reading the text back\<close>

lemma show_nat_digits: "list_all isdigit (show_nat n) \<and> show_nat n \<noteq> []"
proof (induction n rule: show_nat.induct)
  case (1 n)
  have "isdigit (char_of (48 + n mod 10))"
    by (simp add: isdigit_def of_char_of)
  with 1 show ?case by (subst (1 2) show_nat.simps) auto
qed

lemma digits_value_append: "digits_value b (xs @ [c]) = digits_value b xs * b + digit_value c"
  by (simp add: digits_value_def)

lemma digits_value_show: "digits_value 10 (show_nat n) = n"
proof (induction n rule: show_nat.induct)
  case (1 n)
  have d: "digit_value (char_of (48 + n mod 10)) = n mod 10"
    by (simp add: digit_value_def isdigit_def of_char_of)
  show ?case
  proof (cases "n < 10")
    case True
    with d show ?thesis by (subst show_nat.simps) (simp add: digits_value_def)
  next
    case False
    then show ?thesis using 1 by (subst show_nat.simps) (simp add: digits_value_append d)
  qed
qed

lemma show_nat_first: "0 < n \<Longrightarrow> hd (show_nat n) \<noteq> CHR ''0''"
proof (induction n rule: show_nat.induct)
  case (1 n)
  show ?case
  proof (cases "n < 10")
    case True
    have "char_of (48 + n) \<noteq> CHR ''0''" if "0 < n"
    proof
      assume "char_of (48 + n) = CHR ''0''"
      then have "code (char_of (48 + n)) = code CHR ''0''" by simp
      with True that show False by (simp add: of_char_of)
    qed
    with True 1 show ?thesis by (subst show_nat.simps) simp
  next
    case False
    then have "0 < n div 10" by simp
    with 1 False show_nat_digits [of "n div 10"] show ?thesis
      by (subst show_nat.simps) simp
  qed
qed

lemma takeWhile_stop: "list_all P xs \<Longrightarrow> \<not> P c \<Longrightarrow> takeWhile P (xs @ c # ys) = xs \<and> dropWhile P (xs @ c # ys) = c # ys"
  by (induction xs) auto

lemma digit_value_space: "digit_value (CHR '' '') = 36"
  by (simp add: digit_value_def isdigit_def)

lemma takeWhile_end: "list_all P xs \<Longrightarrow> ys = [] \<or> \<not> P (hd ys) \<Longrightarrow> takeWhile P (xs @ ys) = xs \<and> dropWhile P (xs @ ys) = ys"
  by (cases ys) (auto simp: takeWhile_stop list_all_iff)

lemma strtoull_show:
  assumes "n < 2 ^ 64" and r: "r = [] \<or> hd r = CHR '' ''"
  shows "strtoull (show_nat n @ r) = (of_nat n, r, False)"
proof (cases "n = 0")
  case True
  have "show_nat 0 = ''0''" by (simp add: show_nat.simps char_of_def bit_iff_odd)
  moreover have "digit_value CHR ''0'' = 0" by (simp add: digit_value_def isdigit_def)
  ultimately show ?thesis using True r
    by (cases r) (simp_all add: strtoull_def strtoull_base_def digits_value_def digit_value_space split: list.split)
next
  case False
  let ?s = "show_nat n"
  have "hd (?s @ r) \<noteq> CHR ''0''" "?s @ r \<noteq> []"
    using show_nat_first [of n] show_nat_digits [of n] False by simp_all
  then have b: "strtoull_base (?s @ r) = (10, ?s @ r)"
    by (auto simp: strtoull_base_def split: list.split)
  have "list_all (\<lambda>c. digit_value c < 10) ?s"
    unfolding list_all_iff
  proof
    fix c assume "c \<in> set (show_nat n)"
    then have "isdigit c" using show_nat_digits [of n] by (simp add: list_all_iff)
    then show "digit_value c < 10" using isdigit_value by blast
  qed
  moreover have "r = [] \<or> \<not> digit_value (hd r) < 10" using r by (auto simp: digit_value_space)
  ultimately have "takeWhile (\<lambda>c. digit_value c < 10) (?s @ r) = ?s" "dropWhile (\<lambda>c. digit_value c < 10) (?s @ r) = r"
    using takeWhile_end by blast+
  with b assms show ?thesis by (simp add: strtoull_def digits_value_show)
qed

lemma strto_arith_t_show:
  "n < 2 ^ 64 \<Longrightarrow> r = [] \<or> hd r = CHR '' '' \<Longrightarrow> strto_arith_t (show_nat n @ r) = (of_nat n, r, False)"
  by (auto simp: strto_arith_t_def strtoull_show)

lemma endofname_valid:
  "valid_name x \<Longrightarrow> endofname (x @ CHR '' '' # r) = (x, CHR '' '' # r)"
  by (cases x) (auto simp: valid_name_def endofname_def is_in_name_def isalpha_def isdigit_def takeWhile_stop)

lemma endofname_digit: "isdigit c \<Longrightarrow> endofname (c # s) = ([], c # s)"
  by (auto simp: endofname_def is_name_def isalpha_def isdigit_def)

definition table_ops :: "operator set" where
  "table_ops = snd ` set op_tokens"

lemma op_text_table: "map (\<lambda>(t, op). op_text op) op_tokens = map fst op_tokens"
  by code_simp

lemma table_apart:
  "list_all (\<lambda>(t, op). match_op op_tokens (t @ '' '') = Some (op, '' '')) op_tokens"
  by code_simp

lemma table_shape:
  "list_all (\<lambda>(t, op). t \<noteq> [] \<and> \<not> is_name (hd t) \<and> \<not> isdigit (hd t) \<and> list_all (\<lambda>c. \<not> is_space c) t \<and>
     (op = TOK_POST_INC \<or> op = TOK_POST_DEC \<or> hd t \<noteq> CHR ''+'' \<and> hd t \<noteq> CHR ''-'' \<or>
       tl t = [] \<or> hd (tl t) \<noteq> hd t)) op_tokens"
  by code_simp

lemma match_text_space:
  "CHR '' '' \<notin> set p \<Longrightarrow>
   match_text p (t @ CHR '' '' # r) = map_option (\<lambda>s. butlast s @ CHR '' '' # r) (match_text p (t @ '' ''))"
proof (induction p arbitrary: t)
  case (Cons c p)
  then show ?case by (cases t) auto
qed simp

lemma match_op_space:
  "\<forall>(p, _) \<in> set tbl. CHR '' '' \<notin> set p \<Longrightarrow>
   match_op tbl (t @ CHR '' '' # r) = map_option (\<lambda>(op, s). (op, butlast s @ CHR '' '' # r)) (match_op tbl (t @ '' ''))"
proof (induction tbl)
  case (Cons e tbl)
  obtain p op where e: "e = (p, op)" by fastforce
  with Cons.prems have "CHR '' '' \<notin> set p" by simp
  from match_text_space [OF this, of t r] show ?case
    using Cons by (cases "match_text p (t @ '' '')") (simp_all add: e)
qed simp

lemmas table_facts = table_apart [unfolded list_all_iff, THEN bspec] table_shape [unfolded list_all_iff, THEN bspec]
  op_text_table [unfolded map_eq_conv, THEN bspec]

lemma table_entry:
  assumes "op \<in> table_ops"
  shows "(op_text op, op) \<in> set op_tokens"
proof -
  obtain t where t: "(t, op) \<in> set op_tokens" using assms unfolding table_ops_def by (metis imageE prod.collapse)
  from table_facts(3) [OF this] have "op_text op = t" by (simp only: prod.case fst_conv)
  with t show ?thesis by (simp only:)
qed

lemma table_no_space: "\<forall>(p, _) \<in> set op_tokens. CHR '' '' \<notin> set p"
proof (rule ballI)
  fix x assume "x \<in> set op_tokens"
  from table_facts(2) [OF this] show "case x of (p, _) \<Rightarrow> CHR '' '' \<notin> set p"
    by (cases x) (auto simp only: prod.case list_all_iff is_space_def)
qed

lemma match_op_text:
  assumes "op \<in> table_ops"
  shows "match_op op_tokens (op_text op @ CHR '' '' # r) = Some (op, CHR '' '' # r)"
proof -
  have "match_op op_tokens (op_text op @ '' '') = Some (op, '' '')"
    using table_facts(1) [OF table_entry [OF assms]] by (simp only: prod.case)
  then show ?thesis using match_op_space [OF table_no_space, of "op_text op" r] by simp
qed

lemma op_text_shape:
  assumes "op \<in> table_ops"
  shows "op_text op \<noteq> [] \<and> \<not> is_name (hd (op_text op)) \<and> \<not> isdigit (hd (op_text op)) \<and>
   \<not> is_space (hd (op_text op)) \<and>
   (op \<notin> {TOK_POST_INC, TOK_POST_DEC} \<longrightarrow> hd (op_text op) = CHR ''+'' \<or> hd (op_text op) = CHR ''-'' \<longrightarrow>
     tl (op_text op) = [] \<or> hd (tl (op_text op)) \<noteq> hd (op_text op))"
proof -
  have f: "op_text op \<noteq> [] \<and> \<not> is_name (hd (op_text op)) \<and> \<not> isdigit (hd (op_text op)) \<and>
     (\<forall>c\<in>set (op_text op). \<not> is_space c) \<and>
     (op = TOK_POST_INC \<or> op = TOK_POST_DEC \<or> hd (op_text op) \<noteq> CHR ''+'' \<and> hd (op_text op) \<noteq> CHR ''-'' \<or>
       tl (op_text op) = [] \<or> hd (tl (op_text op)) \<noteq> hd (op_text op))"
    using table_facts(2) [OF table_entry [OF assms]] unfolding prod.case list_all_iff .
  then have "hd (op_text op) \<in> set (op_text op)" by (intro hd_in_set) blast
  with f show ?thesis by blast
qed

section \<open>The loop through the tokens\<close>

lemma print_Nil [simp]: "print [] = []"
  and print_Cons [simp]: "print (t # ts) = tok_text t @ CHR '' '' # print ts"
  and print_append: "print (ts @ us) = print ts @ print us"
  by (simp_all add: print_def)

lemma skip_space [simp]: "skip_whitespace (CHR '' '' # s) = skip_whitespace s"
  by (simp add: skip_whitespace_def is_space_def)

lemma skip_nonspace: "\<not> is_space c \<Longrightarrow> skip_whitespace (c # s) = c # s"
  by (simp add: skip_whitespace_def)

text \<open>A turn, and the rest of the loop, depends on the input only after its blanks.\<close>

lemma push_num_expr [simp]: "push_num n t p (s\<lparr>expr := u\<rparr>) = push_num n t p s"
  by (simp add: push_num_def)

lemma find_operator_expr [simp]: "find_operator (s\<lparr>expr := u\<rparr>) e = find_operator s e"
  by (auto simp: find_operator_def)

lemma eval_turn_skip:
  assumes "skip_whitespace u = skip_whitespace v"
  shows "eval_turn m evaluate junk names start (s\<lparr>expr := u\<rparr>) =
    eval_turn m evaluate junk names start (s\<lparr>expr := v\<rparr>)"
proof -
  obtain name p where e: "endofname (skip_whitespace v) = (name, p)" by fastforce
  obtain n rest er where n: "strto_arith_t (skip_whitespace v) = (n, rest, er)" by (metis prod_cases3)
  show ?thesis
    by (cases "find_operator s (skip_whitespace v)"; cases "numstack s")
      (simp_all add: eval_turn_def Let_def assms e n split: prod.split list.split)
qed

lemma eval_loop_skip:
  "skip_whitespace u = skip_whitespace v \<Longrightarrow>
   eval_loop m evaluate junk names start (s\<lparr>expr := u\<rparr>) = eval_loop m evaluate junk names start (s\<lparr>expr := v\<rparr>)"
  using eval_turn_skip [of u v m evaluate junk names start s]
  by (simp add: eval_loop.simps [of m evaluate junk names start "s\<lparr>expr := u\<rparr>"]
      eval_loop.simps [of m evaluate junk names start "s\<lparr>expr := v\<rparr>"])

definition number_entry :: "arith_t \<Rightarrow> nat \<Rightarrow> var_or_num" where
  "number_entry junk n =
     \<lparr>num_val = of_nat n, second_val = junk, second_val_present = False, num_var = None\<rparr>"

definition name_entry :: "arith_t \<Rightarrow> string \<Rightarrow> var_or_num" where
  "name_entry junk x =
     \<lparr>num_val = junk, second_val = junk, second_val_present = False, num_var = Some x\<rparr>"

lemma eval_turn_number:
  assumes "expr s = show_nat n @ r" and "r = [] \<or> hd r = CHR '' ''" and "n < 2 ^ 64"
    and "length (numstack s) < (length start + 2) div 2"
  shows "eval_turn m evaluate junk names start s = Continue (s\<lparr>expr := r,
    numstack := number_entry junk n # numstack s, lasttok := TOK_NUM\<rparr>)"
proof -
  obtain c cs where s: "show_nat n = c # cs" and c: "isdigit c"
    using show_nat_digits [of n] by (cases "show_nat n") auto
  then have "\<not> is_space c" by (auto simp: isdigit_def is_space_def)
  then have e: "skip_whitespace (expr s) = c # cs @ r"
    using assms(1) s by (simp add: skip_nonspace)
  have "strto_arith_t (c # cs @ r) = (of_nat n, r, False)"
    using strto_arith_t_show [OF assms(3,2)] s by simp
  then show ?thesis
    using assms(4) c
    by (simp add: eval_turn_def e endofname_digit push_num_def number_entry_def not_le)
qed

lemma eval_turn_name:
  assumes "expr s = x @ CHR '' '' # r" and "valid_name x"
    and "length (numstack s) < (length start + 2) div 2"
  shows "eval_turn m evaluate junk names start s = Continue (s\<lparr>expr := CHR '' '' # r,
    numstack := name_entry junk x # numstack s, lasttok := TOK_NUM\<rparr>)"
proof -
  obtain c cs where x: "x = c # cs" and c: "is_name c"
    using assms(2) by (cases x) (auto simp: valid_name_def)
  then have "\<not> is_space c" by (auto simp: is_name_def isalpha_def is_space_def)
  then have e: "skip_whitespace (expr s) = c # cs @ CHR '' '' # r"
    using assms(1) x by (simp add: skip_nonspace)
  have "endofname (c # cs @ CHR '' '' # r) = (c # cs, CHR '' '' # r)"
    using endofname_valid [OF assms(2), of r] x by simp
  then show ?thesis
    using assms(3) x by (simp add: eval_turn_def e push_num_def name_entry_def not_le)
qed

lemma eval_turn_operator:
  assumes "expr s = op_text op @ CHR '' '' # r" and op: "op \<in> table_ops"
    and num: "lasttok s = TOK_NUM \<Longrightarrow> numstack s \<noteq> []"
    and var: "lasttok s = TOK_NUM \<Longrightarrow> op \<in> {TOK_POST_INC, TOK_POST_DEC} \<Longrightarrow> num_var (hd (numstack s)) \<noteq> None"
  shows "eval_turn m evaluate junk names start s =
    operator_found m evaluate names (length start + 2) op (s\<lparr>expr := CHR '' '' # r\<rparr>)"
proof -
  note shape = op_text_shape [OF op]
  obtain c cs where t: "op_text op = c # cs" using shape by (cases "op_text op") auto
  then have e: "skip_whitespace (expr s) = c # cs @ CHR '' '' # r"
    using assms(1) shape by (simp add: skip_nonspace)
  have name: "endofname (c # cs @ CHR '' '' # r) = ([], c # cs @ CHR '' '' # r)"
    using shape t by (simp add: endofname_def)
  have digit: "\<not> isdigit c" using shape t by simp
  have "\<not> (lasttok s = TOK_NUM \<and> num_var (hd (numstack s)) = None \<and> (c = CHR ''+'' \<or> c = CHR ''-'') \<and>
      hd (cs @ CHR '' '' # r) = c)"
    using shape t var by (cases cs) auto
  moreover have "match_op op_tokens (c # cs @ CHR '' '' # r) = Some (op, CHR '' '' # r)"
    using match_op_text [OF op, of r] t by simp
  ultimately have "find_operator s (c # cs @ CHR '' '' # r) = Value (op, CHR '' '' # r)"
    using num by (auto simp: find_operator_def)
  then show ?thesis by (simp add: eval_turn_def e name digit)
qed


section \<open>Delayed and immediate evaluation of a tree\<close>

fun drain ::
  "'e arith_state \<Rightarrow> 'e evaluator \<Rightarrow> string list \<Rightarrow> operator list \<Rightarrow> var_or_num list \<Rightarrow> 'e \<Rightarrow>
   var_or_num list result \<times> 'e" where
  "drain m ev names [] nums env = (Value nums, env)"
| "drain m ev names (op # ops) nums env =
     and_then (arith_apply m ev names op nums env) (drain m ev names ops)"

text \<open>
  \<open>run\<close> evaluates a tree: operands first, left to right, then the operator. A name stays a name
  until an operator looks it up. \<open>shift\<close> is what the loop has done after the last token of the tree:
  the operators it has not applied yet, in the order it will, and the numbers.
\<close>

fun run ::
  "'e arith_state \<Rightarrow> 'e evaluator \<Rightarrow> string list \<Rightarrow> arith_t \<Rightarrow> aexpr \<Rightarrow> var_or_num list \<Rightarrow> 'e \<Rightarrow>
   var_or_num list result \<times> 'e" where
  "run m ev names junk (ANum n) nums env = (Value (number_entry junk n # nums), env)"
| "run m ev names junk (AVar x) nums env = (Value (name_entry junk x # nums), env)"
| "run m ev names junk (APrefix op e) nums env =
     and_then (run m ev names junk e nums env) (arith_apply m ev names op)"
| "run m ev names junk (APostfix op x) nums env =
     arith_apply m ev names op (name_entry junk x # nums) env"
| "run m ev names junk (ABin op l r) nums env =
     and_then (run m ev names junk l nums env) (\<lambda>nums env.
     and_then (run m ev names junk r nums env) (arith_apply m ev names op))"
| "run m ev names junk (ACond c a b) nums env =
     and_then (run m ev names junk c nums env) (\<lambda>nums env.
     and_then (run m ev names junk a nums env) (\<lambda>nums env.
     and_then (run m ev names junk b nums env) (\<lambda>nums env.
     and_then (arith_apply m ev names TOK_CONDITIONAL_SEP nums env)
       (arith_apply m ev names TOK_CONDITIONAL))))"
| "run m ev names junk (AParen e) nums env = run m ev names junk e nums env"

fun shift ::
  "'e arith_state \<Rightarrow> 'e evaluator \<Rightarrow> string list \<Rightarrow> arith_t \<Rightarrow> aexpr \<Rightarrow> var_or_num list \<Rightarrow> 'e \<Rightarrow>
   (operator list \<times> var_or_num list) result \<times> 'e" where
  "shift m ev names junk (ANum n) nums env = (Value ([], number_entry junk n # nums), env)"
| "shift m ev names junk (AVar x) nums env = (Value ([], name_entry junk x # nums), env)"
| "shift m ev names junk (APrefix op e) nums env =
     and_then (shift m ev names junk e nums env) (\<lambda>(ops, nums) env. (Value (ops @ [op], nums), env))"
| "shift m ev names junk (APostfix op x) nums env = (Value ([op], name_entry junk x # nums), env)"
| "shift m ev names junk (ABin op l r) nums env =
     and_then (shift m ev names junk l nums env) (\<lambda>(ops, nums) env.
     and_then (drain m ev names ops nums env) (\<lambda>nums env.
     and_then (shift m ev names junk r nums env) (\<lambda>(ops, nums) env. (Value (ops @ [op], nums), env))))"
| "shift m ev names junk (ACond c a b) nums env =
     and_then (shift m ev names junk c nums env) (\<lambda>(ops, nums) env.
     and_then (drain m ev names ops nums env) (\<lambda>nums env.
     and_then (shift m ev names junk a nums env) (\<lambda>(ops, nums) env.
     and_then (drain m ev names ops nums env) (\<lambda>nums env.
     and_then (shift m ev names junk b nums env) (\<lambda>(ops, nums) env.
       (Value (ops @ [TOK_CONDITIONAL_SEP, TOK_CONDITIONAL], nums), env))))))"
| "shift m ev names junk (AParen e) nums env =
     and_then (shift m ev names junk e nums env) (\<lambda>(ops, nums) env.
     and_then (drain m ev names ops nums env) (\<lambda>nums env. (Value ([], nums), env)))"

lemma and_then_cong [fundef_cong]:
  "m = m' \<Longrightarrow> (\<And>a env. m' = (Value a, env) \<Longrightarrow> f a env = g a env) \<Longrightarrow> and_then m f = and_then m' g"
  by (cases m'; cases "fst m'") auto

lemma drain_Nil: "drain m ev names [] = (\<lambda>nums env. (Value nums, env))"
  by (intro ext) simp

lemma drain_append:
  "drain m ev names (xs @ ys) nums env = and_then (drain m ev names xs nums env) (drain m ev names ys)"
  by (induction xs arbitrary: nums env) (simp_all add: and_then_assoc cong: and_then_cong)

lemma drain_single: "drain m ev names [op] = arith_apply m ev names op"
  by (intro ext) (simp add: drain_Nil)

lemma drain_pair: "drain m ev names [op, op'] =
    (\<lambda>nums env. and_then (arith_apply m ev names op nums env) (arith_apply m ev names op'))"
  by (intro ext) (simp add: drain_Nil drain_single cong: and_then_cong)

lemma run_shift:
  "run m ev names junk e nums env =
     and_then (shift m ev names junk e nums env) (\<lambda>(ops, nums) env. drain m ev names ops nums env)"
  by (induction e arbitrary: nums env)
    (simp_all add: and_then_assoc drain_append split_def drain_Nil drain_single drain_pair)

lemma drain_Value:
  "drain m ev names ops nums env = (Value nums', env') \<Longrightarrow> nums \<noteq> [] \<Longrightarrow> nums' \<noteq> [] \<and> length nums' \<le> length nums"
proof (induction ops arbitrary: nums env)
  case (Cons op ops)
  then obtain nums1 env1 where a: "arith_apply m ev names op nums env = (Value nums1, env1)"
    and d: "drain m ev names ops nums1 env1 = (Value nums', env')" by (auto simp: and_then_Value)
  from arith_apply_Value [OF a] Cons.IH [OF d] show ?case by simp
qed simp

lemma op_level_prefix: "op \<in> prefix_ops \<Longrightarrow> 16 \<le> op_level op"
  and op_level_postfix: "op \<in> postfix_ops \<Longrightarrow> op_level op = 19"
  by (auto simp: prefix_ops_def postfix_ops_def op_level_def fix_assignment_prec_def)

lemma op_level_consts [simp]:
  "op_level TOK_CONDITIONAL = 4" "op_level TOK_CONDITIONAL_SEP = 4" "op_level TOK_LPAREN = 0"
  by (simp_all add: op_level_def fix_assignment_prec_def)

lemma toks_nonempty: "0 < length (toks e)"
  by (cases e) simp_all

definition shifted :: "aexpr \<Rightarrow> var_or_num list \<Rightarrow> operator list \<times> var_or_num list \<Rightarrow> bool" where
  "shifted e nums r \<longleftrightarrow> snd r \<noteq> [] \<and> length (snd r) \<le> length nums + length (toks e) \<and>
     length (fst r) \<le> length (toks e) \<and> (\<forall>op \<in> set (fst r). level e \<le> op_level op)"

lemma shift_Value:
  "shift m ev names junk e nums env = (Value r, env') \<Longrightarrow> grammatical e \<Longrightarrow> shifted e nums r"
proof (induction e arbitrary: nums env r env')
  case (APrefix op e)
  then obtain r1 env1 where 1: "shift m ev names junk e nums env = (Value r1, env1)"
    and r: "r = (fst r1 @ [op], snd r1)" by (auto simp: and_then_Value split_def)
  from APrefix.IH [OF 1] APrefix.prems(2) have "shifted e nums r1" by simp
  with APrefix.prems(2) op_level_prefix [of op] show ?case by (auto simp: r shifted_def)
next
  case (APostfix op x)
  then show ?case by (auto simp: shifted_def op_level_postfix)
next
  case (ABin op l rr)
  then obtain r1 env1 nums1 env2 r2 env3 where
    1: "shift m ev names junk l nums env = (Value r1, env1)"
    and d: "drain m ev names (fst r1) (snd r1) env1 = (Value nums1, env2)"
    and 2: "shift m ev names junk rr nums1 env2 = (Value r2, env3)"
    and r: "r = (fst r2 @ [op], snd r2)" by (auto simp: and_then_Value split_def)
  from ABin.prems(2) have g: "grammatical l" "grammatical rr" "op_level op \<le> level rr"
    by (auto split: if_splits)
  have "shifted l nums r1" "shifted rr nums1 r2" by (rule ABin.IH(1) [OF 1 g(1)], rule ABin.IH(2) [OF 2 g(2)])
  with drain_Value [OF d] g(3) show ?case by (fastforce simp: r shifted_def)
next
  case (ACond c a b)
  then obtain r1 env1 nums1 env2 r2 env3 nums2 env4 r3 env5 where
    1: "shift m ev names junk c nums env = (Value r1, env1)"
    and d1: "drain m ev names (fst r1) (snd r1) env1 = (Value nums1, env2)"
    and 2: "shift m ev names junk a nums1 env2 = (Value r2, env3)"
    and d2: "drain m ev names (fst r2) (snd r2) env3 = (Value nums2, env4)"
    and 3: "shift m ev names junk b nums2 env4 = (Value r3, env5)"
    and r: "r = (fst r3 @ [TOK_CONDITIONAL_SEP, TOK_CONDITIONAL], snd r3)"
    by (auto simp: and_then_Value split_def)
  from ACond.prems(2) have g: "grammatical c" "grammatical a" "grammatical b" "4 \<le> level b" by simp_all
  have "shifted c nums r1" "shifted a nums1 r2" "shifted b nums2 r3"
    by (rule ACond.IH(1) [OF 1 g(1)], rule ACond.IH(2) [OF 2 g(2)], rule ACond.IH(3) [OF 3 g(3)])
  with drain_Value [OF d1] drain_Value [OF d2] g(4) toks_nonempty [of a] show ?case
    by (fastforce simp: r shifted_def)
next
  case (AParen e)
  then obtain r1 env1 nums1 where 1: "shift m ev names junk e nums env = (Value r1, env1)"
    and d: "drain m ev names (fst r1) (snd r1) env1 = (Value nums1, env')"
    and r: "r = ([], nums1)" by (auto simp: and_then_Value split_def)
  from AParen.IH [OF 1] AParen.prems(2) have "shifted e nums r1" by simp
  with drain_Value [OF d] show ?case by (auto simp: r shifted_def)
qed (auto simp: shifted_def)

section \<open>The parser follows the grammar\<close>

text \<open>\<open>binds\<close>: the operator on the stack stays there when one of precedence \<open>prec\<close> arrives.\<close>

definition binds :: "operator \<Rightarrow> nat \<Rightarrow> bool" where
  "binds prev prec \<longleftrightarrow> op_level prev < prec \<or> (op_level prev = prec \<and> is_right_associative prec)"

lemma apply_stack_Cons:
  "apply_stack m ev names op (o' # st) nums env =
     (if op = TOK_RPAREN \<and> o' = TOK_LPAREN then (Value (True, st, nums), env)
      else if op \<noteq> TOK_RPAREN \<and> binds o' (op_level op) then (Value (False, o' # st, nums), env)
      else and_then (arith_apply m ev names o' nums env) (apply_stack m ev names op st))"
  by (simp add: Let_def binds_def op_level_def)

declare apply_stack.simps(2) [simp del]

lemma apply_stack_drain:
  "\<forall>o' \<in> set ops. (op = TOK_RPAREN \<longrightarrow> o' \<noteq> TOK_LPAREN) \<and> (op \<noteq> TOK_RPAREN \<longrightarrow> \<not> binds o' (op_level op)) \<Longrightarrow>
   apply_stack m ev names op (ops @ st) nums env =
     and_then (drain m ev names ops nums env) (apply_stack m ev names op st)"
proof (induction ops arbitrary: nums env)
  case (Cons o' ops)
  then have "\<not> (op = TOK_RPAREN \<and> o' = TOK_LPAREN)" "\<not> (op \<noteq> TOK_RPAREN \<and> binds o' (op_level op))" by auto
  moreover have "apply_stack m ev names op (ops @ st) =
      (\<lambda>nums env. and_then (drain m ev names ops nums env) (apply_stack m ev names op st))"
    using Cons by (intro ext) simp
  ultimately show ?case
    by (simp only: append_Cons apply_stack_Cons if_False drain.simps and_then_assoc)
qed simp

lemma apply_stack_stop:
  "op \<noteq> TOK_RPAREN \<Longrightarrow> binds o' (op_level op) \<Longrightarrow>
   apply_stack m ev names op (o' # st) nums env = (Value (False, o' # st, nums), env)"
  by (simp add: apply_stack_Cons)

lemma apply_stack_match:
  "apply_stack m ev names TOK_RPAREN (TOK_LPAREN # st) nums env = (Value (True, st, nums), env)"
  by (simp add: apply_stack_Cons)

text \<open>The last token of a tree, as the loop remembers it, counts as a number.\<close>

fun last_token :: "aexpr \<Rightarrow> operator" where
  "last_token (APrefix op e) = last_token e"
| "last_token (APostfix op x) = op"
| "last_token (ABin op l r) = last_token r"
| "last_token (ACond c a b) = last_token b"
| "last_token e = TOK_NUM"

definition number_like :: "operator set" where
  "number_like = {TOK_NUM, TOK_POST_INC, TOK_POST_DEC}"

lemma last_token_number: "grammatical e \<Longrightarrow> last_token e \<in> number_like"
  by (induction e) (auto simp: number_like_def postfix_ops_def)


lemma eval_loop_Continue:
  "eval_turn m ev junk names start s = Continue s' \<Longrightarrow>
   eval_loop m ev junk names start s = eval_loop m ev junk names start s'"
  by (simp add: eval_loop.simps [of m ev junk names start s])

lemma eval_loop_blank:
  assumes "expr s1 = CHR '' '' # expr s2" and "s1\<lparr>expr := []\<rparr> = s2\<lparr>expr := []\<rparr>"
  shows "eval_loop m ev junk names start s1 = eval_loop m ev junk names start s2"
proof -
  have "s1 = s2\<lparr>expr := CHR '' '' # expr s2\<rparr>"
    using assms by (cases s1, cases s2) simp
  then have "eval_loop m ev junk names start s1 = eval_loop m ev junk names start (s2\<lparr>expr := expr s2\<rparr>)"
    by (simp only:) (rule eval_loop_skip, simp)
  then show ?thesis by simp
qed

lemma eval_loop_Continue_blank:
  assumes "eval_turn m ev junk names start s = Continue s1"
    and "expr s1 = CHR '' '' # expr s2" and "s1\<lparr>expr := []\<rparr> = s2\<lparr>expr := []\<rparr>"
  shows "eval_loop m ev junk names start s = eval_loop m ev junk names start s2"
  using eval_loop_Continue [OF assms(1)] eval_loop_blank [OF assms(2,3)] by simp

lemma loop_number:
  assumes "expr s = print (Number n # ts)" and "n < 2 ^ 64" and "length (numstack s) < (length start + 2) div 2"
  shows "eval_loop m ev junk names start s = eval_loop m ev junk names start
    (s\<lparr>expr := print ts, numstack := number_entry junk n # numstack s, lasttok := TOK_NUM\<rparr>)"
proof -
  have "expr s = show_nat n @ CHR '' '' # print ts" using assms(1) by simp
  from eval_turn_number [OF this _ assms(2,3)] show ?thesis
    by (rule eval_loop_Continue_blank) simp_all
qed

lemma loop_name:
  assumes "expr s = print (Name x # ts)" and "valid_name x" and "length (numstack s) < (length start + 2) div 2"
  shows "eval_loop m ev junk names start s = eval_loop m ev junk names start
    (s\<lparr>expr := print ts, numstack := name_entry junk x # numstack s, lasttok := TOK_NUM\<rparr>)"
proof -
  have "expr s = x @ CHR '' '' # print ts" using assms(1) by simp
  from eval_turn_name [OF this assms(2,3)] show ?thesis
    by (rule eval_loop_Continue_blank) simp_all
qed

lemma table_opsI: "op \<in> prefix_ops \<Longrightarrow> prefix_source op \<in> table_ops"
  "op \<in> postfix_ops \<Longrightarrow> op \<in> table_ops" "is_binary op \<Longrightarrow> op \<in> table_ops"
  "TOK_CONDITIONAL \<in> table_ops" "TOK_CONDITIONAL_SEP \<in> table_ops" "TOK_LPAREN \<in> table_ops" "TOK_RPAREN \<in> table_ops"
proof -
  show "op \<in> prefix_ops \<Longrightarrow> prefix_source op \<in> table_ops"
    by (auto simp: prefix_ops_def table_ops_def op_tokens_def)
  show "op \<in> postfix_ops \<Longrightarrow> op \<in> table_ops"
    by (auto simp: postfix_ops_def table_ops_def op_tokens_def)
  show "is_binary op \<Longrightarrow> op \<in> table_ops"
    by (cases op) (simp_all add: is_binary_def table_ops_def op_tokens_def)
qed (simp_all add: table_ops_def op_tokens_def)

text \<open>A prefix operator or a left paren where an operand is due.\<close>

lemma loop_push:
  assumes "expr s = print (Op src # ts)" and "src \<in> table_ops" and "prefix_source op = src"
    and "op \<in> prefix_ops \<or> op = TOK_LPAREN" and "lasttok s \<notin> number_like" and "length (stack s) < length start + 2"
  shows "eval_loop m ev junk names start s = eval_loop m ev junk names start
    (s\<lparr>expr := print ts, stack := op # stack s, lasttok := op\<rparr>)"
proof -
  have e: "expr s = op_text src @ CHR '' '' # print ts" using assms(1) by simp
  have l: "lasttok s \<noteq> TOK_NUM" "lasttok s \<noteq> TOK_POST_INC" "lasttok s \<noteq> TOK_POST_DEC"
    using assms(5) by (auto simp: number_like_def)
  have p: "prefix_op src = op" "\<not> (0 < PREC op \<and> PREC op < 16)" "PREC op \<noteq> 20"
    using assms(3,4) by (auto simp: prefix_ops_def)
  have "eval_turn m ev junk names start s =
      Continue (s\<lparr>expr := CHR '' '' # print ts, stack := op # stack s, lasttok := op\<rparr>)"
    using eval_turn_operator [OF e assms(2)] l p assms(6)
    by (auto simp: operator_found_def operator_push_def push_op_def)
  then show ?thesis by (rule eval_loop_Continue_blank) simp_all
qed

text \<open>A postfix operator after a name.\<close>

lemma loop_postfix:
  assumes "expr s = print (Op op # ts)" and "op \<in> postfix_ops" and "lasttok s = TOK_NUM"
    and "numstack s = name_entry junk x # nums" and "length (stack s) < length start + 2"
  shows "eval_loop m ev junk names start s = eval_loop m ev junk names start
    (s\<lparr>expr := print ts, stack := op # stack s, lasttok := op\<rparr>)"
proof -
  have e: "expr s = op_text op @ CHR '' '' # print ts" using assms(1) by simp
  have p: "PREC op = 19" using assms(2) by (auto simp: postfix_ops_def)
  have "eval_turn m ev junk names start s =
      Continue (s\<lparr>expr := CHR '' '' # print ts, stack := op # stack s, lasttok := op\<rparr>)"
    using eval_turn_operator [OF e table_opsI(2) [OF assms(2)]] p assms(3-5)
    by (simp add: operator_found_def operator_push_def push_op_def name_entry_def)
  then show ?thesis by (rule eval_loop_Continue_blank) simp_all
qed

text \<open>A binary operator, or half of \<open>?:\<close>, after a tree: what binds tighter is applied.\<close>

lemma loop_binary:
  assumes "expr s = print (Op op # ts)" and "op \<in> table_ops" and "0 < PREC op" "PREC op < 16"
    and "lasttok s \<in> number_like" and "numstack s \<noteq> []"
    and "stack s = ops @ o' # st" and "\<forall>p \<in> set ops. \<not> binds p (op_level op)" and "binds o' (op_level op)"
    and "length st < length start"
  shows "eval_loop m ev junk names start s =
    and_then (drain m ev names ops (numstack s) (callers s)) (\<lambda>nums env. eval_loop m ev junk names start
      (s\<lparr>expr := print ts, stack := op # o' # st, numstack := nums, callers := env, lasttok := op\<rparr>))"
proof -
  have e: "expr s = op_text op @ CHR '' '' # print ts" using assms(1) by simp
  have ne: "op \<noteq> TOK_RPAREN" "op \<notin> {TOK_POST_INC, TOK_POST_DEC}" using assms(4) by auto
  have a: "apply_stack m ev names op (stack s) (numstack s) (callers s) =
      and_then (drain m ev names ops (numstack s) (callers s)) (\<lambda>nums env. (Value (False, o' # st, nums), env))"
    using apply_stack_drain [of ops op m ev names "o' # st"] apply_stack_stop [OF ne(1) assms(9)] assms(7,8) ne(1)
    by (simp add: apply_stack_stop [OF ne(1) assms(9), abs_def])
  have t: "eval_turn m ev junk names start s =
      operator_push m ev names (length start + 2) TOK_NUM op (s\<lparr>expr := CHR '' '' # print ts\<rparr>)"
    using eval_turn_operator [OF e assms(2)] assms(5,6) ne(2)
    by (auto simp: operator_found_def number_like_def)
  obtain r env where d: "drain m ev names ops (numstack s) (callers s) = (r, env)" by fastforce
  show ?thesis
  proof (cases r)
    case (Value nums)
    let ?s = "\<lambda>u. s\<lparr>expr := u, stack := op # o' # st, numstack := nums, callers := env, lasttok := op\<rparr>"
    have "eval_turn m ev junk names start s = Continue (?s (CHR '' '' # print ts))"
      using assms(3,4,10) ne(1) by (simp add: t operator_push_def a d Value push_op_def)
    then have "eval_loop m ev junk names start s = eval_loop m ev junk names start (?s (print ts))"
      by (rule eval_loop_Continue_blank) simp_all
    then show ?thesis by (simp add: d Value)
  qed (use assms(3,4) in \<open>simp_all add: eval_loop.simps [of m ev junk names start s] t operator_push_def a d\<close>)
qed

text \<open>The right paren of a tree.\<close>

lemma loop_rparen:
  assumes "expr s = print (Op TOK_RPAREN # ts)" and "lasttok s \<in> number_like" and "numstack s \<noteq> []"
    and "stack s = ops @ TOK_LPAREN # st" and "TOK_LPAREN \<notin> set ops"
  shows "eval_loop m ev junk names start s =
    and_then (drain m ev names ops (numstack s) (callers s)) (\<lambda>nums env. eval_loop m ev junk names start
      (s\<lparr>expr := print ts, stack := st, numstack := nums, callers := env, lasttok := TOK_NUM\<rparr>))"
proof -
  have e: "expr s = op_text TOK_RPAREN @ CHR '' '' # print ts" using assms(1) by simp
  have "\<forall>p \<in> set ops. p \<noteq> TOK_LPAREN" using assms(5) by auto
  then have a: "apply_stack m ev names TOK_RPAREN (stack s) (numstack s) (callers s) =
      and_then (drain m ev names ops (numstack s) (callers s)) (\<lambda>nums env. (Value (True, st, nums), env))"
    using apply_stack_drain [of ops TOK_RPAREN m ev names "TOK_LPAREN # st"] assms(4)
    by (simp add: apply_stack_match [abs_def])
  have t: "eval_turn m ev junk names start s =
      operator_push m ev names (length start + 2) TOK_NUM TOK_RPAREN (s\<lparr>expr := CHR '' '' # print ts\<rparr>)"
    using eval_turn_operator [OF e table_opsI(7)] assms(2,3)
    by (auto simp: operator_found_def number_like_def)
  obtain r env where d: "drain m ev names ops (numstack s) (callers s) = (r, env)" by fastforce
  show ?thesis
  proof (cases r)
    case (Value nums)
    let ?s = "\<lambda>u. s\<lparr>expr := u, stack := st, numstack := nums, callers := env, lasttok := TOK_NUM\<rparr>"
    have "eval_turn m ev junk names start s = Continue (?s (CHR '' '' # print ts))"
      by (simp add: t operator_push_def a d Value)
    then have "eval_loop m ev junk names start s = eval_loop m ev junk names start (?s (print ts))"
      by (rule eval_loop_Continue_blank) simp_all
    then show ?thesis by (simp add: d Value)
  qed (simp_all add: eval_loop.simps [of m ev junk names start s] t operator_push_def a d)
qed


lemma binds_mono: "binds o' p \<Longrightarrow> p \<le> q \<Longrightarrow> binds o' q"
  unfolding binds_def by (cases "p = q") auto

lemma level_pos: "grammatical e \<Longrightarrow> 0 < level e"
  by (cases e) (auto simp: is_binary_def op_level_def fix_assignment_prec_def)

lemma binary_facts:
  assumes "is_binary op"
  shows "0 < PREC op" "PREC op < 16" "op_level op < 16" "op \<notin> number_like" "op \<in> table_ops"
  using assms table_opsI(3) by (auto simp: is_binary_def op_level_def fix_assignment_prec_def number_like_def)

text \<open>
  \<open>loop_state\<close> is the state after the tokens read so far: what is left to read, the two stacks, the
  environment and the last token.
\<close>

abbreviation loop_state ::
  "'e eval \<Rightarrow> string \<Rightarrow> operator list \<Rightarrow> var_or_num list \<Rightarrow> 'e \<Rightarrow> operator \<Rightarrow> 'e eval" where
  "loop_state s text ops nums env tok \<equiv>
     s\<lparr>expr := text, stack := ops, numstack := nums, callers := env, lasttok := tok\<rparr>"

definition ready :: "string \<Rightarrow> aexpr \<Rightarrow> 'e eval \<Rightarrow> bool" where
  "ready start e s \<longleftrightarrow> lasttok s \<notin> number_like \<and>
     (16 \<le> level e \<or> (\<exists>o' st. stack s = o' # st \<and> binds o' (level e))) \<and>
     length (numstack s) + length (toks e) \<le> (length start + 2) div 2 \<and>
     length (stack s) + length (toks e) < length start + 2"

lemma loop_operand:
  assumes IH: "\<And>ts. expr s = print (toks l @ ts) \<Longrightarrow> ready start l s \<Longrightarrow>
      eval_loop m ev junk names start s =
        and_then (shift m ev names junk l (numstack s) (callers s)) (\<lambda>r env. eval_loop m ev junk names start
          (loop_state s (print ts) (fst r @ stack s) (snd r) env (last_token l)))"
    and g: "grammatical l" and ready: "ready start l s" and e: "expr s = print (toks l @ Op op # ts)"
    and op: "op \<in> table_ops" "0 < PREC op" "PREC op < 16"
    and st: "stack s = o' # st" "binds o' (op_level op)" "length st < length start"
    and assoc: "op_level op \<le> level l" "is_right_associative (op_level op) \<Longrightarrow> op_level op < level l"
  shows "eval_loop m ev junk names start s =
    and_then (shift m ev names junk l (numstack s) (callers s)) (\<lambda>r1 env.
    and_then (drain m ev names (fst r1) (snd r1) env) (\<lambda>nums env. eval_loop m ev junk names start
      (loop_state s (print ts) (op # stack s) nums env op)))"
proof -
  let ?T = "Op op # ts"
  have "eval_loop m ev junk names start s =
      and_then (shift m ev names junk l (numstack s) (callers s)) (\<lambda>r1 env. eval_loop m ev junk names start
        (loop_state s (print ?T) (fst r1 @ stack s) (snd r1) env (last_token l)))"
    by (rule IH [OF e ready])
  also have "\<dots> = and_then (shift m ev names junk l (numstack s) (callers s)) (\<lambda>r1 env.
      and_then (drain m ev names (fst r1) (snd r1) env) (\<lambda>nums env. eval_loop m ev junk names start
        (loop_state s (print ts) (op # stack s) nums env op)))"
  proof (rule and_then_cong [OF refl])
    fix r1 env assume "shift m ev names junk l (numstack s) (callers s) = (Value r1, env)"
    then have sh: "shifted l (numstack s) r1" by (rule shift_Value) (rule g)
    then have "\<forall>p \<in> set (fst r1). \<not> binds p (op_level op)"
      using assoc by (force simp: shifted_def binds_def)
    then show "eval_loop m ev junk names start
        (loop_state s (print ?T) (fst r1 @ stack s) (snd r1) env (last_token l)) =
      and_then (drain m ev names (fst r1) (snd r1) env) (\<lambda>nums env. eval_loop m ev junk names start
        (loop_state s (print ts) (op # stack s) nums env op))"
      using loop_binary [of "loop_state s (print ?T) (fst r1 @ stack s) (snd r1) env (last_token l)"
          op ts "fst r1" o' st start m ev junk names]
        op st last_token_number [OF g] sh
      by (simp add: shifted_def)
  qed
  finally show ?thesis .
qed

lemma shift_drain_length:
  assumes "shift m ev names junk l nums0 env0 = (Value r1, env)"
    and "drain m ev names (fst r1) (snd r1) env = (Value nums, env')" and "grammatical l"
  shows "nums \<noteq> [] \<and> length nums \<le> length nums0 + length (toks l)"
  using drain_Value [OF assms(2)] shift_Value [OF assms(1,3)] by (simp add: shifted_def)

lemma loop_shift:
  "grammatical e \<Longrightarrow> expr s = print (toks e @ ts) \<Longrightarrow> ready start e s \<Longrightarrow>
   eval_loop m ev junk names start s =
     and_then (shift m ev names junk e (numstack s) (callers s)) (\<lambda>r env.
       eval_loop m ev junk names start
         (loop_state s (print ts) (fst r @ stack s) (snd r) env (last_token e)))"
proof (induction e arbitrary: s ts)
  case (ANum n)
  then have "eval_loop m ev junk names start s = eval_loop m ev junk names start
      (s\<lparr>expr := print ts, numstack := number_entry junk n # numstack s, lasttok := TOK_NUM\<rparr>)"
    by (intro loop_number) (simp_all add: ready_def)
  also have "s\<lparr>expr := print ts, numstack := number_entry junk n # numstack s, lasttok := TOK_NUM\<rparr> =
      loop_state s (print ts) (stack s) (number_entry junk n # numstack s) (callers s) TOK_NUM"
    by (cases s) simp
  finally show ?case by simp
next
  case (AVar x)
  then have "eval_loop m ev junk names start s = eval_loop m ev junk names start
      (s\<lparr>expr := print ts, numstack := name_entry junk x # numstack s, lasttok := TOK_NUM\<rparr>)"
    by (intro loop_name) (simp_all add: ready_def)
  also have "s\<lparr>expr := print ts, numstack := name_entry junk x # numstack s, lasttok := TOK_NUM\<rparr> =
      loop_state s (print ts) (stack s) (name_entry junk x # numstack s) (callers s) TOK_NUM"
    by (cases s) simp
  finally show ?case by simp
next
  case (APrefix op e)
  let ?s = "s\<lparr>expr := print (toks e @ ts), stack := op # stack s, lasttok := op\<rparr>"
  have g: "op \<in> prefix_ops" "grammatical e" "16 \<le> level e" using APrefix.prems(1) by simp_all
  have "op \<notin> number_like" using g(1) by (auto simp: prefix_ops_def number_like_def)
  then have "ready start e ?s" using APrefix.prems(3) g(3) by (simp add: ready_def)
  moreover have "eval_loop m ev junk names start s = eval_loop m ev junk names start ?s"
    using APrefix.prems g(1) by (intro loop_push [where src = "prefix_source op"]) (auto simp: table_opsI ready_def)
  ultimately show ?case
    using APrefix.IH [of ?s ts] g(2) by (simp add: and_then_assoc split_def)
next
  case (APostfix op x)
  let ?s = "s\<lparr>expr := print (Op op # ts), numstack := name_entry junk x # numstack s, lasttok := TOK_NUM\<rparr>"
  let ?s' = "?s\<lparr>expr := print ts, stack := op # stack ?s, lasttok := op\<rparr>"
  have "eval_loop m ev junk names start s = eval_loop m ev junk names start ?s"
    using APostfix.prems by (intro loop_name) (simp_all add: ready_def)
  also have "\<dots> = eval_loop m ev junk names start ?s'"
    using APostfix.prems by (intro loop_postfix [where x = x and nums = "numstack s"]) (simp_all add: ready_def)
  also have "?s' = loop_state s (print ts) (op # stack s) (name_entry junk x # numstack s) (callers s) op"
    by (cases s) simp
  finally show ?case by simp
next
  case (ABin op l r)
  have g: "is_binary op" "grammatical l" "grammatical r" using ABin.prems(1) by simp_all
  note b = binary_facts [OF g(1)]
  obtain o' st where st: "stack s = o' # st" "binds o' (op_level op)"
    using ABin.prems(3) b(3) by (auto simp: ready_def)
  have assoc: "op_level op \<le> level l" "is_right_associative (op_level op) \<Longrightarrow> op_level op < level l"
    "binds op (level r)"
    using ABin.prems(1) by (auto simp: binds_def split: if_splits)
  have rl: "ready start l s"
    using ABin.prems(3) st binds_mono [OF st(2) assoc(1)] by (auto simp: ready_def)
  have "eval_loop m ev junk names start s =
      and_then (shift m ev names junk l (numstack s) (callers s)) (\<lambda>r1 env.
      and_then (drain m ev names (fst r1) (snd r1) env) (\<lambda>nums env. eval_loop m ev junk names start
        (loop_state s (print (toks r @ ts)) (op # stack s) nums env op)))"
    using ABin.prems st by (intro loop_operand [OF ABin.IH(1) [OF g(2)] g(2) rl _ b(5,1,2) st _ assoc(1,2)])
      (simp_all add: ready_def)
  also have "\<dots> = and_then (shift m ev names junk l (numstack s) (callers s)) (\<lambda>r1 env.
      and_then (drain m ev names (fst r1) (snd r1) env) (\<lambda>nums env.
      and_then (shift m ev names junk r nums env) (\<lambda>r2 env. eval_loop m ev junk names start
        (loop_state s (print ts) (fst r2 @ op # stack s) (snd r2) env (last_token r)))))"
  proof (rule and_then_cong [OF refl], rule and_then_cong [OF refl])
    fix r1 env nums env'
    assume sh: "shift m ev names junk l (numstack s) (callers s) = (Value r1, env)"
      and d: "drain m ev names (fst r1) (snd r1) env = (Value nums, env')"
    let ?s = "loop_state s (print (toks r @ ts)) (op # stack s) nums env' op"
    have "ready start r ?s"
      using ABin.prems(3) b(4) assoc(3) toks_nonempty [of l] shift_drain_length [OF sh d g(2)]
      by (simp add: ready_def)
    from ABin.IH(2) [OF g(3) _ this, of ts] show "eval_loop m ev junk names start ?s =
      and_then (shift m ev names junk r nums env') (\<lambda>r2 env. eval_loop m ev junk names start
        (loop_state s (print ts) (fst r2 @ op # stack s) (snd r2) env (last_token r)))" by simp
  qed
  finally show ?case by (simp add: and_then_assoc split_def)
next
  case (ACond c a b)
  have g: "grammatical c" "grammatical a" "grammatical b" "4 < level c" "4 < level a" "4 \<le> level b"
    using ACond.prems(1) by simp_all
  obtain o' st where st: "stack s = o' # st" "binds o' 4"
    using ACond.prems(3) by (auto simp: ready_def)
  have r4: "is_right_associative 4" by (simp add: is_right_associative_def)
  have nl: "TOK_CONDITIONAL \<notin> number_like" "TOK_CONDITIONAL_SEP \<notin> number_like"
    by (simp_all add: number_like_def)
  let ?sh = "\<lambda>e. shift m ev names junk e" and ?dr = "\<lambda>r. drain m ev names (fst r) (snd r)"
  let ?s1 = "\<lambda>nums env. loop_state s (print (toks a @ Op TOK_CONDITIONAL_SEP # toks b @ ts))
    (TOK_CONDITIONAL # stack s) nums env TOK_CONDITIONAL"
  let ?s2 = "\<lambda>nums env. loop_state s (print (toks b @ ts))
    (TOK_CONDITIONAL_SEP # TOK_CONDITIONAL # stack s) nums env TOK_CONDITIONAL_SEP"
  let ?s3 = "\<lambda>r env. loop_state s (print ts)
    (fst r @ TOK_CONDITIONAL_SEP # TOK_CONDITIONAL # stack s) (snd r) env (last_token b)"
  let ?el = "eval_loop m ev junk names start"
  have rc: "ready start c s"
    using ACond.prems(3) st binds_mono [OF st(2), of "level c"] g(4) by (auto simp: ready_def)
  have "?el s = and_then (?sh c (numstack s) (callers s)) (\<lambda>r1 env. and_then (?dr r1 env) (\<lambda>nums env. ?el (?s1 nums env)))"
    using ACond.prems st g(4) by (intro loop_operand [OF ACond.IH(1) [OF g(1)] g(1) rc _ table_opsI(4) _ _ st(1)])
      (simp_all add: ready_def)
  also have "\<dots> = and_then (?sh c (numstack s) (callers s)) (\<lambda>r1 env. and_then (?dr r1 env) (\<lambda>nums env.
      and_then (?sh a nums env) (\<lambda>r2 env. and_then (?dr r2 env) (\<lambda>nums env. ?el (?s2 nums env)))))"
  proof (rule and_then_cong [OF refl], rule and_then_cong [OF refl])
    fix r1 env nums0 env'
    assume sh: "?sh c (numstack s) (callers s) = (Value r1, env)" and d: "?dr r1 env = (Value nums0, env')"
    have ra: "ready start a (?s1 nums0 env')"
      using ACond.prems(3) nl g(5) shift_drain_length [OF sh d g(1)] toks_nonempty [of c]
      by (simp add: ready_def binds_def)
    have len: "length (stack s) < length start" using ACond.prems(3) toks_nonempty [of a] by (simp add: ready_def)
    have "?el (?s1 nums0 env') = and_then (?sh a (numstack (?s1 nums0 env')) (callers (?s1 nums0 env'))) (\<lambda>r1 env.
        and_then (?dr r1 env) (\<lambda>nums env. ?el (loop_state (?s1 nums0 env') (print (toks b @ ts))
          (TOK_CONDITIONAL_SEP # stack (?s1 nums0 env')) nums env TOK_CONDITIONAL_SEP)))"
    proof (rule loop_operand [where s = "?s1 nums0 env'" and l = a and o' = TOK_CONDITIONAL and st = "stack s"])
      fix ts assume "expr (?s1 nums0 env') = print (toks a @ ts)"
      from ACond.IH(2) [OF g(2) this ra]
      show "?el (?s1 nums0 env') = and_then (?sh a (numstack (?s1 nums0 env')) (callers (?s1 nums0 env')))
          (\<lambda>r env. ?el (loop_state (?s1 nums0 env') (print ts) (fst r @ stack (?s1 nums0 env')) (snd r) env (last_token a)))" .
    qed (use g ra r4 len in \<open>simp_all add: binds_def table_opsI\<close>)
    then show "?el (?s1 nums0 env') =
        and_then (?sh a nums0 env') (\<lambda>r2 env. and_then (?dr r2 env) (\<lambda>nums env. ?el (?s2 nums env)))"
      by simp
  qed
  also have "\<dots> = and_then (?sh c (numstack s) (callers s)) (\<lambda>r1 env. and_then (?dr r1 env) (\<lambda>nums env.
      and_then (?sh a nums env) (\<lambda>r2 env. and_then (?dr r2 env) (\<lambda>nums env.
      and_then (?sh b nums env) (\<lambda>r3 env. ?el (?s3 r3 env))))))"
  proof (rule and_then_cong [OF refl], rule and_then_cong [OF refl], rule and_then_cong [OF refl],
      rule and_then_cong [OF refl])
    fix r1 env1 nums1 env1' r2 env2 nums env'
    assume sh1: "?sh c (numstack s) (callers s) = (Value r1, env1)" and d1: "?dr r1 env1 = (Value nums1, env1')"
      and sh2: "?sh a nums1 env1' = (Value r2, env2)" and d2: "?dr r2 env2 = (Value nums, env')"
    have "ready start b (?s2 nums env')"
      using ACond.prems(3) nl g(6) r4 shift_drain_length [OF sh1 d1 g(1)] shift_drain_length [OF sh2 d2 g(2)]
        toks_nonempty [of c] toks_nonempty [of a] binds_mono [of TOK_CONDITIONAL_SEP 4 "level b"]
      by (simp add: ready_def binds_def)
    from ACond.IH(3) [OF g(3) _ this, of ts]
    show "?el (?s2 nums env') = and_then (?sh b nums env') (\<lambda>r3 env. ?el (?s3 r3 env))" by simp
  qed
  finally show ?case by (simp add: and_then_assoc split_def)
next
  case (AParen e)
  have g: "grammatical e" using AParen.prems(1) by simp
  let ?el = "eval_loop m ev junk names start"
  let ?s = "s\<lparr>expr := print (toks e @ Op TOK_RPAREN # ts), stack := TOK_LPAREN # stack s, lasttok := TOK_LPAREN\<rparr>"
  have ready: "ready start e ?s"
    using AParen.prems(3) level_pos [OF g] by (simp add: ready_def binds_def number_like_def)
  have "?el s = ?el ?s"
    using AParen.prems by (intro loop_push [where src = TOK_LPAREN]) (auto simp: table_opsI ready_def)
  also have "\<dots> = and_then (shift m ev names junk e (numstack s) (callers s)) (\<lambda>r env.
      ?el (loop_state s (print (Op TOK_RPAREN # ts)) (fst r @ TOK_LPAREN # stack s) (snd r) env (last_token e)))"
    using AParen.IH [OF g _ ready, of "Op TOK_RPAREN # ts"] by simp
  also have "\<dots> = and_then (shift m ev names junk e (numstack s) (callers s)) (\<lambda>r env.
      and_then (drain m ev names (fst r) (snd r) env) (\<lambda>nums env.
        ?el (loop_state s (print ts) (stack s) nums env TOK_NUM)))"
  proof (rule and_then_cong [OF refl])
    fix r env assume "shift m ev names junk e (numstack s) (callers s) = (Value r, env)"
    then have sh: "shifted e (numstack s) r" by (rule shift_Value) (rule g)
    then have "TOK_LPAREN \<notin> set (fst r)" using level_pos [OF g] by (force simp: shifted_def)
    then show "?el (loop_state s (print (Op TOK_RPAREN # ts)) (fst r @ TOK_LPAREN # stack s) (snd r) env (last_token e)) =
      and_then (drain m ev names (fst r) (snd r) env) (\<lambda>nums env.
        ?el (loop_state s (print ts) (stack s) nums env TOK_NUM))"
      using loop_rparen [of "loop_state s (print (Op TOK_RPAREN # ts)) (fst r @ TOK_LPAREN # stack s) (snd r) env (last_token e)"
          ts "fst r" "stack s" m ev junk names start] last_token_number [OF g] sh
      by (simp add: shifted_def)
  qed
  finally show ?case by (simp add: and_then_assoc split_def)
qed

section \<open>The end of the text, and the whole evaluation\<close>

definition final_value ::
  "'e arith_state \<Rightarrow> 'e evaluator \<Rightarrow> string list \<Rightarrow> var_or_num list \<Rightarrow> 'e \<Rightarrow> arith_t result \<times> 'e" where
  "final_value m ev names nums env =
     (case nums of [t] \<Rightarrow> and_then (arith_lookup_val m ev names t env) (\<lambda>t env. (Value (num_val t), env))
      | _ \<Rightarrow> (Error syntax_error, env))"

lemma loop_end:
  assumes "expr s = []" and "\<not> at_rparen s" and "start \<noteq> []" and "lasttok s \<in> number_like" and "numstack s \<noteq> []"
    and "stack s = ops @ [TOK_LPAREN]" and "TOK_LPAREN \<notin> set ops"
  shows "eval_loop m ev junk names start s =
    and_then (drain m ev names ops (numstack s) (callers s)) (final_value m ev names)"
proof -
  let ?s = "s\<lparr>expr := '')'', at_rparen := True\<rparr>"
  have "eval_turn m ev junk names start s = Continue ?s"
    using assms(1-3) by (simp add: eval_turn_def)
  then have 1: "eval_loop m ev junk names start s = eval_loop m ev junk names start ?s"
    by (rule eval_loop_Continue)
  have "\<forall>p \<in> set ops. p \<noteq> TOK_LPAREN" using assms(7) by auto
  then have a: "apply_stack m ev names TOK_RPAREN (stack s) (numstack s) (callers s) =
      and_then (drain m ev names ops (numstack s) (callers s)) (\<lambda>nums env. (Value (True, [], nums), env))"
    using apply_stack_drain [of ops TOK_RPAREN m ev names "[TOK_LPAREN]"] assms(6)
    by (simp add: apply_stack_match [abs_def])
  have "find_operator ?s '')'' = Value (TOK_RPAREN, [])"
    using assms(5) by (simp add: find_operator_rparen)
  moreover have "endofname '')'' = ([], '')'')" "\<not> isdigit CHR '')''"
    by (simp_all add: endofname_def is_name_def isalpha_def isdigit_def)
  ultimately have t: "eval_turn m ev junk names start ?s =
      operator_push m ev names (length start + 2) TOK_NUM TOK_RPAREN (?s\<lparr>expr := []\<rparr>)"
    using assms(4) by (auto simp: eval_turn_def operator_found_def number_like_def)
  obtain r env where d: "drain m ev names ops (numstack s) (callers s) = (r, env)" by fastforce
  show ?thesis
  proof (cases r)
    case (Value nums)
    let ?s2 = "s\<lparr>expr := [], at_rparen := True, stack := [], numstack := nums, callers := env, lasttok := TOK_NUM\<rparr>"
    have "eval_turn m ev junk names start ?s = Continue ?s2"
      by (simp add: t operator_push_def a d Value)
    then have "eval_loop m ev junk names start ?s = eval_loop m ev junk names start ?s2"
      by (rule eval_loop_Continue)
    moreover have "eval_turn m ev junk names start ?s2 = Return (final_value m ev names nums env)"
      by (simp add: eval_turn_def final_value_def split: list.split)
    ultimately show ?thesis
      by (simp add: 1 d Value eval_loop.simps [of m ev junk names start ?s2])
  qed (simp_all add: 1 eval_loop.simps [of m ev junk names start ?s] t operator_push_def a d)
qed

lemma tok_text_shape:
  "grammatical e \<Longrightarrow> t \<in> set (toks e) \<Longrightarrow> tok_text t \<noteq> [] \<and> \<not> is_space (hd (tok_text t))"
proof -
  have num: "show_nat n \<noteq> [] \<and> \<not> is_space (hd (show_nat n))" for n
    using show_nat_digits [of n] by (cases "show_nat n") (auto simp: isdigit_def is_space_def)
  have name: "x \<noteq> [] \<and> \<not> is_space (hd x)" if "valid_name x" for x
    using that by (auto simp: valid_name_def is_name_def isalpha_def is_space_def)
  note op = op_text_shape [OF table_opsI(1)] op_text_shape [OF table_opsI(2)] op_text_shape [OF table_opsI(3)]
    op_text_shape [OF table_opsI(4)] op_text_shape [OF table_opsI(5)] op_text_shape [OF table_opsI(6)]
    op_text_shape [OF table_opsI(7)]
  show "grammatical e \<Longrightarrow> t \<in> set (toks e) \<Longrightarrow> tok_text t \<noteq> [] \<and> \<not> is_space (hd (tok_text t))"
    by (induction e) (auto simp: num name op)
qed

lemma length_print: "\<forall>t \<in> set ts. tok_text t \<noteq> [] \<Longrightarrow> 2 * length ts \<le> length (print ts)"
proof (induction ts)
  case (Cons t ts)
  then show ?case by (cases "tok_text t") simp_all
qed simp

text \<open>
  The text of a grammatical tree evaluates to what evaluating the tree operand by operand,
  operator by operator gives, with every error and every effect of it.
\<close>

lemma evaluate_print:
  assumes "grammatical e"
  shows "evaluate_string m junk (Suc fuel) names (print (toks e)) env =
    and_then (run m (evaluate_string m junk fuel) names junk e [] env)
      (final_value m (evaluate_string m junk fuel) names)"
proof -
  let ?ev = "evaluate_string m junk fuel" and ?start = "print (toks e)"
  obtain t ts where ts: "toks e = t # ts" using toks_nonempty [of e] by (cases "toks e") auto
  have shape: "\<forall>t \<in> set (toks e). tok_text t \<noteq> [] \<and> \<not> is_space (hd (tok_text t))"
    using tok_text_shape [OF assms] by blast
  have skip: "skip_whitespace ?start = ?start" and ne: "?start \<noteq> []"
    using shape by (cases "tok_text t"; simp add: ts skip_nonspace)+
  have len: "2 * length (toks e) \<le> length ?start" using shape by (intro length_print) blast
  let ?s = "eval_init ?start env"
  have ready: "ready ?start e ?s"
    using len level_pos [OF assms] by (auto simp: ready_def eval_init_def number_like_def binds_def)
  have "eval_loop m ?ev junk names ?start ?s =
      and_then (shift m ?ev names junk e [] env) (\<lambda>r env.
        eval_loop m ?ev junk names ?start (loop_state ?s (print []) (fst r @ [TOK_LPAREN]) (snd r) env (last_token e)))"
    using loop_shift [OF assms _ ready, of "[]" m ?ev junk names] by (simp add: eval_init_def)
  also have "\<dots> = and_then (shift m ?ev names junk e [] env) (\<lambda>r env.
      and_then (drain m ?ev names (fst r) (snd r) env) (final_value m ?ev names))"
  proof (rule and_then_cong [OF refl])
    fix r env' assume "shift m ?ev names junk e [] env = (Value r, env')"
    then have sh: "shifted e [] r" by (rule shift_Value) (rule assms)
    then have "TOK_LPAREN \<notin> set (fst r)" using level_pos [OF assms] by (force simp: shifted_def)
    then show "eval_loop m ?ev junk names ?start
        (loop_state ?s (print []) (fst r @ [TOK_LPAREN]) (snd r) env' (last_token e)) =
      and_then (drain m ?ev names (fst r) (snd r) env') (final_value m ?ev names)"
      using loop_end [of "loop_state ?s (print []) (fst r @ [TOK_LPAREN]) (snd r) env' (last_token e)"
          ?start "fst r" m ?ev junk names] ne last_token_number [OF assms] sh
      by (simp add: shifted_def eval_init_def)
  qed
  finally show ?thesis
    by (simp add: Let_def skip run_shift and_then_assoc split_def)
qed


section \<open>The value of a tree\<close>

text \<open>
  The operators as functions of integers; the result counts modulo \<open>2\<^sup>6\<^sup>4\<close>. Division truncates.
\<close>

definition truth :: "bool \<Rightarrow> int result" where
  "truth b = Value (if b then 1 else 0)"

fun int_op :: "operator \<Rightarrow> int \<Rightarrow> int \<Rightarrow> int result" where
  "int_op TOK_COMMA x y = Value y"
| "int_op TOK_OR x y = truth (x \<noteq> 0 \<or> y \<noteq> 0)"
| "int_op TOK_AND x y = truth (x \<noteq> 0 \<and> y \<noteq> 0)"
| "int_op TOK_BOR x y = Value (x OR y)"
| "int_op TOK_BXOR x y = Value (x XOR y)"
| "int_op TOK_BAND x y = Value (x AND y)"
| "int_op TOK_EQ x y = truth (x = y)"
| "int_op TOK_NE x y = truth (x \<noteq> y)"
| "int_op TOK_LT x y = truth (x < y)"
| "int_op TOK_GT x y = truth (x > y)"
| "int_op TOK_GE x y = truth (x \<ge> y)"
| "int_op TOK_LE x y = truth (x \<le> y)"
| "int_op TOK_LSHIFT x y = (if 0 \<le> y \<and> y < 64 then Value (x * 2 ^ nat y) else Undefined Shift_range)"
| "int_op TOK_RSHIFT x y = (if 0 \<le> y \<and> y < 64 then Value (x div 2 ^ nat y) else Undefined Shift_range)"
| "int_op TOK_ADD x y = Value (x + y)"
| "int_op TOK_SUB x y = Value (x - y)"
| "int_op TOK_MUL x y = Value (x * y)"
| "int_op TOK_DIV x y = (if y = 0 then Error ''divide by zero'' else Value (x sdiv y))"
| "int_op TOK_REM x y = (if y = 0 then Error ''divide by zero'' else Value (x smod y))"
| "int_op TOK_EXPONENT x y = (if y < 0 then Error ''exponent less than 0'' else Value (x ^ nat y))"
| "int_op op x y = Error syntax_error"

fun int_unary :: "operator \<Rightarrow> int \<Rightarrow> int" where
  "int_unary TOK_UMINUS x = - x"
| "int_unary TOK_NOT x = (if x = 0 then 1 else 0)"
| "int_unary TOK_BNOT x = - x - 1"
| "int_unary op x = x"

definition pure_binary :: "operator \<Rightarrow> bool" where
  "pure_binary op \<longleftrightarrow> is_binary op \<and> \<not> is_assign_op op"

lemma exponent_loop_power: "exponent_loop n rez c = c * rez ^ n"
  by (induction n arbitrary: c) (simp_all add: mult.assoc)

lemma sint_nat: "0 \<le> sint (w :: arith_t) \<Longrightarrow> nat (sint w) = unat w"
proof -
  assume "0 \<le> sint w"
  moreover have "sint w < 2 ^ 63" using sint_lt [of w] by simp
  ultimately have "take_bit 64 (sint w) = sint w" by (intro take_bit_int_eq_self) simp_all
  then have "uint w = sint w" using uint_sint [of w] by simp
  then show ?thesis by (metis nat_uint_eq)
qed

lemma word_of_int_bits:
  "word_of_int (sint a OR sint b) = (a OR b :: arith_t)"
  "word_of_int (sint a XOR sint b) = (a XOR b :: arith_t)"
  "word_of_int (sint a AND sint b) = (a AND b :: arith_t)"
  by (rule bit_word_eqI; auto simp: bit_or_iff bit_xor_iff bit_and_iff bit_word_of_int_iff bit_sint_iff)+

lemma sint_eq: "sint (a :: arith_t) = sint b \<longleftrightarrow> a = b"
  by (rule word_eq_iff_signed [symmetric])

lemma sint_zero: "sint (a :: arith_t) = 0 \<longleftrightarrow> a = 0"
  by (simp add: signed_eq_0_iff)

lemma double_zero: "push_bit 1 (a :: arith_t) = 0 \<Longrightarrow> - a = a"
proof (rule minus_unique)
  assume "push_bit 1 a = 0"
  then show "a + a = 0" by (simp add: push_bit_eq_mult mult_2_right)
qed

lemma binary_op_int:
  assumes "pure_binary op"
  shows "binary_op op a b = map_result word_of_int (int_op op (sint a) (sint b))"
proof -
  note g = division_guard [of b a]
  have m1: "sint a smod - 1 = 0" "sint a smod 1 = 0" "sint a sdiv 1 = sint a" "sint a sdiv - 1 = - sint a"
    by (simp_all add: signed_divide_int_def signed_modulo_int_def sgn_mult_abs)
  have "op = TOK_DIV \<or> op = TOK_REM \<or> \<not> (op = TOK_DIV \<or> op = TOK_REM)" by blast
  have div: "binary_op TOK_DIV a b = map_result word_of_int (int_op TOK_DIV (sint a) (sint b))"
  proof (cases "b = 0")
    case False
    show ?thesis
    proof (cases "b = - 1 \<and> push_bit 1 a = 0")
      case True
      then show ?thesis using g False double_zero [of a] m1 by (simp add: binary_op_def c_div_def)
    qed (use False g in \<open>auto simp: binary_op_def c_div_def sint_zero\<close>)
  qed (simp add: binary_op_def)
  have rem: "binary_op TOK_REM a b = map_result word_of_int (int_op TOK_REM (sint a) (sint b))"
  proof (cases "b = 0")
    case False
    show ?thesis
    proof (cases "b = - 1 \<and> push_bit 1 a = 0")
      case True
      then show ?thesis using g False m1 by (simp add: binary_op_def c_rem_def)
    qed (use False g in \<open>auto simp: binary_op_def c_rem_def sint_zero\<close>)
  qed (simp add: binary_op_def)
  show ?thesis using assms div rem
    by (cases op)
      (simp_all add: pure_binary_def is_binary_def is_assign_op_def fix_assignment_prec_def binary_op_def
        truth_def bool_val_def word_of_int_bits sint_eq sint_zero shift_count_def exponent_loop_power sint_nat
        push_bit_eq_mult drop_bit_eq_div)
qed

text \<open>
  The value of a tree without assignments, over the values \<open>\<rho>\<close> of its variables: both branches of
  \<open>?:\<close> are evaluated, and both operands of \<open>&&\<close> and \<open>||\<close>.
\<close>

fun bind_result :: "'a result \<Rightarrow> ('a \<Rightarrow> 'b result) \<Rightarrow> 'b result" where
  "bind_result (Value a) f = f a"
| "bind_result (Error msg) f = Error msg"
| "bind_result Longjmp f = Longjmp"
| "bind_result (Undefined x) f = Undefined x"
| "bind_result No_fuel f = No_fuel"

fun denote :: "(string \<Rightarrow> arith_t) \<Rightarrow> aexpr \<Rightarrow> arith_t result" where
  "denote \<rho> (ANum n) = Value (of_nat n)"
| "denote \<rho> (AVar x) = Value (\<rho> x)"
| "denote \<rho> (APrefix op e) =
     bind_result (denote \<rho> e) (\<lambda>v. Value (word_of_int (int_unary op (sint v))))"
| "denote \<rho> (APostfix op x) = Error syntax_error"
| "denote \<rho> (ABin op l r) =
     bind_result (denote \<rho> l) (\<lambda>a. bind_result (denote \<rho> r) (\<lambda>b.
       map_result word_of_int (int_op op (sint a) (sint b))))"
| "denote \<rho> (ACond c a b) =
     bind_result (denote \<rho> c) (\<lambda>vc. bind_result (denote \<rho> a) (\<lambda>va. bind_result (denote \<rho> b) (\<lambda>vb.
       Value (if vc \<noteq> 0 then va else vb))))"
| "denote \<rho> (AParen e) = denote \<rho> e"

fun pure :: "aexpr \<Rightarrow> bool" where
  "pure (APrefix op e) \<longleftrightarrow> \<not> is_assign_op op \<and> pure e"
| "pure (APostfix op x) \<longleftrightarrow> False"
| "pure (ABin op l r) \<longleftrightarrow> \<not> is_assign_op op \<and> pure l \<and> pure r"
| "pure (ACond c a b) \<longleftrightarrow> pure c \<and> pure a \<and> pure b"
| "pure (AParen e) \<longleftrightarrow> pure e"
| "pure e \<longleftrightarrow> True"

fun vars :: "aexpr \<Rightarrow> string set" where
  "vars (ANum n) = {}"
| "vars (AVar x) = {x}"
| "vars (APrefix op e) = vars e"
| "vars (APostfix op x) = {x}"
| "vars (ABin op l r) = vars l \<union> vars r"
| "vars (ACond c a b) = vars c \<union> vars a \<union> vars b"
| "vars (AParen e) = vars e"

text \<open>\<open>reads\<close>: the entry, a number or the name of a variable, stands for the value \<open>v\<close>.\<close>

definition reads ::
  "'e arith_state \<Rightarrow> 'e evaluator \<Rightarrow> string list \<Rightarrow> 'e \<Rightarrow> var_or_num \<Rightarrow> arith_t \<Rightarrow> bool" where
  "reads m ev names env t v \<longleftrightarrow>
     \<not> second_val_present t \<and> arith_lookup_val m ev names t env = (Value (t\<lparr>num_val := v\<rparr>), env)"

lemma reads_number [simp]: "reads m ev names env (number_entry junk n) (of_nat n)"
  by (simp add: reads_def number_entry_def arith_lookup_val_def)

lemma reads_stored [simp]:
  "reads m ev names env (t\<lparr>num_val := v, num_var := None\<rparr>) w \<longleftrightarrow> \<not> second_val_present t \<and> w = v"
  by (cases t) (auto simp: reads_def arith_lookup_val_def)

lemma store_pure:
  "\<not> is_assign_op op \<Longrightarrow>
   store_result m op t v below env = (Value (t\<lparr>num_val := v, num_var := None\<rparr> # below), env)"
  by (simp add: store_result_def)

lemma unary_op_int:
  assumes "op \<in> prefix_ops" and "\<not> is_assign_op op"
  shows "unary_op op v = Some (word_of_int (int_unary op (sint v)))"
proof -
  have "word_of_int (- sint v - 1) = (NOT v :: arith_t)"
    by (simp add: not_eq_complement)
  then show ?thesis using assms
    by (auto simp: prefix_ops_def is_assign_op_def fix_assignment_prec_def unary_op_def bool_val_def sint_zero)
qed

lemma apply_prefix:
  assumes "op \<in> prefix_ops" and "\<not> is_assign_op op" and "reads m ev names env t v"
  shows "arith_apply m ev names op (t # below) env =
    (Value (t\<lparr>num_val := word_of_int (int_unary op (sint v)), num_var := None\<rparr> # below), env)"
  using assms by (simp add: arith_apply_def reads_def unary_op_int store_pure)

lemma binary_not_unary: "is_binary op \<Longrightarrow> unary_op op v = None"
  by (auto simp: is_binary_def unary_op_def)

lemma apply_pure_binary:
  assumes "is_binary op" and "\<not> is_assign_op op"
    and r: "reads m ev names env t b" and l: "reads m ev names env u a"
  shows "arith_apply m ev names op (t # u # below) env =
    and_then (map_result word_of_int (int_op op (sint a) (sint b)), env)
      (\<lambda>v env. (Value (u\<lparr>num_val := v, num_var := None\<rparr> # below), env))"
proof -
  have op: "op \<noteq> TOK_CONDITIONAL" "op \<noteq> TOK_CONDITIONAL_SEP" "op \<noteq> TOK_ASSIGN" "pure_binary op"
    using assms(1,2) by (auto simp: is_binary_def pure_binary_def is_assign_op_def fix_assignment_prec_def)
  then show ?thesis
    using r l binary_not_unary [OF assms(1)] assms(2)
    by (simp add: arith_apply_def apply_binary_def reads_def store_pure binary_op_int cong: and_then_cong)
qed

lemma apply_conditional:
  assumes "reads m ev names env tb b" and "reads m ev names env ta a" and "reads m ev names env tc c"
  shows "and_then (arith_apply m ev names TOK_CONDITIONAL_SEP (tb # ta # tc # below) env)
      (arith_apply m ev names TOK_CONDITIONAL) =
    (Value (tc\<lparr>num_val := if c \<noteq> 0 then a else b, num_var := None\<rparr> # below), env)"
proof -
  have n: "\<not> is_assign_op TOK_CONDITIONAL" "\<not> is_assign_op TOK_CONDITIONAL_SEP"
    by (simp_all add: is_assign_op_def fix_assignment_prec_def)
  have u: "unary_op TOK_CONDITIONAL v = None" "unary_op TOK_CONDITIONAL_SEP v = None" for v
    by (simp_all add: unary_op_def)
  have l: "arith_lookup_val m ev names (t\<lparr>num_var := None\<rparr>) env = (Value (t\<lparr>num_var := None\<rparr>), env)" for t
    by (simp add: arith_lookup_val_def)
  show ?thesis
    using assms l [of "ta\<lparr>num_val := a, second_val_present := True, second_val := b\<rparr>"]
    by (simp add: arith_apply_def apply_binary_def reads_def store_pure n u arith_lookup_val_def)
qed

text \<open>
  \<open>yields\<close>: running the tree leaves one entry, that stands for the value \<open>d\<close>, or fails as \<open>d\<close> does.
\<close>

definition yields ::
  "'e arith_state \<Rightarrow> 'e evaluator \<Rightarrow> string list \<Rightarrow> arith_t \<Rightarrow> 'e \<Rightarrow> aexpr \<Rightarrow> arith_t result \<Rightarrow> bool" where
  "yields m ev names junk env e d \<longleftrightarrow>
     (\<exists>t. (\<forall>v. d = Value v \<longrightarrow> reads m ev names env t v) \<and>
        (\<forall>nums. run m ev names junk e nums env = and_then (d, env) (\<lambda>v env. (Value (t # nums), env))))"

lemma yieldsE:
  assumes "yields m ev names junk env e d"
  obtains t where "\<And>v. d = Value v \<Longrightarrow> reads m ev names env t v"
    and "\<And>nums. run m ev names junk e nums env = and_then (d, env) (\<lambda>v env. (Value (t # nums), env))"
  using assms unfolding yields_def by blast

lemma bind_result_fail: "(\<nexists>v. d = Value v) \<Longrightarrow> and_then (bind_result d f, env) g = and_then (d, env) h"
  by (cases d) simp_all

lemma yields_prefix:
  assumes "yields m ev names junk env e d" and "op \<in> prefix_ops" and "\<not> is_assign_op op"
  shows "yields m ev names junk env (APrefix op e)
    (bind_result d (\<lambda>v. Value (word_of_int (int_unary op (sint v)))))"
proof -
  obtain t where t: "\<And>v. d = Value v \<Longrightarrow> reads m ev names env t v"
    and run: "\<And>nums. run m ev names junk e nums env = and_then (d, env) (\<lambda>v env. (Value (t # nums), env))"
    using assms(1) by (rule yieldsE) blast
  show ?thesis
  proof (cases d)
    case (Value v)
    then show ?thesis
      using t [OF Value] apply_prefix [OF assms(2,3) t [OF Value]] unfolding yields_def
      by (intro exI [of _ "t\<lparr>num_val := word_of_int (int_unary op (sint v)), num_var := None\<rparr>"])
        (simp add: run reads_def arith_lookup_val_def)
  qed (simp_all add: yields_def run)
qed

lemma yields_binary:
  assumes "yields m ev names junk env l dl" and "yields m ev names junk env r dr"
    and "is_binary op" and "\<not> is_assign_op op"
  shows "yields m ev names junk env (ABin op l r) (bind_result dl (\<lambda>a. bind_result dr (\<lambda>b.
    map_result word_of_int (int_op op (sint a) (sint b)))))"
proof -
  obtain t where t: "\<And>v. dl = Value v \<Longrightarrow> reads m ev names env t v"
    and runl: "\<And>nums. run m ev names junk l nums env = and_then (dl, env) (\<lambda>v env. (Value (t # nums), env))"
    using assms(1) by (rule yieldsE) blast
  obtain u where u: "\<And>v. dr = Value v \<Longrightarrow> reads m ev names env u v"
    and runr: "\<And>nums. run m ev names junk r nums env = and_then (dr, env) (\<lambda>v env. (Value (u # nums), env))"
    using assms(2) by (rule yieldsE) blast
  show ?thesis
  proof (cases dl)
    case (Value a)
    note dl = this
    show ?thesis
    proof (cases dr)
      case (Value b)
      let ?d = "map_result word_of_int (int_op op (sint a) (sint b)) :: arith_t result"
      have "\<not> second_val_present t" using t [OF dl] by (simp add: reads_def)
      then show ?thesis
        using dl Value apply_pure_binary [OF assms(3,4) u [OF Value] t [OF dl]] unfolding yields_def
        by (intro exI [of _ "t\<lparr>num_val := (case ?d of Value v \<Rightarrow> v | _ \<Rightarrow> 0), num_var := None\<rparr>"])
          (cases ?d; simp add: runl runr)
    qed (simp_all add: yields_def runl runr dl)
  qed (simp_all add: yields_def runl)
qed

lemma yields_conditional:
  assumes "yields m ev names junk env c dc" and "yields m ev names junk env a da" and "yields m ev names junk env b db"
  shows "yields m ev names junk env (ACond c a b) (bind_result dc (\<lambda>vc. bind_result da (\<lambda>va. bind_result db (\<lambda>vb.
    Value (if vc \<noteq> 0 then va else vb)))))"
proof -
  obtain tc where tc: "\<And>v. dc = Value v \<Longrightarrow> reads m ev names env tc v"
    and runc: "\<And>nums. run m ev names junk c nums env = and_then (dc, env) (\<lambda>v env. (Value (tc # nums), env))"
    using assms(1) by (rule yieldsE) blast
  obtain ta where ta: "\<And>v. da = Value v \<Longrightarrow> reads m ev names env ta v"
    and runa: "\<And>nums. run m ev names junk a nums env = and_then (da, env) (\<lambda>v env. (Value (ta # nums), env))"
    using assms(2) by (rule yieldsE) blast
  obtain tb where tb: "\<And>v. db = Value v \<Longrightarrow> reads m ev names env tb v"
    and runb: "\<And>nums. run m ev names junk b nums env = and_then (db, env) (\<lambda>v env. (Value (tb # nums), env))"
    using assms(3) by (rule yieldsE) blast
  show ?thesis
  proof (cases "\<exists>vc va vb. dc = Value vc \<and> da = Value va \<and> db = Value vb")
    case True
    then obtain vc va vb where v: "dc = Value vc" "da = Value va" "db = Value vb" by blast
    have "\<not> second_val_present tc" using tc [OF v(1)] by (simp add: reads_def)
    then show ?thesis
      using v apply_conditional [OF tb [OF v(3)] ta [OF v(2)] tc [OF v(1)]] unfolding yields_def
      by (intro exI [of _ "tc\<lparr>num_val := if vc \<noteq> 0 then va else vb, num_var := None\<rparr>"])
        (simp add: runa runb runc)
  next
    case False
    then show ?thesis
      by (cases dc; cases da; cases db) (simp_all add: yields_def runa runb runc)
  qed
qed

lemma run_denote:
  "grammatical e \<Longrightarrow> pure e \<Longrightarrow> (\<And>x. x \<in> vars e \<Longrightarrow> reads m ev names env (name_entry junk x) (\<rho> x)) \<Longrightarrow>
   yields m ev names junk env e (denote \<rho> e)"
proof (induction e)
  case (ANum n)
  show ?case unfolding yields_def by (intro exI [of _ "number_entry junk n"]) simp
next
  case (AVar x)
  then show ?case unfolding yields_def by (intro exI [of _ "name_entry junk x"]) simp
next
  case (AParen e)
  then show ?case by (simp add: yields_def)
qed (simp_all add: yields_prefix yields_binary yields_conditional)

text \<open>
  A variable that is unset reads as 0, one that is set as the value of its text.
\<close>

definition var_value :: "'e arith_state \<Rightarrow> 'e evaluator \<Rightarrow> string list \<Rightarrow> 'e \<Rightarrow> string \<Rightarrow> arith_t \<Rightarrow> bool" where
  "var_value m ev names env x v \<longleftrightarrow>
     (case lookupvar m x env of
        (None, env') \<Rightarrow> v = 0 \<and> env' = env
      | (Some p, env') \<Rightarrow> x \<notin> set names \<and> ev (x # names) p env' = (Value v, env))"

lemma reads_name: "var_value m ev names env x v \<Longrightarrow> reads m ev names env (name_entry junk x) v"
  by (auto simp: var_value_def reads_def name_entry_def arith_lookup_val_def split: option.splits prod.splits)

lemma evaluate_denote:
  assumes "grammatical e" and "pure e"
    and "\<And>x. x \<in> vars e \<Longrightarrow> var_value m (evaluate_string m junk fuel) names env x (\<rho> x)"
  shows "evaluate_string m junk (Suc fuel) names (print (toks e)) env = (denote \<rho> e, env)"
proof -
  let ?ev = "evaluate_string m junk fuel"
  have "yields m ?ev names junk env e (denote \<rho> e)"
    using assms by (intro run_denote) (auto intro: reads_name)
  then obtain t where t: "\<And>v. denote \<rho> e = Value v \<Longrightarrow> reads m ?ev names env t v"
    and run: "\<And>nums. run m ?ev names junk e nums env =
      and_then (denote \<rho> e, env) (\<lambda>v env. (Value (t # nums), env))"
    by (rule yieldsE) blast
  show ?thesis
    unfolding evaluate_print [OF assms(1)] run
    using t by (cases "denote \<rho> e") (simp_all add: final_value_def reads_def)
qed

section \<open>Decimal texts\<close>

lemma find_minus:
  assumes "isdigit c" and "lasttok s \<noteq> TOK_NUM"
  shows "find_operator s (CHR ''-'' # c # cs) = Value (TOK_SUB, c # cs)"
proof -
  have "c \<noteq> CHR ''='' \<and> c \<noteq> CHR ''-''" using assms(1) by (auto simp: isdigit_def)
  then show ?thesis using assms(2) by (auto simp: find_operator_def op_tokens_def)
qed

lemma evaluate_number:
  assumes "expr s = show_nat n" and "n < 2 ^ 64" and "\<not> at_rparen s" and "start \<noteq> []"
    and "numstack s = []" and "stack s = ops @ [TOK_LPAREN]" and "TOK_LPAREN \<notin> set ops"
  shows "eval_loop m ev junk names start s =
    and_then (drain m ev names ops [number_entry junk n] (callers s)) (final_value m ev names)"
proof -
  have "0 < length start" using assms(4) by simp
  then have "eval_turn m ev junk names start s = Continue
      (s\<lparr>expr := [], numstack := number_entry junk n # numstack s, lasttok := TOK_NUM\<rparr>)"
    using assms by (intro eval_turn_number) simp_all
  then have "eval_loop m ev junk names start s = eval_loop m ev junk names start
      (s\<lparr>expr := [], numstack := [number_entry junk n], lasttok := TOK_NUM\<rparr>)"
    using assms(5) by (simp add: eval_loop_Continue)
  also have "\<dots> = and_then (drain m ev names ops [number_entry junk n] (callers s)) (final_value m ev names)"
    using assms loop_end [of "s\<lparr>expr := [], numstack := [number_entry junk n], lasttok := TOK_NUM\<rparr>"
        start ops m ev junk names] by (simp add: number_like_def)
  finally show ?thesis .
qed

lemma skip_show_nat: "skip_whitespace (show_nat n) = show_nat n"
  using show_nat_digits [of n]
  by (cases "show_nat n") (auto simp: skip_whitespace_def isdigit_def is_space_def)

lemma final_number:
  "num_var t = None \<Longrightarrow> final_value m ev names [t] env = (Value (num_val t), env)"
  by (simp add: final_value_def arith_lookup_val_def)

lemma evaluate_decimal: "evaluate_string m junk (Suc fuel) names (fmt_lld w) env = (Value w, env)"
proof (cases "sint w < 0")
  case False
  define n where "n = nat (sint w)"
  have n: "n = unat w" unfolding n_def using False by (intro sint_nat) simp
  have n64: "n < 2 ^ 64" unfolding n using unsigned_less [of w] by simp
  have shown: "fmt_lld w = show_nat n" using False by (simp add: fmt_lld_def n_def)
  have "show_nat n \<noteq> []" using show_nat_digits [of n] by simp
  then have "eval_loop m (evaluate_string m junk fuel) junk names (show_nat n) (eval_init (show_nat n) env) =
      (Value (of_nat n), env)"
    using n64 evaluate_number [of "eval_init (show_nat n) env" n "show_nat n" "[]" m "evaluate_string m junk fuel" junk names]
    by (simp add: eval_init_def final_number number_entry_def)
  moreover have "of_nat n = w" by (simp add: n)
  ultimately show ?thesis by (simp add: shown skip_show_nat Let_def)
next
  case True
  define n where "n = nat (- sint w)"
  let ?start = "CHR ''-'' # show_nat n" and ?ev = "evaluate_string m junk fuel"
  have w: "- (of_nat n :: arith_t) = w"
  proof -
    have "int n = - sint w" using True by (simp add: n_def)
    then have "(word_of_int (int n) :: arith_t) = word_of_int (- sint w)" by (simp only:)
    then show ?thesis by simp
  qed
  have "- (2 ^ 63) \<le> sint w" using sint_greater_eq [of w] by simp
  then have n64: "n < 2 ^ 64" by (simp add: n_def)
  obtain c cs where d: "show_nat n = c # cs" "isdigit c"
    using show_nat_digits [of n] by (cases "show_nat n") auto
  let ?s = "eval_init ?start env"
  let ?s1 = "?s\<lparr>expr := show_nat n, stack := [TOK_UMINUS, TOK_LPAREN], lasttok := TOK_UMINUS\<rparr>"
  have sk: "skip_whitespace ?start = ?start" by (simp add: skip_whitespace_def is_space_def)
  have "endofname (CHR ''-'' # c # cs) = ([], CHR ''-'' # c # cs)" "\<not> isdigit (CHR ''-'')"
    by (simp_all add: endofname_def is_name_def isalpha_def isdigit_def)
  then have "eval_turn m ?ev junk names ?start ?s = Continue ?s1"
    using find_minus [OF d(2), of ?s cs] sk
    by (simp add: eval_turn_def eval_init_def d(1) operator_found_def operator_push_def push_op_def)
  then have "eval_loop m ?ev junk names ?start ?s = eval_loop m ?ev junk names ?start ?s1"
    by (rule eval_loop_Continue)
  also have "\<dots> = and_then (arith_apply m ?ev names TOK_UMINUS [number_entry junk n] env) (final_value m ?ev names)"
    using n64 evaluate_number [of ?s1 n ?start "[TOK_UMINUS]" m ?ev junk names]
    by (simp add: eval_init_def drain_Nil)
  also have "\<dots> = (Value w, env)"
    using apply_prefix [OF _ _ reads_number, where op = TOK_UMINUS and m = m and ev = ?ev and names = names and below = "[]"] w
    by (simp add: prefix_ops_def is_assign_op_def fix_assignment_prec_def final_number number_entry_def)
  finally have e: "eval_loop m ?ev junk names ?start ?s = (Value w, env)" .
  have "fmt_lld w = ?start" using True by (simp add: fmt_lld_def n_def)
  with e sk show ?thesis by (simp add: Let_def)
qed

lemma show_nat_length: "n < 10 ^ k \<Longrightarrow> 0 < k \<Longrightarrow> length (show_nat n) \<le> k"
proof (induction n arbitrary: k rule: show_nat.induct)
  case (1 n)
  show ?case
  proof (cases "n < 10")
    case True
    with 1 show ?thesis by (subst show_nat.simps) simp
  next
    case False
    then obtain k' where k: "k = Suc k'" "0 < k'" using 1(2) by (cases k; cases "k - 1") auto
    then have "n div 10 < 10 ^ k'" using 1(2) by (simp add: div_less_iff_less_mult mult.commute)
    from 1(1) [OF False this k(2)] show ?thesis using False k by (subst show_nat.simps) simp
  qed
qed

lemma fmt_lld_length: "length (fmt_lld w) \<le> 20"
proof -
  have "- (2 ^ 63) \<le> sint w" "sint w < 2 ^ 63" using sint_greater_eq [of w] sint_lt [of w] by simp_all
  then have "nat (- sint w) < 10 ^ 19" "nat (sint w) < 10 ^ 19" by simp_all
  then show ?thesis
    using show_nat_length [of "nat (- sint w)" 19] show_nat_length [of "nat (sint w)" 19] by (simp add: fmt_lld_def)
qed

text \<open>The definitions that the simplifier evaluates on a text given in full.\<close>

lemmas eval_concrete = arith_def Let_def skip_whitespace_def is_space_def eval_init_def eval_loop.simps
  eval_turn_def endofname_def is_name_def is_in_name_def isalpha_def isdigit_def strto_arith_t_def strtoull_def
  strtoull_base_def digit_value_def digits_value_def push_num_def find_operator_def op_tokens_def
  operator_found_def operator_push_def push_op_def apply_stack_Cons binds_def op_level_def fix_assignment_prec_def
  arith_apply_def unary_op_def apply_binary_def arith_lookup_val_def store_result_def is_assign_op_def
  base_digit_def

end
