(* ===== verification/ShellArith.thy ===== *)
theory ShellArith
  imports ShellGrammar
begin

text \<open>
  What \<^verbatim>\<open>shell/math.c\<close> promises and where it falls short: the evaluator against the grammar, the
  faults it can have, the texts it stores, and the malformed texts it accepts. The witnesses
  run the model on a store that is a map from names to texts.
\<close>

definition map_store :: "(string \<rightharpoonup> string) arith_state" where
  "map_store = \<lparr>lookupvar = (\<lambda>x e. (e x, e)), setvar = (\<lambda>x t e. Some (e(x \<mapsto> t)))\<rparr>"

lemma map_store_simps [simp]:
  "lookupvar map_store x e = (e x, e)" "setvar map_store x t e = Some (e(x \<mapsto> t))"
  by (simp_all add: map_store_def)

section \<open>The evaluator and the grammar\<close>

text \<open>C3: Without assignments, the text of a grammatical tree evaluates to the tree's value: the
  integer arithmetic of the operators modulo \<open>2\<^sup>6\<^sup>4\<close>, with the shell's error for a zero divisor or
  a negative exponent. Nothing is stored.\<close>

theorem arith_denotes:
  assumes "grammatical e" and "pure e"
    and "\<And>x. x \<in> vars e \<Longrightarrow> var_value m (evaluate_string m junk fuel) [] env x (\<rho> x)"
  shows "arith m junk (Suc fuel) (print (toks e)) env = (denote \<rho> e, env)"
  unfolding arith_def by (rule evaluate_denote [OF assms])

definition sample_tree :: aexpr where
  "sample_tree = ABin TOK_SUB (ABin TOK_SUB (ANum 2) (APrefix TOK_UMINUS (AVar ''x'')))
     (ABin TOK_EXPONENT (ANum 2) (ABin TOK_EXPONENT (ANum 3) (ANum 2)))"

lemma sample_tree_ok: "grammatical sample_tree \<and> pure sample_tree"
  by (simp add: sample_tree_def is_binary_def op_level_def fix_assignment_prec_def is_right_associative_def
      prefix_ops_def valid_name_def is_name_def is_in_name_def isalpha_def is_assign_op_def)

lemma show_nat_5: "show_nat 5 = ''5''"
  by (simp add: show_nat.simps char_of_def bit_iff_odd)

lemma sample_variable:
  "x \<in> vars sample_tree \<Longrightarrow>
   var_value map_store (evaluate_string map_store junk (Suc fuel)) [] [''x'' \<mapsto> ''5''] x 5"
proof -
  assume "x \<in> vars sample_tree"
  then have x: "x = ''x''" by (simp add: sample_tree_def)
  have "fmt_lld 5 = ''5''" by (simp add: fmt_lld_def show_nat_5)
  then show ?thesis
    using evaluate_decimal [of map_store junk fuel "[''x'']" 5 "[''x'' \<mapsto> ''5'']"] by (simp add: x var_value_def)
qed

theorem arith_denotes_witness:
  "arith map_store 0 2 (print (toks sample_tree)) [''x'' \<mapsto> ''5''] =
   (denote (\<lambda>_. 5) sample_tree, [''x'' \<mapsto> ''5'']) \<and> denote (\<lambda>_. 5) sample_tree = Value (- 505)"
proof -
  have d: "denote (\<lambda>_. 5) sample_tree = Value (- 505)" by (simp add: sample_tree_def)
  have "\<And>x. x \<in> vars sample_tree \<Longrightarrow>
      var_value map_store (evaluate_string map_store 0 1) [] [''x'' \<mapsto> ''5''] x 5"
    using sample_variable [of _ 0 0] by simp
  from arith_denotes [OF conjunct1 [OF sample_tree_ok] conjunct2 [OF sample_tree_ok], of map_store 0 1, OF this]
  show ?thesis by (simp add: d numeral_2_eq_2)
qed

text \<open>C4: With assignments and increments too, evaluating the text of a grammatical tree is the
  left-to-right, operands-first evaluation of the tree: the operator stack and the table of
  precedences change neither the order of the effects nor the first error.\<close>

theorem arith_follows_grammar:
  assumes "grammatical e"
  shows "arith m junk (Suc fuel) (print (toks e)) env =
    and_then (run m (evaluate_string m junk fuel) [] junk e [] env)
      (final_value m (evaluate_string m junk fuel) [])"
  unfolding arith_def by (rule evaluate_print [OF assms])

theorem arith_follows_grammar_witness:
  "arith map_store 0 1 (print (toks (ABin TOK_ASSIGN (AVar ''x'') (ABin TOK_ADD (ANum 1) (ANum 4))))) Map.empty =
   (Value 5, [''x'' \<mapsto> ''5''])"
proof -
  let ?e = "ABin TOK_ASSIGN (AVar ''x'') (ABin TOK_ADD (ANum 1) (ANum 4))"
  have g: "grammatical ?e"
    by (simp add: is_binary_def op_level_def fix_assignment_prec_def is_right_associative_def
        valid_name_def is_name_def is_in_name_def isalpha_def)
  have r: "run map_store (evaluate_string map_store 0 0) [] 0 ?e [] Map.empty =
      (Value [(name_entry 0 ''x'')\<lparr>num_val := 5, num_var := None\<rparr>], [''x'' \<mapsto> ''5''])"
    by (simp add: arith_apply_def arith_lookup_val_def number_entry_def name_entry_def unary_op_def
        apply_binary_def binary_op_def store_result_def is_assign_op_def fix_assignment_prec_def fmt_lld_def show_nat_5)
  have "arith map_store 0 (Suc 0) (print (toks ?e)) Map.empty =
      and_then (run map_store (evaluate_string map_store 0 0) [] 0 ?e [] Map.empty)
        (final_value map_store (evaluate_string map_store 0 0) [])"
    by (rule arith_follows_grammar [OF g])
  then show ?thesis
    unfolding r and_then.simps by (simp add: final_value_def arith_lookup_val_def name_entry_def)
qed

section \<open>Faults\<close>

text \<open>C7: On any text, any store and any allocation, an evaluation never executes a trapping
  division, never reads below the numbers on the stack and never overruns the operator stack: what
  C leaves undefined is met only as a shift by a count outside 0 to 63, or a push on a full
  number stack.\<close>

theorem arith_faults:
  assumes "arith m junk fuel e env = (Undefined x, env')"
  shows "x = Numstack_overflow \<or> x = Shift_range"
  using evaluate_string_tolerable [of m junk fuel "[]" e env] assms by (simp add: arith_def)

theorem arith_faults_witness:
  "arith map_store 0 1 ''1<<64'' Map.empty = (Undefined Shift_range, Map.empty) \<and>
   (Shift_range = Numstack_overflow \<or> Shift_range = Shift_range)"
proof -
  have "arith map_store 0 1 ''1<<64'' Map.empty = (Undefined Shift_range, Map.empty)"
    by (simp add: eval_concrete binary_op_def shift_count_def)
  from this arith_faults [OF this] show ?thesis by (rule conjI)
qed

text \<open>The number stack is allocated for one number in two characters, but \<open>08a\<close> is three
  numbers in three characters (\<open>0\<close>, then \<open>8\<close>, then the name): the third is stored past the end of
  the allocation.\<close>

theorem arith_overruns_numstack:
  "fst (arith m junk (Suc fuel) ''08a'' env) = Undefined Numstack_overflow"
  by (simp add: eval_concrete)

text \<open>Malformed texts are accepted: an open paren that is never closed (\<open>(1\<close> is 1), and a
  base whose digits are missing or out of its range (\<open>16#@\<close> is the value the wrapped digit gives).\<close>

theorem arith_accepts_malformed:
  "fst (arith m junk (Suc fuel) ''(1'' env) = Value 1 \<and> fst (arith m junk (Suc fuel) ''16#@'' env) = Value 9"
  by (simp add: eval_concrete base_loop.simps)

text \<open>A conditional nested in the middle of a conditional, which C's grammar accepts, is refused.\<close>

theorem arith_refuses_nested_conditional:
  "fst (arith m junk (Suc fuel) ''1?1?2:3:4'' env) = Error malformed"
  by (simp add: eval_concrete is_right_associative_def)

text \<open>Both branches of a conditional are evaluated, whichever is chosen: the assignment in the
  branch that is not taken is stored.\<close>

theorem arith_evaluates_both_branches:
  "arith map_store junk (Suc fuel) ''0?(z=1):4'' env = (Value 4, env(''z'' \<mapsto> ''1''))"
  by (simp add: eval_concrete is_right_associative_def binary_op_def fmt_lld_def show_nat.simps char_of_def bit_iff_odd)

section \<open>Texts and codes\<close>

text \<open>The decimal text that an assignment stores evaluates to the value assigned, for each of
  the \<open>2\<^sup>6\<^sup>4\<close> values, the least one included, and with its NUL it fits the 26 bytes of the buffer
  it is printed to.\<close>

theorem arith_decimal_roundtrip:
  "arith m junk (Suc fuel) (fmt_lld w) env = (Value w, env) \<and> length (fmt_lld w) + 1 \<le> 8 * 3 + 2"
  using evaluate_decimal [of m junk fuel "[]" w env] fmt_lld_length [of w] by (simp add: arith_def)

end
