(* ===== verification/ShellVars.thy ===== *)
theory ShellVars
  imports ShellGrammar
begin

text \<open>
  The variables of the shell, \<^verbatim>\<open>shell/ash.c\<close>: the hash table of \<open>name=value\<close> texts, its lookup and
  update with flags and callbacks, the dynamic variables, the generator behind \<^verbatim>\<open>RANDOM\<close>
  (\<^verbatim>\<open>shell/random.c\<close>) and the saving and restoring of local variables. A bucket is the list its
  links form. An error that the C code raises with \<^verbatim>\<open>longjmp\<close> is \<open>Inl\<close>; memory management is not
  modelled. A structure of \<^verbatim>\<open>varinit\<close> has its index as identity, one of the heap none.
\<close>

section \<open>State\<close>

datatype vflag = VEXPORT | VREADONLY | VSTRFIXED | VTEXTFIXED | VSTACK | VUNSET | VNOFUNC | VNOSET
  | VNOSAVE | VDYNAMIC

datatype vfunc = Changemail | Changepath | Getoptsreset | Change_random | Change_seconds | Change_realtime

text \<open>\<open>Linenovar\<close> is the pointer to the buffer of that name; another text is given by its characters.\<close>

datatype vtext = Linenovar | Text string

record var =
  v_id :: "nat option"
  v_flags :: "vflag set"
  v_text :: vtext
  v_func :: "vfunc option"

record random_t =
  galois_LFSR :: u32
  LCG :: u32
  xs64_x :: u32
  xs64_y :: u32

datatype cmdtype = CMDUNKNOWN | CMDNORMAL | CMDFUNCTION | CMDBUILTIN

record tblentry =
  cmdname :: string
  cmdtype_of :: cmdtype
  builtin_regular :: bool

text \<open>
  A saved variable: \<open>None\<close> for the structure is the saved \<^verbatim>\<open>$-\<close>, whose text is then the option
  string; otherwise the structure is the one of that name in the table.
\<close>

record localvar =
  lv_vp :: "string option"
  lv_flags :: "vflag set"
  lv_text :: vtext

record shell =
  vartab :: "var list list"
  aflag :: bool
  lineno :: u32
  linenovar :: string
  optind :: u32
  optoff :: u32
  mail_var_path_changed :: bool
  random_gen :: random_t
  pid :: u32
  monotonic_us :: u32
  timeval :: "u64 \<times> u32"
  builtinloc :: int
  cmdtable :: "tblentry list list"
  optlist :: string
  localvar_stack :: "localvar list list"

datatype sherror = Read_only string | Bad_name string | Not_in_function | Generator_stuck

definition VTABSIZE :: nat where "VTABSIZE = 39"

section \<open>Names\<close>

definition var_name :: "string \<Rightarrow> string" where
  "var_name s = takeWhile (\<lambda>c. c \<noteq> CHR ''='') s"

definition var_end :: "string \<Rightarrow> string" where
  "var_end s = tl (dropWhile (\<lambda>c. c \<noteq> CHR ''='') s)"

text \<open>A text ends with its NUL, so the end of the list reads as 0.\<close>

fun varcmp :: "string \<Rightarrow> string \<Rightarrow> int" where
  "varcmp (c # p) (d # q) =
     (if c = d then (if c = CHR ''='' then 0 else varcmp p q)
      else (if c = CHR ''='' then 0 else int (code c)) - (if d = CHR ''='' then 0 else int (code d)))"
| "varcmp [] [] = 0"
| "varcmp (c # p) [] = (if c = CHR ''='' then 0 else int (code c))"
| "varcmp [] (d # q) = - (if d = CHR ''='' then 0 else int (code d))"

definition hashvar :: "string \<Rightarrow> nat" where
  "hashvar p =
     unat (foldl (\<lambda>h c. h + of_nat (code c)) (case p of [] \<Rightarrow> 0 | c # _ \<Rightarrow> push_bit 4 (of_nat (code c) :: u32)) (var_name p))
     mod VTABSIZE"

definition text_of :: "shell \<Rightarrow> vtext \<Rightarrow> string" where
  "text_of sh t = (case t of Linenovar \<Rightarrow> linenovar sh | Text s \<Rightarrow> s)"

text \<open>The slot \<^verbatim>\<open>findvar\<close> returns, as an index into the bucket; the last slot is empty.\<close>

fun findvar :: "shell \<Rightarrow> var list \<Rightarrow> string \<Rightarrow> nat" where
  "findvar sh [] name = 0"
| "findvar sh (v # vs) name =
     (if varcmp (text_of sh (v_text v)) name = 0 then 0 else Suc (findvar sh vs name))"

section \<open>Callbacks\<close>

fun is_number :: "string \<Rightarrow> bool" where
  "is_number s = (s \<noteq> [] \<and> list_all isdigit s)"

text \<open>\<^verbatim>\<open>atoi\<close> of digits: \<^verbatim>\<open>strtol\<close> saturates, the conversion to \<^verbatim>\<open>int\<close> keeps the low 32 bits.\<close>

definition number :: "string \<Rightarrow> u32" where
  "number s = (let n = digits_value 10 s in if n < 2 ^ 63 then of_nat n else - 1)"

definition getoptsreset :: "string \<Rightarrow> shell \<Rightarrow> shell" where
  "getoptsreset value sh =
     sh\<lparr>optind := (if is_number value \<and> number value \<noteq> 0 then number value else 1), optoff := - 1\<rparr>"

definition changemail :: "string \<Rightarrow> shell \<Rightarrow> shell" where
  "changemail value sh = sh\<lparr>mail_var_path_changed := True\<rparr>"

definition keep_cmdentry :: "int \<Rightarrow> tblentry \<Rightarrow> bool" where
  "keep_cmdentry loc cmdp \<longleftrightarrow>
     \<not> (cmdtype_of cmdp = CMDNORMAL \<or> (cmdtype_of cmdp = CMDBUILTIN \<and> \<not> builtin_regular cmdp \<and> loc > 0))"

definition clearcmdentry :: "shell \<Rightarrow> shell" where
  "clearcmdentry sh = sh\<lparr>cmdtable := map (filter (keep_cmdentry (builtinloc sh))) (cmdtable sh)\<rparr>"

text \<open>The search for a \<open>%builtin\<close> entry of the path, \<open>- 1\<close> when there is none.\<close>

fun find_builtin :: "string \<Rightarrow> int \<Rightarrow> bool \<Rightarrow> int" where
  "find_builtin [] idx start = - 1"
| "find_builtin (c # s) idx start =
     (if start \<and> c = CHR ''%'' \<and> take 7 s = ''builtin'' then idx
      else if c = CHR '':'' then find_builtin s (idx + 1) True
      else find_builtin s idx False)"

definition changepath :: "string \<Rightarrow> shell \<Rightarrow> shell" where
  "changepath newval sh = clearcmdentry (sh\<lparr>builtinloc := find_builtin newval 0 True\<rparr>)"

text \<open>\<^verbatim>\<open>strtoul(value, NULL, 10)\<close>, of which 32 bits are kept.\<close>

definition strtoul10 :: "string \<Rightarrow> u64" where
  "strtoul10 s =
     (let s = skip_whitespace s;
          neg = (s \<noteq> [] \<and> hd s = CHR ''-'');
          s = (if s \<noteq> [] \<and> (hd s = CHR ''-'' \<or> hd s = CHR ''+'') then tl s else s);
          n = digits_value 10 (takeWhile isdigit s)
      in if 2 ^ 64 \<le> n then - 1 else if neg then - of_nat n else of_nat n)"

definition init_random_t :: "u32 \<Rightarrow> u32 \<Rightarrow> random_t" where
  "init_random_t nonzero v = \<lparr>galois_LFSR = nonzero, LCG = v, xs64_x = nonzero, xs64_y = v\<rparr>"

definition seed_random :: "string \<Rightarrow> shell \<Rightarrow> shell" where
  "seed_random value sh =
     (let t = ucast (strtoul10 value) :: u32
      in sh\<lparr>random_gen := init_random_t (if t \<noteq> 0 then t else 1) t\<rparr>)"

text \<open>One turn of the xorshift generator; \<^verbatim>\<open>goto again\<close> repeats it.\<close>

definition xorshift :: "u32 \<times> u32 \<Rightarrow> u32 \<times> u32" where
  "xorshift = (\<lambda>(x, y).
     let t = x XOR push_bit 2 x in (y, y XOR drop_bit 3 y XOR t XOR drop_bit 7 t))"

definition again :: "u32 \<times> u32 \<Rightarrow> bool" where
  "again = (\<lambda>(x, y). y = 0 \<and> x \<le> 2)"

fun xs_loop :: "nat \<Rightarrow> u32 \<times> u32 \<Rightarrow> (u32 \<times> u32) option" where
  "xs_loop fuel s =
     (let s = xorshift s
      in if again s then (case fuel of 0 \<Rightarrow> None | Suc fuel \<Rightarrow> xs_loop fuel s) else Some s)"

declare xs_loop.simps [simp del]

definition next_random :: "u32 \<Rightarrow> u32 \<Rightarrow> random_t \<Rightarrow> (u32 \<times> random_t) option" where
  "next_random getpid us rnd =
     (let rnd = (if galois_LFSR rnd = 0 then init_random_t getpid us else rnd);
          lcg = 1664525 * LCG rnd + 1013904223;
          t = push_bit 1 (galois_LFSR rnd);
          g = (if sint (galois_LFSR rnd) < 0 then t XOR 0x8000000b else t)
      in case xs_loop 1 (xs64_x rnd, xs64_y rnd) of
           None \<Rightarrow> None
         | Some (x, y) \<Rightarrow> Some ((g - lcg + y) AND 0x7fff, \<lparr>galois_LFSR = g, LCG = lcg, xs64_x = x, xs64_y = y\<rparr>))"

section \<open>Setting variables\<close>

definition set_bucket :: "nat \<Rightarrow> var list \<Rightarrow> shell \<Rightarrow> shell" where
  "set_bucket h vs sh = sh\<lparr>vartab := (vartab sh)[h := vs]\<rparr>"

text \<open>
  \<open>setvareq\<close> in three steps: the checks and the callback on a variable that exists, its update or
  removal, and the new variable. The callback is an argument, since one of them sets a variable
  itself, with \<^verbatim>\<open>VNOFUNC\<close>; it keeps the structures where they are.
\<close>

definition update_var :: "nat \<Rightarrow> nat \<Rightarrow> string \<Rightarrow> vflag set \<Rightarrow> shell \<Rightarrow> shell" where
  "update_var h k s flags sh =
     (let bucket = vartab sh ! h; vp = bucket ! k
      in if (flags \<inter> {VEXPORT, VREADONLY, VSTRFIXED, VUNSET}) \<union> (v_flags vp \<inter> {VSTRFIXED}) = {VUNSET}
         then set_bucket h (take k bucket @ drop (Suc k) bucket) sh
         else (let flags = flags \<union> (v_flags vp - {VTEXTFIXED, VSTACK, VNOSAVE, VUNSET});
                   flags = (if VUNSET \<in> flags then flags - {VDYNAMIC} else flags)
               in set_bucket h (bucket[k := vp\<lparr>v_text := Text s, v_flags := flags\<rparr>]) sh))"

definition create_var :: "nat \<Rightarrow> string \<Rightarrow> vflag set \<Rightarrow> shell \<Rightarrow> shell" where
  "create_var h s flags sh =
     (if VNOSET \<in> flags then sh
      else if flags \<inter> {VEXPORT, VREADONLY, VSTRFIXED, VUNSET} = {VUNSET} then sh
      else set_bucket h (vartab sh ! h @ [\<lparr>v_id = None, v_flags = flags, v_text = Text s, v_func = None\<rparr>]) sh)"

definition setvareq_with ::
  "(vfunc \<Rightarrow> string \<Rightarrow> shell \<Rightarrow> sherror + shell) \<Rightarrow> string \<Rightarrow> vflag set \<Rightarrow> shell \<Rightarrow> sherror + shell" where
  "setvareq_with call s flags sh =
     (let h = hashvar s;
          flags = (if aflag sh then flags \<union> {VEXPORT} else flags);
          bucket = vartab sh ! h;
          k = findvar sh bucket s
      in if k < length bucket then
           (let vp = bucket ! k
            in if v_flags vp \<inter> {VREADONLY, VDYNAMIC} = {VREADONLY} then Inl (Read_only (var_name (text_of sh (v_text vp))))
               else if VNOSET \<in> flags then Inr sh
               else (case (case v_func vp of
                          Some f \<Rightarrow> if VNOFUNC \<in> flags then Inr sh else call f (var_end s) sh
                        | None \<Rightarrow> Inr sh) of
                   Inl e \<Rightarrow> Inl e
                 | Inr sh \<Rightarrow> Inr (update_var h k s flags sh)))
         else Inr (create_var h s flags sh))"

definition setvar_with ::
  "(vfunc \<Rightarrow> string \<Rightarrow> shell \<Rightarrow> sherror + shell) \<Rightarrow> string \<Rightarrow> string option \<Rightarrow> vflag set \<Rightarrow> shell \<Rightarrow> sherror + shell" where
  "setvar_with call name val flags sh =
     (let (n, q) = endofname name
      in if n = [] \<and> (q = [] \<or> hd q = CHR ''='') \<or> (q \<noteq> [] \<and> hd q \<noteq> CHR ''='')
         then Inl (Bad_name (var_name name))
         else (case val of
             None \<Rightarrow> setvareq_with call n (flags \<union> {VUNSET, VNOSAVE}) sh
           | Some v \<Rightarrow> setvareq_with call (n @ ''='' @ v) (flags \<union> {VNOSAVE}) sh))"

section \<open>Dynamic variables\<close>

text \<open>The structures of \<^verbatim>\<open>varinit\<close> are found by their index.\<close>

definition vrandom :: nat where "vrandom = 9"
definition vlineno :: nat where "vlineno = 8"
definition vepochs :: nat where "vepochs = 10"
definition vepochr :: nat where "vepochr = 11"

definition varinit_text :: "nat \<Rightarrow> shell \<Rightarrow> string" where
  "varinit_text i sh =
     (case find (\<lambda>v. v_id v = Some i) (concat (vartab sh)) of
        Some v \<Rightarrow> text_of sh (v_text v) | None \<Rightarrow> [])"

definition clear_nofunc :: "nat \<Rightarrow> shell \<Rightarrow> shell" where
  "clear_nofunc i sh = sh\<lparr>vartab :=
     map (map (\<lambda>v. if v_id v = Some i then v\<lparr>v_flags := v_flags v - {VNOFUNC}\<rparr> else v)) (vartab sh)\<rparr>"

text \<open>No callback runs in an assignment with \<^verbatim>\<open>VNOFUNC\<close>.\<close>

definition set_dynamic :: "nat \<Rightarrow> string \<Rightarrow> shell \<Rightarrow> sherror + shell" where
  "set_dynamic i val sh =
     map_sum id (clear_nofunc i)
       (setvar_with (\<lambda>f value sh. Inr sh) (varinit_text i sh) (Some val) {VNOFUNC} sh)"

definition pad6 :: "string \<Rightarrow> string" where
  "pad6 s = replicate (6 - length s) CHR ''0'' @ s"

definition change_seconds :: "shell \<Rightarrow> sherror + shell" where
  "change_seconds sh = set_dynamic vepochs (show_nat (unat (fst (timeval sh)))) sh"

definition change_realtime :: "shell \<Rightarrow> sherror + shell" where
  "change_realtime sh =
     set_dynamic vepochr (show_nat (unat (fst (timeval sh))) @ ''.'' @ pad6 (show_nat (unat (snd (timeval sh))))) sh"

definition change_random :: "string option \<Rightarrow> shell \<Rightarrow> sherror + shell" where
  "change_random value sh =
     (case value of
        None \<Rightarrow>
          (case next_random (pid sh) (monotonic_us sh) (random_gen sh) of
             None \<Rightarrow> Inl Generator_stuck
           | Some (t, rnd) \<Rightarrow> set_dynamic vrandom (show_nat (unat t)) (sh\<lparr>random_gen := rnd\<rparr>))
      | Some v \<Rightarrow> Inr (seed_random v sh))"

text \<open>
  The callback of a variable on its new text; the three others are never called without a
  text, since their variables are not dynamic.
\<close>

fun var_func :: "vfunc \<Rightarrow> string \<Rightarrow> shell \<Rightarrow> sherror + shell" where
  "var_func Changemail value sh = Inr (changemail value sh)"
| "var_func Changepath value sh = Inr (changepath value sh)"
| "var_func Getoptsreset value sh = Inr (getoptsreset value sh)"
| "var_func Change_random value sh = change_random (Some value) sh"
| "var_func Change_seconds value sh = change_seconds sh"
| "var_func Change_realtime value sh = change_realtime sh"

fun dynamic_func :: "vfunc \<Rightarrow> shell \<Rightarrow> sherror + shell" where
  "dynamic_func Change_random sh = change_random None sh"
| "dynamic_func Change_seconds sh = change_seconds sh"
| "dynamic_func Change_realtime sh = change_realtime sh"
| "dynamic_func f sh = Inr sh"

definition setvareq :: "string \<Rightarrow> vflag set \<Rightarrow> shell \<Rightarrow> sherror + shell" where
  "setvareq = setvareq_with var_func"

definition ash_setvar :: "string \<Rightarrow> string option \<Rightarrow> vflag set \<Rightarrow> shell \<Rightarrow> sherror + shell" where
  "ash_setvar = setvar_with var_func"

definition setvar0 :: "string \<Rightarrow> string option \<Rightarrow> shell \<Rightarrow> sherror + shell" where
  "setvar0 name val sh = ash_setvar name val {} sh"

definition unsetvar :: "string \<Rightarrow> shell \<Rightarrow> sherror + shell" where
  "unsetvar s sh = ash_setvar s None {} sh"

text \<open>The variable a name finds in its bucket.\<close>

definition find_var :: "shell \<Rightarrow> string \<Rightarrow> var option" where
  "find_var sh name =
     (let bucket = vartab sh ! hashvar name; k = findvar sh bucket name
      in if k < length bucket then Some (bucket ! k) else None)"

text \<open>
  \<^verbatim>\<open>lookupvar\<close>. The structure is the same after the callback. \<^verbatim>\<open>fmtstr\<close> truncates to the buffer,
  which an \<^verbatim>\<open>int\<close> always fits.
\<close>

definition ash_lookupvar :: "string \<Rightarrow> shell \<Rightarrow> sherror + string option \<times> shell" where
  "ash_lookupvar name sh =
     (case find_var sh name of
        None \<Rightarrow> Inr (None, sh)
      | Some v \<Rightarrow>
          (case (if VDYNAMIC \<in> v_flags v then (case v_func v of Some f \<Rightarrow> dynamic_func f sh | None \<Rightarrow> Inr sh)
                 else Inr sh) of
             Inl e \<Rightarrow> Inl e
           | Inr sh \<Rightarrow>
               (case find_var sh name of
                  None \<Rightarrow> Inr (None, sh)
                | Some v \<Rightarrow>
                    if VUNSET \<in> v_flags v then Inr (None, sh)
                    else (let sh = (if v_id v = Some vlineno \<and> v_text v = Linenovar
                                    then sh\<lparr>linenovar := ''LINENO='' @ fmt_lld (scast (lineno sh))\<rparr> else sh)
                          in Inr (Some (var_end (text_of sh (v_text v))), sh)))))"

section \<open>Listing, exporting, local variables\<close>

definition listvars :: "vflag set \<Rightarrow> vflag set \<Rightarrow> shell \<Rightarrow> string list" where
  "listvars on off sh =
     map (\<lambda>v. text_of sh (v_text v)) (filter (\<lambda>v. v_flags v \<inter> (on \<union> off) = on) (concat (vartab sh)))"

definition modify_var :: "string \<Rightarrow> (var \<Rightarrow> var) \<Rightarrow> shell \<Rightarrow> shell" where
  "modify_var name f sh =
     (let h = hashvar name; bucket = vartab sh ! h; k = findvar sh bucket name
      in if k < length bucket then set_bucket h (bucket[k := f (bucket ! k)]) sh else sh)"

text \<open>The loop of \<^verbatim>\<open>exportcmd\<close> over its arguments; \<open>readonly\<close> is its other name.\<close>

fun exportcmd :: "vflag \<Rightarrow> vflag set \<Rightarrow> string list \<Rightarrow> shell \<Rightarrow> sherror + shell" where
  "exportcmd flag off [] sh = Inr sh"
| "exportcmd flag off (name # names) sh =
     (if CHR ''='' \<in> set name then
        (case ash_setvar name (Some (var_end name)) ({flag} - off) sh of
           Inl e \<Rightarrow> Inl e | Inr sh \<Rightarrow> exportcmd flag off names sh)
      else if find_var sh name \<noteq> None then
        exportcmd flag off names (modify_var name (\<lambda>v. v\<lparr>v_flags := (v_flags v \<union> {flag}) - off\<rparr>) sh)
      else (case ash_setvar name None ({flag} - off) sh of
           Inl e \<Rightarrow> Inl e | Inr sh \<Rightarrow> exportcmd flag off names sh))"

definition pushlocalvars :: "shell \<Rightarrow> shell" where
  "pushlocalvars sh = sh\<lparr>localvar_stack := [] # localvar_stack sh\<rparr>"

definition push_localvar :: "localvar \<Rightarrow> shell \<Rightarrow> shell" where
  "push_localvar lv sh =
     (case localvar_stack sh of [] \<Rightarrow> sh | ll # lls \<Rightarrow> sh\<lparr>localvar_stack := (lv # ll) # lls\<rparr>)"

definition already_local :: "string \<Rightarrow> shell \<Rightarrow> bool" where
  "already_local name sh \<longleftrightarrow>
     (case localvar_stack sh of [] \<Rightarrow> False
      | ll # _ \<Rightarrow> list_ex (\<lambda>lv. case lv_vp lv of Some n \<Rightarrow> varcmp n name = 0 | None \<Rightarrow> False) ll)"

definition mklocal :: "string \<Rightarrow> vflag set \<Rightarrow> shell \<Rightarrow> sherror + shell" where
  "mklocal name flags sh =
     (let eq = CHR ''='' \<in> set name
      in if already_local name sh then (if eq then setvareq name {} sh else Inr sh)
         else if name = ''-'' then
           Inr (push_localvar \<lparr>lv_vp = None, lv_flags = {}, lv_text = Text (optlist sh)\<rparr> sh)
         else (case find_var sh name of
             None \<Rightarrow>
               map_sum id (push_localvar \<lparr>lv_vp = Some (var_name name), lv_flags = {VUNSET}, lv_text = Text []\<rparr>)
                 (if eq then setvareq name ({VSTRFIXED} \<union> flags) sh
                  else ash_setvar name None ({VSTRFIXED} \<union> flags) sh)
           | Some vp \<Rightarrow>
               map_sum id (push_localvar \<lparr>lv_vp = Some (var_name name), lv_flags = v_flags vp, lv_text = v_text vp\<rparr>)
                 ((if eq then setvareq name flags else setvar0 name None)
                    (modify_var name (\<lambda>v. v\<lparr>v_flags := v_flags v \<union> {VSTRFIXED, VTEXTFIXED}\<rparr>) sh))))"

text \<open>One turn of \<^verbatim>\<open>poplocalvars(0)\<close>: a saved variable is put back.\<close>

definition restore_localvar :: "localvar \<Rightarrow> shell \<Rightarrow> sherror + shell" where
  "restore_localvar lv sh =
     (case lv_vp lv of
        None \<Rightarrow> Inr (sh\<lparr>optlist := text_of sh (lv_text lv)\<rparr>)
      | Some name \<Rightarrow>
          if lv_flags lv = {VUNSET} then
            unsetvar name (modify_var name (\<lambda>v. v\<lparr>v_flags := v_flags v - {VSTRFIXED, VREADONLY}\<rparr>) sh)
          else (case (case find_var sh name of
                  Some vp \<Rightarrow> (case v_func vp of Some f \<Rightarrow> var_func f (var_end (text_of sh (lv_text lv))) sh | None \<Rightarrow> Inr sh)
                | None \<Rightarrow> Inr sh) of
              Inl e \<Rightarrow> Inl e
            | Inr sh \<Rightarrow> Inr (modify_var name (\<lambda>v. v\<lparr>v_flags := lv_flags lv, v_text := lv_text lv\<rparr>) sh)))"

fun restore_localvars :: "localvar list \<Rightarrow> shell \<Rightarrow> sherror + shell" where
  "restore_localvars [] sh = Inr sh"
| "restore_localvars (lv # lvs) sh =
     (case restore_localvar lv sh of Inl e \<Rightarrow> Inl e | Inr sh \<Rightarrow> restore_localvars lvs sh)"

definition poplocalvars :: "shell \<Rightarrow> sherror + shell" where
  "poplocalvars sh =
     (case localvar_stack sh of
        [] \<Rightarrow> Inr sh
      | ll # lls \<Rightarrow> restore_localvars ll (sh\<lparr>localvar_stack := lls\<rparr>))"

section \<open>Initial state\<close>

definition varinit_data :: "(vflag set \<times> vtext \<times> vfunc option) list" where
  "varinit_data =
    [({VSTRFIXED, VTEXTFIXED}, Text (''IFS= '' @ [CHR 0x09, CHR 0x0A]), None),
     ({VSTRFIXED, VTEXTFIXED, VUNSET}, Text ''MAIL'', Some Changemail),
     ({VSTRFIXED, VTEXTFIXED, VUNSET}, Text ''MAILPATH'', Some Changemail),
     ({VSTRFIXED, VTEXTFIXED}, Text ''PATH=/sbin:/usr/sbin:/bin:/usr/bin'', Some Changepath),
     ({VSTRFIXED, VTEXTFIXED}, Text (''PS1='' @ [CHR 0x5C] @ ''w '' @ [CHR 0x5C] @ ''$ ''), None),
     ({VSTRFIXED, VTEXTFIXED}, Text ''PS2=> '', None),
     ({VSTRFIXED, VTEXTFIXED}, Text ''PS4=+ '', None),
     ({VSTRFIXED, VTEXTFIXED}, Text ''OPTIND=1'', Some Getoptsreset),
     ({VSTRFIXED, VTEXTFIXED}, Linenovar, None),
     ({VSTRFIXED, VTEXTFIXED, VUNSET, VDYNAMIC}, Text ''RANDOM'', Some Change_random),
     ({VSTRFIXED, VTEXTFIXED, VUNSET, VDYNAMIC}, Text ''EPOCHSECONDS'', Some Change_seconds),
     ({VSTRFIXED, VTEXTFIXED, VUNSET, VDYNAMIC}, Text ''EPOCHREALTIME'', Some Change_realtime),
     ({VSTRFIXED, VTEXTFIXED, VUNSET}, Text ''HISTFILE'', None)]"

fun link_vars :: "nat \<Rightarrow> (vflag set \<times> vtext \<times> vfunc option) list \<Rightarrow> shell \<Rightarrow> shell" where
  "link_vars i [] sh = sh"
| "link_vars i ((flags, t, f) # rows) sh =
     (let h = hashvar (text_of sh t)
      in link_vars (Suc i) rows (set_bucket h (\<lparr>v_id = Some i, v_flags = flags, v_text = t, v_func = f\<rparr> # vartab sh ! h) sh))"

text \<open>\<^verbatim>\<open>INIT_G_var\<close>, then \<^verbatim>\<open>initvar\<close>; the PS1 of \<open>varinit_data\<close> is the one \<^verbatim>\<open>initvar\<close> sets.\<close>

definition initvar :: "shell \<Rightarrow> shell" where
  "initvar sh = link_vars 0 varinit_data
     (sh\<lparr>vartab := replicate VTABSIZE [], linenovar := ''LINENO=''\<rparr>)"

section \<open>Names and slots\<close>

text \<open>C texts hold no NUL. \<open>plain n\<close>: a name as the table knows it.\<close>

definition cstr :: "string \<Rightarrow> bool" where
  "cstr s \<longleftrightarrow> CHR 0x00 \<notin> set s"

definition plain :: "string \<Rightarrow> bool" where
  "plain n \<longleftrightarrow> n \<noteq> [] \<and> CHR ''='' \<notin> set n \<and> cstr n"

lemma var_name_Cons [simp]: "var_name (c # s) = (if c = CHR ''='' then [] else c # var_name s)"
  and var_name_Nil [simp]: "var_name [] = []"
  by (simp_all add: var_name_def)

lemma var_end_Cons [simp]: "var_end (c # s) = (if c = CHR ''='' then s else var_end s)"
  and var_end_Nil [simp]: "var_end [] = []"
  by (simp_all add: var_end_def)

lemma var_name_plain [simp]: "plain n \<Longrightarrow> var_name n = n"
  unfolding plain_def var_name_def by (simp add: takeWhile_eq_all_conv) fastforce

lemma var_name_append: "CHR ''='' \<notin> set n \<Longrightarrow> var_name (n @ CHR ''='' # v) = n"
  by (induction n) auto

lemma var_end_append: "CHR ''='' \<notin> set n \<Longrightarrow> var_end (n @ CHR ''='' # v) = v"
  by (induction n) auto

lemma cstr_Cons [simp]: "cstr (c # s) \<longleftrightarrow> c \<noteq> CHR 0x00 \<and> cstr s" and cstr_Nil [simp]: "cstr []"
  by (auto simp: cstr_def)

lemma code_zero: "code c = 0 \<longleftrightarrow> c = CHR 0x00"
  using of_char_eq_iff [of c "CHR 0x00", where 'a = nat] by simp

lemma varcmp_name:
  "cstr (var_name p) \<Longrightarrow> cstr (var_name q) \<Longrightarrow> varcmp p q = 0 \<longleftrightarrow> var_name p = var_name q"
  by (induction p q rule: varcmp.induct) (auto simp: code_zero split: if_splits)

section \<open>Finding by key\<close>

lemma find_append: "find P (xs @ ys) = (case find P xs of None \<Rightarrow> find P ys | Some x \<Rightarrow> Some x)"
  by (induction xs) auto

lemma find_mem: "find P xs = Some x \<Longrightarrow> x \<in> set xs \<and> P x"
  by (induction xs) (auto split: if_splits)

lemma find_key_absent: "n \<notin> f ` set xs \<Longrightarrow> find (\<lambda>x. f x = n) xs = None"
  by (auto simp: find_None_iff)

lemma find_key_at:
  assumes "distinct (map f xs)" and "k < length xs"
  shows "find (\<lambda>x. f x = f (xs ! k)) xs = Some (xs ! k)"
  using assms by (induction xs arbitrary: k) (auto simp: nth_Cons split: nat.split)

lemma find_key_mem:
  assumes "distinct (map f xs)" and "x \<in> set xs"
  shows "find (\<lambda>y. f y = f x) xs = Some x"
  using find_key_at [OF assms(1)] assms(2) by (metis in_set_conv_nth)

text \<open>A list around one of its slots.\<close>

lemma slot_split:
  assumes "distinct (map f xs)" and "k < length xs"
  obtains as x bs where "xs = as @ x # bs" "length as = k" "f x \<notin> f ` set as" "f x \<notin> f ` set bs"
proof
  have "distinct (map f (take k xs @ xs ! k # drop (Suc k) xs))"
    using assms by (simp add: id_take_nth_drop [symmetric])
  then show "f (xs ! k) \<notin> f ` set (take k xs)" "f (xs ! k) \<notin> f ` set (drop (Suc k) xs)" by auto
qed (use assms in \<open>simp_all add: id_take_nth_drop [symmetric]\<close>)

lemma find_key_put:
  assumes "distinct (map f xs)" and "k < length xs" and "f y = f (xs ! k)"
  shows "find (\<lambda>x. f x = n) (xs[k := y]) = (if n = f y then Some y else find (\<lambda>x. f x = n) xs)"
proof -
  obtain as x bs where x: "xs = as @ x # bs" "length as = k" "f x \<notin> f ` set as" "f x \<notin> f ` set bs"
    using slot_split [OF assms(1,2)] by blast
  with assms(3) have "f y = f x" by auto
  with x show ?thesis
    by (cases "n = f x"; cases "find (\<lambda>x. f x = n) as")
      (simp_all add: list_update_append find_append find_key_absent)
qed

lemma find_key_remove:
  assumes "distinct (map f xs)" and "k < length xs"
  shows "find (\<lambda>x. f x = n) (take k xs @ drop (Suc k) xs) =
    (if n = f (xs ! k) then None else find (\<lambda>x. f x = n) xs)"
proof -
  obtain as x bs where x: "xs = as @ x # bs" "length as = k" "f x \<notin> f ` set as" "f x \<notin> f ` set bs"
    using slot_split [OF assms] by blast
  then have t: "take k xs @ drop (Suc k) xs = as @ bs" "xs ! k = x" by auto
  show ?thesis
    unfolding t using x
    by (cases "n = f x"; cases "find (\<lambda>x. f x = n) as") (simp_all add: find_append find_key_absent)
qed

lemma distinct_update_key:
  "distinct (map f xs) \<Longrightarrow> k < length xs \<Longrightarrow> f y = f (xs ! k) \<Longrightarrow> distinct (map f (xs[k := y]))"
  by (metis length_map list_update_id map_update nth_map)

lemma distinct_remove_key: "distinct (map f xs) \<Longrightarrow> distinct (map f (take k xs @ drop (Suc k) xs))"
proof (induction xs arbitrary: k)
  case (Cons x xs)
  then show ?case by (cases k) (auto dest: in_set_takeD in_set_dropD)
qed simp

lemma set_remove: "set (take k xs @ drop (Suc k) xs) \<subseteq> set xs"
  by (auto dest: in_set_takeD in_set_dropD)

section \<open>The invariant of the table\<close>

definition named :: "shell \<Rightarrow> var \<Rightarrow> string" where
  "named sh v = var_name (text_of sh (v_text v))"

definition init_name :: "nat \<Rightarrow> string" where
  "init_name i = [''IFS'', ''MAIL'', ''MAILPATH'', ''PATH'', ''PS1'', ''PS2'', ''PS4'', ''OPTIND'', ''LINENO'',
     ''RANDOM'', ''EPOCHSECONDS'', ''EPOCHREALTIME'', ''HISTFILE''] ! i"

text \<open>Which structure has which callback, and which callbacks compute a dynamic variable.\<close>

definition callbacks_of :: "(nat \<times> vfunc) set" where
  "callbacks_of = {(1, Changemail), (2, Changemail), (3, Changepath), (7, Getoptsreset),
     (vrandom, Change_random), (vepochs, Change_seconds), (vepochr, Change_realtime)}"

definition getters :: "vfunc set" where
  "getters = {Change_random, Change_seconds, Change_realtime}"

definition var_ok :: "shell \<Rightarrow> nat \<Rightarrow> var \<Rightarrow> bool" where
  "var_ok sh h v \<longleftrightarrow>
     plain (named sh v) \<and> hashvar (named sh v) = h \<and>
     (VUNSET \<notin> v_flags v \<longrightarrow> CHR ''='' \<in> set (text_of sh (v_text v))) \<and>
     (\<forall>i. v_id v = Some i \<longrightarrow> i < 13 \<and> named sh v = init_name i) \<and>
     (\<forall>f. v_func v = Some f \<longrightarrow> (\<exists>i. v_id v = Some i \<and> (i, f) \<in> callbacks_of)) \<and>
     (VDYNAMIC \<in> v_flags v \<longrightarrow> (\<exists>f \<in> getters. v_func v = Some f))"

definition bucket_ok :: "shell \<Rightarrow> nat \<Rightarrow> var list \<Rightarrow> bool" where
  "bucket_ok sh h vs \<longleftrightarrow> distinct (map (named sh) vs) \<and> list_all (var_ok sh h) vs"

definition table_ok :: "shell \<Rightarrow> bool" where
  "table_ok sh \<longleftrightarrow> length (vartab sh) = VTABSIZE \<and> (\<forall>h < VTABSIZE. bucket_ok sh h (vartab sh ! h)) \<and>
     (\<exists>d. linenovar sh = ''LINENO='' @ d)"

definition random_ok :: "shell \<Rightarrow> bool" where
  "random_ok sh \<longleftrightarrow> pid sh \<noteq> 0 \<and>
     (galois_LFSR (random_gen sh) \<noteq> 0 \<longrightarrow> (xs64_x (random_gen sh), xs64_y (random_gen sh)) \<noteq> (0, 0))"

definition shell_ok :: "shell \<Rightarrow> bool" where
  "shell_ok sh \<longleftrightarrow> table_ok sh \<and> random_ok sh"

lemma hashvar_less: "hashvar s < VTABSIZE"
  by (simp add: hashvar_def VTABSIZE_def)

lemma hashvar_name: "var_name s \<noteq> [] \<Longrightarrow> hashvar (var_name s) = hashvar s"
  by (cases s) (auto simp: hashvar_def var_name_def)

lemma findvar_find:
  assumes "cstr (var_name s)" and "\<forall>v \<in> set vs. cstr (named sh v)"
  shows "findvar sh vs s \<le> length vs \<and>
    find (\<lambda>v. named sh v = var_name s) vs = (if findvar sh vs s < length vs then Some (vs ! findvar sh vs s) else None)"
  using assms(2) by (induction vs) (auto simp: varcmp_name assms(1) named_def)

definition entry :: "shell \<Rightarrow> string \<Rightarrow> var option" where
  "entry sh n = find (\<lambda>v. named sh v = n) (vartab sh ! hashvar n)"

lemma table_ok_bucket: "table_ok sh \<Longrightarrow> h < VTABSIZE \<Longrightarrow> bucket_ok sh h (vartab sh ! h)"
  by (simp add: table_ok_def)

lemma bucket_cstr: "table_ok sh \<Longrightarrow> h < VTABSIZE \<Longrightarrow> \<forall>v \<in> set (vartab sh ! h). cstr (named sh v)"
  using table_ok_bucket [of sh h] by (auto simp: bucket_ok_def list_all_iff var_ok_def plain_def)

lemma find_var_entry:
  assumes "table_ok sh" and "plain (var_name s)"
  shows "find_var sh s = entry sh (var_name s)"
proof -
  have "hashvar (var_name s) = hashvar s" using assms(2) by (intro hashvar_name) (simp add: plain_def)
  with findvar_find [OF _ bucket_cstr [OF assms(1) hashvar_less [of s]], of s] assms(2)
  show ?thesis by (simp add: find_var_def entry_def Let_def plain_def)
qed

lemma text_of_frame [simp]:
  "text_of (sh\<lparr>vartab := a\<rparr>) = text_of sh" "text_of (sh\<lparr>random_gen := b\<rparr>) = text_of sh"
  "text_of (sh\<lparr>optind := c, optoff := d\<rparr>) = text_of sh" "text_of (sh\<lparr>mail_var_path_changed := e\<rparr>) = text_of sh"
  "text_of (sh\<lparr>builtinloc := f\<rparr>) = text_of sh" "text_of (sh\<lparr>cmdtable := g\<rparr>) = text_of sh"
  "text_of (sh\<lparr>localvar_stack := i\<rparr>) = text_of sh" "text_of (sh\<lparr>optlist := j\<rparr>) = text_of sh"
  by (simp_all add: text_of_def fun_eq_iff split: vtext.split)

lemma named_cong:
  assumes "text_of sh' = text_of sh"
  shows "named sh' = named sh" "var_ok sh' = var_ok sh" "bucket_ok sh' = bucket_ok sh"
proof -
  show n: "named sh' = named sh" by (simp add: named_def fun_eq_iff assms)
  show v: "var_ok sh' = var_ok sh" by (simp add: var_ok_def fun_eq_iff assms n)
  show "bucket_ok sh' = bucket_ok sh" by (simp add: bucket_ok_def fun_eq_iff n v)
qed

section \<open>What the table gives for a name\<close>

definition layout :: "shell \<Rightarrow> string list list" where
  "layout sh = map (map (named sh)) (vartab sh)"

definition shell_value :: "shell \<Rightarrow> string \<Rightarrow> string option" where
  "shell_value sh n =
     (case entry sh n of
        Some v \<Rightarrow> if VUNSET \<in> v_flags v then None else Some (var_end (text_of sh (v_text v)))
      | None \<Rightarrow> None)"

lemma text_of_set_bucket [simp]: "text_of (set_bucket h vs sh) = text_of sh"
  by (simp add: set_bucket_def)

lemmas named_set_bucket [simp] = named_cong [OF text_of_set_bucket] named_cong [OF text_of_frame(1)]

lemma table_ok_set_bucket:
  "table_ok sh \<Longrightarrow> bucket_ok sh h vs \<Longrightarrow> table_ok (set_bucket h vs sh)"
  unfolding table_ok_def set_bucket_def
  by (auto simp: list_update_beyond) (metis nth_list_update_eq nth_list_update_neq)

lemma entry_set_bucket:
  "table_ok sh \<Longrightarrow> h < VTABSIZE \<Longrightarrow>
   entry (set_bucket h vs sh) n = (if hashvar n = h then find (\<lambda>v. named sh v = n) vs else entry sh n)"
  by (auto simp: entry_def set_bucket_def table_ok_def)

lemma entry_SomeD:
  assumes "table_ok sh" and "entry sh n = Some v"
  shows "named sh v = n \<and> v \<in> set (vartab sh ! hashvar n) \<and> var_ok sh (hashvar n) v"
proof -
  have "named sh v = n \<and> v \<in> set (vartab sh ! hashvar n)"
    using assms(2) by (auto simp: entry_def find_Some_iff)
  then show ?thesis
    using table_ok_bucket [OF assms(1) hashvar_less [of n]] by (auto simp: bucket_ok_def list_all_iff)
qed

lemma entry_mem:
  assumes "table_ok sh" and "h < VTABSIZE" and "v \<in> set (vartab sh ! h)"
  shows "entry sh (named sh v) = Some v"
proof -
  have "bucket_ok sh h (vartab sh ! h)" using table_ok_bucket assms(1,2) .
  then have "distinct (map (named sh) (vartab sh ! h))" "hashvar (named sh v) = h"
    using assms(3) by (auto simp: bucket_ok_def list_all_iff var_ok_def)
  then show ?thesis using find_key_mem [OF _ assms(3), of "named sh"] by (simp add: entry_def)
qed

text \<open>The slot that \<open>setvareq\<close> works on.\<close>

definition slot :: "shell \<Rightarrow> string \<Rightarrow> nat \<Rightarrow> bool" where
  "slot sh n k \<longleftrightarrow> k < length (vartab sh ! hashvar n) \<and> named sh (vartab sh ! hashvar n ! k) = n"

lemma slot_entry: "table_ok sh \<Longrightarrow> slot sh n k \<Longrightarrow> entry sh n = Some (vartab sh ! hashvar n ! k)"
  using entry_mem [of sh "hashvar n" "vartab sh ! hashvar n ! k"] hashvar_less [of n] by (simp add: slot_def)

lemma slot_layout:
  assumes "layout sh' = layout sh" and "slot sh n k" and "length (vartab sh) = VTABSIZE"
  shows "slot sh' n k"
proof -
  have "map (named sh') (vartab sh' ! hashvar n) = map (named sh) (vartab sh ! hashvar n)"
    using assms hashvar_less [of n] unfolding layout_def
    by (metis (no_types, lifting) length_map nth_map)
  then show ?thesis using assms(2) unfolding slot_def by (metis length_map nth_map)
qed

definition changes_at :: "string \<Rightarrow> shell \<Rightarrow> shell \<Rightarrow> bool" where
  "changes_at n sh sh' \<longleftrightarrow>
     table_ok sh' \<and> linenovar sh' = linenovar sh \<and> (random_ok sh \<longrightarrow> random_ok sh') \<and>
     (\<forall>m. m \<noteq> n \<longrightarrow> entry sh' m = entry sh m)"

lemma changes_at_trans: "changes_at n sh sh' \<Longrightarrow> changes_at n sh' sh'' \<Longrightarrow> changes_at n sh sh''"
  by (auto simp: changes_at_def)

lemma text_of_linenovar: "linenovar sh' = linenovar sh \<Longrightarrow> text_of sh' = text_of sh"
  by (simp add: text_of_def fun_eq_iff split: vtext.split)

lemma value_changes_at: "changes_at n sh sh' \<Longrightarrow> m \<noteq> n \<Longrightarrow> shell_value sh' m = shell_value sh m"
  using text_of_linenovar [of sh' sh] by (simp add: changes_at_def shell_value_def split: option.split)

lemma random_ok_set_bucket [simp]: "random_ok (set_bucket h vs sh) = random_ok sh"
  "linenovar (set_bucket h vs sh) = linenovar sh"
  by (simp_all add: set_bucket_def random_ok_def)

text \<open>A bucket with one entry replaced, removed or added.\<close>

lemma put_entry:
  assumes "table_ok sh" and "slot sh n k" and "var_ok sh (hashvar n) y" and "named sh y = n"
  defines "sh' \<equiv> set_bucket (hashvar n) ((vartab sh ! hashvar n)[k := y]) sh"
  shows "changes_at n sh sh' \<and> entry sh' n = Some y \<and> layout sh' = layout sh"
proof -
  have h: "hashvar n < VTABSIZE" "length (vartab sh) = VTABSIZE" using hashvar_less assms(1) by (auto simp: table_ok_def)
  have k: "k < length (vartab sh ! hashvar n)" "named sh (vartab sh ! hashvar n ! k) = n"
    using assms(2) by (auto simp: slot_def)
  have b: "bucket_ok sh (hashvar n) (vartab sh ! hashvar n)" using table_ok_bucket [OF assms(1) h(1)] .
  then have d: "distinct (map (named sh) (vartab sh ! hashvar n))" by (simp add: bucket_ok_def)
  have y: "named sh y = named sh (vartab sh ! hashvar n ! k)" using k assms(4) by simp
  have "bucket_ok sh (hashvar n) ((vartab sh ! hashvar n)[k := y])"
    using b distinct_update_key [OF d k(1) y] assms(3) set_update_subset_insert [of "vartab sh ! hashvar n" k y]
    by (auto simp: bucket_ok_def list_all_iff)
  then have t: "table_ok sh'" unfolding sh'_def by (intro table_ok_set_bucket assms(1))
  have e: "entry sh' m = (if m = n then Some y else entry sh m)" for m
    unfolding sh'_def entry_set_bucket [OF assms(1) h(1)]
    using find_key_put [OF d k(1) y, of m] by (auto simp: entry_def assms(4))
  have "(map (named sh) (vartab sh ! hashvar n))[k := n] = map (named sh) (vartab sh ! hashvar n)"
    using k by (metis length_map list_update_id nth_map)
  then have "layout sh' = (layout sh)[hashvar n := layout sh ! hashvar n]"
    using h by (simp add: layout_def sh'_def set_bucket_def map_update assms(4))
  then have "layout sh' = layout sh" by (simp only: list_update_id)
  with t e show ?thesis by (auto simp: changes_at_def sh'_def)
qed

lemma remove_entry:
  assumes "table_ok sh" and "slot sh n k"
  defines "sh' \<equiv> set_bucket (hashvar n) (take k (vartab sh ! hashvar n) @ drop (Suc k) (vartab sh ! hashvar n)) sh"
  shows "changes_at n sh sh' \<and> entry sh' n = None"
proof -
  have h: "hashvar n < VTABSIZE" using hashvar_less .
  have k: "k < length (vartab sh ! hashvar n)" "named sh (vartab sh ! hashvar n ! k) = n"
    using assms(2) by (auto simp: slot_def)
  have b: "bucket_ok sh (hashvar n) (vartab sh ! hashvar n)" using table_ok_bucket [OF assms(1) h] .
  then have d: "distinct (map (named sh) (vartab sh ! hashvar n))" by (simp add: bucket_ok_def)
  have "bucket_ok sh (hashvar n) (take k (vartab sh ! hashvar n) @ drop (Suc k) (vartab sh ! hashvar n))"
    using b distinct_remove_key [OF d, of k] set_remove [of k "vartab sh ! hashvar n"]
    unfolding bucket_ok_def list_all_iff by blast
  then have t: "table_ok sh'" unfolding sh'_def by (intro table_ok_set_bucket assms(1))
  have e: "entry sh' m = (if m = n then None else entry sh m)" for m
    unfolding sh'_def entry_set_bucket [OF assms(1) h]
    using find_key_remove [OF d k(1), of m] by (auto simp: entry_def k(2))
  with t show ?thesis by (auto simp: changes_at_def sh'_def)
qed

lemma add_entry:
  assumes "table_ok sh" and "entry sh n = None" and "var_ok sh (hashvar n) y" and "named sh y = n"
  defines "sh' \<equiv> set_bucket (hashvar n) (vartab sh ! hashvar n @ [y]) sh"
  shows "changes_at n sh sh' \<and> entry sh' n = Some y"
proof -
  have h: "hashvar n < VTABSIZE" using hashvar_less .
  have b: "bucket_ok sh (hashvar n) (vartab sh ! hashvar n)" using table_ok_bucket [OF assms(1) h] .
  have "n \<notin> named sh ` set (vartab sh ! hashvar n)"
    using assms(2) by (auto simp: entry_def find_None_iff)
  with b assms(3,4) have "bucket_ok sh (hashvar n) (vartab sh ! hashvar n @ [y])"
    by (auto simp: bucket_ok_def)
  then have t: "table_ok sh'" unfolding sh'_def by (intro table_ok_set_bucket assms(1))
  have e: "entry sh' m = (if m = n then Some y else entry sh m)" for m
    unfolding sh'_def entry_set_bucket [OF assms(1) h]
    using assms(2,4) by (auto simp: entry_def find_append split: option.split)
  with t show ?thesis by (auto simp: changes_at_def sh'_def)
qed

section \<open>The effect of an assignment\<close>

lemma findvar_slot:
  assumes "table_ok sh" and "plain (var_name s)"
  defines "k \<equiv> findvar sh (vartab sh ! hashvar s) s"
  shows "if k < length (vartab sh ! hashvar s) then slot sh (var_name s) k else entry sh (var_name s) = None"
proof -
  have h: "hashvar (var_name s) = hashvar s" using assms(2) by (intro hashvar_name) (simp add: plain_def)
  have c: "cstr (var_name s)" using assms(2) by (simp add: plain_def)
  have f: "find (\<lambda>v. named sh v = var_name s) (vartab sh ! hashvar s) =
      (if k < length (vartab sh ! hashvar s) then Some (vartab sh ! hashvar s ! k) else None)"
    using findvar_find [OF c bucket_cstr [OF assms(1) hashvar_less [of s]]] unfolding k_def by blast
  show ?thesis
  proof (cases "k < length (vartab sh ! hashvar s)")
    case True
    then have "named sh (vartab sh ! hashvar s ! k) = var_name s" using f by (auto simp: find_Some_iff)
    with True h show ?thesis by (simp add: slot_def)
  next
    case False
    with f h show ?thesis by (simp add: entry_def)
  qed
qed

text \<open>A callback may change the entry it belongs to, nothing else of the table.\<close>

definition locked :: "var \<Rightarrow> bool" where
  "locked v \<longleftrightarrow> v_flags v \<inter> {VREADONLY, VDYNAMIC} = {VREADONLY}"

definition callback_ok :: "string \<Rightarrow> shell \<Rightarrow> shell \<Rightarrow> bool" where
  "callback_ok n sh sh' \<longleftrightarrow> changes_at n sh sh' \<and> layout sh' = layout sh"

lemma update_var_effect:
  assumes "table_ok sh" and "slot sh n k" and "var_name s = n" and "VUNSET \<notin> fl \<longrightarrow> CHR ''='' \<in> set s" and "VDYNAMIC \<notin> fl"
  defines "sh' \<equiv> update_var (hashvar n) k s fl sh"
  shows "changes_at n sh sh' \<and> shell_value sh' n = (if VUNSET \<in> fl then None else Some (var_end s)) \<and>
    (VUNSET \<notin> fl \<longrightarrow> layout sh' = layout sh)"
proof -
  define v where "v = vartab sh ! hashvar n ! k"
  have e: "entry sh n = Some v" using slot_entry [OF assms(1,2)] by (simp add: v_def)
  have ok: "var_ok sh (hashvar n) v" "named sh v = n" using entry_SomeD [OF assms(1) e] by auto
  show ?thesis
  proof (cases "(fl \<inter> {VEXPORT, VREADONLY, VSTRFIXED, VUNSET}) \<union> (v_flags v \<inter> {VSTRFIXED}) = {VUNSET}")
    case True
    then have u: "VUNSET \<in> fl" by blast
    have "sh' = set_bucket (hashvar n) (take k (vartab sh ! hashvar n) @ drop (Suc k) (vartab sh ! hashvar n)) sh"
      using True by (simp add: sh'_def update_var_def Let_def v_def)
    then have "changes_at n sh sh'" "entry sh' n = None" using remove_entry [OF assms(1,2)] by auto
    with u show ?thesis by (simp add: shell_value_def)
  next
    case False
    define nf where "nf = (let f = fl \<union> (v_flags v - {VTEXTFIXED, VSTACK, VNOSAVE, VUNSET})
      in if VUNSET \<in> f then f - {VDYNAMIC} else f)"
    define y where "y = v\<lparr>v_text := Text s, v_flags := nf\<rparr>"
    have u: "VUNSET \<in> nf \<longleftrightarrow> VUNSET \<in> fl" by (auto simp: nf_def Let_def)
    have "VDYNAMIC \<in> nf \<longrightarrow> VDYNAMIC \<in> v_flags v" using assms(5) by (auto simp: nf_def Let_def)
    then have y: "var_ok sh (hashvar n) y" "named sh y = n"
      using ok assms(3,4) u by (auto simp: var_ok_def y_def named_def text_of_def)
    have "sh' = set_bucket (hashvar n) ((vartab sh ! hashvar n)[k := y]) sh"
      using False unfolding sh'_def update_var_def Let_def v_def [symmetric] by (simp add: y_def nf_def Let_def)
    then show ?thesis
      using put_entry [OF assms(1,2) y] u by (simp add: shell_value_def y_def text_of_def)
  qed
qed

lemma create_var_effect:
  assumes "table_ok sh" and "entry sh n = None" and "var_name s = n" and "plain n" and "hashvar s = hashvar n"
    and "VUNSET \<notin> fl \<longrightarrow> CHR ''='' \<in> set s" and "fl \<inter> {VNOSET, VDYNAMIC} = {}"
  defines "sh' \<equiv> create_var (hashvar n) s fl sh"
  shows "changes_at n sh sh' \<and> shell_value sh' n = (if VUNSET \<in> fl then None else Some (var_end s))"
proof -
  define y where "y = \<lparr>v_id = None, v_flags = fl, v_text = Text s, v_func = None\<rparr>"
  have y: "var_ok sh (hashvar n) y" "named sh y = n"
    using assms(3-7) by (auto simp: var_ok_def y_def named_def text_of_def)
  show ?thesis
  proof (cases "fl \<inter> {VEXPORT, VREADONLY, VSTRFIXED, VUNSET} = {VUNSET}")
    case True
    then have "VUNSET \<in> fl" by blast
    with True show ?thesis using assms(1,2) by (simp add: sh'_def create_var_def changes_at_def shell_value_def)
  next
    case False
    then have "sh' = set_bucket (hashvar n) (vartab sh ! hashvar n @ [y]) sh"
      using assms(7) by (simp add: sh'_def create_var_def y_def)
    then show ?thesis using add_entry [OF assms(1,2) y] by (simp add: shell_value_def y_def text_of_def)
  qed
qed

lemma is_in_name_plain: "is_in_name c \<Longrightarrow> c \<noteq> CHR ''='' \<and> c \<noteq> CHR 0x00"
  by (auto simp: is_in_name_def isalpha_def isdigit_def)

lemma valid_plain: "valid_name n \<Longrightarrow> plain n"
  using is_in_name_plain by (auto simp: valid_name_def plain_def cstr_def list_all_iff)

lemma valid_name_take:
  "list_all is_in_name (var_name s) \<Longrightarrow>
   takeWhile is_in_name s = var_name s \<and> dropWhile is_in_name s = dropWhile (\<lambda>c. c \<noteq> CHR ''='') s"
proof (induction s)
  case (Cons c s)
  moreover have "\<not> is_in_name (CHR ''='')" using is_in_name_plain by blast
  ultimately show ?case by (auto split: if_splits)
qed simp

lemma is_name_in_name: "is_name c \<Longrightarrow> is_in_name c"
  by (auto simp: is_name_def is_in_name_def)

lemma endofname_named:
  assumes "valid_name (var_name name)"
  shows "endofname name = (var_name name, dropWhile (\<lambda>c. c \<noteq> CHR ''='') name)"
proof (cases name)
  case (Cons c s)
  with assms have "is_name c" "c \<noteq> CHR ''=''" "list_all is_in_name (var_name s)"
    using is_in_name_plain by (auto simp: valid_name_def split: if_splits)
  with Cons valid_name_take [of s] show ?thesis by (simp add: endofname_def)
qed (use assms in \<open>simp add: valid_name_def\<close>)

lemma setvar_bad_name:
  assumes "\<not> valid_name (var_name name)"
  shows "setvar_with call name val flags sh = Inl (Bad_name (var_name name))"
proof (cases name)
  case (Cons c s)
  show ?thesis
  proof (cases "is_name c")
    case False
    then show ?thesis by (auto simp: Cons setvar_with_def endofname_def)
  next
    case True
    then have c: "c \<noteq> CHR ''=''" "is_in_name c" using is_in_name_plain is_name_in_name by blast+
    then have "\<not> list_all is_in_name (var_name s)" using assms True by (auto simp: Cons valid_name_def)
    then have "dropWhile is_in_name s \<noteq> [] \<and> hd (dropWhile is_in_name s) \<noteq> CHR ''=''"
      by (induction s) (auto split: if_splits)
    then show ?thesis using True by (auto simp: Cons setvar_with_def endofname_def)
  qed
qed (simp add: setvar_with_def endofname_def)

lemma hd_dropWhile_eq: "dropWhile (\<lambda>c. c \<noteq> x) s \<noteq> [] \<Longrightarrow> hd (dropWhile (\<lambda>c. c \<noteq> x) s) = x"
  using hd_dropWhile [of "\<lambda>c. c \<noteq> x" s] by blast

locale callbacks =
  fixes call :: "vfunc \<Rightarrow> string \<Rightarrow> shell \<Rightarrow> sherror + shell"
  assumes call_keeps: "table_ok sh \<Longrightarrow> entry sh n = Some v \<Longrightarrow> v_func v = Some f \<Longrightarrow> \<not> locked v \<Longrightarrow>
    \<exists>sh'. call f val sh = Inr sh' \<and> callback_ok n sh sh'"
begin

lemma call_opt_keeps:
  assumes "table_ok sh" and "entry sh n = Some v" and "\<not> locked v"
  obtains sh' where "(case v_func v of Some f \<Rightarrow> if b then Inr sh else call f val sh | None \<Rightarrow> Inr sh) = Inr sh'"
    and "callback_ok n sh sh'"
proof -
  have "callback_ok n sh sh" using assms(1) by (simp add: callback_ok_def changes_at_def)
  then have "\<exists>sh'. (case v_func v of Some f \<Rightarrow> if b then Inr sh else call f val sh | None \<Rightarrow> Inr sh) = Inr sh'
      \<and> callback_ok n sh sh'"
    using call_keeps [OF assms(1,2) _ assms(3)] by (auto split: option.split)
  with that show thesis by blast
qed

lemma assignment:
  assumes "table_ok sh" and "plain (var_name s)" and "VUNSET \<notin> flags \<longrightarrow> CHR ''='' \<in> set s"
    and "flags \<inter> {VNOSET, VDYNAMIC} = {}"
  shows "case setvareq_with call s flags sh of
      Inl e \<Rightarrow> (\<exists>v. entry sh (var_name s) = Some v \<and> locked v) \<and> e = Read_only (var_name s)
    | Inr sh' \<Rightarrow> \<not> (\<exists>v. entry sh (var_name s) = Some v \<and> locked v) \<and> changes_at (var_name s) sh sh' \<and>
        shell_value sh' (var_name s) = (if VUNSET \<in> flags then None else Some (var_end s)) \<and>
        (VUNSET \<notin> flags \<and> entry sh (var_name s) \<noteq> None \<longrightarrow> layout sh' = layout sh)"
proof -
  define n fl k where "n = var_name s" and "fl = (if aflag sh then flags \<union> {VEXPORT} else flags)"
    and "k = findvar sh (vartab sh ! hashvar s) s"
  have h: "hashvar s = hashvar n" unfolding n_def using assms(2) by (intro hashvar_name [symmetric]) (simp add: plain_def)
  have fl: "VUNSET \<in> fl \<longleftrightarrow> VUNSET \<in> flags" "fl \<inter> {VNOSET, VDYNAMIC} = {}" "VNOSET \<notin> fl" "VDYNAMIC \<notin> fl"
    using assms(4) by (auto simp: fl_def)
  have eq: "VUNSET \<notin> fl \<longrightarrow> CHR ''='' \<in> set s" using assms(3) fl(1) by simp
  note find = findvar_slot [OF assms(1,2), folded k_def n_def]
  show ?thesis
  proof (cases "k < length (vartab sh ! hashvar s)")
    case True
    then have slot: "slot sh n k" using find by simp
    define v where "v = vartab sh ! hashvar s ! k"
    have e: "entry sh n = Some v" using slot_entry [OF assms(1) slot] by (simp add: v_def h)
    have name: "named sh v = n" using entry_SomeD [OF assms(1) e] by auto
    show ?thesis
    proof (cases "locked v")
      case True
      then have "setvareq_with call s flags sh = Inl (Read_only n)"
        using \<open>k < _\<close> name by (simp add: setvareq_with_def k_def [symmetric] v_def [symmetric] locked_def named_def)
      with e True show ?thesis by (simp add: n_def [symmetric])
    next
      case False
      obtain sh1 where call: "(case v_func v of Some f \<Rightarrow> if VNOFUNC \<in> fl then Inr sh else call f (var_end s) sh
          | None \<Rightarrow> Inr sh) = Inr sh1" and sh1: "changes_at n sh sh1" "layout sh1 = layout sh"
        using call_opt_keeps [OF assms(1) e False] unfolding callback_ok_def by blast
      then have res: "setvareq_with call s flags sh = Inr (update_var (hashvar n) k s fl sh1)"
        using \<open>k < _\<close> False fl(3)
        by (simp add: setvareq_with_def k_def [symmetric] fl_def [symmetric] v_def [symmetric] locked_def h [symmetric])
      have "table_ok sh1" "slot sh1 n k"
        using sh1 slot_layout [OF sh1(2) slot] assms(1) by (auto simp: table_ok_def changes_at_def)
      from update_var_effect [OF this n_def [symmetric] eq fl(4)] sh1 changes_at_trans [OF sh1(1)] fl(1) False e
      show ?thesis by (simp add: res n_def [symmetric])
    qed
  next
    case False
    then have e: "entry sh n = None" using find by simp
    have res: "setvareq_with call s flags sh = Inr (create_var (hashvar n) s fl sh)"
      using False by (simp add: setvareq_with_def k_def [symmetric] fl_def [symmetric] h [symmetric])
    from create_var_effect [OF assms(1) e n_def [symmetric] _ h eq fl(2)] assms(2) e fl(1)
    show ?thesis by (simp add: res n_def [symmetric])
  qed
qed

text \<open>\<open>setvar\<close> is that assignment for a name the shell's grammar allows, and an error otherwise.\<close>

lemma setvar_assigns:
  assumes "valid_name (var_name name)"
  shows "setvar_with call name val flags sh =
    (case val of None \<Rightarrow> setvareq_with call (var_name name) (flags \<union> {VUNSET, VNOSAVE}) sh
     | Some v \<Rightarrow> setvareq_with call (var_name name @ ''='' @ v) (flags \<union> {VNOSAVE}) sh)"
  using endofname_named [OF assms] assms
  by (auto simp: setvar_with_def valid_name_def dropWhile_eq_self_iff hd_dropWhile_eq split: option.split)

lemma setvar_effect:
  assumes "table_ok sh" and "valid_name (var_name name)" and "flags \<inter> {VNOSET, VDYNAMIC, VUNSET} = {}"
  shows "case setvar_with call name val flags sh of
      Inl e \<Rightarrow> (\<exists>v. entry sh (var_name name) = Some v \<and> locked v) \<and> e = Read_only (var_name name)
    | Inr sh' \<Rightarrow> \<not> (\<exists>v. entry sh (var_name name) = Some v \<and> locked v) \<and> changes_at (var_name name) sh sh' \<and>
        shell_value sh' (var_name name) = val \<and>
        (val \<noteq> None \<and> entry sh (var_name name) \<noteq> None \<longrightarrow> layout sh' = layout sh)"
proof -
  let ?n = "var_name name"
  have p: "plain ?n" by (rule valid_plain [OF assms(2)])
  then have n: "CHR ''='' \<notin> set ?n" "var_name ?n = ?n" by (simp_all add: plain_def)
  show ?thesis
  proof (cases val)
    case None
    then show ?thesis
      using assignment [of sh ?n "flags \<union> {VUNSET, VNOSAVE}"] assms(1,3) p n
      by (auto simp: setvar_assigns [OF assms(2)] split: sum.splits)
  next
    case (Some v)
    have "var_name (?n @ ''='' @ v) = ?n" "var_end (?n @ ''='' @ v) = v"
      using n(1) by (simp_all add: var_name_append var_end_append)
    then show ?thesis
      using assignment [of sh "?n @ ''='' @ v" "flags \<union> {VNOSAVE}"] assms(1,3) p Some
      by (auto simp: setvar_assigns [OF assms(2)] split: sum.splits)
  qed
qed

end

section \<open>The callbacks keep the table\<close>

interpretation quiet: callbacks "\<lambda>f value sh. Inr sh"
  by unfold_locales (simp add: callback_ok_def changes_at_def)

lemma xor_zero_eq:
  assumes "a XOR b = (0 :: 'a::len word)"
  shows "a = b"
proof -
  have "a = (a XOR b) XOR b" by (simp only: xor.assoc xor_self_eq xor.right_neutral)
  then show ?thesis using assms by simp
qed

lemma xor_drop_zero:
  assumes "t XOR drop_bit 7 t = 0"
  shows "t = (0 :: u32)"
proof -
  have "t = drop_bit 7 t" using assms by (rule xor_zero_eq)
  then have "unat t = unat t div 2 ^ 7" using unat_drop_bit_div [of 7 t] by simp
  then have "unat t = 0" by simp
  then show ?thesis by (simp add: unsigned_eq_0_iff)
qed

lemma xor_push_zero:
  assumes "x XOR push_bit 2 x = 0"
  shows "x = (0 :: u32)"
proof -
  have x: "x = push_bit 2 x" using assms by (rule xor_zero_eq)
  have "\<not> bit x n" for n
  proof (induction n rule: less_induct)
    case (less n)
    have "bit x n = bit (push_bit 2 x) n" using x by simp
    then show ?case using less [of "n - 2"] by (auto simp: bit_push_bit_iff)
  qed
  then show ?thesis by (intro bit_eqI) simp
qed

lemma xorshift_nonzero:
  assumes "s \<noteq> (0, 0)"
  shows "xorshift s \<noteq> (0, 0)"
proof
  obtain x y where s: "s = (x, y)" by (cases s)
  assume "xorshift s = (0, 0)"
  then have "fst (xorshift s) = 0" "snd (xorshift s) = 0" by simp_all
  then have y: "y = 0" and e: "y XOR drop_bit 3 y XOR (x XOR push_bit 2 x) XOR drop_bit 7 (x XOR push_bit 2 x) = 0"
    unfolding s xorshift_def Let_def prod.case fst_conv snd_conv .
  from e have "(x XOR push_bit 2 x) XOR drop_bit 7 (x XOR push_bit 2 x) = 0" unfolding y by simp
  then have "x = 0" using xor_push_zero [OF xor_drop_zero] by blast
  with y s assms show False by simp
qed

lemma xs_loop_ends:
  assumes "s \<noteq> (0, 0)"
  obtains r where "xs_loop 1 s = Some r" "r \<noteq> (0, 0)" "\<not> again r"
proof -
  have two: "\<not> again (xorshift r)" if r: "r \<noteq> (0, 0)" "again r" for r
  proof -
    obtain x y where xy: "r = (x, y)" by (cases r)
    with r have y: "y = 0" and x: "x \<le> 2" "x \<noteq> 0" by (simp_all add: again_def)
    have "unat x \<noteq> 0" using x(2) by (simp only: unsigned_eq_0_iff not_False_eq_True)
    then have "unat x = 1 \<or> unat x = 2" using x(1) by (simp add: word_le_nat_alt) linarith
    then have "x = 1 \<or> x = 2" by (auto simp: word_unat_eq_iff)
    then show ?thesis unfolding xy y again_def xorshift_def by (elim disjE) simp_all
  qed
  have n1: "xorshift s \<noteq> (0, 0)" by (rule xorshift_nonzero [OF assms])
  show thesis
  proof (cases "again (xorshift s)")
    case True
    then show thesis
      using that two [OF n1] xorshift_nonzero [OF n1] by (simp add: xs_loop.simps Let_def)
  next
    case False
    then show thesis using that n1 by (simp add: xs_loop.simps Let_def)
  qed
qed

lemma next_random_ends:
  assumes "random_ok sh"
  shows "\<exists>t rnd. next_random (pid sh) (monotonic_us sh) (random_gen sh) = Some (t, rnd) \<and>
    galois_LFSR rnd \<noteq> 0 \<and> (xs64_x rnd, xs64_y rnd) \<noteq> (0, 0) \<and> t \<le> 0x7fff"
proof -
  define rnd where "rnd = (if galois_LFSR (random_gen sh) = 0 then init_random_t (pid sh) (monotonic_us sh) else random_gen sh)"
  have g: "galois_LFSR rnd \<noteq> 0" "(xs64_x rnd, xs64_y rnd) \<noteq> (0, 0)"
    using assms by (auto simp: rnd_def random_ok_def init_random_t_def)
  obtain x y where xs: "xs_loop 1 (xs64_x rnd, xs64_y rnd) = Some (x, y)" "(x, y) \<noteq> (0, 0)"
    using xs_loop_ends [OF g(2)] by (metis surj_pair)
  have lfsr: "(if sint a < 0 then push_bit 1 a XOR 0x8000000b else push_bit 1 a) \<noteq> 0" if "a \<noteq> 0" for a :: u32
  proof -
    have low: "\<not> bit (push_bit 1 a) 0" "bit (0x8000000b :: u32) 0" unfolding bit_push_bit_iff by simp_all
    then have "push_bit 1 a XOR 0x8000000b \<noteq> 0" using xor_zero_eq [of "push_bit 1 a" "0x8000000b"] by metis
    moreover have "push_bit 1 a \<noteq> 0" if "\<not> sint a < 0"
    proof
      assume z: "push_bit 1 a = 0"
      have "\<not> bit a n" for n
      proof (cases "n < 31")
        case True
        then have "bit a n = bit (push_bit 1 a) (Suc n)" unfolding bit_push_bit_iff by simp
        with z show ?thesis by simp
      next
        case False
        have "\<not> bit a 31" using that bit_last_iff [of a] by simp
        then show ?thesis using False bit_imp_le_length [of a n] by (cases "n = 31") auto
      qed
      then have "a = 0" by (intro bit_eqI) simp
      with \<open>a \<noteq> 0\<close> show False ..
    qed
    ultimately show ?thesis by simp
  qed
  have "(z AND 0x7fff :: u32) \<le> 0x7fff" for z by (rule word_and_le1)
  then show ?thesis
    using xs lfsr [OF g(1)] unfolding next_random_def rnd_def [symmetric]
    by (simp only: Let_def option.case prod.case random_t.simps) auto
qed

text \<open>Setting a dynamic variable to what it has become.\<close>

lemma find_id:
  assumes "table_ok sh" and "entry sh n = Some v" and "v_id v = Some i"
  shows "var_name (varinit_text i sh) = n"
proof -
  have v: "named sh v = n" "v \<in> set (vartab sh ! hashvar n)" "var_ok sh (hashvar n) v"
    using entry_SomeD [OF assms(1,2)] by auto
  have n: "n = init_name i" using v assms(3) by (auto simp: var_ok_def)
  have "v \<in> set (concat (vartab sh))"
    using v(2) hashvar_less [of n] assms(1) by (auto simp: table_ok_def)
  then obtain w where w: "find (\<lambda>v. v_id v = Some i) (concat (vartab sh)) = Some w"
    using assms(3) by (cases "find (\<lambda>v. v_id v = Some i) (concat (vartab sh))") (auto simp: find_None_iff)
  then have "w \<in> set (concat (vartab sh))" "v_id w = Some i" using find_mem [OF w] by simp_all
  then obtain h where "h < VTABSIZE" "w \<in> set (vartab sh ! h)"
    using assms(1) by (auto simp: table_ok_def in_set_conv_nth [of _ "vartab sh"])
  then have "var_ok sh h w" using table_ok_bucket [OF assms(1)] by (auto simp: bucket_ok_def list_all_iff)
  then have "named sh w = init_name i" using \<open>v_id w = Some i\<close> by (simp add: var_ok_def)
  then show ?thesis by (simp add: varinit_text_def w named_def n)
qed

lemma entry_map:
  assumes "table_ok sh" and "\<And>v. v_text (f v) = v_text v \<and> v_id (f v) = v_id v \<and> v_func (f v) = v_func v \<and>
    (v_flags (f v) \<inter> {VUNSET, VDYNAMIC} = v_flags v \<inter> {VUNSET, VDYNAMIC})"
  defines "sh' \<equiv> sh\<lparr>vartab := map (map f) (vartab sh)\<rparr>"
  shows "table_ok sh' \<and> layout sh' = layout sh \<and> (\<forall>n. entry sh' n = map_option f (entry sh n))"
proof -
  have n: "named sh (f v) = named sh v" for v using assms(2) by (simp add: named_def)
  have "var_ok sh h (f v) = var_ok sh h v" for h v
  proof -
    have "VUNSET \<in> v_flags (f v) \<longleftrightarrow> VUNSET \<in> v_flags v" "VDYNAMIC \<in> v_flags (f v) \<longleftrightarrow> VDYNAMIC \<in> v_flags v"
      using assms(2) [of v] by blast+
    then show ?thesis using assms(2) [of v] by (simp add: var_ok_def n)
  qed
  then have "bucket_ok sh h (map f vs) = bucket_ok sh h vs" for h vs
    by (simp add: bucket_ok_def list_all_iff n comp_def)
  then have t: "table_ok sh'" using assms(1) by (simp add: sh'_def table_ok_def)
  have find: "find (\<lambda>v. named sh v = m) (map f vs) = map_option f (find (\<lambda>v. named sh v = m) vs)" for m vs
    by (induction vs) (simp_all add: n)
  have "entry sh' m = map_option f (entry sh m)" for m
    using assms(1) hashvar_less [of m] by (simp add: entry_def sh'_def table_ok_def find)
  with t show ?thesis by (simp add: sh'_def layout_def n comp_def)
qed

lemma set_dynamic_ok:
  assumes "table_ok sh" and "entry sh n = Some v" and "v_id v = Some i" and "\<not> locked v" and "valid_name n"
  shows "\<exists>sh'. set_dynamic i val sh = Inr sh' \<and> callback_ok n sh sh' \<and> shell_value sh' n = Some val"
proof -
  have vn: "var_name (varinit_text i sh) = n" by (rule find_id [OF assms(1-3)])
  have e: "case setvar_with (\<lambda>f value sh. Inr sh) (varinit_text i sh) (Some val) {VNOFUNC} sh of
      Inl e \<Rightarrow> (\<exists>v. entry sh n = Some v \<and> locked v) \<and> e = Read_only n
    | Inr sh' \<Rightarrow> \<not> (\<exists>v. entry sh n = Some v \<and> locked v) \<and> changes_at n sh sh' \<and> shell_value sh' n = Some val \<and>
        (Some val \<noteq> None \<and> entry sh n \<noteq> None \<longrightarrow> layout sh' = layout sh)"
    using quiet.setvar_effect [OF assms(1), of "varinit_text i sh" "{VNOFUNC}" "Some val", unfolded vn] assms(5) by simp
  then obtain sh1 where r: "setvar_with (\<lambda>f value sh. Inr sh) (varinit_text i sh) (Some val) {VNOFUNC} sh = Inr sh1"
    and c: "changes_at n sh sh1" "shell_value sh1 n = Some val" "layout sh1 = layout sh"
    using assms(2,4) by (auto split: sum.splits)
  define f where "f = (\<lambda>v :: var. if v_id v = Some i then v\<lparr>v_flags := v_flags v - {VNOFUNC}\<rparr> else v)"
  have t1: "table_ok sh1" using c(1) by (simp add: changes_at_def)
  have "v_text (f v) = v_text v \<and> v_id (f v) = v_id v \<and> v_func (f v) = v_func v \<and>
    (v_flags (f v) \<inter> {VUNSET, VDYNAMIC} = v_flags v \<inter> {VUNSET, VDYNAMIC})" for v by (auto simp: f_def)
  from entry_map [of sh1 f, OF t1 this]
  have m: "table_ok (clear_nofunc i sh1)" "layout (clear_nofunc i sh1) = layout sh1"
    "\<And>m. entry (clear_nofunc i sh1) m = map_option f (entry sh1 m)"
    by (simp_all add: clear_nofunc_def f_def)
  have "entry (clear_nofunc i sh1) m = entry sh m" if "m \<noteq> n" for m
  proof (cases "entry sh1 m")
    case None
    then show ?thesis using c(1) that m(3) [of m] by (simp add: changes_at_def)
  next
    case (Some w)
    have "v_id w \<noteq> Some i"
    proof
      assume "v_id w = Some i"
      moreover have "entry sh m = Some w" using Some c(1) that by (simp add: changes_at_def)
      ultimately have "var_name (varinit_text i sh) = m" using find_id [OF assms(1)] by blast
      with vn that show False by simp
    qed
    then show ?thesis using Some c(1) that m(3) [of m] by (simp add: changes_at_def f_def)
  qed
  moreover have "text_of (clear_nofunc i sh1) = text_of sh1" by (simp add: clear_nofunc_def)
  then have "shell_value (clear_nofunc i sh1) n = shell_value sh1 n"
    by (simp add: shell_value_def m(3) f_def split: option.split)
  moreover have "linenovar (clear_nofunc i sh1) = linenovar sh" "random_ok sh \<longrightarrow> random_ok (clear_nofunc i sh1)"
    using c(1) by (auto simp: changes_at_def clear_nofunc_def random_ok_def)
  ultimately show ?thesis
    using m(1,2) c by (simp add: set_dynamic_def r callback_ok_def changes_at_def)
qed

lemma table_frame:
  assumes "vartab sh' = vartab sh" and "linenovar sh' = linenovar sh"
  shows "table_ok sh' = table_ok sh" "entry sh' = entry sh" "layout sh' = layout sh" "shell_value sh' = shell_value sh"
proof -
  have t: "text_of sh' = text_of sh" by (rule text_of_linenovar [OF assms(2)])
  show "table_ok sh' = table_ok sh" by (simp add: table_ok_def assms named_cong [OF t])
  show e: "entry sh' = entry sh" by (simp add: entry_def assms named_cong [OF t] fun_eq_iff)
  show "layout sh' = layout sh" by (simp add: layout_def assms named_cong [OF t])
  show "shell_value sh' = shell_value sh" by (simp add: shell_value_def e t fun_eq_iff split: option.split)
qed

lemma callback_frame:
  "vartab sh' = vartab sh \<Longrightarrow> linenovar sh' = linenovar sh \<Longrightarrow> (random_ok sh \<longrightarrow> random_ok sh') \<Longrightarrow>
   table_ok sh \<Longrightarrow> callback_ok n sh sh'"
  using table_frame [of sh' sh] by (simp add: callback_ok_def changes_at_def)

lemma callback_trans: "callback_ok n sh sh' \<Longrightarrow> callback_ok n sh' sh'' \<Longrightarrow> callback_ok n sh sh''"
  using changes_at_trans [of n sh sh' sh''] by (simp add: callback_ok_def)

lemma getter_id:
  assumes "table_ok sh" and "entry sh n = Some v" and "v_func v = Some f" and "f \<in> getters"
  shows "v_id v = Some (if f = Change_random then vrandom else if f = Change_seconds then vepochs else vepochr) \<and> valid_name n"
proof -
  have v: "var_ok sh (hashvar n) v" "named sh v = n" using entry_SomeD [OF assms(1,2)] by auto
  then have "v_id v = Some (if f = Change_random then vrandom else if f = Change_seconds then vepochs else vepochr)"
    using assms(3,4) by (auto simp: var_ok_def callbacks_of_def getters_def)
  moreover from this v have "n = init_name (if f = Change_random then vrandom else if f = Change_seconds then vepochs else vepochr)"
    by (simp add: var_ok_def)
  then have "valid_name n"
    by (simp add: init_name_def vrandom_def vepochs_def vepochr_def valid_name_def is_name_def is_in_name_def isalpha_def)
  ultimately show ?thesis by simp
qed

lemma getter_name:
  assumes "table_ok sh" and "entry sh n = Some v" and "v_func v = Some f" and "f \<in> getters"
  shows "n \<in> {''LINENO'', ''RANDOM'', ''EPOCHSECONDS'', ''EPOCHREALTIME''}"
  using getter_id [OF assms] entry_SomeD [OF assms(1,2)]
  by (auto simp: var_ok_def init_name_def vrandom_def vepochs_def vepochr_def split: if_splits)

lemma change_epoch_ok:
  assumes "table_ok sh" and "entry sh n = Some v" and "v_func v = Some f" and "\<not> locked v"
  shows "f = Change_seconds \<Longrightarrow> \<exists>sh' t. change_seconds sh = Inr sh' \<and> callback_ok n sh sh' \<and> shell_value sh' n = Some t"
    and "f = Change_realtime \<Longrightarrow> \<exists>sh' t. change_realtime sh = Inr sh' \<and> callback_ok n sh sh' \<and> shell_value sh' n = Some t"
proof -
  assume f: "f = Change_seconds"
  then have "v_id v = Some vepochs" "valid_name n" using getter_id [OF assms(1-3)] by (auto simp: getters_def)
  from set_dynamic_ok [OF assms(1,2) this(1) assms(4) this(2), of "show_nat (unat (fst (timeval sh)))"]
  show "\<exists>sh' t. change_seconds sh = Inr sh' \<and> callback_ok n sh sh' \<and> shell_value sh' n = Some t"
    unfolding change_seconds_def by blast
next
  assume f: "f = Change_realtime"
  then have "v_id v = Some vepochr" "valid_name n" using getter_id [OF assms(1-3)] by (auto simp: getters_def)
  from set_dynamic_ok [OF assms(1,2) this(1) assms(4) this(2)]
  show "\<exists>sh' t. change_realtime sh = Inr sh' \<and> callback_ok n sh sh' \<and> shell_value sh' n = Some t"
    unfolding change_realtime_def by blast
qed

lemma var_func_keeps:
  assumes "table_ok sh" and "entry sh n = Some v" and "v_func v = Some f" and "\<not> locked v"
  shows "\<exists>sh'. var_func f val sh = Inr sh' \<and> callback_ok n sh sh'"
proof (cases f)
  case Changemail
  then show ?thesis using assms(1) by (auto simp: changemail_def random_ok_def intro!: callback_frame)
next
  case Changepath
  then show ?thesis using assms(1) by (auto simp: changepath_def clearcmdentry_def random_ok_def intro!: callback_frame)
next
  case Getoptsreset
  then show ?thesis using assms(1) by (auto simp: getoptsreset_def random_ok_def intro!: callback_frame)
next
  case Change_random
  then show ?thesis using assms(1)
    by (auto simp: change_random_def seed_random_def init_random_t_def random_ok_def Let_def intro!: callback_frame)
qed (use change_epoch_ok [OF assms] in auto)

interpretation sets: callbacks var_func
  by unfold_locales (rule var_func_keeps)

lemma dynamic_func_ok:
  assumes "shell_ok sh" and "entry sh n = Some v" and "VDYNAMIC \<in> v_flags v"
  obtains f sh' t where "v_func v = Some f" "dynamic_func f sh = Inr sh'" "callback_ok n sh sh'" "shell_value sh' n = Some t"
proof -
  have t: "table_ok sh" "random_ok sh" using assms(1) by (auto simp: shell_ok_def)
  have l: "\<not> locked v" using assms(3) by (auto simp: locked_def)
  obtain f where f: "v_func v = Some f" "f \<in> getters"
    using entry_SomeD [OF t(1) assms(2)] assms(3) by (auto simp: var_ok_def)
  show thesis
  proof (cases "f = Change_random")
    case False
    then show thesis using f that change_epoch_ok [OF t(1) assms(2) f(1) l] by (auto simp: getters_def)
  next
    case True
    obtain x rnd where x: "next_random (pid sh) (monotonic_us sh) (random_gen sh) = Some (x, rnd)"
      "galois_LFSR rnd \<noteq> 0" "(xs64_x rnd, xs64_y rnd) \<noteq> (0, 0)" using next_random_ends [OF t(2)] by blast
    let ?sh = "sh\<lparr>random_gen := rnd\<rparr>"
    have c: "callback_ok n sh ?sh" using x t by (intro callback_frame) (simp_all add: random_ok_def)
    have "table_ok ?sh" "entry ?sh n = Some v" using t(1) assms(2) table_frame [of ?sh sh] by simp_all
    from set_dynamic_ok [OF this _ l] getter_id [OF t(1) assms(2) f] True
    obtain sh' where "set_dynamic vrandom (show_nat (unat x)) ?sh = Inr sh'" "callback_ok n ?sh sh'"
      "shell_value sh' n = Some (show_nat (unat x))" by (auto simp: vrandom_def)
    with that [OF f(1)] True x(1) callback_trans [OF c] show thesis by (simp add: change_random_def)
  qed
qed

section \<open>Lookup\<close>

lemma linenovar_frame:
  assumes "table_ok sh" and "vartab sh' = vartab sh" and "linenovar sh' = ''LINENO='' @ d"
  shows "table_ok sh' \<and> entry sh' = entry sh \<and> layout sh' = layout sh \<and>
    (\<forall>m. m \<noteq> ''LINENO'' \<longrightarrow> shell_value sh' m = shell_value sh m)"
proof -
  obtain d' where d': "linenovar sh = ''LINENO='' @ d'" using assms(1) by (auto simp: table_ok_def)
  then have same: "var_name (linenovar sh') = ''LINENO''" "var_name (linenovar sh) = ''LINENO''"
    using assms(3) by simp_all
  have nm: "named sh' = named sh" using same by (simp add: named_def text_of_def fun_eq_iff split: vtext.split)
  have eq: "CHR ''='' \<in> set (text_of sh' t) \<longleftrightarrow> CHR ''='' \<in> set (text_of sh t)" for t
    using assms(3) d' by (simp add: text_of_def split: vtext.split)
  have "var_ok sh' = var_ok sh" by (simp add: var_ok_def nm eq fun_eq_iff)
  then have t: "table_ok sh'" using assms by (simp add: table_ok_def bucket_ok_def nm)
  have e: "entry sh' = entry sh" by (simp add: entry_def nm assms(2) fun_eq_iff)
  have "shell_value sh' m = shell_value sh m" if m: "m \<noteq> ''LINENO''" for m
  proof (cases "entry sh m")
    case (Some w)
    have "v_text w \<noteq> Linenovar"
      using entry_SomeD [OF assms(1) Some] m same by (auto simp: named_def text_of_def)
    then show ?thesis using Some by (simp add: shell_value_def e text_of_def split: vtext.split)
  qed (simp add: shell_value_def e)
  with t e show ?thesis by (simp add: layout_def nm assms(2))
qed

text \<open>The names whose value a lookup may compute; a lookup changes no other.\<close>

definition computed_names :: "string set" where
  "computed_names = {''LINENO'', ''RANDOM'', ''EPOCHSECONDS'', ''EPOCHREALTIME''}"

lemma lookup_effect:
  assumes "shell_ok sh" and "plain n"
  obtains r sh' where "ash_lookupvar n sh = Inr (r, sh')" "shell_ok sh'" "r = shell_value sh' n"
    "\<And>m. m \<notin> computed_names \<Longrightarrow> shell_value sh' m = shell_value sh m" "layout sh' = layout sh"
proof -
  have t: "table_ok sh" "random_ok sh" using assms(1) by (auto simp: shell_ok_def)
  have fe: "find_var s n = entry s n" if "table_ok s" for s
    using find_var_entry [OF that, of n] assms(2) by simp
  show thesis
  proof (cases "entry sh n")
    case None
    then show thesis using that [of None sh] assms(1) by (simp add: ash_lookupvar_def fe [OF t(1)] shell_value_def)
  next
    case (Some v)
    obtain sh1 where sh1: "(if VDYNAMIC \<in> v_flags v then (case v_func v of Some f \<Rightarrow> dynamic_func f sh | None \<Rightarrow> Inr sh)
        else Inr sh) = Inr sh1" "callback_ok n sh sh1" "n \<notin> computed_names \<longrightarrow> sh1 = sh"
    proof (cases "VDYNAMIC \<in> v_flags v")
      case True
      obtain f where "v_func v = Some f" "f \<in> getters"
        using entry_SomeD [OF t(1) Some] True by (auto simp: var_ok_def)
      from getter_name [OF t(1) Some this] have n: "n \<in> computed_names" unfolding computed_names_def .
      obtain f sh' where "v_func v = Some f" "dynamic_func f sh = Inr sh'" "callback_ok n sh sh'"
        using dynamic_func_ok [OF assms(1) Some True] by blast
      with that [of sh'] True n show thesis by simp
    next
      case False
      have "callback_ok n sh sh" using t by (intro callback_frame) simp_all
      with that False show thesis by simp
    qed
    then have ok1: "table_ok sh1" "random_ok sh1" "layout sh1 = layout sh" "linenovar sh1 = linenovar sh"
      using t by (auto simp: callback_ok_def changes_at_def)
    have frame: "shell_value sh1 m = shell_value sh m" if "m \<notin> computed_names" for m
      using sh1(2,3) value_changes_at [of n sh sh1 m] that by (cases "m = n") (auto simp: callback_ok_def)
    obtain v1 where v1: "entry sh1 n = Some v1"
    proof -
      obtain k where "k < length (vartab sh ! hashvar n)" "vartab sh ! hashvar n ! k = v" "named sh v = n"
        using entry_SomeD [OF t(1) Some] by (auto simp: in_set_conv_nth)
      then have "slot sh n k" by (simp add: slot_def)
      then have "slot sh1 n k" using slot_layout ok1(3) t(1) by (simp add: table_ok_def)
      from slot_entry [OF ok1(1) this] that show thesis by blast
    qed
    have l: "ash_lookupvar n sh = Inr (if VUNSET \<in> v_flags v1 then (None, sh1) else
        (let sh2 = (if v_id v1 = Some vlineno \<and> v_text v1 = Linenovar
           then sh1\<lparr>linenovar := ''LINENO='' @ fmt_lld (scast (lineno sh1))\<rparr> else sh1)
         in (Some (var_end (text_of sh2 (v_text v1))), sh2)))"
      using sh1(1) Some v1 fe [OF t(1)] fe [OF ok1(1)] by (simp add: ash_lookupvar_def Let_def)
    show thesis
    proof (cases "VUNSET \<notin> v_flags v1 \<and> v_id v1 = Some vlineno \<and> v_text v1 = Linenovar")
      case False
      then show thesis using l that [of _ sh1] ok1 frame
        by (auto simp: shell_ok_def shell_value_def v1 Let_def split: if_splits)
    next
      case True
      let ?sh = "sh1\<lparr>linenovar := ''LINENO='' @ fmt_lld (scast (lineno sh1))\<rparr>"
      have "table_ok ?sh \<and> entry ?sh = entry sh1 \<and> layout ?sh = layout sh1 \<and>
          (\<forall>m. m \<noteq> ''LINENO'' \<longrightarrow> shell_value ?sh m = shell_value sh1 m)"
        by (rule linenovar_frame [OF ok1(1)]) simp_all
      moreover have "random_ok ?sh" using ok1(2) by (simp add: random_ok_def)
      moreover have "ash_lookupvar n sh = Inr (shell_value ?sh n, ?sh)"
        using l True calculation v1 by (simp add: Let_def shell_value_def)
      ultimately show thesis using that [of _ ?sh] ok1(3) frame
        by (simp add: shell_ok_def computed_names_def)
    qed
  qed
qed

end
