(* ===== verification/ShellEval.thy ===== *)
theory ShellEval
  imports ShellArith ShellVars
begin

text \<open>
  The arithmetic evaluator over a variable store: what the store must promise for every evaluation
  to end (the locale \<open>variable_store\<close>), and the variables of \<^verbatim>\<open>ash.c\<close> as such a store.
\<close>

section \<open>What the evaluator needs of a store\<close>

text \<open>
  \<open>wild e\<close> holds the names whose text may be anything; every other name is unset or has a decimal
  text, as an assignment stores it. Lookups and assignments must not add to it.
\<close>

locale variable_store =
  fixes m :: "'e arith_state" and ok :: "'e \<Rightarrow> bool" and wild :: "'e \<Rightarrow> string set"
  assumes lookup_keeps: "ok e \<Longrightarrow> valid_name x \<Longrightarrow> lookupvar m x e = (r, e') \<Longrightarrow>
      ok e' \<and> wild e' \<subseteq> wild e \<and> (\<forall>t. r = Some t \<longrightarrow> x \<in> wild e \<or> (\<exists>w. t = fmt_lld w))"
    and set_keeps: "ok e \<Longrightarrow> valid_name x \<Longrightarrow> setvar m x (fmt_lld w) e = Some e' \<Longrightarrow> ok e' \<and> wild e' \<subseteq> wild e"
    and finite_wild: "ok e \<Longrightarrow> finite (wild e)"

text \<open>A computation that ends, keeps the store within \<open>D\<close>, and whose value satisfies \<open>P\<close>.\<close>

definition settles ::
  "('e \<Rightarrow> bool) \<Rightarrow> ('e \<Rightarrow> string set) \<Rightarrow> string set \<Rightarrow> ('a \<Rightarrow> bool) \<Rightarrow> 'a result \<times> 'e \<Rightarrow> bool" where
  "settles ok wild D P = (\<lambda>(r, e). r \<noteq> No_fuel \<and> ok e \<and> wild e \<subseteq> D \<and> (\<forall>a. r = Value a \<longrightarrow> P a))"

lemma settles_simps [simp]:
  "settles ok wild D P (Value a, e) \<longleftrightarrow> ok e \<and> wild e \<subseteq> D \<and> P a"
  "settles ok wild D P (Error msg, e) \<longleftrightarrow> ok e \<and> wild e \<subseteq> D"
  "settles ok wild D P (Longjmp, e) \<longleftrightarrow> ok e \<and> wild e \<subseteq> D"
  "settles ok wild D P (Undefined x, e) \<longleftrightarrow> ok e \<and> wild e \<subseteq> D"
  "settles ok wild D P (No_fuel, e) \<longleftrightarrow> False"
  by (auto simp: settles_def)

lemma settles_and_then:
  "settles ok wild D P r \<Longrightarrow> (\<And>a e. ok e \<Longrightarrow> wild e \<subseteq> D \<Longrightarrow> P a \<Longrightarrow> settles ok wild D Q (f a e)) \<Longrightarrow>
   settles ok wild D Q (and_then r f)"
  by (cases r; cases "fst r") auto

definition named_well :: "var_or_num \<Rightarrow> bool" where
  "named_well t \<longleftrightarrow> (\<forall>x. num_var t = Some x \<longrightarrow> valid_name x)"

definition stack_well :: "var_or_num list \<Rightarrow> bool" where
  "stack_well = list_all named_well"

lemma stack_well_simps [simp]: "stack_well []" "stack_well (t # ts) \<longleftrightarrow> named_well t \<and> stack_well ts"
  by (simp_all add: stack_well_def)

lemma endofname_valid_name:
  "endofname e = (name, p) \<Longrightarrow> name \<noteq> [] \<Longrightarrow> valid_name name"
  by (auto simp: endofname_def valid_name_def is_name_in_name list_all_iff dest: set_takeWhileD
      split: list.splits if_splits)

context variable_store
begin

abbreviation fine where "fine D P \<equiv> settles ok wild D P"

definition recursion_fine :: "'e evaluator \<Rightarrow> string list \<Rightarrow> string set \<Rightarrow> bool" where
  "recursion_fine ev names D \<longleftrightarrow>
     (\<forall>x t e. ok e \<longrightarrow> wild e \<subseteq> D \<longrightarrow> x \<notin> set names \<longrightarrow> (x \<in> D \<or> (\<exists>w. t = fmt_lld w)) \<longrightarrow>
        fine D (\<lambda>_. True) (ev (x # names) t e))"

lemma lookup_fine:
  assumes "recursion_fine ev names D" and "ok e" and "wild e \<subseteq> D" and "named_well t"
  shows "fine D named_well (arith_lookup_val m ev names t e)"
proof (cases "num_var t")
  case None
  then show ?thesis using assms by (simp add: arith_lookup_val_def)
next
  case (Some x)
  then have x: "valid_name x" using assms(4) by (simp add: named_well_def)
  obtain r e' where l: "lookupvar m x e = (r, e')" by fastforce
  note k = lookup_keeps [OF assms(2) x l]
  show ?thesis
  proof (cases r)
    case None
    then show ?thesis using k assms(3,4) Some l by (auto simp: arith_lookup_val_def named_well_def)
  next
    case p: (Some p)
    show ?thesis
    proof (cases "x \<in> set names")
      case True
      then show ?thesis using k assms(3) Some l p by (auto simp: arith_lookup_val_def)
    next
      case False
      have "fine D (\<lambda>_. True) (ev (x # names) p e')"
      proof -
        have "ok e'" "wild e' \<subseteq> D" "x \<in> D \<or> (\<exists>w. p = fmt_lld w)" using k p assms(3) by auto
        then show ?thesis using assms(1) [unfolded recursion_fine_def, rule_format] False by blast
      qed
      then have "fine D named_well (and_then (ev (x # names) p e') (\<lambda>n env. (Value (t\<lparr>num_val := n\<rparr>), env)))"
        by (rule settles_and_then) (use assms(4) in \<open>simp add: named_well_def\<close>)
      then show ?thesis using Some l p False by (simp add: arith_lookup_val_def)
    qed
  qed
qed

lemma store_fine:
  "ok e \<Longrightarrow> wild e \<subseteq> D \<Longrightarrow> named_well t \<Longrightarrow> stack_well below \<Longrightarrow> fine D stack_well (store_result m op t rez below e)"
  using set_keeps [of e]
  by (auto simp: store_result_def Let_def named_well_def split: option.split) blast+

lemma apply_fine:
  assumes "recursion_fine ev names D" and "ok e" and "wild e \<subseteq> D" and "stack_well nums"
  shows "fine D stack_well (arith_apply m ev names op nums e)"
proof (cases nums)
  case Nil
  then show ?thesis using assms by (simp add: arith_apply_def)
next
  case (Cons t below)
  have binary: "fine D stack_well (apply_binary m ev names op u below e)"
    if "ok e" "wild e \<subseteq> D" "named_well u" for u e
  proof (cases below)
    case Nil
    then show ?thesis using that by (simp add: apply_binary_def)
  next
    case l: (Cons left rest)
    have w: "named_well left" "stack_well rest" using assms(4) Cons l by simp_all
    have "fine D named_well (if op \<noteq> TOK_ASSIGN then arith_lookup_val m ev names left e else (Value left, e))"
      using lookup_fine [OF assms(1) that(1,2) w(1)] that w by simp
    moreover have "fine D (\<lambda>_. True) (binary_op op a b, e')" if "ok e'" "wild e' \<subseteq> D" for a b e'
      using binary_op_fueled [of op a b] that by (cases "binary_op op a b") auto
    ultimately show ?thesis
      using that w unfolding apply_binary_def l
      by (auto intro!: settles_and_then store_fine simp: named_well_def)
  qed
  show ?thesis
    unfolding arith_apply_def Cons
    using lookup_fine [OF assms(1-3), of t] assms(4) Cons binary
    by (auto intro!: settles_and_then store_fine split: option.split)
qed

lemma apply_stack_fine:
  "recursion_fine ev names D \<Longrightarrow> ok e \<Longrightarrow> wild e \<subseteq> D \<Longrightarrow> stack_well nums \<Longrightarrow>
   fine D (\<lambda>(b, ops, nums). stack_well nums) (apply_stack m ev names op ops nums e)"
proof (induction ops arbitrary: nums e)
  case (Cons o' ops)
  then show ?case
    by (auto simp: apply_stack.simps(2) Let_def intro!: settles_and_then [where P = stack_well] apply_fine)
qed simp

definition turn_fine :: "string set \<Rightarrow> 'e turn \<Rightarrow> bool" where
  "turn_fine D t = (case t of Return r \<Rightarrow> fine D (\<lambda>_. True) r
     | Continue s \<Rightarrow> ok (callers s) \<and> wild (callers s) \<subseteq> D \<and> stack_well (numstack s))"

lemma push_fine:
  assumes "ok (callers s)" "wild (callers s) \<subseteq> D" "stack_well (numstack s)"
  shows "named_well t \<Longrightarrow> turn_fine D (push_num n t p s)" and "turn_fine D (push_op n op s)"
  using assms by (auto simp: turn_fine_def push_num_def push_op_def)

lemma operator_fine:
  assumes "recursion_fine ev names D" "ok (callers s)" "wild (callers s) \<subseteq> D" "stack_well (numstack s)"
  shows "turn_fine D (operator_found m ev names n op s)"
proof -
  have "turn_fine D (operator_push m ev names n prev op s)" for prev op
  proof -
    obtain r e where a: "apply_stack m ev names op (stack s) (numstack s) (callers s) = (r, e)" by fastforce
    have f: "fine D (\<lambda>(b, ops, nums). stack_well nums) (r, e)"
      using apply_stack_fine [OF assms, of op "stack s"] a by simp
    show ?thesis
    proof (cases "(PREC op > 0 \<and> PREC op < UNARYPREC) \<or> PREC op = SPEC_PREC")
      case False
      then show ?thesis using push_fine(2) [OF assms(2-4)] by (auto simp: operator_push_def Let_def)
    next
      case True
      show ?thesis
      proof (cases "prev = TOK_NUM")
        case False
        then show ?thesis using True assms by (auto simp: operator_push_def Let_def turn_fine_def)
      next
        case p: True
        show ?thesis
        proof (cases r)
          case (Value v)
          obtain matched ops nums where v: "v = (matched, ops, nums)" by (metis prod_cases3)
          let ?s = "s\<lparr>stack := ops, numstack := nums, callers := e, lasttok := TOK_NUM\<rparr>"
          have "ok (callers ?s)" "wild (callers ?s) \<subseteq> D" "stack_well (numstack ?s)" using f Value v by auto
          with push_fine(2) [OF this] show ?thesis
            using True p a Value v by (auto simp: operator_push_def Let_def turn_fine_def)
        qed (use True p a f in \<open>auto simp: operator_push_def Let_def turn_fine_def\<close>)
      qed
    qed
  qed
  then show ?thesis by (simp add: operator_found_def Let_def)
qed

lemma eval_turn_fine:
  assumes "recursion_fine ev names D" "ok (callers s)" "wild (callers s) \<subseteq> D" "stack_well (numstack s)"
  shows "turn_fine D (eval_turn m ev junk names start s)"
proof -
  define e where "e = skip_whitespace (expr s)"
  obtain name p where n: "endofname e = (name, p)" by fastforce
  obtain w rest er where w: "strto_arith_t e = (w, rest, er)" by (metis prod_cases3)
  have end_fine: "fine D (\<lambda>_. True) (and_then (arith_lookup_val m ev names t (callers s)) (\<lambda>t env. (Value (num_val t), env)))"
    if "named_well t" for t
    by (rule settles_and_then [OF lookup_fine [OF assms(1-3) that]]) simp
  have op_fine: "turn_fine D (case find_operator s e of
        Value (op, rest) \<Rightarrow> operator_found m ev names N op (s\<lparr>expr := rest\<rparr>)
      | Error msg \<Rightarrow> Return (Error msg, callers s) | Longjmp \<Rightarrow> Return (Longjmp, callers s)
      | Undefined x \<Rightarrow> Return (Undefined x, callers s) | No_fuel \<Rightarrow> Return (No_fuel, callers s))" for N
    using assms find_operator_error(2) [of s e] operator_fine [of ev names D "s\<lparr>expr := _\<rparr>"]
    by (cases "find_operator s e") (auto simp: turn_fine_def)
  have name_fine: "turn_fine D (push_num (length start + 2)
      \<lparr>num_val = junk, second_val = junk, second_val_present = False, num_var = Some name\<rparr> p s)" if "name \<noteq> []"
    using push_fine(1) [OF assms(2-4)] endofname_valid_name [OF n that] by (simp add: named_well_def)
  have num_fine: "turn_fine D (push_num (length start + 2)
      \<lparr>num_val = w', second_val = junk, second_val_present = False, num_var = None\<rparr> rest s)" for w'
    using push_fine(1) [OF assms(2-4)] by (simp add: named_well_def)
  show ?thesis
  proof (cases "e = []")
    case True
    then show ?thesis using assms end_fine
      by (cases "numstack s"; cases "tl (numstack s)")
        (auto simp: eval_turn_def e_def [symmetric] turn_fine_def)
  next
    case False
    then show ?thesis
      using op_fine name_fine num_fine by (simp add: eval_turn_def Let_def e_def [symmetric] n w)
  qed
qed

lemma eval_loop_fine:
  "m' = m \<Longrightarrow> recursion_fine ev names D \<Longrightarrow> ok (callers s) \<Longrightarrow> wild (callers s) \<subseteq> D \<Longrightarrow>
   stack_well (numstack s) \<Longrightarrow> fine D (\<lambda>_. True) (eval_loop m' ev junk names start s)"
proof (induction m' ev junk names start s rule: eval_loop.induct [case_names step])
  case (step m' ev junk names start s)
  note t = eval_turn_fine [OF step.prems(2-5), of junk start, folded step.prems(1)]
  show ?case
  proof (cases "eval_turn m' ev junk names start s")
    case (Continue s')
    with t step.IH [OF Continue step.prems(1,2)] show ?thesis
      by (simp add: eval_loop.simps [of m' ev junk names start s] turn_fine_def)
  next
    case (Return r)
    with t show ?thesis by (simp add: eval_loop.simps [of m' ev junk names start s] turn_fine_def)
  qed
qed

text \<open>Each nested evaluation adds a name of \<open>D\<close> to those being evaluated, or reads a decimal text.\<close>

lemma evaluate_fine:
  "ok e \<Longrightarrow> wild e \<subseteq> D \<Longrightarrow> finite D \<Longrightarrow> card (D - set names) + 1 < fuel \<Longrightarrow>
   fine D (\<lambda>_. True) (evaluate_string m junk fuel names s e)"
proof (induction fuel arbitrary: names s e)
  case (Suc fuel)
  have "recursion_fine (evaluate_string m junk fuel) names D"
    unfolding recursion_fine_def
  proof (intro allI impI)
    fix x t e
    assume e: "ok e" "wild e \<subseteq> D" and x: "x \<notin> set names" "x \<in> D \<or> (\<exists>w. t = fmt_lld w)"
    show "fine D (\<lambda>_. True) (evaluate_string m junk fuel (x # names) t e)"
    proof (cases "x \<in> D")
      case True
      then have "D - set (x # names) \<subset> D - set names" using x(1) by auto
      then have "card (D - set (x # names)) < card (D - set names)"
        using Suc.prems(3) by (intro psubset_card_mono) auto
      then show ?thesis using Suc.IH e Suc.prems by simp
    next
      case False
      then obtain w where "t = fmt_lld w" using x(2) by blast
      moreover obtain f where "fuel = Suc f" using Suc.prems(4) by (cases fuel) auto
      ultimately show ?thesis using e by (simp only: evaluate_decimal settles_simps)
    qed
  qed
  then show ?case
    using Suc.prems by (simp add: Let_def eval_loop_fine eval_init_def)
qed simp

theorem evaluation_ends:
  assumes "ok e" and "card (wild e) + 1 < fuel"
  shows "fst (arith m junk fuel s e) \<noteq> No_fuel"
  using evaluate_fine [OF assms(1) subset_refl finite_wild [OF assms(1)], of "[]" fuel junk s] assms(2)
  by (auto simp: arith_def settles_def)

end

section \<open>The shell's variables as a store\<close>

text \<open>
  \<open>setvar0\<close> and \<open>lookupvar\<close> as \<^verbatim>\<open>ash_arith\<close> passes them. A lookup that raises is not seen here: in a
  well-formed table there is none (\<open>lookup_effect\<close>).
\<close>

definition ash_arith_state :: "shell arith_state" where
  "ash_arith_state = \<lparr>
     lookupvar = (\<lambda>x sh. case ash_lookupvar x sh of Inr (r, sh') \<Rightarrow> (r, sh') | Inl _ \<Rightarrow> (None, sh)),
     setvar = (\<lambda>x t sh. case setvar0 x (Some t) sh of Inr sh' \<Rightarrow> Some sh' | Inl _ \<Rightarrow> None)\<rparr>"

definition undecimal :: "shell \<Rightarrow> string set" where
  "undecimal sh = computed_names \<union> {n. \<exists>t. shell_value sh n = Some t \<and> (\<forall>w. t \<noteq> fmt_lld w)}"

lemma finite_undecimal:
  assumes "shell_ok sh"
  shows "finite (undecimal sh)"
proof -
  have "{n. shell_value sh n \<noteq> None} \<subseteq> named sh ` set (concat (vartab sh))"
  proof
    fix n assume "n \<in> {n. shell_value sh n \<noteq> None}"
    then obtain v where v: "entry sh n = Some v" by (auto simp: shell_value_def split: option.splits)
    have t: "table_ok sh" using assms by (simp add: shell_ok_def)
    have "v \<in> set (vartab sh ! hashvar n)" "named sh v = n" using entry_SomeD [OF t v] by auto
    then show "n \<in> named sh ` set (concat (vartab sh))"
      using hashvar_less [of n] t nth_mem [of "hashvar n" "vartab sh"]
      by (intro rev_image_eqI [of v]) (auto simp: table_ok_def simp del: nth_mem)
  qed
  then have "finite {n. shell_value sh n \<noteq> None}" by (rule finite_subset) simp
  then have "finite {n. \<exists>t. shell_value sh n = Some t \<and> (\<forall>w. t \<noteq> fmt_lld w)}"
    by (rule finite_subset [rotated]) auto
  then show ?thesis by (simp add: undecimal_def computed_names_def)
qed

interpretation ash: variable_store ash_arith_state shell_ok undecimal
proof
  fix e e' :: shell and x r
  assume e: "shell_ok e" and x: "valid_name x" and l: "lookupvar ash_arith_state x e = (r, e')"
  obtain r' sh' where s: "ash_lookupvar x e = Inr (r', sh')" "shell_ok sh'" "r' = shell_value sh' x"
    "\<And>m. m \<notin> computed_names \<Longrightarrow> shell_value sh' m = shell_value e m"
    using lookup_effect [OF e valid_plain [OF x]] by blast
  from l have "(r', sh') = (r, e')" by (simp add: ash_arith_state_def s(1))
  then have e': "r' = r" "sh' = e'" by simp_all
  have "undecimal sh' \<subseteq> undecimal e" using s(4) unfolding undecimal_def by force
  moreover have "x \<in> undecimal e \<or> (\<exists>w. t = fmt_lld w)" if "r' = Some t" for t
  proof (cases "x \<in> computed_names")
    case False
    then have "shell_value e x = Some t" using s(3,4) that by simp
    then show ?thesis unfolding undecimal_def by blast
  qed (simp add: undecimal_def)
  ultimately show "shell_ok e' \<and> undecimal e' \<subseteq> undecimal e \<and> (\<forall>t. r = Some t \<longrightarrow> x \<in> undecimal e \<or> (\<exists>w. t = fmt_lld w))"
    using s(2) e' by auto
next
  fix e e' :: shell and x w
  assume e: "shell_ok e" and x: "valid_name x" and l: "setvar ash_arith_state x (fmt_lld w) e = Some e'"
  then have s: "ash_setvar x (Some (fmt_lld w)) {} e = Inr e'"
    by (auto simp: ash_arith_state_def setvar0_def split: sum.splits)
  have n: "var_name x = x" using valid_plain [OF x] by simp
  have c: "changes_at x e e'" "shell_value e' x = Some (fmt_lld w)"
    using sets.setvar_effect [of e x "{}" "Some (fmt_lld w)", unfolded n] e x s
    by (simp_all add: shell_ok_def ash_setvar_def)
  have "undecimal e' \<subseteq> undecimal e"
  proof
    fix m assume "m \<in> undecimal e'"
    then show "m \<in> undecimal e"
      using value_changes_at [OF c(1), of m] c(2) unfolding undecimal_def by (cases "m = x") auto
  qed
  then show "shell_ok e' \<and> undecimal e' \<subseteq> undecimal e"
    using c(1) e by (simp add: shell_ok_def changes_at_def)
qed (rule finite_undecimal)

section \<open>The initial table\<close>

definition row_name :: "shell \<Rightarrow> vflag set \<times> vtext \<times> vfunc option \<Rightarrow> string" where
  "row_name sh = (\<lambda>(flags, t, f). var_name (text_of sh t))"

fun rows_ok :: "shell \<Rightarrow> nat \<Rightarrow> (vflag set \<times> vtext \<times> vfunc option) list \<Rightarrow> bool" where
  "rows_ok sh i [] \<longleftrightarrow> True"
| "rows_ok sh i ((flags, t, f) # rows) \<longleftrightarrow>
     plain (var_name (text_of sh t)) \<and> (VUNSET \<notin> flags \<longrightarrow> CHR ''='' \<in> set (text_of sh t)) \<and>
     i < 13 \<and> var_name (text_of sh t) = init_name i \<and> (\<forall>g. f = Some g \<longrightarrow> (i, g) \<in> callbacks_of) \<and>
     (VDYNAMIC \<in> flags \<longrightarrow> (\<exists>g \<in> getters. f = Some g)) \<and> rows_ok sh (Suc i) rows"

lemma rows_ok_text: "text_of sh' = text_of sh \<Longrightarrow> rows_ok sh' i rows = rows_ok sh i rows \<and> row_name sh' = row_name sh"
  by (induction sh i rows rule: rows_ok.induct) (auto simp: row_name_def)

lemma link_vars_ok:
  "table_ok sh \<Longrightarrow> rows_ok sh i rows \<Longrightarrow> distinct (map (row_name sh) rows) \<Longrightarrow>
   \<forall>row \<in> set rows. entry sh (row_name sh row) = None \<Longrightarrow>
   table_ok (link_vars i rows sh) \<and> random_ok (link_vars i rows sh) = random_ok sh"
proof (induction i rows sh rule: link_vars.induct)
  case (2 i flags t f rows sh)
  define y where "y = \<lparr>v_id = Some i, v_flags = flags, v_text = t, v_func = f\<rparr>"
  define n where "n = var_name (text_of sh t)"
  define h where "h = hashvar (text_of sh t)"
  define sh1 where "sh1 = set_bucket h (y # vartab sh ! h) sh"
  have p: "plain n" using "2.prems"(2) unfolding rows_ok.simps n_def by blast
  then have h: "h = hashvar n" "h < VTABSIZE"
    unfolding h_def n_def by (simp_all add: hashvar_name plain_def hashvar_less)
  have y: "var_ok sh h y" "named sh y = n"
    using "2.prems"(2) h(1) by (auto simp: var_ok_def y_def named_def n_def)
  have e: "entry sh n = None" using "2.prems"(4) by (simp add: row_name_def n_def)
  have b: "bucket_ok sh h (vartab sh ! h)" using table_ok_bucket "2.prems"(1) h(2) .
  then have b': "bucket_ok sh h (y # vartab sh ! h)"
    using y e h(1) by (auto simp: bucket_ok_def entry_def find_None_iff)
  have t1: "table_ok sh1" unfolding sh1_def by (rule table_ok_set_bucket [OF "2.prems"(1) b'])
  have t: "text_of sh1 = text_of sh" unfolding sh1_def by simp
  have e1: "entry sh1 m = (if m = n then Some y else entry sh m)" for m
    unfolding sh1_def entry_set_bucket [OF "2.prems"(1) h(2)] using y(2) h(1) by (auto simp: entry_def)
  have r: "rows_ok sh1 (Suc i) rows" "row_name sh1 = row_name sh"
    using rows_ok_text [OF t, of "Suc i" rows] "2.prems"(2) by simp_all
  have d: "distinct (map (row_name sh1) rows)" "\<forall>row \<in> set rows. entry sh1 (row_name sh1 row) = None"
    using "2.prems"(3,4) e1 by (auto simp: row_name_def n_def t) force
  have s: "link_vars i ((flags, t, f) # rows) sh = link_vars (Suc i) rows sh1"
    by (simp add: sh1_def y_def h_def Let_def)
  have "random_ok sh1 = random_ok sh" by (simp add: sh1_def)
  with "2.IH" [OF h_def, folded y_def, folded sh1_def, OF t1 r(1) d] show ?case
    by (simp only: s)
qed simp

lemma initvar_ok:
  assumes "random_ok sh"
  shows "shell_ok (initvar sh)"
proof -
  let ?sh = "sh\<lparr>vartab := replicate VTABSIZE [], linenovar := ''LINENO=''\<rparr>"
  have t: "table_ok ?sh" by (simp add: table_ok_def bucket_ok_def VTABSIZE_def)
  have r: "rows_ok ?sh 0 varinit_data"
    by (simp add: varinit_data_def text_of_def init_name_def plain_def cstr_def callbacks_of_def getters_def
        vrandom_def vepochs_def vepochr_def)
  have d: "distinct (map (row_name ?sh) varinit_data)"
    by (simp add: varinit_data_def row_name_def text_of_def)
  have e: "\<forall>row \<in> set varinit_data. entry ?sh (row_name ?sh row) = None"
    using hashvar_less by (simp add: entry_def)
  have "random_ok ?sh" using assms by (simp add: random_ok_def)
  then show ?thesis
    using link_vars_ok [OF t r d e] unfolding shell_ok_def initvar_def by blast
qed

section \<open>Properties\<close>

text \<open>A shell that has just started.\<close>

definition blank_shell :: shell where
  "blank_shell = \<lparr>vartab = [], aflag = False, lineno = 1, linenovar = [], optind = 0, optoff = 0,
     mail_var_path_changed = False, random_gen = \<lparr>galois_LFSR = 0, LCG = 0, xs64_x = 0, xs64_y = 0\<rparr>,
     pid = 1, monotonic_us = 0, timeval = (0, 0), builtinloc = - 1, cmdtable = [], optlist = [], localvar_stack = []\<rparr>"

lemma started_ok: "shell_ok (initvar blank_shell)"
  by (rule initvar_ok) (simp add: blank_shell_def random_ok_def)

lemma list_all_update: "list_all Q xs \<Longrightarrow> Q z \<Longrightarrow> list_all Q (xs[h := z])"
  unfolding list_all_iff using set_update_subset_insert [of xs h z] by blast

lemma vartab_set_bucket: "vartab (set_bucket h vs sh) = (vartab sh)[h := vs]"
  by (simp add: set_bucket_def)

lemma link_vars_all:
  "length (vartab sh) = VTABSIZE \<Longrightarrow> list_all (list_all P) (vartab sh) \<Longrightarrow>
   (\<And>i flags t f. (flags, t, f) \<in> set rows \<Longrightarrow> P \<lparr>v_id = Some i, v_flags = flags, v_text = t, v_func = f\<rparr>) \<Longrightarrow>
   list_all (list_all P) (vartab (link_vars i rows sh))"
proof (induction i rows sh rule: link_vars.induct)
  case (2 i flags t f rows sh)
  let ?h = "hashvar (text_of sh t)"
  let ?y = "\<lparr>v_id = Some i, v_flags = flags, v_text = t, v_func = f\<rparr>"
  have "list_all P (vartab sh ! ?h)"
    using "2.prems"(1,2) hashvar_less [of "text_of sh t"] by (simp add: list_all_length)
  moreover have "P ?y" using "2.prems"(3) [of flags t f] by simp
  ultimately have "list_all P (?y # vartab sh ! ?h)" by simp
  then have "list_all (list_all P) (vartab (set_bucket ?h (?y # vartab sh ! ?h) sh))"
    unfolding vartab_set_bucket by (rule list_all_update [OF "2.prems"(2)])
  then show ?case using "2.IH" [of ?h] "2.prems" by (simp add: Let_def set_bucket_def)
qed simp

lemma started_unlocked: "entry (initvar sh) n = Some v \<Longrightarrow> \<not> locked v"
proof -
  assume "entry (initvar sh) n = Some v"
  then have v: "v \<in> set (vartab (initvar sh) ! hashvar n)" using find_mem unfolding entry_def by fast
  have len: "length (vartab (link_vars i rows sh)) = length (vartab sh)" for i rows sh
    by (induction i rows sh rule: link_vars.induct) (simp_all add: Let_def set_bucket_def)
  have "list_all (list_all (\<lambda>v. VREADONLY \<notin> v_flags v)) (vartab (initvar sh))"
    unfolding initvar_def by (rule link_vars_all) (auto simp: varinit_data_def list_all_iff)
  then have "VREADONLY \<notin> v_flags v"
    using v hashvar_less [of n] by (simp add: list_all_length initvar_def len) (auto simp: list_all_iff in_set_conv_nth)
  then show "\<not> locked v" by (auto simp: locked_def)
qed

lemma valid_x: "valid_name ''x''"
  by (simp add: valid_name_def is_name_def is_in_name_def isalpha_def)

lemma set_x_started:
  obtains sh' where "ash_setvar ''x'' (Some ''7'') {} (initvar blank_shell) = Inr sh'"
proof (cases "ash_setvar ''x'' (Some ''7'') {} (initvar blank_shell)")
  case (Inl e)
  then have "\<exists>v. entry (initvar blank_shell) ''x'' = Some v \<and> locked v"
    using sets.setvar_effect [of "initvar blank_shell" "''x''" "{}" "Some ''7''"] started_ok valid_x
    by (simp add: ash_setvar_def shell_ok_def)
  then show thesis using started_unlocked by blast
qed

text \<open>C10: Evaluating any text over the variables of the shell ends, whatever the texts of the
  variables are: cyclic definitions are reported, and the depth of the nested evaluations is
  bounded by the number of variables whose text is not a plain decimal number.\<close>

theorem shell_arithmetic_ends:
  assumes "shell_ok sh" and "card (undecimal sh) + 1 < fuel"
  shows "fst (arith ash_arith_state junk fuel s sh) \<noteq> No_fuel"
  by (rule ash.evaluation_ends [OF assms])

theorem shell_arithmetic_ends_witness:
  "fst (arith ash_arith_state 0 (card (undecimal (initvar blank_shell)) + 2) ''PATH+1'' (initvar blank_shell)) \<noteq> No_fuel"
  by (rule shell_arithmetic_ends [OF started_ok]) simp

text \<open>C11: The table stays well-formed: every variable in the bucket of its name, one variable per
  name, every set variable with a value, computed variables with their functions. \<open>lookupvar\<close> never
  raises in such a table and keeps it, \<open>setvar\<close> keeps it, and \<open>initvar\<close> establishes it.\<close>

theorem shell_table_invariant:
  assumes "shell_ok sh" and "valid_name n" and "flags \<inter> {VNOSET, VDYNAMIC, VUNSET} = {}"
  shows "(\<exists>r sh'. ash_lookupvar n sh = Inr (r, sh') \<and> shell_ok sh') \<and>
    (\<forall>sh'. ash_setvar n val flags sh = Inr sh' \<longrightarrow> shell_ok sh') \<and> shell_ok (initvar sh)"
proof (intro conjI allI impI)
  show "\<exists>r sh'. ash_lookupvar n sh = Inr (r, sh') \<and> shell_ok sh'"
    using lookup_effect [OF assms(1) valid_plain [OF assms(2)]] by blast
  show "shell_ok sh'" if "ash_setvar n val flags sh = Inr sh'" for sh'
    using sets.setvar_effect [of sh n flags val] that assms valid_plain [OF assms(2)]
    by (simp add: ash_setvar_def shell_ok_def changes_at_def)
  show "shell_ok (initvar sh)" using assms(1) by (intro initvar_ok) (simp add: shell_ok_def)
qed

theorem shell_table_invariant_witness:
  "(\<exists>r sh'. ash_lookupvar ''x'' (initvar blank_shell) = Inr (r, sh') \<and> shell_ok sh') \<and>
   (\<exists>sh'. ash_setvar ''x'' (Some ''7'') {} (initvar blank_shell) = Inr sh' \<and> shell_ok sh') \<and>
   shell_ok (initvar (initvar blank_shell))"
proof -
  obtain sh' where "ash_setvar ''x'' (Some ''7'') {} (initvar blank_shell) = Inr sh'" by (rule set_x_started)
  with shell_table_invariant [OF started_ok valid_x, of "{}" "Some ''7''"] show ?thesis by blast
qed

text \<open>C15: What \<open>setvar\<close> stores is what \<open>lookupvar\<close> finds, a variable set to nothing is unset, and no
  other variable changes: the table behaves as a map from names to values. The computed
  variables, which a lookup sets first, are excepted.\<close>

theorem shell_lookup_after_set:
  assumes "shell_ok sh" and "valid_name n" and "flags \<inter> {VNOSET, VDYNAMIC, VUNSET} = {}" and "n \<notin> computed_names"
    and "ash_setvar n val flags sh = Inr sh'"
  shows "(\<exists>sh''. ash_lookupvar n sh' = Inr (val, sh'')) \<and> (\<forall>m. m \<noteq> n \<longrightarrow> shell_value sh' m = shell_value sh m)"
proof -
  have p: "plain n" by (rule valid_plain [OF assms(2)])
  have c: "changes_at n sh sh'" "shell_value sh' n = val"
    using sets.setvar_effect [of sh n flags val] assms p by (simp_all add: ash_setvar_def shell_ok_def)
  then have "shell_ok sh'" using assms(1) by (simp add: shell_ok_def changes_at_def)
  from lookup_effect [OF this p] obtain r sh'' where
    "ash_lookupvar n sh' = Inr (r, sh'')" "r = shell_value sh'' n" "shell_value sh'' n = shell_value sh' n"
    using assms(4) by metis
  with c value_changes_at [OF c(1)] show ?thesis by simp
qed

theorem shell_lookup_after_set_witness:
  "\<exists>sh' sh''. ash_setvar ''x'' (Some ''7'') {} (initvar blank_shell) = Inr sh' \<and>
     ash_lookupvar ''x'' sh' = Inr (Some ''7'', sh'')"
proof -
  obtain sh' where s: "ash_setvar ''x'' (Some ''7'') {} (initvar blank_shell) = Inr sh'" by (rule set_x_started)
  from shell_lookup_after_set [OF started_ok valid_x _ _ s] s show ?thesis by (simp add: computed_names_def)
qed

text \<open>\<open>setvar\<close> fails exactly for a text that is no name, and for a variable that is read-only
  and not computed; the error says which.\<close>

theorem shell_set_errors:
  assumes "shell_ok sh" and "flags \<inter> {VNOSET, VDYNAMIC, VUNSET} = {}"
  shows "(case ash_setvar name val flags sh of
      Inl e \<Rightarrow> if valid_name (var_name name) then e = Read_only (var_name name) else e = Bad_name (var_name name)
    | Inr sh' \<Rightarrow> valid_name (var_name name)) \<and>
    (valid_name (var_name name) \<longrightarrow>
      isl (ash_setvar name val flags sh) = (\<exists>v. entry sh (var_name name) = Some v \<and> locked v))"
proof (cases "valid_name (var_name name)")
  case True
  then show ?thesis
    using sets.setvar_effect [of sh name flags val] assms
    by (simp add: ash_setvar_def shell_ok_def split: sum.splits)
next
  case False
  then show ?thesis using setvar_bad_name [OF False] by (simp add: ash_setvar_def)
qed

theorem shell_set_errors_witness:
  "(case ash_setvar ''1x'' (Some ''7'') {} (initvar blank_shell) of
      Inl e \<Rightarrow> if valid_name (var_name ''1x'') then e = Read_only (var_name ''1x'') else e = Bad_name (var_name ''1x'')
    | Inr sh' \<Rightarrow> valid_name (var_name ''1x'')) \<and> \<not> valid_name (var_name ''1x'')"
  using shell_set_errors [OF started_ok, of "{}" "''1x''" "Some ''7''"]
  by (simp add: valid_name_def is_name_def isalpha_def)

text \<open>The generator behind \<open>RANDOM\<close> always produces a number: seeded by a process id, which is
  not 0, or by an assignment, its loop repeats at most once, its state never becomes the fixed
  point 0, and its output is between 0 and 32767.\<close>

theorem random_generator_ends:
  assumes "random_ok sh"
  shows "\<exists>t rnd. next_random (pid sh) (monotonic_us sh) (random_gen sh) = Some (t, rnd) \<and> t \<le> 0x7fff \<and>
    random_ok (sh\<lparr>random_gen := rnd\<rparr>) \<and> random_ok (seed_random value sh)"
  using next_random_ends [OF assms] assms
  by (auto simp: random_ok_def seed_random_def init_random_t_def Let_def)

theorem random_generator_ends_witness:
  "\<exists>t rnd. next_random 1 0 \<lparr>galois_LFSR = 0, LCG = 0, xs64_x = 0, xs64_y = 0\<rparr> = Some (t, rnd) \<and> t \<le> 0x7fff"
  using random_generator_ends [of blank_shell] by (force simp: blank_shell_def random_ok_def)

end
