(* ===== verification/HashStream.thy ===== *)
theory HashStream
  imports Prelude
begin

text \<open>
  Hashing a stream in blocks: what a hash gives for a message when it is fed in pieces of any
  sizes. The locale \<open>streaming\<close> is the interface of the contexts of \<^verbatim>\<open>libbb/hash_md5_sha.c\<close> and of
  the checksums, which keep the bytes of an incomplete block.
\<close>

section \<open>Blocks\<close>

text \<open>The state after the full blocks of \<open>xs\<close>, and the bytes that are left.\<close>

function feed_blocks :: "nat \<Rightarrow> ('h \<Rightarrow> 'a list \<Rightarrow> 'h) \<Rightarrow> 'h \<Rightarrow> 'a list \<Rightarrow> 'h \<times> 'a list" where
  "feed_blocks n f h xs =
     (if n = 0 \<or> length xs < n then (h, xs) else feed_blocks n f (f h (take n xs)) (drop n xs))"
  by pat_completeness auto
termination by (relation "measure (\<lambda>(n, f, h, xs). length xs)") auto

declare feed_blocks.simps [simp del]

lemma feed_blocks_short: "length xs < n \<Longrightarrow> feed_blocks n f h xs = (h, xs)"
  by (simp add: feed_blocks.simps)

lemma feed_blocks_full:
  "0 < n \<Longrightarrow> length xs = n \<Longrightarrow> feed_blocks n f h (xs @ ys) = feed_blocks n f (f h xs) ys"
  by (simp add: feed_blocks.simps [of n f h "xs @ ys"])

lemma feed_blocks_append:
  "feed_blocks n f h (xs @ ys) = (let (h', r) = feed_blocks n f h xs in feed_blocks n f h' (r @ ys))"
proof (induction n f h xs rule: feed_blocks.induct)
  case (1 n f h xs)
  show ?case
  proof (cases "n = 0 \<or> length xs < n")
    case True
    then show ?thesis by (simp add: feed_blocks.simps [of n f h xs])
  next
    case False
    with 1 show ?thesis
      by (simp add: feed_blocks.simps [of n f h xs] feed_blocks.simps [of n f h "xs @ ys"])
  qed
qed

lemma feed_blocks_rest: "0 < n \<Longrightarrow> length (snd (feed_blocks n f h xs)) = length xs mod n"
proof (induction n f h xs rule: feed_blocks.induct)
  case (1 n f h xs)
  then show ?case
    by (cases "length xs < n") (simp_all add: feed_blocks.simps [of n f h xs] le_mod_geq not_less)
qed

section \<open>Streams\<close>

text \<open>\<open>holds s h p\<close>: the context \<open>s\<close> stands for the chaining value \<open>h\<close> and the pending bytes \<open>p\<close>.\<close>

locale streaming =
  fixes block :: nat and compress :: "'h \<Rightarrow> 'a list \<Rightarrow> 'h"
    and update :: "'s \<Rightarrow> 'a list \<Rightarrow> 's" and holds :: "'s \<Rightarrow> 'h \<Rightarrow> 'a list \<Rightarrow> bool" and chunk_ok :: "'a list \<Rightarrow> bool"
  assumes block_pos: "0 < block"
    and update_holds: "holds s h p \<Longrightarrow> chunk_ok bs \<Longrightarrow> feed_blocks block compress h (p @ bs) = (h', p') \<Longrightarrow>
      holds (update s bs) h' p'"
begin

lemma updates_hold:
  "holds s h p \<Longrightarrow> list_all chunk_ok chunks \<Longrightarrow> length p < block \<Longrightarrow>
   holds (foldl update s chunks) (fst (feed_blocks block compress h (p @ concat chunks)))
     (snd (feed_blocks block compress h (p @ concat chunks)))"
proof (induction chunks arbitrary: s h p)
  case Nil
  then show ?case by (simp add: feed_blocks_short)
next
  case (Cons c chunks)
  obtain h' p' where f: "feed_blocks block compress h (p @ c) = (h', p')" by fastforce
  have "length p' < block" using feed_blocks_rest [OF block_pos, of compress h "p @ c"] block_pos by (simp add: f)
  with update_holds [OF Cons.prems(1) _ f] Cons
  have "holds (foldl update (update s c) chunks) (fst (feed_blocks block compress h' (p' @ concat chunks)))
     (snd (feed_blocks block compress h' (p' @ concat chunks)))" by simp
  moreover have "feed_blocks block compress h (p @ c @ concat chunks) = feed_blocks block compress h' (p' @ concat chunks)"
    using feed_blocks_append [of block compress h "p @ c" "concat chunks"] by (simp add: f)
  ultimately show ?case by simp
qed

text \<open>How a message is cut into pieces does not matter.\<close>

lemma chunks_irrelevant:
  "holds s h [] \<Longrightarrow> list_all chunk_ok chunks \<Longrightarrow>
   holds (foldl update s chunks) (fst (feed_blocks block compress h (concat chunks)))
     (snd (feed_blocks block compress h (concat chunks)))"
  using updates_hold [of s h "[]" chunks] block_pos by simp

end

section \<open>Padding\<close>

text \<open>
  A message, one byte \<open>0x80\<close>, as few zero bytes as make the blocks full, and the length field.
\<close>

definition padded :: "nat \<Rightarrow> u8 list \<Rightarrow> u8 list \<Rightarrow> u8 list" where
  "padded n field data =
     data @ 0x80 # replicate ((n - (length data + 1 + length field) mod n) mod n) 0 @ field"

lemma pad_one: "0 < m \<Longrightarrow> m \<le> n \<Longrightarrow> (n - m mod n) mod n = n - (m :: nat)"
  by (cases "m = n") simp_all

lemma pad_two:
  assumes "n < m" and "m \<le> 2 * n"
  shows "(n - m mod n) mod n = 2 * n - (m :: nat)"
proof -
  have "m mod n = (m - n) mod n" using assms by (simp add: le_mod_geq)
  then show ?thesis using pad_one [of "m - n" n] assms by simp
qed

lemma padded_length: "0 < n \<Longrightarrow> length (padded n field data) mod n = 0"
proof -
  assume n: "0 < n"
  let ?m = "length data + 1 + length field"
  have "(?m + (n - ?m mod n) mod n) mod n = (?m mod n + (n - ?m mod n)) mod n"
    by (metis mod_add_left_eq mod_add_right_eq)
  also have "\<dots> = 0" using n mod_less_divisor [OF n, of ?m] by simp
  finally show ?thesis by (simp add: padded_def algebra_simps)
qed

lemma padded_split:
  assumes "0 < n" and "feed_blocks n f h data = (h', p)"
  shows "feed_blocks n f h (padded n field data) = feed_blocks n f h' (padded n field p)"
proof -
  have "length p = length data mod n" using feed_blocks_rest [OF assms(1), of f h data] assms(2) by simp
  then have "(length p + 1 + length field) mod n = (length data + 1 + length field) mod n"
    using mod_add_left_eq [of "length data" n "1 + length field"] by simp
  then show ?thesis
    by (simp add: padded_def feed_blocks_append [of n f h data] assms(2))
qed

end
