(* ===== verification/ByteOrder.thy ===== *)
theory ByteOrder
  imports Prelude
begin

text \<open>
  Words in memory: the bytes of a word on the little-endian target, the word that bytes are, and
  the swaps of \<^verbatim>\<open>include/platform.h\<close> between the target's order and the network's.
\<close>

text \<open>The little-endian word in memory, and the bytes of a word.\<close>

definition word_of_le :: "u8 list \<Rightarrow> 'a::len word" where
  "word_of_le bs = foldr (\<lambda>b w. ucast b OR push_bit 8 w) bs 0"

definition le_bytes :: "nat \<Rightarrow> 'a::len word \<Rightarrow> u8 list" where
  "le_bytes n w = map (\<lambda>i. ucast (drop_bit (8 * i) w)) [0..<n]"

definition swap32 :: "u32 \<Rightarrow> u32" where "swap32 w = word_of_le (rev (le_bytes 4 w))"
definition swap64 :: "u64 \<Rightarrow> u64" where "swap64 w = word_of_le (rev (le_bytes 8 w))"

lemma le_bytes_length [simp]: "length (le_bytes n w) = n"
  by (simp add: le_bytes_def)

lemma bit_word_of_le:
  "bit (word_of_le bs :: 'a::len word) i \<longleftrightarrow> i < LENGTH('a) \<and> i div 8 < length bs \<and> bit (bs ! (i div 8)) (i mod 8)"
proof (induction bs arbitrary: i)
  case (Cons b bs)
  show ?case
  proof (cases "i < 8")
    case True
    then show ?thesis by (auto simp: word_of_le_def bit_or_iff bit_push_bit_iff bit_ucast_iff)
  next
    case False
    then have i: "i = 8 + (i - 8)" "i div 8 = Suc ((i - 8) div 8)" "i mod 8 = (i - 8) mod 8" by (simp_all add: le_div_geq le_mod_geq)
    have "bit (word_of_le (b # bs) :: 'a word) i \<longleftrightarrow> i < LENGTH('a) \<and> bit (word_of_le bs :: 'a word) (i - 8)"
      using False by (auto simp: word_of_le_def bit_or_iff bit_push_bit_iff bit_ucast_iff)
    then show ?thesis using Cons.IH [of "i - 8"] i by auto
  qed
qed (simp add: word_of_le_def)

lemma le_bytes_word_of_le:
  assumes "8 * length bs \<le> LENGTH('a)"
  shows "le_bytes (length bs) (word_of_le bs :: 'a::len word) = bs"
proof (rule nth_equalityI)
  fix i assume "i < length (le_bytes (length bs) (word_of_le bs :: 'a word))"
  then have i: "i < length bs" by simp
  show "le_bytes (length bs) (word_of_le bs :: 'a word) ! i = bs ! i"
  proof (rule bit_word_eqI)
    fix j assume "j < LENGTH(8)"
    then have j: "j < 8" by simp
    have "8 * i + j < LENGTH('a)" "(8 * i + j) div 8 = i" "(8 * i + j) mod 8 = j" using i j assms by auto
    then show "bit (le_bytes (length bs) (word_of_le bs :: 'a word) ! i) j = bit (bs ! i) j"
      using i j by (simp add: le_bytes_def bit_ucast_iff bit_drop_bit_eq bit_word_of_le)
  qed
qed simp

text \<open>Big-endian bytes; swapping a word turns its memory around.\<close>

definition be_bytes :: "nat \<Rightarrow> 'a::len word \<Rightarrow> u8 list" where
  "be_bytes n w = rev (le_bytes n w)"

lemma le_bytes_swap: "le_bytes 4 (swap32 w) = be_bytes 4 w" "le_bytes 8 (swap64 v) = be_bytes 8 v"
  using le_bytes_word_of_le [of "rev (le_bytes 4 w)", where 'a = 32] le_bytes_word_of_le [of "rev (le_bytes 8 v)", where 'a = 64]
  by (simp_all add: swap32_def swap64_def be_bytes_def)

text \<open>\<^verbatim>\<open>htonl\<close>, \<^verbatim>\<open>ntohl\<close>, \<^verbatim>\<open>htons\<close> and \<^verbatim>\<open>ntohs\<close>.\<close>

definition htonl :: "u32 \<Rightarrow> u32" where "htonl = swap32"
definition ntohl :: "u32 \<Rightarrow> u32" where "ntohl = swap32"
definition htons :: "u16 \<Rightarrow> u16" where "htons w = word_of_le (rev (le_bytes 2 w))"
definition ntohs :: "u16 \<Rightarrow> u16" where "ntohs = htons"

lemma word_of_le_bytes: "8 * n = LENGTH('a) \<Longrightarrow> word_of_le (le_bytes n w) = (w :: 'a::len word)"
proof (rule bit_word_eqI)
  fix i assume "8 * n = LENGTH('a)" and "i < LENGTH('a)"
  then have "i div 8 < n" "8 * (i div 8) + i mod 8 = i" by auto
  then show "bit (word_of_le (le_bytes n w) :: 'a word) i = bit w i"
    using \<open>i < LENGTH('a)\<close> by (simp add: bit_word_of_le le_bytes_def bit_ucast_iff bit_drop_bit_eq)
qed

lemma swap32_swap32 [simp]: "swap32 (swap32 w) = w"
  using le_bytes_swap(1) [of w] word_of_le_bytes [of 4 w]
  by (simp add: swap32_def [of "swap32 w"] be_bytes_def)

lemma ntohl_htonl [simp]: "ntohl (htonl w) = w" "htonl (ntohl w) = w"
  by (simp_all add: ntohl_def htonl_def)

lemma htons_htons [simp]: "htons (htons w) = w"
proof -
  have "le_bytes 2 (htons w) = rev (le_bytes 2 w)"
    using le_bytes_word_of_le [of "rev (le_bytes 2 w)", where 'a = 16] by (simp add: htons_def)
  then show ?thesis by (simp add: htons_def [of "htons w"] word_of_le_bytes)
qed

lemma ntohs_htons [simp]: "ntohs (htons w) = w" by (simp add: ntohs_def)

end
