(* ===== verification/HashMd5Sha.thy ===== *)
theory HashMd5Sha
  imports HashStream ByteOrder
begin

text \<open>
  \<^verbatim>\<open>libbb/hash_md5_sha.c\<close>: MD5 (\<^verbatim>\<open>MD5_SMALL == 1\<close>), SHA-1, SHA-256, SHA-512 and SHA3-512
  (\<^verbatim>\<open>SHA3_SMALL\<close>, 64-bit). Contexts are records with the arrays as lists; the buffer is read as
  words the way a little-endian machine reads it. \<^verbatim>\<open>ctx->process_block\<close> is the algorithm's name.
\<close>

section \<open>Words and bytes\<close>

definition rotl32 :: "u32 \<Rightarrow> nat \<Rightarrow> u32" where "rotl32 x n = push_bit n x OR drop_bit (32 - n) x"
definition rotr32 :: "u32 \<Rightarrow> nat \<Rightarrow> u32" where "rotr32 x n = drop_bit n x OR push_bit (32 - n) x"
definition rotr64 :: "u64 \<Rightarrow> nat \<Rightarrow> u64" where "rotr64 x n = drop_bit n x OR push_bit (64 - n) x"
definition rotl64 :: "u64 \<Rightarrow> nat \<Rightarrow> u64" where "rotl64 x n = push_bit n x OR drop_bit (64 - n) x"

text \<open>The array of words that a byte buffer is, read through a cast pointer.\<close>

definition words_of :: "nat \<Rightarrow> u8 list \<Rightarrow> 'a::len word list" where
  "words_of n bs = map (\<lambda>i. word_of_le (take n (drop (n * i) bs))) [0..<length bs div n]"

text \<open>\<^verbatim>\<open>memcpy\<close> and \<^verbatim>\<open>memset\<close> into a buffer at an offset.\<close>

definition poke :: "'a list \<Rightarrow> nat \<Rightarrow> 'a list \<Rightarrow> 'a list" where
  "poke buf i ys = take i buf @ ys @ drop (i + length ys) buf"

section \<open>MD5\<close>

definition md5_C_array :: "u32 list" where
  "md5_C_array = [
     0xd76aa478, 0xe8c7b756, 0x242070db, 0xc1bdceee, 0xf57c0faf, 0x4787c62a, 0xa8304613, 0xfd469501,
     0x698098d8, 0x8b44f7af, 0xffff5bb1, 0x895cd7be, 0x6b901122, 0xfd987193, 0xa679438e, 0x49b40821,
     0xf61e2562, 0xc040b340, 0x265e5a51, 0xe9b6c7aa, 0xd62f105d, 0x02441453, 0xd8a1e681, 0xe7d3fbc8,
     0x21e1cde6, 0xc33707d6, 0xf4d50d87, 0x455a14ed, 0xa9e3e905, 0xfcefa3f8, 0x676f02d9, 0x8d2a4c8a,
     0xfffa3942, 0x8771f681, 0x6d9d6122, 0xfde5380c, 0xa4beea44, 0x4bdecfa9, 0xf6bb4b60, 0xbebfbc70,
     0x289b7ec6, 0xeaa127fa, 0xd4ef3085, 0x4881d05, 0xd9d4d039, 0xe6db99e5, 0x1fa27cf8, 0xc4ac5665,
     0xf4292244, 0x432aff97, 0xab9423a7, 0xfc93a039, 0x655b59c3, 0x8f0ccc92, 0xffeff47d, 0x85845dd1,
     0x6fa87e4f, 0xfe2ce6e0, 0xa3014314, 0x4e0811a1, 0xf7537e82, 0xbd3af235, 0x2ad7d2bb, 0xeb86d391]"

definition md5_P_array :: "nat list" where
  "md5_P_array = [
     1, 6, 11, 0, 5, 10, 15, 4, 9, 14, 3, 8, 13, 2, 7, 12,
     5, 8, 11, 14, 1, 4, 7, 10, 13, 0, 3, 6, 9, 12, 15, 2,
     0, 7, 14, 5, 12, 3, 10, 1, 8, 15, 6, 13, 4, 11, 2, 9]"

definition FF :: "u32 \<Rightarrow> u32 \<Rightarrow> u32 \<Rightarrow> u32" where "FF b c d = d XOR (b AND (c XOR d))"
definition FG :: "u32 \<Rightarrow> u32 \<Rightarrow> u32 \<Rightarrow> u32" where "FG b c d = FF d b c"
definition FH :: "u32 \<Rightarrow> u32 \<Rightarrow> u32 \<Rightarrow> u32" where "FH b c d = b XOR c XOR d"
definition FI :: "u32 \<Rightarrow> u32 \<Rightarrow> u32 \<Rightarrow> u32" where "FI b c d = c XOR (b OR NOT d)"

definition md5_op :: "(u32 \<Rightarrow> u32 \<Rightarrow> u32 \<Rightarrow> u32) \<Rightarrow> u32 \<Rightarrow> u32 \<Rightarrow> u32 \<Rightarrow> u32 \<Rightarrow> u32 \<Rightarrow> nat \<Rightarrow> u32 \<Rightarrow> u32" where
  "md5_op f a b c d word s T = rotl32 (a + (f b c d + word + T)) s + b"

text \<open>One loop of four turns of four operations, over the words and the constants it takes.\<close>

fun md5_round ::
  "(u32 \<Rightarrow> u32 \<Rightarrow> u32 \<Rightarrow> u32) \<Rightarrow> nat \<times> nat \<times> nat \<times> nat \<Rightarrow> u32 list \<Rightarrow> u32 list \<Rightarrow>
   u32 \<times> u32 \<times> u32 \<times> u32 \<Rightarrow> u32 \<times> u32 \<times> u32 \<times> u32" where
  "md5_round f (s0, s1, s2, s3) (w0 # w1 # w2 # w3 # ws) (t0 # t1 # t2 # t3 # ts) (A, B, C, D) =
     (let A = md5_op f A B C D w0 s0 t0;
          D = md5_op f D A B C w1 s1 t1;
          C = md5_op f C D A B w2 s2 t2;
          B = md5_op f B C D A w3 s3 t3
      in md5_round f (s0, s1, s2, s3) ws ts (A, B, C, D))"
| "md5_round f s ws ts abcd = abcd"

text \<open>\<^verbatim>\<open>md5_process_block64\<close> on the chaining value and the buffer.\<close>

definition md5_compress :: "u32 list \<Rightarrow> u8 list \<Rightarrow> u32 list" where
  "md5_compress h buf =
     (let words = words_of 4 buf;
          pick = (\<lambda>i. map (\<lambda>k. words ! k) (take 16 (drop (16 * i) md5_P_array)));
          T = (\<lambda>i. take 16 (drop (16 * i) md5_C_array));
          s = (h ! 0, h ! 1, h ! 2, h ! 3);
          s = md5_round FF (7, 12, 17, 22) words (T 0) s;
          s = md5_round FG (5, 9, 14, 20) (pick 0) (T 1) s;
          s = md5_round FH (4, 11, 16, 23) (pick 1) (T 2) s;
          (A, B, C, D) = md5_round FI (6, 10, 15, 21) (pick 2) (T 3) s
      in [h ! 0 + A, h ! 1 + B, h ! 2 + C, h ! 3 + D] @ drop 4 h)"

section \<open>SHA-1\<close>

definition sha1_rconsts :: "u32 list" where
  "sha1_rconsts = [0x5A827999, 0x6ED9EBA1, 0x8F1BBCDC, 0xCA62C1D6]"

text \<open>
  The body of the inner loop. \<open>W\<close> has 32 words, the second 16 a copy of the first, so that the
  indices need no wrap-around; \<^verbatim>\<open>ge16\<close> replaces the oldest word.
\<close>

definition sha1_step ::
  "nat \<Rightarrow> nat \<Rightarrow> u32 list \<times> nat \<times> u32 \<times> u32 \<times> u32 \<times> u32 \<times> u32 \<Rightarrow> u32 list \<times> nat \<times> u32 \<times> u32 \<times> u32 \<times> u32 \<times> u32" where
  "sha1_step i j = (\<lambda>(W, cnt, a, b, c, d, e).
     let ge16 = \<not> (i = 0 \<and> j > 3);
         w = rotl32 (W ! (cnt + 13) XOR W ! (cnt + 8) XOR W ! (cnt + 2) XOR W ! cnt) 1;
         W = (if ge16 then W[cnt := w, cnt + 16 := w] else W);
         work = c XOR d;
         work = (if i = 0 then (work AND b) XOR d
                 else if i = 2 then ((b OR c) AND d) OR (b AND c)
                 else work XOR b);
         work = work + W ! cnt;
         work = work + (e + rotl32 a 5 + sha1_rconsts ! i)
     in (W, (cnt + 1) mod 16, work, a, rotl32 b 30, c, d))"

definition sha1_steps :: "(nat \<times> nat) list" where
  "sha1_steps = concat (map (\<lambda>i. map (\<lambda>j. (i, j)) (rev [0..<20])) [0..<4])"

definition sha1_compress :: "u32 list \<Rightarrow> u8 list \<Rightarrow> u32 list" where
  "sha1_compress h buf =
     (let W = map swap32 (words_of 4 buf);
          (W, cnt, a, b, c, d, e) =
            fold (\<lambda>(i, j). sha1_step i j) sha1_steps (W @ W, 0, h ! 0, h ! 1, h ! 2, h ! 3, h ! 4)
      in [h ! 0 + a, h ! 1 + b, h ! 2 + c, h ! 3 + d, h ! 4 + e] @ drop 5 h)"

section \<open>SHA-256 and SHA-512\<close>

text \<open>The table serves SHA-512 with its entries and SHA-256 with their upper halves; \<^verbatim>\<open>K(v)\<close> is \<open>v\<close>.\<close>

definition K :: "u64 \<Rightarrow> u64" where "K v = v"

definition sha_K :: "u64 list" where
  "sha_K = [
     K 0x428a2f98d728ae22, K 0x7137449123ef65cd, K 0xb5c0fbcfec4d3b2f, K 0xe9b5dba58189dbbc,
     K 0x3956c25bf348b538, K 0x59f111f1b605d019, K 0x923f82a4af194f9b, K 0xab1c5ed5da6d8118,
     K 0xd807aa98a3030242, K 0x12835b0145706fbe, K 0x243185be4ee4b28c, K 0x550c7dc3d5ffb4e2,
     K 0x72be5d74f27b896f, K 0x80deb1fe3b1696b1, K 0x9bdc06a725c71235, K 0xc19bf174cf692694,
     K 0xe49b69c19ef14ad2, K 0xefbe4786384f25e3, K 0x0fc19dc68b8cd5b5, K 0x240ca1cc77ac9c65,
     K 0x2de92c6f592b0275, K 0x4a7484aa6ea6e483, K 0x5cb0a9dcbd41fbd4, K 0x76f988da831153b5,
     K 0x983e5152ee66dfab, K 0xa831c66d2db43210, K 0xb00327c898fb213f, K 0xbf597fc7beef0ee4,
     K 0xc6e00bf33da88fc2, K 0xd5a79147930aa725, K 0x06ca6351e003826f, K 0x142929670a0e6e70,
     K 0x27b70a8546d22ffc, K 0x2e1b21385c26c926, K 0x4d2c6dfc5ac42aed, K 0x53380d139d95b3df,
     K 0x650a73548baf63de, K 0x766a0abb3c77b2a8, K 0x81c2c92e47edaee6, K 0x92722c851482353b,
     K 0xa2bfe8a14cf10364, K 0xa81a664bbc423001, K 0xc24b8b70d0f89791, K 0xc76c51a30654be30,
     K 0xd192e819d6ef5218, K 0xd69906245565a910, K 0xf40e35855771202a, K 0x106aa07032bbd1b8,
     K 0x19a4c116b8d2d0c8, K 0x1e376c085141ab53, K 0x2748774cdf8eeb99, K 0x34b0bcb5e19b48a8,
     K 0x391c0cb3c5c95a63, K 0x4ed8aa4ae3418acb, K 0x5b9cca4f7763e373, K 0x682e6ff3d6b2b8a3,
     K 0x748f82ee5defb2fc, K 0x78a5636f43172f60, K 0x84c87814a1f0ab72, K 0x8cc702081a6439ec,
     K 0x90befffa23631e28, K 0xa4506cebde82bde9, K 0xbef9a3f7b2c67915, K 0xc67178f2e372532b,
     K 0xca273eceea26619c, K 0xd186b8c721c0c207, K 0xeada7dd6cde0eb1e, K 0xf57d4f7fee6ed178,
     K 0x06f067aa72176fba, K 0x0a637dc5a2c898a6, K 0x113f9804bef90dae, K 0x1b710b35131c471b,
     K 0x28db77f523047d84, K 0x32caab7b40c72493, K 0x3c9ebe0a15c9bebc, K 0x431d67c49c100d4c,
     K 0x4cc5d4becb3e42b6, K 0x597f299cfc657e2a, K 0x5fcb6fab3ad6faec, K 0x6c44198c4a475817]"

definition Ch :: "'a::len word \<Rightarrow> 'a word \<Rightarrow> 'a word \<Rightarrow> 'a word" where
  "Ch x y z = (x AND y) XOR (NOT x AND z)"

definition Maj :: "'a::len word \<Rightarrow> 'a word \<Rightarrow> 'a word \<Rightarrow> 'a word" where
  "Maj x y z = (x AND y) XOR (x AND z) XOR (y AND z)"

text \<open>The message schedule: \<open>W[t]\<close> for \<open>t \<ge> 16\<close>, appended one by one.\<close>

definition schedule_step :: "('a::len word \<Rightarrow> 'a word) \<Rightarrow> ('a word \<Rightarrow> 'a word) \<Rightarrow> 'a word list \<Rightarrow> 'a word list" where
  "schedule_step R0 R1 W =
     (let t = length W in W @ [R1 (W ! (t - 2)) + W ! (t - 7) + R0 (W ! (t - 15)) + W ! (t - 16)])"

text \<open>One turn of the main loop on \<open>a\<close> to \<open>h\<close>.\<close>

definition sha2_round ::
  "('a::len word \<Rightarrow> 'a word) \<Rightarrow> ('a word \<Rightarrow> 'a word) \<Rightarrow> 'a word \<Rightarrow> 'a word \<Rightarrow> 'a word list \<Rightarrow> 'a word list" where
  "sha2_round S0 S1 k w v =
     (let a = v ! 0; b = v ! 1; c = v ! 2; d = v ! 3; e = v ! 4; f = v ! 5; g = v ! 6; h = v ! 7;
          T1 = h + S1 e + Ch e f g + k + w; T2 = S0 a + Maj a b c
      in [T1 + T2, a, b, c, d + T1, e, f, g])"

definition S0_256 :: "u32 \<Rightarrow> u32" where "S0_256 x = rotr32 x 2 XOR rotr32 x 13 XOR rotr32 x 22"
definition S1_256 :: "u32 \<Rightarrow> u32" where "S1_256 x = rotr32 x 6 XOR rotr32 x 11 XOR rotr32 x 25"
definition R0_256 :: "u32 \<Rightarrow> u32" where "R0_256 x = rotr32 x 7 XOR rotr32 x 18 XOR drop_bit 3 x"
definition R1_256 :: "u32 \<Rightarrow> u32" where "R1_256 x = rotr32 x 17 XOR rotr32 x 19 XOR drop_bit 10 x"

definition sha256_compress :: "u32 list \<Rightarrow> u8 list \<Rightarrow> u32 list" where
  "sha256_compress h buf =
     (let W = (schedule_step R0_256 R1_256 ^^ 48) (map swap32 (words_of 4 buf));
          ks = map (\<lambda>k. ucast (drop_bit 32 k)) (take 64 sha_K);
          v = fold (\<lambda>(k, w). sha2_round S0_256 S1_256 k w) (zip ks W) h
      in map2 (+) h v)"

definition S0_512 :: "u64 \<Rightarrow> u64" where "S0_512 x = rotr64 x 28 XOR rotr64 x 34 XOR rotr64 x 39"
definition S1_512 :: "u64 \<Rightarrow> u64" where "S1_512 x = rotr64 x 14 XOR rotr64 x 18 XOR rotr64 x 41"
definition R0_512 :: "u64 \<Rightarrow> u64" where "R0_512 x = rotr64 x 1 XOR rotr64 x 8 XOR drop_bit 7 x"
definition R1_512 :: "u64 \<Rightarrow> u64" where "R1_512 x = rotr64 x 19 XOR rotr64 x 61 XOR drop_bit 6 x"

definition sha512_compress :: "u64 list \<Rightarrow> u8 list \<Rightarrow> u64 list" where
  "sha512_compress h buf =
     (let W = (schedule_step R0_512 R1_512 ^^ 64) (map swap64 (words_of 8 buf));
          v = fold (\<lambda>(k, w). sha2_round S0_512 S1_512 k w) (zip sha_K W) h
      in map2 (+) h v)"

section \<open>Contexts of MD5, SHA-1 and SHA-256\<close>

datatype process_block = Md5_process_block64 | Sha1_process_block64 | Sha256_process_block64

record md5_ctx =
  wbuffer :: "u8 list"
  process_block :: process_block
  total64 :: u64
  hash_words :: "u32 list"

fun compress64 :: "process_block \<Rightarrow> u32 list \<Rightarrow> u8 list \<Rightarrow> u32 list" where
  "compress64 Md5_process_block64 = md5_compress"
| "compress64 Sha1_process_block64 = sha1_compress"
| "compress64 Sha256_process_block64 = sha256_compress"

definition run_process_block :: "md5_ctx \<Rightarrow> md5_ctx" where
  "run_process_block ctx = ctx\<lparr>hash_words := compress64 (process_block ctx) (hash_words ctx) (wbuffer ctx)\<rparr>"

definition md5_begin :: "md5_ctx \<Rightarrow> md5_ctx" where
  "md5_begin ctx = ctx\<lparr>
     hash_words := [0x67452301, 0xefcdab89, 0x98badcfe, 0x10325476] @ drop 4 (hash_words ctx),
     total64 := 0, process_block := Md5_process_block64\<rparr>"

definition sha1_begin :: "md5_ctx \<Rightarrow> md5_ctx" where
  "sha1_begin ctx = ctx\<lparr>
     hash_words := [0x67452301, 0xefcdab89, 0x98badcfe, 0x10325476, 0xc3d2e1f0] @ drop 5 (hash_words ctx),
     total64 := 0, process_block := Sha1_process_block64\<rparr>"

definition init256 :: "u32 list" where
  "init256 = [0, 0, 0x6a09e667, 0xbb67ae85, 0x3c6ef372, 0xa54ff53a, 0x510e527f, 0x9b05688c, 0x1f83d9ab, 0x5be0cd19]"

definition sha256_begin :: "md5_ctx \<Rightarrow> md5_ctx" where
  "sha256_begin ctx = ctx\<lparr>
     total64 := ucast (init256 ! 0) OR push_bit 32 (ucast (init256 ! 1)), hash_words := drop 2 init256,
     process_block := Sha256_process_block64\<rparr>"

function common64_loop :: "md5_ctx \<Rightarrow> nat \<Rightarrow> u8 list \<Rightarrow> md5_ctx" where
  "common64_loop ctx bufpos buffer =
     (let remaining = min (64 - bufpos) (length buffer);
          ctx = ctx\<lparr>wbuffer := poke (wbuffer ctx) bufpos (take remaining buffer)\<rparr>
      in if bufpos + remaining \<noteq> 64 then ctx
         else common64_loop (run_process_block ctx) 0 (drop remaining buffer))"
  by pat_completeness auto
termination
  by (relation "measure (\<lambda>(ctx, bufpos, buffer). length buffer + (if bufpos < 64 then 0 else 1))") auto

declare common64_loop.simps [simp del]

definition md5_hash :: "md5_ctx \<Rightarrow> u8 list \<Rightarrow> md5_ctx" where
  "md5_hash ctx buffer =
     common64_loop (ctx\<lparr>total64 := total64 ctx + of_nat (length buffer)\<rparr>) (unat (total64 ctx AND 63)) buffer"

function common64_end_loop :: "bool \<Rightarrow> md5_ctx \<Rightarrow> nat \<Rightarrow> md5_ctx" where
  "common64_end_loop swap_needed ctx bufpos =
     (let remaining = 64 - bufpos;
          buf = poke (wbuffer ctx) bufpos (replicate remaining 0);
          t = push_bit 3 (total64 ctx);
          t = (if swap_needed then swap64 t else t);
          buf = (if remaining \<ge> 8 then poke buf (64 - 8) (le_bytes 8 t) else buf);
          ctx = run_process_block (ctx\<lparr>wbuffer := buf\<rparr>)
      in if remaining \<ge> 8 then ctx else common64_end_loop swap_needed ctx 0)"
  by pat_completeness auto
termination by (relation "measure (\<lambda>(swap_needed, ctx, bufpos). if bufpos = 0 then 0 else 1)") auto

declare common64_end_loop.simps [simp del]

definition common64_end :: "bool \<Rightarrow> md5_ctx \<Rightarrow> md5_ctx" where
  "common64_end swap_needed ctx =
     (let bufpos = unat (total64 ctx AND 63)
      in common64_end_loop swap_needed (ctx\<lparr>wbuffer := poke (wbuffer ctx) bufpos [0x80]\<rparr>) (bufpos + 1))"

text \<open>The bytes the two \<open>end\<close> functions copy to the result.\<close>

definition md5_end :: "md5_ctx \<Rightarrow> u8 list" where
  "md5_end ctx = concat (map (le_bytes 4) (take 4 (hash_words (common64_end False ctx))))"

definition sha1_end :: "md5_ctx \<Rightarrow> u8 list" where
  "sha1_end ctx =
     (let ctx = common64_end True ctx;
          hash_size = (if process_block ctx = Sha1_process_block64 then 5 else 8)
      in concat (map (\<lambda>w. le_bytes 4 (swap32 w)) (take hash_size (hash_words ctx))))"

section \<open>Contexts of SHA-512\<close>

record sha512_ctx =
  total_lo :: u64
  total_hi :: u64
  hash512 :: "u64 list"
  wbuffer512 :: "u8 list"

definition init512_lo :: "u32 list" where
  "init512_lo = [0, 0, 0xf3bcc908, 0x84caa73b, 0xfe94f82b, 0x5f1d36f1, 0xade682d1, 0x2b3e6c1f, 0xfb41bd6b, 0x137e2179]"

definition sha512_begin :: "sha512_ctx \<Rightarrow> sha512_ctx" where
  "sha512_begin ctx =
     (let tp = map2 (\<lambda>hi lo. push_bit 32 (ucast hi) + ucast lo) init256 init512_lo
      in ctx\<lparr>total_lo := tp ! 0, total_hi := tp ! 1, hash512 := drop 2 tp\<rparr>)"

definition sha512_process_block128 :: "sha512_ctx \<Rightarrow> sha512_ctx" where
  "sha512_process_block128 ctx = ctx\<lparr>hash512 := sha512_compress (hash512 ctx) (wbuffer512 ctx)\<rparr>"

function sha512_loop :: "sha512_ctx \<Rightarrow> nat \<Rightarrow> u8 list \<Rightarrow> sha512_ctx" where
  "sha512_loop ctx bufpos buffer =
     (let remaining = min (128 - bufpos) (length buffer);
          ctx = ctx\<lparr>wbuffer512 := poke (wbuffer512 ctx) bufpos (take remaining buffer)\<rparr>
      in if bufpos + remaining \<noteq> 128 then ctx
         else sha512_loop (sha512_process_block128 ctx) 0 (drop remaining buffer))"
  by pat_completeness auto
termination
  by (relation "measure (\<lambda>(ctx, bufpos, buffer). length buffer + (if bufpos < 128 then 0 else 1))") auto

declare sha512_loop.simps [simp del]

definition sha512_hash :: "sha512_ctx \<Rightarrow> u8 list \<Rightarrow> sha512_ctx" where
  "sha512_hash ctx buffer =
     (let len = of_nat (length buffer); lo = total_lo ctx + len;
          hi = (if lo < len then total_hi ctx + 1 else total_hi ctx)
      in sha512_loop (ctx\<lparr>total_lo := lo, total_hi := hi\<rparr>) (unat (total_lo ctx AND 127)) buffer)"

function sha512_end_loop :: "sha512_ctx \<Rightarrow> nat \<Rightarrow> sha512_ctx" where
  "sha512_end_loop ctx bufpos =
     (let remaining = 128 - bufpos;
          buf = poke (wbuffer512 ctx) bufpos (replicate remaining 0);
          buf = (if remaining \<ge> 16 then
                   (let buf = poke buf (128 - 8) (le_bytes 8 (swap64 (push_bit 3 (total_lo ctx))))
                    in poke buf (128 - 16) (le_bytes 8 (swap64 (push_bit 3 (total_hi ctx) OR drop_bit 61 (total_lo ctx)))))
                 else buf);
          ctx = sha512_process_block128 (ctx\<lparr>wbuffer512 := buf\<rparr>)
      in if remaining \<ge> 16 then ctx else sha512_end_loop ctx 0)"
  by pat_completeness auto
termination by (relation "measure (\<lambda>(ctx, bufpos). if bufpos = 0 then 0 else 1)") auto

declare sha512_end_loop.simps [simp del]

definition sha512_end :: "sha512_ctx \<Rightarrow> u8 list" where
  "sha512_end ctx =
     (let bufpos = unat (total_lo ctx AND 127);
          ctx = sha512_end_loop (ctx\<lparr>wbuffer512 := poke (wbuffer512 ctx) bufpos [0x80]\<rparr>) (bufpos + 1)
      in concat (map (\<lambda>w. le_bytes 8 (swap64 w)) (hash512 ctx)))"

section \<open>SHA-3\<close>

definition IOTA_CONST :: "u16 list" where
  "IOTA_CONST = [0x0001, 0x8082, 0x808a, 0x8000, 0x808b, 0x0001, 0x8081, 0x8009, 0x008a, 0x0088, 0x8009, 0x000a,
     0x808b, 0x008b, 0x8089, 0x8003, 0x8002, 0x0080, 0x800a, 0x000a, 0x8081, 0x8080, 0x0001, 0x8008]"

definition IOTA_CONST_bit63 :: u32 where "IOTA_CONST_bit63 = 0x3307dd00"
definition IOTA_CONST_bit31 :: u32 where "IOTA_CONST_bit31 = 0x16381b00"

definition ROT_CONST :: "nat list" where
  "ROT_CONST = [1, 3, 6, 10, 15, 21, 28, 36, 45, 55, 2, 14, 27, 41, 56, 8, 25, 43, 62, 18, 39, 61, 20, 44]"

definition PI_LANE :: "nat list" where
  "PI_LANE = [10, 7, 11, 17, 18, 3, 5, 16, 8, 21, 24, 4, 15, 23, 19, 13, 12, 2, 20, 14, 22, 9, 6, 1]"

definition theta :: "u64 list \<Rightarrow> u64 list" where
  "theta state =
     (let BC = map (\<lambda>x. state ! x XOR state ! (x + 5) XOR state ! (x + 10) XOR state ! (x + 15) XOR state ! (x + 20)) [0..<5];
          BC = BC @ BC;
          temp = map (\<lambda>x. BC ! (x + 4) XOR rotl64 (BC ! (x + 1)) 1) [0..<5]
      in map (\<lambda>i. state ! i XOR temp ! (i mod 5)) [0..<25])"

definition rho_pi :: "u64 list \<Rightarrow> u64 list" where
  "rho_pi state =
     fst (fold (\<lambda>(lane, rot) (state, t1). (state[lane := rotl64 t1 rot], state ! lane))
       (zip PI_LANE ROT_CONST) (state, state ! 1))"

definition chi :: "u64 list \<Rightarrow> u64 list" where
  "chi state =
     map (\<lambda>i. let x = 5 * (i div 5); j = i mod 5
        in state ! i XOR (NOT (state ! (x + (j + 1) mod 5)) AND state ! (x + (j + 2) mod 5))) [0..<25]"

definition iota :: "nat \<Rightarrow> u64 list \<Rightarrow> u64 list" where
  "iota round state =
     state[0 := state ! 0 XOR (ucast (IOTA_CONST ! round)
       OR ucast (push_bit round IOTA_CONST_bit31 AND 0x80000000)
       OR push_bit 32 (ucast (push_bit round IOTA_CONST_bit63 AND 0x80000000)))]"

definition sha3_process_block72 :: "u64 list \<Rightarrow> u64 list" where
  "sha3_process_block72 state = fold (\<lambda>round state. iota round (chi (rho_pi (theta state)))) [0..<24] state"

record sha3_ctx =
  state :: "u64 list"
  bytes_queued :: nat
  input_block_bytes :: nat

definition sha3_begin :: "sha3_ctx \<Rightarrow> sha3_ctx" where
  "sha3_begin ctx = ctx\<lparr>state := replicate 25 0, bytes_queued := 0, input_block_bytes := (1600 - 512 * 2) div 8\<rparr>"

text \<open>\<^verbatim>\<open>buf[i] ^= b\<close> where \<^verbatim>\<open>buf\<close> is the state as bytes.\<close>

definition xor_byte :: "u64 list \<Rightarrow> nat \<Rightarrow> u8 \<Rightarrow> u64 list" where
  "xor_byte st i b = st[i div 8 := st ! (i div 8) XOR push_bit (8 * (i mod 8)) (ucast b)]"

fun xor_bytes :: "u64 list \<Rightarrow> nat \<Rightarrow> u8 list \<Rightarrow> u64 list" where
  "xor_bytes st i [] = st"
| "xor_bytes st i (b # bs) = xor_bytes (xor_byte st i b) (Suc i) bs"

text \<open>Without a block size (0, which \<^verbatim>\<open>hash_file\<close> refuses) the loop would not end; the model stops.\<close>

function sha3_loop :: "sha3_ctx \<Rightarrow> nat \<Rightarrow> u8 list \<Rightarrow> sha3_ctx" where
  "sha3_loop ctx bufpos data =
     (let n = input_block_bytes ctx;
          remaining = min (n - bufpos) (length data);
          ctx = ctx\<lparr>state := xor_bytes (state ctx) bufpos (take remaining data)\<rparr>
      in if bufpos + remaining \<noteq> n \<or> n = 0 then ctx\<lparr>bytes_queued := bufpos + remaining\<rparr>
         else sha3_loop (ctx\<lparr>state := sha3_process_block72 (state ctx)\<rparr>) 0 (drop remaining data))"
  by pat_completeness auto
termination
  by (relation "measure (\<lambda>(ctx, bufpos, data). length data + (if bufpos < input_block_bytes ctx then 0 else 1))") auto

declare sha3_loop.simps [simp del]

definition sha3_hash :: "sha3_ctx \<Rightarrow> u8 list \<Rightarrow> sha3_ctx" where
  "sha3_hash ctx buffer = sha3_loop ctx (bytes_queued ctx) buffer"

definition sha3_end :: "sha3_ctx \<Rightarrow> u8 list" where
  "sha3_end ctx =
     (let st = xor_byte (state ctx) (bytes_queued ctx) 6;
          st = xor_byte st (input_block_bytes ctx - 1) 0x80;
          st = sha3_process_block72 st
      in concat (map (le_bytes 8) (take 8 st)))"

text \<open>The block size and the length of the digest that \<^verbatim>\<open>sha3sum -a WIDTH\<close> chooses.\<close>

definition sha3sum_sizes :: "nat \<Rightarrow> (nat \<times> nat) option" where
  "sha3sum_sizes sha3_width =
     (if sha3_width \<ge> 1600 div 2 \<or> sha3_width = 0 \<or> sha3_width mod 32 \<noteq> 0 then None
      else (let w = sha3_width div 4 in Some (1600 div 8 - w, w div 2)))"

end
