(* ===== verification/HashProofs.thy ===== *)
theory HashProofs
  imports HashMd5Sha
begin

text \<open>
  The digests of \<^verbatim>\<open>hash_md5_sha.c\<close> against their definition over whole messages: padding to full
  blocks, compression block by block. The contexts are interpreted as \<open>streaming\<close>.
\<close>

section \<open>Buffers\<close>

lemma poke_length [simp]: "i + length ys \<le> length buf \<Longrightarrow> length (poke buf i ys) = length buf"
  by (simp add: poke_def)

lemma poke_at_end: "length p + length ys \<le> length buf \<Longrightarrow> take (length p) buf = p \<Longrightarrow>
   take (length p + length ys) (poke buf (length p) ys) = p @ ys"
  by (simp add: poke_def)

lemma poke_fill: "length p + length ys = length buf \<Longrightarrow> take (length p) buf = p \<Longrightarrow> poke buf (length p) ys = p @ ys"
  by (simp add: poke_def)

lemma index_in_64: "unat (w AND 63 :: u64) = unat w mod 64"
proof -
  have "(63 :: u64) = mask 6" by (simp add: mask_eq_exp_minus_1)
  then show ?thesis using unat_and_mask_mod [of w 6] by simp
qed

lemma index_in_128: "unat (w AND 127 :: u64) = unat w mod 128"
proof -
  have "(127 :: u64) = mask 7" by (simp add: mask_eq_exp_minus_1)
  then show ?thesis using unat_and_mask_mod [of w 7] by simp
qed

lemma unat_add_mod: "n dvd 2 ^ 64 \<Longrightarrow> unat (w + of_nat k :: u64) mod n = (unat w + k) mod n"
proof -
  assume "n dvd 2 ^ 64"
  then have "unat (w + of_nat k) mod n = (unat w + k) mod n"
    by (simp add: unat_word_ariths unat_of_nat mod_mod_cancel mod_add_right_eq)
  then show ?thesis .
qed

section \<open>MD5, SHA-1 and SHA-256\<close>

text \<open>The context \<open>ctx\<close> has compressed its full blocks to \<open>h\<close> and holds the bytes \<open>p\<close>.\<close>

definition holds64 :: "process_block \<Rightarrow> md5_ctx \<Rightarrow> u32 list \<Rightarrow> u8 list \<Rightarrow> bool" where
  "holds64 k ctx h p \<longleftrightarrow> process_block ctx = k \<and> hash_words ctx = h \<and> length (wbuffer ctx) = 64 \<and>
     length p < 64 \<and> take (length p) (wbuffer ctx) = p \<and> unat (total64 ctx) mod 64 = length p"

lemma common64_loop_feeds:
  "process_block ctx = k \<Longrightarrow> length (wbuffer ctx) = 64 \<Longrightarrow> bufpos < 64 \<Longrightarrow> take bufpos (wbuffer ctx) = p \<Longrightarrow>
   feed_blocks 64 (compress64 k) (hash_words ctx) (p @ bs) = (h', p') \<Longrightarrow> ctx' = common64_loop ctx bufpos bs \<Longrightarrow>
   process_block ctx' = k \<and> hash_words ctx' = h' \<and> length (wbuffer ctx') = 64 \<and> take (length p') (wbuffer ctx') = p' \<and>
   total64 ctx' = total64 ctx"
proof (induction ctx bufpos bs arbitrary: p rule: common64_loop.induct)
  case (1 ctx bufpos bs)
  define rem where "rem = min (64 - bufpos) (length bs)"
  define c where "c = ctx\<lparr>wbuffer := poke (wbuffer ctx) bufpos (take rem bs)\<rparr>"
  have p: "length p = bufpos" using "1.prems"(2-4) by auto
  have len: "length (take rem bs) = rem" by (simp add: rem_def)
  have fits: "length p + length (take rem bs) \<le> length (wbuffer ctx)"
    unfolding len p "1.prems"(2) using "1.prems"(3) by (simp add: rem_def)
  have c: "length (wbuffer c) = 64" "take (bufpos + rem) (wbuffer c) = p @ take rem bs" "process_block c = k"
    using fits poke_at_end [OF fits] "1.prems" p len by (simp_all add: c_def)
  have step: "common64_loop ctx bufpos bs =
      (if bufpos + rem \<noteq> 64 then c else common64_loop (run_process_block c) 0 (drop rem bs))"
    by (simp add: common64_loop.simps [of ctx bufpos bs] rem_def c_def Let_def)
  show ?case
  proof (cases "bufpos + rem = 64")
    case False
    then have short: "rem = length bs" "length (p @ bs) < 64" using "1.prems"(3) p by (auto simp: rem_def min_def split: if_splits)
    then have "h' = hash_words ctx" "p' = p @ bs" using "1.prems"(5) by (simp_all add: feed_blocks_short)
    with False c short p show ?thesis using "1.prems"(6) step by (simp add: c_def)
  next
    case True
    have full: "length (p @ take rem bs) = 64" using True p len by simp
    have w: "wbuffer c = p @ take rem bs" using c(1,2) True by simp
    have "feed_blocks 64 (compress64 k) (hash_words ctx) ((p @ take rem bs) @ drop rem bs) = (h', p')"
      using "1.prems"(5) by simp
    then have "feed_blocks 64 (compress64 k) (hash_words (run_process_block c)) (drop rem bs) = (h', p')"
      using feed_blocks_full [OF _ full, of "compress64 k" "hash_words ctx" "drop rem bs"] c(3) w
      by (simp add: run_process_block_def c_def)
    then have f: "feed_blocks 64 (compress64 k) (hash_words (run_process_block c)) ([] @ drop rem bs) = (h', p')" by simp
    have "process_block ctx' = k \<and> hash_words ctx' = h' \<and> length (wbuffer ctx') = 64 \<and>
        take (length p') (wbuffer ctx') = p' \<and> total64 ctx' = total64 (run_process_block c)"
      by (rule "1.IH" [of rem c "[]", OF rem_def c_def _ _ _ _ _ f])
        (use True c "1.prems"(6) step in \<open>simp_all add: run_process_block_def\<close>)
    then show ?thesis by (simp add: run_process_block_def c_def)
  qed
qed

lemma md5_hash_holds:
  assumes "holds64 k ctx h p" and "feed_blocks 64 (compress64 k) h (p @ bs) = (h', p')"
  shows "holds64 k (md5_hash ctx bs) h' p'"
proof -
  let ?c = "ctx\<lparr>total64 := total64 ctx + of_nat (length bs)\<rparr>"
  have "length p' < 64" "length p' = (length p + length bs) mod 64"
    using feed_blocks_rest [of 64 "compress64 k" h "p @ bs"] assms(2) by simp_all
  moreover have "unat (total64 ctx + of_nat (length bs)) mod 64 = (length p + length bs) mod 64"
    using assms(1) unat_add_mod [of 64 "total64 ctx" "length bs"] mod_add_left_eq [of "unat (total64 ctx)" 64 "length bs"]
    by (simp add: holds64_def)
  moreover have "md5_hash ctx bs = common64_loop ?c (length p) bs"
    using assms(1) by (simp add: md5_hash_def index_in_64 holds64_def)
  ultimately show ?thesis
    using common64_loop_feeds [of ?c k "length p" p bs h' p' "md5_hash ctx bs"] assms
    by (simp add: holds64_def)
qed

interpretation md5_stream: streaming 64 "compress64 k" md5_hash "holds64 k" "\<lambda>_. True"
  by unfold_locales (use md5_hash_holds in auto)

lemma common64_loop_total: "total64 (common64_loop ctx bufpos bs) = total64 ctx"
proof (induction ctx bufpos bs rule: common64_loop.induct)
  case (1 ctx bufpos bs)
  then show ?case
    by (simp add: common64_loop.simps [of ctx bufpos bs] Let_def run_process_block_def)
qed

lemma md5_hash_total: "total64 (foldl md5_hash ctx chunks) = total64 ctx + of_nat (length (concat chunks))"
  by (induction chunks arbitrary: ctx) (simp_all add: md5_hash_def common64_loop_total)

text \<open>The end: the rest of the block, then one more block when the counter does not fit.\<close>

lemma common64_end_pads:
  assumes "holds64 k ctx h p" and "field = le_bytes 8 (if swap then swap64 (push_bit 3 (total64 ctx)) else push_bit 3 (total64 ctx))"
  shows "hash_words (common64_end swap ctx) = fst (feed_blocks 64 (compress64 k) h (padded 64 field p)) \<and>
    process_block (common64_end swap ctx) = k"
proof -
  have a: "process_block ctx = k" "hash_words ctx = h" "length (wbuffer ctx) = 64" "length p < 64"
    "take (length p) (wbuffer ctx) = p" "unat (total64 ctx AND 63) = length p"
    using assms(1) by (simp_all add: holds64_def index_in_64)
  define c where "c = ctx\<lparr>wbuffer := poke (wbuffer ctx) (length p) [0x80]\<rparr>"
  have c: "take (length (p @ [0x80])) (wbuffer c) = p @ [0x80]" "length (wbuffer c) = 64" "process_block c = k"
    "hash_words c = h" "total64 c = total64 ctx"
    using poke_at_end [of p "[0x80]" "wbuffer ctx"] a by (simp_all add: c_def)
  have e: "common64_end swap ctx = common64_end_loop swap c (length (p @ [0x80]))"
    by (simp add: common64_end_def Let_def a(6) c_def)
  have fl: "length field = 8" by (simp add: assms(2))
  have fill: "poke (wbuffer c) (length (p @ [0x80])) (replicate (64 - length (p @ [0x80])) 0) =
      p @ 0x80 # replicate (63 - length p) 0"
    using poke_fill [of "p @ [0x80]" "replicate (64 - length (p @ [0x80])) 0" "wbuffer c"] c a(4) by simp
  have counter: "poke buf (64 - 8) field = take 56 buf @ field" if "length buf = 64" for buf
    using that fl by (simp add: poke_def)
  have loop: "common64_end_loop swap d b =
      (if 64 - b \<ge> 8
       then run_process_block (d\<lparr>wbuffer := poke (poke (wbuffer d) b (replicate (64 - b) 0)) (64 - 8) field\<rparr>)
       else common64_end_loop swap (run_process_block (d\<lparr>wbuffer := poke (wbuffer d) b (replicate (64 - b) 0)\<rparr>)) 0)"
    if "total64 d = total64 ctx" for d b
    by (simp add: common64_end_loop.simps [of swap d b] Let_def assms(2) that)
  show ?thesis
  proof (cases "length p \<le> 55")
    case True
    then have z: "(64 - (length p + 1 + length field) mod 64) mod 64 = 55 - length p"
      unfolding fl by (subst pad_one) simp_all
    have pd: "padded 64 field p = p @ 0x80 # replicate (55 - length p) 0 @ field"
      unfolding padded_def z ..
    then have full: "length (padded 64 field p) = 64" using True by (simp add: fl)
    have "take 56 (p @ 0x80 # replicate (63 - length p) 0) @ field = padded 64 field p"
      using True by (simp add: pd take_Cons' min_def)
    moreover have "8 \<le> 64 - length (p @ [0x80])" using True by simp
    moreover have "length (p @ 0x80 # replicate (63 - length p) (0 :: u8)) = 64" using True by simp
    ultimately have "common64_end_loop swap c (length (p @ [0x80])) = run_process_block (c\<lparr>wbuffer := padded 64 field p\<rparr>)"
      unfolding loop [OF c(5)] fill by (simp only: counter if_True)
    then show ?thesis using c feed_blocks_full [OF _ full, of "compress64 k" h "[]"]
      by (simp add: e run_process_block_def feed_blocks_short)
  next
    case False
    then have z: "(64 - (length p + 1 + length field) mod 64) mod 64 = 128 - (length p + 9)"
      using a(4) unfolding fl by (subst pad_two) simp_all
    define b1 where "b1 = p @ 0x80 # replicate (63 - length p) 0"
    define b2 where "b2 = replicate 56 0 @ field"
    have len: "length b1 = 64" "length b2 = 64" using a(4) by (simp_all add: b1_def b2_def fl)
    have "padded 64 field p = p @ 0x80 # replicate (128 - (length p + 9)) 0 @ field"
      unfolding padded_def z ..
    then have split: "padded 64 field p = b1 @ b2"
      using False a(4) by (simp add: b1_def b2_def replicate_add [symmetric])
    have "\<not> 8 \<le> 64 - length (p @ [0x80])" using False by simp
    then have "common64_end_loop swap c (length (p @ [0x80])) =
        common64_end_loop swap (run_process_block (c\<lparr>wbuffer := b1\<rparr>)) 0"
      unfolding loop [OF c(5)] fill b1_def by (simp only: if_False)
    also have "poke b1 0 (replicate (64 - 0) 0) = replicate 64 0" using len by (simp add: poke_def)
    then have "common64_end_loop swap (run_process_block (c\<lparr>wbuffer := b1\<rparr>)) 0 =
        run_process_block ((run_process_block (c\<lparr>wbuffer := b1\<rparr>))\<lparr>wbuffer := b2\<rparr>)"
      using counter [of "replicate 64 0"] c(5)
      by (subst loop) (simp_all add: run_process_block_def b2_def)
    finally show ?thesis
      using c split feed_blocks_full [OF _ len(1), of "compress64 k" h b2] feed_blocks_full [OF _ len(2), of "compress64 k" _ "[]"]
      by (simp add: e run_process_block_def feed_blocks_short)
  qed
qed

section \<open>Digests of messages\<close>

definition md5_iv :: "u32 list" where "md5_iv = [0x67452301, 0xefcdab89, 0x98badcfe, 0x10325476]"
definition sha1_iv :: "u32 list" where "sha1_iv = md5_iv @ [0xc3d2e1f0]"
definition sha256_iv :: "u32 list" where
  "sha256_iv = [0x6a09e667, 0xbb67ae85, 0x3c6ef372, 0xa54ff53a, 0x510e527f, 0x9b05688c, 0x1f83d9ab, 0x5be0cd19]"

text \<open>The bit count is a 64-bit number, little-endian in MD5 and big-endian in SHA.\<close>

definition bit_count :: "u8 list \<Rightarrow> u64" where
  "bit_count data = push_bit 3 (of_nat (length data))"

definition md5_message :: "u8 list \<Rightarrow> u8 list" where
  "md5_message data = concat (map (le_bytes 4)
     (fst (feed_blocks 64 md5_compress md5_iv (padded 64 (le_bytes 8 (bit_count data)) data))))"

definition sha1_message :: "u8 list \<Rightarrow> u8 list" where
  "sha1_message data = concat (map (be_bytes 4)
     (fst (feed_blocks 64 sha1_compress sha1_iv (padded 64 (be_bytes 8 (bit_count data)) data))))"

definition sha256_message :: "u8 list \<Rightarrow> u8 list" where
  "sha256_message data = concat (map (be_bytes 4)
     (fst (feed_blocks 64 sha256_compress sha256_iv (padded 64 (be_bytes 8 (bit_count data)) data))))"

text \<open>The words of the context that an algorithm does not use stay out of its way.\<close>

lemma md5_compress_append: "length h = 4 \<Longrightarrow> md5_compress (h @ r) buf = md5_compress h buf @ r \<and> length (md5_compress h buf) = 4"
  by (auto simp: md5_compress_def Let_def nth_append split: prod.split)

lemma sha1_compress_append: "length h = 5 \<Longrightarrow> sha1_compress (h @ r) buf = sha1_compress h buf @ r \<and> length (sha1_compress h buf) = 5"
  by (auto simp: sha1_compress_def Let_def nth_append split: prod.split)

lemma feed_blocks_frame:
  assumes "\<And>h buf. length h = m \<Longrightarrow> f (h @ r) buf = f h buf @ r \<and> length (f h buf) = m"
  shows "length h = m \<Longrightarrow> fst (feed_blocks n f (h @ r) xs) = fst (feed_blocks n f h xs) @ r \<and>
    length (fst (feed_blocks n f h xs)) = m"
proof (induction "length xs" arbitrary: h xs rule: less_induct)
  case less
  show ?case
  proof (cases "n = 0 \<or> length xs < n")
    case True
    then show ?thesis using less.prems by (simp add: feed_blocks.simps)
  next
    case False
    then have "length (drop n xs) < length xs" by auto
    from less.hyps [OF this, of "f h (take n xs)"] assms [OF less.prems, of "take n xs"] False
    show ?thesis by (simp add: feed_blocks.simps [of n f _ xs])
  qed
qed

lemma sha2_rounds_length: "length v = 8 \<Longrightarrow> length (fold (\<lambda>(k, w). sha2_round S0 S1 k w) KW v) = 8"
  by (induction KW arbitrary: v) (auto simp: sha2_round_def Let_def)

lemma sha256_compress_length: "length h = 8 \<Longrightarrow> sha256_compress (h @ []) buf = sha256_compress h buf @ [] \<and> length (sha256_compress h buf) = 8"
  by (simp add: sha256_compress_def Let_def sha2_rounds_length)

lemma sha512_compress_length: "length h = 8 \<Longrightarrow> length (sha512_compress h buf) = 8"
  by (simp add: sha512_compress_def Let_def sha2_rounds_length)

text \<open>What the stream of chunks leaves, once padded.\<close>

lemma stream_end:
  assumes "holds64 k ctx h []" and "total64 ctx = 0"
    and "field = le_bytes 8 (if swap then swap64 (bit_count (concat chunks)) else bit_count (concat chunks))"
  shows "hash_words (common64_end swap (foldl md5_hash ctx chunks)) =
      fst (feed_blocks 64 (compress64 k) h (padded 64 field (concat chunks))) \<and>
    process_block (common64_end swap (foldl md5_hash ctx chunks)) = k"
proof -
  let ?c = "foldl md5_hash ctx chunks"
  obtain h' p where f: "feed_blocks 64 (compress64 k) h (concat chunks) = (h', p)" by fastforce
  have "holds64 k ?c h' p" using md5_stream.chunks_irrelevant [OF assms(1), of chunks] f
    by (simp add: list_all_iff)
  moreover have "field = le_bytes 8 (if swap then swap64 (push_bit 3 (total64 ?c)) else push_bit 3 (total64 ?c))"
    by (simp add: md5_hash_total assms(2,3) bit_count_def)
  ultimately show ?thesis
    using common64_end_pads [of k ?c h' p field swap] padded_split [OF _ f, of field] by simp
qed

lemma md5_digest:
  assumes "length (wbuffer ctx) = 64"
  shows "md5_end (foldl md5_hash (md5_begin ctx) chunks) = md5_message (concat chunks)"
proof -
  let ?d = "concat chunks" and ?r = "drop 4 (hash_words ctx)"
  have "holds64 Md5_process_block64 (md5_begin ctx) (md5_iv @ ?r) []"
    using assms by (simp add: holds64_def md5_begin_def md5_iv_def)
  from stream_end [OF this _ refl, of False chunks]
    feed_blocks_frame [of 4 md5_compress, OF md5_compress_append, of md5_iv 64 ?r "padded 64 (le_bytes 8 (bit_count ?d)) ?d"]
  show ?thesis by (simp add: md5_end_def md5_message_def md5_begin_def md5_iv_def)
qed

lemma sha1_digest:
  assumes "length (wbuffer ctx) = 64"
  shows "sha1_end (foldl md5_hash (sha1_begin ctx) chunks) = sha1_message (concat chunks)"
proof -
  let ?d = "concat chunks" and ?r5 = "drop 5 (hash_words ctx)"
  have "holds64 Sha1_process_block64 (sha1_begin ctx) (sha1_iv @ ?r5) []"
    using assms by (simp add: holds64_def sha1_begin_def sha1_iv_def md5_iv_def)
  from stream_end [OF this _ refl, of True chunks]
    feed_blocks_frame [of 5 sha1_compress, OF sha1_compress_append, of sha1_iv 64 ?r5 "padded 64 (be_bytes 8 (bit_count ?d)) ?d"]
  show ?thesis
    by (simp add: sha1_end_def Let_def sha1_message_def sha1_begin_def sha1_iv_def md5_iv_def le_bytes_swap cong: map_cong)
qed

lemma sha256_digest:
  assumes "length (wbuffer ctx) = 64"
  shows "sha1_end (foldl md5_hash (sha256_begin ctx) chunks) = sha256_message (concat chunks)"
proof -
  let ?d = "concat chunks"
  have "holds64 Sha256_process_block64 (sha256_begin ctx) sha256_iv []"
    using assms by (simp add: holds64_def sha256_begin_def sha256_iv_def init256_def)
  from stream_end [OF this _ refl, of True chunks]
    feed_blocks_frame [of 8 sha256_compress "[]", OF sha256_compress_length, of sha256_iv 64 "padded 64 (be_bytes 8 (bit_count ?d)) ?d"]
  show ?thesis
    by (simp add: sha1_end_def Let_def sha256_message_def sha256_begin_def sha256_iv_def init256_def le_bytes_swap)
qed

text \<open>The sizes of the digests.\<close>

lemma sha_message_lengths: "length (sha1_message data) = 20" "length (sha256_message data) = 32"
proof -
  have words: "length (concat (map (be_bytes 4) (ws :: u32 list))) = 4 * length ws" for ws
    by (induction ws) (simp_all add: be_bytes_def)
  show "length (sha1_message data) = 20" "length (sha256_message data) = 32"
    using feed_blocks_frame [of 5 sha1_compress, OF sha1_compress_append, of sha1_iv 64 "[]"]
      feed_blocks_frame [of 8 sha256_compress "[]", OF sha256_compress_length, of sha256_iv 64]
    by (simp_all add: sha1_message_def sha256_message_def words sha1_iv_def md5_iv_def sha256_iv_def)
qed

text \<open>C21: However a message is cut into pieces, \<open>md5_hash\<close> on the pieces and \<open>md5_end\<close>, or
  \<open>sha1_end\<close>, give the digest of the whole message: MD5, SHA-1 or SHA-256 by the context, of the
  padded message block by block. What the context held before does not matter.\<close>

theorem md5_sha_of_stream:
  assumes "length (wbuffer ctx) = 64"
  shows "md5_end (foldl md5_hash (md5_begin ctx) chunks) = md5_message (concat chunks) \<and>
    sha1_end (foldl md5_hash (sha1_begin ctx) chunks) = sha1_message (concat chunks) \<and>
    sha1_end (foldl md5_hash (sha256_begin ctx) chunks) = sha256_message (concat chunks)"
  using md5_digest [OF assms] sha1_digest [OF assms] sha256_digest [OF assms] by simp

theorem md5_sha_of_stream_witness:
  "md5_end (foldl md5_hash (md5_begin \<lparr>wbuffer = replicate 64 0, process_block = Md5_process_block64, total64 = 0,
      hash_words = []\<rparr>) [[1, 2], [], [3]]) = md5_message [1, 2, 3]"
  using md5_sha_of_stream [of "\<lparr>wbuffer = replicate 64 0, process_block = Md5_process_block64, total64 = 0,
      hash_words = []\<rparr>" "[[1, 2], [], [3]]"] by simp

section \<open>SHA-512\<close>

definition holds128 :: "sha512_ctx \<Rightarrow> u64 list \<Rightarrow> u8 list \<Rightarrow> bool" where
  "holds128 ctx h p \<longleftrightarrow> hash512 ctx = h \<and> length (wbuffer512 ctx) = 128 \<and>
     length p < 128 \<and> take (length p) (wbuffer512 ctx) = p \<and> unat (total_lo ctx) mod 128 = length p"

lemma sha512_loop_feeds:
  "length (wbuffer512 ctx) = 128 \<Longrightarrow> bufpos < 128 \<Longrightarrow> take bufpos (wbuffer512 ctx) = p \<Longrightarrow>
   feed_blocks 128 sha512_compress (hash512 ctx) (p @ bs) = (h', p') \<Longrightarrow> ctx' = sha512_loop ctx bufpos bs \<Longrightarrow>
   hash512 ctx' = h' \<and> length (wbuffer512 ctx') = 128 \<and> take (length p') (wbuffer512 ctx') = p' \<and>
   total_lo ctx' = total_lo ctx \<and> total_hi ctx' = total_hi ctx"
proof (induction ctx bufpos bs arbitrary: p rule: sha512_loop.induct)
  case (1 ctx bufpos bs)
  define rem where "rem = min (128 - bufpos) (length bs)"
  define c where "c = ctx\<lparr>wbuffer512 := poke (wbuffer512 ctx) bufpos (take rem bs)\<rparr>"
  have p: "length p = bufpos" using "1.prems"(1-3) by auto
  have len: "length (take rem bs) = rem" by (simp add: rem_def)
  have fits: "length p + length (take rem bs) \<le> length (wbuffer512 ctx)"
    unfolding len p "1.prems"(1) using "1.prems"(2) by (simp add: rem_def)
  have c: "length (wbuffer512 c) = 128" "take (bufpos + rem) (wbuffer512 c) = p @ take rem bs"
    using fits poke_at_end [OF fits] "1.prems" p len by (simp_all add: c_def)
  have step: "sha512_loop ctx bufpos bs =
      (if bufpos + rem \<noteq> 128 then c else sha512_loop (sha512_process_block128 c) 0 (drop rem bs))"
    by (simp add: sha512_loop.simps [of ctx bufpos bs] rem_def c_def Let_def)
  show ?case
  proof (cases "bufpos + rem = 128")
    case False
    then have short: "rem = length bs" "length (p @ bs) < 128" using "1.prems"(2) p by (auto simp: rem_def min_def split: if_splits)
    then have "h' = hash512 ctx" "p' = p @ bs" using "1.prems"(4) by (simp_all add: feed_blocks_short)
    with False c short p show ?thesis using "1.prems"(5) step by (simp add: c_def)
  next
    case True
    have full: "length (p @ take rem bs) = 128" using True p len by simp
    have w: "wbuffer512 c = p @ take rem bs" using c(1,2) True by simp
    have "feed_blocks 128 sha512_compress (hash512 ctx) ((p @ take rem bs) @ drop rem bs) = (h', p')"
      using "1.prems"(4) by simp
    then have "feed_blocks 128 sha512_compress (hash512 (sha512_process_block128 c)) (drop rem bs) = (h', p')"
      using feed_blocks_full [OF _ full, of sha512_compress "hash512 ctx" "drop rem bs"] w
      by (simp add: sha512_process_block128_def c_def)
    then have f: "feed_blocks 128 sha512_compress (hash512 (sha512_process_block128 c)) ([] @ drop rem bs) = (h', p')" by simp
    have "hash512 ctx' = h' \<and> length (wbuffer512 ctx') = 128 \<and> take (length p') (wbuffer512 ctx') = p' \<and>
        total_lo ctx' = total_lo (sha512_process_block128 c) \<and> total_hi ctx' = total_hi (sha512_process_block128 c)"
      by (rule "1.IH" [of rem c "[]", OF rem_def c_def _ _ _ _ f])
        (use True c "1.prems"(5) step in \<open>simp_all add: sha512_process_block128_def\<close>)
    then show ?thesis by (simp add: sha512_process_block128_def c_def)
  qed
qed

text \<open>The byte counter: two words that count to \<open>n\<close>.\<close>

definition counts :: "sha512_ctx \<Rightarrow> nat \<Rightarrow> bool" where
  "counts ctx n \<longleftrightarrow> total_lo ctx = of_nat n \<and> total_hi ctx = of_nat (n div 2 ^ 64)"

lemma add_carry:
  assumes "n < 2 ^ 64"
  shows "unat (lo + of_nat n :: u64) + (if lo + of_nat n < of_nat n then 2 ^ 64 else 0) = unat lo + n"
proof -
  have n: "unat (of_nat n :: u64) = n" using assms by (simp add: unat_of_nat)
  have s: "unat (lo + of_nat n) = (unat lo + n) mod 2 ^ 64" by (simp add: unat_word_ariths n)
  have l: "unat lo < 2 ^ 64" using unsigned_less [of lo] by simp
  show ?thesis
  proof (cases "unat lo + n < 2 ^ 64")
    case True
    then show ?thesis using s by (simp add: word_less_nat_alt n)
  next
    case False
    then have "unat (lo + of_nat n) = unat lo + n - 2 ^ 64" using s l assms by (simp add: le_mod_geq)
    then show ?thesis using False l by (simp add: word_less_nat_alt n)
  qed
qed

lemma sha512_loop_totals: "total_lo (sha512_loop ctx bufpos bs) = total_lo ctx \<and> total_hi (sha512_loop ctx bufpos bs) = total_hi ctx"
proof (induction ctx bufpos bs rule: sha512_loop.induct)
  case (1 ctx bufpos bs)
  then show ?case
    by (simp add: sha512_loop.simps [of ctx bufpos bs] Let_def sha512_process_block128_def)
qed

lemma div_add_split: "0 < k \<Longrightarrow> (n + m) div k = n div k + (n mod k + m) div (k :: nat)"
proof -
  assume "0 < k"
  then have "k \<noteq> 0" by simp
  from div_mult_self3 [OF this, of "n div k" "n mod k + m"]
  have "(n div k * k + (n mod k + m)) div k = n div k + (n mod k + m) div k" .
  moreover have "n div k * k + (n mod k + m) = n + m" by simp
  ultimately show ?thesis by (simp only:)
qed

lemma sha512_hash_counts:
  assumes "counts ctx n" and "length bs < 2 ^ 64"
  shows "counts (sha512_hash ctx bs) (n + length bs)"
proof -
  let ?len = "of_nat (length bs) :: u64"
  have lo: "unat (total_lo ctx) = n mod 2 ^ 64" using assms(1) by (simp add: counts_def unat_of_nat)
  have sum: "unat (total_lo ctx + ?len) + (if total_lo ctx + ?len < ?len then 2 ^ 64 else 0) = n mod 2 ^ 64 + length bs"
    using add_carry [OF assms(2), of "total_lo ctx"] lo by simp
  have less: "unat (total_lo ctx + ?len) < 2 ^ 64" using unsigned_less [of "total_lo ctx + ?len"] by simp
  have "(n + length bs) div 2 ^ 64 = n div 2 ^ 64 + (n mod 2 ^ 64 + length bs) div 2 ^ 64"
    by (rule div_add_split) simp
  also have "(n mod 2 ^ 64 + length bs) div 2 ^ 64 = (if total_lo ctx + ?len < ?len then 1 else 0)"
  proof (cases "total_lo ctx + ?len < ?len")
    case True
    then have "n mod 2 ^ 64 + length bs = 2 ^ 64 + unat (total_lo ctx + ?len)" using sum by simp
    then show ?thesis using True less by simp
  next
    case False
    then have "n mod 2 ^ 64 + length bs = unat (total_lo ctx + ?len)" using sum by simp
    then show ?thesis using False less by simp
  qed
  finally show ?thesis
    using assms(1) by (auto simp: counts_def sha512_hash_def Let_def sha512_loop_totals)
qed

lemma sha512_hash_holds:
  assumes "holds128 ctx h p" and "feed_blocks 128 sha512_compress h (p @ bs) = (h', p')"
  shows "holds128 (sha512_hash ctx bs) h' p'"
proof -
  have "length p' < 128" "length p' = (length p + length bs) mod 128"
    using feed_blocks_rest [of 128 sha512_compress h "p @ bs"] assms(2) by simp_all
  moreover have "unat (total_lo ctx + of_nat (length bs)) mod 128 = (length p + length bs) mod 128"
    using assms(1) unat_add_mod [of 128 "total_lo ctx" "length bs"] mod_add_left_eq [of "unat (total_lo ctx)" 128 "length bs"]
    by (simp add: holds128_def)
  moreover obtain hi where "sha512_hash ctx bs = sha512_loop (ctx\<lparr>total_lo := total_lo ctx + of_nat (length bs), total_hi := hi\<rparr>) (length p) bs"
    using assms(1) by (simp add: sha512_hash_def Let_def index_in_128 holds128_def)
  ultimately show ?thesis
    using sha512_loop_feeds [of "ctx\<lparr>total_lo := total_lo ctx + of_nat (length bs), total_hi := hi\<rparr>" "length p" p bs h' p' "sha512_hash ctx bs"] assms
    by (simp add: holds128_def)
qed

interpretation sha512_stream: streaming 128 sha512_compress sha512_hash holds128 "\<lambda>bs. length bs < 2 ^ 64"
  by unfold_locales (use sha512_hash_holds in auto)

lemma sha512_stream_counts:
  "counts ctx n \<Longrightarrow> list_all (\<lambda>bs. length bs < 2 ^ 64) chunks \<Longrightarrow>
   counts (foldl sha512_hash ctx chunks) (n + length (concat chunks))"
proof (induction chunks arbitrary: ctx n)
  case (Cons c chunks)
  then show ?case using Cons.IH [OF sha512_hash_counts [OF Cons.prems(1), of c]] by (simp add: add.assoc)
qed simp

text \<open>The bit count that is stored, a 128-bit number, big-endian.\<close>

definition bit_count128 :: "nat \<Rightarrow> u8 list" where
  "bit_count128 n = be_bytes 8 (of_nat (8 * n div 2 ^ 64) :: u64) @ be_bytes 8 (of_nat (8 * n) :: u64)"

lemma counter_bits:
  assumes "counts ctx n"
  shows "push_bit 3 (total_lo ctx) = of_nat (8 * n) \<and>
    push_bit 3 (total_hi ctx) OR drop_bit 61 (total_lo ctx) = of_nat (8 * n div 2 ^ 64)"
proof
  show "push_bit 3 (total_lo ctx) = of_nat (8 * n)" using assms by (simp add: counts_def push_bit_eq_mult)
  have "unat (drop_bit 61 (total_lo ctx)) = n mod 2 ^ 64 div 2 ^ 61"
    using assms by (simp add: counts_def unat_drop_bit_div unat_of_nat)
  then have d: "drop_bit 61 (total_lo ctx) = of_nat (n mod 2 ^ 64 div 2 ^ 61)"
    by (simp add: word_unat_eq_iff unat_of_nat take_bit_nat_eq_self)
  have "\<not> bit (push_bit 3 (total_hi ctx)) i \<or> \<not> bit (drop_bit 61 (total_lo ctx)) i" for i
    using bit_imp_le_length [of "total_lo ctx" "61 + i"] by (auto simp: bit_push_bit_iff bit_drop_bit_eq)
  then have "push_bit 3 (total_hi ctx) OR drop_bit 61 (total_lo ctx) = push_bit 3 (total_hi ctx) + drop_bit 61 (total_lo ctx)"
    by (intro disjunctive_add_eq_or [symmetric]) (simp add: bit_eq_iff bit_and_iff)
  also have "\<dots> = of_nat (8 * (n div 2 ^ 64) + n mod 2 ^ 64 div 2 ^ 61)"
    using assms d by (simp add: counts_def push_bit_eq_mult)
  also have "8 * (n div 2 ^ 64) + n mod 2 ^ 64 div 2 ^ 61 = 8 * n div 2 ^ 64"
  proof -
    have "8 * n div (8 * 2 ^ 61) = n div 2 ^ 61" by simp
    moreover have "n div 2 ^ 61 = 8 * (n div 2 ^ 64) + n mod 2 ^ 64 div 2 ^ 61"
    proof -
      have "n = 2 ^ 61 * (8 * (n div 2 ^ 64)) + n mod 2 ^ 64" using div_mult_mod_eq [of n "2 ^ 64"] by simp
      then show ?thesis by (metis add.commute div_mult_self2 power_not_zero zero_neq_numeral)
    qed
    ultimately show ?thesis by simp
  qed
  finally show "push_bit 3 (total_hi ctx) OR drop_bit 61 (total_lo ctx) = of_nat (8 * n div 2 ^ 64)" .
qed

text \<open>The end: as for the other contexts, with a field of 16 bytes.\<close>

lemma sha512_end_pads:
  assumes "holds128 ctx h p" and "field = le_bytes 8 (swap64 (push_bit 3 (total_hi ctx) OR drop_bit 61 (total_lo ctx))) @
      le_bytes 8 (swap64 (push_bit 3 (total_lo ctx)))"
  shows "sha512_end ctx = concat (map (be_bytes 8) (fst (feed_blocks 128 sha512_compress h (padded 128 field p))))"
proof -
  have a: "hash512 ctx = h" "length (wbuffer512 ctx) = 128" "length p < 128"
    "take (length p) (wbuffer512 ctx) = p" "unat (total_lo ctx AND 127) = length p"
    using assms(1) by (simp_all add: holds128_def index_in_128)
  define c where "c = ctx\<lparr>wbuffer512 := poke (wbuffer512 ctx) (length p) [0x80]\<rparr>"
  have c: "take (length (p @ [0x80])) (wbuffer512 c) = p @ [0x80]" "length (wbuffer512 c) = 128"
    "hash512 c = h" "total_lo c = total_lo ctx" "total_hi c = total_hi ctx"
    using poke_at_end [of p "[0x80]" "wbuffer512 ctx"] a by (simp_all add: c_def)
  have e: "sha512_end ctx = concat (map (be_bytes 8) (hash512 (sha512_end_loop c (length (p @ [0x80])))))"
    by (simp add: sha512_end_def Let_def a(5) c_def le_bytes_swap)
  have fl: "length field = 16" by (simp add: assms(2))
  have fill: "poke (wbuffer512 c) (length (p @ [0x80])) (replicate (128 - length (p @ [0x80])) 0) =
      p @ 0x80 # replicate (127 - length p) 0"
    using poke_fill [of "p @ [0x80]" "replicate (128 - length (p @ [0x80])) 0" "wbuffer512 c"] c a(3) by simp
  define put where "put = (\<lambda>buf. poke (poke buf (128 - 8) (le_bytes 8 (swap64 (push_bit 3 (total_lo ctx))))) (128 - 16)
      (le_bytes 8 (swap64 (push_bit 3 (total_hi ctx) OR drop_bit 61 (total_lo ctx)))))"
  have counter: "put buf = take 112 buf @ field" if "length buf = 128" for buf
    using that by (simp add: put_def poke_def assms(2))
  have loop: "sha512_end_loop d b =
      (if 128 - b \<ge> 16
       then sha512_process_block128 (d\<lparr>wbuffer512 := put (poke (wbuffer512 d) b (replicate (128 - b) 0))\<rparr>)
       else sha512_end_loop (sha512_process_block128 (d\<lparr>wbuffer512 := poke (wbuffer512 d) b (replicate (128 - b) 0)\<rparr>)) 0)"
    if "total_lo d = total_lo ctx" "total_hi d = total_hi ctx" for d b
    by (simp add: sha512_end_loop.simps [of d b] Let_def put_def that)
  show ?thesis
  proof (cases "length p \<le> 111")
    case True
    then have z: "(128 - (length p + 1 + length field) mod 128) mod 128 = 111 - length p"
      unfolding fl by (subst pad_one) simp_all
    have pd: "padded 128 field p = p @ 0x80 # replicate (111 - length p) 0 @ field"
      unfolding padded_def z ..
    then have full: "length (padded 128 field p) = 128" using True by (simp add: fl)
    have "take 112 (p @ 0x80 # replicate (127 - length p) 0) @ field = padded 128 field p"
      using True by (simp add: pd take_Cons' min_def)
    moreover have "16 \<le> 128 - length (p @ [0x80])" using True by simp
    moreover have "length (p @ 0x80 # replicate (127 - length p) (0 :: u8)) = 128" using True by simp
    ultimately have "sha512_end_loop c (length (p @ [0x80])) = sha512_process_block128 (c\<lparr>wbuffer512 := padded 128 field p\<rparr>)"
      unfolding loop [OF c(4,5)] fill by (simp only: counter if_True)
    then show ?thesis using c feed_blocks_full [OF _ full, of sha512_compress h "[]"]
      by (simp add: e sha512_process_block128_def feed_blocks_short)
  next
    case False
    then have z: "(128 - (length p + 1 + length field) mod 128) mod 128 = 256 - (length p + 17)"
      using a(3) unfolding fl by (subst pad_two) simp_all
    define b1 where "b1 = p @ 0x80 # replicate (127 - length p) 0"
    define b2 where "b2 = replicate 112 0 @ field"
    have len: "length b1 = 128" "length b2 = 128" using a(3) by (simp_all add: b1_def b2_def fl)
    have "padded 128 field p = p @ 0x80 # replicate (256 - (length p + 17)) 0 @ field"
      unfolding padded_def z ..
    then have split: "padded 128 field p = b1 @ b2"
      using False a(3) by (simp add: b1_def b2_def replicate_add [symmetric])
    have "\<not> 16 \<le> 128 - length (p @ [0x80])" using False by simp
    then have "sha512_end_loop c (length (p @ [0x80])) =
        sha512_end_loop (sha512_process_block128 (c\<lparr>wbuffer512 := b1\<rparr>)) 0"
      unfolding loop [OF c(4,5)] fill b1_def by (simp only: if_False)
    also have "poke b1 0 (replicate (128 - 0) 0) = replicate 128 0" using len by (simp add: poke_def)
    then have "sha512_end_loop (sha512_process_block128 (c\<lparr>wbuffer512 := b1\<rparr>)) 0 =
        sha512_process_block128 ((sha512_process_block128 (c\<lparr>wbuffer512 := b1\<rparr>))\<lparr>wbuffer512 := b2\<rparr>)"
      using counter [of "replicate 128 0"] c(4,5)
      by (subst loop) (simp_all add: sha512_process_block128_def b2_def)
    finally show ?thesis
      using c split feed_blocks_full [OF _ len(1), of sha512_compress h b2] feed_blocks_full [OF _ len(2), of sha512_compress _ "[]"]
      by (simp add: e sha512_process_block128_def feed_blocks_short)
  qed
qed

definition sha512_iv :: "u64 list" where
  "sha512_iv = [0x6a09e667f3bcc908, 0xbb67ae8584caa73b, 0x3c6ef372fe94f82b, 0xa54ff53a5f1d36f1,
     0x510e527fade682d1, 0x9b05688c2b3e6c1f, 0x1f83d9abfb41bd6b, 0x5be0cd19137e2179]"

definition sha512_message :: "u8 list \<Rightarrow> u8 list" where
  "sha512_message data = concat (map (be_bytes 8)
     (fst (feed_blocks 128 sha512_compress sha512_iv (padded 128 (bit_count128 (length data)) data))))"

lemma sha512_begin_words:
  "map2 (\<lambda>hi lo. push_bit 32 (ucast hi) + ucast lo :: u64) init256 init512_lo = 0 # 0 # sha512_iv"
  by code_simp

lemma sha512_begin_iv: "hash512 (sha512_begin ctx) = sha512_iv \<and> counts (sha512_begin ctx) 0"
  unfolding sha512_begin_def sha512_begin_words by (simp add: counts_def)

text \<open>C23: SHA-512 of a message in pieces of any sizes is the digest of the whole message; its
  length field is the exact number of bits, 128 wide, whatever carries the byte counter made.\<close>

theorem sha512_of_stream:
  assumes "length (wbuffer512 ctx) = 128" and "list_all (\<lambda>bs. length bs < 2 ^ 64) chunks"
  shows "sha512_end (foldl sha512_hash (sha512_begin ctx) chunks) = sha512_message (concat chunks)"
proof -
  let ?c = "foldl sha512_hash (sha512_begin ctx) chunks" and ?d = "concat chunks"
  obtain h' p where f: "feed_blocks 128 sha512_compress sha512_iv ?d = (h', p)" by fastforce
  have "wbuffer512 (sha512_begin ctx) = wbuffer512 ctx" by (simp add: sha512_begin_def Let_def)
  then have "holds128 (sha512_begin ctx) sha512_iv []"
    using assms(1) sha512_begin_iv [of ctx] by (simp add: holds128_def counts_def)
  from sha512_stream.chunks_irrelevant [OF this assms(2)] have h: "holds128 ?c h' p" by (simp add: f)
  have "counts ?c (length ?d)" using sha512_stream_counts [OF conjunct2 [OF sha512_begin_iv] assms(2)] by simp
  from counter_bits [OF this]
  have "bit_count128 (length ?d) = le_bytes 8 (swap64 (push_bit 3 (total_hi ?c) OR drop_bit 61 (total_lo ?c))) @
      le_bytes 8 (swap64 (push_bit 3 (total_lo ?c)))"
    by (simp only: bit_count128_def le_bytes_swap)
  from sha512_end_pads [OF h this] padded_split [OF _ f, of "bit_count128 (length ?d)"]
  show ?thesis by (simp add: sha512_message_def)
qed

theorem sha512_of_stream_witness:
  "sha512_end (foldl sha512_hash (sha512_begin \<lparr>total_lo = 7, total_hi = 7, hash512 = [], wbuffer512 = replicate 128 1\<rparr>)
     [[1, 2], [], [3]]) = sha512_message [1, 2, 3]"
  using sha512_of_stream [of "\<lparr>total_lo = 7, total_hi = 7, hash512 = [], wbuffer512 = replicate 128 1\<rparr>" "[[1, 2], [], [3]]"]
  by simp

section \<open>SHA-3\<close>

lemma xor_bytes_append: "xor_bytes st i (xs @ ys) = xor_bytes (xor_bytes st i xs) (i + length xs) ys"
  by (induction st i xs rule: xor_bytes.induct) simp_all

lemma xor_bytes_zeros: "xor_bytes st i (replicate k 0) = st"
  by (induction k arbitrary: i) (simp_all add: xor_byte_def)

lemma xor_byte_twice: "xor_byte (xor_byte st i a) i b = xor_byte st i (a XOR b)"
proof (cases "i div 8 < length st")
  case True
  have "push_bit k (ucast a) XOR push_bit k (ucast b) = (push_bit k (ucast (a XOR b)) :: u64)" for k
    by (rule bit_word_eqI) (auto simp: bit_xor_iff bit_push_bit_iff bit_ucast_iff)
  then show ?thesis using True by (simp add: xor_byte_def xor.assoc)
qed (simp add: xor_byte_def list_update_beyond)

text \<open>A block is xored into the state, and the state is permuted.\<close>

definition absorb :: "u64 list \<Rightarrow> u8 list \<Rightarrow> u64 list" where
  "absorb h block = sha3_process_block72 (xor_bytes h 0 block)"

definition holds_sponge :: "nat \<Rightarrow> sha3_ctx \<Rightarrow> u64 list \<Rightarrow> u8 list \<Rightarrow> bool" where
  "holds_sponge n ctx h p \<longleftrightarrow> input_block_bytes ctx = n \<and> state ctx = xor_bytes h 0 p \<and>
     bytes_queued ctx = length p \<and> length p < n"

lemma sha3_loop_feeds:
  "input_block_bytes ctx = n \<Longrightarrow> bufpos < n \<Longrightarrow> state ctx = xor_bytes h 0 p \<Longrightarrow> length p = bufpos \<Longrightarrow>
   feed_blocks n absorb h (p @ bs) = (h', p') \<Longrightarrow> ctx' = sha3_loop ctx bufpos bs \<Longrightarrow> holds_sponge n ctx' h' p'"
proof (induction ctx bufpos bs arbitrary: h p rule: sha3_loop.induct)
  case (1 ctx bufpos bs)
  define rem where "rem = min (input_block_bytes ctx - bufpos) (length bs)"
  define c where "c = ctx\<lparr>state := xor_bytes (state ctx) bufpos (take rem bs)\<rparr>"
  have n: "n \<noteq> 0" using "1.prems"(2) by simp
  have len: "length (p @ take rem bs) = bufpos + rem" using "1.prems"(4) by (simp add: rem_def)
  have c: "state c = xor_bytes h 0 (p @ take rem bs)" using "1.prems"(3,4) by (simp add: c_def xor_bytes_append)
  have step: "sha3_loop ctx bufpos bs =
      (if bufpos + rem \<noteq> n then c\<lparr>bytes_queued := bufpos + rem\<rparr>
       else sha3_loop (c\<lparr>state := sha3_process_block72 (state c)\<rparr>) 0 (drop rem bs))"
    using n by (simp add: sha3_loop.simps [of ctx bufpos bs] rem_def c_def Let_def "1.prems"(1))
  show ?case
  proof (cases "bufpos + rem = n")
    case False
    then have short: "rem = length bs" "length (p @ bs) < n"
      using "1.prems"(1,2,4) by (auto simp: rem_def min_def split: if_splits)
    then have "h' = h" "p' = p @ bs" using "1.prems"(5) by (simp_all add: feed_blocks_short)
    with False c short show ?thesis using "1.prems"(1,4,6) step by (simp add: c_def holds_sponge_def)
  next
    case True
    have full: "length (p @ take rem bs) = n" using True len by simp
    have "feed_blocks n absorb h ((p @ take rem bs) @ drop rem bs) = (h', p')" using "1.prems"(5) by simp
    then have f: "feed_blocks n absorb (sha3_process_block72 (state c)) ([] @ drop rem bs) = (h', p')"
      using feed_blocks_full [OF _ full, of absorb h "drop rem bs"] n c by (simp add: absorb_def)
    show ?thesis
      by (rule "1.IH" [OF refl rem_def c_def _ _ _ _ _ f])
        (use True n "1.prems"(1,6) step in \<open>simp_all add: c_def\<close>)
  qed
qed

lemma sha3_hash_holds:
  "holds_sponge n ctx h p \<Longrightarrow> feed_blocks n absorb h (p @ bs) = (h', p') \<Longrightarrow> holds_sponge n (sha3_hash ctx bs) h' p'"
  using sha3_loop_feeds [of ctx n "length p" h p bs h' p' "sha3_hash ctx bs"]
  by (simp add: sha3_hash_def holds_sponge_def)

interpretation sha3_stream: streaming "Suc n" absorb sha3_hash "holds_sponge (Suc n)" "\<lambda>_. True"
  by unfold_locales (use sha3_hash_holds in auto)

text \<open>SHA-3's padding: the bits 011, zero bits, and a last 1.\<close>

definition sha3_pad :: "nat \<Rightarrow> nat \<Rightarrow> u8 list" where
  "sha3_pad n m = (if m mod n = n - 1 then [0x86] else 6 # replicate (n - 2 - m mod n) 0 @ [0x80])"

definition sha3_message :: "nat \<Rightarrow> u8 list \<Rightarrow> u8 list" where
  "sha3_message n data = concat (map (le_bytes 8)
     (take 8 (fst (feed_blocks n absorb (replicate 25 0) (data @ sha3_pad n (length data))))))"

lemma sha3_end_pads:
  assumes "holds_sponge n ctx h p"
  shows "sha3_end ctx = concat (map (le_bytes 8) (take 8 (fst (feed_blocks n absorb h (p @ sha3_pad n (length p))))))"
proof -
  have a: "input_block_bytes ctx = n" "state ctx = xor_bytes h 0 p" "bytes_queued ctx = length p" "length p < n"
    using assms by (simp_all add: holds_sponge_def)
  have "xor_byte (xor_byte (xor_bytes h 0 p) (length p) 6) (n - 1) 0x80 = xor_bytes h 0 (p @ sha3_pad n (length p))"
  proof (cases "length p = n - 1")
    case True
    have "(6 :: u8) XOR 0x80 = 0x86" by simp
    then show ?thesis using True a(4) xor_byte_twice [of "xor_bytes h 0 p" "n - 1" 6 "0x80"]
      by (simp add: sha3_pad_def xor_bytes_append)
  next
    case False
    then have "Suc (length p + (n - 2 - length p)) = n - 1" using a(4) by simp
    then show ?thesis using False a(4) by (simp add: sha3_pad_def xor_bytes_append xor_bytes_zeros)
  qed
  moreover have full: "length (p @ sha3_pad n (length p)) = n" using a(4) by (auto simp: sha3_pad_def)
  moreover have "0 < n" using a(4) by simp
  ultimately show ?thesis
    using feed_blocks_full [OF _ full, of absorb h "[]"] a by (simp add: sha3_end_def Let_def absorb_def feed_blocks_short)
qed

lemma sha3_block_sizes: "sha3sum_sizes width = Some (n, digest) \<Longrightarrow> 0 < n \<and> digest = width div 8"
  by (auto simp: sha3sum_sizes_def Let_def div_mult2_eq [symmetric] split: if_splits)

text \<open>C38: For every width that \<open>sha3sum\<close> takes, SHA-3 of a message in pieces of any sizes is the
  sponge over the whole padded message.\<close>

theorem sha3_of_stream:
  assumes "sha3sum_sizes width = Some (n, digest)"
  shows "sha3_end (foldl sha3_hash ((sha3_begin ctx)\<lparr>input_block_bytes := n\<rparr>) chunks) = sha3_message n (concat chunks)"
proof -
  let ?c = "(sha3_begin ctx)\<lparr>input_block_bytes := n\<rparr>" and ?d = "concat chunks"
  obtain m where n: "n = Suc m" using sha3_block_sizes [OF assms] by (cases n) auto
  obtain h' p where f: "feed_blocks n absorb (replicate 25 0) ?d = (h', p)" by fastforce
  have "holds_sponge n ?c (replicate 25 0) []" by (simp add: holds_sponge_def sha3_begin_def n)
  with sha3_stream.chunks_irrelevant [of m ?c "replicate 25 0" chunks] f
  have "holds_sponge n (foldl sha3_hash ?c chunks) h' p" by (simp add: n list_all_iff)
  moreover have "length p = length ?d mod n" using feed_blocks_rest [of n absorb "replicate 25 0" ?d] f n by simp
  then have "sha3_pad n (length p) = sha3_pad n (length ?d)" by (simp add: sha3_pad_def)
  ultimately show ?thesis
    using sha3_end_pads [of n "foldl sha3_hash ?c chunks" h' p] feed_blocks_append [of n absorb "replicate 25 0" ?d "sha3_pad n (length ?d)"] f
    by (simp add: sha3_message_def)
qed

theorem sha3_of_stream_witness:
  "sha3_end (foldl sha3_hash ((sha3_begin \<lparr>state = [], bytes_queued = 3, input_block_bytes = 0\<rparr>)\<lparr>input_block_bytes := 144\<rparr>)
     [[1, 2], [], [3]]) = sha3_message 144 [1, 2, 3]"
  using sha3_of_stream [of 224 144 28 "\<lparr>state = [], bytes_queued = 3, input_block_bytes = 0\<rparr>" "[[1, 2], [], [3]]"]
  by (simp add: sha3sum_sizes_def Let_def)

lemma sha3_process_length: "length (sha3_process_block72 st) = 25"
proof -
  have "length (fold (\<lambda>round st. iota round (chi (rho_pi (theta st)))) (0 # [1..<24]) st) = 25"
    unfolding fold_Cons comp_apply
    by (rule fold_invariant [where P = "\<lambda>st. length st = 25"]) (simp_all add: iota_def chi_def)
  moreover have "[0..<24] = 0 # [1..<24]" by (simp add: upt_conv_Cons)
  ultimately show ?thesis by (simp add: sha3_process_block72_def)
qed

text \<open>\<open>sha3sum\<close> takes every width below 800 that is a multiple of 32, but \<open>sha3_end\<close> stores 64
  bytes: the digest it prints is all of them or a part exactly up to width 512. From 544 on the
  rest of what it prints is what the read buffer held, not the hash.\<close>

theorem sha3sum_digest_fits:
  assumes "sha3sum_sizes width = Some (n, digest)"
  shows "digest \<le> length (sha3_end ctx) \<longleftrightarrow> width \<le> 512"
proof -
  have "length (sha3_end ctx) = 64"
    by (simp add: sha3_end_def Let_def length_concat sha3_process_length comp_def sum_list_triv)
  moreover have "width mod 32 = 0" using assms by (auto simp: sha3sum_sizes_def split: if_splits)
  then have "width div 8 \<le> 64 \<longleftrightarrow> width \<le> 512" by presburger
  ultimately show ?thesis using sha3_block_sizes [OF assms] by simp
qed

theorem sha3sum_digest_fits_witness:
  "\<not> 96 \<le> length (sha3_end \<lparr>state = replicate 25 0, bytes_queued = 0, input_block_bytes = 8\<rparr>)"
  using sha3sum_digest_fits [of 768 8 96] by (simp add: sha3sum_sizes_def Let_def)

end
