(* ===== verification/DhcpOptions.thy ===== *)
theory DhcpOptions
  imports ByteOrder
begin

text \<open>
  DHCP packets and their options: \<^verbatim>\<open>networking/udhcp/common.c\<close>, the packet of \<^verbatim>\<open>common.h\<close> and
  \<^verbatim>\<open>udhcp_init_header\<close> of \<^verbatim>\<open>packet.c\<close>. Every access to a field of a packet is checked: \<open>None\<close>
  is an access outside it, and a pointer that the code returns is an inner option, the data of the
  option it points to. Multi-byte fields hold what the machine reads, in network order.
\<close>

section \<open>Packets\<close>

definition DHCP_OPTIONS_BUFSIZE :: nat where "DHCP_OPTIONS_BUFSIZE = 308"
definition SLACK_FOR_BUGGY_SERVERS :: nat where "SLACK_FOR_BUGGY_SERVERS = 80"
definition sizeof_options :: nat where "sizeof_options = DHCP_OPTIONS_BUFSIZE + SLACK_FOR_BUGGY_SERVERS"
definition DHCP_PKT_SNAME_LEN :: nat where "DHCP_PKT_SNAME_LEN = 64"
definition DHCP_PKT_FILE_LEN :: nat where "DHCP_PKT_FILE_LEN = 128"
definition BOOTREQUEST :: u8 where "BOOTREQUEST = 1"
definition BOOTREPLY :: u8 where "BOOTREPLY = 2"
definition DHCP_MAGIC :: u32 where "DHCP_MAGIC = 0x63825363"

lemmas packet_sizes = DHCP_OPTIONS_BUFSIZE_def SLACK_FOR_BUGGY_SERVERS_def sizeof_options_def
  DHCP_PKT_SNAME_LEN_def DHCP_PKT_FILE_LEN_def

definition BROADCAST_FLAG :: u16 where "BROADCAST_FLAG = 0x8000"

record dhcp_packet =
  op :: u8
  htype :: u8
  hlen :: u8
  hops :: u8
  xid :: u32
  secs :: u16
  flags :: u16
  ciaddr :: u32
  yiaddr :: u32
  siaddr_nip :: u32
  gateway_nip :: u32
  chaddr :: "u8 list"
  sname :: "u8 list"
  pkt_file :: "u8 list"
  cookie :: u32
  options :: "u8 list"

definition packet_ok :: "dhcp_packet \<Rightarrow> bool" where
  "packet_ok p \<longleftrightarrow> length (chaddr p) = 16 \<and> length (sname p) = DHCP_PKT_SNAME_LEN \<and>
     length (pkt_file p) = DHCP_PKT_FILE_LEN \<and> length (options p) = sizeof_options"

section \<open>Option codes\<close>

definition DHCP_PADDING :: u8 where "DHCP_PADDING = 0"
definition DHCP_HOST_NAME :: u8 where "DHCP_HOST_NAME = 0x0c"
definition DHCP_REQUESTED_IP :: u8 where "DHCP_REQUESTED_IP = 0x32"
definition DHCP_LEASE_TIME :: u8 where "DHCP_LEASE_TIME = 0x33"
definition DHCP_OPTION_OVERLOAD :: u8 where "DHCP_OPTION_OVERLOAD = 0x34"
definition DHCP_MESSAGE_TYPE :: u8 where "DHCP_MESSAGE_TYPE = 0x35"
definition DHCP_SERVER_ID :: u8 where "DHCP_SERVER_ID = 0x36"
definition DHCP_END :: u8 where "DHCP_END = 0xff"

lemmas option_codes = DHCP_PADDING_def DHCP_HOST_NAME_def DHCP_REQUESTED_IP_def DHCP_LEASE_TIME_def
  DHCP_OPTION_OVERLOAD_def DHCP_MESSAGE_TYPE_def DHCP_SERVER_ID_def DHCP_END_def

section \<open>Finding an option\<close>

datatype field = Options_field | File_field | Sname_field

fun field_bytes :: "dhcp_packet \<Rightarrow> field \<Rightarrow> u8 list" where
  "field_bytes p Options_field = options p"
| "field_bytes p File_field = pkt_file p"
| "field_bytes p Sname_field = sname p"

definition FILE_FIELD :: u32 where "FILE_FIELD = 1"
definition SNAME_FIELD :: u32 where "SNAME_FIELD = 2"
definition FILE_FIELD101 :: u32 where "FILE_FIELD101 = FILE_FIELD * 0x101"
definition SNAME_FIELD101 :: u32 where "SNAME_FIELD101 = SNAME_FIELD * 0x101"

lemmas field_bits = FILE_FIELD_def SNAME_FIELD_def FILE_FIELD101_def SNAME_FIELD101_def

text \<open>A field that was looked at has its high bit in \<open>overload\<close>, which no byte of an option sets.\<close>

definition fields_left :: "u32 \<Rightarrow> nat" where
  "fields_left overload = (if bit overload 8 then 0 else 1) + (if bit overload 9 then 0 else 1)"

lemma fields_left_byte: "fields_left (overload OR ucast (b :: u8)) = fields_left overload"
  by (simp add: fields_left_def bit_or_iff bit_ucast_iff)

lemma fields_left_looked:
  "overload AND FILE_FIELD101 = FILE_FIELD \<Longrightarrow> fields_left (overload OR FILE_FIELD101) < fields_left overload"
  "overload AND SNAME_FIELD101 = SNAME_FIELD \<Longrightarrow> fields_left (overload OR SNAME_FIELD101) < fields_left overload"
proof -
  have b: "bit (FILE_FIELD101) 8" "\<not> bit FILE_FIELD101 9" "\<not> bit FILE_FIELD 8"
    "bit (SNAME_FIELD101) 9" "\<not> bit SNAME_FIELD101 8" "\<not> bit SNAME_FIELD 9"
    by (simp_all add: field_bits bit_numeral_word_iff)
  show "fields_left (overload OR FILE_FIELD101) < fields_left overload" if "overload AND FILE_FIELD101 = FILE_FIELD"
  proof -
    from that have "bit (overload AND FILE_FIELD101) 8 = bit FILE_FIELD 8" by (rule arg_cong)
    then show ?thesis using b by (simp add: fields_left_def bit_or_iff bit_and_iff)
  qed
  show "fields_left (overload OR SNAME_FIELD101) < fields_left overload" if "overload AND SNAME_FIELD101 = SNAME_FIELD"
  proof -
    from that have "bit (overload AND SNAME_FIELD101) 9 = bit SNAME_FIELD 9" by (rule arg_cong)
    then show ?thesis using b by (simp add: fields_left_def bit_or_iff bit_and_iff)
  qed
qed

text \<open>
  The loop of \<^verbatim>\<open>udhcp_get_option\<close>: \<open>f\<close> and \<open>i\<close> are \<^verbatim>\<open>optionptr\<close>. The flags of an overload option
  are read when it has data.
\<close>

definition read_overload :: "u8 list \<Rightarrow> nat \<Rightarrow> u8 \<Rightarrow> nat \<Rightarrow> u32 \<Rightarrow> u32 option" where
  "read_overload bs i c len overload =
     (if c = DHCP_OPTION_OVERLOAD \<and> len \<ge> 3
      then do { b \<leftarrow> rd bs (i + 2); Some (overload OR ucast b) } else Some overload)"

lemma read_overload_left: "read_overload bs i c len overload = Some overload' \<Longrightarrow> fields_left overload' = fields_left overload"
  by (auto simp: read_overload_def fields_left_byte bind_eq_Some_conv split: if_splits)

lemma option_length_positive: "\<not> rem < 2 + uint (l :: u8) \<Longrightarrow> 0 < rem \<and> - 2 < uint l"
  using unsigned_greater_eq [of l, where 'a = int] by linarith

function get_option_loop ::
  "dhcp_packet \<Rightarrow> u8 \<Rightarrow> field \<Rightarrow> nat \<Rightarrow> int \<Rightarrow> u32 \<Rightarrow> u8 list option option" where
  "get_option_loop p code f i rem overload =
     (if rem \<le> 0 then Some None
      else case rd (field_bytes p f) i of None \<Rightarrow> None | Some c \<Rightarrow>
        if c = DHCP_PADDING then get_option_loop p code f (i + 1) (rem - 1) overload
        else if c = DHCP_END then
          (if overload AND FILE_FIELD101 = FILE_FIELD then
             get_option_loop p code File_field 0 (int DHCP_PKT_FILE_LEN) (overload OR FILE_FIELD101)
           else if overload AND SNAME_FIELD101 = SNAME_FIELD then
             get_option_loop p code Sname_field 0 (int DHCP_PKT_SNAME_LEN) (overload OR SNAME_FIELD101)
           else Some None)
        else if rem \<le> 1 then Some None
        else (case rd (field_bytes p f) (i + 1) of None \<Rightarrow> None | Some l \<Rightarrow>
          (let len = 2 + unat l in
           if rem - int len < 0 then Some None
           else if c = code then
             (if l = 0 then Some None else map_option Some (rd_n (field_bytes p f) (i + 2) (unat l)))
           else (case read_overload (field_bytes p f) i c len overload of
               None \<Rightarrow> None
             | Some overload' \<Rightarrow> get_option_loop p code f (i + len) (rem - int len) overload'))))"
  by pat_completeness auto
termination
  by (relation "measures [\<lambda>(p, code, f, i, rem, overload). fields_left overload, \<lambda>(p, code, f, i, rem, overload). nat rem]")
    (auto simp: fields_left_looked dest: read_overload_left option_length_positive)

declare get_option_loop.simps [simp del]

definition udhcp_get_option :: "dhcp_packet \<Rightarrow> u8 \<Rightarrow> u8 list option option" where
  "udhcp_get_option p code = get_option_loop p code Options_field 0 (int sizeof_options) 0"

definition udhcp_get_option32 :: "dhcp_packet \<Rightarrow> u8 \<Rightarrow> u8 list option option" where
  "udhcp_get_option32 p code = do {
     r \<leftarrow> udhcp_get_option p code;
     Some (case r of None \<Rightarrow> None | Some d \<Rightarrow> if length d \<noteq> 4 then None else Some d) }"

section \<open>Adding options\<close>

function udhcp_end_option :: "u8 list \<Rightarrow> nat \<Rightarrow> nat option" where
  "udhcp_end_option os i =
     (case rd os i of None \<Rightarrow> None | Some c \<Rightarrow>
        if c = DHCP_END then Some i
        else if c = DHCP_PADDING then udhcp_end_option os (i + 1)
        else (case rd os (i + 1) of None \<Rightarrow> None | Some l \<Rightarrow> udhcp_end_option os (i + (unat l + 1) + 1)))"
  by pat_completeness auto
termination by (relation "measure (\<lambda>(os, i). length os - i)") (auto simp: rd_eq_Some)

declare udhcp_end_option.simps [simp del]

definition udhcp_add_binary_option :: "dhcp_packet \<Rightarrow> u8 list \<Rightarrow> dhcp_packet option" where
  "udhcp_add_binary_option p addopt = do {
     end' \<leftarrow> udhcp_end_option (options p) 0;
     l \<leftarrow> rd addopt 1;
     let len = 2 + unat l;
     if end' + len + 1 \<ge> DHCP_OPTIONS_BUFSIZE then Some p
     else do {
       bs \<leftarrow> rd_n addopt 0 len;
       os \<leftarrow> wr_n (options p) end' bs;
       os \<leftarrow> wr_n os (end' + len) [DHCP_END];
       Some (p\<lparr>options := os\<rparr>) } }"

text \<open>The table \<^verbatim>\<open>dhcp_optflags\<close>, and the lengths of the types of its flags.\<close>

datatype option_type = OPTION_IP | OPTION_IP_PAIR | OPTION_STRING | OPTION_STRING_HOST | OPTION_U8 | OPTION_U16
  | OPTION_U32 | OPTION_S32 | OPTION_BIN | OPTION_STATIC_ROUTES | OPTION_6RD | OPTION_DNS_STRING | OPTION_SIP_SERVERS

definition dhcp_optflags :: "(option_type \<times> u8) list" where
  "dhcp_optflags = [
     (OPTION_IP, 0x01), (OPTION_S32, 0x02), (OPTION_IP, 0x03), (OPTION_IP, 0x06), (OPTION_IP, 0x09),
     (OPTION_STRING_HOST, 0x0c), (OPTION_U16, 0x0d), (OPTION_STRING_HOST, 0x0f), (OPTION_IP, 0x10),
     (OPTION_STRING, 0x11), (OPTION_U8, 0x17), (OPTION_U16, 0x1a), (OPTION_IP, 0x1c), (OPTION_IP_PAIR, 0x21),
     (OPTION_STRING_HOST, 0x28), (OPTION_IP, 0x29), (OPTION_IP, 0x2a), (OPTION_IP, 0x2c), (OPTION_U32, 0x33),
     (OPTION_IP, 0x36), (OPTION_STRING, 0x38), (OPTION_STRING_HOST, 0x42), (OPTION_STRING, 0x43),
     (OPTION_STRING, 0x64), (OPTION_STRING, 0x65), (OPTION_DNS_STRING, 0x77), (OPTION_SIP_SERVERS, 0x78),
     (OPTION_STATIC_ROUTES, 0x79), (OPTION_U16, 0x84), (OPTION_U8, 0x85), (OPTION_STRING, 0xd1),
     (OPTION_STRING, 0xd2), (OPTION_U32, 0xd3), (OPTION_6RD, 0xd4), (OPTION_STATIC_ROUTES, 0xf9),
     (OPTION_STRING, 0xfc), (OPTION_IP, 0x32), (OPTION_U8, 0x35), (OPTION_U16, 0x39)]"

fun dhcp_option_lengths :: "option_type \<Rightarrow> u8" where
  "dhcp_option_lengths OPTION_IP = 4"
| "dhcp_option_lengths OPTION_IP_PAIR = 8"
| "dhcp_option_lengths OPTION_STRING = 1"
| "dhcp_option_lengths OPTION_STRING_HOST = 1"
| "dhcp_option_lengths OPTION_DNS_STRING = 1"
| "dhcp_option_lengths OPTION_SIP_SERVERS = 1"
| "dhcp_option_lengths OPTION_U8 = 1"
| "dhcp_option_lengths OPTION_U16 = 2"
| "dhcp_option_lengths OPTION_U32 = 4"
| "dhcp_option_lengths OPTION_S32 = 4"
| "dhcp_option_lengths OPTION_BIN = 0"
| "dhcp_option_lengths OPTION_STATIC_ROUTES = 5"
| "dhcp_option_lengths OPTION_6RD = 12"

definition udhcp_add_simple_option :: "dhcp_packet \<Rightarrow> u8 \<Rightarrow> u32 \<Rightarrow> dhcp_packet option" where
  "udhcp_add_simple_option p code data =
     (case find (\<lambda>dh. snd dh = code) dhcp_optflags of
        Some dh \<Rightarrow> udhcp_add_binary_option p (code # dhcp_option_lengths (fst dh) # le_bytes 4 data)
      | None \<Rightarrow> Some p)"

text \<open>The configured options are a list sorted by code.\<close>

fun udhcp_find_option :: "u8 list list \<Rightarrow> u8 \<Rightarrow> u8 list option" where
  "udhcp_find_option [] code = None"
| "udhcp_find_option (o1 # opt_list) code =
     (if o1 ! 0 < code then udhcp_find_option opt_list code
      else if o1 ! 0 = code then Some o1 else None)"

definition DHCPDISCOVER :: u8 where "DHCPDISCOVER = 1"
definition DHCPOFFER :: u8 where "DHCPOFFER = 2"
definition DHCPREQUEST :: u8 where "DHCPREQUEST = 3"
definition DHCPDECLINE :: u8 where "DHCPDECLINE = 4"
definition DHCPACK :: u8 where "DHCPACK = 5"
definition DHCPNAK :: u8 where "DHCPNAK = 6"
definition DHCPRELEASE :: u8 where "DHCPRELEASE = 7"
definition DHCPINFORM :: u8 where "DHCPINFORM = 8"

lemmas message_types = DHCPDISCOVER_def DHCPOFFER_def DHCPREQUEST_def DHCPDECLINE_def DHCPACK_def
  DHCPNAK_def DHCPRELEASE_def DHCPINFORM_def

definition udhcp_init_header :: "u8 \<Rightarrow> dhcp_packet option" where
  "udhcp_init_header type =
     udhcp_add_simple_option
       \<lparr>op = (if type = DHCPOFFER \<or> type = DHCPACK \<or> type = DHCPNAK then BOOTREPLY else BOOTREQUEST),
        htype = 1, hlen = 6, hops = 0, xid = 0, secs = 0, flags = 0, ciaddr = 0, yiaddr = 0, siaddr_nip = 0,
        gateway_nip = 0, chaddr = replicate 16 0, sname = replicate DHCP_PKT_SNAME_LEN 0,
        pkt_file = replicate DHCP_PKT_FILE_LEN 0, cookie = htonl DHCP_MAGIC,
        options = (replicate sizeof_options 0)[0 := DHCP_END]\<rparr>
       DHCP_MESSAGE_TYPE (ucast type)"

section \<open>Searching is safe\<close>

text \<open>The data \<open>d\<close> of an option of the packet with this code.\<close>

definition option_in :: "dhcp_packet \<Rightarrow> u8 \<Rightarrow> u8 list \<Rightarrow> bool" where
  "option_in p code d \<longleftrightarrow> d \<noteq> [] \<and> length d < 256 \<and>
     (\<exists>f pre post. field_bytes p f = pre @ code # of_nat (length d) # d @ post)"

lemma split_option:
  assumes "i + 2 + unat l \<le> length bs" and "bs ! i = c" and "bs ! (i + 1) = l"
  shows "bs = take i bs @ c # l # take (unat l) (drop (i + 2) bs) @ drop (i + 2 + unat l) bs"
proof -
  define d where "d = drop (i + 2) bs"
  have "bs = take i bs @ bs ! i # drop (Suc i) bs" using assms(1) by (intro id_take_nth_drop) simp
  also have "drop (Suc i) bs = bs ! Suc i # d"
    using assms(1) Cons_nth_drop_Suc [of "Suc i" bs] by (simp add: d_def)
  also have "d = take (unat l) d @ drop (unat l) d" by simp
  also have "drop (unat l) d = drop (i + 2 + unat l) bs" by (simp add: d_def add.commute)
  finally have "bs = take i bs @ bs ! i # bs ! Suc i # take (unat l) d @ drop (i + 2 + unat l) bs" .
  then show ?thesis using assms(2,3) by (simp only: d_def Suc_eq_plus1)
qed

lemma get_option_loop_safe:
  "packet_ok p \<Longrightarrow> int i + rem \<le> int (length (field_bytes p f)) \<Longrightarrow>
   \<exists>r. get_option_loop p code f i rem overload = Some r \<and> (\<forall>d. r = Some d \<longrightarrow> option_in p code d)"
proof (induction p code f i rem overload rule: get_option_loop.induct)
  case (1 p code f i rem overload)
  let ?bs = "field_bytes p f"
  note step = get_option_loop.simps [of p code f i rem overload]
  show ?case
  proof (cases "rem \<le> 0")
    case True
    then show ?thesis by (simp add: step)
  next
    case False
    define c where "c = ?bs ! i"
    have c: "rd ?bs i = Some c" using "1.prems"(2) False by (simp add: c_def)
    consider (pad) "c = DHCP_PADDING" | (fin) "c \<noteq> DHCP_PADDING" "c = DHCP_END"
      | (short) "c \<noteq> DHCP_PADDING" "c \<noteq> DHCP_END" "rem \<le> 1" | (opt) "c \<noteq> DHCP_PADDING" "c \<noteq> DHCP_END" "\<not> rem \<le> 1"
      by blast
    then show ?thesis
    proof cases
      case pad
      then show ?thesis using "1.IH"(1) [OF False c pad] "1.prems" False c by (simp add: step)
    next
      case fin
      have "length (pkt_file p) = DHCP_PKT_FILE_LEN" "length (sname p) = DHCP_PKT_SNAME_LEN"
        using "1.prems"(1) by (simp_all add: packet_ok_def)
      then show ?thesis using "1.IH"(2) [OF False c fin] "1.IH"(3) [OF False c fin] "1.prems"(1) False c fin
        by (simp add: step)
    next
      case short
      then show ?thesis using False c by (simp add: step)
    next
      case opt
      define l where "l = ?bs ! (i + 1)"
      have l: "rd ?bs (i + 1) = Some l" using "1.prems"(2) opt by (simp add: l_def)
      define len where "len = 2 + unat l"
      have unfolded: "get_option_loop p code f i rem overload =
          (if rem - int len < 0 then Some None
           else if c = code then (if l = 0 then Some None else map_option Some (rd_n ?bs (i + 2) (unat l)))
           else (case read_overload ?bs i c len overload of None \<Rightarrow> None
             | Some overload' \<Rightarrow> get_option_loop p code f (i + len) (rem - int len) overload'))"
        by (subst step) (simp only: False c opt l len_def Let_def if_False option.case)
      show ?thesis
      proof (cases "rem - int len < 0")
        case True
        then show ?thesis by (simp add: unfolded)
      next
        case fits: False
        then have room: "i + 2 + unat l \<le> length ?bs" using "1.prems"(2) unfolding len_def by linarith
        show ?thesis
        proof (cases "c = code")
          case True
          have "option_in p code (take (unat l) (drop (i + 2) ?bs))" if "l \<noteq> 0"
            unfolding option_in_def
          proof (intro conjI exI)
            show "take (unat l) (drop (i + 2) ?bs) \<noteq> []" using that room unat_gt_0 [of l] by auto
            have len_d: "length (take (unat l) (drop (i + 2) ?bs)) = unat l" using room by simp
            show "length (take (unat l) (drop (i + 2) ?bs)) < 256" using unat_lt_256 [of l] len_d by simp
            have "of_nat (unat l) = l" by simp
            then show "?bs = take i ?bs @ code # of_nat (length (take (unat l) (drop (i + 2) ?bs))) #
                take (unat l) (drop (i + 2) ?bs) @ drop (i + 2 + unat l) ?bs"
              unfolding len_d using split_option [OF room c_def [symmetric] l_def [symmetric]] True by (simp only:)
          qed
          then show ?thesis using fits True room by (simp add: unfolded rd_n_def)
        next
          case other: False
          have "3 \<le> len \<Longrightarrow> i + 2 < length ?bs" using room by (simp add: len_def)
          then have "read_overload ?bs i c len overload \<noteq> None" by (simp add: read_overload_def)
          then obtain overload' where o': "read_overload ?bs i c len overload = Some overload'" by blast
          show ?thesis
            using "1.IH"(4) [OF False c opt l len_def _ other o'] "1.prems" fits other o' by (simp add: unfolded)
        qed
      qed
    qed
  qed
qed

text \<open>C31: On any received packet, \<open>udhcp_get_option\<close> ends without an access outside the fields of
  the packet, overload options and truncated options included; a pointer it returns has the data of an
  option of that code, as long as its length byte says, inside one field.\<close>

theorem dhcp_option_safe:
  assumes "packet_ok p"
  shows "\<exists>r. udhcp_get_option p code = Some r \<and> (\<forall>d. r = Some d \<longrightarrow> option_in p code d)"
  unfolding udhcp_get_option_def using assms
  by (intro get_option_loop_safe) (simp_all add: packet_ok_def)

definition empty_packet :: dhcp_packet where
  "empty_packet = \<lparr>op = BOOTREQUEST, htype = 1, hlen = 6, hops = 0, xid = 0, secs = 0, flags = 0, ciaddr = 0,
     yiaddr = 0, siaddr_nip = 0, gateway_nip = 0, chaddr = replicate 16 0, sname = replicate DHCP_PKT_SNAME_LEN 0,
     pkt_file = replicate DHCP_PKT_FILE_LEN 0, cookie = htonl DHCP_MAGIC,
     options = (replicate sizeof_options 0)[0 := DHCP_END]\<rparr>"

lemma empty_packet_ok: "packet_ok empty_packet"
  by (simp add: packet_ok_def empty_packet_def)

theorem dhcp_option_safe_witness:
  "\<exists>r. udhcp_get_option empty_packet DHCP_SERVER_ID = Some r"
  using dhcp_option_safe [OF empty_packet_ok, of DHCP_SERVER_ID] by blast

section \<open>The options of a packet as a list\<close>

text \<open>Codes with their data, as they lie in the field.\<close>

definition encode_option :: "u8 \<times> u8 list \<Rightarrow> u8 list" where
  "encode_option = (\<lambda>(c, d). c # of_nat (length d) # d)"

definition encode_options :: "(u8 \<times> u8 list) list \<Rightarrow> u8 list" where
  "encode_options opts = concat (map encode_option opts)"

definition option_ok :: "u8 \<times> u8 list \<Rightarrow> bool" where
  "option_ok = (\<lambda>(c, d). c \<noteq> DHCP_PADDING \<and> c \<noteq> DHCP_END \<and> length d < 256)"

text \<open>An option that a search can find, and that does not send it to other fields.\<close>

definition plain_option :: "u8 \<times> u8 list \<Rightarrow> bool" where
  "plain_option = (\<lambda>(c, d). option_ok (c, d) \<and> c \<noteq> DHCP_OPTION_OVERLOAD \<and> d \<noteq> [])"

definition holds_options :: "dhcp_packet \<Rightarrow> (u8 \<times> u8 list) list \<Rightarrow> bool" where
  "holds_options p opts \<longleftrightarrow> packet_ok p \<and> list_all option_ok opts \<and>
     (\<exists>rest. options p = encode_options opts @ DHCP_END # rest)"

lemma encode_options_simps [simp]:
  "encode_options [] = []"
  "encode_options (o1 # opts) = encode_option o1 @ encode_options opts"
  "encode_options (opts @ opts') = encode_options opts @ encode_options opts'"
  by (simp_all add: encode_options_def)

lemma length_encode_option [simp]: "length (encode_option (c, d)) = length d + 2"
  by (simp add: encode_option_def)

lemma unat_length_byte: "length d < 256 \<Longrightarrow> unat (of_nat (length d) :: u8) = length d"
  by (simp add: unat_of_nat)

lemma end_option_encode:
  "list_all option_ok opts \<Longrightarrow>
   udhcp_end_option (pre @ encode_options opts @ DHCP_END # rest) (length pre) = Some (length pre + length (encode_options opts))"
proof (induction opts arbitrary: pre)
  case Nil
  then show ?case by (simp add: udhcp_end_option.simps)
next
  case (Cons o1 opts)
  obtain c d where o1: "o1 = (c, d)" by fastforce
  have ok: "c \<noteq> DHCP_PADDING" "c \<noteq> DHCP_END" "length d < 256" "list_all option_ok opts"
    using Cons.prems by (simp_all add: o1 option_ok_def)
  let ?l = "of_nat (length d) :: u8"
  let ?os = "pre @ c # ?l # d @ encode_options opts @ DHCP_END # rest"
  have "rd ?os (length pre) = Some c" "rd ?os (length pre + 1) = Some ?l" by (simp_all add: rd_def nth_append)
  then have "udhcp_end_option ?os (length pre) = udhcp_end_option ?os (length pre + (length d + 1) + 1)"
    using ok by (subst udhcp_end_option.simps) (simp add: unat_length_byte)
  moreover have "udhcp_end_option ((pre @ c # ?l # d) @ encode_options opts @ DHCP_END # rest) (length (pre @ c # ?l # d)) =
      Some (length (pre @ c # ?l # d) + length (encode_options opts))"
    by (rule Cons.IH [OF ok(4)])
  ultimately show ?case by (simp add: o1 encode_option_def)
qed

lemma get_option_step:
  assumes "plain_option (c, d)" and "options p = pre @ encode_option (c, d) @ tail"
  shows "get_option_loop p code Options_field (length pre) (int (length (encode_option (c, d) @ tail))) 0 =
    (if c = code then Some (Some d)
     else get_option_loop p code Options_field (length (pre @ encode_option (c, d))) (int (length tail)) 0)"
proof -
  have ok: "c \<noteq> DHCP_PADDING" "c \<noteq> DHCP_END" "c \<noteq> DHCP_OPTION_OVERLOAD" "d \<noteq> []" "length d < 256"
    using assms(1) by (simp_all add: plain_option_def option_ok_def)
  define l where "l = (of_nat (length d) :: u8)"
  have l: "unat l = length d" using ok(5) by (simp add: l_def unat_length_byte)
  have os: "options p = pre @ c # l # d @ tail" using assms(2) by (simp add: encode_option_def l_def)
  have rds: "rd (options p) (length pre) = Some c" "rd (options p) (length pre + 1) = Some l"
    "rd_n (options p) (length pre + 2) (length d) = Some d"
    by (simp_all add: os rd_def rd_n_def nth_append)
  have left: "int (length (encode_option (c, d) @ tail)) = int (2 + length d) + int (length tail)"
    "length (pre @ encode_option (c, d)) = length pre + (2 + length d)" by simp_all
  have "l \<noteq> 0" using l ok(4) by auto
  moreover have "read_overload (options p) (length pre) c (2 + length d) 0 = Some 0" using ok(3) by (simp add: read_overload_def)
  moreover have "\<not> int (2 + length d) + int (length tail) \<le> 0" "\<not> int (2 + length d) + int (length tail) \<le> 1"
    "\<not> int (2 + length d) + int (length tail) - int (2 + length d) < 0" by simp_all
  ultimately show ?thesis
    unfolding left
    by (subst get_option_loop.simps)
      (simp only: field_bytes.simps rds ok(1,2) l Let_def if_False option.case option.map add_diff_cancel_left')
qed

lemma get_option_encode:
  "list_all plain_option opts \<Longrightarrow> options p = pre @ encode_options opts @ rest \<Longrightarrow>
   get_option_loop p code Options_field (length pre) (int (length (encode_options opts @ rest))) 0 =
   (case map_of opts code of Some d \<Rightarrow> Some (Some d)
    | None \<Rightarrow> get_option_loop p code Options_field (length (pre @ encode_options opts)) (int (length rest)) 0)"
proof (induction opts arbitrary: pre)
  case (Cons o1 opts)
  obtain c d where o1: "o1 = (c, d)" by fastforce
  have os: "options p = pre @ encode_option (c, d) @ encode_options opts @ rest"
    "options p = (pre @ encode_option (c, d)) @ encode_options opts @ rest" using Cons.prems(2) by (simp_all add: o1)
  have "plain_option (c, d)" "list_all plain_option opts" using Cons.prems(1) by (simp_all add: o1)
  from get_option_step [OF this(1) os(1), of code] Cons.IH [OF this(2) os(2)] show ?case by (simp add: o1 split: option.split)
qed simp

lemma get_option_of_list:
  "holds_options p opts \<Longrightarrow> list_all plain_option opts \<Longrightarrow> udhcp_get_option p code = Some (map_of opts code)"
proof -
  assume "holds_options p opts" and plain: "list_all plain_option opts"
  then obtain rest where r: "options p = [] @ encode_options opts @ DHCP_END # rest" "packet_ok p"
    by (auto simp: holds_options_def)
  then have "sizeof_options = length (encode_options opts @ DHCP_END # rest)" by (simp add: packet_ok_def)
  moreover have "rd (options p) (length (encode_options opts)) = Some DHCP_END" using r(1) by (simp add: rd_def nth_append)
  then have "get_option_loop p code Options_field (length (encode_options opts)) (int (length (DHCP_END # rest))) 0 = Some None"
    by (subst get_option_loop.simps) (simp add: option_codes field_bits)
  ultimately show ?thesis
    unfolding udhcp_get_option_def using get_option_encode [OF plain r(1), of code] by (simp split: option.split)
qed

text \<open>What stands at the beginning is found, whatever follows.\<close>

lemma get_option_prefix:
  assumes "holds_options p (opts @ others)" and "list_all plain_option opts" and "map_of opts code = Some d"
  shows "udhcp_get_option p code = Some (Some d)"
proof -
  obtain rest where r: "options p = [] @ encode_options opts @ (encode_options others @ DHCP_END # rest)" "packet_ok p"
    using assms(1) by (auto simp: holds_options_def)
  then have "sizeof_options = length (encode_options opts @ (encode_options others @ DHCP_END # rest))" by (simp add: packet_ok_def)
  then show ?thesis unfolding udhcp_get_option_def using get_option_encode [OF assms(2) r(1), of code] assms(3) by simp
qed

text \<open>Adding an option: it goes to the end, or is dropped when it does not fit.\<close>

lemma add_option_list:
  assumes "holds_options p opts" and "option_ok (c, d)" and "addopt = encode_option (c, d) @ junk"
    and "opts' = (if length (encode_options opts) + length d + 3 \<ge> DHCP_OPTIONS_BUFSIZE then opts else opts @ [(c, d)])"
  shows "\<exists>os. udhcp_add_binary_option p addopt = Some (p\<lparr>options := os\<rparr>) \<and> holds_options (p\<lparr>options := os\<rparr>) opts'"
proof -
  obtain rest where r: "options p = encode_options opts @ DHCP_END # rest" "list_all option_ok opts" "packet_ok p"
    using assms(1) by (auto simp: holds_options_def)
  let ?n = "length (encode_options opts)"
  have e: "udhcp_end_option (options p) 0 = Some ?n" using end_option_encode [OF r(2), of "[]" rest] r(1) by simp
  have d: "length d < 256" using assms(2) by (simp add: option_ok_def)
  define l where "l = (of_nat (length d) :: u8)"
  have l: "unat l = length d" using d by (simp add: l_def unat_length_byte)
  have a: "addopt = c # l # d @ junk" by (simp add: assms(3) encode_option_def l_def)
  show ?thesis
  proof (cases "?n + length d + 3 \<ge> DHCP_OPTIONS_BUFSIZE")
    case True
    then have "udhcp_add_binary_option p addopt = Some (p\<lparr>options := options p\<rparr>)"
      by (simp add: udhcp_add_binary_option_def e a l Let_def)
    then show ?thesis using assms(1,4) True by (intro exI [of _ "options p"]) simp
  next
    case False
    have "?n + 1 + length rest = 388" using r(1,3) by (simp add: packet_ok_def packet_sizes)
    then have room: "length d + 2 < length rest" using False by (simp add: packet_sizes)
    define os where "os = encode_options opts @ (c # l # d) @ DHCP_END # drop (length d + 2) rest"
    have "length (take (length d + 2) (DHCP_END # rest)) = length (c # l # d)" using room by simp
    moreover have "options p = encode_options opts @ take (length d + 2) (DHCP_END # rest) @ drop (length d + 2) (DHCP_END # rest)"
      using r(1) by simp
    ultimately have w1: "wr_n (options p) ?n (c # l # d) = Some (encode_options opts @ (c # l # d) @ drop (length d + 2) (DHCP_END # rest))"
      using wr_n_append [of "take (length d + 2) (DHCP_END # rest)" "c # l # d" "encode_options opts"] by metis
    have "drop (length d + 2) (DHCP_END # rest) = drop (length d + 1) rest" by simp
    also have "\<dots> = [rest ! (length d + 1)] @ drop (length d + 2) rest"
      using room Cons_nth_drop_Suc [of "length d + 1" rest] by simp
    finally have w2: "wr_n (encode_options opts @ (c # l # d) @ drop (length d + 2) (DHCP_END # rest)) (?n + (2 + length d)) [DHCP_END] = Some os"
      using wr_n_append [of "[rest ! (length d + 1)]" "[DHCP_END]" "encode_options opts @ (c # l # d)" "drop (length d + 2) rest"]
      by (simp add: os_def add.assoc)
    have "udhcp_add_binary_option p addopt = Some (p\<lparr>options := os\<rparr>)"
      using False by (simp add: udhcp_add_binary_option_def e a l Let_def rd_n_def w1 w2 [simplified])
    moreover have "length os = length (options p)" using wr_n_length [OF w1] wr_n_length [OF w2] by simp
    then have "holds_options (p\<lparr>options := os\<rparr>) (opts @ [(c, d)])"
      using r assms(2) room by (simp add: holds_options_def os_def encode_option_def l_def packet_ok_def)
    ultimately show ?thesis using assms(4) False by auto
  qed
qed

text \<open>C37: The options of a packet behave as an association list: \<open>udhcp_add_binary_option\<close> puts an
  option that fits at the end of it, and \<open>udhcp_get_option\<close> then finds for every code the data of
  the first option with this code.\<close>

theorem dhcp_options_are_a_list:
  assumes "holds_options p opts" and "list_all plain_option (opts @ [(c, d)])"
    and "length (encode_options opts) + length d + 3 < DHCP_OPTIONS_BUFSIZE"
  shows "\<exists>p'. udhcp_add_binary_option p (encode_option (c, d)) = Some p' \<and>
    udhcp_get_option p' code = Some (map_of (opts @ [(c, d)]) code)"
proof -
  have "option_ok (c, d)" using assms(2) by (simp add: plain_option_def)
  from add_option_list [OF assms(1) this, of "encode_option (c, d)" "[]"] assms(3)
  obtain os where "udhcp_add_binary_option p (encode_option (c, d)) = Some (p\<lparr>options := os\<rparr>)"
    "holds_options (p\<lparr>options := os\<rparr>) (opts @ [(c, d)])" by auto
  then show ?thesis using get_option_of_list [OF _ assms(2)] by auto
qed

lemma empty_packet_options: "holds_options empty_packet []"
proof -
  have "options empty_packet = DHCP_END # replicate 387 0"
    by (simp add: empty_packet_def packet_sizes numeral_eq_Suc)
  then show ?thesis by (simp add: holds_options_def empty_packet_ok)
qed

theorem dhcp_options_are_a_list_witness:
  "\<exists>p'. udhcp_add_binary_option empty_packet (encode_option (DHCP_SERVER_ID, [10, 0, 0, 1])) = Some p' \<and>
    udhcp_get_option p' DHCP_SERVER_ID = Some (Some [10, 0, 0, 1])"
  using dhcp_options_are_a_list [OF empty_packet_options, of DHCP_SERVER_ID "[10, 0, 0, 1]" DHCP_SERVER_ID]
  by (simp add: plain_option_def option_ok_def option_codes packet_sizes)

text \<open>Options in the binary form of a configuration.\<close>

definition option_bytes_ok :: "u8 list \<Rightarrow> bool" where
  "option_bytes_ok bs \<longleftrightarrow> 2 \<le> length bs \<and> 2 + unat (bs ! 1) \<le> length bs \<and> bs ! 0 \<noteq> DHCP_PADDING \<and> bs ! 0 \<noteq> DHCP_END"

lemma option_bytes_encode:
  assumes "option_bytes_ok bs"
  shows "\<exists>c d junk. bs = encode_option (c, d) @ junk \<and> option_ok (c, d)"
proof -
  let ?d = "take (unat (bs ! 1)) (drop 2 bs)"
  have "0 + 2 + unat (bs ! 1) \<le> length bs" using assms by (simp add: option_bytes_ok_def)
  from split_option [OF this refl] have bs: "bs = bs ! 0 # bs ! 1 # ?d @ drop (2 + unat (bs ! 1)) bs"
    by (simp add: numeral_2_eq_2)
  have len: "length ?d = unat (bs ! 1)" using assms by (auto simp: option_bytes_ok_def min_def)
  have "of_nat (unat (bs ! 1)) = bs ! 1" by simp
  then have "bs = encode_option (bs ! 0, ?d) @ drop (2 + unat (bs ! 1)) bs"
    unfolding encode_option_def case_prod_conv len using bs by (simp only: append_Cons)
  moreover have "option_ok (bs ! 0, ?d)" using assms len unat_lt_256 [of "bs ! 1"] by (simp add: option_ok_def option_bytes_ok_def)
  ultimately show ?thesis by blast
qed

text \<open>The simple options that the server adds have one to four bytes.\<close>

lemma add_simple_list:
  assumes "holds_options p opts" and "find (\<lambda>dh. snd dh = code) dhcp_optflags = Some (t, code)"
    and "dhcp_option_lengths t = of_nat n" and "n \<le> 4" and "code \<noteq> DHCP_PADDING" "code \<noteq> DHCP_END"
    and "length (encode_options opts) + n + 3 < DHCP_OPTIONS_BUFSIZE"
  shows "\<exists>os. udhcp_add_simple_option p code data = Some (p\<lparr>options := os\<rparr>) \<and>
    holds_options (p\<lparr>options := os\<rparr>) (opts @ [(code, take n (le_bytes 4 data))])"
proof -
  let ?d = "take n (le_bytes 4 data)"
  have len: "length ?d = n" using assms(4) by (simp add: le_bytes_def)
  then have ok: "option_ok (code, ?d)" using assms(4-6) by (simp add: option_ok_def)
  have "le_bytes 4 data = ?d @ drop n (le_bytes 4 data)" by simp
  then have "code # dhcp_option_lengths t # le_bytes 4 data = encode_option (code, ?d) @ drop n (le_bytes 4 data)"
    using len assms(3) by (simp add: encode_option_def)
  from add_option_list [OF assms(1) ok this refl] show ?thesis
    using assms(2,7) len by (simp add: udhcp_add_simple_option_def)
qed

end
