(* ===== verification/DhcpWire.thy ===== *)
theory DhcpWire
  imports DhcpOptions
begin

text \<open>
  DHCP packets on the wire: \<^verbatim>\<open>libbb/inet_cksum.c\<close>, the senders and the receiver of
  \<^verbatim>\<open>networking/udhcp/packet.c\<close> and \<^verbatim>\<open>udhcp_recv_raw_packet\<close> of \<^verbatim>\<open>dhcpc.c\<close>. Structures are laid out as the
  packed structures of the code; a frame is the list of bytes that the socket takes or gives. What
  \<^verbatim>\<open>socket\<close>, \<^verbatim>\<open>bind\<close> and \<^verbatim>\<open>sendto\<close> return is not part of a frame.
\<close>

section \<open>The checksum\<close>

fun cksum_loop :: "u32 \<Rightarrow> u8 list \<Rightarrow> u32" where
  "cksum_loop s (a # b # bs) = cksum_loop (s + word_of_le [a, b]) bs"
| "cksum_loop s [a] = s + ucast a"
| "cksum_loop s [] = s"

definition inet_cksum :: "u8 list \<Rightarrow> u16" where
  "inet_cksum bs =
     (let sum = cksum_loop 0 bs;
          sum = drop_bit 16 sum + (sum AND 0xffff);
          sum = sum + drop_bit 16 sum
      in NOT (ucast sum))"

section \<open>Structures in memory\<close>


definition dhcp_bytes :: "dhcp_packet \<Rightarrow> u8 list" where
  "dhcp_bytes p =
     [op p, htype p, hlen p, hops p] @ le_bytes 4 (xid p) @ le_bytes 2 (secs p) @ le_bytes 2 (flags p) @
     le_bytes 4 (ciaddr p) @ le_bytes 4 (yiaddr p) @ le_bytes 4 (siaddr_nip p) @ le_bytes 4 (gateway_nip p) @
     chaddr p @ sname p @ pkt_file p @ le_bytes 4 (cookie p) @ options p"

text \<open>The field of \<open>n\<close> bytes at an offset.\<close>

definition field_at :: "u8 list \<Rightarrow> nat \<Rightarrow> nat \<Rightarrow> u8 list" where
  "field_at bs i n = take n (drop i bs)"

definition dhcp_of_bytes :: "u8 list \<Rightarrow> dhcp_packet" where
  "dhcp_of_bytes bs =
     \<lparr>op = bs ! 0, htype = bs ! 1, hlen = bs ! 2, hops = bs ! 3, xid = word_of_le (field_at bs 4 4),
      secs = word_of_le (field_at bs 8 2), flags = word_of_le (field_at bs 10 2),
      ciaddr = word_of_le (field_at bs 12 4), yiaddr = word_of_le (field_at bs 16 4),
      siaddr_nip = word_of_le (field_at bs 20 4), gateway_nip = word_of_le (field_at bs 24 4),
      chaddr = field_at bs 28 16, sname = field_at bs 44 DHCP_PKT_SNAME_LEN, pkt_file = field_at bs 108 DHCP_PKT_FILE_LEN,
      cookie = word_of_le (field_at bs 236 4), options = field_at bs 240 sizeof_options\<rparr>"

record iphdr =
  ihl :: u8
  version :: u8
  tos :: u8
  tot_len :: u16
  ip_id :: u16
  frag_off :: u16
  ttl :: u8
  protocol :: u8
  ip_check :: u16
  saddr :: u32
  daddr :: u32

record udphdr =
  udp_source :: u16
  udp_dest :: u16
  udp_len :: u16
  udp_check :: u16

definition ip_bytes :: "iphdr \<Rightarrow> u8 list" where
  "ip_bytes h =
     [ihl h OR push_bit 4 (version h), tos h] @ le_bytes 2 (tot_len h) @ le_bytes 2 (ip_id h) @ le_bytes 2 (frag_off h) @
     [ttl h, protocol h] @ le_bytes 2 (ip_check h) @ le_bytes 4 (saddr h) @ le_bytes 4 (daddr h)"

definition ip_of_bytes :: "u8 list \<Rightarrow> iphdr" where
  "ip_of_bytes bs =
     \<lparr>ihl = bs ! 0 AND 0x0f, version = drop_bit 4 (bs ! 0), tos = bs ! 1, tot_len = word_of_le (field_at bs 2 2),
      ip_id = word_of_le (field_at bs 4 2), frag_off = word_of_le (field_at bs 6 2), ttl = bs ! 8, protocol = bs ! 9,
      ip_check = word_of_le (field_at bs 10 2), saddr = word_of_le (field_at bs 12 4), daddr = word_of_le (field_at bs 16 4)\<rparr>"

definition udp_bytes :: "udphdr \<Rightarrow> u8 list" where
  "udp_bytes u = le_bytes 2 (udp_source u) @ le_bytes 2 (udp_dest u) @ le_bytes 2 (udp_len u) @ le_bytes 2 (udp_check u)"

definition udp_of_bytes :: "u8 list \<Rightarrow> udphdr" where
  "udp_of_bytes bs = \<lparr>udp_source = word_of_le (field_at bs 0 2), udp_dest = word_of_le (field_at bs 2 2),
     udp_len = word_of_le (field_at bs 4 2), udp_check = word_of_le (field_at bs 6 2)\<rparr>"

definition sizeof_ip :: nat where "sizeof_ip = 20"
definition sizeof_udp :: nat where "sizeof_udp = 8"
definition sizeof_dhcp :: nat where "sizeof_dhcp = 240 + sizeof_options"
definition DHCP_SIZE :: nat where "DHCP_SIZE = sizeof_dhcp - SLACK_FOR_BUGGY_SERVERS"
definition UDP_DHCP_SIZE :: nat where "UDP_DHCP_SIZE = sizeof_udp + DHCP_SIZE"
definition IP_UDP_DHCP_SIZE :: nat where "IP_UDP_DHCP_SIZE = sizeof_ip + UDP_DHCP_SIZE"

lemmas wire_sizes = sizeof_ip_def sizeof_udp_def sizeof_dhcp_def DHCP_SIZE_def UDP_DHCP_SIZE_def IP_UDP_DHCP_SIZE_def packet_sizes

definition CLIENT_PORT :: u16 where "CLIENT_PORT = 68"
definition SERVER_PORT :: u16 where "SERVER_PORT = 67"
definition IPPROTO_UDP :: u8 where "IPPROTO_UDP = 17"
definition IPVERSION :: u8 where "IPVERSION = 4"
definition IPDEFTTL :: u8 where "IPDEFTTL = 64"

section \<open>Sending and receiving\<close>

text \<open>Packets are cut behind their end option, but not below 300 bytes.\<close>

definition send_padding :: "dhcp_packet \<Rightarrow> nat option" where
  "send_padding p = do {
     end' \<leftarrow> udhcp_end_option (options p) 0;
     let padding = (of_nat DHCP_OPTIONS_BUFSIZE - 1 - of_nat end' :: u32);
     Some (if padding > of_nat (DHCP_SIZE - 300) then DHCP_SIZE - 300 else unat padding) }"

definition udhcp_send_raw_packet :: "dhcp_packet \<Rightarrow> u32 \<Rightarrow> u16 \<Rightarrow> u32 \<Rightarrow> u16 \<Rightarrow> u8 list option" where
  "udhcp_send_raw_packet p source_nip source_port dest_nip dest_port = do {
     padding \<leftarrow> send_padding p;
     let udp = \<lparr>udp_source = htons source_port, udp_dest = htons dest_port,
                udp_len = htons (of_nat (UDP_DHCP_SIZE - padding)), udp_check = 0\<rparr>;
     let ip = \<lparr>ihl = 0, version = 0, tos = 0, tot_len = udp_len udp, ip_id = 0, frag_off = 0, ttl = 0,
               protocol = IPPROTO_UDP, ip_check = 0, saddr = source_nip, daddr = dest_nip\<rparr>;
     let udp = udp\<lparr>udp_check :=
                inet_cksum (take (IP_UDP_DHCP_SIZE - padding) (ip_bytes ip @ udp_bytes udp @ dhcp_bytes p))\<rparr>;
     let ip = ip\<lparr>tot_len := htons (of_nat (IP_UDP_DHCP_SIZE - padding)), ihl := of_nat (sizeof_ip div 4),
                 version := IPVERSION, ttl := IPDEFTTL\<rparr>;
     let ip = ip\<lparr>ip_check := inet_cksum (ip_bytes ip)\<rparr>;
     Some (take (IP_UDP_DHCP_SIZE - padding) (ip_bytes ip @ udp_bytes udp @ dhcp_bytes p)) }"

text \<open>What the kernel puts into a datagram.\<close>

definition udhcp_send_kernel_packet :: "dhcp_packet \<Rightarrow> u8 list option" where
  "udhcp_send_kernel_packet p = do {
     padding \<leftarrow> send_padding p;
     Some (take (DHCP_SIZE - padding) (dhcp_bytes p)) }"

text \<open>A datagram as the kernel gives it, \<open>None\<close> for a packet that is ignored.\<close>

definition udhcp_recv_kernel_packet :: "u8 list \<Rightarrow> dhcp_packet option" where
  "udhcp_recv_kernel_packet datagram =
     (let bs = take sizeof_dhcp datagram;
          p = dhcp_of_bytes (bs @ replicate (sizeof_dhcp - length bs) 0)
      in if length bs < 240 \<or> cookie p \<noteq> htonl DHCP_MAGIC then None else Some p)"

text \<open>
  A frame of the raw socket. \<open>junk\<close> is what the stack holds where the frame does not reach, \<open>old\<close> what
  the caller's packet held; \<open>Null\<close> is a frame that is ignored, \<open>Fault\<close> a \<^verbatim>\<open>memcpy\<close> of a count that is
  negative as an \<^verbatim>\<open>int\<close>.
\<close>

definition udhcp_recv_raw_packet ::
  "bool \<Rightarrow> u8 list \<Rightarrow> u8 list \<Rightarrow> dhcp_packet \<Rightarrow> (int \<times> dhcp_packet) outcome" where
  "udhcp_recv_raw_packet csum_not_ready junk frame old =
     (let sizeof_packet = sizeof_ip + sizeof_udp + sizeof_dhcp;
          n = min (length frame) sizeof_packet;
          buf = take n frame @ drop n junk;
          ip = ip_of_bytes buf;
          udp = udp_of_bytes (drop sizeof_ip buf);
          dat = drop (sizeof_ip + sizeof_udp) buf;
          bytes = unat (ntohs (tot_len ip))
      in if n < sizeof_ip + sizeof_udp then Null
         else if n < bytes then Null
         else if protocol ip \<noteq> IPPROTO_UDP \<or> version ip \<noteq> IPVERSION \<or> ihl ip \<noteq> of_nat (sizeof_ip div 4) \<or>
           udp_dest udp \<noteq> htons CLIENT_PORT \<or> ntohs (udp_len udp) \<noteq> of_nat bytes - of_nat sizeof_ip then Null
         else if ip_check ip \<noteq> inet_cksum (ip_bytes (ip\<lparr>ip_check := 0\<rparr>)) then Null
         else if \<not> csum_not_ready \<and> udp_check udp \<noteq> 0 \<and>
           udp_check udp \<noteq> inet_cksum (take bytes
             (ip_bytes (ip\<lparr>ihl := 0, version := 0, tos := 0, tot_len := udp_len udp, ip_id := 0, frag_off := 0, ttl := 0, ip_check := 0\<rparr>) @
              udp_bytes (udp\<lparr>udp_check := 0\<rparr>) @ dat)) then Null
         else if cookie (dhcp_of_bytes dat) \<noteq> htonl DHCP_MAGIC then Null
         else if bytes < sizeof_ip + sizeof_udp then Fault
         else (let len = bytes - (sizeof_ip + sizeof_udp)
               in Ok (int len, dhcp_of_bytes (take len dat @ drop len (dhcp_bytes old)))))"

section \<open>Reading what was written\<close>

lemma field_at_skip [simp]: "length xs \<le> i \<Longrightarrow> field_at (xs @ ys) i n = field_at ys (i - length xs) n"
  by (simp add: field_at_def)

lemma field_at_here [simp]: "length xs = n \<Longrightarrow> field_at (xs @ ys) 0 n = xs"
  by (simp add: field_at_def)

lemma field_at_all [simp]: "length xs = n \<Longrightarrow> field_at xs 0 n = xs"
  by (simp add: field_at_def)

lemma field_at_Cons [simp]: "field_at (x # xs) (numeral i) n = field_at xs (numeral i - 1) n"
  by (simp add: field_at_def drop_Cons')

lemma field_at_Suc [simp]: "field_at (x # xs) (Suc i) n = field_at xs i n"
  by (simp add: field_at_def)

lemma field_at_within: "i + n \<le> length xs \<Longrightarrow> field_at (xs @ ys) i n = field_at xs i n"
  by (simp add: field_at_def)

lemma word_of_field [simp]: "word_of_le (le_bytes 2 w) = (w :: u16)" "word_of_le (le_bytes 4 v) = (v :: u32)"
  by (simp_all add: word_of_le_bytes)

definition dhcp_head :: "dhcp_packet \<Rightarrow> u8 list" where
  "dhcp_head p = take 240 (dhcp_bytes p)"

lemma dhcp_bytes_split:
  assumes "packet_ok p"
  shows "dhcp_bytes p = dhcp_head p @ options p" and "length (dhcp_head p) = 240" and "length (dhcp_bytes p) = sizeof_dhcp"
proof -
  have "\<exists>h. dhcp_bytes p = h @ options p \<and> length h = 240"
    unfolding dhcp_bytes_def append_assoc [symmetric]
    by (rule exI, rule conjI, rule refl) (use assms in \<open>simp add: packet_ok_def packet_sizes\<close>)
  then obtain h where h: "dhcp_bytes p = h @ options p" "length h = 240" by blast
  then have "dhcp_head p = h" by (simp add: dhcp_head_def)
  with h show "dhcp_bytes p = dhcp_head p @ options p" "length (dhcp_head p) = 240" by simp_all
  then show "length (dhcp_bytes p) = sizeof_dhcp" using assms by (simp add: packet_ok_def wire_sizes)
qed

lemma dhcp_of_bytes_of_packet:
  assumes "packet_ok p"
  shows "dhcp_of_bytes (dhcp_bytes p) = p"
  using assms unfolding dhcp_of_bytes_def dhcp_bytes_def packet_ok_def packet_sizes
  by simp

lemma dhcp_of_bytes_of_head:
  assumes "packet_ok p"
  shows "length os = sizeof_options \<Longrightarrow> dhcp_of_bytes (dhcp_head p @ os) = p\<lparr>options := os\<rparr>"
    and "cookie (dhcp_of_bytes (dhcp_head p @ ys)) = cookie p"
proof -
  note split = dhcp_bytes_split [OF assms]
  show "dhcp_of_bytes (dhcp_head p @ os) = p\<lparr>options := os\<rparr>" if "length os = sizeof_options"
  proof -
    have "packet_ok (p\<lparr>options := os\<rparr>)" using assms that by (simp add: packet_ok_def)
    moreover have "dhcp_bytes (p\<lparr>options := os\<rparr>) = dhcp_head p @ os" using split(1) by (simp add: dhcp_bytes_def)
    ultimately show ?thesis using dhcp_of_bytes_of_packet by metis
  qed
  have "cookie (dhcp_of_bytes (dhcp_head p @ zs)) = word_of_le (field_at (dhcp_head p) 236 4)" for zs
    using split(2) by (simp add: dhcp_of_bytes_def field_at_within)
  then have "cookie (dhcp_of_bytes (dhcp_head p @ ys)) = cookie (dhcp_of_bytes (dhcp_head p @ options p))" by simp
  then show "cookie (dhcp_of_bytes (dhcp_head p @ ys)) = cookie p"
    using dhcp_of_bytes_of_packet [OF assms] split(1) by simp
qed

lemma ip_bytes_length [simp]: "length (ip_bytes h) = sizeof_ip" "length (udp_bytes u) = sizeof_udp"
  by (simp_all add: ip_bytes_def udp_bytes_def sizeof_ip_def sizeof_udp_def)

lemma nibble_bits: "a < (16 :: u8) \<Longrightarrow> bit a i \<Longrightarrow> i < 4"
proof -
  assume "a < (16 :: u8)" and "bit a i"
  then have "unat (take_bit 4 a) = unat a" by (simp add: unat_take_bit_mod word_less_nat_alt)
  then have "take_bit 4 a = a" by (simp only: word_unat_eq_iff)
  with \<open>bit a i\<close> show "i < 4" using bit_take_bit_iff [of 4 a i] by simp
qed

lemma nibbles:
  assumes "a < 16" and "b < (16 :: u8)"
  shows "(a OR push_bit 4 b) AND 0x0f = a" and "drop_bit 4 a OR drop_bit 4 (push_bit 4 b) = b"
proof -
  have m: "(0x0f :: u8) = mask 4" by (simp add: mask_eq_exp_minus_1)
  show "(a OR push_bit 4 b) AND 0x0f = a"
    unfolding m by (rule bit_word_eqI) (auto simp: bit_simps dest: nibble_bits [OF assms(1)])
  show "drop_bit 4 a OR drop_bit 4 (push_bit 4 b) = b"
    by (rule bit_word_eqI) (auto simp: bit_simps dest: nibble_bits [OF assms(1)] nibble_bits [OF assms(2)])
qed

lemma ip_of_bytes_of_header: "ihl h < 16 \<Longrightarrow> version h < 16 \<Longrightarrow> ip_of_bytes (ip_bytes h @ rest) = h"
  by (simp add: ip_of_bytes_def ip_bytes_def nibbles nth_append)

lemma udp_of_bytes_of_header: "udp_of_bytes (udp_bytes u @ rest) = u"
  by (simp add: udp_of_bytes_def udp_bytes_def)

section \<open>A frame arrives\<close>

text \<open>The packet that arrives: everything as it was sent, except for the bytes behind the options.\<close>

definition same_packet :: "dhcp_packet \<Rightarrow> (u8 \<times> u8 list) list \<Rightarrow> dhcp_packet \<Rightarrow> bool" where
  "same_packet p opts q \<longleftrightarrow> holds_options q opts \<and> q\<lparr>options := options p\<rparr> = p"

lemma same_packet_fields:
  assumes "same_packet p opts q"
  shows "op q = op p" "htype q = htype p" "hlen q = hlen p" "xid q = xid p" "flags q = flags p" "ciaddr q = ciaddr p"
    "yiaddr q = yiaddr p" "gateway_nip q = gateway_nip p" "chaddr q = chaddr p" "cookie q = cookie p"
    "holds_options q opts" "packet_ok q"
proof -
  define os where "os = options p"
  have p: "p = q\<lparr>options := os\<rparr>" and q: "holds_options q opts" using assms by (simp_all add: same_packet_def os_def)
  show "op q = op p" "htype q = htype p" "hlen q = hlen p" "xid q = xid p" "flags q = flags p" "ciaddr q = ciaddr p"
    "yiaddr q = yiaddr p" "gateway_nip q = gateway_nip p" "chaddr q = chaddr p" "cookie q = cookie p"
    unfolding p by simp_all
  show "holds_options q opts" "packet_ok q" using q by (simp_all add: holds_options_def)
qed

lemma cut_packet_same:
  assumes "holds_options p opts" and "240 + length (encode_options opts) < k" and "k + length tail = sizeof_dhcp"
  shows "same_packet p opts (dhcp_of_bytes (take k (dhcp_bytes p) @ tail))"
proof -
  obtain rest where r: "options p = encode_options opts @ DHCP_END # rest" "packet_ok p" "list_all option_ok opts"
    using assms(1) by (auto simp: holds_options_def)
  note split = dhcp_bytes_split [OF r(2)]
  define os where "os = take (k - 240) (options p) @ tail"
  have "length os = sizeof_options" using assms(2,3) r(2) by (simp add: os_def packet_ok_def wire_sizes)
  moreover have "take k (dhcp_bytes p) @ tail = dhcp_head p @ os" using assms(2) split(1,2) by (simp add: os_def)
  moreover have "os = encode_options opts @ DHCP_END # (take (k - 240 - length (encode_options opts) - 1) rest @ tail)"
    using assms(2) r(1) by (simp add: os_def take_Cons')
  ultimately show ?thesis
    using dhcp_of_bytes_of_head(1) [OF r(2)] r(2,3) by (simp add: same_packet_def holds_options_def packet_ok_def)
qed

lemma padding_of_list:
  assumes "holds_options p opts" and "length (encode_options opts) < DHCP_OPTIONS_BUFSIZE"
  obtains n where "send_padding p = Some n" and "n \<le> DHCP_SIZE - 300"
    and "240 + length (encode_options opts) < DHCP_SIZE - n"
proof -
  obtain rest where r: "options p = encode_options opts @ DHCP_END # rest" "list_all option_ok opts"
    using assms(1) by (auto simp: holds_options_def)
  let ?e = "length (encode_options opts)"
  have e: "udhcp_end_option (options p) 0 = Some ?e" using end_option_encode [OF r(2), of "[]" rest] r(1) by simp
  have "of_nat DHCP_OPTIONS_BUFSIZE - 1 - of_nat ?e = (of_nat (DHCP_OPTIONS_BUFSIZE - 1 - ?e) :: u32)"
    using assms(2) by (simp add: of_nat_diff packet_sizes)
  moreover have "unat (of_nat (DHCP_OPTIONS_BUFSIZE - 1 - ?e) :: u32) = DHCP_OPTIONS_BUFSIZE - 1 - ?e"
    by (simp add: unat_of_nat packet_sizes)
  moreover have "unat (of_nat (DHCP_SIZE - 300) :: u32) = DHCP_SIZE - 300" by (simp add: wire_sizes)
  ultimately have "send_padding p = Some (min (DHCP_SIZE - 300) (DHCP_OPTIONS_BUFSIZE - 1 - ?e))"
    by (simp add: send_padding_def e Let_def word_less_nat_alt min_def)
  then show ?thesis by (rule that) (use assms(2) in \<open>auto simp: wire_sizes\<close>)
qed

text \<open>The headers of a frame with \<open>n\<close> bytes less than a full one: at the checksum of UDP and when sent.\<close>

definition sum_ip :: "nat \<Rightarrow> u32 \<Rightarrow> u32 \<Rightarrow> iphdr" where
  "sum_ip n src dst = \<lparr>ihl = 0, version = 0, tos = 0, tot_len = htons (of_nat (UDP_DHCP_SIZE - n)), ip_id = 0, frag_off = 0,
     ttl = 0, protocol = IPPROTO_UDP, ip_check = 0, saddr = src, daddr = dst\<rparr>"

definition sent_udp :: "nat \<Rightarrow> u32 \<Rightarrow> u16 \<Rightarrow> u32 \<Rightarrow> u16 \<Rightarrow> u8 list \<Rightarrow> udphdr" where
  "sent_udp n src sport dst dport dat =
     (let u = \<lparr>udp_source = htons sport, udp_dest = htons dport, udp_len = htons (of_nat (UDP_DHCP_SIZE - n)), udp_check = 0\<rparr>
      in u\<lparr>udp_check := inet_cksum (ip_bytes (sum_ip n src dst) @ udp_bytes u @ dat)\<rparr>)"

definition sent_ip :: "nat \<Rightarrow> u32 \<Rightarrow> u32 \<Rightarrow> iphdr" where
  "sent_ip n src dst =
     (let h = (sum_ip n src dst)\<lparr>tot_len := htons (of_nat (IP_UDP_DHCP_SIZE - n)), ihl := of_nat (sizeof_ip div 4),
        version := IPVERSION, ttl := IPDEFTTL\<rparr>
      in h\<lparr>ip_check := inet_cksum (ip_bytes h)\<rparr>)"

lemma take_frame:
  assumes "n \<le> DHCP_SIZE - 300"
  shows "take (IP_UDP_DHCP_SIZE - n) (ip_bytes h @ udp_bytes u @ dat) = ip_bytes h @ udp_bytes u @ take (DHCP_SIZE - n) dat"
  using assms by (simp add: wire_sizes)

lemma send_raw_frame:
  assumes "send_padding p = Some n" and "n \<le> DHCP_SIZE - 300"
  shows "udhcp_send_raw_packet p src sport dst dport =
    Some (ip_bytes (sent_ip n src dst) @ udp_bytes (sent_udp n src sport dst dport (take (DHCP_SIZE - n) (dhcp_bytes p))) @
      take (DHCP_SIZE - n) (dhcp_bytes p))"
  by (simp add: udhcp_send_raw_packet_def assms(1) take_frame [OF assms(2)] sent_ip_def sent_udp_def sum_ip_def Let_def
      del: take_append)

lemma recv_raw_frame:
  assumes "n \<le> DHCP_SIZE - 300" and "length dat = DHCP_SIZE - n" and "cookie (dhcp_of_bytes (dat @ drop (IP_UDP_DHCP_SIZE - n) junk)) = htonl DHCP_MAGIC"
  shows "udhcp_recv_raw_packet csum_not_ready junk
      (ip_bytes (sent_ip n src dst) @ udp_bytes (sent_udp n src sport dst CLIENT_PORT dat) @ dat) old =
    Ok (int (DHCP_SIZE - n), dhcp_of_bytes (dat @ drop (DHCP_SIZE - n) (dhcp_bytes old)))"
proof -
  let ?h = "sent_ip n src dst" and ?u = "sent_udp n src sport dst CLIENT_PORT dat"
  let ?N = "IP_UDP_DHCP_SIZE - n"
  define frame where "frame = ip_bytes ?h @ udp_bytes ?u @ dat"
  define buf where "buf = take ?N frame @ drop ?N junk"
  have len: "length frame = ?N" "min (length frame) (sizeof_ip + sizeof_udp + sizeof_dhcp) = ?N"
    using assms(1,2) by (simp_all add: frame_def wire_sizes)
  have buf: "buf = ip_bytes ?h @ udp_bytes ?u @ dat @ drop ?N junk" using len(1) by (simp add: buf_def frame_def)
  have ip: "ip_of_bytes buf = ?h"
    unfolding buf by (rule ip_of_bytes_of_header) (simp_all add: sent_ip_def wire_sizes IPVERSION_def Let_def)
  have udp: "udp_of_bytes (drop sizeof_ip buf) = ?u" by (simp add: buf udp_of_bytes_of_header)
  have dat: "drop (sizeof_ip + sizeof_udp) buf = dat @ drop ?N junk" by (simp add: buf add.commute)
  have bytes: "unat (ntohs (tot_len ?h)) = ?N" by (simp add: sent_ip_def Let_def unat_of_nat wire_sizes)
  have words: "protocol ?h = IPPROTO_UDP" "version ?h = IPVERSION" "ihl ?h = of_nat (sizeof_ip div 4)"
    "udp_dest ?u = htons CLIENT_PORT" "ntohs (udp_len ?u) = of_nat ?N - of_nat sizeof_ip"
    using assms(1) by (simp_all add: sent_ip_def sent_udp_def sum_ip_def Let_def wire_sizes of_nat_diff)
  have ipc: "ip_check ?h = inet_cksum (ip_bytes (?h\<lparr>ip_check := 0\<rparr>))" by (simp add: sent_ip_def Let_def sum_ip_def)
  have "?h\<lparr>ihl := 0, version := 0, tos := 0, tot_len := udp_len ?u, ip_id := 0, frag_off := 0, ttl := 0, ip_check := 0\<rparr> = sum_ip n src dst"
    by (simp add: sent_ip_def sent_udp_def sum_ip_def Let_def)
  moreover have "take ?N (ip_bytes (sum_ip n src dst) @ udp_bytes (?u\<lparr>udp_check := 0\<rparr>) @ dat @ drop ?N junk) =
      ip_bytes (sum_ip n src dst) @ udp_bytes (?u\<lparr>udp_check := 0\<rparr>) @ dat"
    unfolding take_frame [OF assms(1)] using assms(2) by simp
  ultimately have udpc: "udp_check ?u = inet_cksum (take ?N (ip_bytes (?h\<lparr>ihl := 0, version := 0, tos := 0, tot_len := udp_len ?u,
      ip_id := 0, frag_off := 0, ttl := 0, ip_check := 0\<rparr>) @ udp_bytes (?u\<lparr>udp_check := 0\<rparr>) @ dat @ drop ?N junk))"
    by (simp add: sent_udp_def Let_def)
  have size: "\<not> ?N < sizeof_ip + sizeof_udp" "?N - (sizeof_ip + sizeof_udp) = DHCP_SIZE - n"
    using assms(1) by (simp_all add: wire_sizes)
  have "udhcp_recv_raw_packet csum_not_ready junk frame old =
      Ok (int (DHCP_SIZE - n), dhcp_of_bytes (take (DHCP_SIZE - n) (dat @ drop ?N junk) @ drop (DHCP_SIZE - n) (dhcp_bytes old)))"
    unfolding udhcp_recv_raw_packet_def len(2) buf_def [symmetric] ip udp dat bytes Let_def
    using words ipc udpc assms(3) size by simp
  then show ?thesis using assms(2) by (simp add: frame_def)
qed

lemma frame_arrives:
  assumes "holds_options p opts" and "length (encode_options opts) < DHCP_OPTIONS_BUFSIZE"
    and "cookie p = htonl DHCP_MAGIC" and "packet_ok old"
  obtains frame n q where "udhcp_send_raw_packet p src sport dst CLIENT_PORT = Some frame"
    and "udhcp_recv_raw_packet csum_not_ready junk frame old = Ok (n, q)" and "same_packet p opts q"
proof -
  obtain n where n: "send_padding p = Some n" "n \<le> DHCP_SIZE - 300" "240 + length (encode_options opts) < DHCP_SIZE - n"
    using padding_of_list [OF assms(1,2)] by blast
  have ok: "packet_ok p" using assms(1) by (simp add: holds_options_def)
  let ?dat = "take (DHCP_SIZE - n) (dhcp_bytes p)"
  have dat: "length ?dat = DHCP_SIZE - n" "?dat = dhcp_head p @ take (DHCP_SIZE - n - 240) (options p)"
    using dhcp_bytes_split [OF ok] n(2) by (simp_all add: wire_sizes)
  have "cookie (dhcp_of_bytes (?dat @ drop (IP_UDP_DHCP_SIZE - n) junk)) = htonl DHCP_MAGIC"
    unfolding dat(2) append_assoc by (simp only: dhcp_of_bytes_of_head(2) [OF ok] assms(3))
  note recv = recv_raw_frame [OF n(2) dat(1) this]
  have "same_packet p opts (dhcp_of_bytes (?dat @ drop (DHCP_SIZE - n) (dhcp_bytes old)))"
    by (rule cut_packet_same [OF assms(1) n(3)]) (use dhcp_bytes_split(3) [OF assms(4)] n(2) in \<open>simp add: wire_sizes\<close>)
  then show ?thesis by (rule that [OF send_raw_frame [OF n(1,2)] recv])
qed

text \<open>A packet whose options end within the 308 bytes of a standard packet survives the wire:
  the receiver accepts the frame that \<open>udhcp_send_raw_packet\<close> builds for it, both checksums included,
  and gets every field and every option, whatever its buffers held before.\<close>

theorem dhcp_frame_roundtrip:
  assumes "holds_options p opts" and "length (encode_options opts) < DHCP_OPTIONS_BUFSIZE"
    and "cookie p = htonl DHCP_MAGIC" and "packet_ok old"
  shows "\<exists>frame n q. udhcp_send_raw_packet p src sport dst CLIENT_PORT = Some frame \<and>
    udhcp_recv_raw_packet csum_not_ready junk frame old = Ok (n, q) \<and>
    holds_options q opts \<and> q\<lparr>options := options p\<rparr> = p"
  using frame_arrives [OF assms] by (metis same_packet_def)

theorem dhcp_frame_roundtrip_witness:
  "\<exists>frame n q. udhcp_send_raw_packet empty_packet 1 67 2 CLIENT_PORT = Some frame \<and>
    udhcp_recv_raw_packet False [] frame empty_packet = Ok (n, q) \<and>
    holds_options q [] \<and> q\<lparr>options := options empty_packet\<rparr> = empty_packet"
  by (rule dhcp_frame_roundtrip [OF empty_packet_options])
    (simp_all add: packet_sizes empty_packet_ok, simp add: empty_packet_def)

text \<open>A datagram from a raw frame or from the kernel, as a socket of the kernel gives it.\<close>

lemma datagram_arrives:
  assumes "holds_options p opts" and "length (encode_options opts) < DHCP_OPTIONS_BUFSIZE" and "cookie p = htonl DHCP_MAGIC"
  obtains frame d q where "udhcp_send_raw_packet p src sport dst dport = Some frame" and "udhcp_send_kernel_packet p = Some d"
    and "drop (sizeof_ip + sizeof_udp) frame = d" and "udhcp_recv_kernel_packet d = Some q" and "same_packet p opts q"
proof -
  obtain n where n: "send_padding p = Some n" "n \<le> DHCP_SIZE - 300" "240 + length (encode_options opts) < DHCP_SIZE - n"
    using padding_of_list [OF assms(1,2)] by blast
  have ok: "packet_ok p" using assms(1) by (simp add: holds_options_def)
  let ?dat = "take (DHCP_SIZE - n) (dhcp_bytes p)"
  have dat: "length ?dat = DHCP_SIZE - n" using dhcp_bytes_split [OF ok] n(2) by (simp_all add: wire_sizes)
  let ?q = "dhcp_of_bytes (?dat @ replicate (sizeof_dhcp - length ?dat) 0)"
  have "same_packet p opts ?q"
    by (rule cut_packet_same [OF assms(1) n(3)]) (use dat n(2) in \<open>simp add: wire_sizes\<close>)
  moreover from this have "cookie ?q = htonl DHCP_MAGIC"
    using assms(3) by (simp add: same_packet_fields)
  then have "udhcp_recv_kernel_packet ?dat = Some ?q"
    using dat n(2) by (simp add: udhcp_recv_kernel_packet_def Let_def wire_sizes)
  moreover have "udhcp_send_kernel_packet p = Some ?dat" by (simp add: udhcp_send_kernel_packet_def n(1))
  ultimately show ?thesis using send_raw_frame [OF n(1,2)] that by simp
qed

section \<open>A frame that is too short for itself\<close>

text \<open>A total length that ends with the IP header, in a frame that is long enough for a packet.\<close>

definition short_frame :: "u8 list" where
  "short_frame =
     (let h = \<lparr>ihl = 5, version = IPVERSION, tos = 0, tot_len = htons (of_nat sizeof_ip), ip_id = 0, frag_off = 0,
        ttl = IPDEFTTL, protocol = IPPROTO_UDP, ip_check = 0, saddr = 0, daddr = 0\<rparr>
      in ip_bytes (h\<lparr>ip_check := inet_cksum (ip_bytes h)\<rparr>) @
         udp_bytes \<lparr>udp_source = htons SERVER_PORT, udp_dest = htons CLIENT_PORT, udp_len = 0, udp_check = 0\<rparr> @
         dhcp_head empty_packet)"

text \<open>C39: There is a frame of 268 bytes with a valid IP header on which the raw receiver copies a negative
  number of bytes, whatever its buffers hold: the total length is compared with what was read, but
  not with the size of the headers that are subtracted from it.\<close>

theorem dhcp_frame_underflow:
  "\<exists>frame. length frame = 268 \<and> (\<forall>csum_not_ready junk old. udhcp_recv_raw_packet csum_not_ready junk frame old = Fault)"
proof (intro exI conjI allI)
  show "length short_frame = 268"
    using dhcp_bytes_split(2) [OF empty_packet_ok] by (simp add: short_frame_def wire_sizes Let_def)
  fix csum_not_ready junk old
  define h0 where "h0 = \<lparr>ihl = 5, version = IPVERSION, tos = 0, tot_len = htons (of_nat sizeof_ip), ip_id = 0, frag_off = 0,
    ttl = IPDEFTTL, protocol = IPPROTO_UDP, ip_check = 0, saddr = 0, daddr = 0\<rparr>"
  define h where "h = h0\<lparr>ip_check := inet_cksum (ip_bytes h0)\<rparr>"
  define u where "u = \<lparr>udp_source = htons SERVER_PORT, udp_dest = htons CLIENT_PORT, udp_len = 0, udp_check = 0\<rparr>"
  have f: "short_frame = ip_bytes h @ udp_bytes u @ dhcp_head empty_packet"
    by (simp add: short_frame_def h_def h0_def u_def)
  have "length short_frame = 268"
    unfolding f using dhcp_bytes_split(2) [OF empty_packet_ok] by (simp add: wire_sizes)
  then have n: "min (length short_frame) (sizeof_ip + sizeof_udp + sizeof_dhcp) = 268" by (simp add: wire_sizes)
  define buf where "buf = take 268 short_frame @ drop 268 junk"
  have buf: "buf = ip_bytes h @ udp_bytes u @ dhcp_head empty_packet @ drop 268 junk"
    using dhcp_bytes_split(2) [OF empty_packet_ok] by (simp add: buf_def f wire_sizes)
  have ip: "ip_of_bytes buf = h"
    unfolding buf by (rule ip_of_bytes_of_header) (simp_all add: h_def h0_def IPVERSION_def)
  have udp: "udp_of_bytes (drop sizeof_ip buf) = u" by (simp add: buf udp_of_bytes_of_header)
  have dat: "drop (sizeof_ip + sizeof_udp) buf = dhcp_head empty_packet @ drop 268 junk" by (simp add: buf add.commute)
  have "cookie empty_packet = htonl DHCP_MAGIC" by (simp add: empty_packet_def)
  then have magic: "cookie (dhcp_of_bytes (dhcp_head empty_packet @ drop 268 junk)) = htonl DHCP_MAGIC"
    by (simp only: dhcp_of_bytes_of_head(2) [OF empty_packet_ok])
  have bytes: "unat (ntohs (tot_len h)) = 20" by (simp add: h_def h0_def sizeof_ip_def)
  have sum: "ip_check h = inet_cksum (ip_bytes (h\<lparr>ip_check := 0\<rparr>))" by (simp add: h_def h0_def)
  have zero: "htons 0 = 0" by code_simp
  show "udhcp_recv_raw_packet csum_not_ready junk short_frame old = Fault"
    unfolding udhcp_recv_raw_packet_def n buf_def [symmetric] ip udp dat bytes Let_def
    using sum magic zero by (simp add: h_def h0_def u_def wire_sizes ntohs_def)
qed

section \<open>What the checksum is for\<close>

lemma unat_word_of_le2: "unat (word_of_le [a, b] :: u32) = unat a + 256 * unat b"
proof -
  have w: "(word_of_le [a, b] :: u32) = ucast a OR push_bit 8 (ucast b)" by (simp add: word_of_le_def)
  have "(word_of_le [a, b] :: u32) = ucast a + push_bit 8 (ucast b)"
    unfolding w by (rule disjunctive_add [symmetric]) (auto simp: bit_simps dest: u8_bitD)
  also have "\<dots> = ucast a + 256 * ucast b" by (simp add: push_bit_eq_mult mult.commute)
  also have "unat \<dots> = unat a + 256 * unat b"
    using unat_le_255 [of a] unat_le_255 [of b] by (simp add: unat_word_ariths)
  finally show ?thesis .
qed

fun sum_words :: "u8 list \<Rightarrow> nat" where
  "sum_words (a # b # bs) = unat a + 256 * unat b + sum_words bs"
| "sum_words [a] = unat a"
| "sum_words [] = 0"

lemma sum_words_bound: "sum_words bs \<le> 65535 * ((length bs + 1) div 2)"
proof (induction bs rule: sum_words.induct)
  case (1 a b bs)
  then show ?case using unat_le_255 [of a] unat_le_255 [of b] by simp
next
  case (2 a)
  then show ?case using unat_le_255 [of a] by simp
qed simp

lemma cksum_loop_sum: "unat s + sum_words bs < 2 ^ 32 \<Longrightarrow> unat (cksum_loop s bs) = unat s + sum_words bs"
proof (induction s bs rule: cksum_loop.induct)
  case (1 s a b bs)
  have "unat (s + word_of_le [a, b]) = unat s + (unat a + 256 * unat b)"
    using 1(2) by (subst unat_add_noover) (simp_all add: unat_word_of_le2)
  with 1 show ?case by simp
qed (simp_all add: unat_add_noover)

text \<open>The folded sum is the sum modulo 65535, and 0 for 0 only.\<close>

lemma inet_cksum_value:
  assumes "length bs < 65536"
  obtains r where "unat (inet_cksum bs) = 65535 - r" and "r \<le> 65535" and "r mod 65535 = sum_words bs mod 65535"
    and "r = 0 \<longleftrightarrow> sum_words bs = 0"
proof -
  let ?S = "sum_words bs"
  have "?S \<le> 65535 * 32768" using sum_words_bound [of bs] assms by (rule_tac order_trans) auto
  then have S: "?S < 2 ^ 32" by simp
  define t where "t = ?S div 65536 + ?S mod 65536"
  define r where "r = (t + t div 65536) mod 65536"
  have S_eq: "?S = 65536 * (?S div 65536) + ?S mod 65536" by simp
  have "?S div 65536 < 65536" "?S mod 65536 < 65536" using S by (simp_all add: div_less_iff_less_mult)
  then have t: "t < 131071" "t mod 65535 = ?S mod 65535" "t = 0 \<longleftrightarrow> ?S = 0"
  proof -
    have "?S = 65535 * (?S div 65536) + t" using S_eq unfolding t_def by linarith
    then have "?S mod 65535 = (65535 * (?S div 65536) + t) mod 65535" by (rule arg_cong)
    then show "t mod 65535 = ?S mod 65535" by simp
    show "t = 0 \<longleftrightarrow> ?S = 0" using S_eq unfolding t_def by auto
  qed (simp add: t_def)
  have "r = (if t < 65536 then t else t - 65535)"
  proof (cases "t < 65536")
    case False
    then have "t div 65536 = 1" using t(1) by (simp add: div_nat_eqI)
    moreover have "(t + 1) mod 65536 = t + 1 - 65536" using False t(1) by (simp add: mod_if)
    ultimately show ?thesis using False by (simp add: r_def)
  qed (simp add: r_def)
  then have r: "r \<le> 65535" "r mod 65535 = t mod 65535" "r = 0 \<longleftrightarrow> t = 0"
    using t(1) by (auto simp: mod_if)
  define s1 where "s1 = cksum_loop 0 bs"
  have s1: "unat s1 = ?S" unfolding s1_def using cksum_loop_sum [of 0 bs] S by simp
  define s2 where "s2 = drop_bit 16 s1 + (s1 AND 0xffff)"
  have m: "(0xffff :: u32) = mask 16" by (simp add: mask_eq_exp_minus_1)
  have d: "unat (drop_bit 16 s1) = ?S div 65536" "unat (s1 AND 0xffff) = ?S mod 65536"
    unfolding m unat_and_mask_mod unat_drop_bit_div s1 by simp_all
  then have s2: "unat s2 = t"
    using t(1) unfolding s2_def t_def by (subst unat_add_noover) (simp_all add: t_def)
  define s3 where "s3 = s2 + drop_bit 16 s2"
  have "unat (drop_bit 16 s2) = t div 65536" unfolding unat_drop_bit_div s2 by simp
  then have s3: "unat s3 = t + t div 65536"
    using t(1) s2 unfolding s3_def by (subst unat_add_noover) auto
  have "inet_cksum bs = NOT (ucast s3)" by (simp add: inet_cksum_def Let_def s1_def s2_def s3_def)
  moreover have "unat (ucast s3 :: u16) = r" by (simp add: unat_ucast_mod s3 r_def)
  moreover have "unat (NOT w) = 65535 - unat w" for w :: u16
  proof -
    have "NOT w = - 1 - w" unfolding not_eq_complement by (rule minus_diff_commute)
    then have "unat (NOT w) = unat (- 1 :: u16) - unat w" using unat_sub [OF word_order.extremum, of w] by (simp only:)
    also have "unat (- 1 :: u16) = 65535" by (simp add: unsigned_minus_1_eq_mask mask_eq_exp_minus_1)
    finally show ?thesis .
  qed
  ultimately have "unat (inet_cksum bs) = 65535 - r" by (simp only:)
  then show ?thesis using r t by (intro that [of r]) auto
qed

lemma sum_words_append: "even (length xs) \<Longrightarrow> sum_words (xs @ ys) = sum_words xs + sum_words ys"
  by (induction xs rule: sum_words.induct) auto

lemma sum_words_le_bytes: "sum_words (le_bytes 2 (w :: u16)) = unat w"
proof -
  have "le_bytes 2 w = [ucast w, ucast (drop_bit 8 w)]" by (simp add: le_bytes_def numeral_2_eq_2)
  moreover have "unat w div 256 mod 256 = unat w div 256" using unsigned_less [of w, where 'a = nat] by simp
  ultimately show ?thesis by (simp add: word_value)
qed

text \<open>A header that carries \<open>inet_cksum\<close> of itself with a zero checksum field passes the test of
  RFC 1071 that every receiver of IP does: its own checksum is zero.\<close>

theorem inet_cksum_verifies:
  assumes "even (length pre)" and "length pre + 2 + length post < 65536"
  shows "inet_cksum (pre @ le_bytes 2 (inet_cksum (pre @ [0, 0] @ post)) @ post) = 0"
proof -
  let ?z = "pre @ [0, 0] @ post" and ?c = "inet_cksum (pre @ [0, 0] @ post)"
  obtain r where r: "unat ?c = 65535 - r" "r \<le> 65535" "r mod 65535 = sum_words ?z mod 65535" "r = 0 \<longleftrightarrow> sum_words ?z = 0"
    using inet_cksum_value [of ?z] assms(2) by auto
  obtain r' where r': "unat (inet_cksum (pre @ le_bytes 2 ?c @ post)) = 65535 - r'" "r' \<le> 65535"
    "r' mod 65535 = sum_words (pre @ le_bytes 2 ?c @ post) mod 65535" "r' = 0 \<longleftrightarrow> sum_words (pre @ le_bytes 2 ?c @ post) = 0"
    using inet_cksum_value [of "pre @ le_bytes 2 ?c @ post"] assms(2) by auto
  have S: "sum_words (pre @ le_bytes 2 ?c @ post) = sum_words ?z + (65535 - r)"
    using assms(1) r(1) by (simp add: sum_words_append sum_words_le_bytes)
  have "r' mod 65535 = (sum_words ?z mod 65535 + (65535 - r)) mod 65535" unfolding r'(3) S by (simp only: mod_add_left_eq)
  also have "\<dots> = (r + (65535 - r)) mod 65535" by (simp only: r(3) [symmetric] mod_add_left_eq)
  also have "\<dots> = 0" using r(2) by simp
  finally have "r' mod 65535 = 0" .
  then have "r' = 0 \<or> r' = 65535" using r'(2) by (cases "r' < 65535") auto
  moreover have "r' \<noteq> 0"
  proof
    assume "r' = 0"
    then have "sum_words ?z = 0" "r = 65535" using S r'(4) r(2) by auto
    then show False using r(4) by simp
  qed
  ultimately have "unat (inet_cksum (pre @ le_bytes 2 ?c @ post)) = 0" using r'(1) by simp
  then show ?thesis by (simp only: unat_eq_0)
qed

theorem inet_cksum_verifies_witness:
  "inet_cksum ([0x45, 0] @ le_bytes 2 (inet_cksum ([0x45, 0] @ [0, 0] @ [1, 2, 3])) @ [1, 2, 3]) = 0"
  by (rule inet_cksum_verifies) simp_all

end
