(* ===== verification/DhcpClient.thy ===== *)
theory DhcpClient
  imports DhcpWire
begin

text \<open>
  The DHCP client, \<^verbatim>\<open>networking/udhcp/dhcpc.c\<close>: the packets it sends and the state machine of the main
  loop. The surroundings are parameters (\<open>cenv\<close>): each question to the clock, to the random generator,
  to the interface, to ARP and to \<^verbatim>\<open>sendto\<close> gets the answer of its number. Packets that leave and
  scripts that run are collected, the last first. \<open>None\<close> is an access outside an array.
\<close>

section \<open>State\<close>

datatype client_state = INIT_SELECTING | REQUESTING | BOUND | RENEWING | REBINDING | RENEW_REQUESTED | RELEASED

datatype listen_mode = LISTEN_NONE | LISTEN_KERNEL | LISTEN_RAW

datatype sent_packet = Raw_bcast u32 dhcp_packet | Kernel_ucast u32 u32 dhcp_packet

text \<open>What the command line sets, and what it sets at first and the main loop changes.\<close>

record client_config =
  discover_timeout :: int
  discover_retries :: int
  tryagain_timeout :: int
  opt_B :: bool
  opt_a :: bool
  opt_q :: bool
  opt_R :: bool
  opt_C :: bool
  opt_mask :: "u8 list"
  vendorclass :: "u8 list option"
  client_hostname :: "u8 list option"
  fqdn :: "u8 list option"
  client_options :: "u8 list list"

record client =
  cl_state :: client_state
  cl_listen :: listen_mode
  client_mac :: "u8 list"
  clientid :: "u8 list option"
  first_secs :: u32
  last_secs :: u32
  server_addr :: u32
  requested_ip :: u32
  cl_xid :: u32
  packet_num :: int
  cl_timeout :: int
  already_waited_sec :: u32
  opt_b :: bool
  opt_n :: bool
  opt_f :: bool
  asked :: nat
  sent :: "sent_packet list"
  scripts :: "(string \<times> dhcp_packet option) list"

record cenv =
  monotonic_sec :: "nat \<Rightarrow> u32"
  random_xid :: "nat \<Rightarrow> u32"
  read_interface :: "nat \<Rightarrow> u8 list option"
  arp_silent :: "nat \<Rightarrow> u32 \<Rightarrow> bool"
  send_ok :: "nat \<Rightarrow> bool"

definition ask :: "client \<Rightarrow> client" where "ask c = c\<lparr>asked := Suc (asked c)\<rparr>"

definition change_listen_mode :: "listen_mode \<Rightarrow> client \<Rightarrow> client" where
  "change_listen_mode new_mode c = c\<lparr>cl_listen := new_mode\<rparr>"

definition udhcp_run_script :: "dhcp_packet option \<Rightarrow> string \<Rightarrow> client \<Rightarrow> client" where
  "udhcp_run_script p name c = c\<lparr>scripts := (name, p) # scripts c\<rparr>"

section \<open>Packets\<close>

definition DHCP_PARAM_REQ :: u8 where "DHCP_PARAM_REQ = 0x37"
definition DHCP_MAX_SIZE :: u8 where "DHCP_MAX_SIZE = 0x39"
definition DHCP_CLIENT_ID :: u8 where "DHCP_CLIENT_ID = 0x3d"

text \<open>The end of \<^verbatim>\<open>init_packet\<close>: the hardware address, and the client id when there is one.\<close>

definition add_optional :: "u8 list option \<Rightarrow> dhcp_packet \<Rightarrow> dhcp_packet option" where
  "add_optional opt p = (case opt of None \<Rightarrow> Some p | Some data \<Rightarrow> udhcp_add_binary_option p data)"

definition client_secs :: "cenv \<Rightarrow> client \<Rightarrow> u16 \<times> client" where
  "client_secs e c =
     (let c = c\<lparr>last_secs := monotonic_sec e (asked c)\<rparr>;
          c = ask (c\<lparr>first_secs := (if first_secs c = 0 then last_secs c else first_secs c)\<rparr>);
          n = last_secs c - first_secs c
      in (if n < 0xffff then htons (ucast n) else 0xffff, c))"

definition client_init_packet :: "cenv \<Rightarrow> u8 \<Rightarrow> client \<Rightarrow> (dhcp_packet \<times> client) option" where
  "client_init_packet e type c = do {
     p \<leftarrow> udhcp_init_header type;
     let p = p\<lparr>xid := random_xid e (asked c)\<rparr>;
     let (se, c) = client_secs e (ask c);
     p \<leftarrow> add_optional (clientid c) (p\<lparr>secs := se, chaddr := take 6 (client_mac c) @ drop 6 (chaddr p)\<rparr>);
     Some (p, c) }"

fun add_options :: "u8 list list \<Rightarrow> dhcp_packet \<Rightarrow> dhcp_packet option" where
  "add_options [] p = Some p"
| "add_options (data # os) p = do { p \<leftarrow> udhcp_add_binary_option p data; add_options os p }"

text \<open>The list of requested options, written behind the others without a check of its length.\<close>

definition param_req_codes :: "u8 list \<Rightarrow> u8 list" where
  "param_req_codes m = filter (\<lambda>i. bit (m ! unat (drop_bit 3 i)) (unat (i AND 7))) (map of_nat [1..<255])"

definition add_param_req :: "u8 list \<Rightarrow> dhcp_packet \<Rightarrow> dhcp_packet option" where
  "add_param_req m p = do {
     end' \<leftarrow> udhcp_end_option (options p) 0;
     let codes = param_req_codes m;
     if codes = [] then Some p
     else do {
       os \<leftarrow> wr_n (options p) end' (DHCP_PARAM_REQ # of_nat (length codes) # codes @ [DHCP_END]);
       Some (p\<lparr>options := os\<rparr>) } }"

definition add_client_options :: "client_config \<Rightarrow> dhcp_packet \<Rightarrow> dhcp_packet option" where
  "add_client_options cfg p = do {
     p \<leftarrow> udhcp_add_simple_option p DHCP_MAX_SIZE (ucast (htons (of_nat IP_UDP_DHCP_SIZE)));
     p \<leftarrow> add_param_req (opt_mask cfg) p;
     p \<leftarrow> add_optional (vendorclass cfg) p;
     p \<leftarrow> add_optional (client_hostname cfg) p;
     p \<leftarrow> add_optional (fqdn cfg) p;
     let p = (if opt_B cfg \<and> ciaddr p = 0 then p\<lparr>flags := flags p OR htons BROADCAST_FLAG\<rparr> else p);
     add_options (client_options cfg) p }"

text \<open>Whether the packet left, and the client that remembers it.\<close>

definition client_sends :: "cenv \<Rightarrow> sent_packet \<Rightarrow> client \<Rightarrow> bool \<times> client" where
  "client_sends e m c =
     (let ok = send_ok e (asked c); c = ask c in (ok, if ok then c\<lparr>sent := m # sent c\<rparr> else c))"

definition bcast_or_ucast :: "cenv \<Rightarrow> dhcp_packet \<Rightarrow> u32 \<Rightarrow> u32 \<Rightarrow> client \<Rightarrow> bool \<times> client" where
  "bcast_or_ucast e p ciaddr' server' c =
     (if server' \<noteq> 0 then client_sends e (Kernel_ucast ciaddr' server' p) c else client_sends e (Raw_bcast ciaddr' p) c)"

definition send_discover :: "client_config \<Rightarrow> cenv \<Rightarrow> u32 \<Rightarrow> u32 \<Rightarrow> client \<Rightarrow> client option" where
  "send_discover cfg e xid' requested c = do {
     (p, c) \<leftarrow> client_init_packet e DHCPDISCOVER c;
     let p = p\<lparr>xid := xid'\<rparr>;
     p \<leftarrow> (if requested \<noteq> 0 then udhcp_add_simple_option p DHCP_REQUESTED_IP requested else Some p);
     p \<leftarrow> add_client_options cfg p;
     Some (snd (client_sends e (Raw_bcast 0 p) c)) }"

definition send_select :: "client_config \<Rightarrow> cenv \<Rightarrow> u32 \<Rightarrow> u32 \<Rightarrow> u32 \<Rightarrow> client \<Rightarrow> client option" where
  "send_select cfg e xid' server' requested c = do {
     (p, c) \<leftarrow> client_init_packet e DHCPREQUEST c;
     p \<leftarrow> udhcp_add_simple_option (p\<lparr>xid := xid'\<rparr>) DHCP_REQUESTED_IP requested;
     p \<leftarrow> udhcp_add_simple_option p DHCP_SERVER_ID server';
     p \<leftarrow> add_client_options cfg p;
     Some (snd (client_sends e (Raw_bcast 0 p) c)) }"

definition send_renew :: "client_config \<Rightarrow> cenv \<Rightarrow> u32 \<Rightarrow> u32 \<Rightarrow> u32 \<Rightarrow> client \<Rightarrow> (bool \<times> client) option" where
  "send_renew cfg e xid' server' ciaddr' c = do {
     (p, c) \<leftarrow> client_init_packet e DHCPREQUEST c;
     p \<leftarrow> add_client_options cfg (p\<lparr>xid := xid', ciaddr := ciaddr'\<rparr>);
     Some (bcast_or_ucast e p ciaddr' server' c) }"

definition send_decline :: "cenv \<Rightarrow> u32 \<Rightarrow> u32 \<Rightarrow> client \<Rightarrow> client option" where
  "send_decline e server' requested c = do {
     (p, c) \<leftarrow> client_init_packet e DHCPDECLINE c;
     p \<leftarrow> udhcp_add_simple_option p DHCP_REQUESTED_IP requested;
     p \<leftarrow> udhcp_add_simple_option p DHCP_SERVER_ID server';
     Some (snd (client_sends e (Raw_bcast 0 p) c)) }"

definition send_release :: "cenv \<Rightarrow> u32 \<Rightarrow> u32 \<Rightarrow> client \<Rightarrow> client option" where
  "send_release e server' ciaddr' c = do {
     (p, c) \<leftarrow> client_init_packet e DHCPRELEASE c;
     p \<leftarrow> udhcp_add_simple_option (p\<lparr>ciaddr := ciaddr'\<rparr>) DHCP_SERVER_ID server';
     Some (snd (bcast_or_ucast e p ciaddr' server' c)) }"

section \<open>Signals and timeouts\<close>

text \<open>
  What a turn of the main loop comes to: the loop goes on, or the program exits with a value. Waiting ends
  with a timeout, a signal, an interrupted \<^verbatim>\<open>poll\<close>, a read error or a frame, each with the seconds it took;
  a frame comes with what the buffers of the receiver held.
\<close>

datatype client_step = Goes client | Exits int client

datatype client_event =
    Timeout | Sigusr1 | Sigusr2 | Sigterm | Interrupted u32 | Read_error u32
  | Frame u32 bool "u8 list" dhcp_packet "u8 list"

definition perform_renew :: "client \<Rightarrow> client" where
  "perform_renew c =
     (case cl_state c of
        BOUND \<Rightarrow> (change_listen_mode LISTEN_KERNEL c)\<lparr>cl_state := RENEW_REQUESTED\<rparr>
      | RENEWING \<Rightarrow> c\<lparr>cl_state := RENEW_REQUESTED\<rparr>
      | REBINDING \<Rightarrow> c\<lparr>cl_state := RENEW_REQUESTED\<rparr>
      | RENEW_REQUESTED \<Rightarrow> (change_listen_mode LISTEN_RAW (udhcp_run_script None ''deconfig'' c))\<lparr>cl_state := INIT_SELECTING\<rparr>
      | REQUESTING \<Rightarrow> (change_listen_mode LISTEN_RAW c)\<lparr>cl_state := INIT_SELECTING\<rparr>
      | RELEASED \<Rightarrow> (change_listen_mode LISTEN_RAW c)\<lparr>cl_state := INIT_SELECTING\<rparr>
      | INIT_SELECTING \<Rightarrow> c)"

definition perform_release :: "cenv \<Rightarrow> u32 \<Rightarrow> u32 \<Rightarrow> client \<Rightarrow> client option" where
  "perform_release e server' ip c = do {
     c \<leftarrow> (if cl_state c \<in> {BOUND, RENEWING, REBINDING, RENEW_REQUESTED} then send_release e server' ip c else Some c);
     Some ((change_listen_mode LISTEN_NONE (udhcp_run_script None ''deconfig'' c))\<lparr>cl_state := RELEASED\<rparr>) }"

text \<open>The label \<^verbatim>\<open>ret0\<close>.\<close>

definition client_quits :: "client_config \<Rightarrow> cenv \<Rightarrow> client \<Rightarrow> client_step option" where
  "client_quits cfg e c =
     (if opt_R cfg then do { c \<leftarrow> perform_release e (server_addr c) (requested_ip c) c; Some (Exits 0 c) } else Some (Exits 0 c))"

definition leasefail :: "client_config \<Rightarrow> client \<Rightarrow> client_step" where
  "leasefail cfg c =
     (let c = udhcp_run_script None ''leasefail'' c
      in if opt_b c then Goes (c\<lparr>opt_b := False, opt_n := False, opt_f := True, cl_timeout := tryagain_timeout cfg, packet_num := 0\<rparr>)
         else if opt_n c then Exits 1 c
         else Goes (c\<lparr>cl_timeout := tryagain_timeout cfg, packet_num := 0\<rparr>))"

text \<open>The cases of the switch that others fall into.\<close>

definition case_REBINDING :: "client_config \<Rightarrow> cenv \<Rightarrow> client \<Rightarrow> client_step option" where
  "case_REBINDING cfg e c =
     (let c = change_listen_mode LISTEN_RAW c
      in if cl_timeout c > 0 then do {
           (_, c) \<leftarrow> send_renew cfg e (cl_xid c) 0 (requested_ip c) c;
           Some (Goes (c\<lparr>cl_timeout := cl_timeout c div 2\<rparr>)) }
         else Some (Goes ((udhcp_run_script None ''deconfig'' c)\<lparr>cl_state := INIT_SELECTING, first_secs := 0, packet_num := 0\<rparr>)))"

definition case_RENEW_REQUESTED :: "client_config \<Rightarrow> cenv \<Rightarrow> client \<Rightarrow> client_step option" where
  "case_RENEW_REQUESTED cfg e c =
     (if cl_timeout c \<ge> 60 then do {
        (ok, c) \<leftarrow> send_renew cfg e (cl_xid c) (server_addr c) (requested_ip c) c;
        if ok then Some (Goes (c\<lparr>cl_timeout := cl_timeout c div 2\<rparr>))
        else case_REBINDING cfg e (c\<lparr>cl_state := REBINDING\<rparr>) }
      else case_REBINDING cfg e (c\<lparr>cl_state := REBINDING\<rparr>))"

definition client_active :: "client_config \<Rightarrow> cenv \<Rightarrow> client \<Rightarrow> client_step option" where
  "client_active cfg e c =
     (case cl_state c of
        INIT_SELECTING \<Rightarrow>
          if discover_retries cfg = 0 \<or> packet_num c < discover_retries cfg then do {
            let c = (if packet_num c = 0 then ask (c\<lparr>cl_xid := random_xid e (asked c)\<rparr>) else c);
            c \<leftarrow> send_discover cfg e (cl_xid c) (requested_ip c) c;
            Some (Goes (c\<lparr>cl_timeout := discover_timeout cfg, packet_num := packet_num c + 1\<rparr>)) }
          else Some (leasefail cfg c)
      | REQUESTING \<Rightarrow>
          if packet_num c < 3 then do {
            c \<leftarrow> send_select cfg e (cl_xid c) (server_addr c) (requested_ip c) c;
            Some (Goes (c\<lparr>cl_timeout := discover_timeout cfg, packet_num := packet_num c + 1\<rparr>)) }
          else Some (leasefail cfg ((change_listen_mode LISTEN_RAW c)\<lparr>cl_state := INIT_SELECTING\<rparr>))
      | BOUND \<Rightarrow> case_RENEW_REQUESTED cfg e (change_listen_mode LISTEN_KERNEL (c\<lparr>cl_state := RENEWING, first_secs := 0\<rparr>))
      | RENEW_REQUESTED \<Rightarrow> case_RENEW_REQUESTED cfg e c
      | RENEWING \<Rightarrow> case_RENEW_REQUESTED cfg e c
      | REBINDING \<Rightarrow> case_REBINDING cfg e c
      | RELEASED \<Rightarrow> Some (Goes (c\<lparr>cl_timeout := 2 ^ 31 - 1\<rparr>)))"

definition ethernet_client_id :: "u8 list \<Rightarrow> u8 list" where
  "ethernet_client_id mac = DHCP_CLIENT_ID # 7 # 1 # take 6 mac"

text \<open>A timeout: the interface is read again, then the state decides. The own client id follows the interface.\<close>

definition client_timeout :: "client_config \<Rightarrow> cenv \<Rightarrow> client \<Rightarrow> client_step option" where
  "client_timeout cfg e c =
     (case read_interface e (asked c) of
        None \<Rightarrow> client_quits cfg e (ask c)
      | Some mac \<Rightarrow> client_active cfg e
          ((ask c)\<lparr>client_mac := mac, clientid := map_option (\<lambda>_. ethernet_client_id mac) (clientid c), already_waited_sec := 0\<rparr>))"

definition client_sigusr1 :: "client_config \<Rightarrow> cenv \<Rightarrow> client \<Rightarrow> client_step option" where
  "client_sigusr1 cfg e c =
     (let c = perform_renew (c\<lparr>first_secs := 0, already_waited_sec := 0\<rparr>)
      in if cl_state c = RENEW_REQUESTED then case_RENEW_REQUESTED cfg e (c\<lparr>cl_timeout := min (cl_timeout c) 60\<rparr>)
         else Some (Goes (c\<lparr>packet_num := 0, cl_timeout := 0\<rparr>)))"

section \<open>Answers of a server\<close>

definition client_offer :: "dhcp_packet \<Rightarrow> client \<Rightarrow> client_step option" where
  "client_offer p c = do {
     temp \<leftarrow> udhcp_get_option32 p DHCP_SERVER_ID;
     Some (Goes (c\<lparr>server_addr := (case temp of None \<Rightarrow> 0 | Some d \<Rightarrow> word_of_le d), requested_ip := yiaddr p,
       cl_state := REQUESTING, cl_timeout := 0, packet_num := 0, already_waited_sec := 0\<rparr>)) }"

definition lease_seconds :: "dhcp_packet \<Rightarrow> u32 option" where
  "lease_seconds p = do {
     temp \<leftarrow> udhcp_get_option32 p DHCP_LEASE_TIME;
     Some (case temp of None \<Rightarrow> 60 * 60 | Some d \<Rightarrow> max (ntohl (word_of_le d)) (2 * 61)) }"

text \<open>Somebody answers for the address.\<close>

definition client_declines :: "client_config \<Rightarrow> cenv \<Rightarrow> dhcp_packet \<Rightarrow> client \<Rightarrow> client_step option" where
  "client_declines cfg e p c = do {
     c \<leftarrow> send_decline e (server_addr c) (yiaddr p) c;
     let c = (if cl_state c \<noteq> REQUESTING then udhcp_run_script None ''deconfig'' c else c);
     Some (Goes ((change_listen_mode LISTEN_RAW c)\<lparr>cl_state := INIT_SELECTING, first_secs := 0, requested_ip := 0,
       cl_timeout := tryagain_timeout cfg, packet_num := 0, already_waited_sec := 0\<rparr>)) }"

definition client_bound :: "client_config \<Rightarrow> cenv \<Rightarrow> dhcp_packet \<Rightarrow> u32 \<Rightarrow> client \<Rightarrow> client_step option" where
  "client_bound cfg e p seconds c =
     (let c = c\<lparr>requested_ip := yiaddr p\<rparr>;
          start = monotonic_sec e (asked c);
          c = udhcp_run_script (Some p) (if cl_state c = REQUESTING then ''bound'' else ''renew'') (ask c);
          waited = monotonic_sec e (asked c) - start;
          half = seconds div 2;
          c = (ask c)\<lparr>cl_timeout := (if half < waited then 0 else int (unat half)),
                already_waited_sec := (if half < waited then 0 else waited), cl_state := BOUND\<rparr>;
          c = change_listen_mode LISTEN_NONE c
      in if opt_q cfg then client_quits cfg e c
         else Some (Goes (c\<lparr>opt_n := False, opt_b := (opt_b c \<and> opt_f c), opt_f := True\<rparr>)))"

definition client_ack :: "client_config \<Rightarrow> cenv \<Rightarrow> dhcp_packet \<Rightarrow> client \<Rightarrow> client_step option" where
  "client_ack cfg e p c = do {
     seconds \<leftarrow> lease_seconds p;
     if opt_a cfg then
       (if \<not> arp_silent e (asked c) (yiaddr p) then client_declines cfg e p (ask c) else client_bound cfg e p seconds (ask c))
     else client_bound cfg e p seconds c }"

definition client_nak :: "dhcp_packet \<Rightarrow> client \<Rightarrow> client_step option" where
  "client_nak p c = do {
     temp \<leftarrow> (if server_addr c \<noteq> 0 then udhcp_get_option32 p DHCP_SERVER_ID else Some None);
     if server_addr c \<noteq> 0 \<and> (case temp of None \<Rightarrow> True | Some d \<Rightarrow> word_of_le d \<noteq> server_addr c) then Some (Goes c)
     else (let c = udhcp_run_script (Some p) ''nak'' c;
               c = (if cl_state c \<noteq> REQUESTING then udhcp_run_script None ''deconfig'' c else c)
           in Some (Goes ((change_listen_mode LISTEN_RAW c)\<lparr>cl_state := INIT_SELECTING, first_secs := 0, requested_ip := 0,
                cl_timeout := 0, packet_num := 0, already_waited_sec := 0\<rparr>))) }"

text \<open>What the main loop does with a packet that was received.\<close>

definition client_packet :: "client_config \<Rightarrow> cenv \<Rightarrow> dhcp_packet \<Rightarrow> client \<Rightarrow> client_step option" where
  "client_packet cfg e p c =
     (if xid p \<noteq> cl_xid c \<or> hlen p \<noteq> 6 \<or> take 6 (chaddr p) \<noteq> take 6 (client_mac c) then Some (Goes c)
      else do {
        state \<leftarrow> udhcp_get_option p DHCP_MESSAGE_TYPE;
        (case state of
           None \<Rightarrow> Some (Goes c)
         | Some d \<Rightarrow> do {
             message \<leftarrow> rd d 0;
             if cl_state c = INIT_SELECTING then (if message = DHCPOFFER then client_offer p c else Some (Goes c))
             else if cl_state c \<in> {REQUESTING, RENEWING, RENEW_REQUESTED, REBINDING} then
               (if message = DHCPACK then client_ack cfg e p c
                else if message = DHCPNAK then client_nak p c else Some (Goes c))
             else Some (Goes c) }) })"

section \<open>The main loop\<close>

definition client_receives :: "listen_mode \<Rightarrow> bool \<Rightarrow> u8 list \<Rightarrow> dhcp_packet \<Rightarrow> u8 list \<Rightarrow> dhcp_packet outcome" where
  "client_receives mode csum_not_ready junk old frame =
     (if mode = LISTEN_KERNEL then (case udhcp_recv_kernel_packet frame of None \<Rightarrow> Null | Some p \<Rightarrow> Ok p)
      else (case udhcp_recv_raw_packet csum_not_ready junk frame old of Null \<Rightarrow> Null | Fault \<Rightarrow> Fault | Ok (n, p) \<Rightarrow> Ok p))"

definition wait_left :: "client \<Rightarrow> int" where
  "wait_left c = sint (word_of_int (cl_timeout c) - already_waited_sec c)"

text \<open>The time given to \<^verbatim>\<open>poll\<close>.\<close>

definition poll_milliseconds :: "client \<Rightarrow> int" where
  "poll_milliseconds c =
     (let tv = wait_left c
      in if tv \<le> 0 then 0 else if tv < (2 ^ 31 - 1) div 1000 then tv * 1000 else 2 ^ 31 - 1)"

definition client_turn :: "client_config \<Rightarrow> cenv \<Rightarrow> client_event \<Rightarrow> client \<Rightarrow> client_step option" where
  "client_turn cfg e ev c =
     (if wait_left c \<le> 0 then client_timeout cfg e c
      else (case ev of
        Timeout \<Rightarrow> client_timeout cfg e c
      | Sigusr1 \<Rightarrow> client_sigusr1 cfg e c
      | Sigusr2 \<Rightarrow> do {
          c \<leftarrow> perform_release e (server_addr c) (requested_ip c) c;
          Some (Goes (c\<lparr>cl_timeout := 2 ^ 31 - 1\<rparr>)) }
      | Sigterm \<Rightarrow> client_quits cfg e c
      | Interrupted t \<Rightarrow> Some (Goes (c\<lparr>already_waited_sec := already_waited_sec c + t\<rparr>))
      | Read_error t \<Rightarrow> Some (Goes (c\<lparr>already_waited_sec := already_waited_sec c + t\<rparr>))
      | Frame t csum_not_ready junk old frame \<Rightarrow>
          if cl_listen c = LISTEN_NONE then Some (Goes c)
          else (let c = c\<lparr>already_waited_sec := already_waited_sec c + t\<rparr>
                in case client_receives (cl_listen c) csum_not_ready junk old frame of
                     Fault \<Rightarrow> None
                   | Null \<Rightarrow> Some (Goes c)
                   | Ok p \<Rightarrow> client_packet cfg e p c)))"

definition client_start :: "client_config \<Rightarrow> cenv \<Rightarrow> u32 \<Rightarrow> u32 \<Rightarrow> u32 \<Rightarrow> bool \<Rightarrow> bool \<Rightarrow> bool \<Rightarrow> client option" where
  "client_start cfg e ip xid' server' b n f =
     (case read_interface e 0 of
        None \<Rightarrow> None
      | Some mac \<Rightarrow> Some
          \<lparr>cl_state = INIT_SELECTING, cl_listen = LISTEN_RAW, client_mac = mac,
           clientid = (if \<not> opt_C cfg \<and> udhcp_find_option (client_options cfg) DHCP_CLIENT_ID = None
             then Some (ethernet_client_id mac) else None),
           first_secs = 0, last_secs = 0, server_addr = server', requested_ip = ip, cl_xid = xid', packet_num = 0,
           cl_timeout = 0, already_waited_sec = 0, opt_b = b, opt_n = n, opt_f = f, asked = 1, sent = [],
           scripts = [(''deconfig'', None)]\<rparr>)"

text \<open>The buffers of a receiver have the size of a frame and of a packet.\<close>

fun event_ok :: "client_event \<Rightarrow> bool" where
  "event_ok (Frame t csum_not_ready junk old frame) = (length junk = sizeof_ip + sizeof_udp + sizeof_dhcp \<and> packet_ok old)"
| "event_ok ev = True"

text \<open>The runs of the main loop, over any events. What is on the stack at the start is arbitrary.\<close>

inductive client_run :: "client_config \<Rightarrow> cenv \<Rightarrow> client \<Rightarrow> bool" for cfg e where
  started: "client_start cfg e ip xid' server' b n f = Some c \<Longrightarrow> client_run cfg e c"
| turned: "client_run cfg e c \<Longrightarrow> event_ok ev \<Longrightarrow> client_turn cfg e ev c = Some (Goes c') \<Longrightarrow> client_run cfg e c'"

end
