(* ===== verification/DhcpClientSample.thy ===== *)
theory DhcpClientSample
  imports DhcpClient
begin

text \<open>
  A client that starts on an interface and broadcasts its DISCOVER, evaluated.
\<close>

definition goes :: "client_step option \<Rightarrow> client option" where
  "goes st = (case st of Some (Goes c) \<Rightarrow> Some c | _ \<Rightarrow> None)"

definition client_mac0 :: "u8 list" where "client_mac0 = [2, 0, 0, 0, 0, 1]"

definition client_config0 :: client_config where
  "client_config0 = \<lparr>discover_timeout = 3, discover_retries = 3, tryagain_timeout = 20, opt_B = False, opt_a = False,
     opt_q = False, opt_R = False, opt_C = False, opt_mask = [10] @ replicate 31 0, vendorclass = None,
     client_hostname = None, fqdn = None, client_options = []\<rparr>"

definition cenv0 :: cenv where
  "cenv0 = \<lparr>monotonic_sec = (\<lambda>n. 100), random_xid = (\<lambda>n. 7), read_interface = (\<lambda>n. Some client_mac0),
     arp_silent = (\<lambda>n ip. True), send_ok = (\<lambda>n. True)\<rparr>"

definition started0 :: client where
  "started0 = the (client_start client_config0 cenv0 0 1 0 False False True)"

definition selecting0 :: client where "selecting0 = the (goes (client_turn client_config0 cenv0 Timeout started0))"

lemma goes_simps [simp]: "goes (Some (Goes c)) = Some c" "goes (Some (Exits n c)) = None" "goes None = None"
  by (simp_all add: goes_def)

lemma goes_eq_Some: "goes st = Some c \<longleftrightarrow> st = Some (Goes c)"
  by (auto simp: goes_def split: option.split client_step.split)

lemma started0_run: "client_run client_config0 cenv0 started0"
proof -
  have "client_start client_config0 cenv0 0 1 0 False False True = Some started0"
    by (simp add: started0_def client_start_def cenv0_def)
  then show ?thesis by (rule client_run.started)
qed

lemma selecting0_values:
  "map_option (\<lambda>c. (cl_state c, cl_timeout c, cl_xid c, already_waited_sec c, length (sent c))) (goes (client_turn client_config0 cenv0 Timeout started0)) =
   Some (INIT_SELECTING, 3, 7, 0, 1)"
  by code_simp

lemma selecting0_turn: "client_turn client_config0 cenv0 Timeout started0 = Some (Goes selecting0)"
  using selecting0_values by (auto simp: selecting0_def goes_eq_Some)

lemma selecting0_run: "client_run client_config0 cenv0 selecting0"
  by (rule client_run.turned [OF started0_run _ selecting0_turn]) simp

lemma selecting0_fields: "cl_state selecting0 = INIT_SELECTING" "cl_timeout selecting0 = 3" "already_waited_sec selecting0 = 0" "length (sent selecting0) = 1"
  using selecting0_values by (auto simp: selecting0_def)

end
