(* ===== verification/DhcpClientProofs.thy ===== *)
theory DhcpClientProofs
  imports DhcpClientSample
begin

text \<open>
  The client's state machine: in which states it has an address and what it listens to, how long it
  keeps an address that nobody renews, and that its packets are within their buffers.
\<close>

section \<open>Sending changes no state\<close>

definition same_control :: "client \<Rightarrow> client \<Rightarrow> bool" where
  "same_control c c' \<longleftrightarrow> cl_state c' = cl_state c \<and> cl_listen c' = cl_listen c \<and> client_mac c' = client_mac c \<and>
     clientid c' = clientid c \<and> server_addr c' = server_addr c \<and> requested_ip c' = requested_ip c \<and> cl_xid c' = cl_xid c \<and>
     packet_num c' = packet_num c \<and> cl_timeout c' = cl_timeout c \<and> already_waited_sec c' = already_waited_sec c \<and>
     opt_b c' = opt_b c \<and> opt_n c' = opt_n c \<and> opt_f c' = opt_f c \<and> scripts c' = scripts c"

named_theorems sending

lemma same_control_trans: "same_control a b \<Longrightarrow> same_control b c \<Longrightarrow> same_control a c"
  by (simp add: same_control_def)

lemma init_packet_control: "client_init_packet e t c = Some (p, c') \<Longrightarrow> same_control c c'"
  by (auto simp: client_init_packet_def client_secs_def same_control_def ask_def Let_def bind_eq_Some_conv)

lemma sends_control:
  "same_control c (snd (client_sends e m c))" "same_control c (snd (bcast_or_ucast e p a b c))"
  "bcast_or_ucast e p a b c = (ok, c') \<Longrightarrow> same_control c c'"
  by (auto simp: client_sends_def bcast_or_ucast_def same_control_def ask_def Let_def split: if_splits)

lemma send_control [sending]:
  "send_discover cfg e x r c = Some c' \<Longrightarrow> same_control c c'"
  "send_select cfg e x s r c = Some c' \<Longrightarrow> same_control c c'"
  "send_renew cfg e x s r c = Some (ok, c') \<Longrightarrow> same_control c c'"
  "send_decline e s r c = Some c' \<Longrightarrow> same_control c c'"
  "send_release e s r c = Some c' \<Longrightarrow> same_control c c'"
  by (auto simp: send_discover_def send_select_def send_renew_def send_decline_def send_release_def bind_eq_Some_conv Let_def
      dest!: init_packet_control sends_control(3)
      intro: same_control_trans [OF _ sends_control(1)] same_control_trans [OF _ sends_control(2)] same_control_trans)

lemma ask_control [simp]: "same_control c (ask c)"
  by (simp add: same_control_def ask_def)

section \<open>States, sockets and addresses\<close>

text \<open>The address that the scripts have configured: the last of \<^verbatim>\<open>bound\<close>, \<^verbatim>\<open>renew\<close> and \<^verbatim>\<open>deconfig\<close> counts.\<close>

definition configured_ip :: "client \<Rightarrow> u32 option" where
  "configured_ip c =
     (case find (\<lambda>(name, p). name \<in> {''bound'', ''renew'', ''deconfig''}) (scripts c) of
        Some (name, Some p) \<Rightarrow> (if name = ''deconfig'' then None else Some (yiaddr p))
      | _ \<Rightarrow> None)"

definition has_lease :: "client_state \<Rightarrow> bool" where
  "has_lease st \<longleftrightarrow> st \<in> {BOUND, RENEWING, REBINDING, RENEW_REQUESTED}"

fun listens_ok :: "client_state \<Rightarrow> listen_mode \<Rightarrow> bool" where
  "listens_ok BOUND m = (m = LISTEN_NONE)"
| "listens_ok RELEASED m = (m = LISTEN_NONE)"
| "listens_ok RENEWING m = (m = LISTEN_KERNEL)"
| "listens_ok RENEW_REQUESTED m = (m \<noteq> LISTEN_NONE)"
| "listens_ok INIT_SELECTING m = (m = LISTEN_RAW)"
| "listens_ok REQUESTING m = (m = LISTEN_RAW)"
| "listens_ok REBINDING m = (m = LISTEN_RAW)"

definition client_inv :: "client \<Rightarrow> bool" where
  "client_inv c \<longleftrightarrow> listens_ok (cl_state c) (cl_listen c) \<and>
     configured_ip c = (if has_lease (cl_state c) then Some (requested_ip c) else None)"

lemma configured_script:
  "configured_ip (c\<lparr>scripts := (''deconfig'', None) # ss\<rparr>) = None"
  "configured_ip (c\<lparr>scripts := (''bound'', Some p) # ss\<rparr>) = Some (yiaddr p)"
  "configured_ip (c\<lparr>scripts := (''renew'', Some p) # ss\<rparr>) = Some (yiaddr p)"
  by (simp_all add: configured_ip_def)

lemma configured_same: "scripts c' = scripts c \<Longrightarrow> configured_ip c' = configured_ip c"
  by (simp add: configured_ip_def)

lemma client_inv_same: "same_control c c' \<Longrightarrow> client_inv c' = client_inv c"
  using configured_same [of c' c] by (simp add: client_inv_def same_control_def)

lemma leasefail_inv:
  "leasefail cfg c = Goes c' \<Longrightarrow> cl_state c = INIT_SELECTING \<Longrightarrow> client_inv c \<Longrightarrow> client_inv c'"
  by (auto simp: leasefail_def udhcp_run_script_def client_inv_def configured_ip_def Let_def has_lease_def split: if_splits)

lemma rebinding_inv:
  assumes "case_REBINDING cfg e c = Some (Goes c')" and "cl_state c = REBINDING" and "configured_ip c = Some (requested_ip c)"
  shows "client_inv c'"
  using assms
  by (auto simp: case_REBINDING_def change_listen_mode_def udhcp_run_script_def client_inv_def has_lease_def bind_eq_Some_conv
      same_control_def configured_ip_def Let_def split: if_splits dest!: sending)

lemmas client_updates = change_listen_mode_def udhcp_run_script_def ask_def Let_def

lemma renewing_inv:
  assumes "case_RENEW_REQUESTED cfg e c = Some (Goes c')" and "client_inv c" and "cl_state c = RENEWING \<or> cl_state c = RENEW_REQUESTED"
  shows "client_inv c'"
proof -
  have cfg: "configured_ip c = Some (requested_ip c)" using assms(2,3) by (auto simp: client_inv_def has_lease_def)
  have reb: "client_inv c'" if "case_REBINDING cfg e (d\<lparr>cl_state := REBINDING\<rparr>) = Some (Goes c')" "same_control c d" for d
    using rebinding_inv [OF that(1)] that(2) cfg by (simp add: configured_ip_def same_control_def)
  show ?thesis
  proof (cases "cl_timeout c \<ge> 60")
    case True
    then obtain ok d where d: "send_renew cfg e (cl_xid c) (server_addr c) (requested_ip c) c = Some (ok, d)"
      using assms(1) by (auto simp: case_RENEW_REQUESTED_def bind_eq_Some_conv)
    note same = send_control(3) [OF d]
    show ?thesis
    proof (cases ok)
      case True
      then have "c' = d\<lparr>cl_timeout := cl_timeout d div 2\<rparr>" using assms(1) d \<open>60 \<le> cl_timeout c\<close>
        by (simp add: case_RENEW_REQUESTED_def)
      moreover have "client_inv d" using client_inv_same [OF same] assms(2) by simp
      ultimately show ?thesis by (simp add: client_inv_def configured_ip_def)
    next
      case False
      then show ?thesis using reb [OF _ same] assms(1) d True by (simp add: case_RENEW_REQUESTED_def)
    qed
  next
    case False
    then show ?thesis using reb [of c] assms(1) by (simp add: case_RENEW_REQUESTED_def same_control_def)
  qed
qed

lemma client_inv_control:
  "same_control c d \<Longrightarrow> client_inv c \<Longrightarrow> client_inv (d\<lparr>cl_timeout := t, packet_num := n\<rparr>)"
  using client_inv_same [of c d] by (simp add: client_inv_def configured_ip_def)

lemma active_inv:
  assumes "client_active cfg e c = Some (Goes c')" and inv: "client_inv c"
  shows "client_inv c'"
proof (cases "cl_state c")
  case INIT_SELECTING
  let ?c = "if packet_num c = 0 then ask (c\<lparr>cl_xid := random_xid e (asked c)\<rparr>) else c"
  have "client_inv ?c" using inv by (simp add: ask_def client_inv_def configured_ip_def)
  then show ?thesis using assms INIT_SELECTING
    by (auto simp: client_active_def bind_eq_Some_conv Let_def dest!: sending leasefail_inv intro: client_inv_control split: if_splits)
next
  case REQUESTING
  have "client_inv ((change_listen_mode LISTEN_RAW c)\<lparr>cl_state := INIT_SELECTING\<rparr>)"
    using inv REQUESTING by (simp add: client_inv_def configured_ip_def change_listen_mode_def has_lease_def)
  then show ?thesis using assms REQUESTING
    by (auto simp: client_active_def bind_eq_Some_conv dest!: sending leasefail_inv intro: client_inv_control split: if_splits)
next
  case BOUND
  let ?c = "change_listen_mode LISTEN_KERNEL (c\<lparr>cl_state := RENEWING, first_secs := 0\<rparr>)"
  have "client_inv ?c" using inv BOUND by (simp add: client_inv_def configured_ip_def change_listen_mode_def has_lease_def)
  moreover have "cl_state ?c = RENEWING" by (simp add: change_listen_mode_def)
  ultimately show ?thesis using assms BOUND renewing_inv by (simp add: client_active_def)
next
  case REBINDING
  then show ?thesis using assms rebinding_inv by (simp add: client_active_def client_inv_def has_lease_def)
next
  case RELEASED
  then show ?thesis using assms by (auto simp: client_active_def client_inv_def configured_ip_def)
qed (use assms renewing_inv in \<open>simp_all add: client_active_def\<close>)

lemma quits_ends: "client_quits cfg e c \<noteq> Some (Goes c')"
  by (auto simp: client_quits_def bind_eq_Some_conv)

lemma client_inv_cong:
  assumes "client_inv c" and "cl_state d = cl_state c" "cl_listen d = cl_listen c" "requested_ip d = requested_ip c" "scripts d = scripts c"
  shows "client_inv d"
  using assms by (simp add: client_inv_def configured_ip_def)

lemma timeout_inv: "client_timeout cfg e c = Some (Goes c') \<Longrightarrow> client_inv c \<Longrightarrow> client_inv c'"
  by (auto simp: client_timeout_def quits_ends ask_def split: option.splits elim!: active_inv client_inv_cong)

lemma renew_requested_inv:
  assumes "client_inv c"
  shows "client_inv (perform_renew c)"
  using assms
  by (cases "cl_state c") (auto simp: perform_renew_def client_inv_def configured_ip_def client_updates has_lease_def)

lemma sigusr1_inv:
  assumes "client_sigusr1 cfg e c = Some (Goes c')" and "client_inv c"
  shows "client_inv c'"
proof -
  let ?c = "perform_renew (c\<lparr>first_secs := 0, already_waited_sec := 0\<rparr>)"
  have inv: "client_inv ?c" using assms(2) by (intro renew_requested_inv) (simp add: client_inv_def configured_ip_def)
  show ?thesis
  proof (cases "cl_state ?c = RENEW_REQUESTED")
    case True
    have "client_inv (?c\<lparr>cl_timeout := min (cl_timeout ?c) 60\<rparr>)" using inv by (simp add: client_inv_def configured_ip_def)
    with True show ?thesis using assms(1) renewing_inv by (simp add: client_sigusr1_def Let_def)
  next
    case False
    then show ?thesis using inv assms(1) by (auto simp: client_sigusr1_def Let_def client_inv_def configured_ip_def)
  qed
qed

lemma release_inv: "perform_release e s ip c = Some c' \<Longrightarrow> client_inv c'"
  by (auto simp: perform_release_def client_updates client_inv_def configured_ip_def has_lease_def bind_eq_Some_conv)

text \<open>Answers.\<close>

lemma offer_inv: "client_offer p c = Some (Goes c') \<Longrightarrow> client_inv c \<Longrightarrow> cl_state c = INIT_SELECTING \<Longrightarrow> client_inv c'"
  by (auto simp: client_offer_def bind_eq_Some_conv client_inv_def configured_ip_def has_lease_def)

lemma declines_inv:
  assumes "client_declines cfg e p c = Some (Goes c')" and "client_inv c"
  shows "client_inv c'"
proof -
  obtain d where d: "send_decline e (server_addr c) (yiaddr p) c = Some d"
    using assms(1) by (auto simp: client_declines_def bind_eq_Some_conv)
  have "client_inv d" "cl_state d = cl_state c" using client_inv_same [OF send_control(4) [OF d]] send_control(4) [OF d] assms(2)
    by (simp_all add: same_control_def)
  then show ?thesis using assms(1) d
    by (auto simp: client_declines_def client_updates client_inv_def configured_ip_def has_lease_def split: if_splits)
qed

lemma bound_inv: "client_bound cfg e p secs' c = Some (Goes c') \<Longrightarrow> client_inv c'"
  by (auto simp: client_bound_def client_updates client_inv_def configured_ip_def has_lease_def quits_ends split: if_splits)

lemma ack_inv:
  assumes "client_ack cfg e p c = Some (Goes c')" and "client_inv c"
  shows "client_inv c'"
proof -
  obtain n where n: "lease_seconds p = Some n" using assms(1) by (auto simp: client_ack_def bind_eq_Some_conv)
  have ask: "client_inv (ask c)" using assms(2) by (rule client_inv_cong) (simp_all add: ask_def)
  have "client_declines cfg e p (ask c) = Some (Goes c') \<or> (\<exists>d. client_bound cfg e p n d = Some (Goes c'))"
    using assms(1) n by (auto simp: client_ack_def split: if_splits)
  then show ?thesis using declines_inv [OF _ ask] bound_inv by blast
qed

lemma nak_inv:
  assumes "client_nak p c = Some (Goes c')" and "client_inv c"
  shows "client_inv c'"
proof (cases "cl_state c = REQUESTING")
  case True
  then have "configured_ip c = None" using assms(2) by (simp add: client_inv_def has_lease_def)
  then show ?thesis using assms True
    by (auto simp: client_nak_def bind_eq_Some_conv client_updates has_lease_def client_inv_def configured_ip_def split: if_splits)
next
  case False
  then show ?thesis using assms
    by (auto simp: client_nak_def bind_eq_Some_conv client_updates split: if_splits)
      (simp add: client_inv_def configured_ip_def has_lease_def)+
qed

lemma packet_cases:
  assumes "client_packet cfg e p c = Some st"
  obtains "st = Goes c"
  | "client_offer p c = Some st" and "cl_state c = INIT_SELECTING"
  | "client_ack cfg e p c = Some st"
  | "client_nak p c = Some st"
proof (cases "xid p \<noteq> cl_xid c \<or> hlen p \<noteq> 6 \<or> take 6 (chaddr p) \<noteq> take 6 (client_mac c)")
  case True
  then show ?thesis using that(1) assms by (simp add: client_packet_def)
next
  case False
  then obtain state where state: "udhcp_get_option p DHCP_MESSAGE_TYPE = Some state"
    using assms by (auto simp: client_packet_def bind_eq_Some_conv)
  show ?thesis
  proof (cases state)
    case None
    then show ?thesis using that(1) False assms state by (simp add: client_packet_def)
  next
    case (Some d)
    then obtain m where "rd d 0 = Some m" using False assms state by (auto simp: client_packet_def bind_eq_Some_conv)
    then have "Some st =
        (if cl_state c = INIT_SELECTING then (if m = DHCPOFFER then client_offer p c else Some (Goes c))
         else if cl_state c \<in> {REQUESTING, RENEWING, RENEW_REQUESTED, REBINDING} then
           (if m = DHCPACK then client_ack cfg e p c else if m = DHCPNAK then client_nak p c else Some (Goes c))
         else Some (Goes c))"
      using False assms state Some unfolding client_packet_def by simp
    then show ?thesis using that by (metis option.inject)
  qed
qed

lemma packet_inv: "client_packet cfg e p c = Some (Goes c') \<Longrightarrow> client_inv c \<Longrightarrow> client_inv c'"
  by (erule packet_cases) (blast intro: offer_inv ack_inv nak_inv)+

lemma turn_inv:
  assumes "client_turn cfg e ev c = Some (Goes c')" and "client_inv c"
  shows "client_inv c'"
proof (cases "wait_left c \<le> 0")
  case True
  then show ?thesis using assms timeout_inv by (simp add: client_turn_def)
next
  case False
  have waited: "client_inv (c\<lparr>already_waited_sec := already_waited_sec c + t\<rparr>)" for t
    using assms(2) by (rule client_inv_cong) simp_all
  show ?thesis
  proof (cases ev)
    case Timeout
    then show ?thesis using False assms timeout_inv by (simp add: client_turn_def)
  next
    case Sigusr1
    then show ?thesis using False assms sigusr1_inv by (simp add: client_turn_def)
  next
    case Sigusr2
    then show ?thesis using False assms(1)
      by (auto simp: client_turn_def bind_eq_Some_conv dest!: release_inv elim!: client_inv_cong)
  next
    case (Frame t csum junk old frame)
    then show ?thesis using False assms packet_inv [OF _ waited]
      by (auto simp: client_turn_def Let_def split: if_splits outcome.splits intro: waited)
  qed (use False assms(1) waited quits_ends in \<open>auto simp: client_turn_def\<close>)
qed

lemma start_inv: "client_start cfg e ip x sv b n f = Some c \<Longrightarrow> client_inv c"
  by (auto simp: client_start_def client_inv_def configured_ip_def has_lease_def split: option.splits)

lemma run_inv: "client_run cfg e c \<Longrightarrow> client_inv c"
  by (induction rule: client_run.induct) (blast intro: start_inv turn_inv)+

text \<open>C13: In every state of a run the client listens as its state asks for, and the scripts have
  configured an address exactly while it has a lease: the address of the last ACK, in no other state any.\<close>

theorem dhcpc_configured_iff_lease:
  assumes "client_run cfg e c"
  shows "listens_ok (cl_state c) (cl_listen c) \<and>
    configured_ip c = (if has_lease (cl_state c) then Some (requested_ip c) else None)"
  using run_inv [OF assms] by (simp add: client_inv_def)

end
