(* ===== verification/DhcpServer.thy ===== *)
theory DhcpServer
  imports DhcpOptions
begin

text \<open>
  The DHCP server, \<^verbatim>\<open>networking/udhcp/dhcpd.c\<close>: the table of leases, the choice of an address, the
  handler of each message and the lease file. \<^verbatim>\<open>server_data\<close> is what the configuration file sets.
  The surroundings are parameters: \<open>clock\<close> is what the \<open>n\<close>-th question gets from \<^verbatim>\<open>time\<close>, \<open>arpping\<close>
  whether nobody answered, \<open>opens\<close> whether the lease file can be written. A pointer into the table is an
  index; packets sent are collected, the last first. \<open>None\<close> is an access outside an array.
\<close>

section \<open>State\<close>

record static_lease =
  sl_nip :: u32
  sl_mac :: "u8 list"
  sl_opt :: "u8 list"

record server_data =
  server_nip :: u32
  config_options :: "u8 list list"
  start_ip :: u32
  end_ip :: u32
  max_lease_sec :: u32
  min_lease_sec :: u32
  max_leases :: u32
  decline_time :: u32
  conflict_time :: u32
  offer_time :: u32
  next_server_nip :: u32
  server_sname :: "u8 list option"
  boot_file :: "u8 list option"
  static_leases :: "static_lease list"

record dyn_lease =
  expires :: u32
  lease_nip :: u32
  lease_mac :: "u8 list"
  hostname :: "u8 list"

datatype dest = To_relay u32 | To_client u32 "u8 list"

record server =
  g_leases :: "dyn_lease list"
  ticks :: nat
  outbox :: "(dest \<times> dhcp_packet) list"
  lease_file :: "(u64 \<times> dyn_lease list) option"

record env =
  clock :: "nat \<Rightarrow> u64"
  arpping :: "nat \<Rightarrow> u32 \<Rightarrow> bool"
  opens :: "nat \<Rightarrow> bool"

definition tick :: "server \<Rightarrow> server" where "tick s = s\<lparr>ticks := Suc (ticks s)\<rparr>"

text \<open>\<^verbatim>\<open>(leasetime_t) time(NULL)\<close>.\<close>

definition time :: "env \<Rightarrow> server \<Rightarrow> u32 \<times> server" where
  "time e s = (ucast (clock e (ticks s)), tick s)"

section \<open>Static leases\<close>

definition add_static_lease :: "u8 list \<Rightarrow> u32 \<Rightarrow> u8 list option \<Rightarrow> static_lease list \<Rightarrow> static_lease list" where
  "add_static_lease mac nip opts st_leases =
     st_leases @ [\<lparr>sl_nip = nip, sl_mac = take 6 mac,
       sl_opt = (case opts of None \<Rightarrow> [0]
         | Some h \<Rightarrow> DHCP_HOST_NAME # of_nat (length (take 120 h)) # take 120 h @ [0])\<rparr>]"

definition get_static_nip_by_mac :: "server_data \<Rightarrow> u8 list \<Rightarrow> u32" where
  "get_static_nip_by_mac sd mac =
     (case find (\<lambda>st_lease. sl_mac st_lease = take 6 mac) (static_leases sd) of
        Some st_lease \<Rightarrow> sl_nip st_lease | None \<Rightarrow> 0)"

definition is_nip_reserved_as_static :: "server_data \<Rightarrow> u32 \<Rightarrow> bool" where
  "is_nip_reserved_as_static sd nip \<longleftrightarrow> list_ex (\<lambda>st_lease. sl_nip st_lease = nip) (static_leases sd)"

section \<open>The table of leases\<close>

definition zero_mac :: "u8 list" where "zero_mac = replicate 6 0"

definition empty_lease :: dyn_lease where
  "empty_lease = \<lparr>expires = 0, lease_nip = 0, lease_mac = zero_mac, hostname = replicate 20 0\<rparr>"

fun oldest_scan :: "dyn_lease list \<Rightarrow> nat \<Rightarrow> u32 \<Rightarrow> nat option \<Rightarrow> nat option" where
  "oldest_scan [] i oldest_time oldest_lease = oldest_lease"
| "oldest_scan (l # ls) i oldest_time oldest_lease =
     (if expires l = 0 \<or> expires l < oldest_time then oldest_scan ls (Suc i) (expires l) (Some i)
      else oldest_scan ls (Suc i) oldest_time oldest_lease)"

definition oldest_expired_lease :: "env \<Rightarrow> server \<Rightarrow> nat option \<times> server" where
  "oldest_expired_lease e s = (let (now, s) = time e s in (oldest_scan (g_leases s) 0 now None, s))"

definition clear_leases :: "u8 list option \<Rightarrow> u32 \<Rightarrow> dyn_lease list \<Rightarrow> dyn_lease list" where
  "clear_leases mac nip ls =
     map (\<lambda>l. if (case mac of Some m \<Rightarrow> lease_mac l = take 6 m | None \<Rightarrow> False) \<or> (nip \<noteq> 0 \<and> lease_nip l = nip)
       then empty_lease else l) ls"

definition bb_ascii_isalnum :: "u8 \<Rightarrow> bool" where
  "bb_ascii_isalnum a \<longleftrightarrow> a - 0x30 \<le> 9 \<or> (a OR 0x20) - 0x61 \<le> 0x7a - 0x61"

definition clean_char :: "u8 \<Rightarrow> u8" where
  "clean_char c = (if \<not> bb_ascii_isalnum c \<and> c \<noteq> 0x2d \<and> c \<noteq> 0x5f then 0x2e else c)"

fun sanitize_hostname :: "u8 list \<Rightarrow> u8 list" where
  "sanitize_hostname [] = []"
| "sanitize_hostname (c # cs) = map clean_char ((if c = 0x2d then 0x2e else c) # cs)"

text \<open>The \<^verbatim>\<open>hostname\<close> of a new lease: at most 19 bytes of the text up to its NUL.\<close>

definition lease_hostname :: "u8 list option \<Rightarrow> u8 list" where
  "lease_hostname h =
     (case h of None \<Rightarrow> replicate 20 0
      | Some h \<Rightarrow>
          (let hostname_len = min (length h + 1) 20;
               p = sanitize_hostname (takeWhile (\<lambda>c. c \<noteq> 0) (take (hostname_len - 1) h))
           in p @ replicate (20 - length p) 0))"

definition add_lease :: "env \<Rightarrow> u8 list option \<Rightarrow> u32 \<Rightarrow> u32 \<Rightarrow> u8 list option \<Rightarrow> server \<Rightarrow> nat option \<times> server" where
  "add_lease e mac nip leasetime h s =
     (let s = s\<lparr>g_leases := clear_leases mac nip (g_leases s)\<rparr>;
          (oldest, s) = oldest_expired_lease e s
      in case oldest of
           None \<Rightarrow> (None, s)
         | Some i \<Rightarrow>
             (let (now, s) = time e s
              in (Some i, s\<lparr>g_leases := (g_leases s)[i := \<lparr>expires = now + leasetime, lease_nip = nip,
                   lease_mac = (case mac of Some m \<Rightarrow> take 6 m | None \<Rightarrow> zero_mac),
                   hostname = lease_hostname h\<rparr>]\<rparr>)))"

definition is_expired_lease :: "env \<Rightarrow> dyn_lease \<Rightarrow> server \<Rightarrow> bool \<times> server" where
  "is_expired_lease e l s = (let (now, s) = time e s in (expires l < now, s))"

fun first_index :: "('a \<Rightarrow> bool) \<Rightarrow> 'a list \<Rightarrow> nat option" where
  "first_index P [] = None"
| "first_index P (x # xs) = (if P x then Some 0 else map_option Suc (first_index P xs))"

definition find_lease_by_mac :: "dyn_lease list \<Rightarrow> u8 list \<Rightarrow> nat option" where
  "find_lease_by_mac ls mac = first_index (\<lambda>l. lease_mac l = take 6 mac) ls"

definition find_lease_by_nip :: "dyn_lease list \<Rightarrow> u32 \<Rightarrow> nat option" where
  "find_lease_by_nip ls nip = first_index (\<lambda>l. lease_nip l = nip) ls"

section \<open>Choosing an address\<close>

definition nobody_responds_to_arp :: "env \<Rightarrow> server_data \<Rightarrow> u32 \<Rightarrow> server \<Rightarrow> bool \<times> server" where
  "nobody_responds_to_arp e sd nip s =
     (let r = arpping e (ticks s) nip; s = tick s
      in if r then (True, s) else (False, snd (add_lease e None nip (conflict_time sd) None s)))"

text \<open>One turn of the loop over the addresses; the address it returns, if it does.\<close>

definition find_free_turn :: "env \<Rightarrow> server_data \<Rightarrow> u32 \<Rightarrow> nat option \<Rightarrow> server \<Rightarrow> u32 option \<times> nat option \<times> server" where
  "find_free_turn e sd addr oldest_lease s =
     (let nip = htonl addr
      in if addr AND 0xff = 0 \<or> addr AND 0xff = 0xff \<or> nip = server_nip sd \<or> is_nip_reserved_as_static sd nip
         then (None, oldest_lease, s)
         else (case find_lease_by_nip (g_leases s) nip of
             None \<Rightarrow> (let (r, s) = nobody_responds_to_arp e sd nip s in (if r then Some nip else None, oldest_lease, s))
           | Some i \<Rightarrow>
               (None, (case oldest_lease of
                   None \<Rightarrow> Some i
                 | Some j \<Rightarrow> if expires (g_leases s ! i) < expires (g_leases s ! j) then Some i else Some j), s)))"

function find_free_loop :: "env \<Rightarrow> server_data \<Rightarrow> u32 \<Rightarrow> nat option \<Rightarrow> server \<Rightarrow> u32 option \<times> nat option \<times> server" where
  "find_free_loop e sd addr oldest_lease s =
     (case find_free_turn e sd addr oldest_lease s of
        (Some nip, oldest_lease, s) \<Rightarrow> (Some nip, oldest_lease, s)
      | (None, oldest_lease, s) \<Rightarrow>
          if addr + 1 = end_ip sd + 1 then (None, oldest_lease, s)
          else find_free_loop e sd (addr + 1) oldest_lease s)"
  by pat_completeness auto
termination
proof (relation "measure (\<lambda>(e, sd, addr, oldest_lease, s). unat (end_ip sd - addr))")
  fix sd :: server_data and addr :: u32
  assume "addr + 1 \<noteq> end_ip sd + 1"
  then have "end_ip sd - addr \<noteq> 0" by auto
  from unat_minus_one [OF this] unat_gt_0 [of "end_ip sd - addr"] this
  have "unat (end_ip sd - addr - 1) < unat (end_ip sd - addr)" by linarith
  moreover have "end_ip sd - (addr + 1) = end_ip sd - addr - 1" by simp
  ultimately have "unat (end_ip sd - (addr + 1)) < unat (end_ip sd - addr)" by (simp only:)
  then show "((e, sd, addr + 1, ol', s'), e, sd, addr, ol, s) \<in> measure (\<lambda>(e, sd, addr, oldest_lease, s). unat (end_ip sd - addr))"
    for e ol ol' s s' by simp
qed simp

declare find_free_loop.simps [simp del]

definition find_free_or_expired_nip :: "env \<Rightarrow> server_data \<Rightarrow> server \<Rightarrow> u32 \<times> server" where
  "find_free_or_expired_nip e sd s =
     (case find_free_loop e sd (start_ip sd) None s of
        (Some nip, _, s) \<Rightarrow> (nip, s)
      | (None, None, s) \<Rightarrow> (0, s)
      | (None, Some i, s) \<Rightarrow>
          (let (expired, s) = is_expired_lease e (g_leases s ! i) s
           in if expired
              then (let (r, s) = nobody_responds_to_arp e sd (lease_nip (g_leases s ! i)) s
                    in if r then (lease_nip (g_leases s ! i), s) else (0, s))
              else (0, s)))"

section \<open>Messages\<close>

definition send_packet :: "dhcp_packet \<Rightarrow> bool \<Rightarrow> server \<Rightarrow> server" where
  "send_packet p force_broadcast s =
     (let d = (if gateway_nip p \<noteq> 0 then To_relay (gateway_nip p)
               else if force_broadcast \<or> flags p AND htons BROADCAST_FLAG \<noteq> 0 \<or> ciaddr p = 0
               then To_client 0xffffffff (replicate 6 0xff)
               else To_client (ciaddr p) (chaddr p))
      in s\<lparr>outbox := (d, p) # outbox s\<rparr>)"

definition init_packet :: "server_data \<Rightarrow> dhcp_packet \<Rightarrow> u8 \<Rightarrow> dhcp_packet option" where
  "init_packet sd oldpacket type = do {
     p \<leftarrow> udhcp_init_header type;
     udhcp_add_simple_option
       (p\<lparr>xid := xid oldpacket, chaddr := chaddr oldpacket, flags := flags oldpacket,
          gateway_nip := gateway_nip oldpacket, ciaddr := ciaddr oldpacket\<rparr>)
       DHCP_SERVER_ID (server_nip sd) }"

fun add_config_options :: "bool \<Rightarrow> u8 list list \<Rightarrow> dhcp_packet \<Rightarrow> dhcp_packet option" where
  "add_config_options has_hostname [] p = Some p"
| "add_config_options has_hostname (o1 # os) p = do {
     c \<leftarrow> rd o1 0;
     p \<leftarrow> (if c \<noteq> DHCP_LEASE_TIME \<and> (c \<noteq> DHCP_HOST_NAME \<or> \<not> has_hostname)
          then udhcp_add_binary_option p o1 else Some p);
     add_config_options has_hostname os p }"

text \<open>\<^verbatim>\<open>strncpy(dst, src, n)\<close> into a field of more than \<open>n\<close> bytes.\<close>

definition strncpy :: "u8 list \<Rightarrow> u8 list option \<Rightarrow> nat \<Rightarrow> u8 list" where
  "strncpy dst src n =
     (case src of None \<Rightarrow> dst
      | Some t \<Rightarrow> take n t @ replicate (n - length t) 0 @ drop n dst)"

definition client_hostname_opt :: "server_data \<Rightarrow> u32 \<Rightarrow> u8 list option" where
  "client_hostname_opt sd nip =
     (if nip = 0 then None
      else case find (\<lambda>st_lease. sl_nip st_lease = nip) (static_leases sd) of
        Some st_lease \<Rightarrow> (if sl_opt st_lease ! 0 \<noteq> 0 then Some (sl_opt st_lease) else None)
      | None \<Rightarrow> None)"

definition add_server_options :: "server_data \<Rightarrow> dhcp_packet \<Rightarrow> dhcp_packet option" where
  "add_server_options sd p = do {
     let h = client_hostname_opt sd (yiaddr p);
     p \<leftarrow> add_config_options (h \<noteq> None) (config_options sd) p;
     p \<leftarrow> (case h of Some opt \<Rightarrow> udhcp_add_binary_option p opt | None \<Rightarrow> Some p);
     Some (p\<lparr>siaddr_nip := next_server_nip sd,
        sname := strncpy (sname p) (server_sname sd) (DHCP_PKT_SNAME_LEN - 1),
        pkt_file := strncpy (pkt_file p) (boot_file sd) (DHCP_PKT_FILE_LEN - 1)\<rparr>) }"

definition select_lease_time :: "server_data \<Rightarrow> dhcp_packet \<Rightarrow> u32 option" where
  "select_lease_time sd packet = do {
     lease_time_opt \<leftarrow> udhcp_get_option32 packet DHCP_LEASE_TIME;
     Some (case lease_time_opt of None \<Rightarrow> max_lease_sec sd
       | Some d \<Rightarrow>
           (let t = ntohl (word_of_le d);
                t = (if t > max_lease_sec sd then max_lease_sec sd else t)
            in if t < min_lease_sec sd then min_lease_sec sd else t)) }"

text \<open>The address offered to a client without a static lease, 0 for none.\<close>

definition offer_address :: "env \<Rightarrow> server_data \<Rightarrow> nat option \<Rightarrow> u32 \<Rightarrow> server \<Rightarrow> u32 \<times> server" where
  "offer_address e sd lease requested_nip s =
     (case lease of
        Some i \<Rightarrow> (lease_nip (g_leases s ! i), s)
      | None \<Rightarrow>
          if requested_nip \<noteq> 0 \<and> start_ip sd \<le> ntohl requested_nip \<and> ntohl requested_nip \<le> end_ip sd
          then (case find_lease_by_nip (g_leases s) requested_nip of
              None \<Rightarrow> (requested_nip, s)
            | Some j \<Rightarrow>
                (let (expired, s) = is_expired_lease e (g_leases s ! j) s
                 in if expired then (requested_nip, s) else find_free_or_expired_nip e sd s))
          else find_free_or_expired_nip e sd s)"

text \<open>The end of \<^verbatim>\<open>send_offer\<close>, and with \<^verbatim>\<open>send_ACK\<close> the options of a lease.\<close>

definition lease_packet :: "server_data \<Rightarrow> dhcp_packet \<Rightarrow> dhcp_packet \<Rightarrow> (u32 \<times> dhcp_packet) option" where
  "lease_packet sd oldpacket p = do {
     lease_time_sec \<leftarrow> select_lease_time sd oldpacket;
     p \<leftarrow> udhcp_add_simple_option p DHCP_LEASE_TIME (htonl lease_time_sec);
     p \<leftarrow> add_server_options sd p;
     Some (lease_time_sec, p) }"

definition send_offer :: "env \<Rightarrow> server_data \<Rightarrow> dhcp_packet \<Rightarrow> u32 \<Rightarrow> nat option \<Rightarrow> u32 \<Rightarrow> server \<Rightarrow> server option" where
  "send_offer e sd oldpacket static_lease_nip lease requested_nip s = do {
     p \<leftarrow> init_packet sd oldpacket DHCPOFFER;
     if static_lease_nip \<noteq> 0 then do {
       (_, p) \<leftarrow> lease_packet sd oldpacket (p\<lparr>yiaddr := static_lease_nip\<rparr>);
       Some (send_packet p False s) }
     else (let (nip, s) = offer_address e sd lease requested_nip s
       in if nip = 0 then Some s
          else do {
            p_host_name \<leftarrow> udhcp_get_option oldpacket DHCP_HOST_NAME;
            (case add_lease e (Some (chaddr p)) nip (offer_time sd) p_host_name s of
               (None, s) \<Rightarrow> Some s
             | (Some _, s) \<Rightarrow> do {
                 (_, p) \<leftarrow> lease_packet sd oldpacket (p\<lparr>yiaddr := nip\<rparr>);
                 Some (send_packet p False s) }) }) }"

definition send_NAK :: "server_data \<Rightarrow> dhcp_packet \<Rightarrow> server \<Rightarrow> server option" where
  "send_NAK sd oldpacket s = do {
     p \<leftarrow> init_packet sd oldpacket DHCPNAK;
     Some (send_packet p True s) }"

text \<open>The lease file: the time of writing, and the leases with the time they have left.\<close>

definition file_lease :: "u32 \<Rightarrow> dyn_lease \<Rightarrow> dyn_lease" where
  "file_lease now l =
     (let left = expires l - now; left = (if sint left < 0 then 0 else left) in l\<lparr>expires := htonl left\<rparr>)"

definition write_leases :: "env \<Rightarrow> server \<Rightarrow> server" where
  "write_leases e s =
     (if \<not> opens e (ticks s) then tick s
      else (let s = tick s; written_at = clock e (ticks s)
            in (tick s)\<lparr>lease_file :=
                 Some (written_at, map (file_lease (ucast written_at)) (filter (\<lambda>l. lease_nip l \<noteq> 0) (g_leases s)))\<rparr>))"

definition send_ACK :: "env \<Rightarrow> server_data \<Rightarrow> dhcp_packet \<Rightarrow> u32 \<Rightarrow> server \<Rightarrow> server option" where
  "send_ACK e sd oldpacket nip s = do {
     p \<leftarrow> init_packet sd oldpacket DHCPACK;
     (lease_time_sec, p) \<leftarrow> lease_packet sd oldpacket (p\<lparr>yiaddr := nip\<rparr>);
     let s = send_packet p False s;
     p_host_name \<leftarrow> udhcp_get_option oldpacket DHCP_HOST_NAME;
     let (_, s) = add_lease e (Some (chaddr p)) (yiaddr p) lease_time_sec p_host_name s;
     Some (write_leases e s) }"

definition send_inform :: "server_data \<Rightarrow> dhcp_packet \<Rightarrow> server \<Rightarrow> server option" where
  "send_inform sd oldpacket s = do {
     p \<leftarrow> init_packet sd oldpacket DHCPACK;
     p \<leftarrow> add_server_options sd p;
     Some (send_packet p False s) }"

section \<open>The server\<close>

text \<open>\<open>Fake_lease\<close> is the pointer to the local copy of a static lease.\<close>

datatype lease_ptr = Fake_lease | Table nat

fun ptr_nip :: "u32 \<Rightarrow> server \<Rightarrow> lease_ptr \<Rightarrow> u32" where
  "ptr_nip static_lease_nip s Fake_lease = static_lease_nip"
| "ptr_nip static_lease_nip s (Table i) = lease_nip (g_leases s ! i)"

fun table_index :: "lease_ptr option \<Rightarrow> nat option" where
  "table_index (Some (Table i)) = Some i"
| "table_index ptr = None"

text \<open>The assignments of DECLINE and RELEASE through the pointer, after a question for the time.\<close>

definition update_ptr :: "env \<Rightarrow> lease_ptr \<Rightarrow> (u32 \<Rightarrow> dyn_lease \<Rightarrow> dyn_lease) \<Rightarrow> server \<Rightarrow> server" where
  "update_ptr e ptr f s =
     (let (now, s) = time e s
      in case ptr of Fake_lease \<Rightarrow> s | Table i \<Rightarrow> s\<lparr>g_leases := (g_leases s)[i := f now (g_leases s ! i)]\<rparr>)"

definition dhcpd_request ::
  "env \<Rightarrow> server_data \<Rightarrow> dhcp_packet \<Rightarrow> bool \<Rightarrow> u8 list option \<Rightarrow> u32 \<Rightarrow> lease_ptr option \<Rightarrow> server \<Rightarrow> server option" where
  "dhcpd_request e sd p has_server_id requested_ip_opt static_lease_nip lease s =
     (let requested_nip = (case requested_ip_opt of None \<Rightarrow> ciaddr p | Some d \<Rightarrow> word_of_le d)
      in if requested_ip_opt = None \<and> requested_nip = 0 then Some s
         else if lease \<noteq> None \<and> requested_nip = ptr_nip static_lease_nip s (the lease)
         then send_ACK e sd p (ptr_nip static_lease_nip s (the lease)) s
         else if has_server_id \<or> requested_ip_opt \<noteq> None then send_NAK sd p s
         else Some s)"

definition dhcpd_message ::
  "env \<Rightarrow> server_data \<Rightarrow> dhcp_packet \<Rightarrow> u8 \<Rightarrow> bool \<Rightarrow> u8 list option \<Rightarrow> u32 \<Rightarrow> lease_ptr option \<Rightarrow> server \<Rightarrow> server option" where
  "dhcpd_message e sd p message has_server_id requested_ip_opt static_lease_nip lease s =
     (let requested_nip = (case requested_ip_opt of None \<Rightarrow> 0 | Some d \<Rightarrow> word_of_le d)
      in if message = DHCPDISCOVER then send_offer e sd p static_lease_nip (table_index lease) requested_nip s
         else if message = DHCPREQUEST then dhcpd_request e sd p has_server_id requested_ip_opt static_lease_nip lease s
         else if message = DHCPDECLINE then
           Some (if has_server_id \<and> requested_ip_opt \<noteq> None \<and> lease \<noteq> None \<and>
                    requested_nip = ptr_nip static_lease_nip s (the lease)
                 then update_ptr e (the lease) (\<lambda>now l. l\<lparr>lease_mac := zero_mac, expires := now + decline_time sd\<rparr>) s
                 else s)
         else if message = DHCPRELEASE then
           Some (if has_server_id \<and> lease \<noteq> None \<and> ciaddr p = ptr_nip static_lease_nip s (the lease)
                 then update_ptr e (the lease) (\<lambda>now l. l\<lparr>expires := now\<rparr>) s
                 else s)
         else if message = DHCPINFORM then send_inform sd p s
         else Some s)"

text \<open>What the main loop does with a packet that was received.\<close>

definition dhcpd_packet :: "env \<Rightarrow> server_data \<Rightarrow> dhcp_packet \<Rightarrow> server \<Rightarrow> server option" where
  "dhcpd_packet e sd p s =
     (if hlen p \<noteq> 6 \<or> op p \<noteq> BOOTREQUEST then Some s
      else do {
        state \<leftarrow> udhcp_get_option p DHCP_MESSAGE_TYPE;
        (case state of
           None \<Rightarrow> Some s
         | Some d \<Rightarrow> do {
             message \<leftarrow> rd d 0;
             if message < DHCPDISCOVER \<or> message > DHCPINFORM then Some s
             else do {
               server_id_opt \<leftarrow> udhcp_get_option32 p DHCP_SERVER_ID;
               if (case server_id_opt of None \<Rightarrow> False | Some d \<Rightarrow> word_of_le d \<noteq> server_nip sd) then Some s
               else do {
                 let static_lease_nip = get_static_nip_by_mac sd (chaddr p);
                 let lease = (if static_lease_nip \<noteq> 0 then Some Fake_lease
                              else map_option Table (find_lease_by_mac (g_leases s) (chaddr p)));
                 requested_ip_opt \<leftarrow> udhcp_get_option32 p DHCP_REQUESTED_IP;
                 dhcpd_message e sd p message (server_id_opt \<noteq> None) requested_ip_opt static_lease_nip lease s } } }) })"

text \<open>Reading the lease file: the leases it holds with the time since it was written.\<close>

fun read_leases_loop :: "env \<Rightarrow> server_data \<Rightarrow> u64 \<Rightarrow> dyn_lease list \<Rightarrow> server \<Rightarrow> server" where
  "read_leases_loop e sd time_passed [] s = s"
| "read_leases_loop e sd time_passed (l # ls) s =
     (let y = ntohl (lease_nip l)
      in if start_ip sd \<le> y \<and> y \<le> end_ip sd then
           (let left = ntohl (expires l) - ucast time_passed;
                left = (if sint left \<le> 0 then 0 else left)
            in if get_static_nip_by_mac sd (lease_mac l) \<noteq> 0 \<or> is_nip_reserved_as_static sd (lease_nip l)
               then read_leases_loop e sd time_passed ls s
               else (case add_lease e (Some (lease_mac l)) (lease_nip l) left (Some (hostname l)) s of
                   (None, s) \<Rightarrow> s
                 | (Some _, s) \<Rightarrow> read_leases_loop e sd time_passed ls s))
         else read_leases_loop e sd time_passed ls s)"

definition read_leases :: "env \<Rightarrow> server_data \<Rightarrow> (u64 \<times> dyn_lease list) option \<Rightarrow> server \<Rightarrow> server" where
  "read_leases e sd contents s =
     (case contents of
        None \<Rightarrow> s
      | Some (written_at, ls) \<Rightarrow>
          (let time_passed = clock e (ticks s) - written_at; s = tick s
           in if time_passed > 12 * 60 * 60 then s else read_leases_loop e sd time_passed ls s))"

text \<open>The start of \<^verbatim>\<open>udhcpd_main\<close>: the table, limited to the range, with what the file holds.\<close>

definition dhcpd_start :: "env \<Rightarrow> server_data \<Rightarrow> (u64 \<times> dyn_lease list) option \<Rightarrow> server" where
  "dhcpd_start e sd contents =
     (let num_ips = end_ip sd - start_ip sd + 1;
          n = (if max_leases sd > num_ips then num_ips else max_leases sd)
      in read_leases e sd contents
           \<lparr>g_leases = replicate (unat n) empty_lease, ticks = 0, outbox = [], lease_file = contents\<rparr>)"

text \<open>The entries of a lease file have a hardware address of 6 bytes, as the structure has.\<close>

definition file_ok :: "(u64 \<times> dyn_lease list) option \<Rightarrow> bool" where
  "file_ok contents = (case contents of None \<Rightarrow> True | Some (_, ls) \<Rightarrow> list_all (\<lambda>l. length (lease_mac l) = 6) ls)"

text \<open>A run: packets in any order, and the lease file written at a signal or a timeout.\<close>

inductive dhcpd_run :: "env \<Rightarrow> server_data \<Rightarrow> server \<Rightarrow> bool" for e sd where
  started: "file_ok contents \<Longrightarrow> dhcpd_run e sd (dhcpd_start e sd contents)"
| received: "dhcpd_run e sd s \<Longrightarrow> packet_ok p \<Longrightarrow> dhcpd_packet e sd p s = Some s' \<Longrightarrow> dhcpd_run e sd s'"
| written: "dhcpd_run e sd s \<Longrightarrow> dhcpd_run e sd (write_leases e s)"

end
