(* ===== verification/DhcpProofs.thy ===== *)
theory DhcpProofs
  imports DhcpServer
begin

text \<open>
  The DHCP server's promises: its table never has two leases of one address or one client, an
  address is given to one client only, and no packet makes it read or write outside its arrays.
\<close>

section \<open>Tables without repetition\<close>

text \<open>Apart from the value \<open>z\<close> of empty entries, \<open>f\<close> differs from entry to entry.\<close>

definition unique :: "('a \<Rightarrow> 'b) \<Rightarrow> 'b \<Rightarrow> 'a list \<Rightarrow> bool" where
  "unique f z xs \<longleftrightarrow> distinct (filter (\<lambda>y. y \<noteq> z) (map f xs))"

lemma unique_Cons: "unique f z (x # xs) \<longleftrightarrow> (f x = z \<or> f x \<notin> f ` set xs) \<and> unique f z xs"
  by (auto simp: unique_def)

lemma unique_map:
  assumes g: "\<And>x. g x = x \<or> f (g x) = z"
  shows "unique f z xs \<Longrightarrow> unique f z (map g xs)"
proof (induction xs)
  case (Cons x xs)
  have "f (g x) \<notin> f ` set (map g xs)" if "f (g x) \<noteq> z"
  proof
    assume "f (g x) \<in> f ` set (map g xs)"
    then obtain y where "y \<in> set xs" "f (g x) = f (g y)" by auto
    with g [of x] g [of y] that have "f x = f y" "f x \<noteq> z" by auto
    with Cons.prems \<open>y \<in> set xs\<close> show False by (simp add: unique_Cons)
  qed
  then show ?case using Cons by (auto simp: unique_Cons)
qed simp

lemma unique_update:
  assumes "unique f z xs" and "f x = z \<or> f x \<notin> f ` set xs"
  shows "unique f z (xs[i := x])"
proof (cases "i < length xs")
  case True
  have "xs = take i xs @ xs ! i # drop (Suc i) xs" using True by (rule id_take_nth_drop)
  then have "distinct (filter (\<lambda>y. y \<noteq> z) (map f (take i xs) @ f (xs ! i) # map f (drop (Suc i) xs)))"
    using assms(1) unfolding unique_def by (metis list.simps(9) map_append)
  moreover have "f ` set (take i xs) \<subseteq> f ` set xs" "f ` set (drop (Suc i) xs) \<subseteq> f ` set xs"
    by (auto dest: in_set_takeD in_set_dropD)
  ultimately show ?thesis
    using assms(2) unfolding upd_conv_take_nth_drop [OF True] unique_def by (auto split: if_splits)
qed (simp add: assms(1) list_update_beyond)

lemma unique_update_same: "unique f z xs \<Longrightarrow> f x = f (xs ! i) \<Longrightarrow> unique f z (xs[i := x])"
proof -
  assume "unique f z xs" and "f x = f (xs ! i)"
  then have "map f (xs[i := x]) = map f xs" using list_update_id [of "map f xs" i]
    by (cases "i < length xs") (simp_all add: map_update list_update_beyond)
  with \<open>unique f z xs\<close> show ?thesis by (simp add: unique_def)
qed

lemma unique_eq: "unique f z xs \<Longrightarrow> x \<in> set xs \<Longrightarrow> y \<in> set xs \<Longrightarrow> f x = f y \<Longrightarrow> f x \<noteq> z \<Longrightarrow> x = y"
  by (induction xs) (auto simp: unique_Cons image_iff)

lemma first_index_None: "first_index P xs = None \<longleftrightarrow> (\<forall>x\<in>set xs. \<not> P x)"
  by (induction xs) auto

lemma first_index_Some: "first_index P xs = Some i \<Longrightarrow> i < length xs \<and> P (xs ! i)"
  by (induction xs arbitrary: i) (auto split: if_splits)

section \<open>Well-formed leases\<close>

text \<open>What \<open>dumpleases\<close> prints of a host name is harmless to a shell.\<close>

definition harmless :: "u8 list \<Rightarrow> bool" where
  "harmless p \<longleftrightarrow> list_all (\<lambda>c. bb_ascii_isalnum c \<or> c = 0x2d \<or> c = 0x2e \<or> c = 0x5f) p \<and> (p \<noteq> [] \<longrightarrow> hd p \<noteq> 0x2d)"

definition lease_ok :: "dyn_lease \<Rightarrow> bool" where
  "lease_ok l \<longleftrightarrow> length (lease_mac l) = 6 \<and> length (hostname l) = 20 \<and> last (hostname l) = 0 \<and>
     harmless (takeWhile (\<lambda>c. c \<noteq> 0) (hostname l))"

definition table_ok :: "dyn_lease list \<Rightarrow> bool" where
  "table_ok ls \<longleftrightarrow> list_all lease_ok ls \<and> unique lease_nip 0 ls \<and> unique lease_mac zero_mac ls"

lemma clean_char_ok: "bb_ascii_isalnum (clean_char c) \<or> clean_char c = 0x2d \<or> clean_char c = 0x2e \<or> clean_char c = 0x5f"
  by (simp add: clean_char_def)

lemma clean_char_nonzero: "clean_char c \<noteq> 0"
  by (auto simp: clean_char_def bb_ascii_isalnum_def word_le_nat_alt)

lemma clean_dot: "clean_char 0x2e = 0x2e"
  by (simp add: clean_char_def bb_ascii_isalnum_def word_le_nat_alt)

lemma clean_not_dash: "c \<noteq> 0x2d \<Longrightarrow> clean_char c \<noteq> 0x2d"
  by (simp add: clean_char_def)

lemma sanitize_harmless: "harmless (sanitize_hostname h) \<and> list_all (\<lambda>c. c \<noteq> 0) (sanitize_hostname h) \<and> length (sanitize_hostname h) = length h"
proof (cases h)
  case (Cons c cs)
  then show ?thesis
    using clean_char_ok clean_char_nonzero clean_dot clean_not_dash [of c]
    by (auto simp: harmless_def list_all_iff)
qed (simp add: harmless_def)

lemma lease_hostname_ok:
  "length (lease_hostname h) = 20 \<and> last (lease_hostname h) = 0 \<and> harmless (takeWhile (\<lambda>c. c \<noteq> 0) (lease_hostname h))"
proof (cases h)
  case None
  then show ?thesis by (simp add: lease_hostname_def harmless_def numeral_eq_Suc)
next
  case (Some t)
  define p where "p = sanitize_hostname (takeWhile (\<lambda>c. c \<noteq> 0) (take (min (length t + 1) 20 - 1) t))"
  have p: "harmless p" "list_all (\<lambda>c. c \<noteq> 0) p" "length p \<le> 19"
    using sanitize_harmless [of "takeWhile (\<lambda>c. c \<noteq> 0) (take (min (length t + 1) 20 - 1) t)"]
      length_takeWhile_le [of "\<lambda>c. c \<noteq> 0" "take (min (length t + 1) 20 - 1) t"] by (simp_all add: p_def)
  then obtain k where k: "20 - length p = Suc k" by (cases "20 - length p") auto
  have h: "lease_hostname h = p @ 0 # replicate k 0"
    by (simp only: Some lease_hostname_def option.case Let_def p_def [symmetric] k replicate_Suc)
  have "takeWhile (\<lambda>c. c \<noteq> 0) (p @ 0 # replicate k 0) = p"
    using p(2) by (subst takeWhile_append2) (auto simp: list_all_iff)
  then show ?thesis using p(1,3) k unfolding h by (auto simp: last_append)
qed

lemma empty_lease_ok: "lease_ok empty_lease"
  by (simp add: lease_ok_def empty_lease_def harmless_def zero_mac_def numeral_eq_Suc)

lemma empty_lease_fields [simp]: "lease_nip empty_lease = 0" "lease_mac empty_lease = zero_mac"
  by (simp_all add: empty_lease_def)

section \<open>Adding a lease\<close>

definition after_add :: "u8 list option \<Rightarrow> u32 \<Rightarrow> dyn_lease list \<Rightarrow> dyn_lease list \<Rightarrow> bool" where
  "after_add mac nip ls ls' \<longleftrightarrow> ls' = clear_leases mac nip ls \<or>
     (\<exists>i l. ls' = (clear_leases mac nip ls)[i := l] \<and> lease_nip l = nip \<and>
        lease_mac l = (case mac of Some m \<Rightarrow> take 6 m | None \<Rightarrow> zero_mac) \<and> (\<exists>h. hostname l = lease_hostname h))"

lemma time_frame [simp]:
  "g_leases (snd (time e s)) = g_leases s" "outbox (snd (time e s)) = outbox s" "ticks (snd (time e s)) = Suc (ticks s)"
  "fst (time e s) = ucast (clock e (ticks s))"
  by (simp_all add: time_def tick_def)

lemma oldest_frame [simp]:
  "g_leases (snd (oldest_expired_lease e s)) = g_leases s" "outbox (snd (oldest_expired_lease e s)) = outbox s"
  "ticks (snd (oldest_expired_lease e s)) = Suc (ticks s)"
  by (simp_all add: oldest_expired_lease_def time_def tick_def)

lemma add_lease_table: "after_add mac nip (g_leases s) (g_leases (snd (add_lease e mac nip t h s)))"
proof -
  define s1 where "s1 = s\<lparr>g_leases := clear_leases mac nip (g_leases s)\<rparr>"
  obtain old s2 where o: "oldest_expired_lease e s1 = (old, s2)" by fastforce
  then have "g_leases s2 = clear_leases mac nip (g_leases s)"
    using oldest_frame(1) [of e s1] by (simp add: s1_def)
  moreover define l where "l = \<lparr>expires = ucast (clock e (ticks s2)) + t, lease_nip = nip,
    lease_mac = (case mac of Some m \<Rightarrow> take 6 m | None \<Rightarrow> zero_mac), hostname = lease_hostname h\<rparr>"
  ultimately have "g_leases (snd (add_lease e mac nip t h s)) =
      (case old of None \<Rightarrow> clear_leases mac nip (g_leases s) | Some i \<Rightarrow> (clear_leases mac nip (g_leases s))[i := l])"
    using o by (cases old) (simp_all add: add_lease_def Let_def s1_def [symmetric] time_def tick_def)
  moreover have "lease_nip l = nip" "lease_mac l = (case mac of Some m \<Rightarrow> take 6 m | None \<Rightarrow> zero_mac)"
    "hostname l = lease_hostname h" by (simp_all add: l_def)
  ultimately show ?thesis unfolding after_add_def by (cases old) fastforce+
qed

lemma length_clear [simp]: "length (clear_leases mac nip ls) = length ls"
  by (simp add: clear_leases_def)

lemma after_add_length: "after_add mac nip ls ls' \<Longrightarrow> length ls' = length ls"
  by (auto simp: after_add_def)

lemma clear_leases_gone:
  "l \<in> set (clear_leases mac nip ls) \<Longrightarrow> nip \<noteq> 0 \<Longrightarrow> lease_nip l \<noteq> nip"
  "l \<in> set (clear_leases (Some m) nip ls) \<Longrightarrow> take 6 m \<noteq> zero_mac \<Longrightarrow> lease_mac l \<noteq> take 6 m"
  by (auto simp: clear_leases_def split: if_splits option.splits)

lemma clear_leases_ok: "table_ok ls \<Longrightarrow> table_ok (clear_leases mac nip ls)"
  unfolding table_ok_def clear_leases_def
  by (intro conjI unique_map) (auto simp: list_all_iff empty_lease_ok)

lemma after_add_ok:
  assumes "after_add mac nip ls ls'" and "table_ok ls" and "\<And>m. mac = Some m \<Longrightarrow> 6 \<le> length m"
  shows "table_ok ls'"
proof -
  let ?c = "clear_leases mac nip ls"
  have c: "table_ok ?c" using assms(2) by (rule clear_leases_ok)
  have new: "table_ok (?c[i := l])"
    if "lease_nip l = nip" "lease_mac l = (case mac of Some m \<Rightarrow> take 6 m | None \<Rightarrow> zero_mac)" "hostname l = lease_hostname h" for i l h
  proof -
    have "lease_ok l" using that lease_hostname_ok [of h] assms(3)
      by (cases mac) (simp_all add: lease_ok_def zero_mac_def)
    then have "list_all lease_ok (?c[i := l])" using c
      by (auto simp: table_ok_def list_all_iff dest: set_update_subset_insert [THEN subsetD])
    moreover have "nip = 0 \<or> nip \<notin> lease_nip ` set ?c" using clear_leases_gone(1) [of _ mac nip ls] by fastforce
    then have "unique lease_nip 0 (?c[i := l])" using c that(1) by (intro unique_update) (simp_all add: table_ok_def)
    moreover have "lease_mac l = zero_mac \<or> lease_mac l \<notin> lease_mac ` set ?c"
      using that(2) clear_leases_gone(2) [of _ _ nip ls] by (cases mac) fastforce+
    then have "unique lease_mac zero_mac (?c[i := l])" using c by (intro unique_update) (simp_all add: table_ok_def)
    ultimately show ?thesis by (simp add: table_ok_def)
  qed
  then show ?thesis using assms(1) c unfolding after_add_def by auto
qed

lemma add_lease_frame:
  "outbox (snd (add_lease e mac nip t h s)) = outbox s" "ticks s \<le> ticks (snd (add_lease e mac nip t h s))"
  by (simp_all add: add_lease_def Let_def oldest_expired_lease_def time_def tick_def split: option.split)

section \<open>What a choice of address leaves\<close>

text \<open>\<open>l\<close> counted as expired at a question for the time between two states.\<close>

definition lapsed :: "env \<Rightarrow> server \<Rightarrow> server \<Rightarrow> dyn_lease \<Rightarrow> bool" where
  "lapsed e s s' l \<longleftrightarrow> expires l = 0 \<or> (\<exists>t. ticks s \<le> t \<and> t < ticks s' \<and> expires l < ucast (clock e t))"

text \<open>
  \<open>s'\<close> comes from \<open>s\<close> by looking for an address: the table is still well-formed, and a lease is
  still there or has lapsed.
\<close>

definition kept :: "env \<Rightarrow> server \<Rightarrow> server \<Rightarrow> bool" where
  "kept e s s' \<longleftrightarrow> ticks s \<le> ticks s' \<and> outbox s' = outbox s \<and> length (g_leases s') = length (g_leases s) \<and>
     (table_ok (g_leases s) \<longrightarrow> table_ok (g_leases s')) \<and>
     (\<forall>l\<in>set (g_leases s). lease_nip l \<noteq> 0 \<longrightarrow> l \<in> set (g_leases s') \<or> lapsed e s s' l)"

lemma lapsed_mono: "lapsed e s s' l \<Longrightarrow> ticks s0 \<le> ticks s \<Longrightarrow> ticks s' \<le> ticks s1 \<Longrightarrow> lapsed e s0 s1 l"
  unfolding lapsed_def by (meson le_trans less_le_trans)

lemma kept_refl [simp]: "kept e s s"
  by (simp add: kept_def)

lemma kept_trans: "kept e s s' \<Longrightarrow> kept e s' s'' \<Longrightarrow> kept e s s''"
  unfolding kept_def by (auto intro: lapsed_mono [of e s s' _ s s''] lapsed_mono [of e s' s'' _ s s''])

lemma kept_tick: "kept e s (tick s)" "kept e s (snd (time e s))"
  by (simp_all add: kept_def tick_def time_def)

lemma oldest_scan_lapsed:
  "oldest_scan ls i bound old = Some j \<Longrightarrow> bound \<le> now \<Longrightarrow>
   old = Some j \<or> (i \<le> j \<and> j < i + length ls \<and> (expires (ls ! (j - i)) = 0 \<or> expires (ls ! (j - i)) < now))"
proof (induction ls i bound old rule: oldest_scan.induct)
  case (2 l ls i bound old)
  show ?case
  proof (cases "expires l = 0 \<or> expires l < bound")
    case True
    then have "expires l \<le> now" using "2.prems"(2) by auto
    from "2.IH"(1) [OF True _ this] True "2.prems"
    have "Some i = Some j \<or> (Suc i \<le> j \<and> j < Suc i + length ls \<and> (expires (ls ! (j - Suc i)) = 0 \<or> expires (ls ! (j - Suc i)) < now))"
      by simp
    moreover have "expires l = 0 \<or> expires l < now" using True "2.prems"(2) by auto
    ultimately show ?thesis by (auto simp: nth_Cons' Suc_diff_Suc)
  next
    case False
    then show ?thesis using "2.IH"(2) "2.prems" by (auto simp: nth_Cons' Suc_diff_Suc)
  qed
qed simp

lemma nth_update_other: "x \<in> set xs \<Longrightarrow> x \<in> set (xs[i := y]) \<or> x = xs ! i"
  by (metis in_set_conv_nth length_list_update nth_list_update_neq)

text \<open>\<open>nip\<close> may be given away in the state \<open>s'\<close> that a search from \<open>s\<close> reached.\<close>

definition free_since :: "env \<Rightarrow> server \<Rightarrow> server \<Rightarrow> u32 \<Rightarrow> bool" where
  "free_since e s s' nip \<longleftrightarrow> (\<forall>l\<in>set (g_leases s). lease_nip l = nip \<longrightarrow> nip \<noteq> 0 \<longrightarrow> lapsed e s s' l)"

lemma free_since_tick: "free_since e s s' nip \<Longrightarrow> free_since e s (tick s') nip"
  unfolding free_since_def using lapsed_mono [of e s s' _ s "tick s'"] by (simp add: tick_def)

text \<open>A conflict lease for an address that nobody holds.\<close>

lemma add_conflict_kept:
  assumes "kept e s0 s" and "free_since e s0 s nip"
  shows "kept e s0 (snd (add_lease e None nip t h s))"
proof -
  let ?s' = "snd (add_lease e None nip t h s)"
  define ls where "ls = clear_leases None nip (g_leases s)"
  define s1 where "s1 = s\<lparr>g_leases := ls\<rparr>"
  obtain old where old: "oldest_scan ls 0 (ucast (clock e (ticks s))) None = old" by blast
  then have o: "oldest_expired_lease e s1 = (old, tick s1)" by (simp add: oldest_expired_lease_def time_def s1_def tick_def)
  have table: "old = None \<Longrightarrow> g_leases ?s' = ls" and at: "\<And>i. old = Some i \<Longrightarrow> \<exists>l. g_leases ?s' = ls[i := l]"
    and ticks: "ticks s < ticks ?s'"
    using o by (auto simp: add_lease_def Let_def ls_def [symmetric] s1_def [symmetric] time_def tick_def split: option.split)
      (auto simp: s1_def)
  have k: "ticks s0 \<le> ticks s" "\<And>l. l \<in> set (g_leases s0) \<Longrightarrow> lease_nip l \<noteq> 0 \<Longrightarrow> l \<in> set (g_leases s) \<or> lapsed e s0 s l"
    using assms(1) by (auto simp: kept_def)
  have "l \<in> set (g_leases ?s') \<or> lapsed e s0 ?s' l" if l: "l \<in> set (g_leases s0)" "lease_nip l \<noteq> 0" for l
  proof (cases "lapsed e s0 s l")
    case True
    then show ?thesis using ticks by (auto intro: lapsed_mono)
  next
    case False
    then have "l \<in> set (g_leases s)" "lease_nip l \<noteq> nip" using k(2) l assms(2) by (auto simp: free_since_def)
    then have mem: "l \<in> set ls" by (auto simp: ls_def clear_leases_def)
    show ?thesis
    proof (cases old)
      case None
      then show ?thesis using mem table by simp
    next
      case (Some i)
      with old oldest_scan_lapsed [of ls 0 "ucast (clock e (ticks s))" None i "ucast (clock e (ticks s))"]
      have "expires (ls ! i) = 0 \<or> expires (ls ! i) < ucast (clock e (ticks s))" by simp
      then have "lapsed e s0 ?s' (ls ! i)" using ticks k(1) by (auto simp: lapsed_def)
      moreover obtain new where "g_leases ?s' = ls[i := new]" using at [OF Some] by blast
      ultimately show ?thesis using nth_update_other [OF mem, of i new] by auto
    qed
  qed
  then show ?thesis
    using after_add_ok [OF add_lease_table [of None nip s e t h]] after_add_length [OF add_lease_table [of None nip s e t h]]
      assms(1) by (auto simp: kept_def add_lease_frame intro: le_trans)
qed

lemma nobody_responds_kept:
  assumes "nobody_responds_to_arp e sd nip s = (r, s')" and "kept e s0 s" and "\<not> r \<Longrightarrow> free_since e s0 s nip"
  shows "kept e s0 s' \<and> (r \<longrightarrow> s' = tick s)"
proof (cases r)
  case True
  then show ?thesis using assms(1) kept_trans [OF assms(2) kept_tick(1)]
    by (simp add: nobody_responds_to_arp_def Let_def split: if_splits)
next
  case False
  then have s': "s' = snd (add_lease e None nip (conflict_time sd) None (tick s))"
    using assms(1) by (simp add: nobody_responds_to_arp_def Let_def split: if_splits)
  have "free_since e s0 (tick s) nip"
    using assms(3) [OF False] by (rule free_since_tick)
  then show ?thesis unfolding s' using add_conflict_kept [OF kept_trans [OF assms(2) kept_tick(1)]] False by simp
qed

section \<open>Choosing an address\<close>

lemma find_nip_None: "find_lease_by_nip ls nip = None \<longleftrightarrow> (\<forall>l\<in>set ls. lease_nip l \<noteq> nip)"
  by (simp add: find_lease_by_nip_def first_index_None)

lemma find_nip_Some: "find_lease_by_nip ls nip = Some i \<Longrightarrow> i < length ls \<and> lease_nip (ls ! i) = nip"
  by (auto simp: find_lease_by_nip_def dest: first_index_Some)

lemma free_since_none:
  assumes "kept e s s'" and "find_lease_by_nip (g_leases s') nip = None"
  shows "free_since e s s' nip"
  using assms unfolding kept_def free_since_def find_nip_None by blast

lemma free_since_expired:
  assumes "kept e s u" and "table_ok (g_leases s)" and "i < length (g_leases u)"
    and "is_expired_lease e (g_leases u ! i) u = (True, v)"
  shows "free_since e s v (lease_nip (g_leases u ! i)) \<and> kept e s v"
proof -
  let ?l = "g_leases u ! i"
  have v: "v = tick u" "expires ?l < ucast (clock e (ticks u))"
    using assms(4) by (simp_all add: is_expired_lease_def time_def)
  have t: "ticks s \<le> ticks u" and ok: "table_ok (g_leases u)"
    and old: "\<And>l. l \<in> set (g_leases s) \<Longrightarrow> lease_nip l \<noteq> 0 \<Longrightarrow> l \<in> set (g_leases u) \<or> lapsed e s u l"
    using assms(1,2) by (auto simp: kept_def)
  have l: "lapsed e s v ?l" using v t by (auto simp: lapsed_def tick_def)
  have "lapsed e s v l" if "l \<in> set (g_leases s)" "lease_nip l = lease_nip ?l" "lease_nip ?l \<noteq> 0" for l
  proof (cases "l \<in> set (g_leases u)")
    case True
    then have "l = ?l" using ok that assms(3) unique_eq [of lease_nip 0 "g_leases u" l ?l] by (simp add: table_ok_def)
    then show ?thesis using l by simp
  next
    case False
    then have "lapsed e s u l" using old [OF that(1)] that(2,3) by auto
    then show ?thesis by (rule lapsed_mono) (simp_all add: v(1) tick_def)
  qed
  then show ?thesis using kept_trans [OF assms(1), of v] kept_tick(1) [of e u] by (simp add: free_since_def v(1))
qed

lemma find_free_turn_kept:
  assumes "find_free_turn e sd addr old s = (found, old', s')" and "\<And>i. old = Some i \<Longrightarrow> i < length (g_leases s)"
  shows "kept e s s' \<and> (\<forall>i. old' = Some i \<longrightarrow> i < length (g_leases s')) \<and>
    (\<forall>nip. found = Some nip \<longrightarrow> find_lease_by_nip (g_leases s') nip = None \<and> nip = htonl addr)"
proof (cases "addr AND 0xff = 0 \<or> addr AND 0xff = 0xff \<or> htonl addr = server_nip sd \<or> is_nip_reserved_as_static sd (htonl addr)")
  case True
  then show ?thesis using assms by (simp add: find_free_turn_def Let_def)
next
  case skip: False
  show ?thesis
  proof (cases "find_lease_by_nip (g_leases s) (htonl addr)")
    case None
    obtain r s1 where r: "nobody_responds_to_arp e sd (htonl addr) s = (r, s1)" by fastforce
    then have k: "kept e s s1 \<and> (r \<longrightarrow> s1 = tick s)"
      using nobody_responds_kept [OF r kept_refl] None by (auto simp: find_nip_None free_since_def)
    have res: "found = (if r then Some (htonl addr) else None)" "old' = old" "s' = s1"
      using assms(1) skip None r by (auto simp: find_free_turn_def Let_def split: if_splits)
    show ?thesis using k None assms(2) unfolding res by (auto simp: kept_def tick_def)
  next
    case (Some i)
    then show ?thesis using assms skip find_nip_Some [OF Some]
      by (auto simp: find_free_turn_def Let_def split: option.splits if_splits)
  qed
qed

lemma find_free_loop_kept:
  "find_free_loop e sd addr old s = (found, old', s') \<Longrightarrow> (\<And>i. old = Some i \<Longrightarrow> i < length (g_leases s)) \<Longrightarrow>
   kept e s s' \<and> (\<forall>i. old' = Some i \<longrightarrow> i < length (g_leases s')) \<and>
     (\<forall>nip. found = Some nip \<longrightarrow> find_lease_by_nip (g_leases s') nip = None)"
proof (induction e sd addr old s rule: find_free_loop.induct)
  case (1 e sd addr old s)
  obtain f o1 s1 where turn: "find_free_turn e sd addr old s = (f, o1, s1)" by (metis prod_cases3)
  note t = find_free_turn_kept [OF turn "1.prems"(2)]
  show ?case
  proof (cases "f = None \<and> addr + 1 \<noteq> end_ip sd + 1")
    case True
    then have rec: "find_free_loop e sd (addr + 1) o1 s1 = (found, old', s')"
      using "1.prems"(1) by (simp add: find_free_loop.simps [of e sd addr] turn)
    have "kept e s1 s' \<and> (\<forall>i. old' = Some i \<longrightarrow> i < length (g_leases s')) \<and>
     (\<forall>nip. found = Some nip \<longrightarrow> find_lease_by_nip (g_leases s') nip = None)"
      by (rule "1.IH" [OF turn [symmetric] _ refl _ rec]) (use True t in auto)
    then show ?thesis using t kept_trans by blast
  next
    case False
    then have "found = f" "old' = o1" "s' = s1"
      using "1.prems"(1) by (auto simp: find_free_loop.simps [of e sd addr] turn split: option.splits if_splits)
    then show ?thesis using t by simp
  qed
qed

lemma find_free_free:
  assumes "find_free_or_expired_nip e sd s = (nip, s')" and "table_ok (g_leases s)"
  shows "kept e s s' \<and> free_since e s s' nip"
proof -
  obtain f o1 s1 where loop: "find_free_loop e sd (start_ip sd) None s = (f, o1, s1)" by (metis prod_cases3)
  note l = find_free_loop_kept [OF loop]
  show ?thesis
  proof (cases f)
    case (Some n)
    then have "nip = n" "s' = s1" using assms(1) loop by (simp_all add: find_free_or_expired_nip_def)
    then show ?thesis using l Some free_since_none by simp
  next
    case None
    show ?thesis
    proof (cases o1)
      case o1: None
      then have "nip = 0" "s' = s1" using assms(1) loop None by (simp_all add: find_free_or_expired_nip_def)
      then show ?thesis using l by (simp add: free_since_def)
    next
      case (Some i)
      obtain x s2 where x: "is_expired_lease e (g_leases s1 ! i) s1 = (x, s2)" by fastforce
      then have s2: "s2 = tick s1" by (simp add: is_expired_lease_def time_def)
      show ?thesis
      proof (cases x)
        case False
        then have "nip = 0" "s' = s2" using assms(1) loop None Some x by (simp_all add: find_free_or_expired_nip_def)
        then show ?thesis using l kept_trans kept_tick(1) s2 by (auto simp: free_since_def)
      next
        case True
        then have free: "free_since e s s2 (lease_nip (g_leases s1 ! i)) \<and> kept e s s2"
          using free_since_expired [of e s s1 i s2] assms(2) l Some x by simp
        obtain r s3 where r: "nobody_responds_to_arp e sd (lease_nip (g_leases s2 ! i)) s2 = (r, s3)" by fastforce
        have res: "s' = s3" "nip = (if r then lease_nip (g_leases s3 ! i) else 0)"
          using assms(1) loop None Some x True r by (auto simp: find_free_or_expired_nip_def split: if_splits)
        show ?thesis
        proof (cases r)
          case True
          then have s3: "s3 = tick s2" using r by (auto simp: nobody_responds_to_arp_def Let_def split: if_splits)
          moreover have "nip = lease_nip (g_leases s1 ! i)" using res True s3 s2 by (simp add: tick_def)
          ultimately show ?thesis using free free_since_tick kept_trans [OF _ kept_tick(1)] res(1) by simp
        next
          case False
          then have "kept e s s3" using nobody_responds_kept [OF r, of s] free s2 by (simp add: tick_def)
          then show ?thesis using res False by (simp add: free_since_def)
        qed
      qed
    qed
  qed
qed

section \<open>Building replies\<close>

text \<open>What the configuration must be: options in their binary form.\<close>

definition config_ok :: "server_data \<Rightarrow> bool" where
  "config_ok sd \<longleftrightarrow> list_all option_bytes_ok (config_options sd) \<and>
     list_all (\<lambda>st. sl_opt st ! 0 \<noteq> 0 \<longrightarrow> option_bytes_ok (sl_opt st)) (static_leases sd)"

text \<open>A packet under construction: \<open>p'\<close> is \<open>p\<close> with options added.\<close>

definition builds :: "dhcp_packet \<Rightarrow> dhcp_packet option \<Rightarrow> bool" where
  "builds p r \<longleftrightarrow> (\<exists>p' opts. r = Some p' \<and> holds_options p' opts \<and> yiaddr p' = yiaddr p \<and> chaddr p' = chaddr p)"

lemma add_binary_builds:
  assumes "holds_options p opts" and "option_bytes_ok bs"
  shows "builds p (udhcp_add_binary_option p bs)"
proof -
  obtain c d junk where "bs = encode_option (c, d) @ junk" "option_ok (c, d)"
    using option_bytes_encode [OF assms(2)] by blast
  from add_option_list [OF assms(1) this(2,1) refl] show ?thesis by (auto simp: builds_def)
qed

lemma add_simple_builds:
  assumes "holds_options p opts" and "code \<in> {DHCP_MESSAGE_TYPE, DHCP_SERVER_ID, DHCP_LEASE_TIME}"
  shows "builds p (udhcp_add_simple_option p code data)"
proof -
  obtain t where t: "find (\<lambda>dh. snd dh = code) dhcp_optflags = Some (t, code)" "unat (dhcp_option_lengths t) \<le> 4"
    using assms(2) by (auto simp: dhcp_optflags_def option_codes)
  have "option_bytes_ok (code # dhcp_option_lengths t # le_bytes 4 data)"
    using t(2) assms(2) by (auto simp: option_bytes_ok_def option_codes)
  from add_binary_builds [OF assms(1) this] show ?thesis by (simp add: udhcp_add_simple_option_def t(1))
qed

lemma builds_holds: "builds p r \<Longrightarrow> \<exists>p' opts. r = Some p' \<and> holds_options p' opts \<and> yiaddr p' = yiaddr p \<and> chaddr p' = chaddr p"
  by (simp add: builds_def)

lemma init_header_builds: "\<exists>p opts. udhcp_init_header t = Some p \<and> holds_options p opts \<and> yiaddr p = 0"
proof -
  define p where "p = empty_packet\<lparr>op := (if t = DHCPOFFER \<or> t = DHCPACK \<or> t = DHCPNAK then BOOTREPLY else BOOTREQUEST)\<rparr>"
  have "holds_options p []" using empty_packet_options by (simp add: p_def holds_options_def packet_ok_def)
  from add_simple_builds [OF this, of DHCP_MESSAGE_TYPE "ucast t"]
  have "builds p (udhcp_add_simple_option p DHCP_MESSAGE_TYPE (ucast t))" by simp
  moreover have "udhcp_init_header t = udhcp_add_simple_option p DHCP_MESSAGE_TYPE (ucast t)"
    by (simp add: udhcp_init_header_def p_def empty_packet_def)
  moreover have "yiaddr p = 0" by (simp add: p_def empty_packet_def)
  ultimately show ?thesis by (auto simp: builds_def)
qed

lemma init_packet_builds:
  assumes "packet_ok old"
  shows "\<exists>p opts. init_packet sd old t = Some p \<and> holds_options p opts \<and> yiaddr p = 0 \<and> chaddr p = chaddr old"
proof -
  obtain p opts where p: "udhcp_init_header t = Some p" "holds_options p opts" "yiaddr p = 0"
    using init_header_builds by blast
  let ?p = "p\<lparr>xid := xid old, chaddr := chaddr old, flags := flags old, gateway_nip := gateway_nip old, ciaddr := ciaddr old\<rparr>"
  have "holds_options ?p opts" using p(2) assms by (simp add: holds_options_def packet_ok_def)
  from add_simple_builds [OF this, of DHCP_SERVER_ID "server_nip sd"] p show ?thesis
    by (auto simp: init_packet_def builds_def)
qed

lemma add_config_builds:
  "holds_options p opts \<Longrightarrow> list_all option_bytes_ok os \<Longrightarrow> builds p (add_config_options h os p)"
proof (induction h os p arbitrary: opts rule: add_config_options.induct)
  case (1 h p)
  then show ?case by (auto simp: builds_def)
next
  case (2 h o1 os p)
  have "0 < length o1" using "2.prems"(2) by (auto simp: option_bytes_ok_def)
  then have c: "rd o1 0 = Some (o1 ! 0)" by simp
  let ?r = "if o1 ! 0 \<noteq> DHCP_LEASE_TIME \<and> (o1 ! 0 \<noteq> DHCP_HOST_NAME \<or> \<not> h) then udhcp_add_binary_option p o1 else Some p"
  have "builds p ?r" using add_binary_builds [OF "2.prems"(1), of o1] "2.prems" by (auto simp: builds_def)
  then obtain p' opts' where p': "?r = Some p'" "holds_options p' opts'" "yiaddr p' = yiaddr p" "chaddr p' = chaddr p"
    by (auto simp only: builds_def)
  have "builds p' (add_config_options h os p')" using "2.IH" [OF c p'(1,2)] "2.prems"(2) by simp
  then show ?case using c p' by (simp add: builds_def)
qed

lemma strncpy_length: "n \<le> length dst \<Longrightarrow> length (strncpy dst src n) = length dst"
  by (auto simp: strncpy_def min_def split: option.split)

lemma add_server_options_builds:
  assumes "holds_options p opts" and "config_ok sd"
  shows "builds p (add_server_options sd p)"
proof -
  let ?h = "client_hostname_opt sd (yiaddr p)"
  obtain p1 o1 where p1: "add_config_options (?h \<noteq> None) (config_options sd) p = Some p1" "holds_options p1 o1"
      "yiaddr p1 = yiaddr p" "chaddr p1 = chaddr p"
    using builds_holds [OF add_config_builds [OF assms(1), of "config_options sd" "?h \<noteq> None"]] assms(2)
    unfolding config_ok_def by blast
  have "\<And>b. ?h = Some b \<Longrightarrow> option_bytes_ok b" using assms(2)
    by (auto simp: client_hostname_opt_def config_ok_def list_all_iff find_Some_iff split: if_splits option.splits)
  then have "builds p1 (case ?h of Some b \<Rightarrow> udhcp_add_binary_option p1 b | None \<Rightarrow> Some p1)"
    using add_binary_builds [OF p1(2)] p1(2) by (auto simp: builds_def split: option.split)
  then obtain p2 o2 where p2: "(case ?h of Some b \<Rightarrow> udhcp_add_binary_option p1 b | None \<Rightarrow> Some p1) = Some p2"
      "holds_options p2 o2" "yiaddr p2 = yiaddr p1" "chaddr p2 = chaddr p1"
    by (auto simp only: builds_def)
  let ?p = "p2\<lparr>siaddr_nip := next_server_nip sd, sname := strncpy (sname p2) (server_sname sd) (DHCP_PKT_SNAME_LEN - 1),
      pkt_file := strncpy (pkt_file p2) (boot_file sd) (DHCP_PKT_FILE_LEN - 1)\<rparr>"
  have "holds_options ?p o2" using p2(2) by (simp add: holds_options_def packet_ok_def strncpy_length)
  then show ?thesis using p1 p2 by (auto simp: add_server_options_def Let_def builds_def)
qed

lemma option_safe: "packet_ok p \<Longrightarrow> \<exists>r. udhcp_get_option p code = Some r \<and> (\<forall>d. r = Some d \<longrightarrow> d \<noteq> [])"
  using get_option_loop_safe [of p 0 "int sizeof_options" Options_field code 0]
  by (auto simp: udhcp_get_option_def packet_ok_def option_in_def)

lemma option32_safe: "packet_ok p \<Longrightarrow> \<exists>r. udhcp_get_option32 p code = Some r"
  using option_safe [of p code] by (auto simp: udhcp_get_option32_def)

lemma lease_packet_builds:
  assumes "holds_options p opts" and "config_ok sd" and "packet_ok old"
  shows "\<exists>t p'. lease_packet sd old p = Some (t, p') \<and> yiaddr p' = yiaddr p \<and> chaddr p' = chaddr p"
proof -
  obtain t where t: "select_lease_time sd old = Some t"
    using option32_safe [OF assms(3), of DHCP_LEASE_TIME] by (auto simp: select_lease_time_def)
  obtain p1 o1 where p1: "udhcp_add_simple_option p DHCP_LEASE_TIME (htonl t) = Some p1" "holds_options p1 o1"
      "yiaddr p1 = yiaddr p" "chaddr p1 = chaddr p"
    using add_simple_builds [OF assms(1), of DHCP_LEASE_TIME "htonl t"] by (auto simp: builds_def)
  then show ?thesis using add_server_options_builds [OF p1(2) assms(2)] t
    by (auto simp: lease_packet_def builds_def)
qed

section \<open>Handling a packet\<close>

text \<open>An address is given away properly: to its holder, by a static lease, or after it lapsed.\<close>

definition gives :: "env \<Rightarrow> server_data \<Rightarrow> u8 list \<Rightarrow> server \<Rightarrow> server \<Rightarrow> u32 \<Rightarrow> bool" where
  "gives e sd mac s s' nip \<longleftrightarrow> nip = 0 \<or> nip = get_static_nip_by_mac sd mac \<or>
     (\<forall>l\<in>set (g_leases s). lease_nip l = nip \<longrightarrow> lease_mac l = take 6 mac \<or> lapsed e s s' l)"

text \<open>What every handler does: at most one packet is sent, and the table keeps its shape.\<close>

definition handled :: "env \<Rightarrow> server_data \<Rightarrow> u8 list \<Rightarrow> server \<Rightarrow> server \<Rightarrow> bool" where
  "handled e sd mac s s' \<longleftrightarrow> ticks s \<le> ticks s' \<and> length (g_leases s') = length (g_leases s) \<and>
     table_ok (g_leases s') \<and>
     (outbox s' = outbox s \<or> (\<exists>d r. outbox s' = (d, r) # outbox s \<and> gives e sd mac s s' (yiaddr r)))"

lemma handled_quiet: "kept e s s' \<Longrightarrow> table_ok (g_leases s) \<Longrightarrow> handled e sd mac s s'"
  by (auto simp: kept_def handled_def)

lemma handled_same: "table_ok (g_leases s) \<Longrightarrow> handled e sd mac s s"
  by (simp add: handled_def)

lemma gives_mono: "gives e sd mac s s' nip \<Longrightarrow> ticks s' \<le> ticks s'' \<Longrightarrow> gives e sd mac s s'' nip"
  using lapsed_mono [of e s s' _ s s''] by (auto simp: gives_def)

lemma send_packet_frame [simp]:
  "g_leases (send_packet p b s) = g_leases s" "ticks (send_packet p b s) = ticks s"
  "\<exists>d. outbox (send_packet p b s) = (d, p) # outbox s"
  by (simp_all add: send_packet_def Let_def)

lemma write_leases_frame [simp]:
  "g_leases (write_leases e s) = g_leases s" "outbox (write_leases e s) = outbox s" "ticks s \<le> ticks (write_leases e s)"
  by (simp_all add: write_leases_def tick_def Let_def)

lemma find_mac_Some: "find_lease_by_mac ls mac = Some i \<Longrightarrow> i < length ls \<and> lease_mac (ls ! i) = take 6 mac"
  by (auto simp: find_lease_by_mac_def dest: first_index_Some)

text \<open>The lease found for a client is the only one of its address.\<close>

lemma gives_own:
  assumes "find_lease_by_mac (g_leases s) mac = Some i" and "table_ok (g_leases s)"
  shows "gives e sd mac s s' (lease_nip (g_leases s ! i))"
  using assms find_mac_Some [OF assms(1)] unique_eq [of lease_nip 0 "g_leases s" _ "g_leases s ! i"]
  unfolding gives_def table_ok_def by (metis nth_mem)

lemma free_gives: "free_since e s s' nip \<Longrightarrow> gives e sd mac s s' nip"
  by (auto simp: free_since_def gives_def)

lemma offer_address_gives:
  assumes "offer_address e sd (find_lease_by_mac (g_leases s) mac) req s = (nip, s')" and "table_ok (g_leases s)"
  shows "kept e s s' \<and> gives e sd mac s s' nip"
proof (cases "find_lease_by_mac (g_leases s) mac")
  case (Some i)
  then have eq: "nip = lease_nip (g_leases s ! i)" "s' = s" using assms(1) by (auto simp: offer_address_def)
  show ?thesis unfolding eq using gives_own [OF Some assms(2)] by simp
next
  case new: None
  show ?thesis
  proof (cases "req \<noteq> 0 \<and> start_ip sd \<le> ntohl req \<and> ntohl req \<le> end_ip sd")
    case False
    then have "find_free_or_expired_nip e sd s = (nip, s')" using assms(1) new by (auto simp: offer_address_def)
    then show ?thesis using find_free_free assms(2) free_gives by blast
  next
    case in_range: True
    show ?thesis
    proof (cases "find_lease_by_nip (g_leases s) req")
      case None
      then have "nip = req" "s' = s" using assms(1) new in_range by (simp_all add: offer_address_def)
      then show ?thesis using None free_since_none [OF kept_refl] free_gives by simp
    next
      case (Some j)
      obtain x s1 where x: "is_expired_lease e (g_leases s ! j) s = (x, s1)" by fastforce
      then have s1: "s1 = tick s" by (simp add: is_expired_lease_def time_def)
      show ?thesis
      proof (cases x)
        case True
        then have "nip = req" "s' = s1" using assms(1) new in_range Some x by (simp_all add: offer_address_def)
        then show ?thesis
          using free_since_expired [OF kept_refl assms(2), where i = j and v = s1] find_nip_Some [OF Some] x True free_gives by auto
      next
        case False
        then have f: "find_free_or_expired_nip e sd s1 = (nip, s')" using assms(1) new in_range Some x by (simp add: offer_address_def)
        have "g_leases s1 = g_leases s" by (simp add: s1 tick_def)
        then have "kept e s1 s' \<and> free_since e s1 s' nip" using find_free_free [OF f] assms(2) by simp
        moreover have "free_since e s1 s' nip \<Longrightarrow> free_since e s s' nip"
          using lapsed_mono [of e s1 s' _ s s'] by (simp add: free_since_def s1 tick_def)
        ultimately show ?thesis using kept_trans [OF kept_tick(1)] free_gives by (auto simp: s1)
      qed
    qed
  qed
qed

lemma add_lease_client:
  assumes "kept e s s1" and "table_ok (g_leases s)" and "6 \<le> length mac" and "s2 = snd (add_lease e (Some mac) nip t h s1)"
  shows "ticks s \<le> ticks s2 \<and> ticks s1 \<le> ticks s2 \<and> length (g_leases s2) = length (g_leases s) \<and>
    table_ok (g_leases s2) \<and> outbox s2 = outbox s"
  using after_add_ok [OF add_lease_table [of "Some mac" nip s1 e t h]] after_add_length [OF add_lease_table [of "Some mac" nip s1 e t h]]
    assms add_lease_frame(2) [of s1 e "Some mac" nip t h] by (auto simp: kept_def add_lease_frame(1))

lemma send_offer_handled:
  assumes "packet_ok old" and "config_ok sd" and "table_ok (g_leases s)"
    and "static = get_static_nip_by_mac sd (chaddr old)"
    and "static = 0 \<Longrightarrow> lease = find_lease_by_mac (g_leases s) (chaddr old)"
  shows "\<exists>s'. send_offer e sd old static lease req s = Some s' \<and> handled e sd (chaddr old) s s'"
proof -
  obtain p opts where p: "init_packet sd old DHCPOFFER = Some p" "holds_options p opts" "chaddr p = chaddr old"
    using init_packet_builds [OF assms(1)] by blast
  have "holds_options (p\<lparr>yiaddr := nip\<rparr>) opts" for nip using p(2) by (simp add: holds_options_def packet_ok_def)
  then have reply: "\<exists>t p'. lease_packet sd old (p\<lparr>yiaddr := nip\<rparr>) = Some (t, p') \<and> yiaddr p' = nip" for nip
    using lease_packet_builds [OF _ assms(2,1)] by fastforce
  show ?thesis
  proof (cases "static = 0")
    case False
    obtain t p' where p': "lease_packet sd old (p\<lparr>yiaddr := static\<rparr>) = Some (t, p')" "yiaddr p' = static" using reply by blast
    obtain d where "outbox (send_packet p' False s) = (d, p') # outbox s" using send_packet_frame(3) by blast
    then have "handled e sd (chaddr old) s (send_packet p' False s)"
      using assms(3,4) p'(2) by (auto simp: handled_def gives_def)
    then show ?thesis using p(1) p'(1) False by (simp add: send_offer_def)
  next
    case True
    obtain nip s1 where o: "offer_address e sd lease req s = (nip, s1)" by fastforce
    then have k: "kept e s s1" "gives e sd (chaddr old) s s1 nip"
      using offer_address_gives assms(3) assms(5) [OF True] by blast+
    show ?thesis
    proof (cases "nip = 0")
      case zero: True
      then show ?thesis using p(1) o True handled_quiet [OF k(1) assms(3)] by (simp add: send_offer_def)
    next
      case False
      obtain h where h: "udhcp_get_option old DHCP_HOST_NAME = Some h" using option_safe [OF assms(1)] by blast
      obtain r s2 where a: "add_lease e (Some (chaddr p)) nip (offer_time sd) h s1 = (r, s2)" by fastforce
      then have c: "ticks s \<le> ticks s2 \<and> ticks s1 \<le> ticks s2 \<and> length (g_leases s2) = length (g_leases s) \<and>
          table_ok (g_leases s2) \<and> outbox s2 = outbox s"
        using add_lease_client [OF k(1) assms(3), of "chaddr p" s2 nip "offer_time sd" h] assms(1) p(3)
        by (simp add: packet_ok_def)
      show ?thesis
      proof (cases r)
        case None
        then show ?thesis using p(1) o True False h a c by (simp add: send_offer_def handled_def)
      next
        case (Some i)
        obtain t p' where p': "lease_packet sd old (p\<lparr>yiaddr := nip\<rparr>) = Some (t, p')" "yiaddr p' = nip" using reply by blast
        obtain d where "outbox (send_packet p' False s2) = (d, p') # outbox s2" using send_packet_frame(3) by blast
        then have "handled e sd (chaddr old) s (send_packet p' False s2)"
          using c p'(2) gives_mono [OF k(2), of "send_packet p' False s2"]
          by (auto simp: handled_def)
        then show ?thesis using p(1) o True False h a Some p'(1) by (simp add: send_offer_def)
      qed
    qed
  qed
qed

lemma send_NAK_handled:
  assumes "packet_ok old" and "table_ok (g_leases s)"
  shows "\<exists>s'. send_NAK sd old s = Some s' \<and> handled e sd mac s s'"
proof -
  obtain p where p: "init_packet sd old DHCPNAK = Some p" "yiaddr p = 0" using init_packet_builds [OF assms(1)] by blast
  obtain d where "outbox (send_packet p True s) = (d, p) # outbox s" using send_packet_frame(3) by blast
  then show ?thesis using p assms(2) by (auto simp: send_NAK_def handled_def gives_def)
qed

lemma send_inform_handled:
  assumes "packet_ok old" and "config_ok sd" and "table_ok (g_leases s)"
  shows "\<exists>s'. send_inform sd old s = Some s' \<and> handled e sd mac s s'"
proof -
  obtain p opts where p: "init_packet sd old DHCPACK = Some p" "holds_options p opts" "yiaddr p = 0"
    using init_packet_builds [OF assms(1)] by blast
  obtain p' where p': "add_server_options sd p = Some p'" "yiaddr p' = 0"
    using builds_holds [OF add_server_options_builds [OF p(2) assms(2)]] p(3) by auto
  obtain d where "outbox (send_packet p' False s) = (d, p') # outbox s" using send_packet_frame(3) by blast
  then show ?thesis using p p' assms(3) by (auto simp: send_inform_def handled_def gives_def)
qed

lemma send_ACK_handled:
  assumes "packet_ok old" and "config_ok sd" and "table_ok (g_leases s)" and "\<And>s'. gives e sd (chaddr old) s s' nip"
  shows "\<exists>s'. send_ACK e sd old nip s = Some s' \<and> handled e sd (chaddr old) s s'"
proof -
  obtain p opts where p: "init_packet sd old DHCPACK = Some p" "holds_options p opts" "chaddr p = chaddr old"
    using init_packet_builds [OF assms(1)] by blast
  have "holds_options (p\<lparr>yiaddr := nip\<rparr>) opts" using p(2) by (simp add: holds_options_def packet_ok_def)
  then obtain t p' where p': "lease_packet sd old (p\<lparr>yiaddr := nip\<rparr>) = Some (t, p')" "yiaddr p' = nip" "chaddr p' = chaddr old"
    using lease_packet_builds [OF _ assms(2,1)] p(3) by fastforce
  obtain d where d: "outbox (send_packet p' False s) = (d, p') # outbox s" using send_packet_frame(3) by blast
  obtain h where h: "udhcp_get_option old DHCP_HOST_NAME = Some h" using option_safe [OF assms(1)] by blast
  define s1 where "s1 = send_packet p' False s"
  define s2 where "s2 = snd (add_lease e (Some (chaddr old)) nip t h s1)"
  have c: "ticks s1 \<le> ticks s2 \<and> length (g_leases s2) = length (g_leases s1) \<and> table_ok (g_leases s2) \<and> outbox s2 = outbox s1"
    using add_lease_client [OF kept_refl, of s1 "chaddr old" s2 e nip t h] assms(1,3) by (simp add: packet_ok_def s2_def s1_def)
  then have "handled e sd (chaddr old) s (write_leases e s2)"
    using d p'(2) assms(4) write_leases_frame(3) [of s2 e] by (auto simp: handled_def s1_def intro: le_trans)
  moreover have "send_ACK e sd old nip s = Some (write_leases e s2)"
    using p(1) p' h by (simp add: send_ACK_def s2_def s1_def case_prod_unfold Let_def)
  ultimately show ?thesis by blast
qed

text \<open>Declining and releasing change no address, and a client's address only to none.\<close>

lemma update_ptr_handled:
  assumes "table_ok (g_leases s)" and "\<And>i. ptr = Table i \<Longrightarrow> i < length (g_leases s)"
    and "\<And>now l. lease_nip (f now l) = lease_nip l \<and> hostname (f now l) = hostname l \<and>
      (lease_mac (f now l) = lease_mac l \<or> lease_mac (f now l) = zero_mac)"
  shows "handled e sd mac s (update_ptr e ptr f s)"
proof (cases ptr)
  case Fake_lease
  then show ?thesis using assms(1) by (simp add: update_ptr_def time_def tick_def handled_def)
next
  case (Table i)
  define l where "l = f (ucast (clock e (ticks s))) (g_leases s ! i)"
  have eq: "update_ptr e ptr f s = (tick s)\<lparr>g_leases := (g_leases s)[i := l]\<rparr>"
    by (simp add: update_ptr_def Table time_def tick_def l_def)
  have i: "i < length (g_leases s)" using assms(2) Table by simp
  have l: "lease_nip l = lease_nip (g_leases s ! i)" "hostname l = hostname (g_leases s ! i)"
    "lease_mac l = lease_mac (g_leases s ! i) \<or> lease_mac l = zero_mac" using assms(3) by (auto simp: l_def)
  have "lease_ok (g_leases s ! i)" using assms(1) i by (simp add: table_ok_def list_all_length)
  then have "lease_ok l" using l by (auto simp: lease_ok_def zero_mac_def)
  then have "list_all lease_ok ((g_leases s)[i := l])" using assms(1)
    by (auto simp: table_ok_def list_all_iff dest: set_update_subset_insert [THEN subsetD])
  moreover have "unique lease_nip 0 ((g_leases s)[i := l])" 
    using assms(1) l(1) unique_update_same [of lease_nip 0 "g_leases s" l i] by (simp add: table_ok_def)
  moreover have "unique lease_mac zero_mac ((g_leases s)[i := l])"
    using assms(1) l(3) unique_update_same [of lease_mac zero_mac "g_leases s" l i] unique_update [of lease_mac zero_mac "g_leases s" l i]
    by (auto simp: table_ok_def)
  ultimately show ?thesis by (simp add: eq handled_def table_ok_def tick_def)
qed

lemma dhcpd_message_handled:
  assumes "packet_ok p" and "config_ok sd" and ok: "table_ok (g_leases s)"
    and static: "static = get_static_nip_by_mac sd (chaddr p)"
    and lease: "lease = (if static \<noteq> 0 then Some Fake_lease else map_option Table (find_lease_by_mac (g_leases s) (chaddr p)))"
  shows "\<exists>s'. dhcpd_message e sd p message sid rip static lease s = Some s' \<and> handled e sd (chaddr p) s s'"
proof -
  have index: "\<And>i. lease = Some (Table i) \<Longrightarrow> i < length (g_leases s)"
    using lease find_mac_Some by (auto split: if_splits)
  have own: "gives e sd (chaddr p) s s' (ptr_nip static s (the lease))" if found: "lease \<noteq> None" for s'
  proof (cases "static = 0")
    case True
    then obtain i where "find_lease_by_mac (g_leases s) (chaddr p) = Some i"
      using found lease by (cases "find_lease_by_mac (g_leases s) (chaddr p)") auto
    then show ?thesis using gives_own [OF _ ok] lease True by simp
  next
    case False
    then show ?thesis using lease static by (simp add: gives_def)
  qed
  have upd: "handled e sd (chaddr p) s (update_ptr e (the lease) f s)"
    if "lease \<noteq> None" "\<And>now l. lease_nip (f now l) = lease_nip l \<and> hostname (f now l) = hostname l \<and>
      (lease_mac (f now l) = lease_mac l \<or> lease_mac (f now l) = zero_mac)" for f
    using update_ptr_handled [OF ok _ that(2), of "the lease"] index that(1) by auto
  have table: "static = 0 \<Longrightarrow> table_index lease = find_lease_by_mac (g_leases s) (chaddr p)"
    using lease by (cases "find_lease_by_mac (g_leases s) (chaddr p)") simp_all
  have request: "\<exists>s'. dhcpd_request e sd p sid rip static lease s = Some s' \<and> handled e sd (chaddr p) s s'"
    using send_ACK_handled [OF assms(1-3) own] send_NAK_handled [OF assms(1) ok] handled_same [OF ok]
    by (simp add: dhcpd_request_def Let_def)
  show ?thesis
    using send_offer_handled [OF assms(1-3) static table] request send_inform_handled [OF assms(1-3)] handled_same [OF ok]
      upd [of "\<lambda>now l. l\<lparr>lease_mac := zero_mac, expires := now + decline_time sd\<rparr>"] upd [of "\<lambda>now l. l\<lparr>expires := now\<rparr>"]
    by (auto simp: dhcpd_message_def Let_def)
qed

lemma dhcpd_packet_handled:
  assumes "packet_ok p" and "config_ok sd" and ok: "table_ok (g_leases s)"
  shows "\<exists>s'. dhcpd_packet e sd p s = Some s' \<and> handled e sd (chaddr p) s s'"
proof -
  obtain st where st: "udhcp_get_option p DHCP_MESSAGE_TYPE = Some st" "\<And>d. st = Some d \<Longrightarrow> d \<noteq> []"
    using option_safe [OF assms(1)] by blast
  obtain sid where sid: "udhcp_get_option32 p DHCP_SERVER_ID = Some sid" using option32_safe [OF assms(1)] by blast
  obtain rip where rip: "udhcp_get_option32 p DHCP_REQUESTED_IP = Some rip" using option32_safe [OF assms(1)] by blast
  note message = dhcpd_message_handled [OF assms refl refl]
  show ?thesis
  proof (cases st)
    case None
    then show ?thesis using st(1) handled_same [OF ok] by (simp add: dhcpd_packet_def)
  next
    case (Some d)
    then have "rd d 0 = Some (d ! 0)" using st(2) by simp
    then show ?thesis using st(1) sid rip Some handled_same [OF ok] message [of e "d ! 0" "sid \<noteq> None" rip]
      by (auto simp: dhcpd_packet_def Let_def)
  qed
qed

section \<open>Runs\<close>

lemma read_leases_loop_ok:
  "table_ok (g_leases s) \<Longrightarrow> list_all (\<lambda>l. length (lease_mac l) = 6) ls \<Longrightarrow> table_ok (g_leases (read_leases_loop e sd passed ls s))"
proof (induction e sd passed ls s rule: read_leases_loop.induct)
  case (2 e sd passed l ls s)
  have add: "table_ok (g_leases (snd (add_lease e (Some (lease_mac l)) (lease_nip l) t h s)))" for t h
    by (rule after_add_ok [OF add_lease_table "2.prems"(1)]) (use "2.prems"(2) in auto)
  show ?case using "2" add
    by (auto simp: Let_def split: option.split prod.split) (metis snd_conv)+
qed simp

lemma unique_replicate: "unique f (f x) (replicate n x)"
  by (induction n) (simp_all add: unique_Cons unique_def)

lemma empty_table_ok: "table_ok (replicate n empty_lease)"
  using unique_replicate [of lease_nip empty_lease n] unique_replicate [of lease_mac empty_lease n]
  by (simp add: table_ok_def list_all_iff empty_lease_ok)

lemma dhcpd_start_ok: "file_ok contents \<Longrightarrow> table_ok (g_leases (dhcpd_start e sd contents))"
  by (auto simp: dhcpd_start_def read_leases_def file_ok_def Let_def tick_def empty_table_ok
      intro!: read_leases_loop_ok split: option.split)

lemma dhcpd_run_ok: "dhcpd_run e sd s \<Longrightarrow> config_ok sd \<Longrightarrow> table_ok (g_leases s)"
proof (induction rule: dhcpd_run.induct)
  case (received s p s')
  then show ?case using dhcpd_packet_handled [of p sd s e] by (auto simp: handled_def)
qed (simp_all add: dhcpd_start_ok)

text \<open>C12: Whatever packets arrive in whatever order, whatever the clock and the network answer and
  whatever a lease file holds, the table never has two leases of one address or two of one client, and
  every stored host name ends within its field and is made of letters, digits, \<open>-\<close>, \<open>_\<close> and \<open>.\<close>
  with no \<open>-\<close> in front.\<close>

theorem dhcpd_leases_unique:
  assumes "dhcpd_run e sd s" and "config_ok sd"
  shows "list_all lease_ok (g_leases s) \<and> unique lease_nip 0 (g_leases s) \<and> unique lease_mac zero_mac (g_leases s)"
  using dhcpd_run_ok [OF assms] by (simp add: table_ok_def)

definition sample_env :: env where
  "sample_env = \<lparr>clock = (\<lambda>n. 1000 + of_nat n), arpping = (\<lambda>n nip. True), opens = (\<lambda>n. True)\<rparr>"

definition sample_config :: server_data where
  "sample_config = \<lparr>server_nip = htonl 0x0a000001, config_options = [[1, 4, 255, 255, 255, 0]], start_ip = 0x0a000010,
     end_ip = 0x0a000020, max_lease_sec = 3600, min_lease_sec = 60, max_leases = 2, decline_time = 3600,
     conflict_time = 3600, offer_time = 60, next_server_nip = 0, server_sname = None, boot_file = None,
     static_leases = [\<lparr>sl_nip = htonl 0x0a000011, sl_mac = [9, 9, 9, 9, 9, 9], sl_opt = [0]\<rparr>]\<rparr>"

lemma sample_config_ok: "config_ok sample_config"
  by (simp add: config_ok_def sample_config_def option_bytes_ok_def option_codes)

theorem dhcpd_leases_unique_witness:
  "unique lease_nip 0 (g_leases (dhcpd_start sample_env sample_config None))"
  using dhcpd_leases_unique [OF dhcpd_run.started [of None] sample_config_ok, of sample_env] by (simp add: file_ok_def)

text \<open>In every state of a run the server handles every packet without an access outside its
  arrays or the packet's, and sends at most one packet for it.\<close>

theorem dhcpd_answers_every_packet:
  assumes "dhcpd_run e sd s" and "config_ok sd" and "packet_ok p"
  shows "\<exists>s'. dhcpd_packet e sd p s = Some s' \<and> (outbox s' = outbox s \<or> (\<exists>d r. outbox s' = (d, r) # outbox s))"
  using dhcpd_packet_handled [OF assms(3,2) dhcpd_run_ok [OF assms(1,2)], of e] by (auto simp: handled_def)

theorem dhcpd_answers_every_packet_witness:
  "\<exists>s'. dhcpd_packet sample_env sample_config empty_packet (dhcpd_start sample_env sample_config None) = Some s'"
  using dhcpd_answers_every_packet [OF dhcpd_run.started [of None] sample_config_ok empty_packet_ok, of sample_env]
  by (auto simp: file_ok_def)

text \<open>C9: When an OFFER or an ACK gives an address to a client and the table has a lease of this address, the
  lease is the client's own, or it had run out at a time the server asked the clock while it handled the
  packet, or the address is the one the configuration reserves for the client. The last is an exception the
  code makes: a reserved address is given without a look at the table, and another client can hold a lease
  of it that has not run out.\<close>

theorem dhcpd_no_double_allocation:
  assumes "dhcpd_run e sd s" and "config_ok sd" and "packet_ok p"
    and "dhcpd_packet e sd p s = Some s'" and "outbox s' = (d, r) # outbox s" and "yiaddr r \<noteq> 0"
    and "l \<in> set (g_leases s)" and "lease_nip l = yiaddr r"
  shows "lease_mac l = take 6 (chaddr p) \<or> lapsed e s s' l \<or> yiaddr r = get_static_nip_by_mac sd (chaddr p)"
  using dhcpd_packet_handled [OF assms(3,2) dhcpd_run_ok [OF assms(1,2)], of e] assms(4-8)
  by (auto simp: handled_def gives_def)

text \<open>
  A run: the lease file holds a lease of one client, with no time left; another client asks for the
  address in its DISCOVER.
\<close>

definition sample_contents :: "(u64 \<times> dyn_lease list) option" where
  "sample_contents = Some (1000, [\<lparr>expires = 0, lease_nip = htonl 0x0a000012, lease_mac = [7, 7, 7, 7, 7, 7],
     hostname = replicate 20 0\<rparr>])"

definition sample_state :: server where
  "sample_state = dhcpd_start sample_env sample_config sample_contents"

definition sample_discover :: "u8 \<Rightarrow> dhcp_packet" where
  "sample_discover last_byte = empty_packet\<lparr>chaddr := [1, 2, 3, 4, 5, 6] @ replicate 10 0,
     options := encode_options [(DHCP_MESSAGE_TYPE, [DHCPDISCOVER]), (DHCP_REQUESTED_IP, [10, 0, 0, last_byte])] @
       DHCP_END # replicate 378 0\<rparr>"

lemma sample_run: "dhcpd_run sample_env sample_config sample_state"
  unfolding sample_state_def by (rule dhcpd_run.started) (simp add: file_ok_def sample_contents_def)

lemma sample_discover_ok: "packet_ok (sample_discover last_byte)"
  by (simp add: packet_ok_def sample_discover_def empty_packet_def packet_sizes encode_option_def)

definition after_sample :: server where
  "after_sample = the (dhcpd_packet sample_env sample_config (sample_discover 0x12) sample_state)"

lemma sample_offer:
  "dhcpd_packet sample_env sample_config (sample_discover 0x12) sample_state = Some after_sample"
proof -
  have "dhcpd_packet sample_env sample_config (sample_discover 0x12) sample_state \<noteq> None"
    using dhcpd_packet_handled [OF sample_discover_ok sample_config_ok dhcpd_run_ok [OF sample_run sample_config_ok]]
    by (metis option.distinct(1))
  then show ?thesis by (simp add: after_sample_def)
qed

lemma sample_sent:
  "outbox sample_state = []" "map (\<lambda>(d, r). yiaddr r) (outbox after_sample) = [htonl 0x0a000012]"
  "map lease_nip (g_leases sample_state) = [0, htonl 0x0a000012]"
  by code_simp+

theorem dhcpd_no_double_allocation_witness:
  "lease_mac (g_leases sample_state ! 1) = [1, 2, 3, 4, 5, 6] \<or>
   lapsed sample_env sample_state after_sample (g_leases sample_state ! 1) \<or>
   htonl 0x0a000012 = get_static_nip_by_mac sample_config [1, 2, 3, 4, 5, 6, 0, 0, 0, 0, 0, 0, 0, 0, 0, 0]"
proof -
  obtain d r where out: "outbox after_sample = (d, r) # outbox sample_state" and r: "yiaddr r = htonl 0x0a000012"
    using sample_sent(1,2) by (auto simp: map_eq_Cons_conv)
  have len: "1 < length (g_leases sample_state)" using arg_cong [OF sample_sent(3), of length] by simp
  moreover have "lease_nip (g_leases sample_state ! 1) = htonl 0x0a000012"
    using arg_cong [OF sample_sent(3), of "\<lambda>xs. xs ! 1"] len by simp
  moreover have "yiaddr r \<noteq> 0" unfolding r by code_simp
  ultimately have "lease_mac (g_leases sample_state ! 1) = take 6 (chaddr (sample_discover 0x12)) \<or>
      lapsed sample_env sample_state after_sample (g_leases sample_state ! 1) \<or>
      yiaddr r = get_static_nip_by_mac sample_config (chaddr (sample_discover 0x12))"
    using r by (intro dhcpd_no_double_allocation [OF sample_run sample_config_ok sample_discover_ok sample_offer out]) simp_all
  then show ?thesis by (simp add: r sample_discover_def numeral_eq_Suc)
qed

section \<open>Reserved addresses\<close>

lemma oldest_scan_found: "old \<noteq> None \<or> (\<exists>l\<in>set ls. expires l = 0) \<Longrightarrow> oldest_scan ls i bound old \<noteq> None"
  by (induction ls i bound old rule: oldest_scan.induct) auto

lemma add_lease_found:
  assumes "l \<in> set (g_leases s)" and "expires l = 0"
  shows "fst (add_lease e mac nip t h s) \<noteq> None"
proof -
  have free: "expires empty_lease = 0" by (simp add: empty_lease_def)
  have "\<exists>l\<in>set (clear_leases mac nip (g_leases s)). expires l = 0"
    unfolding clear_leases_def set_map bex_simps(7) by (rule bexI [OF _ assms(1)]) (simp add: assms(2) free)
  then show ?thesis
    using oldest_scan_found [of None "clear_leases mac nip (g_leases s)"]
    by (auto simp: add_lease_def Let_def oldest_expired_lease_def time_def tick_def split: option.split)
qed

text \<open>A DISCOVER of a client that the server does not know yet, asking for an address of the
  range that is not leased, gets an offer of exactly this address, even when the configuration
  reserves it for another client as its static lease.\<close>

theorem dhcpd_offers_reserved_address:
  assumes "packet_ok p" and "config_ok sd" and "table_ok (g_leases s)" and "hlen p = 6" and "op p = BOOTREQUEST"
    and "udhcp_get_option p DHCP_MESSAGE_TYPE = Some (Some [DHCPDISCOVER])"
    and "udhcp_get_option32 p DHCP_SERVER_ID = Some None" and "udhcp_get_option32 p DHCP_REQUESTED_IP = Some (Some d)"
    and "get_static_nip_by_mac sd (chaddr p) = 0" and "find_lease_by_mac (g_leases s) (chaddr p) = None"
    and "word_of_le d \<noteq> (0 :: u32)" and "start_ip sd \<le> ntohl (word_of_le d)" and "ntohl (word_of_le d) \<le> end_ip sd"
    and "find_lease_by_nip (g_leases s) (word_of_le d) = None" and "l \<in> set (g_leases s)" and "expires l = 0"
    and "is_nip_reserved_as_static sd (word_of_le d)"
  shows "\<exists>s' to r. dhcpd_packet e sd p s = Some s' \<and> outbox s' = (to, r) # outbox s \<and> yiaddr r = word_of_le d"
proof -
  let ?nip = "word_of_le d :: u32"
  have "dhcpd_packet e sd p s = send_offer e sd p 0 None ?nip s"
    using assms(4-10) by (simp add: dhcpd_packet_def dhcpd_message_def message_types)
  moreover have "offer_address e sd None ?nip s = (?nip, s)" using assms(11-14) by (simp add: offer_address_def)
  moreover obtain q opts where q: "init_packet sd p DHCPOFFER = Some q" "holds_options q opts"
    using init_packet_builds [OF assms(1)] by blast
  moreover obtain h where h: "udhcp_get_option p DHCP_HOST_NAME = Some h" using option_safe [OF assms(1)] by blast
  moreover obtain i s1 where a: "add_lease e (Some (chaddr q)) ?nip (offer_time sd) h s = (Some i, s1)"
    using add_lease_found [OF assms(15,16), of e "Some (chaddr q)" ?nip "offer_time sd" h]
    by (cases "add_lease e (Some (chaddr q)) ?nip (offer_time sd) h s") auto
  moreover have "outbox s1 = outbox s" using add_lease_frame(1) [of e "Some (chaddr q)" ?nip "offer_time sd" h s] a by simp
  moreover have "holds_options (q\<lparr>yiaddr := ?nip\<rparr>) opts" using q(2) by (simp add: holds_options_def packet_ok_def)
  then obtain t r where "lease_packet sd p (q\<lparr>yiaddr := ?nip\<rparr>) = Some (t, r)" "yiaddr r = ?nip"
    using lease_packet_builds [OF _ assms(2,1)] by fastforce
  ultimately show ?thesis using assms(11) send_packet_frame(3) [of r False s1] by (auto simp: send_offer_def)
qed

theorem dhcpd_offers_reserved_address_witness:
  "\<exists>s' to r. dhcpd_packet sample_env sample_config (sample_discover 0x11) sample_state = Some s' \<and>
     outbox s' = (to, r) # outbox sample_state \<and> yiaddr r = htonl 0x0a000011"
proof -
  have mac: "find_lease_by_mac (g_leases sample_state) (chaddr (sample_discover 0x11)) = None" by code_simp
  have nip: "find_lease_by_nip (g_leases sample_state) (word_of_le [10, 0, 0, 0x11]) = None" by code_simp
  have opts: "udhcp_get_option (sample_discover 0x11) DHCP_MESSAGE_TYPE = Some (Some [DHCPDISCOVER])"
    "udhcp_get_option32 (sample_discover 0x11) DHCP_SERVER_ID = Some None"
    "udhcp_get_option32 (sample_discover 0x11) DHCP_REQUESTED_IP = Some (Some [10, 0, 0, 0x11])" by code_simp+
  have cfg: "get_static_nip_by_mac sample_config (chaddr (sample_discover 0x11)) = 0"
    "is_nip_reserved_as_static sample_config (word_of_le [10, 0, 0, 0x11])"
    "start_ip sample_config \<le> ntohl (word_of_le [10, 0, 0, 0x11]) \<and> ntohl (word_of_le [10, 0, 0, 0x11]) \<le> end_ip sample_config"
    "word_of_le [10, 0, 0, 0x11] = htonl 0x0a000011" "htonl 0x0a000011 \<noteq> 0" by code_simp+
  have "expires (g_leases sample_state ! 0) = 0 \<and> 0 < length (g_leases sample_state)" by code_simp
  then obtain l where l: "l \<in> set (g_leases sample_state)" "expires l = 0" using nth_mem by blast
  from dhcpd_offers_reserved_address [OF sample_discover_ok sample_config_ok dhcpd_run_ok [OF sample_run sample_config_ok]
      _ _ opts cfg(1) mac _ _ _ nip l cfg(2)] cfg(3-5)
  show ?thesis by (simp add: sample_discover_def empty_packet_def)
qed

end
