(* ===== verification/DhcpClientPackets.thy ===== *)
theory DhcpClientPackets
  imports DhcpClientProofs DhcpProofs
begin

text \<open>
  The packets that the client builds, and that it gives up an address that no server renews: every step
  of a build leaves a packet whose options are a list that ends within a standard packet.
\<close>

section \<open>Packets under construction\<close>

definition has :: "dhcp_packet \<Rightarrow> (u8 \<times> u8 list) list \<Rightarrow> bool" where
  "has p opts \<longleftrightarrow> holds_options p opts \<and> length (encode_options opts) + 1 < DHCP_OPTIONS_BUFSIZE"

lemma has_cong:
  "has p opts \<Longrightarrow> options q = options p \<Longrightarrow> length (chaddr q) = 16 \<Longrightarrow> sname q = sname p \<Longrightarrow> pkt_file q = pkt_file p \<Longrightarrow> has q opts"
  by (simp add: has_def holds_options_def packet_ok_def)

lemma add_binary_has:
  assumes "has p opts" and "option_bytes_ok bs"
  shows "\<exists>os more. udhcp_add_binary_option p bs = Some (p\<lparr>options := os\<rparr>) \<and> has (p\<lparr>options := os\<rparr>) (opts @ more)"
proof -
  obtain c d junk where bs: "bs = encode_option (c, d) @ junk" and ok: "option_ok (c, d)"
    using option_bytes_encode [OF assms(2)] by blast
  let ?more = "if length (encode_options opts) + length d + 3 \<ge> DHCP_OPTIONS_BUFSIZE then [] else [(c, d)]"
  have "holds_options p opts" using assms(1) by (simp add: has_def)
  from add_option_list [OF this ok bs refl]
  obtain os where os: "udhcp_add_binary_option p bs = Some (p\<lparr>options := os\<rparr>)" "holds_options (p\<lparr>options := os\<rparr>) (opts @ ?more)"
    by (auto split: if_splits)
  moreover have "length (encode_options (opts @ ?more)) + 1 < DHCP_OPTIONS_BUFSIZE" using assms(1) by (auto simp: has_def)
  ultimately show ?thesis by (auto simp: has_def intro!: exI [of _ os] exI [of _ ?more])
qed

lemma add_binary_exact:
  assumes "has p opts" and "option_ok (c, d)" and "length (encode_options opts) + length d + 3 < DHCP_OPTIONS_BUFSIZE"
  shows "\<exists>os. udhcp_add_binary_option p (encode_option (c, d)) = Some (p\<lparr>options := os\<rparr>) \<and> has (p\<lparr>options := os\<rparr>) (opts @ [(c, d)])"
proof -
  have "holds_options p opts" using assms(1) by (simp add: has_def)
  from add_option_list [OF this assms(2), of "encode_option (c, d)" "[]" "opts @ [(c, d)]"] assms(3)
  show ?thesis by (auto simp: has_def)
qed

lemma add_optional_has:
  assumes "has p opts" and "\<And>bs. o1 = Some bs \<Longrightarrow> option_bytes_ok bs"
  shows "\<exists>os more. add_optional o1 p = Some (p\<lparr>options := os\<rparr>) \<and> has (p\<lparr>options := os\<rparr>) (opts @ more)"
proof (cases o1)
  case None
  then show ?thesis using assms(1) by (intro exI [of _ "options p"] exI [of _ "[]"]) (simp add: add_optional_def)
qed (use assms add_binary_has in \<open>simp add: add_optional_def\<close>)

lemma add_options_has:
  "has p opts \<Longrightarrow> list_all option_bytes_ok bss \<Longrightarrow>
   \<exists>os more. add_options bss p = Some (p\<lparr>options := os\<rparr>) \<and> has (p\<lparr>options := os\<rparr>) (opts @ more)"
proof (induction bss p arbitrary: opts rule: add_options.induct)
  case (1 p)
  then show ?case by (intro exI [of _ "options p"] exI [of _ "[]"]) simp
next
  case (2 bs bss p)
  have ok: "option_bytes_ok bs" "list_all option_bytes_ok bss" using "2.prems"(2) by simp_all
  obtain os more where a: "udhcp_add_binary_option p bs = Some (p\<lparr>options := os\<rparr>)" "has (p\<lparr>options := os\<rparr>) (opts @ more)"
    using add_binary_has [OF "2.prems"(1) ok(1)] by blast
  obtain os' more' where "add_options bss (p\<lparr>options := os\<rparr>) = Some (p\<lparr>options := os\<rparr>\<lparr>options := os'\<rparr>)"
    "has (p\<lparr>options := os\<rparr>\<lparr>options := os'\<rparr>) ((opts @ more) @ more')"
    using "2.IH" [OF a ok(2)] by blast
  then show ?case using a(1) by (intro exI [of _ os'] exI [of _ "more @ more'"]) simp
qed

text \<open>The simple options of client and server, with the number of bytes of their data.\<close>

definition simple_codes :: "(u8 \<times> nat) list" where
  "simple_codes = [(DHCP_MESSAGE_TYPE, 1), (DHCP_SERVER_ID, 4), (DHCP_LEASE_TIME, 4), (DHCP_REQUESTED_IP, 4), (DHCP_MAX_SIZE, 2)]"

lemma add_simple_has:
  assumes "has p opts" and "(code, n) \<in> set simple_codes" and "length (encode_options opts) + n + 3 < DHCP_OPTIONS_BUFSIZE"
  shows "\<exists>os. udhcp_add_simple_option p code data = Some (p\<lparr>options := os\<rparr>) \<and>
    has (p\<lparr>options := os\<rparr>) (opts @ [(code, take n (le_bytes 4 data))])"
proof -
  obtain t where t: "find (\<lambda>dh. snd dh = code) dhcp_optflags = Some (t, code)" "dhcp_option_lengths t = of_nat n"
    "n \<le> 4" "code \<noteq> DHCP_PADDING" "code \<noteq> DHCP_END"
    using assms(2) by (auto simp: dhcp_optflags_def option_codes DHCP_MAX_SIZE_def simple_codes_def)
  have "holds_options p opts" using assms(1) by (simp add: has_def)
  from add_simple_list [OF this t assms(3)] show ?thesis using assms(3) t(3) by (auto simp: has_def)
qed

lemma init_header_has:
  obtains os where "udhcp_init_header t = Some (empty_packet\<lparr>op := (if t = DHCPOFFER \<or> t = DHCPACK \<or> t = DHCPNAK then BOOTREPLY
      else BOOTREQUEST), options := os\<rparr>)"
    and "has (empty_packet\<lparr>op := (if t = DHCPOFFER \<or> t = DHCPACK \<or> t = DHCPNAK then BOOTREPLY else BOOTREQUEST), options := os\<rparr>)
      [(DHCP_MESSAGE_TYPE, [t])]"
proof -
  define p where "p = empty_packet\<lparr>op := (if t = DHCPOFFER \<or> t = DHCPACK \<or> t = DHCPNAK then BOOTREPLY else BOOTREQUEST)\<rparr>"
  have "has p []" using empty_packet_options by (simp add: p_def has_def holds_options_def packet_ok_def packet_sizes)
  from add_simple_has [OF this, of DHCP_MESSAGE_TYPE 1 "ucast t"]
  obtain os where os: "udhcp_add_simple_option p DHCP_MESSAGE_TYPE (ucast t) = Some (p\<lparr>options := os\<rparr>)"
    "has (p\<lparr>options := os\<rparr>) [(DHCP_MESSAGE_TYPE, take 1 (le_bytes 4 (ucast t :: u32)))]"
    by (auto simp: simple_codes_def packet_sizes)
  have "ucast (ucast t :: u32) = t" by (rule bit_word_eqI) (simp add: bit_simps)
  then have "take 1 (le_bytes 4 (ucast t :: u32)) = [t]" by (simp add: le_bytes_def upt_rec)
  moreover have "udhcp_init_header t = udhcp_add_simple_option p DHCP_MESSAGE_TYPE (ucast t)"
    by (simp add: udhcp_init_header_def p_def empty_packet_def)
  ultimately show ?thesis using os by (intro that [of os]) (simp_all add: p_def)
qed

section \<open>The packets of the client\<close>

definition client_config_ok :: "client_config \<Rightarrow> bool" where
  "client_config_ok cfg \<longleftrightarrow> length (opt_mask cfg) = 32 \<and>
     (\<forall>bs\<in>set_option (vendorclass cfg) \<union> set_option (client_hostname cfg) \<union> set_option (fqdn cfg). option_bytes_ok bs) \<and>
     list_all option_bytes_ok (client_options cfg)"

definition client_ok :: "client \<Rightarrow> bool" where
  "client_ok c \<longleftrightarrow> length (client_mac c) = 6 \<and> (clientid c = None \<or> clientid c = Some (ethernet_client_id (client_mac c)))"

definition id_options :: "client \<Rightarrow> (u8 \<times> u8 list) list" where
  "id_options c = (case clientid c of None \<Rightarrow> [] | Some bs \<Rightarrow> [(DHCP_CLIENT_ID, drop 2 bs)])"

lemma client_init_packet_has:
  assumes "client_ok c" and "t \<notin> {DHCPOFFER, DHCPACK, DHCPNAK}"
  obtains x se os c' where "client_init_packet e t c =
      Some (empty_packet\<lparr>xid := x, secs := se, chaddr := client_mac c @ replicate 10 0, options := os\<rparr>, c')"
    and "has (empty_packet\<lparr>xid := x, secs := se, chaddr := client_mac c @ replicate 10 0, options := os\<rparr>)
      ((DHCP_MESSAGE_TYPE, [t]) # id_options c)"
    and "same_control c c'" "sent c' = sent c"
proof -
  obtain os where h: "udhcp_init_header t = Some (empty_packet\<lparr>options := os\<rparr>)" "has (empty_packet\<lparr>options := os\<rparr>) [(DHCP_MESSAGE_TYPE, [t])]"
    using init_header_has [of t] assms(2) by (auto simp: empty_packet_def)
  obtain se c2 where c2: "client_secs e (ask c) = (se, c2)" "same_control c c2" "sent c2 = sent c"
    by (simp add: client_secs_def ask_def same_control_def Let_def)
  let ?p = "empty_packet\<lparr>xid := random_xid e (asked c), secs := se, chaddr := client_mac c @ replicate 10 0, options := os\<rparr>"
  have mac: "take 6 (client_mac c2) @ drop 6 (chaddr empty_packet) = client_mac c @ replicate 10 0"
    using assms(1) c2(2) by (simp add: client_ok_def empty_packet_def same_control_def)
  have p: "has ?p [(DHCP_MESSAGE_TYPE, [t])]"
    by (rule has_cong [OF h(2)]) (use assms(1) in \<open>simp_all add: client_ok_def\<close>)
  obtain os' where os': "add_optional (clientid c2) ?p = Some (?p\<lparr>options := os'\<rparr>)"
    "has (?p\<lparr>options := os'\<rparr>) ((DHCP_MESSAGE_TYPE, [t]) # id_options c)"
  proof (cases "clientid c")
    case None
    then show ?thesis using that [of os] p c2(2) by (simp add: add_optional_def id_options_def same_control_def)
  next
    case (Some bs)
    then have bs: "bs = encode_option (DHCP_CLIENT_ID, 1 # client_mac c)" "drop 2 bs = 1 # client_mac c"
      using assms(1) by (simp_all add: client_ok_def ethernet_client_id_def encode_option_def)
    have ok: "option_ok (DHCP_CLIENT_ID, 1 # client_mac c)"
      using assms(1) by (simp add: client_ok_def option_ok_def option_codes DHCP_CLIENT_ID_def)
    have room: "length (encode_options [(DHCP_MESSAGE_TYPE, [t])]) + length (1 # client_mac c) + 3 < DHCP_OPTIONS_BUFSIZE"
      using assms(1) by (simp add: client_ok_def packet_sizes)
    from add_binary_exact [OF p ok room] obtain os' where
      "udhcp_add_binary_option ?p bs = Some (?p\<lparr>options := os'\<rparr>)"
      "has (?p\<lparr>options := os'\<rparr>) ([(DHCP_MESSAGE_TYPE, [t])] @ [(DHCP_CLIENT_ID, drop 2 bs)])"
      unfolding bs(1) [symmetric] bs(2) by auto
    then show ?thesis using that Some c2(2) by (simp add: add_optional_def id_options_def same_control_def)
  qed
  have "empty_packet\<lparr>options := os, xid := random_xid e (asked c), secs := se, chaddr := client_mac c @ replicate 10 0\<rparr> = ?p"
    by simp
  then have "add_optional (clientid c2) (empty_packet\<lparr>options := os, xid := random_xid e (asked c), secs := se,
      chaddr := client_mac c @ replicate 10 0\<rparr>) = Some (?p\<lparr>options := os'\<rparr>)" by (simp only: os'(1))
  then have "client_init_packet e t c = Some (?p\<lparr>options := os'\<rparr>, c2)"
    using mac unfolding client_init_packet_def h(1) by (simp add: c2(1))
  then show ?thesis using os'(2) c2 by (intro that [where x = "random_xid e (asked c)" and se = se and os = os' and c' = c2]) simp_all
qed

lemma param_req_length: "length (param_req_codes m) \<le> 254"
  unfolding param_req_codes_def by (rule order_trans [OF length_filter_le]) simp

lemma add_param_req_has:
  assumes "has p opts" and "length (encode_options opts) \<le> 40"
  shows "\<exists>os more. add_param_req m p = Some (p\<lparr>options := os\<rparr>) \<and> has (p\<lparr>options := os\<rparr>) (opts @ more)"
proof (cases "param_req_codes m = []")
  case True
  obtain rest where "options p = encode_options opts @ DHCP_END # rest" "list_all option_ok opts"
    using assms(1) by (auto simp: has_def holds_options_def)
  then have "udhcp_end_option (options p) 0 = Some (length (encode_options opts))"
    using end_option_encode [of opts "[]" rest] by simp
  then show ?thesis using True assms(1) by (intro exI [of _ "options p"] exI [of _ "[]"]) (simp add: add_param_req_def)
next
  case False
  let ?codes = "param_req_codes m" and ?e = "length (encode_options opts)"
  obtain rest where r: "options p = encode_options opts @ DHCP_END # rest" "list_all option_ok opts" "packet_ok p"
    using assms(1) by (auto simp: has_def holds_options_def)
  have e: "udhcp_end_option (options p) 0 = Some ?e" using end_option_encode [OF r(2), of "[]" rest] r(1) by simp
  have room: "?e + length ?codes + 3 \<le> length (options p)"
    using param_req_length [of m] assms(2) r(3) by (simp add: packet_ok_def packet_sizes)
  let ?os = "encode_options opts @ (DHCP_PARAM_REQ # of_nat (length ?codes) # ?codes @ [DHCP_END]) @ drop (?e + length ?codes + 3) (options p)"
  have "wr_n (options p) ?e (DHCP_PARAM_REQ # of_nat (length ?codes) # ?codes @ [DHCP_END]) = Some ?os"
    using room r(1) by (simp add: wr_n_def add.commute)
  then have "add_param_req m p = Some (p\<lparr>options := ?os\<rparr>)" using False by (simp add: add_param_req_def e Let_def)
  moreover have "has (p\<lparr>options := ?os\<rparr>) (opts @ [(DHCP_PARAM_REQ, ?codes)])"
    using r room assms(2) param_req_length [of m]
    by (simp add: has_def holds_options_def packet_ok_def encode_option_def option_ok_def DHCP_PARAM_REQ_def option_codes packet_sizes)
  ultimately show ?thesis by blast
qed

lemma add_client_options_has:
  assumes "has p opts" and "length (encode_options opts) \<le> 36" and "client_config_ok cfg"
  shows "\<exists>os fl more. add_client_options cfg p = Some (p\<lparr>flags := fl, options := os\<rparr>) \<and>
    has (p\<lparr>flags := fl, options := os\<rparr>) (opts @ more)"
proof -
  let ?size = "ucast (htons (of_nat IP_UDP_DHCP_SIZE)) :: u32"
  obtain o1 where p1: "udhcp_add_simple_option p DHCP_MAX_SIZE ?size = Some (p\<lparr>options := o1\<rparr>)"
    "has (p\<lparr>options := o1\<rparr>) (opts @ [(DHCP_MAX_SIZE, take 2 (le_bytes 4 ?size))])"
    using add_simple_has [OF assms(1), of DHCP_MAX_SIZE 2 ?size] assms(2) by (auto simp: simple_codes_def packet_sizes)
  have "length (encode_options (opts @ [(DHCP_MAX_SIZE, take 2 (le_bytes 4 ?size))])) \<le> 40" using assms(2) by simp
  from add_param_req_has [OF p1(2) this, of "opt_mask cfg"] obtain o2 m2 where
    p2: "add_param_req (opt_mask cfg) (p\<lparr>options := o1\<rparr>) = Some (p\<lparr>options := o2\<rparr>)" "has (p\<lparr>options := o2\<rparr>) (opts @ m2)" by auto
  have vendor: "\<And>bs. vendorclass cfg = Some bs \<Longrightarrow> option_bytes_ok bs" "\<And>bs. client_hostname cfg = Some bs \<Longrightarrow> option_bytes_ok bs"
    "\<And>bs. fqdn cfg = Some bs \<Longrightarrow> option_bytes_ok bs" using assms(3) by (auto simp: client_config_ok_def)
  obtain o3 m3 where p3: "add_optional (vendorclass cfg) (p\<lparr>options := o2\<rparr>) = Some (p\<lparr>options := o3\<rparr>)" "has (p\<lparr>options := o3\<rparr>) (opts @ m3)"
    using add_optional_has [OF p2(2), of "vendorclass cfg"] vendor(1) by auto
  obtain o4 m4 where p4: "add_optional (client_hostname cfg) (p\<lparr>options := o3\<rparr>) = Some (p\<lparr>options := o4\<rparr>)" "has (p\<lparr>options := o4\<rparr>) (opts @ m4)"
    using add_optional_has [OF p3(2), of "client_hostname cfg"] vendor(2) by auto
  obtain o5 m5 where p5: "add_optional (fqdn cfg) (p\<lparr>options := o4\<rparr>) = Some (p\<lparr>options := o5\<rparr>)" "has (p\<lparr>options := o5\<rparr>) (opts @ m5)"
    using add_optional_has [OF p4(2), of "fqdn cfg"] vendor(3) by auto
  define fl where "fl = (if opt_B cfg \<and> ciaddr p = 0 then flags p OR htons BROADCAST_FLAG else flags p)"
  have "length (chaddr p) = 16" using assms(1) by (simp add: has_def holds_options_def packet_ok_def)
  then have "has (p\<lparr>flags := fl, options := o5\<rparr>) (opts @ m5)" using p5(2) by (intro has_cong [OF p5(2)]) simp_all
  moreover have "list_all option_bytes_ok (client_options cfg)" using assms(3) by (simp add: client_config_ok_def)
  ultimately obtain o6 m6 where p6: "add_options (client_options cfg) (p\<lparr>flags := fl, options := o5\<rparr>) = Some (p\<lparr>flags := fl, options := o6\<rparr>)"
      "has (p\<lparr>flags := fl, options := o6\<rparr>) (opts @ m6)"
    using add_options_has [of "p\<lparr>flags := fl, options := o5\<rparr>" "opts @ m5" "client_options cfg"] by auto
  have "(if opt_B cfg \<and> ciaddr p = 0 then p\<lparr>options := o5, flags := flags (p\<lparr>options := o5\<rparr>) OR htons BROADCAST_FLAG\<rparr> else p\<lparr>options := o5\<rparr>) =
      p\<lparr>flags := fl, options := o5\<rparr>" by (simp add: fl_def)
  then have "add_options (client_options cfg) (if opt_B cfg \<and> ciaddr p = 0 then p\<lparr>options := o5, flags := flags (p\<lparr>options := o5\<rparr>) OR htons BROADCAST_FLAG\<rparr>
      else p\<lparr>options := o5\<rparr>) = Some (p\<lparr>flags := fl, options := o6\<rparr>)" by (simp only: p6(1))
  then have "add_client_options cfg p = Some (p\<lparr>flags := fl, options := o6\<rparr>)"
    unfolding add_client_options_def p1(1) by (simp add: p2(1) p3(1) p4(1) p5(1) split del: if_split)
  with p6(2) show ?thesis by blast
qed

text \<open>What every packet of the client has, and how one leaves.\<close>

definition from_client :: "client \<Rightarrow> u32 \<Rightarrow> dhcp_packet \<Rightarrow> bool" where
  "from_client c ci p \<longleftrightarrow> op p = BOOTREQUEST \<and> hlen p = 6 \<and> chaddr p = client_mac c @ replicate 10 0 \<and>
     ciaddr p = ci \<and> gateway_nip p = 0 \<and> cookie p = htonl DHCP_MAGIC"

definition leaves :: "cenv \<Rightarrow> client \<Rightarrow> sent_packet \<Rightarrow> client \<Rightarrow> bool" where
  "leaves e c m c' \<longleftrightarrow> same_control c c' \<and> (sent c' = m # sent c \<or> sent c' = sent c \<and> (\<exists>n. \<not> send_ok e n))"

fun packet_of :: "sent_packet \<Rightarrow> dhcp_packet" where
  "packet_of (Raw_bcast src p) = p"
| "packet_of (Kernel_ucast src dst p) = p"

lemma client_sends_leaves:
  assumes "same_control c d" and "sent d = sent c"
  shows "leaves e c m (snd (client_sends e m d))"
  using assms by (auto simp: leaves_def client_sends_def ask_def Let_def same_control_def)

lemma bcast_or_ucast_leaves:
  assumes "same_control c d" and "sent d = sent c"
  shows "\<exists>m. packet_of m = p \<and> leaves e c m (snd (bcast_or_ucast e p a b d))"
proof (cases "b = 0")
  case True
  then show ?thesis using client_sends_leaves [OF assms, of e "Raw_bcast a p"]
    by (intro exI [of _ "Raw_bcast a p"]) (simp add: bcast_or_ucast_def)
next
  case False
  then show ?thesis using client_sends_leaves [OF assms, of e "Kernel_ucast a b p"]
    by (intro exI [of _ "Kernel_ucast a b p"]) (simp add: bcast_or_ucast_def)
qed

lemma id_options_length: "client_ok c \<Longrightarrow> length (encode_options (id_options c)) \<le> 9"
  by (auto simp: client_ok_def id_options_def ethernet_client_id_def)

text \<open>A packet of type \<open>t\<close> before its other options are added.\<close>

lemma client_packet_started:
  assumes "client_ok c" and "t \<notin> {DHCPOFFER, DHCPACK, DHCPNAK}"
  obtains p d where "client_init_packet e t c = Some (p, d)" and "same_control c d" and "sent d = sent c"
    and "\<And>x ci. from_client c ci (p\<lparr>xid := x, ciaddr := ci\<rparr>) \<and> has (p\<lparr>xid := x, ciaddr := ci\<rparr>) ((DHCP_MESSAGE_TYPE, [t]) # id_options c)"
    and "ciaddr p = 0"
proof -
  obtain x se os d where i: "client_init_packet e t c =
      Some (empty_packet\<lparr>xid := x, secs := se, chaddr := client_mac c @ replicate 10 0, options := os\<rparr>, d)"
    and h: "has (empty_packet\<lparr>xid := x, secs := se, chaddr := client_mac c @ replicate 10 0, options := os\<rparr>)
      ((DHCP_MESSAGE_TYPE, [t]) # id_options c)"
    and d: "same_control c d" "sent d = sent c"
    by (rule client_init_packet_has [OF assms]) (rule that, assumption+)
  define p where "p = empty_packet\<lparr>xid := x, secs := se, chaddr := client_mac c @ replicate 10 0, options := os\<rparr>"
  have "from_client c ci (p\<lparr>xid := y, ciaddr := ci\<rparr>)" for y ci by (simp add: from_client_def p_def empty_packet_def)
  moreover have "has (p\<lparr>xid := y, ciaddr := ci\<rparr>) ((DHCP_MESSAGE_TYPE, [t]) # id_options c)" for y ci
    by (rule has_cong [OF h]) (use assms(1) in \<open>simp_all add: p_def client_ok_def\<close>)
  moreover have "ciaddr p = 0" by (simp add: p_def empty_packet_def)
  ultimately show ?thesis using that [OF i [folded p_def] d] by blast
qed

lemma add_simple_from:
  assumes "has p opts" and "from_client c ci p" and "(code, n) \<in> set simple_codes" and "length (encode_options opts) + n + 3 < DHCP_OPTIONS_BUFSIZE"
  obtains q where "udhcp_add_simple_option p code data = Some q" and "has q (opts @ [(code, take n (le_bytes 4 data))])"
    and "from_client c ci q" and "xid q = xid p"
  using add_simple_has [OF assms(1,3,4), of data] assms(2) that by (auto simp: from_client_def)

lemma add_client_options_from:
  assumes "has p opts" and "from_client c ci p" and "length (encode_options opts) \<le> 36" and "client_config_ok cfg"
  obtains q more where "add_client_options cfg p = Some q" and "has q (opts @ more)" and "from_client c ci q" and "xid q = xid p"
  using add_client_options_has [OF assms(1,3,4)] assms(2) that by (auto simp: from_client_def)

lemma send_discover_leaves:
  assumes "client_ok c" and "client_config_ok cfg"
  obtains p more c' where "send_discover cfg e x r c = Some c'" and "leaves e c (Raw_bcast 0 p) c'"
    and "has p ((DHCP_MESSAGE_TYPE, [DHCPDISCOVER]) # more)" and "from_client c 0 p" and "xid p = x"
proof -
  obtain p d where i: "client_init_packet e DHCPDISCOVER c = Some (p, d)" "same_control c d" "sent d = sent c"
    and f: "\<And>x ci. from_client c ci (p\<lparr>xid := x, ciaddr := ci\<rparr>) \<and> has (p\<lparr>xid := x, ciaddr := ci\<rparr>) ((DHCP_MESSAGE_TYPE, [DHCPDISCOVER]) # id_options c)"
    and c0: "ciaddr p = 0"
    using client_packet_started [OF assms(1), of DHCPDISCOVER] by (auto simp: message_types)
  let ?opts = "(DHCP_MESSAGE_TYPE, [DHCPDISCOVER]) # id_options c"
  have "p\<lparr>xid := x, ciaddr := 0\<rparr> = p\<lparr>xid := x\<rparr>" using c0 by simp
  then have p: "from_client c 0 (p\<lparr>xid := x\<rparr>)" "has (p\<lparr>xid := x\<rparr>) ?opts" using f [of 0 x] by simp_all
  have len: "length (encode_options ?opts) \<le> 12" using id_options_length [OF assms(1)] by simp
  obtain q m where q: "(if r \<noteq> 0 then udhcp_add_simple_option (p\<lparr>xid := x\<rparr>) DHCP_REQUESTED_IP r else Some (p\<lparr>xid := x\<rparr>)) = Some q"
      "has q (?opts @ m)" "from_client c 0 q" "xid q = x" "length (encode_options (?opts @ m)) \<le> 36"
  proof (cases "r = 0")
    case True
    then show ?thesis using that [of "p\<lparr>xid := x\<rparr>" "[]"] p len by simp
  next
    case False
    obtain q where "udhcp_add_simple_option (p\<lparr>xid := x\<rparr>) DHCP_REQUESTED_IP r = Some q"
        "has q (?opts @ [(DHCP_REQUESTED_IP, take 4 (le_bytes 4 r))])" "from_client c 0 q" "xid q = x"
      using add_simple_from [OF p(2,1), of DHCP_REQUESTED_IP 4 r] len by (auto simp: simple_codes_def packet_sizes)
    then show ?thesis using that [of q "[(DHCP_REQUESTED_IP, take 4 (le_bytes 4 r))]"] False len by simp
  qed
  obtain q2 m2 where q2: "add_client_options cfg q = Some q2" "has q2 ((?opts @ m) @ m2)" "from_client c 0 q2" "xid q2 = x"
    using add_client_options_from [OF q(2,3,5) assms(2)] q(4) by auto
  have "send_discover cfg e x r c = Some (snd (client_sends e (Raw_bcast 0 q2) d))"
    using q(1) q2(1) by (simp add: send_discover_def i(1) Let_def split: if_splits)
  then show ?thesis using that [OF _ client_sends_leaves [OF i(2,3)]] q2 by simp
qed

lemma send_select_leaves:
  assumes "client_ok c" and "client_config_ok cfg"
  obtains p more c' where "send_select cfg e x sv r c = Some c'" and "leaves e c (Raw_bcast 0 p) c'"
    and "has p ((DHCP_MESSAGE_TYPE, [DHCPREQUEST]) # id_options c @ [(DHCP_REQUESTED_IP, le_bytes 4 r), (DHCP_SERVER_ID, le_bytes 4 sv)] @ more)"
    and "from_client c 0 p" and "xid p = x"
proof -
  obtain p d where i: "client_init_packet e DHCPREQUEST c = Some (p, d)" "same_control c d" "sent d = sent c"
    and f: "\<And>x ci. from_client c ci (p\<lparr>xid := x, ciaddr := ci\<rparr>) \<and> has (p\<lparr>xid := x, ciaddr := ci\<rparr>) ((DHCP_MESSAGE_TYPE, [DHCPREQUEST]) # id_options c)"
    and c0: "ciaddr p = 0"
    using client_packet_started [OF assms(1), of DHCPREQUEST] by (auto simp: message_types)
  let ?opts = "(DHCP_MESSAGE_TYPE, [DHCPREQUEST]) # id_options c"
  have "p\<lparr>xid := x, ciaddr := 0\<rparr> = p\<lparr>xid := x\<rparr>" using c0 by simp
  then have p: "from_client c 0 (p\<lparr>xid := x\<rparr>)" "has (p\<lparr>xid := x\<rparr>) ?opts" using f [of 0 x] by simp_all
  have len: "length (encode_options ?opts) \<le> 12" using id_options_length [OF assms(1)] by simp
  have full: "take 4 (le_bytes 4 w) = le_bytes 4 (w :: u32)" for w by simp
  obtain q where q: "udhcp_add_simple_option (p\<lparr>xid := x\<rparr>) DHCP_REQUESTED_IP r = Some q"
      "has q (?opts @ [(DHCP_REQUESTED_IP, le_bytes 4 r)])" "from_client c 0 q" "xid q = x"
    using add_simple_from [OF p(2,1), of DHCP_REQUESTED_IP 4 r] len by (auto simp: simple_codes_def packet_sizes full)
  obtain q1 where q1: "udhcp_add_simple_option q DHCP_SERVER_ID sv = Some q1"
      "has q1 ((?opts @ [(DHCP_REQUESTED_IP, le_bytes 4 r)]) @ [(DHCP_SERVER_ID, le_bytes 4 sv)])" "from_client c 0 q1" "xid q1 = x"
    using add_simple_from [OF q(2,3), of DHCP_SERVER_ID 4 sv] q(4) len by (auto simp: simple_codes_def packet_sizes full)
  have "length (encode_options ((?opts @ [(DHCP_REQUESTED_IP, le_bytes 4 r)]) @ [(DHCP_SERVER_ID, le_bytes 4 sv)])) \<le> 36" using len by simp
  from add_client_options_from [OF q1(2,3) this assms(2)] q1(4) obtain q2 m where q2: "add_client_options cfg q1 = Some q2"
      "has q2 (((?opts @ [(DHCP_REQUESTED_IP, le_bytes 4 r)]) @ [(DHCP_SERVER_ID, le_bytes 4 sv)]) @ m)" "from_client c 0 q2" "xid q2 = x"
    by auto
  have "send_select cfg e x sv r c = Some (snd (client_sends e (Raw_bcast 0 q2) d))"
    using q(1) q1(1) q2(1) by (simp add: send_select_def i(1))
  then show ?thesis using that [OF _ client_sends_leaves [OF i(2,3)]] q2 by simp
qed

lemma send_renew_leaves:
  assumes "client_ok c" and "client_config_ok cfg"
  obtains p more m ok c' where "send_renew cfg e x sv ci c = Some (ok, c')" and "packet_of m = p" and "leaves e c m c'"
    and "has p ((DHCP_MESSAGE_TYPE, [DHCPREQUEST]) # more)" and "from_client c ci p" and "xid p = x"
proof -
  obtain p d where i: "client_init_packet e DHCPREQUEST c = Some (p, d)" "same_control c d" "sent d = sent c"
    and f: "\<And>x ci. from_client c ci (p\<lparr>xid := x, ciaddr := ci\<rparr>) \<and> has (p\<lparr>xid := x, ciaddr := ci\<rparr>) ((DHCP_MESSAGE_TYPE, [DHCPREQUEST]) # id_options c)"
    by (rule client_packet_started [OF assms(1), of DHCPREQUEST e]) (simp add: message_types, rule that, assumption+)
  let ?opts = "(DHCP_MESSAGE_TYPE, [DHCPREQUEST]) # id_options c"
  have "length (encode_options ?opts) \<le> 36" using id_options_length [OF assms(1)] by simp
  from add_client_options_from [OF conjunct2 [OF f] conjunct1 [OF f] this assms(2), of ci x]
  obtain q m where q: "add_client_options cfg (p\<lparr>xid := x, ciaddr := ci\<rparr>) = Some q" "has q (?opts @ m)" "from_client c ci q" "xid q = x"
    by auto
  obtain ok d' where b: "bcast_or_ucast e q ci sv d = (ok, d')" by fastforce
  obtain m' where m': "packet_of m' = q" "leaves e c m' d'"
    using bcast_or_ucast_leaves [OF i(2,3), of q e ci sv] b by auto
  have "send_renew cfg e x sv ci c = Some (ok, d')" using q(1) b by (simp add: send_renew_def i(1))
  then show ?thesis by (rule that [OF _ m']) (use q in simp_all)
qed

lemma send_decline_leaves:
  assumes "client_ok c"
  obtains p more c' where "send_decline e sv r c = Some c'" and "leaves e c (Raw_bcast 0 p) c'"
    and "has p ((DHCP_MESSAGE_TYPE, [DHCPDECLINE]) # more)" and "from_client c 0 p"
proof -
  obtain p d where i: "client_init_packet e DHCPDECLINE c = Some (p, d)" "same_control c d" "sent d = sent c"
    and f: "\<And>x ci. from_client c ci (p\<lparr>xid := x, ciaddr := ci\<rparr>) \<and> has (p\<lparr>xid := x, ciaddr := ci\<rparr>) ((DHCP_MESSAGE_TYPE, [DHCPDECLINE]) # id_options c)"
    and c0: "ciaddr p = 0"
    using client_packet_started [OF assms(1), of DHCPDECLINE] by (auto simp: message_types)
  let ?opts = "(DHCP_MESSAGE_TYPE, [DHCPDECLINE]) # id_options c"
  have "p\<lparr>xid := xid p, ciaddr := 0\<rparr> = p" using c0 by simp
  then have p: "from_client c 0 p" "has p ?opts" using f [of 0 "xid p"] by simp_all
  have len: "length (encode_options ?opts) \<le> 12" using id_options_length [OF assms(1)] by simp
  obtain q where q: "udhcp_add_simple_option p DHCP_REQUESTED_IP r = Some q"
      "has q (?opts @ [(DHCP_REQUESTED_IP, take 4 (le_bytes 4 r))])" "from_client c 0 q"
    using add_simple_from [OF p(2,1), of DHCP_REQUESTED_IP 4 r] len by (auto simp: simple_codes_def packet_sizes)
  obtain q1 where q1: "udhcp_add_simple_option q DHCP_SERVER_ID sv = Some q1"
      "has q1 ((?opts @ [(DHCP_REQUESTED_IP, take 4 (le_bytes 4 r))]) @ [(DHCP_SERVER_ID, take 4 (le_bytes 4 sv))])" "from_client c 0 q1"
    using add_simple_from [OF q(2,3), of DHCP_SERVER_ID 4 sv] len by (auto simp: simple_codes_def packet_sizes)
  have "send_decline e sv r c = Some (snd (client_sends e (Raw_bcast 0 q1) d))"
    using q(1) q1(1) by (simp add: send_decline_def i(1))
  then show ?thesis using that [OF _ client_sends_leaves [OF i(2,3)]] q1 by simp
qed

lemma send_release_leaves:
  assumes "client_ok c"
  obtains p more m c' where "send_release e sv ci c = Some c'" and "packet_of m = p" and "leaves e c m c'"
    and "has p ((DHCP_MESSAGE_TYPE, [DHCPRELEASE]) # more)" and "from_client c ci p"
proof -
  obtain p d where i: "client_init_packet e DHCPRELEASE c = Some (p, d)" "same_control c d" "sent d = sent c"
    and f: "\<And>x ci. from_client c ci (p\<lparr>xid := x, ciaddr := ci\<rparr>) \<and> has (p\<lparr>xid := x, ciaddr := ci\<rparr>) ((DHCP_MESSAGE_TYPE, [DHCPRELEASE]) # id_options c)"
    by (rule client_packet_started [OF assms(1), of DHCPRELEASE e]) (simp add: message_types, rule that, assumption+)
  let ?opts = "(DHCP_MESSAGE_TYPE, [DHCPRELEASE]) # id_options c"
  have "p\<lparr>xid := xid p, ciaddr := ci\<rparr> = p\<lparr>ciaddr := ci\<rparr>" by simp
  then have p: "from_client c ci (p\<lparr>ciaddr := ci\<rparr>)" "has (p\<lparr>ciaddr := ci\<rparr>) ?opts" using f [of ci "xid p"] by simp_all
  have len: "length (encode_options ?opts) \<le> 12" using id_options_length [OF assms(1)] by simp
  obtain q where q: "udhcp_add_simple_option (p\<lparr>ciaddr := ci\<rparr>) DHCP_SERVER_ID sv = Some q"
      "has q (?opts @ [(DHCP_SERVER_ID, take 4 (le_bytes 4 sv))])" "from_client c ci q"
    using add_simple_from [OF p(2,1), of DHCP_SERVER_ID 4 sv] len by (auto simp: simple_codes_def packet_sizes)
  obtain m where "packet_of m = q" "leaves e c m (snd (bcast_or_ucast e q ci sv d))"
    using bcast_or_ucast_leaves [OF i(2,3)] by blast
  moreover have "send_release e sv ci c = Some (snd (bcast_or_ucast e q ci sv d))" using q(1) by (simp add: send_release_def i(1))
  ultimately show ?thesis using that q by simp
qed

section \<open>No packet of the client overflows\<close>

definition well_formed :: "dhcp_packet \<Rightarrow> bool" where
  "well_formed p \<longleftrightarrow> op p = BOOTREQUEST \<and> hlen p = 6 \<and> cookie p = htonl DHCP_MAGIC \<and>
     (\<exists>opts. holds_options p opts \<and> length (encode_options opts) < DHCP_OPTIONS_BUFSIZE)"

definition safe :: "client \<Rightarrow> bool" where
  "safe c \<longleftrightarrow> client_ok c \<and> list_all (well_formed \<circ> packet_of) (sent c)"

definition interface_ok :: "cenv \<Rightarrow> bool" where
  "interface_ok e \<longleftrightarrow> (\<forall>n. \<forall>mac\<in>set_option (read_interface e n). length mac = 6)"

lemma safe_cong: "safe c \<Longrightarrow> client_mac d = client_mac c \<Longrightarrow> clientid d = clientid c \<Longrightarrow> sent d = sent c \<Longrightarrow> safe d"
  by (simp add: safe_def client_ok_def)

lemma leaves_safe:
  assumes "leaves e c m c'" and "safe c" and "has (packet_of m) opts" and "from_client c ci (packet_of m)"
  shows "safe c'"
proof -
  have same: "client_mac c' = client_mac c" "clientid c' = clientid c" and sent: "sent c' = m # sent c \<or> sent c' = sent c"
    using assms(1) by (auto simp: leaves_def same_control_def)
  have "well_formed (packet_of m)" using assms(3,4) by (auto simp: well_formed_def from_client_def has_def intro!: exI [of _ opts])
  then show ?thesis using same sent assms(2) by (auto simp: safe_def client_ok_def)
qed

lemma send_safe:
  assumes "safe c" and "client_config_ok cfg"
  shows "\<exists>c'. send_discover cfg e x r c = Some c' \<and> safe c'"
    and "\<exists>c'. send_select cfg e x sv r c = Some c' \<and> safe c'"
    and "\<exists>ok c'. send_renew cfg e x sv r c = Some (ok, c') \<and> safe c'"
    and "\<exists>c'. send_decline e sv r c = Some c' \<and> safe c'"
    and "\<exists>c'. send_release e sv r c = Some c' \<and> safe c'"
proof -
  have ok: "client_ok c" using assms(1) by (simp add: safe_def)
  note leave = leaves_safe [OF _ assms(1)]
  show "\<exists>c'. send_discover cfg e x r c = Some c' \<and> safe c'"
    by (rule send_discover_leaves [OF ok assms(2), of e x r]) (auto intro: leave)
  show "\<exists>c'. send_select cfg e x sv r c = Some c' \<and> safe c'"
    by (rule send_select_leaves [OF ok assms(2), of e x sv r]) (auto intro: leave)
  show "\<exists>ok c'. send_renew cfg e x sv r c = Some (ok, c') \<and> safe c'"
    by (rule send_renew_leaves [OF ok assms(2), of e x sv r]) (auto intro: leave)
  show "\<exists>c'. send_decline e sv r c = Some c' \<and> safe c'"
    by (rule send_decline_leaves [OF ok, of e sv r]) (auto intro: leave)
  show "\<exists>c'. send_release e sv r c = Some c' \<and> safe c'"
    by (rule send_release_leaves [OF ok, of e sv r]) (auto intro: leave)
qed

text \<open>A step that happens, to a safe client.\<close>

fun step_safe :: "client_step option \<Rightarrow> bool" where
  "step_safe None = False"
| "step_safe (Some (Goes c)) = safe c"
| "step_safe (Some (Exits n c)) = safe c"

lemma perform_release_safe:
  assumes "safe c" and "client_config_ok cfg"
  shows "\<exists>c'. perform_release e sv ip c = Some c' \<and> safe c'"
proof -
  obtain d where "(if cl_state c \<in> {BOUND, RENEWING, REBINDING, RENEW_REQUESTED} then send_release e sv ip c else Some c) = Some d" "safe d"
    using send_safe(5) [OF assms, of e sv ip] assms(1) by (cases "cl_state c \<in> {BOUND, RENEWING, REBINDING, RENEW_REQUESTED}") auto
  then show ?thesis using safe_cong [of d] by (auto simp: perform_release_def client_updates)
qed

lemma quits_safe: "safe c \<Longrightarrow> client_config_ok cfg \<Longrightarrow> step_safe (client_quits cfg e c)"
  using perform_release_safe [of c cfg e "server_addr c" "requested_ip c"] by (auto simp: client_quits_def)

lemma leasefail_safe: "safe c \<Longrightarrow> step_safe (Some (leasefail cfg c))"
  by (auto simp: leasefail_def client_updates elim: safe_cong)

lemma rebinding_safe:
  assumes "safe c" and "client_config_ok cfg"
  shows "step_safe (case_REBINDING cfg e c)"
proof -
  let ?c = "change_listen_mode LISTEN_RAW c"
  have c: "safe ?c" using assms(1) by (rule safe_cong) (simp_all add: client_updates)
  show ?thesis
  proof (cases "cl_timeout ?c > 0")
    case True
    obtain ok d where "send_renew cfg e (cl_xid ?c) 0 (requested_ip ?c) ?c = Some (ok, d)" "safe d"
      using send_safe(3) [OF c assms(2)] by blast
    then show ?thesis using True safe_cong [of d] by (simp add: case_REBINDING_def Let_def)
  next
    case False
    then show ?thesis using safe_cong [OF c] by (simp add: case_REBINDING_def client_updates)
  qed
qed

lemma renewing_safe:
  assumes "safe c" and "client_config_ok cfg"
  shows "step_safe (case_RENEW_REQUESTED cfg e c)"
proof -
  have reb: "step_safe (case_REBINDING cfg e (d\<lparr>cl_state := REBINDING\<rparr>))" if "safe d" for d
    by (rule rebinding_safe [OF _ assms(2)]) (rule safe_cong [OF that], simp_all)
  obtain ok d where d: "send_renew cfg e (cl_xid c) (server_addr c) (requested_ip c) c = Some (ok, d)" "safe d"
    using send_safe(3) [OF assms] by blast
  then show ?thesis using reb assms(1) safe_cong [of d] by (simp add: case_RENEW_REQUESTED_def)
qed

lemma active_safe:
  assumes "safe c" and "client_config_ok cfg"
  shows "step_safe (client_active cfg e c)"
proof (cases "cl_state c")
  case INIT_SELECTING
  let ?c = "if packet_num c = 0 then ask (c\<lparr>cl_xid := random_xid e (asked c)\<rparr>) else c"
  have "safe ?c" using assms(1) safe_cong [OF assms(1), of "ask (c\<lparr>cl_xid := random_xid e (asked c)\<rparr>)"] by (simp add: ask_def)
  then obtain d where "send_discover cfg e (cl_xid ?c) (requested_ip ?c) ?c = Some d" "safe d"
    using send_safe(1) [OF _ assms(2)] by blast
  moreover have "requested_ip ?c = requested_ip c" by (simp add: ask_def)
  ultimately show ?thesis using INIT_SELECTING leasefail_safe [OF assms(1)] safe_cong [of d]
    by (simp add: client_active_def Let_def)
next
  case REQUESTING
  obtain d where "send_select cfg e (cl_xid c) (server_addr c) (requested_ip c) c = Some d" "safe d"
    using send_safe(2) [OF assms] by blast
  moreover have "safe ((change_listen_mode LISTEN_RAW c)\<lparr>cl_state := INIT_SELECTING\<rparr>)"
    by (rule safe_cong [OF assms(1)]) (simp_all add: client_updates)
  ultimately show ?thesis using REQUESTING leasefail_safe safe_cong [of d] by (simp add: client_active_def)
next
  case BOUND
  have "safe (change_listen_mode LISTEN_KERNEL (c\<lparr>cl_state := RENEWING, first_secs := 0\<rparr>))"
    by (rule safe_cong [OF assms(1)]) (simp_all add: client_updates)
  then show ?thesis using BOUND renewing_safe [OF _ assms(2)] by (simp add: client_active_def)
next
  case RELEASED
  then show ?thesis using safe_cong [OF assms(1)] by (simp add: client_active_def)
qed (use renewing_safe [OF assms] rebinding_safe [OF assms] in \<open>simp_all add: client_active_def\<close>)

lemma timeout_safe:
  assumes "safe c" and "client_config_ok cfg" and "interface_ok e"
  shows "step_safe (client_timeout cfg e c)"
proof (cases "read_interface e (asked c)")
  case None
  have "safe (ask c)" using assms(1) by (rule safe_cong) (simp_all add: ask_def)
  then show ?thesis using None quits_safe [OF _ assms(2)] by (simp add: client_timeout_def)
next
  case (Some mac)
  let ?c = "(ask c)\<lparr>client_mac := mac, clientid := map_option (\<lambda>_. ethernet_client_id mac) (clientid c), already_waited_sec := 0\<rparr>"
  have "length mac = 6" using assms(3) Some by (auto simp: interface_ok_def dest: spec [of _ "asked c"])
  then have "safe ?c" using assms(1) by (auto simp: safe_def client_ok_def ask_def)
  then show ?thesis using Some active_safe [OF _ assms(2)] by (simp add: client_timeout_def)
qed

lemma perform_renew_safe: "safe c \<Longrightarrow> safe (perform_renew c)"
  by (rule safe_cong, assumption) (simp_all add: perform_renew_def client_updates split: client_state.split)

lemma sigusr1_safe:
  assumes "safe c" and "client_config_ok cfg"
  shows "step_safe (client_sigusr1 cfg e c)"
proof -
  let ?c = "perform_renew (c\<lparr>first_secs := 0, already_waited_sec := 0\<rparr>)"
  have "safe (c\<lparr>first_secs := 0, already_waited_sec := 0\<rparr>)" using assms(1) by (rule safe_cong) simp_all
  then have c: "safe ?c" by (rule perform_renew_safe)
  have "safe (?c\<lparr>cl_timeout := min (cl_timeout ?c) 60\<rparr>)" "safe (?c\<lparr>packet_num := 0, cl_timeout := 0\<rparr>)"
    by (rule safe_cong [OF c], simp_all)+
  then show ?thesis using renewing_safe [OF _ assms(2)] by (simp add: client_sigusr1_def Let_def)
qed

text \<open>Answers.\<close>

lemma offer_safe:
  assumes "safe c" and "packet_ok p"
  shows "step_safe (client_offer p c)"
proof -
  obtain r where "udhcp_get_option32 p DHCP_SERVER_ID = Some r" using option32_safe [OF assms(2)] by blast
  then show ?thesis using safe_cong [OF assms(1)] by (simp add: client_offer_def)
qed

lemma declines_safe:
  assumes "safe c" and "client_config_ok cfg"
  shows "step_safe (client_declines cfg e p c)"
proof -
  obtain d where d: "send_decline e (server_addr c) (yiaddr p) c = Some d" "safe d" using send_safe(4) [OF assms] by blast
  then show ?thesis using safe_cong [OF d(2)] by (simp add: client_declines_def client_updates)
qed

lemma bound_safe:
  assumes "safe c" and "client_config_ok cfg"
  shows "step_safe (client_bound cfg e p n c)"
  using safe_cong [OF assms(1)] by (auto simp: client_bound_def client_updates intro!: quits_safe [OF _ assms(2)])

lemma ack_safe:
  assumes "safe c" and "client_config_ok cfg" and "packet_ok p"
  shows "step_safe (client_ack cfg e p c)"
proof -
  obtain n where n: "lease_seconds p = Some n" using option32_safe [OF assms(3), of DHCP_LEASE_TIME] by (auto simp: lease_seconds_def)
  have "safe (ask c)" using assms(1) by (rule safe_cong) (simp_all add: ask_def)
  then show ?thesis using n assms(1,2) bound_safe declines_safe by (simp add: client_ack_def)
qed

lemma nak_safe:
  assumes "safe c" and "packet_ok p"
  shows "step_safe (client_nak p c)"
proof -
  obtain t where "udhcp_get_option32 p DHCP_SERVER_ID = Some t" using option32_safe [OF assms(2)] by blast
  then obtain t' where t: "(if server_addr c \<noteq> 0 then udhcp_get_option32 p DHCP_SERVER_ID else Some None) = Some t'"
    by (cases "server_addr c = 0") auto
  show ?thesis unfolding client_nak_def t using assms(1) safe_cong [OF assms(1)] by (simp add: client_updates)
qed

lemma packet_safe:
  assumes "safe c" and "client_config_ok cfg" and "packet_ok p"
  shows "step_safe (client_packet cfg e p c)"
proof -
  obtain st where st: "udhcp_get_option p DHCP_MESSAGE_TYPE = Some st" "\<And>d. st = Some d \<Longrightarrow> d \<noteq> []"
    using option_safe [OF assms(3)] by blast
  note answers = offer_safe [OF assms(1,3)] ack_safe [OF assms] nak_safe [OF assms(1,3)]
  show ?thesis
  proof (cases st)
    case None
    then show ?thesis using st(1) assms(1) by (simp add: client_packet_def)
  next
    case (Some d)
    then obtain m where "rd d 0 = Some m" using st(2) by simp
    then show ?thesis using st(1) Some answers assms(1) by (simp add: client_packet_def)
  qed
qed

text \<open>What is received has the size of a packet.\<close>

lemma dhcp_of_bytes_ok: "sizeof_dhcp \<le> length bs \<Longrightarrow> packet_ok (dhcp_of_bytes bs)"
  by (simp add: packet_ok_def dhcp_of_bytes_def field_at_def wire_sizes)

lemma recv_kernel_ok: "udhcp_recv_kernel_packet d = Some p \<Longrightarrow> packet_ok p"
  by (auto simp: udhcp_recv_kernel_packet_def Let_def split: if_splits intro!: dhcp_of_bytes_ok)

lemma recv_raw_ok:
  assumes "udhcp_recv_raw_packet csum junk frame old = Ok (n, p)" and "length junk = sizeof_ip + sizeof_udp + sizeof_dhcp" and "packet_ok old"
  shows "packet_ok p"
proof -
  let ?n = "min (length frame) (sizeof_ip + sizeof_udp + sizeof_dhcp)"
  define buf where "buf = take ?n frame @ drop ?n junk"
  have buf: "length buf = sizeof_ip + sizeof_udp + sizeof_dhcp" using assms(2) by (simp add: buf_def)
  obtain k where "p = dhcp_of_bytes (take k (drop (sizeof_ip + sizeof_udp) buf) @ drop k (dhcp_bytes old))"
    using assms(1) unfolding udhcp_recv_raw_packet_def Let_def buf_def [symmetric]
    by (simp only: outcome.distinct outcome.inject prod.inject simp_thms split: if_split_asm) blast
  moreover have "length (drop (sizeof_ip + sizeof_udp) buf) = sizeof_dhcp" using buf by simp
  then have "length (take k (drop (sizeof_ip + sizeof_udp) buf) @ drop k (dhcp_bytes old)) = sizeof_dhcp"
    using dhcp_bytes_split(3) [OF assms(3)] by (simp add: min_def)
  ultimately show ?thesis using dhcp_of_bytes_ok by simp
qed

lemma receives_ok:
  assumes "client_receives m csum junk old frame = Ok p" and "event_ok (Frame t csum junk old frame)"
  shows "packet_ok p"
  using assms recv_kernel_ok recv_raw_ok
  by (auto simp: client_receives_def split: if_splits option.splits outcome.splits prod.splits)

lemma turn_safe:
  assumes "safe c" and "client_config_ok cfg" and "interface_ok e" and "event_ok ev"
  shows "step_safe (client_turn cfg e ev c) \<or> client_turn cfg e ev c = None \<and> 0 < wait_left c \<and>
    (\<exists>t csum junk old frame. ev = Frame t csum junk old frame \<and> cl_listen c \<noteq> LISTEN_NONE \<and>
      client_receives (cl_listen c) csum junk old frame = Fault)"
proof (cases "wait_left c \<le> 0")
  case True
  then show ?thesis using timeout_safe [OF assms(1-3)] by (simp add: client_turn_def)
next
  case False
  have waited: "safe (c\<lparr>already_waited_sec := already_waited_sec c + t\<rparr>)" for t by (rule safe_cong [OF assms(1)]) simp_all
  show ?thesis
  proof (cases ev)
    case Timeout
    then show ?thesis using False timeout_safe [OF assms(1-3)] by (simp add: client_turn_def)
  next
    case Sigusr1
    then show ?thesis using False sigusr1_safe [OF assms(1,2)] by (simp add: client_turn_def)
  next
    case Sigusr2
    obtain d where d: "perform_release e (server_addr c) (requested_ip c) c = Some d" "safe d"
      using perform_release_safe [OF assms(1,2)] by blast
    then show ?thesis using Sigusr2 False safe_cong [OF d(2)] by (simp add: client_turn_def)
  next
    case (Frame t csum junk old frame)
    show ?thesis
    proof (cases "cl_listen c = LISTEN_NONE")
      case True
      then show ?thesis using Frame False assms(1) by (simp add: client_turn_def)
    next
      case listening: False
      show ?thesis
      proof (cases "client_receives (cl_listen c) csum junk old frame")
        case (Ok p)
        then have "packet_ok p" using receives_ok assms(4) Frame by blast
        from packet_safe [OF waited assms(2) this] show ?thesis
          using Frame False listening Ok by (simp add: client_turn_def Let_def)
      qed (use Frame False listening waited in \<open>simp_all add: client_turn_def Let_def\<close>)
    qed
  qed (use False waited quits_safe [OF assms(1,2)] in \<open>simp_all add: client_turn_def\<close>)
qed

lemma start_safe:
  assumes "client_start cfg e ip x sv b n f = Some c" and "interface_ok e"
  shows "safe c"
  using assms by (auto simp: client_start_def interface_ok_def safe_def client_ok_def split: option.splits if_splits dest: spec [of _ 0])

lemma run_safe:
  assumes "client_run cfg e c" and "client_config_ok cfg" and "interface_ok e"
  shows "safe c"
  using assms(1)
proof induction
  case (started ip x sv b n f c)
  then show ?case using start_safe assms(3) by blast
next
  case (turned c ev c')
  then show ?case using turn_safe [OF _ assms(2,3), of c ev] by auto
qed

text \<open>C33: In every run, with any configured options in binary form, every packet that the client has sent
  is a well-formed request: its options are a list that ends within the 308 bytes of a standard packet,
  also behind the list of requested options that is written without a check.\<close>

theorem dhcpc_packets_fit:
  assumes "client_run cfg e c" and "client_config_ok cfg" and "interface_ok e"
  shows "list_all (\<lambda>m. well_formed (packet_of m)) (sent c)"
  using run_safe [OF assms] by (simp add: safe_def comp_def)

lemma client_config0_ok: "client_config_ok client_config0"
  by (simp add: client_config_ok_def client_config0_def)

lemma cenv0_ok: "interface_ok cenv0"
  by (simp add: interface_ok_def cenv0_def client_mac0_def)

theorem dhcpc_packets_fit_witness:
  "length (sent selecting0) = 1 \<and> list_all (\<lambda>m. well_formed (packet_of m)) (sent selecting0)"
  using dhcpc_packets_fit [OF selecting0_run client_config0_ok cenv0_ok] selecting0_fields by simp

text \<open>The only access outside an array that a turn of the client can come to is the copy of a raw frame
  that is shorter than its headers: everything else it does, whatever the event, is defined.\<close>

theorem dhcpc_faults_only_on_short_frames:
  assumes "client_run cfg e c" and "client_config_ok cfg" and "interface_ok e" and "event_ok ev"
  shows "client_turn cfg e ev c = None \<longleftrightarrow> 0 < wait_left c \<and>
    (\<exists>t csum junk old frame. ev = Frame t csum junk old frame \<and> cl_listen c = LISTEN_RAW \<and>
      udhcp_recv_raw_packet csum junk frame old = Fault)"
proof -
  have fault: "client_receives m csum junk old frame = Fault \<and> m \<noteq> LISTEN_NONE \<longleftrightarrow>
      m = LISTEN_RAW \<and> udhcp_recv_raw_packet csum junk frame old = Fault" for m csum junk old frame
    by (cases m) (auto simp: client_receives_def split: option.splits outcome.splits prod.splits)
  show ?thesis
  proof
    assume none: "client_turn cfg e ev c = None"
    obtain t csum junk old frame where f: "0 < wait_left c" "ev = Frame t csum junk old frame" "cl_listen c \<noteq> LISTEN_NONE"
        "client_receives (cl_listen c) csum junk old frame = Fault"
      using turn_safe [OF run_safe [OF assms(1-3)] assms(2-4)] unfolding none by auto
    then have "cl_listen c = LISTEN_RAW" "udhcp_recv_raw_packet csum junk frame old = Fault"
      using fault [of "cl_listen c" csum junk old frame] by simp_all
    with f(1,2) show "0 < wait_left c \<and> (\<exists>t csum junk old frame. ev = Frame t csum junk old frame \<and> cl_listen c = LISTEN_RAW \<and>
        udhcp_recv_raw_packet csum junk frame old = Fault)" by blast
  next
    assume "0 < wait_left c \<and> (\<exists>t csum junk old frame. ev = Frame t csum junk old frame \<and> cl_listen c = LISTEN_RAW \<and>
        udhcp_recv_raw_packet csum junk frame old = Fault)"
    then obtain t csum junk old frame where "0 < wait_left c" "ev = Frame t csum junk old frame" "cl_listen c = LISTEN_RAW"
        "client_receives LISTEN_RAW csum junk old frame = Fault" using fault [of LISTEN_RAW] by blast
    then show "client_turn cfg e ev c = None" by (simp add: client_turn_def Let_def)
  qed
qed

theorem dhcpc_faults_only_on_short_frames_witness:
  "client_turn client_config0 cenv0 Timeout selecting0 \<noteq> None"
  using dhcpc_faults_only_on_short_frames [OF selecting0_run client_config0_ok cenv0_ok, of Timeout] by simp

end
