(* ===== verification/DhcpClientLease.thy ===== *)
theory DhcpClientLease
  imports DhcpClientPackets
begin

text \<open>
  A client whose server is gone: each turn of the main loop sends one more request for the leased address and
  halves the time to the next one, so the address is given up before the lease is over.
\<close>

section \<open>Waiting\<close>

lemma wait_left_value:
  assumes "0 \<le> cl_timeout c" and "cl_timeout c < 2 ^ 31" and "uint (already_waited_sec c) \<le> cl_timeout c"
  shows "wait_left c = cl_timeout c - uint (already_waited_sec c)"
proof -
  let ?x = "cl_timeout c - uint (already_waited_sec c)"
  have "word_of_int (cl_timeout c) - already_waited_sec c = word_of_int ?x" by simp
  moreover have "sint (word_of_int ?x :: u32) = signed_take_bit 31 ?x" by (simp only: signed_of_int) simp
  moreover have "signed_take_bit 31 ?x = ?x"
  proof (rule signed_take_bit_int_eq_self)
    show "- (2 ^ 31) \<le> ?x" using assms(3) by simp
    show "?x < 2 ^ 31" using assms(2) uint_ge_0 [of "already_waited_sec c"] by linarith
  qed
  ultimately show ?thesis by (simp only: wait_left_def)
qed

text \<open>The cap of \<^verbatim>\<open>poll\<close> is 647 ms longer than the longest time below it.\<close>

lemma poll_at_most:
  assumes "0 \<le> cl_timeout c" and "cl_timeout c < 2 ^ 31" and "uint (already_waited_sec c) \<le> cl_timeout c"
  shows "poll_milliseconds c \<le> 1000 * (cl_timeout c - uint (already_waited_sec c)) +
    (if cl_timeout c - uint (already_waited_sec c) = 2147483 then 647 else 0)"
  using wait_left_value [OF assms] assms(3) by (simp add: poll_milliseconds_def Let_def)

text \<open>Turns of the main loop that all end with a timeout, and the milliseconds they poll together.\<close>

fun idle :: "client_config \<Rightarrow> cenv \<Rightarrow> nat \<Rightarrow> client \<Rightarrow> (int \<times> client) option" where
  "idle cfg e 0 c = Some (0, c)"
| "idle cfg e (Suc n) c =
     (case client_turn cfg e Timeout c of
        Some (Goes c') \<Rightarrow> map_option (\<lambda>(t, d). (poll_milliseconds c + t, d)) (idle cfg e n c')
      | _ \<Rightarrow> None)"

definition interface_up :: "cenv \<Rightarrow> bool" where
  "interface_up e \<longleftrightarrow> (\<forall>n. read_interface e n \<noteq> None)"

section \<open>One unanswered request\<close>

definition renews :: "client_state \<Rightarrow> bool" where
  "renews st \<longleftrightarrow> st \<in> {RENEWING, RENEW_REQUESTED, REBINDING}"

text \<open>A request to go on with the address \<open>ip\<close>: to the server alone, or to all once the client rebinds.\<close>

definition asks_to_renew :: "u32 \<Rightarrow> u32 \<Rightarrow> dhcp_packet \<Rightarrow> bool" where
  "asks_to_renew ip x p \<longleftrightarrow>
     udhcp_get_option p DHCP_MESSAGE_TYPE = Some (Some [DHCPREQUEST]) \<and> ciaddr p = ip \<and> xid p = x"

fun renewal :: "u32 \<Rightarrow> client \<Rightarrow> sent_packet \<Rightarrow> bool" where
  "renewal ip c (Raw_bcast src p) =
     (src = ip \<and> asks_to_renew ip (cl_xid c) p \<and> (cl_state c = REBINDING \<or> server_addr c = 0))"
| "renewal ip c (Kernel_ucast src dst p) =
     (src = ip \<and> asks_to_renew ip (cl_xid c) p \<and> cl_state c \<noteq> REBINDING \<and> dst = server_addr c)"

text \<open>A turn that leads from \<open>c\<close> to \<open>d\<close> has sent such a request, or \<^verbatim>\<open>sendto\<close>, the last that was asked,
  has refused it.\<close>

definition asked_again :: "cenv \<Rightarrow> u32 \<Rightarrow> client \<Rightarrow> client \<Rightarrow> bool" where
  "asked_again e ip c d \<longleftrightarrow>
     (case sent d of [] \<Rightarrow> False | m # ms \<Rightarrow> renewal ip d m \<and> ms = sent c) \<or>
     sent d = sent c \<and> cl_state d = REBINDING \<and> \<not> send_ok e (asked d - 1)"

text \<open>Each of the next \<open>n\<close> turns, without an answer, asks again.\<close>

fun asking :: "client_config \<Rightarrow> cenv \<Rightarrow> u32 \<Rightarrow> nat \<Rightarrow> client \<Rightarrow> bool" where
  "asking cfg e ip 0 c = True"
| "asking cfg e ip (Suc n) c =
     (case client_turn cfg e Timeout c of
        Some (Goes d) \<Rightarrow> asked_again e ip c d \<and> asking cfg e ip n d
      | _ \<Rightarrow> False)"

lemma init_packet_sent: "client_init_packet e t c = Some (p, d) \<Longrightarrow> sent d = sent c"
  by (auto simp: client_init_packet_def client_secs_def ask_def Let_def bind_eq_Some_conv)

lemma bcast_or_ucast_sent:
  assumes "bcast_or_ucast e p a b c = (ok, d)"
  shows "if ok then sent d = (if b = 0 then Raw_bcast a p else Kernel_ucast a b p) # sent c
    else sent d = sent c \<and> \<not> send_ok e (asked d - 1)"
  using assms by (auto simp: bcast_or_ucast_def client_sends_def ask_def Let_def split: if_splits)

lemma send_renew_sent:
  assumes "safe c" and "client_config_ok cfg"
  obtains ok d where "send_renew cfg e x sv ci c = Some (ok, d)" and "safe d" and "same_control c d"
    and "ok \<longrightarrow> (\<exists>p. sent d = (if sv = 0 then Raw_bcast ci p else Kernel_ucast ci sv p) # sent c \<and> asks_to_renew ci x p)"
    and "\<not> ok \<longrightarrow> sent d = sent c \<and> \<not> send_ok e (asked d - 1)"
proof -
  have ok: "client_ok c" using assms(1) by (simp add: safe_def)
  obtain p more m ok d where s: "send_renew cfg e x sv ci c = Some (ok, d)" "packet_of m = p" "leaves e c m d"
    and p: "has p ((DHCP_MESSAGE_TYPE, [DHCPREQUEST]) # more)" "from_client c ci p" "xid p = x"
    by (rule send_renew_leaves [OF ok assms(2)])
  obtain q c' where q: "bcast_or_ucast e q ci sv c' = (ok, d)" "sent c' = sent c"
    using s(1) by (auto simp: send_renew_def bind_eq_Some_conv dest: init_packet_sent)
  note sent = bcast_or_ucast_sent [OF q(1), unfolded q(2)]
  have "holds_options p ([(DHCP_MESSAGE_TYPE, [DHCPREQUEST])] @ more)" using p(1) by (simp add: has_def)
  moreover have "list_all plain_option [(DHCP_MESSAGE_TYPE, [DHCPREQUEST])]" by (simp add: plain_option_def option_ok_def option_codes)
  ultimately have "udhcp_get_option p DHCP_MESSAGE_TYPE = Some (Some [DHCPREQUEST])" by (rule get_option_prefix) simp
  then have "asks_to_renew ci x p"
    using p(2,3) by (simp add: asks_to_renew_def from_client_def)
  moreover have "m = (if sv = 0 then Raw_bcast ci q else Kernel_ucast ci sv q)" if ok
    using sent that s(3) by (auto simp: leaves_def)
  ultimately show ?thesis using that [OF s(1) leaves_safe [OF s(3) assms(1)] send_control(3) [OF s(1)]] sent s(2) p
    by (auto split: if_splits)
qed

text \<open>The time is halved; when none is left, the address is given up.\<close>

definition halves :: "cenv \<Rightarrow> client \<Rightarrow> client \<Rightarrow> bool" where
  "halves e c d \<longleftrightarrow> safe d \<and> already_waited_sec d = already_waited_sec c \<and> requested_ip d = requested_ip c \<and>
     (if cl_timeout c > 0
      then renews (cl_state d) \<and> cl_timeout d = cl_timeout c div 2 \<and> asked_again e (requested_ip c) c d
      else cl_state d = INIT_SELECTING \<and> configured_ip d = None)"

lemma halves_same:
  "halves e c d \<Longrightarrow> already_waited_sec c = already_waited_sec b \<Longrightarrow> requested_ip c = requested_ip b \<Longrightarrow> cl_timeout c = cl_timeout b \<Longrightarrow>
    sent c = sent b \<Longrightarrow> halves e b d"
  by (auto simp: halves_def asked_again_def split: if_splits list.splits)

lemma rebinding_halves:
  assumes "safe c" and "client_config_ok cfg" and "cl_state c = REBINDING"
  shows "\<exists>d. case_REBINDING cfg e c = Some (Goes d) \<and> halves e c d"
proof -
  let ?c = "change_listen_mode LISTEN_RAW c"
  have c: "safe ?c" using assms(1) by (rule safe_cong) (simp_all add: client_updates)
  show ?thesis
  proof (cases "cl_timeout c > 0")
    case True
    obtain ok d where d: "send_renew cfg e (cl_xid ?c) 0 (requested_ip ?c) ?c = Some (ok, d)" "safe d" "same_control ?c d"
      "ok \<longrightarrow> (\<exists>p. sent d = Raw_bcast (requested_ip ?c) p # sent ?c \<and> asks_to_renew (requested_ip ?c) (cl_xid ?c) p)"
      "\<not> ok \<longrightarrow> sent d = sent ?c \<and> \<not> send_ok e (asked d - 1)"
      by (rule send_renew_sent [OF c assms(2), of e "cl_xid ?c" 0 "requested_ip ?c"]) (rule that, simp_all)
    have "case_REBINDING cfg e c = Some (Goes (d\<lparr>cl_timeout := cl_timeout d div 2\<rparr>))"
      using True d(1) by (simp add: case_REBINDING_def client_updates)
    moreover have "asked_again e (requested_ip c) c (d\<lparr>cl_timeout := cl_timeout d div 2\<rparr>)"
      using d(3-5) assms(3) by (cases ok) (auto simp: asked_again_def same_control_def client_updates)
    then have "halves e c (d\<lparr>cl_timeout := cl_timeout d div 2\<rparr>)"
      using True d(3) assms(3) safe_cong [OF d(2)] by (simp add: halves_def same_control_def client_updates renews_def)
    ultimately show ?thesis by blast
  next
    case False
    let ?d = "(udhcp_run_script None ''deconfig'' ?c)\<lparr>cl_state := INIT_SELECTING, first_secs := 0, packet_num := 0\<rparr>"
    have "case_REBINDING cfg e c = Some (Goes ?d)" using False by (simp add: case_REBINDING_def client_updates)
    moreover have "halves e c ?d" using False safe_cong [OF c, of ?d] by (simp add: halves_def client_updates configured_ip_def)
    ultimately show ?thesis by blast
  qed
qed

lemma renewing_halves:
  assumes "safe c" and "client_config_ok cfg" and "cl_state c \<in> {RENEWING, RENEW_REQUESTED}"
  shows "\<exists>d. case_RENEW_REQUESTED cfg e c = Some (Goes d) \<and> halves e c d"
proof -
  have reb: "\<exists>d'. case_REBINDING cfg e (d\<lparr>cl_state := REBINDING\<rparr>) = Some (Goes d') \<and> halves e c d'"
    if d: "safe d" "same_control c d" "sent d = sent c" for d
  proof -
    have "safe (d\<lparr>cl_state := REBINDING\<rparr>)" by (rule safe_cong [OF d(1)]) simp_all
    from rebinding_halves [OF this assms(2)] obtain d' where
      d': "case_REBINDING cfg e (d\<lparr>cl_state := REBINDING\<rparr>) = Some (Goes d')" "halves e (d\<lparr>cl_state := REBINDING\<rparr>) d'" by auto
    have "halves e c d'" by (rule halves_same [OF d'(2)]) (use d(2,3) in \<open>simp_all add: same_control_def\<close>)
    with d'(1) show ?thesis by blast
  qed
  show ?thesis
  proof (cases "cl_timeout c \<ge> 60")
    case True
    obtain ok d where d: "send_renew cfg e (cl_xid c) (server_addr c) (requested_ip c) c = Some (ok, d)" "safe d" "same_control c d"
      "ok \<longrightarrow> (\<exists>p. sent d = (if server_addr c = 0 then Raw_bcast (requested_ip c) p else Kernel_ucast (requested_ip c) (server_addr c) p) # sent c \<and>
        asks_to_renew (requested_ip c) (cl_xid c) p)"
      "\<not> ok \<longrightarrow> sent d = sent c \<and> \<not> send_ok e (asked d - 1)"
      by (rule send_renew_sent [OF assms(1,2), of e "cl_xid c" "server_addr c" "requested_ip c"]) (rule that, assumption+)
    show ?thesis
    proof (cases ok)
      case ok: True
      obtain p where p: "sent d = (if server_addr c = 0 then Raw_bcast (requested_ip c) p else Kernel_ucast (requested_ip c) (server_addr c) p) # sent c"
        "asks_to_renew (requested_ip c) (cl_xid c) p" using d(4) ok by blast
      have same: "cl_state d = cl_state c" "server_addr d = server_addr c" "cl_xid d = cl_xid c" using d(3) by (simp_all add: same_control_def)
      have "asked_again e (requested_ip c) c (d\<lparr>cl_timeout := cl_timeout d div 2\<rparr>)"
        using p assms(3) same by (cases "server_addr c = 0") (auto simp: asked_again_def)
      then have "halves e c (d\<lparr>cl_timeout := cl_timeout d div 2\<rparr>)"
        using True d(3) assms(3) safe_cong [OF d(2)] by (auto simp: halves_def same_control_def renews_def)
      then show ?thesis using True ok d(1) by (simp add: case_RENEW_REQUESTED_def)
    next
      case False
      then show ?thesis using True d(1) reb [OF d(2,3)] d(5) by (simp add: case_RENEW_REQUESTED_def)
    qed
  next
    case False
    then show ?thesis using reb [OF assms(1)] by (simp add: case_RENEW_REQUESTED_def same_control_def)
  qed
qed

lemma lease_turn_halves:
  assumes "safe c" and "client_config_ok cfg" and "interface_ok e" and "interface_up e" and "renews (cl_state c) \<or> cl_state c = BOUND"
  shows "\<exists>d. client_turn cfg e Timeout c = Some (Goes d) \<and> halves e (c\<lparr>already_waited_sec := 0\<rparr>) d"
proof -
  obtain mac where mac: "read_interface e (asked c) = Some mac" "length mac = 6"
    using assms(3,4) by (auto simp: interface_ok_def interface_up_def dest: spec [of _ "asked c"])
  let ?c = "(ask c)\<lparr>client_mac := mac, clientid := map_option (\<lambda>_. ethernet_client_id mac) (clientid c), already_waited_sec := 0\<rparr>"
  have safe: "safe ?c" using assms(1) mac(2) by (auto simp: safe_def client_ok_def ask_def)
  have turn: "client_turn cfg e Timeout c = client_active cfg e ?c" using mac(1) by (simp add: client_turn_def client_timeout_def)
  have halves: "halves e ?c d \<Longrightarrow> halves e (c\<lparr>already_waited_sec := 0\<rparr>) d" for d by (erule halves_same) (simp_all add: ask_def)
  show ?thesis
  proof (cases "cl_state c")
    case BOUND
    let ?d = "change_listen_mode LISTEN_KERNEL (?c\<lparr>cl_state := RENEWING, first_secs := 0\<rparr>)"
    have "safe ?d" by (rule safe_cong [OF safe]) (simp_all add: client_updates)
    moreover have "cl_state ?d \<in> {RENEWING, RENEW_REQUESTED}" by (simp add: client_updates)
    ultimately obtain d where d: "case_RENEW_REQUESTED cfg e ?d = Some (Goes d)" "halves e ?d d" using renewing_halves [OF _ assms(2)] by blast
    have "client_active cfg e ?c = case_RENEW_REQUESTED cfg e ?d" using BOUND by (simp add: client_active_def ask_def)
    moreover have "halves e (c\<lparr>already_waited_sec := 0\<rparr>) d" by (rule halves_same [OF d(2)]) (simp_all add: client_updates)
    ultimately show ?thesis using turn d(1) by auto
  next
    case REBINDING
    then show ?thesis using rebinding_halves [OF safe assms(2)] turn halves by (auto simp: client_active_def ask_def)
  next
    case RENEWING
    then show ?thesis using renewing_halves [OF safe assms(2)] turn halves by (auto simp: client_active_def ask_def)
  next
    case RENEW_REQUESTED
    then show ?thesis using renewing_halves [OF safe assms(2)] turn halves by (auto simp: client_active_def ask_def)
  qed (use assms(5) in \<open>simp_all add: renews_def\<close>)
qed

definition longest :: "client \<Rightarrow> int" where
  "longest c = 2000 * cl_timeout c - 1000 * uint (already_waited_sec c) +
     (if already_waited_sec c \<noteq> 0 then 294 else if cl_timeout c > 0 then - 353 else 0)"

lemma longest_bound: "longest c \<le> 2000 * cl_timeout c + 294"
proof -
  have "0 \<le> uint (already_waited_sec c)" by simp
  then show ?thesis unfolding longest_def by (simp only: split: if_split) linarith
qed

lemma longest_step:
  assumes "cl_timeout c > 0" and "uint (already_waited_sec c) \<le> cl_timeout c" and "cl_timeout d = cl_timeout c div 2" and "already_waited_sec d = 0"
    and "x \<le> 1000 * (cl_timeout c - uint (already_waited_sec c)) + (if cl_timeout c - uint (already_waited_sec c) = 2147483 then 647 else 0)"
  shows "x + longest d \<le> longest c"
proof -
  obtain q r where q: "cl_timeout c = 2 * q + r" "cl_timeout d = q" "r = 0 \<or> r = 1" 
    using assms(3) mult_div_mod_eq [of 2 "cl_timeout c"] that [of "cl_timeout c div 2" "cl_timeout c mod 2"] by fastforce
  show ?thesis
  proof (cases "already_waited_sec c = 0")
    case True
    have "2 * q \<noteq> (2147483 :: int)" by presburger
    then show ?thesis using True q assms(1,4,5) by (auto simp: longest_def split: if_split_asm)
  next
    case False
    then show ?thesis using q assms(1,4,5) by (auto simp: longest_def split: if_split_asm)
  qed
qed

lemma gives_up:
  assumes "safe c" and "client_config_ok cfg" and "interface_ok e" and "interface_up e" and "renews (cl_state c) \<or> cl_state c = BOUND"
    and "0 \<le> cl_timeout c" and "cl_timeout c < 2 ^ 31" and "uint (already_waited_sec c) \<le> cl_timeout c"
  shows "\<exists>n t d. asking cfg e (requested_ip c) n c \<and> cl_timeout c < 2 ^ n \<and> idle cfg e (Suc n) c = Some (t, d) \<and>
    t \<le> longest c \<and> cl_state d = INIT_SELECTING \<and> configured_ip d = None"
  using assms
proof (induction "nat (cl_timeout c)" arbitrary: c rule: less_induct)
  case less
  obtain d where d: "client_turn cfg e Timeout c = Some (Goes d)" "halves e (c\<lparr>already_waited_sec := 0\<rparr>) d"
    using lease_turn_halves [OF less.prems(1-5)] by blast
  note w = poll_at_most [OF less.prems(6-8)]
  show ?case
  proof (cases "cl_timeout c > 0")
    case False
    then have "idle cfg e (Suc 0) c = Some (poll_milliseconds c, d)" using d(1) by simp
    moreover have "cl_state d = INIT_SELECTING" "configured_ip d = None" using d(2) False by (simp_all add: halves_def)
    ultimately show ?thesis using less.prems(6,8) w False
      by (intro exI [of _ 0] exI conjI) (auto simp: longest_def)
  next
    case True
    have asked: "asked_again e ip (c\<lparr>already_waited_sec := 0\<rparr>) d = asked_again e ip c d" for ip by (auto simp: asked_again_def split: list.splits)
    from True have h: "renews (cl_state d)" "cl_timeout d = cl_timeout c div 2" "safe d" "already_waited_sec d = 0"
        "requested_ip d = requested_ip c" "asked_again e (requested_ip c) c d"
      using d(2) asked by (simp_all add: halves_def)
    have small: "nat (cl_timeout d) < nat (cl_timeout c)" "0 \<le> cl_timeout d" "cl_timeout d < 2 ^ 31" "uint (already_waited_sec d) \<le> cl_timeout d"
      using True h(2,4) less.prems(7) by auto
    have "renews (cl_state d) \<or> cl_state d = BOUND" using h(1) by simp
    from less.hyps [OF small(1) h(3) less.prems(2-4) this small(2-4)] h(5)
    obtain n t d' where n: "asking cfg e (requested_ip c) n d" "cl_timeout d < 2 ^ n" "idle cfg e (Suc n) d = Some (t, d')" "t \<le> longest d"
        "cl_state d' = INIT_SELECTING" "configured_ip d' = None"
      by auto
    have "asking cfg e (requested_ip c) (Suc n) c" using d(1) h(6) n(1) by simp
    moreover have "idle cfg e (Suc (Suc n)) c = Some (poll_milliseconds c + t, d')" using d(1) n(3) by simp
    moreover have "poll_milliseconds c + t \<le> longest c" using longest_step [OF True less.prems(8) h(2,4) w] n(4) by simp
    moreover have "cl_timeout c < 2 ^ Suc n" using n(2) h(2) by simp
    ultimately show ?thesis using n(5,6) by blast
  qed
qed

section \<open>A new lease\<close>

lemma bound_times:
  assumes "client_bound cfg e p n c = Some (Goes d)"
  shows "0 \<le> cl_timeout d \<and> cl_timeout d \<le> int (unat (n div 2)) \<and> uint (already_waited_sec d) \<le> cl_timeout d"
    and "requested_ip d = yiaddr p"
proof -
  let ?waited = "monotonic_sec e (Suc (asked c)) - monotonic_sec e (asked c)"
  have "cl_timeout d = (if n div 2 < ?waited then 0 else int (unat (n div 2)))"
      "already_waited_sec d = (if n div 2 < ?waited then 0 else ?waited)"
    using assms by (auto simp: client_bound_def client_updates quits_ends split: if_split_asm)
  then show "0 \<le> cl_timeout d \<and> cl_timeout d \<le> int (unat (n div 2)) \<and> uint (already_waited_sec d) \<le> cl_timeout d"
    by (auto simp: word_less_alt)
  show "requested_ip d = yiaddr p"
    using assms by (auto simp: client_bound_def client_updates quits_ends split: if_split_asm)
qed

lemma packet_binds:
  assumes "client_packet cfg e p c = Some (Goes d)" and "cl_state c \<noteq> BOUND" and "cl_state d = BOUND" and "lease_seconds p = Some n"
  shows "\<exists>c'. client_bound cfg e p n c' = Some (Goes d)"
  using assms(1)
proof (cases rule: packet_cases)
  case 2
  then show ?thesis using assms(3) by (auto simp: client_offer_def bind_eq_Some_conv)
next
  case 3
  have "cl_state d \<noteq> BOUND" if "client_declines cfg e p c' = Some (Goes d)" for c'
    using that by (auto simp: client_declines_def client_updates bind_eq_Some_conv)
  then show ?thesis using 3 assms(3,4) by (auto simp: client_ack_def split: if_split_asm)
next
  case 4
  then show ?thesis using assms(2,3) by (auto simp: client_nak_def client_updates bind_eq_Some_conv split: if_split_asm)
qed (use assms(2,3) in simp)

text \<open>C14: A client that an ACK has bound for a lease of n seconds and that gets no answer any more asks
  again and again: it goes through k turns, where the time set at the start is below \<open>2\<^sup>k\<close> seconds, and each of
  them sends one more DHCPREQUEST for the leased address, in the transaction the client listens for, to the
  server while it renews and to all once it rebinds; only if \<^verbatim>\<open>sendto\<close> refuses the broadcast nothing is sent.
  After one more turn it has taken the address from the interface and looks for a server again, and the
  polls of all these turns last less than n + 1 seconds together.\<close>

theorem dhcpc_gives_up_in_time:
  assumes "client_run cfg e c" and "client_config_ok cfg" and "interface_ok e" and "interface_up e" and "packet_ok p"
    and "client_packet cfg e p (c\<lparr>already_waited_sec := w\<rparr>) = Some (Goes d)" and "cl_state c \<noteq> BOUND" and "cl_state d = BOUND"
    and "lease_seconds p = Some n"
  shows "\<exists>k t d'. asking cfg e (yiaddr p) k d \<and> cl_timeout d < 2 ^ k \<and> idle cfg e (Suc k) d = Some (t, d') \<and>
    t < 1000 * (uint n + 1) \<and> cl_state d' = INIT_SELECTING \<and> configured_ip d' = None"
proof -
  have "safe (c\<lparr>already_waited_sec := w\<rparr>)" by (rule safe_cong [OF run_safe [OF assms(1-3)]]) simp_all
  then have "step_safe (client_packet cfg e p (c\<lparr>already_waited_sec := w\<rparr>))" using packet_safe assms(2,5) by blast
  then have safe: "safe d" using assms(6) by simp
  obtain c' where "client_bound cfg e p n c' = Some (Goes d)" using packet_binds [OF assms(6) _ assms(8,9)] assms(7) by auto
  note times = bound_times(1) [OF this] and ip = bound_times(2) [OF this]
  have half: "int (unat (n div 2)) = uint n div 2" by (simp add: unat_div zdiv_int)
  have "uint n < 2 ^ 32" using uint_lt2p [of n] by simp
  then have small: "cl_timeout d < 2 ^ 31" "2000 * cl_timeout d \<le> 1000 * uint n" 
  proof -
    have "cl_timeout d \<le> uint n div 2" "2 * (uint n div 2) \<le> uint n" using times half by simp_all
    with \<open>uint n < 2 ^ 32\<close> show "cl_timeout d < 2 ^ 31" "2000 * cl_timeout d \<le> 1000 * uint n" by simp_all
  qed
  from gives_up [OF safe assms(2-4) _ _ small(1)] assms(8) times
  obtain k t d' where k: "asking cfg e (requested_ip d) k d" "cl_timeout d < 2 ^ k" "idle cfg e (Suc k) d = Some (t, d')"
      "t \<le> longest d" "cl_state d' = INIT_SELECTING" "configured_ip d' = None" by auto
  have "t < 1000 * (uint n + 1)" using k(4) small(2) longest_bound [of d] by simp
  with k show ?thesis unfolding ip by blast
qed

end
