(* ===== verification/DhcpExchange.thy ===== *)
theory DhcpExchange
  imports DhcpClientLease
begin

text \<open>
  Client and server together: what the client broadcasts reaches the server as a datagram, what the server
  sends reaches the client as a frame, and the four messages of an exchange give the client the lease that
  the server has in its table.
\<close>

section \<open>The options of a reply\<close>

definition reply_options :: "server_data \<Rightarrow> u8 \<Rightarrow> (u8 \<times> u8 list) list" where
  "reply_options sd t = [(DHCP_MESSAGE_TYPE, [t]), (DHCP_SERVER_ID, le_bytes 4 (server_nip sd))]"

text \<open>What the server copies from a request.\<close>

definition answers :: "dhcp_packet \<Rightarrow> dhcp_packet \<Rightarrow> bool" where
  "answers old p \<longleftrightarrow> xid p = xid old \<and> chaddr p = chaddr old \<and> gateway_nip p = gateway_nip old \<and> ciaddr p = ciaddr old \<and>
     hlen p = 6 \<and> cookie p = htonl DHCP_MAGIC"

lemma take_le_bytes: "take 4 (le_bytes 4 w) = le_bytes 4 (w :: u32)" by simp

lemma init_packet_has:
  assumes "packet_ok old" and "t \<in> {DHCPOFFER, DHCPACK, DHCPNAK}"
  obtains p where "init_packet sd old t = Some p" and "has p (reply_options sd t)" and "answers old p"
proof -
  define p0 where "p0 = empty_packet\<lparr>op := BOOTREPLY\<rparr>"
  obtain os where h: "udhcp_init_header t = Some (p0\<lparr>options := os\<rparr>)" "has (p0\<lparr>options := os\<rparr>) [(DHCP_MESSAGE_TYPE, [t])]"
    using init_header_has [of t] assms(2) by (auto simp: p0_def)
  let ?p = "p0\<lparr>options := os, xid := xid old, chaddr := chaddr old, flags := flags old, gateway_nip := gateway_nip old, ciaddr := ciaddr old\<rparr>"
  have p: "has ?p [(DHCP_MESSAGE_TYPE, [t])]" by (rule has_cong [OF h(2)]) (use assms(1) in \<open>simp_all add: packet_ok_def\<close>)
  obtain os' where os': "udhcp_add_simple_option ?p DHCP_SERVER_ID (server_nip sd) = Some (?p\<lparr>options := os'\<rparr>)"
      "has (?p\<lparr>options := os'\<rparr>) ([(DHCP_MESSAGE_TYPE, [t])] @ [(DHCP_SERVER_ID, take 4 (le_bytes 4 (server_nip sd)))])"
    using add_simple_has [OF p, of DHCP_SERVER_ID 4 "server_nip sd"] by (auto simp: simple_codes_def packet_sizes)
  have "answers old (?p\<lparr>options := os'\<rparr>)" by (simp add: answers_def p0_def empty_packet_def)
  moreover have "init_packet sd old t = Some (?p\<lparr>options := os'\<rparr>)" using h(1) os'(1) by (simp add: init_packet_def)
  ultimately show ?thesis using that os'(2) by (simp add: reply_options_def take_le_bytes)
qed

lemma add_config_has:
  "has p opts \<Longrightarrow> list_all option_bytes_ok os \<Longrightarrow>
   \<exists>os' more. add_config_options h os p = Some (p\<lparr>options := os'\<rparr>) \<and> has (p\<lparr>options := os'\<rparr>) (opts @ more)"
proof (induction h os p arbitrary: opts rule: add_config_options.induct)
  case (1 h p)
  then show ?case by (intro exI [of _ "options p"] exI [of _ "[]"]) simp
next
  case (2 h o1 os p)
  have "0 < length o1" using "2.prems"(2) by (auto simp: option_bytes_ok_def)
  then have c: "rd o1 0 = Some (o1 ! 0)" by simp
  let ?r = "if o1 ! 0 \<noteq> DHCP_LEASE_TIME \<and> (o1 ! 0 \<noteq> DHCP_HOST_NAME \<or> \<not> h) then udhcp_add_binary_option p o1 else Some p"
  obtain os1 m1 where a: "?r = Some (p\<lparr>options := os1\<rparr>)" "has (p\<lparr>options := os1\<rparr>) (opts @ m1)"
  proof (cases "o1 ! 0 \<noteq> DHCP_LEASE_TIME \<and> (o1 ! 0 \<noteq> DHCP_HOST_NAME \<or> \<not> h)")
    case True
    have "option_bytes_ok o1" using "2.prems"(2) by simp
    from add_binary_has [OF "2.prems"(1) this] True that show ?thesis by auto
  next
    case False
    then show ?thesis using "2.prems"(1) that [of "options p" "[]"] by auto
  qed
  obtain os2 m2 where "add_config_options h os (p\<lparr>options := os1\<rparr>) = Some (p\<lparr>options := os1\<rparr>\<lparr>options := os2\<rparr>)"
      "has (p\<lparr>options := os1\<rparr>\<lparr>options := os2\<rparr>) ((opts @ m1) @ m2)"
    using "2.IH" [OF c a] "2.prems"(2) by auto
  then show ?case using c a(1) by (intro exI [of _ os2] exI [of _ "m1 @ m2"]) simp
qed

lemma add_server_options_has:
  assumes "has p opts" and "config_ok sd"
  obtains q more where "add_server_options sd p = Some q" and "has q (opts @ more)" and "\<And>old. answers old p \<Longrightarrow> answers old q"
    and "yiaddr q = yiaddr p"
proof -
  let ?h = "client_hostname_opt sd (yiaddr p)"
  obtain os1 m1 where p1: "add_config_options (?h \<noteq> None) (config_options sd) p = Some (p\<lparr>options := os1\<rparr>)" "has (p\<lparr>options := os1\<rparr>) (opts @ m1)"
    using add_config_has [OF assms(1), of "config_options sd" "?h \<noteq> None"] assms(2) by (auto simp: config_ok_def)
  have "\<And>b. ?h = Some b \<Longrightarrow> option_bytes_ok b" using assms(2)
    by (auto simp: client_hostname_opt_def config_ok_def list_all_iff find_Some_iff split: if_splits option.splits)
  from add_optional_has [OF p1(2) this]
  obtain os2 m2 where p2: "add_optional ?h (p\<lparr>options := os1\<rparr>) = Some (p\<lparr>options := os1\<rparr>\<lparr>options := os2\<rparr>)"
      "has (p\<lparr>options := os1\<rparr>\<lparr>options := os2\<rparr>) ((opts @ m1) @ m2)" by blast
  let ?q = "p\<lparr>options := os2, siaddr_nip := next_server_nip sd, sname := strncpy (sname p) (server_sname sd) (DHCP_PKT_SNAME_LEN - 1),
      pkt_file := strncpy (pkt_file p) (boot_file sd) (DHCP_PKT_FILE_LEN - 1)\<rparr>"
  have "has ?q (opts @ m1 @ m2)" using p2(2) by (simp add: has_def holds_options_def packet_ok_def strncpy_length)
  moreover have "add_server_options sd p = Some ?q"
    using p1(1) p2(1) by (auto simp: add_server_options_def Let_def add_optional_def split: option.split)
  moreover have "answers old p \<Longrightarrow> answers old ?q" for old by (simp add: answers_def)
  ultimately show ?thesis by (intro that [of ?q "m1 @ m2"]) simp_all
qed

definition lease_options :: "server_data \<Rightarrow> u8 \<Rightarrow> u32 \<Rightarrow> (u8 \<times> u8 list) list" where
  "lease_options sd t n = reply_options sd t @ [(DHCP_LEASE_TIME, le_bytes 4 (htonl n))]"

lemma lease_packet_has:
  assumes "has p (reply_options sd t)" and "answers old p" and "config_ok sd" and "packet_ok old" and "select_lease_time sd old = Some n"
  obtains q more where "lease_packet sd old p = Some (n, q)" and "has q (lease_options sd t n @ more)" and "answers old q" and "yiaddr q = yiaddr p"
proof -
  have "length (encode_options (reply_options sd t)) + 4 + 3 < DHCP_OPTIONS_BUFSIZE" by (simp add: reply_options_def packet_sizes)
  from add_simple_has [OF assms(1) _ this, of DHCP_LEASE_TIME "htonl n"]
  obtain os where p1: "udhcp_add_simple_option p DHCP_LEASE_TIME (htonl n) = Some (p\<lparr>options := os\<rparr>)"
      "has (p\<lparr>options := os\<rparr>) (lease_options sd t n)" by (auto simp: simple_codes_def lease_options_def take_le_bytes)
  have "answers old (p\<lparr>options := os\<rparr>)" using assms(2) by (simp add: answers_def)
  moreover obtain q more where "add_server_options sd (p\<lparr>options := os\<rparr>) = Some q" "has q (lease_options sd t n @ more)"
      "answers old (p\<lparr>options := os\<rparr>) \<Longrightarrow> answers old q" "yiaddr q = yiaddr (p\<lparr>options := os\<rparr>)"
    using add_server_options_has [OF p1(2) assms(3)] by blast
  ultimately show ?thesis using that p1(1) assms(5) by (simp add: lease_packet_def)
qed

section \<open>The server answers\<close>

text \<open>The server holds the address for the client: as its static lease, or in the table.\<close>

definition owns :: "server_data \<Rightarrow> u8 list \<Rightarrow> u32 \<Rightarrow> server \<Rightarrow> bool" where
  "owns sd mac nip s \<longleftrightarrow> nip \<noteq> 0 \<and>
     (if get_static_nip_by_mac sd mac \<noteq> 0 then nip = get_static_nip_by_mac sd mac
      else \<exists>i. find_lease_by_mac (g_leases s) mac = Some i \<and> lease_nip (g_leases s ! i) = nip)"

lemma first_index_only: "i < length xs \<Longrightarrow> P (xs ! i) \<Longrightarrow> (\<And>j. j < i \<Longrightarrow> \<not> P (xs ! j)) \<Longrightarrow> first_index P xs = Some i"
proof (induction xs arbitrary: i)
  case (Cons x xs)
  then show ?case
  proof (cases i)
    case (Suc k)
    have "first_index P xs = Some k" using Cons.prems Suc by (intro Cons.IH) force+
    moreover have "\<not> P x" using Cons.prems(3) [of 0] Suc by simp
    ultimately show ?thesis using Suc by simp
  qed simp
qed simp

lemma add_lease_finds:
  assumes "add_lease e (Some mac) nip t h s = (Some i, s')" and "take 6 mac \<noteq> zero_mac" and "i < length (g_leases s)"
  shows "find_lease_by_mac (g_leases s') mac = Some i \<and> lease_nip (g_leases s' ! i) = nip"
proof -
  obtain l where l: "g_leases s' = (clear_leases (Some mac) nip (g_leases s))[i := l]" "lease_nip l = nip" "lease_mac l = take 6 mac"
    using assms(1) by (auto simp: add_lease_def Let_def oldest_expired_lease_def time_def tick_def split: option.splits)
  have "lease_mac (clear_leases (Some mac) nip (g_leases s) ! j) \<noteq> take 6 mac" if "j < length (g_leases s)" for j
    using that assms(2) by (auto simp: clear_leases_def)
  then show ?thesis unfolding find_lease_by_mac_def
    by (intro conjI first_index_only) (use l assms(3) in \<open>auto simp: nth_list_update\<close>)
qed

lemma add_lease_index:
  assumes "add_lease e mac nip t h s = (Some i, s')"
  shows "i < length (g_leases s)"
proof -
  obtain now where "oldest_scan (clear_leases mac nip (g_leases s)) 0 now None = Some i"
    using assms by (auto simp: add_lease_def Let_def oldest_expired_lease_def time_def tick_def split: option.splits)
  from oldest_scan_lapsed [OF this order_refl] show ?thesis by simp
qed

lemma add_lease_owns:
  assumes "add_lease e (Some mac) nip t h s = (Some i, s')" and "take 6 mac \<noteq> zero_mac" and "nip \<noteq> 0" and "get_static_nip_by_mac sd mac = 0"
  shows "owns sd mac nip s'"
  using add_lease_finds [OF assms(1,2) add_lease_index [OF assms(1)]] assms(3,4) by (simp add: owns_def)

lemma lease_reply:
  assumes "packet_ok old" and "config_ok sd" and "t \<in> {DHCPOFFER, DHCPACK}"
  obtains p where "init_packet sd old t = Some p" and "chaddr p = chaddr old"
    and "\<forall>nip. \<exists>n q more. lease_packet sd old (p\<lparr>yiaddr := nip\<rparr>) = Some (n, q) \<and> has q (lease_options sd t n @ more) \<and>
      answers old q \<and> yiaddr q = nip"
proof -
  obtain p where p: "init_packet sd old t = Some p" "has p (reply_options sd t)" "answers old p"
    using init_packet_has [OF assms(1), of t sd] assms(3) by auto
  obtain n where n: "select_lease_time sd old = Some n"
    using option32_safe [OF assms(1), of DHCP_LEASE_TIME] by (auto simp: select_lease_time_def)
  have "length (chaddr p) = 16" using p(2) by (simp add: has_def holds_options_def packet_ok_def)
  then have "has (p\<lparr>yiaddr := nip\<rparr>) (reply_options sd t)" "answers old (p\<lparr>yiaddr := nip\<rparr>)" for nip
    using p(3) has_cong [OF p(2)] by (simp_all add: answers_def)
  note reply = this
  have "\<forall>nip. \<exists>n q more. lease_packet sd old (p\<lparr>yiaddr := nip\<rparr>) = Some (n, q) \<and> has q (lease_options sd t n @ more) \<and>
      answers old q \<and> yiaddr q = nip"
  proof
    fix nip
    obtain q more where "lease_packet sd old (p\<lparr>yiaddr := nip\<rparr>) = Some (n, q)" "has q (lease_options sd t n @ more)"
        "answers old q" "yiaddr q = yiaddr (p\<lparr>yiaddr := nip\<rparr>)"
      by (rule lease_packet_has [OF reply assms(2,1) n]) (rule that)
    then show "\<exists>n q more. lease_packet sd old (p\<lparr>yiaddr := nip\<rparr>) = Some (n, q) \<and> has q (lease_options sd t n @ more) \<and>
        answers old q \<and> yiaddr q = nip" by auto
  qed
  then show ?thesis using that p by (simp add: answers_def)
qed

text \<open>\<open>s'\<close> is \<open>s\<close> after a reply of type \<open>t\<close> to the packet \<open>p\<close>, sent to the client, for an address that it owns.\<close>

definition replied :: "server_data \<Rightarrow> u8 \<Rightarrow> dhcp_packet \<Rightarrow> server \<Rightarrow> u32 \<Rightarrow> server \<Rightarrow> bool" where
  "replied sd t p s nip s' \<longleftrightarrow> owns sd (chaddr p) nip s' \<and>
     (\<exists>ip mac r n more. outbox s' = (To_client ip mac, r) # outbox s \<and> has r (lease_options sd t n @ more) \<and> answers p r \<and> yiaddr r = nip)"

lemma repliedI:
  assumes "owns sd (chaddr p) nip s'" and "outbox s' = (To_client ip mac, r) # outbox s" and "has r (lease_options sd t n @ others)"
    and "answers p r" and "yiaddr r = nip"
  shows "replied sd t p s nip s'"
  using assms unfolding replied_def by blast

lemma send_packet_client:
  "gateway_nip p = 0 \<Longrightarrow> \<exists>ip mac. outbox (send_packet p b s) = (To_client ip mac, p) # outbox s"
  by (simp add: send_packet_def Let_def)

lemma owns_leases: "g_leases s' = g_leases s \<Longrightarrow> owns sd mac nip s \<Longrightarrow> owns sd mac nip s'"
  by (simp add: owns_def)

lemma send_offer_replied:
  assumes "packet_ok old" and "config_ok sd" and "table_ok (g_leases s)" and "gateway_nip old = 0" and "take 6 (chaddr old) \<noteq> zero_mac"
    and "static = get_static_nip_by_mac sd (chaddr old)" and "static = 0 \<Longrightarrow> lease = find_lease_by_mac (g_leases s) (chaddr old)"
    and "send_offer e sd old static lease req s = Some s'" and "outbox s' \<noteq> outbox s"
  shows "\<exists>nip. replied sd DHCPOFFER old s nip s'"
proof -
  obtain p where p: "init_packet sd old DHCPOFFER = Some p" "chaddr p = chaddr old"
    "\<forall>nip. \<exists>n q more. lease_packet sd old (p\<lparr>yiaddr := nip\<rparr>) = Some (n, q) \<and> has q (lease_options sd DHCPOFFER n @ more) \<and>
      answers old q \<and> yiaddr q = nip"
    by (rule lease_reply [OF assms(1,2), of DHCPOFFER]) (simp, rule that)
  show ?thesis
  proof (cases "static = 0")
    case False
    obtain n q more where q: "lease_packet sd old (p\<lparr>yiaddr := static\<rparr>) = Some (n, q)" "has q (lease_options sd DHCPOFFER n @ more)"
      "answers old q" "yiaddr q = static" using p(3) by blast
    have "s' = send_packet q False s" using assms(8) False p(1) q(1) by (simp add: send_offer_def)
    moreover have "owns sd (chaddr old) static s'" using False assms(6) by (simp add: owns_def)
    moreover obtain ip mac where "outbox (send_packet q False s) = (To_client ip mac, q) # outbox s"
      using send_packet_client [of q False s] q(3) assms(4) by (auto simp: answers_def)
    ultimately have "replied sd DHCPOFFER old s static s'" using repliedI q(2-4) by metis
    then show ?thesis by blast
  next
    case True
    obtain nip s1 where o: "offer_address e sd lease req s = (nip, s1)" by fastforce
    have k: "outbox s1 = outbox s" using offer_address_gives [of e sd s "chaddr old" req nip s1] o assms(3) assms(7) [OF True] by (simp add: kept_def)
    obtain h where h: "udhcp_get_option old DHCP_HOST_NAME = Some h" using option_safe [OF assms(1)] by blast
    obtain r s2 where a: "add_lease e (Some (chaddr old)) nip (offer_time sd) h s1 = (r, s2)" by fastforce
    have k2: "outbox s2 = outbox s" using add_lease_frame(1) [of e "Some (chaddr old)" nip "offer_time sd" h s1] a k by simp
    have nip: "nip \<noteq> 0" using assms(8,9) p(1) True o k by (auto simp: send_offer_def)
    then obtain i where i: "r = Some i" using assms(8,9) p(1,2) True o h a k2 by (cases r) (simp_all add: send_offer_def)
    obtain n q more where q: "lease_packet sd old (p\<lparr>yiaddr := nip\<rparr>) = Some (n, q)" "has q (lease_options sd DHCPOFFER n @ more)"
      "answers old q" "yiaddr q = nip" using p(3) by blast
    have s': "s' = send_packet q False s2" using assms(8) True nip o h a i p(1,2) q(1) by (simp add: send_offer_def)
    have "owns sd (chaddr old) nip s2" using add_lease_owns [OF a [unfolded i] assms(5) nip] assms(6) True by simp
    then have "owns sd (chaddr old) nip s'" by (rule owns_leases [rotated]) (simp add: s')
    moreover obtain ip mac where "outbox s' = (To_client ip mac, q) # outbox s"
      using send_packet_client [of q False s2] q(3) assms(4) k2 s' by (auto simp: answers_def)
    ultimately have "replied sd DHCPOFFER old s nip s'" using repliedI q(2-4) by metis
    then show ?thesis by blast
  qed
qed

lemma send_ACK_replied:
  assumes "packet_ok old" and "config_ok sd" and "gateway_nip old = 0" and "take 6 (chaddr old) \<noteq> zero_mac" and "owns sd (chaddr old) nip s"
  shows "\<exists>s'. send_ACK e sd old nip s = Some s' \<and> replied sd DHCPACK old s nip s'"
proof -
  obtain p where p: "init_packet sd old DHCPACK = Some p" "chaddr p = chaddr old"
    "\<forall>nip. \<exists>n q more. lease_packet sd old (p\<lparr>yiaddr := nip\<rparr>) = Some (n, q) \<and> has q (lease_options sd DHCPACK n @ more) \<and>
      answers old q \<and> yiaddr q = nip"
    by (rule lease_reply [OF assms(1,2), of DHCPACK]) (simp, rule that)
  obtain n q more where q: "lease_packet sd old (p\<lparr>yiaddr := nip\<rparr>) = Some (n, q)" "has q (lease_options sd DHCPACK n @ more)"
    "answers old q" "yiaddr q = nip" using p(3) by blast
  obtain h where h: "udhcp_get_option old DHCP_HOST_NAME = Some h" using option_safe [OF assms(1)] by blast
  define s1 where "s1 = send_packet q False s"
  obtain r s2 where a: "add_lease e (Some (chaddr old)) nip n h s1 = (r, s2)" by fastforce
  have k: "outbox s2 = outbox s1" using add_lease_frame(1) [of e "Some (chaddr old)" nip n h s1] a by simp
  have chq: "chaddr q = chaddr old" using q(3) by (simp add: answers_def)
  have ack: "send_ACK e sd old nip s = Some (write_leases e s2)"
    using p(1) q(1,4) h a chq by (simp add: send_ACK_def s1_def)
  have "owns sd (chaddr old) nip s2"
  proof (cases "get_static_nip_by_mac sd (chaddr old) = 0")
    case False
    then show ?thesis using assms(5) by (simp add: owns_def)
  next
    case True
    then obtain i where i: "find_lease_by_mac (g_leases s) (chaddr old) = Some i" "nip \<noteq> 0" using assms(5) by (auto simp: owns_def)
    from find_mac_Some [OF i(1)] have "i < length (g_leases s)" "lease_mac (g_leases s ! i) = take 6 (chaddr old)" by simp_all
    then have "empty_lease \<in> set (clear_leases (Some (chaddr old)) nip (g_leases s))"
      unfolding clear_leases_def set_map by (intro image_eqI [of _ _ "g_leases s ! i"]) simp_all
    then have "\<exists>l\<in>set (clear_leases (Some (chaddr old)) nip (g_leases s1)). expires l = 0"
      by (intro bexI [of _ empty_lease]) (simp_all add: s1_def empty_lease_def)
    note found = oldest_scan_found [OF disjI2 [OF this], of 0 "ucast (clock e (ticks s1))" None]
    have "r \<noteq> None"
    proof
      assume "r = None"
      then have "oldest_scan (clear_leases (Some (chaddr old)) nip (g_leases s1)) 0 (ucast (clock e (ticks s1))) None = None"
        using a by (auto simp: add_lease_def Let_def oldest_expired_lease_def time_def tick_def split: option.splits)
      with found show False by contradiction
    qed
    then obtain j where "r = Some j" by blast
    with add_lease_owns [OF _ assms(4) i(2) True] a show ?thesis by blast
  qed
  then have "owns sd (chaddr old) nip (write_leases e s2)" by (rule owns_leases [rotated]) simp
  moreover obtain ip mac where "outbox (write_leases e s2) = (To_client ip mac, q) # outbox s"
    using send_packet_client [of q False s] q(3) assms(3) k by (auto simp: answers_def s1_def)
  ultimately have "replied sd DHCPACK old s nip (write_leases e s2)" using repliedI q(2-4) by metis
  then show ?thesis using ack by blast
qed

lemma discover_replied:
  assumes "packet_ok p" and "config_ok sd" and "table_ok (g_leases s)" and "gateway_nip p = 0" and "take 6 (chaddr p) \<noteq> zero_mac"
    and "udhcp_get_option p DHCP_MESSAGE_TYPE = Some (Some [DHCPDISCOVER])"
    and "dhcpd_packet e sd p s = Some s'" and "outbox s' \<noteq> outbox s"
  shows "\<exists>nip. replied sd DHCPOFFER p s nip s'"
proof -
  obtain sid where sid: "udhcp_get_option32 p DHCP_SERVER_ID = Some sid" using option32_safe [OF assms(1)] by blast
  obtain req where req: "udhcp_get_option32 p DHCP_REQUESTED_IP = Some req" using option32_safe [OF assms(1)] by blast
  let ?static = "get_static_nip_by_mac sd (chaddr p)"
  let ?lease = "if ?static \<noteq> 0 then Some Fake_lease else map_option Table (find_lease_by_mac (g_leases s) (chaddr p))"
  have "send_offer e sd p ?static (table_index ?lease) (case req of None \<Rightarrow> 0 | Some d \<Rightarrow> word_of_le d) s = Some s'"
    using assms(6-8) sid req by (simp add: dhcpd_packet_def dhcpd_message_def message_types Let_def split: if_split_asm)
  moreover have "?static = 0 \<Longrightarrow> table_index ?lease = find_lease_by_mac (g_leases s) (chaddr p)"
    by (cases "find_lease_by_mac (g_leases s) (chaddr p)") simp_all
  ultimately show ?thesis using send_offer_replied [OF assms(1-5) refl _ _ assms(8)] by blast
qed

lemma request_replied:
  assumes "packet_ok p" and "config_ok sd" and "gateway_nip p = 0" and "take 6 (chaddr p) \<noteq> zero_mac" and "hlen p = 6" and "op p = BOOTREQUEST"
    and "udhcp_get_option p DHCP_MESSAGE_TYPE = Some (Some [DHCPREQUEST])"
    and "udhcp_get_option32 p DHCP_SERVER_ID = Some (Some (le_bytes 4 (server_nip sd)))"
    and "udhcp_get_option32 p DHCP_REQUESTED_IP = Some (Some (le_bytes 4 nip))" and "owns sd (chaddr p) nip s"
  shows "\<exists>s'. dhcpd_packet e sd p s = Some s' \<and> replied sd DHCPACK p s nip s'"
proof -
  let ?static = "get_static_nip_by_mac sd (chaddr p)"
  let ?lease = "if ?static \<noteq> 0 then Some Fake_lease else map_option Table (find_lease_by_mac (g_leases s) (chaddr p))"
  have lease: "?lease \<noteq> None" "ptr_nip ?static s (the ?lease) = nip" using assms(10) by (auto simp: owns_def split: if_split_asm)
  have "dhcpd_packet e sd p s = dhcpd_request e sd p True (Some (le_bytes 4 nip)) ?static ?lease s"
    using assms(5-9) by (simp add: dhcpd_packet_def dhcpd_message_def message_types Let_def)
  also have "\<dots> = send_ACK e sd p nip s" unfolding dhcpd_request_def using lease by (simp add: Let_def)
  finally show ?thesis using send_ACK_replied [OF assms(1-4,10)] by simp
qed

section \<open>The client reads the answers\<close>

lemma lease_options_plain: "list_all plain_option (lease_options sd t n)"
proof -
  have "le_bytes 4 w \<noteq> []" for w :: u32 by (simp flip: length_0_conv)
  then show ?thesis by (simp add: lease_options_def reply_options_def plain_option_def option_ok_def option_codes)
qed

lemma lease_options_found:
  assumes "holds_options q (lease_options sd t n @ others)"
  shows "udhcp_get_option q DHCP_MESSAGE_TYPE = Some (Some [t])"
    and "udhcp_get_option32 q DHCP_SERVER_ID = Some (Some (le_bytes 4 (server_nip sd)))"
    and "udhcp_get_option32 q DHCP_LEASE_TIME = Some (Some (le_bytes 4 (htonl n)))"
  unfolding udhcp_get_option32_def
  by (simp_all add: get_option_prefix [OF assms lease_options_plain] lease_options_def reply_options_def option_codes)

definition for_client :: "client \<Rightarrow> dhcp_packet \<Rightarrow> bool" where
  "for_client c q \<longleftrightarrow> xid q = cl_xid c \<and> hlen q = 6 \<and> take 6 (chaddr q) = take 6 (client_mac c)"

lemma client_gets_offer:
  assumes "holds_options q (lease_options sd DHCPOFFER n @ others)" and "for_client c q" and "cl_state c = INIT_SELECTING"
  shows "client_packet cfg e q c = Some (Goes (c\<lparr>server_addr := server_nip sd, requested_ip := yiaddr q,
       cl_state := REQUESTING, cl_timeout := 0, packet_num := 0, already_waited_sec := 0\<rparr>))"
  using lease_options_found [OF assms(1)] assms(2,3) by (simp add: client_packet_def for_client_def client_offer_def)

lemma client_gets_ack:
  assumes "holds_options q (lease_options sd DHCPACK n @ others)" and "for_client c q" and "cl_state c = REQUESTING"
    and "\<And>n ip. arp_silent e n ip" and "\<not> opt_q cfg"
  shows "\<exists>d. client_packet cfg e q c = Some (Goes d) \<and> cl_state d = BOUND \<and> requested_ip d = yiaddr q \<and> lease_seconds q = Some (max n 122)"
proof -
  have secs: "lease_seconds q = Some (max n 122)" using lease_options_found(3) [OF assms(1)] by (simp add: lease_seconds_def)
  have "client_packet cfg e q c = client_ack cfg e q c"
    using lease_options_found(1) [OF assms(1)] assms(2,3) by (simp add: client_packet_def for_client_def message_types)
  moreover have "\<exists>d. client_bound cfg e q m c' = Some (Goes d) \<and> cl_state d = BOUND \<and> requested_ip d = yiaddr q" for m c'
    using assms(5) by (simp add: client_bound_def client_updates)
  then have "\<exists>d. client_ack cfg e q c = Some (Goes d) \<and> cl_state d = BOUND \<and> requested_ip d = yiaddr q"
    using assms(4) secs by (simp add: client_ack_def)
  ultimately show ?thesis using secs by simp
qed

section \<open>The exchange\<close>

text \<open>
  The datagram of what a client has sent, for the server's socket, and the frame of what the server sent
  last, for the client's.
\<close>

definition datagram :: "sent_packet \<Rightarrow> u8 list option" where
  "datagram m =
     (case m of
        Raw_bcast src p \<Rightarrow>
          map_option (drop (sizeof_ip + sizeof_udp)) (udhcp_send_raw_packet p src CLIENT_PORT 0xffffffff SERVER_PORT)
      | Kernel_ucast src dst p \<Rightarrow> udhcp_send_kernel_packet p)"

definition server_hears :: "env \<Rightarrow> server_data \<Rightarrow> sent_packet \<Rightarrow> server \<Rightarrow> server option" where
  "server_hears e sd m s = do {
     d \<leftarrow> datagram m;
     (case udhcp_recv_kernel_packet d of None \<Rightarrow> Some s | Some p \<Rightarrow> dhcpd_packet e sd p s) }"

definition reply_frame :: "server_data \<Rightarrow> server \<Rightarrow> u8 list option" where
  "reply_frame sd s =
     (case outbox s of
        (To_client ip mac, p) # _ \<Rightarrow> udhcp_send_raw_packet p (server_nip sd) SERVER_PORT ip CLIENT_PORT
      | _ \<Rightarrow> None)"

text \<open>A request of the client and the server's answer, after \<open>t\<close> seconds.\<close>

definition asks :: "client_config \<Rightarrow> cenv \<Rightarrow> env \<Rightarrow> server_data \<Rightarrow> u32 \<Rightarrow> u8 list \<Rightarrow> dhcp_packet \<Rightarrow> client \<times> server \<Rightarrow> (client \<times> server) option" where
  "asks cfg ce e sd t junk old = (\<lambda>(c, s). do {
     c \<leftarrow> goes (client_turn cfg ce Timeout c);
     s \<leftarrow> server_hears e sd (hd (sent c)) s;
     frame \<leftarrow> reply_frame sd s;
     c \<leftarrow> goes (client_turn cfg ce (Frame t False junk old frame) c);
     Some (c, s) })"

lemma server_hears_packet:
  assumes "packet_of m = p" and "has p opts" and "cookie p = htonl DHCP_MAGIC"
  obtains q where "same_packet p opts q" and "\<And>s. server_hears e sd m s = dhcpd_packet e sd q s"
proof (cases m)
  case (Raw_bcast src p')
  obtain frame d q where "udhcp_send_raw_packet p src CLIENT_PORT 0xffffffff SERVER_PORT = Some frame"
      "drop (sizeof_ip + sizeof_udp) frame = d" "udhcp_recv_kernel_packet d = Some q" "same_packet p opts q"
    by (rule datagram_arrives [where p = p and opts = opts and src = src]) (use assms in \<open>auto simp: has_def\<close>)
  then show ?thesis using that [of q] assms(1) Raw_bcast by (simp add: server_hears_def datagram_def)
next
  case (Kernel_ucast src dst p')
  obtain d q where "udhcp_send_kernel_packet p = Some d" "udhcp_recv_kernel_packet d = Some q" "same_packet p opts q"
    by (rule datagram_arrives [where p = p and opts = opts]) (use assms in \<open>auto simp: has_def\<close>)
  then show ?thesis using that [of q] assms(1) Kernel_ucast by (simp add: server_hears_def datagram_def)
qed

lemma client_hears_reply:
  assumes "outbox s = (To_client ip mac, r) # rest" and "has r opts" and "cookie r = htonl DHCP_MAGIC" and "packet_ok old"
    and "0 < wait_left c" and "cl_listen c = LISTEN_RAW"
  obtains frame q where "reply_frame sd s = Some frame" and "same_packet r opts q"
    and "client_turn cfg e (Frame t False junk old frame) c = client_packet cfg e q (c\<lparr>already_waited_sec := already_waited_sec c + t\<rparr>)"
proof -
  obtain frame n q where f: "udhcp_send_raw_packet r (server_nip sd) SERVER_PORT ip CLIENT_PORT = Some frame"
      "udhcp_recv_raw_packet False junk frame old = Ok (n, q)" "same_packet r opts q"
    by (rule frame_arrives [where p = r and opts = opts and old = old and src = "server_nip sd" and sport = SERVER_PORT and dst = ip and junk = junk]) (use assms in \<open>auto simp: has_def\<close>)
  have "client_turn cfg e (Frame t False junk old frame) c = client_packet cfg e q (c\<lparr>already_waited_sec := already_waited_sec c + t\<rparr>)"
    using assms(5,6) f(2) by (simp add: client_turn_def client_receives_def Let_def)
  then show ?thesis using that f(1,3) assms(1) by (simp add: reply_frame_def)
qed

text \<open>Surroundings in which the client can work: its interface has one hardware address, what it sends
  leaves, and nobody answers for an address that it is given.\<close>

definition quiet_network :: "cenv \<Rightarrow> u8 list \<Rightarrow> bool" where
  "quiet_network e mac \<longleftrightarrow> length mac = 6 \<and> mac \<noteq> zero_mac \<and>
     (\<forall>n. read_interface e n = Some mac \<and> send_ok e n \<and> (\<forall>ip. arp_silent e n ip))"

lemma quiet_interface_ok: "quiet_network e mac \<Longrightarrow> interface_ok e"
  by (simp add: quiet_network_def interface_ok_def)

text \<open>A turn that ends with a timeout, up to the state.\<close>

lemma quiet_timeout:
  assumes "safe c" and "quiet_network e mac"
  obtains d where "client_turn cfg e Timeout c = client_active cfg e d" and "safe d" and "client_mac d = mac" and "already_waited_sec d = 0"
    and "cl_state d = cl_state c" "packet_num d = packet_num c" "requested_ip d = requested_ip c" "server_addr d = server_addr c"
    "cl_xid d = cl_xid c"
proof -
  let ?d = "(ask c)\<lparr>client_mac := mac, clientid := map_option (\<lambda>_. ethernet_client_id mac) (clientid c), already_waited_sec := 0\<rparr>"
  have "safe ?d" using assms by (auto simp: safe_def client_ok_def ask_def quiet_network_def)
  moreover have "client_turn cfg e Timeout c = client_active cfg e ?d"
    using assms(2) by (simp add: client_turn_def client_timeout_def quiet_network_def)
  ultimately show ?thesis by (intro that [of ?d]) (simp_all add: ask_def)
qed

lemma quiet_leaves: "quiet_network e mac \<Longrightarrow> leaves e c m d \<Longrightarrow> same_control c d \<and> sent d = m # sent c"
  by (auto simp: quiet_network_def leaves_def)

lemma discover_turn:
  assumes "safe c" and "client_config_ok cfg" and "quiet_network e mac" and "cl_state c = INIT_SELECTING" and "packet_num c < discover_retries cfg"
  obtains p others d where "client_turn cfg e Timeout c = Some (Goes d)" and "hd (sent d) = Raw_bcast 0 p"
    and "has p ((DHCP_MESSAGE_TYPE, [DHCPDISCOVER]) # others)" and "from_client d 0 p" and "xid p = cl_xid d" and "client_mac d = mac"
    and "cl_state d = INIT_SELECTING" and "cl_timeout d = discover_timeout cfg" and "already_waited_sec d = 0"
proof -
  obtain c0 where c0: "client_turn cfg e Timeout c = client_active cfg e c0" "safe c0" "client_mac c0 = mac" "already_waited_sec c0 = 0"
    "cl_state c0 = cl_state c" "packet_num c0 = packet_num c"
    by (rule quiet_timeout [OF assms(1,3)]) (rule that)
  define c1 where "c1 = (if packet_num c0 = 0 then ask (c0\<lparr>cl_xid := random_xid e (asked c0)\<rparr>) else c0)"
  have c1: "safe c1" "client_mac c1 = mac" "already_waited_sec c1 = 0" "cl_state c1 = INIT_SELECTING"
    using safe_cong [OF c0(2), of c1] c0 assms(4) by (simp_all add: c1_def ask_def)
  then have "client_ok c1" by (simp add: safe_def)
  then obtain p others d where d: "send_discover cfg e (cl_xid c1) (requested_ip c1) c1 = Some d" "leaves e c1 (Raw_bcast 0 p) d"
      "has p ((DHCP_MESSAGE_TYPE, [DHCPDISCOVER]) # others)" "from_client c1 0 p" "xid p = cl_xid c1"
    by (rule send_discover_leaves [OF _ assms(2)]) (rule that)
  from quiet_leaves [OF assms(3) d(2)] have same: "same_control c1 d" "sent d = Raw_bcast 0 p # sent c1" by simp_all
  let ?d = "d\<lparr>cl_timeout := discover_timeout cfg, packet_num := packet_num d + 1\<rparr>"
  have "client_active cfg e c0 = Some (Goes ?d)"
    using c0(5,6) assms(4,5) d(1) by (cases "packet_num c0 = 0") (simp_all add: client_active_def c1_def)
  then show ?thesis using c0(1) d(3-5) same c1 by (intro that [of ?d p others]) (simp_all add: same_control_def from_client_def)
qed

lemma select_turn:
  assumes "safe c" and "client_config_ok cfg" and "quiet_network e mac" and "cl_state c = REQUESTING" and "packet_num c < 3"
  obtains p others d where "client_turn cfg e Timeout c = Some (Goes d)" and "hd (sent d) = Raw_bcast 0 p"
    and "has p ((DHCP_MESSAGE_TYPE, [DHCPREQUEST]) # id_options d @
      [(DHCP_REQUESTED_IP, le_bytes 4 (requested_ip c)), (DHCP_SERVER_ID, le_bytes 4 (server_addr c))] @ others)"
    and "from_client d 0 p" and "xid p = cl_xid d" and "client_mac d = mac" and "client_ok d"
    and "cl_state d = REQUESTING" and "cl_timeout d = discover_timeout cfg" and "already_waited_sec d = 0"
proof -
  obtain c1 where c1: "client_turn cfg e Timeout c = client_active cfg e c1" "safe c1" "client_mac c1 = mac" "already_waited_sec c1 = 0"
    "cl_state c1 = cl_state c" "packet_num c1 = packet_num c" "requested_ip c1 = requested_ip c" "server_addr c1 = server_addr c"
    by (rule quiet_timeout [OF assms(1,3)]) (rule that)
  then have ok: "client_ok c1" by (simp add: safe_def)
  obtain p others d where d: "send_select cfg e (cl_xid c1) (server_addr c1) (requested_ip c1) c1 = Some d" "leaves e c1 (Raw_bcast 0 p) d"
      "has p ((DHCP_MESSAGE_TYPE, [DHCPREQUEST]) # id_options c1 @
        [(DHCP_REQUESTED_IP, le_bytes 4 (requested_ip c1)), (DHCP_SERVER_ID, le_bytes 4 (server_addr c1))] @ others)"
      "from_client c1 0 p" "xid p = cl_xid c1"
    by (rule send_select_leaves [OF ok assms(2)]) (rule that)
  from quiet_leaves [OF assms(3) d(2)] have same: "same_control c1 d" "sent d = Raw_bcast 0 p # sent c1" by simp_all
  let ?d = "d\<lparr>cl_timeout := discover_timeout cfg, packet_num := packet_num d + 1\<rparr>"
  have "client_active cfg e c1 = Some (Goes ?d)" using c1(5,6) assms(4,5) d(1) unfolding client_active_def by simp
  then show ?thesis using c1 d(3-5) same ok assms(4)
    by (intro that [of ?d p others]) (simp_all add: same_control_def from_client_def id_options_def client_ok_def)
qed

text \<open>The two halves of the exchange, on what has arrived.\<close>

lemma owns_mac: "length mac = 6 \<Longrightarrow> owns sd (mac @ rest) nip s = owns sd mac nip s"
  by (simp add: owns_def get_static_nip_by_mac_def find_lease_by_mac_def)

lemma plain_id_options:
  assumes "client_ok d"
  shows "list_all plain_option ((DHCP_MESSAGE_TYPE, [t]) # id_options d @ [(DHCP_REQUESTED_IP, le_bytes 4 (a :: u32)), (DHCP_SERVER_ID, le_bytes 4 (b :: u32))])"
proof -
  have "le_bytes 4 w \<noteq> []" for w :: u32 by (simp flip: length_0_conv)
  then show ?thesis using assms
    by (auto simp: client_ok_def id_options_def ethernet_client_id_def plain_option_def option_ok_def option_codes DHCP_CLIENT_ID_def)
qed

lemma replied_arrives:
  assumes "replied sd t p s nip s'" and "packet_ok old" and "0 < wait_left c" and "cl_listen c = LISTEN_RAW"
    and "xid p = cl_xid c" and "chaddr p = client_mac c @ rest" and "length (client_mac c) = 6"
  obtains frame n others q where "reply_frame sd s' = Some frame" and "holds_options q (lease_options sd t n @ others)" and "yiaddr q = nip"
    and "\<And>w. for_client (c\<lparr>already_waited_sec := w\<rparr>) q"
    and "client_turn cfg e (Frame k False junk old frame) c = client_packet cfg e q (c\<lparr>already_waited_sec := already_waited_sec c + k\<rparr>)"
proof -
  obtain ip mac r n others where r: "outbox s' = (To_client ip mac, r) # outbox s" "has r (lease_options sd t n @ others)" "answers p r" "yiaddr r = nip"
    using assms(1) by (auto simp: replied_def)
  have "cookie r = htonl DHCP_MAGIC" using r(3) by (simp add: answers_def)
  from client_hears_reply [OF r(1,2) this assms(2-4)] obtain frame q where f: "reply_frame sd s' = Some frame"
      "same_packet r (lease_options sd t n @ others) q"
      "client_turn cfg e (Frame k False junk old frame) c = client_packet cfg e q (c\<lparr>already_waited_sec := already_waited_sec c + k\<rparr>)"
    by metis
  note fields = same_packet_fields [OF f(2)]
  have "for_client (c\<lparr>already_waited_sec := w\<rparr>) q" for w
    using fields r(3) assms(5-7) by (simp add: for_client_def answers_def)
  then show ?thesis using that [OF f(1) fields(11) _ _ f(3)] fields(7) r(4) by simp
qed

lemma offer_half:
  assumes "safe c" and "client_config_ok cfg" and "quiet_network ce mac" and "cl_state c = INIT_SELECTING" and "packet_num c < discover_retries cfg"
    and "table_ok (g_leases s)" and "config_ok sd" and "packet_ok old" and "0 < discover_timeout cfg" and "discover_timeout cfg < 2 ^ 31"
    and "client_turn cfg ce Timeout c = Some (Goes c1)" and "cl_listen c1 = LISTEN_RAW"
    and "server_hears e sd (hd (sent c1)) s = Some s1" and "outbox s1 \<noteq> outbox s"
  shows "\<exists>c2. asks cfg ce e sd k junk old (c, s) = Some (c2, s1) \<and> cl_state c2 = REQUESTING \<and> server_addr c2 = server_nip sd \<and>
    packet_num c2 = 0 \<and> owns sd mac (requested_ip c2) s1 \<and> (\<exists>frame. client_turn cfg ce (Frame k False junk old frame) c1 = Some (Goes c2))"
proof -
  obtain p others where p: "hd (sent c1) = Raw_bcast 0 p" "has p ((DHCP_MESSAGE_TYPE, [DHCPDISCOVER]) # others)" "from_client c1 0 p"
      "xid p = cl_xid c1" "client_mac c1 = mac" "cl_state c1 = INIT_SELECTING" "cl_timeout c1 = discover_timeout cfg" "already_waited_sec c1 = 0"
    using discover_turn [OF assms(1-5)] assms(11) by (metis client_step.inject(1) option.inject)
  have mac: "length mac = 6" "mac \<noteq> zero_mac" using assms(3) by (simp_all add: quiet_network_def)
  have cookie: "cookie p = htonl DHCP_MAGIC" using p(3) by (simp add: from_client_def)
  obtain q where q: "same_packet p ((DHCP_MESSAGE_TYPE, [DHCPDISCOVER]) # others) q" "\<And>s. server_hears e sd (hd (sent c1)) s = dhcpd_packet e sd q s"
    by (rule server_hears_packet [of "hd (sent c1)" p _ e sd, OF _ p(2) cookie]) (simp add: p(1), rule that)
  note fields = same_packet_fields [OF q(1)]
  have q_mac: "chaddr q = mac @ replicate 10 0" "gateway_nip q = 0" using fields p(3,5) by (simp_all add: from_client_def)
  have "udhcp_get_option q DHCP_MESSAGE_TYPE = Some (Some [DHCPDISCOVER])"
    using get_option_prefix [of q "[(DHCP_MESSAGE_TYPE, [DHCPDISCOVER])]" others] fields(11) by (simp add: plain_option_def option_ok_def option_codes)
  with discover_replied [OF fields(12) assms(7,6) q_mac(2) _ _ _ assms(14)] obtain nip where nip: "replied sd DHCPOFFER q s nip s1"
    using assms(13) mac q_mac(1) q(2) by auto
  have left: "0 < wait_left c1" using wait_left_value [of c1] p(7,8) assms(9,10) by simp
  obtain frame n others' q' where f: "reply_frame sd s1 = Some frame" "holds_options q' (lease_options sd DHCPOFFER n @ others')" "yiaddr q' = nip"
      "\<And>w. for_client (c1\<lparr>already_waited_sec := w\<rparr>) q'"
      "client_turn cfg ce (Frame k False junk old frame) c1 = client_packet cfg ce q' (c1\<lparr>already_waited_sec := already_waited_sec c1 + k\<rparr>)"
    by (rule replied_arrives [OF nip assms(8) left assms(12), of "replicate 10 0" cfg ce k junk])
      (use fields(4) p(4,5) q_mac(1) mac(1) in \<open>simp_all\<close>)
  let ?c = "c1\<lparr>already_waited_sec := already_waited_sec c1 + k\<rparr>"
  from client_gets_offer [OF f(2) f(4), of "already_waited_sec c1 + k" cfg ce] p(6)
  have "client_turn cfg ce (Frame k False junk old frame) c1 = Some (Goes (?c\<lparr>server_addr := server_nip sd, requested_ip := nip,
       cl_state := REQUESTING, cl_timeout := 0, packet_num := 0, already_waited_sec := 0\<rparr>))" using f(3,5) by simp
  moreover have "owns sd mac nip s1" using nip q_mac(1) owns_mac [OF mac(1)] by (simp add: replied_def)
  ultimately show ?thesis using assms(11,13) f(1) by (simp add: asks_def goes_def exI [of _ frame])
qed

lemma request_half:
  assumes "safe c" and "client_config_ok cfg" and "quiet_network ce mac" and "cl_state c = REQUESTING" and "packet_num c < 3"
    and "server_addr c = server_nip sd" and "owns sd mac (requested_ip c) s" and "config_ok sd" and "packet_ok old"
    and "0 < discover_timeout cfg" and "discover_timeout cfg < 2 ^ 31" and "\<not> opt_q cfg"
    and "\<forall>d. client_turn cfg ce Timeout c = Some (Goes d) \<longrightarrow> cl_state d = REQUESTING \<longrightarrow> cl_listen d = LISTEN_RAW"
  shows "\<exists>c1 c2 s2 frame. asks cfg ce e sd k junk old (c, s) = Some (c2, s2) \<and> cl_state c2 = BOUND \<and> requested_ip c2 = requested_ip c \<and>
    owns sd mac (requested_ip c) s2 \<and> client_turn cfg ce Timeout c = Some (Goes c1) \<and> cl_state c1 = REQUESTING \<and>
    client_turn cfg ce (Frame k False junk old frame) c1 = Some (Goes c2) \<and>
    (\<exists>q n. packet_ok q \<and> lease_seconds q = Some n \<and> client_packet cfg ce q (c1\<lparr>already_waited_sec := already_waited_sec c1 + k\<rparr>) = Some (Goes c2))"
proof -
  let ?opts = "\<lambda>d. (DHCP_MESSAGE_TYPE, [DHCPREQUEST]) # id_options d @
      [(DHCP_REQUESTED_IP, le_bytes 4 (requested_ip c)), (DHCP_SERVER_ID, le_bytes 4 (server_addr c))]"
  obtain p others c1 where p: "client_turn cfg ce Timeout c = Some (Goes c1)" "hd (sent c1) = Raw_bcast 0 p" "has p (?opts c1 @ others)"
      "from_client c1 0 p" "xid p = cl_xid c1" "client_mac c1 = mac" "client_ok c1" "cl_state c1 = REQUESTING"
      "cl_timeout c1 = discover_timeout cfg" "already_waited_sec c1 = 0"
    by (rule select_turn [OF assms(1-5)]) (rule that, auto)
  have mac: "length mac = 6" "mac \<noteq> zero_mac" using assms(3) by (simp_all add: quiet_network_def)
  have cookie: "cookie p = htonl DHCP_MAGIC" using p(4) by (simp add: from_client_def)
  obtain q where q: "same_packet p (?opts c1 @ others) q" "\<And>s. server_hears e sd (hd (sent c1)) s = dhcpd_packet e sd q s"
    by (rule server_hears_packet [of "hd (sent c1)" p _ e sd, OF _ p(3) cookie]) (simp add: p(2), rule that)
  note fields = same_packet_fields [OF q(1)]
  have q_mac: "chaddr q = mac @ replicate 10 0" "gateway_nip q = 0" "hlen q = 6" "op q = BOOTREQUEST"
    using fields p(4,6) by (simp_all add: from_client_def)
  note found = get_option_prefix [OF fields(11) plain_id_options [OF p(7)]]
  have codes: "map_of (?opts c1) DHCP_MESSAGE_TYPE = Some [DHCPREQUEST]" "map_of (?opts c1) DHCP_SERVER_ID = Some (le_bytes 4 (server_nip sd))"
      "map_of (?opts c1) DHCP_REQUESTED_IP = Some (le_bytes 4 (requested_ip c))"
    by (cases "clientid c1", simp_all add: id_options_def option_codes DHCP_CLIENT_ID_def assms(6))+
  have q_opts: "udhcp_get_option q DHCP_MESSAGE_TYPE = Some (Some [DHCPREQUEST])"
    "udhcp_get_option32 q DHCP_SERVER_ID = Some (Some (le_bytes 4 (server_nip sd)))"
    "udhcp_get_option32 q DHCP_REQUESTED_IP = Some (Some (le_bytes 4 (requested_ip c)))"
    unfolding udhcp_get_option32_def using codes by (simp_all add: found)
  have "take 6 (chaddr q) \<noteq> zero_mac" "owns sd (chaddr q) (requested_ip c) s"
    using q_mac(1) mac owns_mac [OF mac(1)] assms(7) by simp_all
  with request_replied [OF fields(12) assms(8) q_mac(2) _ q_mac(3,4) q_opts]
  obtain s2 where s2: "server_hears e sd (hd (sent c1)) s = Some s2" "replied sd DHCPACK q s (requested_ip c) s2" using q(2) by metis
  have left: "0 < wait_left c1" using wait_left_value [of c1] p(9,10) assms(10,11) by simp
  have listens: "cl_listen c1 = LISTEN_RAW" using assms(13) p(1,8) by blast
  obtain frame n others' q' where f: "reply_frame sd s2 = Some frame" "holds_options q' (lease_options sd DHCPACK n @ others')" "yiaddr q' = requested_ip c"
      "\<And>w. for_client (c1\<lparr>already_waited_sec := w\<rparr>) q'"
      "client_turn cfg ce (Frame k False junk old frame) c1 = client_packet cfg ce q' (c1\<lparr>already_waited_sec := already_waited_sec c1 + k\<rparr>)"
    by (rule replied_arrives [OF s2(2) assms(9) left listens, of "replicate 10 0" cfg ce k junk])
      (use fields(4) p(5,6) q_mac(1) mac(1) in \<open>simp_all\<close>)
  have "\<And>n ip. arp_silent ce n ip" using assms(3) by (simp add: quiet_network_def)
  from client_gets_ack [OF f(2) f(4) _ this assms(12), of "already_waited_sec c1 + k"] p(8)
  obtain c2 where c2: "client_turn cfg ce (Frame k False junk old frame) c1 = Some (Goes c2)" "cl_state c2 = BOUND" "requested_ip c2 = requested_ip c"
      "lease_seconds q' = Some (max n 122)"
    using f(3,5) by auto
  have "packet_ok q'" using f(2) by (simp add: holds_options_def)
  moreover note c2(4)
  moreover have "client_packet cfg ce q' (c1\<lparr>already_waited_sec := already_waited_sec c1 + k\<rparr>) = Some (Goes c2)" using c2(1) f(5) by simp
  moreover have "owns sd mac (requested_ip c) s2" using s2(2) q_mac(1) owns_mac [OF mac(1)] by (simp add: replied_def)
  moreover have "asks cfg ce e sd k junk old (c, s) = Some (c2, s2)" using p(1) s2(1) f(1) c2(1) by (simp add: asks_def goes_def)
  ultimately show ?thesis using p(1,8) c2(1-3) by blast
qed

lemma exchange_binds:
  assumes "client_run cfg ce c" and "client_config_ok cfg" and "quiet_network ce mac" and "\<not> opt_q cfg"
    and "0 < discover_timeout cfg" and "discover_timeout cfg < 2 ^ 31"
    and "cl_state c = INIT_SELECTING" and "packet_num c < discover_retries cfg"
    and "dhcpd_run e sd s" and "config_ok sd" and "event_ok (Frame k False junk old [])"
    and "client_turn cfg ce Timeout c = Some (Goes c1)" and "server_hears e sd (hd (sent c1)) s = Some s1" and "outbox s1 \<noteq> outbox s"
  shows "\<exists>c2 c3 s3 d q n. asks cfg ce e sd k junk old (c, s) = Some (c2, s1) \<and> asks cfg ce e sd k junk old (c2, s1) = Some (c3, s3) \<and>
    cl_state c3 = BOUND \<and> configured_ip c3 = Some (requested_ip c2) \<and> owns sd mac (requested_ip c2) s3 \<and> client_run cfg ce c3 \<and>
    client_run cfg ce d \<and> cl_state d = REQUESTING \<and> packet_ok q \<and> lease_seconds q = Some n \<and>
    client_packet cfg ce q (d\<lparr>already_waited_sec := already_waited_sec d + k\<rparr>) = Some (Goes c3)"
proof -
  note net = quiet_interface_ok [OF assms(3)]
  have frame_ok: "event_ok (Frame k False junk old frame)" for frame using assms(11) by simp
  then have old: "packet_ok old" by simp
  note safe = run_safe [OF _ assms(2) net]
  have run1: "client_run cfg ce c1" by (rule client_run.turned [OF assms(1) _ assms(12)]) simp
  have raw: "cl_state d \<in> {INIT_SELECTING, REQUESTING} \<Longrightarrow> cl_listen d = LISTEN_RAW" if "client_run cfg ce d" for d
    using run_inv [OF that] by (auto simp: client_inv_def)
  have "cl_state c1 = INIT_SELECTING"
    using discover_turn [OF safe [OF assms(1)] assms(2,3,7,8)] assms(12) by (metis client_step.inject(1) option.inject)
  then have "cl_listen c1 = LISTEN_RAW" using raw [OF run1] by simp
  from offer_half [OF safe [OF assms(1)] assms(2,3,7,8) dhcpd_run_ok [OF assms(9,10)] assms(10) old assms(5,6,12) this assms(13,14)]
  obtain c2 frame where c2: "asks cfg ce e sd k junk old (c, s) = Some (c2, s1)" "cl_state c2 = REQUESTING" "server_addr c2 = server_nip sd"
      "packet_num c2 = 0" "owns sd mac (requested_ip c2) s1" "client_turn cfg ce (Frame k False junk old frame) c1 = Some (Goes c2)" by blast
  have run2: "client_run cfg ce c2" by (rule client_run.turned [OF run1 frame_ok c2(6)])
  have listens: "\<forall>d. client_turn cfg ce Timeout c2 = Some (Goes d) \<longrightarrow> cl_state d = REQUESTING \<longrightarrow> cl_listen d = LISTEN_RAW"
  proof (intro allI impI)
    fix d
    assume d: "client_turn cfg ce Timeout c2 = Some (Goes d)" "cl_state d = REQUESTING"
    have "client_run cfg ce d" by (rule client_run.turned [OF run2 _ d(1)]) simp
    then show "cl_listen d = LISTEN_RAW" using raw d(2) by simp
  qed
  have "packet_num c2 < 3" using c2(4) by simp
  from request_half [OF safe [OF run2] assms(2,3) c2(2) this c2(3,5) assms(10) old assms(5,6,4) listens, of e k junk]
  obtain d c3 s3 frame' q n where c3: "asks cfg ce e sd k junk old (c2, s1) = Some (c3, s3)" "cl_state c3 = BOUND"
      "requested_ip c3 = requested_ip c2" "owns sd mac (requested_ip c2) s3" "client_turn cfg ce Timeout c2 = Some (Goes d)"
      "client_turn cfg ce (Frame k False junk old frame') d = Some (Goes c3)" "cl_state d = REQUESTING"
      "packet_ok q" "lease_seconds q = Some n"
      "client_packet cfg ce q (d\<lparr>already_waited_sec := already_waited_sec d + k\<rparr>) = Some (Goes c3)"
    by (elim exE conjE) (rule that)
  have run3: "client_run cfg ce d" by (rule client_run.turned [OF run2 _ c3(5)]) simp
  then have run4: "client_run cfg ce c3" by (rule client_run.turned [OF _ frame_ok c3(6)])
  then have "configured_ip c3 = Some (requested_ip c2)"
    using run_inv [of cfg ce c3] c3(2,3) by (simp add: client_inv_def has_lease_def)
  then show ?thesis by (intro exI conjI) (rule c2(1) c3(1,2,4,7-10) run3 run4, assumption?)+
qed

text \<open>C8: A DISCOVER that a client broadcasts and the server answers with an offer leads to a lease that
  both agree on: the client, asked by the clock and by the answers alone, requests the address, gets the
  ACK and has configured the address that the server then holds for its hardware address, in the table or
  as its static lease.\<close>

theorem dhcp_exchange_agrees:
  assumes "client_run cfg ce c" and "client_config_ok cfg" and "quiet_network ce mac" and "\<not> opt_q cfg"
    and "0 < discover_timeout cfg" and "discover_timeout cfg < 2 ^ 31"
    and "cl_state c = INIT_SELECTING" and "packet_num c < discover_retries cfg"
    and "dhcpd_run e sd s" and "config_ok sd" and "event_ok (Frame k False junk old [])"
    and "client_turn cfg ce Timeout c = Some (Goes c1)" and "server_hears e sd (hd (sent c1)) s = Some s1" and "outbox s1 \<noteq> outbox s"
  shows "\<exists>c2 c3 s3 ip. asks cfg ce e sd k junk old (c, s) = Some (c2, s1) \<and> asks cfg ce e sd k junk old (c2, s1) = Some (c3, s3) \<and>
    cl_state c3 = BOUND \<and> configured_ip c3 = Some ip \<and> owns sd mac ip s3"
  using exchange_binds [OF assms] by (elim exE conjE) (intro exI conjI)

text \<open>The client and the server of the samples.\<close>

definition server0 :: server where "server0 = dhcpd_start sample_env sample_config None"
definition offered0 :: server where "offered0 = the (server_hears sample_env sample_config (hd (sent selecting0)) server0)"
definition junk0 :: "u8 list" where "junk0 = replicate (sizeof_ip + sizeof_udp + sizeof_dhcp) 0"

lemma offered0_values:
  "map_option (\<lambda>s. length (outbox s)) (server_hears sample_env sample_config (hd (sent selecting0)) server0) = Some 1"
  by code_simp

lemma sample_net:
  "quiet_network cenv0 client_mac0" "\<not> opt_q client_config0" "0 < discover_timeout client_config0" "discover_timeout client_config0 < 2 ^ 31"
  "cl_state started0 = INIT_SELECTING" "packet_num started0 < discover_retries client_config0"
  by (simp_all add: quiet_network_def cenv0_def client_mac0_def zero_mac_def client_config0_def started0_def client_start_def numeral_eq_Suc)

lemma server0_run: "dhcpd_run sample_env sample_config server0"
  unfolding server0_def by (rule dhcpd_run.started) (simp add: file_ok_def)

lemma offered0_hears: "server_hears sample_env sample_config (hd (sent selecting0)) server0 = Some offered0" "outbox offered0 \<noteq> outbox server0"
proof -
  show hears: "server_hears sample_env sample_config (hd (sent selecting0)) server0 = Some offered0"
    using offered0_values by (auto simp: offered0_def)
  have "outbox server0 = []" by (simp add: server0_def dhcpd_start_def read_leases_def Let_def)
  then show "outbox offered0 \<noteq> outbox server0" using offered0_values hears by auto
qed

lemma sample_event: "event_ok (Frame 1 False junk0 empty_packet [])"
  by (simp add: junk0_def empty_packet_ok)

lemmas sample_exchange = started0_run client_config0_ok sample_net(1-6) server0_run sample_config_ok sample_event selecting0_turn offered0_hears

theorem dhcp_exchange_agrees_witness:
  "\<exists>c2 c3 s3 ip. asks client_config0 cenv0 sample_env sample_config 1 junk0 empty_packet (started0, server0) = Some (c2, offered0) \<and>
    asks client_config0 cenv0 sample_env sample_config 1 junk0 empty_packet (c2, offered0) = Some (c3, s3) \<and>
    cl_state c3 = BOUND \<and> configured_ip c3 = Some ip \<and> owns sample_config client_mac0 ip s3"
  by (rule dhcp_exchange_agrees [OF sample_exchange])

text \<open>What the properties of the client say of the client of the sample, once it is bound.\<close>

theorem dhcpc_configured_iff_lease_witness:
  "\<exists>c. client_run client_config0 cenv0 c \<and> cl_state c = BOUND \<and> configured_ip c = Some (requested_ip c)"
proof -
  obtain c where c: "client_run client_config0 cenv0 c" "cl_state c = BOUND" using exchange_binds [OF sample_exchange] by blast
  then show ?thesis using dhcpc_configured_iff_lease [OF c(1)] by (auto simp: has_lease_def intro!: exI [of _ c])
qed

theorem dhcpc_gives_up_in_time_witness:
  "\<exists>c ip n k t d. cl_state c = BOUND \<and> asking client_config0 cenv0 ip k c \<and> cl_timeout c < 2 ^ k \<and>
    idle client_config0 cenv0 (Suc k) c = Some (t, d) \<and> t < 1000 * (uint (n :: u32) + 1) \<and>
    cl_state d = INIT_SELECTING \<and> configured_ip d = None"
proof -
  obtain c d q n where c: "cl_state c = BOUND" "client_run client_config0 cenv0 d" "cl_state d = REQUESTING" "packet_ok q" "lease_seconds q = Some n"
      "client_packet client_config0 cenv0 q (d\<lparr>already_waited_sec := already_waited_sec d + 1\<rparr>) = Some (Goes c)"
    using exchange_binds [OF sample_exchange] by blast
  have up: "interface_up cenv0" by (simp add: interface_up_def cenv0_def)
  have "cl_state d \<noteq> BOUND" using c(3) by simp
  from dhcpc_gives_up_in_time [OF c(2) client_config0_ok cenv0_ok up c(4,6) this c(1,5)] c(1) show ?thesis by blast
qed

end
