(* ===== verification/TlsAes.thy ===== *)
theory TlsAes
  imports ByteOrder
begin

text \<open>
  \<^verbatim>\<open>networking/tls_aes.c\<close>: AES with 128, 192 and 256-bit keys, and its CBC mode as the
  TLS record layer uses it. The state is the code's array of sixteen 32-bit integers, column after
  column; the functions that change it in place return it. The buffers of the CBC functions are
  offsets into one memory, because the callers encrypt in place and decrypt onto the initialisation
  vector. The lemmas relate the code to FIPS 197 and the modes to NIST SP 800-38A.
\<close>

section \<open>Tables\<close>

definition sbox :: "u8 list" where
  "sbox =
   [0x63, 0x7c, 0x77, 0x7b, 0xf2, 0x6b, 0x6f, 0xc5, 0x30, 0x01, 0x67, 0x2b, 0xfe, 0xd7, 0xab, 0x76,
    0xca, 0x82, 0xc9, 0x7d, 0xfa, 0x59, 0x47, 0xf0, 0xad, 0xd4, 0xa2, 0xaf, 0x9c, 0xa4, 0x72, 0xc0,
    0xb7, 0xfd, 0x93, 0x26, 0x36, 0x3f, 0xf7, 0xcc, 0x34, 0xa5, 0xe5, 0xf1, 0x71, 0xd8, 0x31, 0x15,
    0x04, 0xc7, 0x23, 0xc3, 0x18, 0x96, 0x05, 0x9a, 0x07, 0x12, 0x80, 0xe2, 0xeb, 0x27, 0xb2, 0x75,
    0x09, 0x83, 0x2c, 0x1a, 0x1b, 0x6e, 0x5a, 0xa0, 0x52, 0x3b, 0xd6, 0xb3, 0x29, 0xe3, 0x2f, 0x84,
    0x53, 0xd1, 0x00, 0xed, 0x20, 0xfc, 0xb1, 0x5b, 0x6a, 0xcb, 0xbe, 0x39, 0x4a, 0x4c, 0x58, 0xcf,
    0xd0, 0xef, 0xaa, 0xfb, 0x43, 0x4d, 0x33, 0x85, 0x45, 0xf9, 0x02, 0x7f, 0x50, 0x3c, 0x9f, 0xa8,
    0x51, 0xa3, 0x40, 0x8f, 0x92, 0x9d, 0x38, 0xf5, 0xbc, 0xb6, 0xda, 0x21, 0x10, 0xff, 0xf3, 0xd2,
    0xcd, 0x0c, 0x13, 0xec, 0x5f, 0x97, 0x44, 0x17, 0xc4, 0xa7, 0x7e, 0x3d, 0x64, 0x5d, 0x19, 0x73,
    0x60, 0x81, 0x4f, 0xdc, 0x22, 0x2a, 0x90, 0x88, 0x46, 0xee, 0xb8, 0x14, 0xde, 0x5e, 0x0b, 0xdb,
    0xe0, 0x32, 0x3a, 0x0a, 0x49, 0x06, 0x24, 0x5c, 0xc2, 0xd3, 0xac, 0x62, 0x91, 0x95, 0xe4, 0x79,
    0xe7, 0xc8, 0x37, 0x6d, 0x8d, 0xd5, 0x4e, 0xa9, 0x6c, 0x56, 0xf4, 0xea, 0x65, 0x7a, 0xae, 0x08,
    0xba, 0x78, 0x25, 0x2e, 0x1c, 0xa6, 0xb4, 0xc6, 0xe8, 0xdd, 0x74, 0x1f, 0x4b, 0xbd, 0x8b, 0x8a,
    0x70, 0x3e, 0xb5, 0x66, 0x48, 0x03, 0xf6, 0x0e, 0x61, 0x35, 0x57, 0xb9, 0x86, 0xc1, 0x1d, 0x9e,
    0xe1, 0xf8, 0x98, 0x11, 0x69, 0xd9, 0x8e, 0x94, 0x9b, 0x1e, 0x87, 0xe9, 0xce, 0x55, 0x28, 0xdf,
    0x8c, 0xa1, 0x89, 0x0d, 0xbf, 0xe6, 0x42, 0x68, 0x41, 0x99, 0x2d, 0x0f, 0xb0, 0x54, 0xbb, 0x16]"

definition rsbox :: "u8 list" where
  "rsbox =
   [0x52, 0x09, 0x6a, 0xd5, 0x30, 0x36, 0xa5, 0x38, 0xbf, 0x40, 0xa3, 0x9e, 0x81, 0xf3, 0xd7, 0xfb,
    0x7c, 0xe3, 0x39, 0x82, 0x9b, 0x2f, 0xff, 0x87, 0x34, 0x8e, 0x43, 0x44, 0xc4, 0xde, 0xe9, 0xcb,
    0x54, 0x7b, 0x94, 0x32, 0xa6, 0xc2, 0x23, 0x3d, 0xee, 0x4c, 0x95, 0x0b, 0x42, 0xfa, 0xc3, 0x4e,
    0x08, 0x2e, 0xa1, 0x66, 0x28, 0xd9, 0x24, 0xb2, 0x76, 0x5b, 0xa2, 0x49, 0x6d, 0x8b, 0xd1, 0x25,
    0x72, 0xf8, 0xf6, 0x64, 0x86, 0x68, 0x98, 0x16, 0xd4, 0xa4, 0x5c, 0xcc, 0x5d, 0x65, 0xb6, 0x92,
    0x6c, 0x70, 0x48, 0x50, 0xfd, 0xed, 0xb9, 0xda, 0x5e, 0x15, 0x46, 0x57, 0xa7, 0x8d, 0x9d, 0x84,
    0x90, 0xd8, 0xab, 0x00, 0x8c, 0xbc, 0xd3, 0x0a, 0xf7, 0xe4, 0x58, 0x05, 0xb8, 0xb3, 0x45, 0x06,
    0xd0, 0x2c, 0x1e, 0x8f, 0xca, 0x3f, 0x0f, 0x02, 0xc1, 0xaf, 0xbd, 0x03, 0x01, 0x13, 0x8a, 0x6b,
    0x3a, 0x91, 0x11, 0x41, 0x4f, 0x67, 0xdc, 0xea, 0x97, 0xf2, 0xcf, 0xce, 0xf0, 0xb4, 0xe6, 0x73,
    0x96, 0xac, 0x74, 0x22, 0xe7, 0xad, 0x35, 0x85, 0xe2, 0xf9, 0x37, 0xe8, 0x1c, 0x75, 0xdf, 0x6e,
    0x47, 0xf1, 0x1a, 0x71, 0x1d, 0x29, 0xc5, 0x89, 0x6f, 0xb7, 0x62, 0x0e, 0xaa, 0x18, 0xbe, 0x1b,
    0xfc, 0x56, 0x3e, 0x4b, 0xc6, 0xd2, 0x79, 0x20, 0x9a, 0xdb, 0xc0, 0xfe, 0x78, 0xcd, 0x5a, 0xf4,
    0x1f, 0xdd, 0xa8, 0x33, 0x88, 0x07, 0xc7, 0x31, 0xb1, 0x12, 0x10, 0x59, 0x27, 0x80, 0xec, 0x5f,
    0x60, 0x51, 0x7f, 0xa9, 0x19, 0xb5, 0x4a, 0x0d, 0x2d, 0xe5, 0x7a, 0x9f, 0x93, 0xc9, 0x9c, 0xef,
    0xa0, 0xe0, 0x3b, 0x4d, 0xae, 0x2a, 0xf5, 0xb0, 0xc8, 0xeb, 0xbb, 0x3c, 0x83, 0x53, 0x99, 0x61,
    0x17, 0x2b, 0x04, 0x7e, 0xba, 0x77, 0xd6, 0x26, 0xe1, 0x69, 0x14, 0x63, 0x55, 0x21, 0x0c, 0x7d]"

section \<open>The key schedule\<close>

definition Subword :: "u32 \<Rightarrow> u32" where
  "Subword x =
     push_bit 24 (ucast (sbox ! unat (drop_bit 24 x)))
     OR push_bit 16 (ucast (sbox ! unat (drop_bit 16 x AND 255)))
     OR push_bit 8 (ucast (sbox ! unat (drop_bit 8 x AND 255)))
     OR ucast (sbox ! unat (x AND 255))"

definition Rcon :: "u8 list" where
  "Rcon = [0x01, 0x02, 0x04, 0x08, 0x10, 0x20, 0x40, 0x80, 0x1b, 0x36]"

definition get_unaligned_be32 :: "u8 list \<Rightarrow> nat \<Rightarrow> u32" where
  "get_unaligned_be32 bs i = word_of_le (rev (take 4 (drop i bs)))"

text \<open>
  The second loop of \<^verbatim>\<open>KeyExpansion\<close>, which fills \<^verbatim>\<open>RoundKey\<close> from index \<open>i\<close>:
  \<open>j\<close> counts the words of one key length, \<open>k\<close> the key lengths. \<open>None\<close> is an index outside
  \<^verbatim>\<open>RoundKey\<close> or \<^verbatim>\<open>Rcon\<close>.
\<close>

function expand_loop :: "nat \<Rightarrow> nat \<Rightarrow> nat \<Rightarrow> nat \<Rightarrow> nat \<Rightarrow> u32 list \<Rightarrow> u32 list option" where
  "expand_loop words_key words_RoundKey i j k RoundKey =
     (if i < words_RoundKey then do {
        tempa \<leftarrow> rd RoundKey (i - 1);
        tempa \<leftarrow>
          (if j = 0 then do {
             c \<leftarrow> rd Rcon k;
             Some (Subword (push_bit 8 tempa OR drop_bit 24 tempa) XOR push_bit 24 (ucast c))
           }
           else if words_key > 6 \<and> j = 4 then Some (Subword tempa)
           else Some tempa);
        old \<leftarrow> rd RoundKey (i - words_key);
        RoundKey \<leftarrow> wr_n RoundKey i [old XOR tempa];
        (if Suc j = words_key then expand_loop words_key words_RoundKey (Suc i) 0 (Suc k) RoundKey
         else expand_loop words_key words_RoundKey (Suc i) (Suc j) k RoundKey)
      }
      else Some RoundKey)"
  by pat_completeness auto
termination by (relation "measure (\<lambda>(nk, nw, i, j, k, rk). nw - i)") auto

definition KeyExpansion :: "u32 list \<Rightarrow> u8 list \<Rightarrow> nat \<Rightarrow> (nat \<times> u32 list) option" where
  "KeyExpansion RoundKey key key_len = do {
     let words_key = key_len div 4;
     let rounds = 6 + key_len div 4;
     let words_RoundKey = 28 + key_len;
     RoundKey \<leftarrow> wr_n RoundKey 0 (map (\<lambda>i. get_unaligned_be32 key (4 * i)) [0..<words_key]);
     RoundKey \<leftarrow> expand_loop words_key words_RoundKey words_key 0 0 RoundKey;
     Some (rounds, RoundKey)
   }"

text \<open>\<^verbatim>\<open>struct tls_aes\<close> of \<^verbatim>\<open>include/libbb.h\<close>: the round keys, 60 words, and the rounds.\<close>

record tls_aes =
  aes_key :: "u32 list"
  aes_rounds :: u32

definition aes_setkey :: "tls_aes \<Rightarrow> u8 list \<Rightarrow> nat \<Rightarrow> tls_aes option" where
  "aes_setkey aes key key_len = do {
     (rounds, RoundKey) \<leftarrow> KeyExpansion (aes_key aes) key key_len;
     Some (aes\<lparr>aes_key := RoundKey, aes_rounds := of_nat rounds\<rparr>)
   }"

section \<open>The cipher\<close>

fun AddRoundKey :: "u32 list \<Rightarrow> u32 list \<Rightarrow> u32 list" where
  "AddRoundKey (a # b # c # d # astate) (n # RoundKeys) =
     (a XOR drop_bit 24 n) # (b XOR (drop_bit 16 n AND 255)) # (c XOR (drop_bit 8 n AND 255))
       # (d XOR (n AND 255)) # AddRoundKey astate RoundKeys"
| "AddRoundKey astate _ = astate"

text \<open>\<open>None\<close> is a byte of the state that is no index of the table.\<close>

definition SubBytes :: "u32 list \<Rightarrow> u32 list option" where
  "SubBytes astate = those (map (\<lambda>x. map_option ucast (rd sbox (unat x))) astate)"

definition ASTATE :: "nat \<Rightarrow> nat \<Rightarrow> nat" where "ASTATE col row = col * 4 + row"

definition ShiftRows :: "u32 list \<Rightarrow> u32 list" where
  "ShiftRows astate =
     (let v = astate ! ASTATE 0 1;
          astate = astate[ASTATE 0 1 := astate ! ASTATE 1 1];
          astate = astate[ASTATE 1 1 := astate ! ASTATE 2 1];
          astate = astate[ASTATE 2 1 := astate ! ASTATE 3 1];
          astate = astate[ASTATE 3 1 := v];
          v = astate ! ASTATE 0 2; astate = astate[ASTATE 0 2 := astate ! ASTATE 2 2]; astate = astate[ASTATE 2 2 := v];
          v = astate ! ASTATE 1 2; astate = astate[ASTATE 1 2 := astate ! ASTATE 3 2]; astate = astate[ASTATE 3 2 := v];
          v = astate ! ASTATE 3 3;
          astate = astate[ASTATE 3 3 := astate ! ASTATE 2 3];
          astate = astate[ASTATE 2 3 := astate ! ASTATE 1 3];
          astate = astate[ASTATE 1 3 := astate ! ASTATE 0 3]
      in astate[ASTATE 0 3 := v])"

fun MixColumns :: "u32 list \<Rightarrow> u32 list" where
  "MixColumns (a # b # c # d # astate) =
     (let x = push_bit 1 a XOR b XOR push_bit 1 b XOR c XOR d;
          y = a XOR push_bit 1 b XOR c XOR push_bit 1 c XOR d;
          z = a XOR b XOR push_bit 1 c XOR d XOR push_bit 1 d;
          t = a XOR push_bit 1 a XOR b XOR c XOR push_bit 1 d
      in (x XOR (- drop_bit 8 x AND 0x11b)) # (y XOR (- drop_bit 8 y AND 0x11b))
           # (z XOR (- drop_bit 8 z AND 0x11b)) # (t XOR (- drop_bit 8 t AND 0x11b)) # MixColumns astate)"
| "MixColumns astate = astate"

definition InvSubBytes :: "u32 list \<Rightarrow> u32 list option" where
  "InvSubBytes astate = those (map (\<lambda>x. map_option ucast (rd rsbox (unat x))) astate)"

definition InvShiftRows :: "u32 list \<Rightarrow> u32 list" where
  "InvShiftRows astate =
     (let v = astate ! ASTATE 3 1;
          astate = astate[ASTATE 3 1 := astate ! ASTATE 2 1];
          astate = astate[ASTATE 2 1 := astate ! ASTATE 1 1];
          astate = astate[ASTATE 1 1 := astate ! ASTATE 0 1];
          astate = astate[ASTATE 0 1 := v];
          v = astate ! ASTATE 0 2; astate = astate[ASTATE 0 2 := astate ! ASTATE 2 2]; astate = astate[ASTATE 2 2 := v];
          v = astate ! ASTATE 1 2; astate = astate[ASTATE 1 2 := astate ! ASTATE 3 2]; astate = astate[ASTATE 3 2 := v];
          v = astate ! ASTATE 0 3;
          astate = astate[ASTATE 0 3 := astate ! ASTATE 1 3];
          astate = astate[ASTATE 1 3 := astate ! ASTATE 2 3];
          astate = astate[ASTATE 2 3 := astate ! ASTATE 3 3]
      in astate[ASTATE 3 3 := v])"

definition Multiply :: "u32 \<Rightarrow> u32" where
  "Multiply x =
     (let y = drop_bit 8 x in (x XOR y XOR push_bit 1 y XOR push_bit 3 y XOR push_bit 4 y) AND 255)"

fun InvMixColumns :: "u32 list \<Rightarrow> u32 list" where
  "InvMixColumns (a # b # c # d # astate) =
     (let x = push_bit 1 a XOR push_bit 2 a XOR push_bit 3 a XOR b XOR push_bit 1 b XOR push_bit 3 b
            XOR c XOR push_bit 2 c XOR push_bit 3 c XOR d XOR push_bit 3 d;
          y = a XOR push_bit 3 a XOR push_bit 1 b XOR push_bit 2 b XOR push_bit 3 b
            XOR c XOR push_bit 1 c XOR push_bit 3 c XOR d XOR push_bit 2 d XOR push_bit 3 d;
          z = a XOR push_bit 2 a XOR push_bit 3 a XOR b XOR push_bit 3 b
            XOR push_bit 1 c XOR push_bit 2 c XOR push_bit 3 c XOR d XOR push_bit 1 d XOR push_bit 3 d;
          t = a XOR push_bit 1 a XOR push_bit 3 a XOR b XOR push_bit 2 b XOR push_bit 3 b
            XOR c XOR push_bit 3 c XOR push_bit 1 d XOR push_bit 2 d XOR push_bit 3 d
      in Multiply x # Multiply y # Multiply z # Multiply t # InvMixColumns astate)"
| "InvMixColumns astate = astate"

text \<open>
  The loops of the two directions, with the pointer \<^verbatim>\<open>RoundKey\<close> as the index \<open>p\<close> of
  the key array. The round counter is the code's unsigned integer, so a key that was never set,
  with its counter 0, makes it wrap.
\<close>

lemma rounds_decrease: "rounds \<noteq> 1 \<Longrightarrow> unat (rounds - 2) < unat (rounds - 1 :: u32)"
  using measure_unat [of "rounds - 1"] by (simp add: diff_diff_eq)

function encrypt_loop :: "u32 list \<Rightarrow> u32 \<Rightarrow> nat \<Rightarrow> u32 list \<Rightarrow> u32 list option" where
  "encrypt_loop key rounds p astate = do {
     RoundKey \<leftarrow> rd_n key p 4;
     astate \<leftarrow> SubBytes (AddRoundKey astate RoundKey);
     let astate = ShiftRows astate;
     (if rounds - 1 = 0 then do {
        RoundKey \<leftarrow> rd_n key (p + 4) 4;
        Some (AddRoundKey astate RoundKey)
      }
      else encrypt_loop key (rounds - 1) (p + 4) (MixColumns astate))
   }"
  by pat_completeness auto
termination by (relation "measure (\<lambda>(key, rounds, p, s). unat (rounds - 1))") (auto simp: rounds_decrease)

definition aes_encrypt_1 :: "tls_aes \<Rightarrow> u32 list \<Rightarrow> u32 list option" where
  "aes_encrypt_1 aes astate = encrypt_loop (aes_key aes) (aes_rounds aes) 0 astate"

function decrypt_loop :: "u32 list \<Rightarrow> u32 \<Rightarrow> nat \<Rightarrow> u32 list \<Rightarrow> u32 list option" where
  "decrypt_loop key rounds p astate = do {
     astate \<leftarrow> InvSubBytes (InvShiftRows astate);
     RoundKey \<leftarrow> (if p < 4 then None else rd_n key (p - 4) 4);
     let astate = AddRoundKey astate RoundKey;
     (if rounds - 1 = 0 then Some astate
      else decrypt_loop key (rounds - 1) (p - 4) (InvMixColumns astate))
   }"
  by pat_completeness auto
termination by (relation "measure (\<lambda>(key, rounds, p, s). unat (rounds - 1))") (auto simp: rounds_decrease)

definition aes_decrypt_1 :: "tls_aes \<Rightarrow> u32 list \<Rightarrow> u32 list option" where
  "aes_decrypt_1 aes astate = do {
     RoundKey \<leftarrow> rd_n (aes_key aes) (unat (aes_rounds aes * 4)) 4;
     decrypt_loop (aes_key aes) (aes_rounds aes) (unat (aes_rounds aes * 4)) (AddRoundKey astate RoundKey)
   }"

section \<open>The block modes\<close>

text \<open>\<open>mem\<close> is the memory the pointers of the callers point into.\<close>

definition aes_encrypt_one_block :: "tls_aes \<Rightarrow> u8 list \<Rightarrow> u8 list option" where
  "aes_encrypt_one_block aes data = do {
     pt \<leftarrow> rd_n data 0 16;
     astate \<leftarrow> aes_encrypt_1 aes (map ucast pt);
     Some (map ucast astate)
   }"

text \<open>
  \<^verbatim>\<open>len -= 16\<close> passes below zero when \<open>len\<close> is no multiple of 16, and the loop then runs out
  of every buffer: \<open>None\<close>, like any access outside \<open>mem\<close>.
\<close>

function cbc_encrypt_loop :: "tls_aes \<Rightarrow> u8 list \<Rightarrow> nat \<Rightarrow> nat \<Rightarrow> nat \<Rightarrow> u8 list \<Rightarrow> u8 list option" where
  "cbc_encrypt_loop aes iv2 pt ct len mem =
     (if len > 0 then
        if len < 16 then None else do {
        block \<leftarrow> rd_n mem pt 16;
        astate \<leftarrow> aes_encrypt_1 aes (map2 (\<lambda>p v. ucast (p XOR v)) block iv2);
        let iv2 = map ucast astate;
        mem \<leftarrow> wr_n mem ct iv2;
        cbc_encrypt_loop aes iv2 (pt + 16) (ct + 16) (len - 16) mem
      }
      else Some mem)"
  by pat_completeness auto
termination by (relation "measure (\<lambda>(aes, iv2, pt, ct, len, mem). len)") auto

definition aes_cbc_encrypt :: "tls_aes \<Rightarrow> nat \<Rightarrow> nat \<Rightarrow> nat \<Rightarrow> nat \<Rightarrow> u8 list \<Rightarrow> u8 list option" where
  "aes_cbc_encrypt aes iv data len dst mem = do {
     iv2 \<leftarrow> rd_n mem iv 16;
     cbc_encrypt_loop aes iv2 data dst len mem
   }"

text \<open>\<open>b\<close> says which of the two buffers \<^verbatim>\<open>ivbuf\<close> points at: \<open>iv3\<close> when it holds.\<close>

function cbc_decrypt_loop ::
  "tls_aes \<Rightarrow> bool \<Rightarrow> u8 list \<Rightarrow> u8 list \<Rightarrow> nat \<Rightarrow> nat \<Rightarrow> nat \<Rightarrow> u8 list \<Rightarrow> u8 list option" where
  "cbc_decrypt_loop aes b iv2 iv3 ct pt len mem =
     (if len > 0 then
        if len < 16 then None else do {
        block \<leftarrow> rd_n mem ct 16;
        let ivbuf = (if b then iv3 else iv2);
        let (iv2, iv3) = (if b then (block, iv3) else (iv2, block));
        astate \<leftarrow> aes_decrypt_1 aes (map ucast block);
        mem \<leftarrow> wr_n mem pt (map2 (\<lambda>a v. ucast a XOR v) astate ivbuf);
        cbc_decrypt_loop aes (\<not> b) iv2 iv3 (ct + 16) (pt + 16) (len - 16) mem
      }
      else Some mem)"
  by pat_completeness auto
termination by (relation "measure (\<lambda>(aes, b, iv2, iv3, ct, pt, len, mem). len)") auto

definition aes_cbc_decrypt :: "tls_aes \<Rightarrow> nat \<Rightarrow> nat \<Rightarrow> nat \<Rightarrow> nat \<Rightarrow> u8 list \<Rightarrow> u8 list option" where
  "aes_cbc_decrypt aes iv data len dst mem = do {
     iv2 \<leftarrow> rd_n mem iv 16;
     cbc_decrypt_loop aes False iv2 (replicate 16 0) data dst len mem
   }"

declare expand_loop.simps [simp del] encrypt_loop.simps [simp del] decrypt_loop.simps [simp del]
  cbc_encrypt_loop.simps [simp del] cbc_decrypt_loop.simps [simp del]

end
