(* ===== verification/TlsAesProofs.thy ===== *)
theory TlsAesProofs
  imports TlsAes
begin

text \<open>
  AES of \<^verbatim>\<open>networking/tls_aes.c\<close> against FIPS 197: the word-sized steps are the byte-wise
  steps of the standard over the field of 256 elements, the key schedule is the standard's
  recurrence, the cipher is its Cipher and the decryption inverts it; CBC on overlapping buffers is
  CBC of SP 800-38A.
\<close>

section \<open>The field of 256 elements\<close>

definition xtime :: "u8 \<Rightarrow> u8" where
  "xtime x = push_bit 1 x XOR (if bit x 7 then 0x1b else 0)"

definition gf_mul :: "u8 \<Rightarrow> u8 \<Rightarrow> u8" where
  "gf_mul x y = foldr (\<lambda>i z. (if bit x i then (xtime ^^ i) y else 0) XOR z) [0..<8] 0"

named_theorems xor_simps

lemmas xor_ac [xor_simps] = xor.assoc xor.commute xor.left_commute

lemma xor_cancel [xor_simps]: "x XOR (x XOR y) = (y :: 'a::len word)"
  by (simp add: xor.assoc [symmetric])

lemma bit_shl: "bit (push_bit k x :: 'a::len word) n \<longleftrightarrow> k \<le> n \<and> n < LENGTH('a) \<and> bit x (n - k)"
  by (auto simp: bit_push_bit_iff)

lemma bit_shl1: "bit (x * 2 :: 'a::len word) n \<longleftrightarrow> 1 \<le> n \<and> n < LENGTH('a) \<and> bit x (n - 1)"
  using bit_shl [of 1 x n] by (simp add: push_bit_eq_mult)

lemma xtime_xor [xor_simps]: "xtime (x XOR y) = xtime x XOR xtime y"
  by (rule bit_word_eqI) (auto simp: xtime_def bit_simps bit_shl1)

lemma gf_mul_small:
  "gf_mul 1 y = y" "gf_mul 2 y = xtime y" "gf_mul 3 y = y XOR xtime y"
  by (simp_all add: gf_mul_def upt_rec)

text \<open>Bytes in the code's 32-bit variables.\<close>

abbreviation up :: "u8 \<Rightarrow> u32" where "up b \<equiv> ucast b"

lemma up_xor: "up a XOR up b = up (a XOR b)"
  by (simp add: unsigned_xor_eq)

lemma and_255: "x AND 255 = up (ucast x)" for x :: u32
proof -
  have "x AND 255 = take_bit 8 x" by (simp add: take_bit_eq_mask mask_eq_exp_minus_1)
  also have "\<dots> = up (ucast x)" by (rule bit_word_eqI) (auto simp: bit_simps)
  finally show ?thesis .
qed

lemma drop_24: "drop_bit 24 x = up (ucast (drop_bit 24 x))" for x :: u32
  by (rule bit_word_eqI) (auto simp: bit_simps dest: bit_imp_le_length)

lemma up_carry: "drop_bit 8 (push_bit 1 (up p) XOR up q) = (if bit p 7 then 1 else 0)"
proof (rule bit_word_eqI)
  fix n assume "n < LENGTH(32)"
  show "bit (drop_bit 8 (push_bit 1 (up p) XOR up q)) n = bit (if bit p 7 then 1 else 0 :: u32) n"
    using u8_bitD [of p "7 + n"] u8_bitD [of q "8 + n"] by (cases n) (auto simp: bit_simps bit_shl1)
qed

lemma up_shl:
  assumes "\<not> bit p 7"
  shows "push_bit 1 (up p) = up (push_bit 1 p)"
proof (rule bit_word_eqI)
  fix n assume n: "n < LENGTH(32)"
  have "bit p (n - 1) \<Longrightarrow> n < 8"
    using assms u8_bitD [of p "n - 1"] by (cases "n = 8") auto
  then show "bit (push_bit 1 (up p)) n = bit (up (push_bit 1 p)) n"
    using n by (auto simp: bit_simps bit_shl1)
qed

lemma up_shl_split: "push_bit 1 (up p) = up (push_bit 1 p) XOR (if bit p 7 then 0x100 else 0)"
proof (cases "bit p 7")
  case True
  have Z: "push_bit 1 (0x80 :: u8) = 0" and H: "push_bit 1 (up 0x80) = 0x100" by code_simp+
  have "push_bit 1 (up (p XOR 0x80)) = up (push_bit 1 (p XOR 0x80))"
    using True by (intro up_shl) (simp add: bit_simps)
  then have "push_bit 1 (up p) XOR 0x100 = up (push_bit 1 p)"
    by (simp only: up_xor [symmetric] push_bit_xor H Z xor.right_neutral)
  then have "(push_bit 1 (up p) XOR 0x100) XOR 0x100 = up (push_bit 1 p) XOR 0x100" by (simp only:)
  then show ?thesis using True by (simp only: xor.assoc xor_self_eq xor.right_neutral if_True)
qed (simp only: up_shl if_False not_False_eq_True xor.right_neutral)

lemma reduce_up:
  "(let x = push_bit 1 (up p) XOR up q in x XOR (- drop_bit 8 x AND 0x11b)) = up (xtime p XOR q)"
proof -
  have "- 1 AND 0x11b = up 0x1b XOR 0x100" by simp
  then show ?thesis
    unfolding Let_def up_carry
    by (cases "bit p 7")
      (simp_all only: up_shl_split xtime_def if_True if_False minus_zero zero_and_eq xor.right_neutral
        xor.left_neutral xor_self_eq unsigned_0 up_xor [symmetric] xor_simps)
qed

text \<open>The two mixing steps on a column.\<close>

lemma and_xor: "(x XOR y) AND z = (x AND z) XOR (y AND z)" for x :: "'a::len word"
  by (rule bit_word_eqI) (auto simp: bit_simps)

lemma Multiply_xor: "Multiply (x XOR y) = Multiply x XOR Multiply y"
  unfolding Multiply_def Let_def drop_bit_xor push_bit_xor and_xor by (simp only: xor_ac)

lemma Multiply_up0: "Multiply (up a) = up a"
proof -
  have "drop_bit 8 (up a) = 0" by (rule bit_word_eqI) (auto simp: bit_simps dest: u8_bitD)
  moreover have "up a AND 255 = up a" by (simp only: and_255) (rule bit_word_eqI, auto simp: bit_simps dest: u8_bitD)
  ultimately show ?thesis by (simp add: Multiply_def)
qed

lemma Multiply_up1: "Multiply (push_bit 1 (up a)) = up (xtime a)"
proof -
  have "Multiply 0x100 = up 0x1b" by code_simp
  then show ?thesis
    by (simp only: up_shl_split Multiply_xor Multiply_up0 xtime_def up_xor [symmetric] split: if_split)
      (simp add: Multiply_def)
qed

lemma Multiply_up2: "Multiply (push_bit 2 (up a)) = up (xtime (xtime a))"
proof -
  have *: "push_bit 2 (up a) = push_bit 1 (push_bit 1 (up a))" by (simp only: push_bit_push_bit one_add_one)
  have "Multiply (push_bit 1 0x100) = up (xtime 0x1b)" by code_simp
  then have "Multiply (push_bit 2 (up a)) = up (xtime (push_bit 1 a)) XOR (if bit a 7 then up (xtime 0x1b) else 0)"
    unfolding * up_shl_split [of a] push_bit_xor Multiply_xor Multiply_up1
    by (simp add: Multiply_def)
  then show ?thesis
    unfolding xtime_def [of a] xtime_xor up_xor [symmetric] by (simp add: xtime_def)
qed

lemma Multiply_up3: "Multiply (push_bit 3 (up a)) = up (xtime (xtime (xtime a)))"
proof -
  have *: "push_bit 3 (up a) = push_bit 2 (push_bit 1 (up a))"
    using push_bit_push_bit [of 2 1 "up a"] by (simp only: numeral_plus_one semiring_norm)
  have "Multiply (push_bit 2 0x100) = up (xtime (xtime 0x1b))" by code_simp
  then have "Multiply (push_bit 3 (up a)) =
      up (xtime (xtime (push_bit 1 a))) XOR (if bit a 7 then up (xtime (xtime 0x1b)) else 0)"
    unfolding * up_shl_split [of a] push_bit_xor Multiply_xor Multiply_up2
    by (simp add: Multiply_def)
  then show ?thesis
    unfolding xtime_def [of a] xtime_xor up_xor [symmetric] by (simp add: xtime_def)
qed

lemmas Multiply_simps = Multiply_xor Multiply_up0 Multiply_up1 Multiply_up2 Multiply_up3 up_xor

section \<open>The steps, byte by byte\<close>

text \<open>
  FIPS 197: the state is a list of sixteen bytes, the byte of row \<open>r\<close> and column \<open>c\<close> at
  \<open>r + 4 * c\<close>. The S-box is the code's table; \<open>sbox_affine_inverse\<close> below shows it is the one of
  the standard, the inverse of the field under an affine map.
\<close>

definition S :: "u8 \<Rightarrow> u8" where "S b = sbox ! unat b"

definition fips_SubBytes :: "u8 list \<Rightarrow> u8 list" where "fips_SubBytes s = map S s"

definition fips_ShiftRows :: "u8 list \<Rightarrow> u8 list" where
  "fips_ShiftRows s = map (\<lambda>i. s ! (i mod 4 + 4 * ((i div 4 + i mod 4) mod 4))) [0..<16]"

definition fips_MixColumns :: "u8 list \<Rightarrow> u8 list" where
  "fips_MixColumns s =
     map (\<lambda>i. foldr (\<lambda>k z. gf_mul ([2, 3, 1, 1] ! ((k + 4 - i mod 4) mod 4)) (s ! (k + 4 * (i div 4))) XOR z) [0..<4] 0)
       [0..<16]"

definition fips_AddRoundKey :: "u8 list \<Rightarrow> u8 list \<Rightarrow> u8 list" where
  "fips_AddRoundKey w s = map2 (XOR) s w"

text \<open>The step of the standard that undoes each of them.\<close>

definition fips_InvMixColumns :: "u8 list \<Rightarrow> u8 list" where
  "fips_InvMixColumns s =
     map (\<lambda>i. foldr (\<lambda>k z. gf_mul ([0xe, 0xb, 0xd, 0x9] ! ((k + 4 - i mod 4) mod 4)) (s ! (k + 4 * (i div 4))) XOR z) [0..<4] 0)
       [0..<16]"

definition fips_InvShiftRows :: "u8 list \<Rightarrow> u8 list" where
  "fips_InvShiftRows s = map (\<lambda>i. s ! (i mod 4 + 4 * ((i div 4 + 4 - i mod 4) mod 4))) [0..<16]"

lemma sixteen:
  assumes "length s = 16"
  obtains s0 s1 s2 s3 s4 s5 s6 s7 s8 s9 s10 s11 s12 s13 s14 s15 where
    "s = [s0, s1, s2, s3, s4, s5, s6, s7, s8, s9, s10, s11, s12, s13, s14, s15]"
proof -
  have "s = map ((!) s) [0..<16]" using assms by (metis map_nth)
  then show ?thesis by (intro that) (simp add: upt_rec)
qed

lemma gf_mul_inv:
  "gf_mul 9 y = y XOR xtime (xtime (xtime y))"
  "gf_mul 0xb y = y XOR xtime y XOR xtime (xtime (xtime y))"
  "gf_mul 0xd y = y XOR xtime (xtime y) XOR xtime (xtime (xtime y))"
  "gf_mul 0xe y = xtime y XOR xtime (xtime y) XOR xtime (xtime (xtime y))"
  by (simp_all add: gf_mul_def upt_rec)

lemma ShiftRows_up: "length s = 16 \<Longrightarrow> ShiftRows (map up s) = map up (fips_ShiftRows s)"
  by (erule sixteen) (simp add: ShiftRows_def fips_ShiftRows_def ASTATE_def Let_def upt_rec)

lemma InvShiftRows_up: "length s = 16 \<Longrightarrow> InvShiftRows (map up s) = map up (fips_InvShiftRows s)"
  by (erule sixteen) (simp add: InvShiftRows_def fips_InvShiftRows_def ASTATE_def Let_def upt_rec)

text \<open>One column of the two mixing loops.\<close>

lemma MixColumns_column:
  "MixColumns (up a # up b # up c # up d # s) =
     up (xtime a XOR xtime b XOR b XOR c XOR d) # up (a XOR xtime b XOR xtime c XOR c XOR d)
     # up (a XOR b XOR xtime c XOR xtime d XOR d) # up (xtime a XOR a XOR b XOR c XOR xtime d) # MixColumns s"
proof -
  have "push_bit 1 (up a) XOR up b XOR push_bit 1 (up b) XOR up c XOR up d = push_bit 1 (up (a XOR b)) XOR up (b XOR c XOR d)"
    "up a XOR push_bit 1 (up b) XOR up c XOR push_bit 1 (up c) XOR up d = push_bit 1 (up (b XOR c)) XOR up (a XOR c XOR d)"
    "up a XOR up b XOR push_bit 1 (up c) XOR up d XOR push_bit 1 (up d) = push_bit 1 (up (c XOR d)) XOR up (a XOR b XOR d)"
    "up a XOR push_bit 1 (up a) XOR up b XOR up c XOR push_bit 1 (up d) = push_bit 1 (up (a XOR d)) XOR up (a XOR b XOR c)"
    by (simp_all only: up_xor [symmetric] push_bit_xor xor_ac)
  note columns = this
  show ?thesis
    unfolding MixColumns.simps Let_def columns reduce_up [unfolded Let_def] by (simp only: xor_simps)
qed

lemma InvMixColumns_column:
  "InvMixColumns (up a # up b # up c # up d # s) =
     up (gf_mul 0xe a XOR gf_mul 0xb b XOR gf_mul 0xd c XOR gf_mul 9 d)
     # up (gf_mul 9 a XOR gf_mul 0xe b XOR gf_mul 0xb c XOR gf_mul 0xd d)
     # up (gf_mul 0xd a XOR gf_mul 9 b XOR gf_mul 0xe c XOR gf_mul 0xb d)
     # up (gf_mul 0xb a XOR gf_mul 0xd b XOR gf_mul 9 c XOR gf_mul 0xe d) # InvMixColumns s"
  unfolding InvMixColumns.simps Let_def Multiply_simps gf_mul_inv by (simp only: xor_simps)

lemma MixColumns_up: "length s = 16 \<Longrightarrow> MixColumns (map up s) = map up (fips_MixColumns s)"
  by (erule sixteen)
    (simp add: MixColumns_column fips_MixColumns_def upt_rec gf_mul_small xor_ac del: MixColumns.simps(1))

lemma InvMixColumns_up: "length s = 16 \<Longrightarrow> InvMixColumns (map up s) = map up (fips_InvMixColumns s)"
  by (erule sixteen)
    (simp add: InvMixColumns_column fips_InvMixColumns_def upt_rec xor_ac del: InvMixColumns.simps(1))

lemma those_map_Some: "(\<And>x. x \<in> set xs \<Longrightarrow> f x = Some (g x)) \<Longrightarrow> those (map f xs) = Some (map g xs)"
  by (induction xs) auto

lemma sbox_length [simp]: "length sbox = 256" "length rsbox = 256"
  by (simp_all add: sbox_def rsbox_def)

lemma SubBytes_up: "SubBytes (map up s) = Some (map up (fips_SubBytes s))"
  unfolding SubBytes_def map_map fips_SubBytes_def
  by (rule those_map_Some [THEN trans]) (auto simp: S_def unat_lt_256)

lemma InvSubBytes_up: "InvSubBytes (map up s) = Some (map up (map (\<lambda>b. rsbox ! unat b) s))"
  unfolding InvSubBytes_def map_map
  by (rule those_map_Some [THEN trans]) (auto simp: unat_lt_256)

lemma be_bytes_4: "be_bytes 4 w = [ucast (drop_bit 24 w), ucast (drop_bit 16 w), ucast (drop_bit 8 w), ucast w]"
  by (simp add: be_bytes_def le_bytes_def upt_rec)

lemma AddRoundKey_block:
  "AddRoundKey (up a # up b # up c # up d # s) (n # ws) =
     map up (map2 (XOR) [a, b, c, d] (be_bytes 4 n)) @ AddRoundKey s ws"
  unfolding AddRoundKey.simps and_255 be_bytes_4
  by (subst drop_24) (simp add: up_xor)

lemma AddRoundKey_up:
  assumes "length s = 16" "length w = 4"
  shows "AddRoundKey (map up s) w = map up (fips_AddRoundKey (concat (map (be_bytes 4) w)) s)"
proof -
  obtain w0 w1 w2 w3 where w: "w = [w0, w1, w2, w3]"
    using \<open>length w = 4\<close> by (auto simp: numeral_eq_Suc length_Suc_conv)
  show ?thesis
    using \<open>length s = 16\<close>
    by (elim sixteen) (simp add: w fips_AddRoundKey_def AddRoundKey_block be_bytes_4 del: AddRoundKey.simps(1))
qed

section \<open>Undoing the steps\<close>

lemma fips_lengths [simp]:
  "length (fips_SubBytes s) = length s" "length (fips_ShiftRows s) = 16" "length (fips_MixColumns s) = 16"
  "length (fips_InvShiftRows s) = 16" "length (fips_InvMixColumns s) = 16"
  "length w = length s \<Longrightarrow> length (fips_AddRoundKey w s) = length s"
  by (simp_all add: fips_SubBytes_def fips_ShiftRows_def fips_MixColumns_def fips_InvShiftRows_def
      fips_InvMixColumns_def fips_AddRoundKey_def)

lemma fips_InvMixColumns_MixColumns: "length s = 16 \<Longrightarrow> fips_InvMixColumns (fips_MixColumns s) = s"
  by (erule sixteen)
    (simp add: fips_MixColumns_def fips_InvMixColumns_def upt_rec gf_mul_small gf_mul_inv xor_simps)

lemma fips_InvShiftRows_ShiftRows: "length s = 16 \<Longrightarrow> fips_InvShiftRows (fips_ShiftRows s) = s"
  by (erule sixteen) (simp add: fips_InvShiftRows_def fips_ShiftRows_def upt_rec)

lemma fips_AddRoundKey_twice:
  "length w = length s \<Longrightarrow> fips_AddRoundKey w (fips_AddRoundKey w s) = s"
  by (rule nth_equalityI) (simp_all add: fips_AddRoundKey_def xor.assoc)

lemma rsbox_sbox: "map (\<lambda>b. rsbox ! unat b) sbox = map of_nat [0..<256]"
  by code_simp

lemma rsbox_S: "rsbox ! unat (S b) = b"
proof -
  have "rsbox ! unat (S b) = map (\<lambda>b. rsbox ! unat b) sbox ! unat b"
    using unat_lt_256 [of b] by (simp add: S_def)
  also have "\<dots> = b" unfolding rsbox_sbox using unat_lt_256 [of b] by simp
  finally show ?thesis .
qed

lemma unSubBytes: "map (\<lambda>b. rsbox ! unat b) (fips_SubBytes s) = s"
  by (simp add: fips_SubBytes_def rsbox_S o_def)

section \<open>The rounds\<close>

text \<open>
  Cipher of FIPS 197 with \<open>nr\<close> rounds, \<open>w r\<close> the sixteen bytes of the key of round \<open>r\<close>.
\<close>

definition fips_Cipher :: "nat \<Rightarrow> (nat \<Rightarrow> u8 list) \<Rightarrow> u8 list \<Rightarrow> u8 list" where
  "fips_Cipher nr w input =
     (let s = fips_AddRoundKey (w 0) input;
          s = fold (\<lambda>r s. fips_AddRoundKey (w r) (fips_MixColumns (fips_ShiftRows (fips_SubBytes s)))) [1..<nr] s
      in fips_AddRoundKey (w nr) (fips_ShiftRows (fips_SubBytes s)))"

text \<open>The state before the key of round \<open>r\<close> is added: where the code's loop starts its turn.\<close>

fun before_key :: "(nat \<Rightarrow> u8 list) \<Rightarrow> u8 list \<Rightarrow> nat \<Rightarrow> u8 list" where
  "before_key w input 0 = input"
| "before_key w input (Suc r) =
     fips_MixColumns (fips_ShiftRows (fips_SubBytes (fips_AddRoundKey (w r) (before_key w input r))))"

lemma before_key_length [simp]: "length input = 16 \<Longrightarrow> length (before_key w input r) = 16"
  by (cases r) simp_all

definition half_round :: "(nat \<Rightarrow> u8 list) \<Rightarrow> u8 list \<Rightarrow> nat \<Rightarrow> u8 list" where
  "half_round w input r = fips_ShiftRows (fips_SubBytes (fips_AddRoundKey (w r) (before_key w input r)))"

lemma before_key_Suc: "before_key w input (Suc r) = fips_MixColumns (half_round w input r)"
  by (simp add: half_round_def)

lemma fips_Cipher_half: "fips_Cipher (Suc r) w input = fips_AddRoundKey (w (Suc r)) (half_round w input r)"
proof -
  have "fold (\<lambda>r s. fips_AddRoundKey (w r) (fips_MixColumns (fips_ShiftRows (fips_SubBytes s)))) [1..<Suc r]
      (fips_AddRoundKey (w 0) input) = fips_AddRoundKey (w r) (before_key w input r)"
    by (induction r) simp_all
  then show ?thesis by (simp add: fips_Cipher_def half_round_def Let_def)
qed

text \<open>The round keys an array of words holds.\<close>

definition round_key :: "u32 list \<Rightarrow> nat \<Rightarrow> u8 list" where
  "round_key key r = concat (map (be_bytes 4) (take 4 (drop (4 * r) key)))"

lemma be_bytes_length [simp]: "length (be_bytes n w) = n" by (simp add: be_bytes_def)

lemma round_key_length: "4 * r + 4 \<le> length key \<Longrightarrow> length (round_key key r) = 16"
  by (simp add: round_key_def length_concat o_def sum_list_triv)

lemma AddRoundKey_round:
  assumes "4 * r + 4 \<le> length key" "length s = 16"
  shows "\<exists>w. rd_n key (4 * r) 4 = Some w \<and> AddRoundKey (map up s) w = map up (fips_AddRoundKey (round_key key r) s)"
  using assms by (auto simp: rd_n_def round_key_def intro!: AddRoundKey_up)

lemma encrypt_loop_turn:
  assumes "4 * Suc r + 4 \<le> length key" "length s = 16"
  defines "h \<equiv> fips_ShiftRows (fips_SubBytes (fips_AddRoundKey (round_key key r) s))"
  shows "encrypt_loop key n (4 * r) (map up s) =
    (if n - 1 = 0 then Some (map up (fips_AddRoundKey (round_key key (Suc r)) h))
     else encrypt_loop key (n - 1) (4 * Suc r) (map up (fips_MixColumns h)))"
proof -
  have h: "length h = 16" by (simp add: h_def)
  obtain w w' where w: "rd_n key (4 * r) 4 = Some w" "AddRoundKey (map up s) w = map up (fips_AddRoundKey (round_key key r) s)"
    and w': "rd_n key (4 * r + 4) 4 = Some w'" "AddRoundKey (map up h) w' = map up (fips_AddRoundKey (round_key key (Suc r)) h)"
    using AddRoundKey_round [of r key s] AddRoundKey_round [of "Suc r" key h] assms(1,2) h by (auto simp: add.commute)
  have shift: "ShiftRows (map up (fips_SubBytes (fips_AddRoundKey (round_key key r) s))) = map up h"
    unfolding h_def using assms(1,2) by (intro ShiftRows_up) (simp add: round_key_length)
  show ?thesis
    unfolding encrypt_loop.simps [of key n "4 * r"] w(1) bind.bind_lunit w(2) SubBytes_up Let_def shift w'(1) w'(2)
      MixColumns_up [OF h]
    by (simp add: add.commute)
qed

lemma of_nat_rounds: "0 < n \<Longrightarrow> n < 2 ^ 32 \<Longrightarrow> (of_nat n :: u32) \<noteq> 0"
  using nat_dvd_not_less [of n "2 ^ 32"] by (simp add: word_of_nat_eq_0_iff)

lemma encrypt_loop_rounds:
  assumes "4 * nr + 4 \<le> length key" "length input = 16" "r < nr" "nr < 2 ^ 32"
  shows "encrypt_loop key (of_nat (nr - r)) (4 * r) (map up (before_key (round_key key) input r))
    = Some (map up (fips_Cipher nr (round_key key) input))"
  using \<open>r < nr\<close>
proof (induction "nr - r" arbitrary: r)
  case (Suc n)
  let ?b = "before_key (round_key key) input r"
  have one: "(of_nat (nr - r) - 1 :: u32) = of_nat (nr - Suc r)" using Suc.hyps(2) by (simp add: of_nat_diff)
  have turn: "encrypt_loop key (of_nat (nr - r)) (4 * r) (map up ?b) =
    (if (of_nat (nr - Suc r) :: u32) = 0
     then Some (map up (fips_AddRoundKey (round_key key (Suc r)) (half_round (round_key key) input r)))
     else encrypt_loop key (of_nat (nr - Suc r)) (4 * Suc r) (map up (before_key (round_key key) input (Suc r))))"
    unfolding one [symmetric] before_key_Suc half_round_def using assms Suc.prems by (intro encrypt_loop_turn) simp_all
  show ?case
  proof (cases "Suc r = nr")
    case True
    show ?thesis unfolding turn by (simp add: True [symmetric] fips_Cipher_half)
  next
    case False
    then have r: "Suc r < nr" using Suc.prems by simp
    then have "(of_nat (nr - Suc r) :: u32) \<noteq> 0" using assms(4) by (intro of_nat_rounds) simp_all
    with r show ?thesis unfolding turn using Suc.hyps(1) [of "Suc r"] Suc.hyps(2) by simp
  qed
qed simp

text \<open>InvCipher of the standard, and the turns of the loop as it counts them down.\<close>

definition fips_InvSubBytes :: "u8 list \<Rightarrow> u8 list" where "fips_InvSubBytes s = map (\<lambda>b. rsbox ! unat b) s"

definition fips_InvCipher :: "nat \<Rightarrow> (nat \<Rightarrow> u8 list) \<Rightarrow> u8 list \<Rightarrow> u8 list" where
  "fips_InvCipher nr w input =
     (let s = fips_AddRoundKey (w nr) input;
          s = fold (\<lambda>r s. fips_InvMixColumns (fips_AddRoundKey (w r) (fips_InvSubBytes (fips_InvShiftRows s)))) (rev [1..<nr]) s
      in fips_AddRoundKey (w 0) (fips_InvSubBytes (fips_InvShiftRows s)))"

fun inv_rounds :: "(nat \<Rightarrow> u8 list) \<Rightarrow> nat \<Rightarrow> u8 list \<Rightarrow> u8 list" where
  "inv_rounds w 0 s = fips_AddRoundKey (w 0) (fips_InvSubBytes (fips_InvShiftRows s))"
| "inv_rounds w (Suc r) s =
     inv_rounds w r (fips_InvMixColumns (fips_AddRoundKey (w (Suc r)) (fips_InvSubBytes (fips_InvShiftRows s))))"

lemma fips_InvSubBytes_length [simp]: "length (fips_InvSubBytes s) = length s"
  by (simp add: fips_InvSubBytes_def)

lemma fips_InvCipher_rounds: "fips_InvCipher (Suc r) w input = inv_rounds w r (fips_AddRoundKey (w (Suc r)) input)"
proof -
  have "fips_AddRoundKey (w 0) (fips_InvSubBytes (fips_InvShiftRows
      (fold (\<lambda>r s. fips_InvMixColumns (fips_AddRoundKey (w r) (fips_InvSubBytes (fips_InvShiftRows s)))) (rev [1..<Suc r]) s)))
    = inv_rounds w r s" for s
    by (induction r arbitrary: s) simp_all
  then show ?thesis by (simp add: fips_InvCipher_def Let_def)
qed

lemma inv_rounds_half:
  assumes "length input = 16" "\<And>k. k \<le> r \<Longrightarrow> length (w k) = 16"
  shows "inv_rounds w r (half_round w input r) = input"
  using assms
proof (induction r)
  case 0
  then show ?case
    by (simp add: half_round_def fips_InvShiftRows_ShiftRows fips_InvSubBytes_def unSubBytes fips_AddRoundKey_twice)
next
  case (Suc r)
  have "fips_AddRoundKey (w (Suc r)) (fips_InvSubBytes (fips_InvShiftRows (half_round w input (Suc r)))) = before_key w input (Suc r)"
    unfolding half_round_def fips_InvSubBytes_def using Suc.prems
    by (simp add: fips_InvShiftRows_ShiftRows unSubBytes fips_AddRoundKey_twice del: before_key.simps)
  moreover have "fips_InvMixColumns (before_key w input (Suc r)) = half_round w input r"
    unfolding before_key_Suc by (rule fips_InvMixColumns_MixColumns) (simp add: half_round_def)
  ultimately show ?case using Suc by simp
qed

lemma fips_InvCipher_Cipher:
  assumes "length input = 16" "\<And>k. k \<le> nr \<Longrightarrow> length (w k) = 16" "0 < nr"
  shows "fips_InvCipher nr w (fips_Cipher nr w input) = input"
proof -
  obtain r where r: "nr = Suc r" using assms(3) by (cases nr) auto
  have "length (half_round w input r) = length (w (Suc r))" using assms(2) [of nr] by (simp add: half_round_def r)
  then show ?thesis using assms inv_rounds_half [of input r w]
    by (simp add: r fips_InvCipher_rounds fips_Cipher_half fips_AddRoundKey_twice)
qed

lemma decrypt_loop_turn:
  assumes "4 * r + 4 \<le> length key" "length s = 16"
  defines "t \<equiv> fips_AddRoundKey (round_key key r) (fips_InvSubBytes (fips_InvShiftRows s))"
  shows "decrypt_loop key n (4 * Suc r) (map up s) =
    (if n - 1 = 0 then Some (map up t) else decrypt_loop key (n - 1) (4 * r) (map up (fips_InvMixColumns t)))"
proof -
  have t: "length t = 16" using assms(1) by (simp add: t_def round_key_length)
  obtain w where w: "rd_n key (4 * r) 4 = Some w"
    "AddRoundKey (map up (fips_InvSubBytes (fips_InvShiftRows s))) w = map up t"
    unfolding t_def using AddRoundKey_round [of r key "fips_InvSubBytes (fips_InvShiftRows s)"] assms(1) by auto
  have p: "4 * Suc r - 4 = 4 * r" "(4 * Suc r < 4) = False" by simp_all
  show ?thesis
    unfolding decrypt_loop.simps [of key n "4 * Suc r"] InvShiftRows_up [OF assms(2)] InvSubBytes_up fips_InvSubBytes_def [symmetric] bind.bind_lunit
      Let_def p if_False w InvMixColumns_up [OF t] ..
qed

lemma decrypt_loop_rounds:
  assumes "4 * Suc r \<le> length key" "length s = 16" "Suc r < 2 ^ 32"
  shows "decrypt_loop key (of_nat (Suc r)) (4 * Suc r) (map up s) = Some (map up (inv_rounds (round_key key) r s))"
  using assms
proof (induction r arbitrary: s)
  case 0
  then show ?case by (subst decrypt_loop_turn) simp_all
next
  case (Suc r)
  have "(of_nat (Suc (Suc r)) - 1 :: u32) = of_nat (Suc r)" by simp
  moreover have "(of_nat (Suc r) :: u32) \<noteq> 0" by (rule of_nat_rounds) (use Suc.prems(3) in simp_all)
  moreover have "4 * Suc r + 4 \<le> length key" "4 * Suc r \<le> length key" "Suc r < 2 ^ 32" using Suc.prems by simp_all
  ultimately show ?case
    using Suc.prems(2) by (subst decrypt_loop_turn) (simp_all only: if_False Suc.IH fips_lengths inv_rounds.simps)
qed

section \<open>The key schedule\<close>

text \<open>
  KeyExpansion of FIPS 197 for a key of \<open>nk\<close> words: word \<open>i\<close> of the schedule as four bytes.
\<close>

function fips_word :: "nat \<Rightarrow> u8 list \<Rightarrow> nat \<Rightarrow> u8 list" where
  "fips_word nk key i =
     (if i < nk \<or> nk = 0 then take 4 (drop (4 * i) key)
      else
        let temp = fips_word nk key (i - 1);
            temp = (if i mod nk = 0 then map2 (XOR) (map S (rotate1 temp)) [(xtime ^^ (i div nk - 1)) 1, 0, 0, 0]
                    else if nk > 6 \<and> i mod nk = 4 then map S temp
                    else temp)
        in map2 (XOR) (fips_word nk key (i - nk)) temp)"
  by pat_completeness auto
termination by (relation "measure (\<lambda>(nk, key, i). i)") auto

declare fips_word.simps [simp del]

lemma be_bytes_xor: "be_bytes 4 (x XOR y :: u32) = map2 (XOR) (be_bytes 4 x) (be_bytes 4 y)"
  by (simp add: be_bytes_4 drop_bit_xor unsigned_xor_eq)

lemma be_bytes_or4:
  "be_bytes 4 (push_bit 24 (up a) OR push_bit 16 (up b) OR push_bit 8 (up c) OR up d) = [a, b, c, d]"
  unfolding be_bytes_4 list.inject
  by (intro conjI) (rule bit_word_eqI, auto simp: bit_simps dest: u8_bitD)+

lemma be_bytes_Subword: "be_bytes 4 (Subword x) = map S (be_bytes 4 x)"
proof -
  have "unat (drop_bit 24 x) = unat (ucast (drop_bit 24 x) :: u8)" by (subst drop_24) simp
  then show ?thesis unfolding Subword_def be_bytes_or4 and_255 unat_ucast_u8_up
    by (simp add: be_bytes_4 S_def)
qed

lemma be_bytes_rot: "be_bytes 4 (push_bit 8 t OR drop_bit 24 t :: u32) = rotate1 (be_bytes 4 t)"
  unfolding be_bytes_4 rotate1.simps append.simps list.inject
  by (intro conjI) (rule bit_word_eqI, auto simp: bit_simps dest: bit_imp_le_length)+

lemma be_bytes_Rcon: "be_bytes 4 (push_bit 24 (up c)) = [c, 0, 0, 0]"
  using be_bytes_or4 [of c 0 0 0] by simp

lemma be_bytes_key:
  assumes "i + 4 \<le> length key"
  shows "be_bytes 4 (get_unaligned_be32 key i) = take 4 (drop i key)"
  using assms le_bytes_word_of_le [of "rev (take 4 (drop i key))", where 'a = 32]
  by (simp add: get_unaligned_be32_def be_bytes_def)

lemma Rcon_xtime:
  assumes "k < 10"
  shows "Rcon ! k = (xtime ^^ k) 1"
proof -
  have "Rcon = map (\<lambda>k. (xtime ^^ k) 1) [0..<10]" by code_simp
  also have "\<dots> ! k = (xtime ^^ k) 1"
    using assms by (subst nth_map) (simp_all only: length_upt nth_upt diff_zero add_0)
  finally show ?thesis .
qed

lemma expand_loop_turn:
  assumes "0 < nk" "nk \<le> i" "i < nw" "nw \<le> length rk" "j = i mod nk" "Suc k = i div nk" "k < 10"
    and words: "\<And>m. m < i \<Longrightarrow> be_bytes 4 (rk ! m) = fips_word nk key m"
  shows "\<exists>w. expand_loop nk nw i j k rk =
      expand_loop nk nw (Suc i) (Suc i mod nk) (Suc i div nk - 1) (rk[i := w]) \<and> be_bytes 4 w = fips_word nk key i"
proof -
  let ?old = "rk ! (i - nk)" and ?temp = "rk ! (i - 1)"
  define t where "t = (if j = 0 then Subword (push_bit 8 ?temp OR drop_bit 24 ?temp) XOR push_bit 24 (up (Rcon ! k))
    else if nk > 6 \<and> j = 4 then Subword ?temp else ?temp)"
  have turn: "expand_loop nk nw i j k rk =
      (if Suc j = nk then expand_loop nk nw (Suc i) 0 (Suc k) (rk[i := ?old XOR t])
       else expand_loop nk nw (Suc i) (Suc j) k (rk[i := ?old XOR t]))"
    using assms by (subst expand_loop.simps) (auto simp: t_def wr_n_def Rcon_def upd_conv_take_nth_drop)
  have "be_bytes 4 (?old XOR t) = fips_word nk key i"
    unfolding fips_word.simps [of nk key i] Let_def be_bytes_xor
    using assms words [of "i - 1"] words [of "i - nk"] \<open>Suc k = i div nk\<close> [symmetric]
    by (auto simp: t_def be_bytes_xor be_bytes_Subword be_bytes_rot be_bytes_Rcon Rcon_xtime)
  moreover have "Suc i mod nk = (if Suc j = nk then 0 else Suc j)" "Suc i div nk - 1 = (if Suc j = nk then Suc k else k)"
    using assms(1,5) by (simp_all add: mod_Suc div_Suc \<open>Suc k = i div nk\<close> [symmetric])
  ultimately show ?thesis using turn by (auto split: if_splits)
qed

lemma expand_loop_words:
  assumes "0 < nk" "nk \<le> i" "i \<le> nw" "nw \<le> length rk" "nw \<le> nk * 11"
    and words: "\<And>m. m < i \<Longrightarrow> be_bytes 4 (rk ! m) = fips_word nk key m"
  shows "\<exists>rk'. expand_loop nk nw i (i mod nk) (i div nk - 1) rk = Some rk' \<and> length rk' = length rk
    \<and> (\<forall>m<nw. be_bytes 4 (rk' ! m) = fips_word nk key m)"
  using assms(2,3,4) words
proof (induction "nw - i" arbitrary: i rk)
  case 0
  then show ?case by (subst expand_loop.simps) auto
next
  case (Suc n)
  have i: "i < nw" using Suc.hyps(2) by simp
  then have "i div nk < 11" using assms(5) by (simp add: less_mult_imp_div_less mult.commute)
  moreover have "0 < i div nk" using Suc.prems(1) \<open>0 < nk\<close> by (simp add: div_greater_zero_iff)
  ultimately have "i div nk - 1 < 10" "Suc (i div nk - 1) = i div nk" by linarith+
  then obtain w where w: "expand_loop nk nw i (i mod nk) (i div nk - 1) rk =
      expand_loop nk nw (Suc i) (Suc i mod nk) (Suc i div nk - 1) (rk[i := w])" "be_bytes 4 w = fips_word nk key i"
    using expand_loop_turn [of nk i nw rk "i mod nk" "i div nk - 1" key] assms(1) Suc.prems i by auto
  have "\<exists>rk'. expand_loop nk nw (Suc i) (Suc i mod nk) (Suc i div nk - 1) (rk[i := w]) = Some rk' \<and>
      length rk' = length (rk[i := w]) \<and> (\<forall>m<nw. be_bytes 4 (rk' ! m) = fips_word nk key m)"
    using Suc.hyps Suc.prems i w(2) by (intro Suc.hyps(1)) (auto simp: nth_list_update less_Suc_eq)
  then show ?case using w(1) by simp
qed

text \<open>The key lengths of the standard.\<close>

definition aes_key_length :: "nat \<Rightarrow> bool" where "aes_key_length n \<longleftrightarrow> n \<in> {16, 24, 32}"

definition aes_ready :: "tls_aes \<Rightarrow> u8 list \<Rightarrow> bool" where
  "aes_ready aes key \<longleftrightarrow> aes_key_length (length key) \<and> length (aes_key aes) = 60
     \<and> aes_rounds aes = of_nat (6 + length key div 4)
     \<and> (\<forall>m < 28 + length key. be_bytes 4 (aes_key aes ! m) = fips_word (length key div 4) key m)"

lemma aes_setkey_ready:
  assumes "aes_key_length (length key)" "length (aes_key aes) = 60"
  shows "\<exists>aes'. aes_setkey aes key (length key) = Some aes' \<and> aes_ready aes' key"
proof -
  let ?nk = "length key div 4" and ?nw = "28 + length key"
  let ?ws = "map (\<lambda>i. get_unaligned_be32 key (4 * i)) [0..<?nk]"
  have nk: "?nk \<in> {4, 6, 8}" "4 * ?nk = length key" using assms(1) by (auto simp: aes_key_length_def)
  then have "?nk \<le> ?nw" "?nw \<le> 60" "?nw \<le> ?nk * 11" "0 < ?nk" by auto
  define rk where "rk = ?ws @ drop ?nk (aes_key aes)"
  have "wr_n (aes_key aes) 0 ?ws = Some rk" and len: "length rk = 60"
    using assms(2) \<open>?nk \<le> ?nw\<close> \<open>?nw \<le> 60\<close> by (simp_all add: wr_n_def rk_def)
  moreover have "be_bytes 4 (rk ! m) = fips_word ?nk key m" if "m < ?nk" for m
    using that nk by (subst fips_word.simps) (simp add: rk_def nth_append be_bytes_key)
  then obtain rk' where "expand_loop ?nk ?nw ?nk 0 0 rk = Some rk'" "length rk' = 60"
      "\<forall>m<?nw. be_bytes 4 (rk' ! m) = fips_word ?nk key m"
    using expand_loop_words [of ?nk ?nk ?nw rk key] \<open>?nk \<le> ?nw\<close> \<open>?nw \<le> 60\<close> \<open>?nw \<le> ?nk * 11\<close> \<open>0 < ?nk\<close> len
    by auto
  ultimately show ?thesis using assms by (simp add: aes_setkey_def KeyExpansion_def aes_ready_def)
qed

section \<open>The block cipher\<close>

definition fips_round_key :: "u8 list \<Rightarrow> nat \<Rightarrow> u8 list" where
  "fips_round_key key r = concat (map (fips_word (length key div 4) key) [4 * r..<4 * r + 4])"

definition aes_encipher :: "u8 list \<Rightarrow> u8 list \<Rightarrow> u8 list" where
  "aes_encipher key = fips_Cipher (6 + length key div 4) (fips_round_key key)"

definition aes_decipher :: "u8 list \<Rightarrow> u8 list \<Rightarrow> u8 list" where
  "aes_decipher key = fips_InvCipher (6 + length key div 4) (fips_round_key key)"

lemma aes_ready_keys:
  assumes "aes_ready aes key" "r \<le> 6 + length key div 4"
  shows "round_key (aes_key aes) r = fips_round_key key r" "4 * r + 4 \<le> length (aes_key aes)"
    "length (fips_round_key key r) = 16"
proof -
  have nk: "4 * (length key div 4) = length key" "length key \<le> 32" and len: "length (aes_key aes) = 60"
    using assms by (auto simp: aes_ready_def aes_key_length_def)
  then show le: "4 * r + 4 \<le> length (aes_key aes)" using assms(2) by linarith
  have "take 4 (drop (4 * r) (aes_key aes)) = map ((!) (aes_key aes)) [4 * r..<4 * r + 4]"
    using le by (intro nth_equalityI) auto
  then have "map (be_bytes 4) (take 4 (drop (4 * r) (aes_key aes))) = map (\<lambda>m. be_bytes 4 (aes_key aes ! m)) [4 * r..<4 * r + 4]"
    by (simp add: o_def)
  also have "\<dots> = map (fips_word (length key div 4) key) [4 * r..<4 * r + 4]"
  proof (rule map_cong [OF refl])
    fix m assume "m \<in> set [4 * r..<4 * r + 4]"
    then have "m < 28 + length key" using nk(1) assms(2) by simp
    then show "be_bytes 4 (aes_key aes ! m) = fips_word (length key div 4) key m"
      using assms(1) by (simp add: aes_ready_def)
  qed
  finally show *: "round_key (aes_key aes) r = fips_round_key key r"
    by (simp only: round_key_def fips_round_key_def)
  show "length (fips_round_key key r) = 16" using round_key_length [OF le] by (simp add: *)
qed

lemma fips_Cipher_cong:
  assumes "\<And>r. r \<le> nr \<Longrightarrow> w r = w' r"
  shows "fips_Cipher nr w = fips_Cipher nr w'" "fips_InvCipher nr w = fips_InvCipher nr w'"
  using assms
  by (auto simp: fips_Cipher_def fips_InvCipher_def fun_eq_iff Let_def
      intro!: arg_cong2 [where f = fips_AddRoundKey] arg_cong [where f = fips_ShiftRows] arg_cong [where f = fips_SubBytes]
        arg_cong [where f = fips_InvShiftRows] arg_cong [where f = fips_InvSubBytes] fold_cong)

lemma aes_encrypt_1_up:
  assumes "aes_ready aes key" "length s = 16"
  shows "aes_encrypt_1 aes (map up s) = Some (map up (aes_encipher key s))"
proof -
  have "length key div 4 \<le> 8" using assms(1) by (auto simp: aes_ready_def aes_key_length_def)
  then have "aes_encrypt_1 aes (map up s) = Some (map up (fips_Cipher (6 + length key div 4) (round_key (aes_key aes)) s))"
    using encrypt_loop_rounds [of "6 + length key div 4" "aes_key aes" s 0] aes_ready_keys(2) [OF assms(1) order_refl] assms
    by (simp add: aes_encrypt_1_def aes_ready_def)
  then show ?thesis
    using fips_Cipher_cong(1) [of "6 + length key div 4" "round_key (aes_key aes)" "fips_round_key key"] aes_ready_keys(1) [OF assms(1)]
    by (simp add: aes_encipher_def)
qed

lemma aes_decrypt_1_up:
  assumes "aes_ready aes key" "length s = 16"
  shows "aes_decrypt_1 aes (map up s) = Some (map up (aes_decipher key s))"
proof -
  let ?r = "5 + length key div 4"
  have r: "length key div 4 \<le> 8" "Suc ?r = 6 + length key div 4"
    using assms(1) by (auto simp: aes_ready_def aes_key_length_def)
  then have p: "unat (aes_rounds aes * 4) = 4 * Suc ?r" "aes_rounds aes = of_nat (Suc ?r)" "Suc ?r < 2 ^ 32"
    using assms(1) by (auto simp: aes_ready_def unat_word_ariths unat_of_nat)
  have len: "4 * Suc ?r + 4 \<le> length (aes_key aes)" using aes_ready_keys(2) [OF assms(1), of "Suc ?r"] by simp
  obtain w where w: "rd_n (aes_key aes) (4 * Suc ?r) 4 = Some w"
    "AddRoundKey (map up s) w = map up (fips_AddRoundKey (round_key (aes_key aes) (Suc ?r)) s)"
    using AddRoundKey_round [OF len assms(2)] by blast
  have "aes_decrypt_1 aes (map up s) = Some (map up (fips_InvCipher (Suc ?r) (round_key (aes_key aes)) s))"
    unfolding aes_decrypt_1_def p(1) w bind.bind_lunit fips_InvCipher_rounds unfolding p(2)
    using len assms(2) p(3) by (intro decrypt_loop_rounds) (simp_all add: round_key_length)
  then show ?thesis
    using fips_Cipher_cong(2) [of "Suc ?r" "round_key (aes_key aes)" "fips_round_key key"] aes_ready_keys(1) [OF assms(1)]
    by (simp add: aes_decipher_def r(2))
qed

lemma aes_cipher_lengths:
  assumes "aes_ready aes key" "length s = 16"
  shows "length (aes_encipher key s) = 16" "length (aes_decipher key s) = 16"
proof -
  have r: "6 + length key div 4 = Suc (5 + length key div 4)" by simp
  have "length (inv_rounds (fips_round_key key) r s) = 16" if "length s = 16" "r \<le> 6 + length key div 4" for r s
    using that aes_ready_keys(3) [OF assms(1)] by (induction r arbitrary: s) simp_all
  then show "length (aes_encipher key s) = 16" "length (aes_decipher key s) = 16"
    unfolding aes_encipher_def aes_decipher_def r fips_Cipher_half fips_InvCipher_rounds
    using aes_ready_keys(3) [OF assms(1)] assms(2) by (simp_all add: half_round_def)
qed

lemma aes_decipher_encipher:
  assumes "aes_ready aes key" "length s = 16"
  shows "aes_decipher key (aes_encipher key s) = s"
  unfolding aes_encipher_def aes_decipher_def using aes_ready_keys(3) [OF assms(1)] assms(2)
  by (intro fips_InvCipher_Cipher) simp_all

section \<open>Cipher block chaining\<close>

text \<open>NIST SP 800-38A, on lists of blocks.\<close>

fun cbc_encipher :: "(u8 list \<Rightarrow> u8 list) \<Rightarrow> u8 list \<Rightarrow> u8 list list \<Rightarrow> u8 list list" where
  "cbc_encipher E iv [] = []"
| "cbc_encipher E iv (p # ps) = (let c = E (map2 (XOR) p iv) in c # cbc_encipher E c ps)"

fun cbc_decipher :: "(u8 list \<Rightarrow> u8 list) \<Rightarrow> u8 list \<Rightarrow> u8 list list \<Rightarrow> u8 list list" where
  "cbc_decipher D iv [] = []"
| "cbc_decipher D iv (c # cs) = map2 (XOR) (D c) iv # cbc_decipher D c cs"

definition whole_blocks :: "u8 list list \<Rightarrow> bool" where "whole_blocks bs \<longleftrightarrow> (\<forall>b \<in> set bs. length b = 16)"

lemma whole_blocks_simps [simp]: "whole_blocks []" "whole_blocks (b # bs) \<longleftrightarrow> length b = 16 \<and> whole_blocks bs"
  by (auto simp: whole_blocks_def)

lemma whole_blocks_length: "whole_blocks bs \<Longrightarrow> length (concat bs) = 16 * length bs"
  by (induction bs) simp_all

lemma cbc_decipher_encipher:
  assumes "\<And>b. length b = 16 \<Longrightarrow> D (E b) = b \<and> length (E b) = 16" "whole_blocks ps" "length iv = 16"
  shows "cbc_decipher D iv (cbc_encipher E iv ps) = ps"
  using assms(2,3)
proof (induction ps arbitrary: iv)
  case (Cons p ps)
  have "D (E (map2 (XOR) p iv)) = map2 (XOR) p iv" "length (E (map2 (XOR) p iv)) = 16"
    using assms(1) [of "map2 (XOR) p iv"] Cons.prems by simp_all
  moreover have "map2 (XOR) (map2 (XOR) p iv) iv = p"
    using Cons.prems by (intro nth_equalityI) (simp_all add: xor.assoc)
  ultimately show ?case using Cons by (simp add: Let_def)
qed simp

lemma cbc_encipher_blocks:
  assumes "\<And>b. length b = 16 \<Longrightarrow> length (E b) = 16" "whole_blocks ps" "length iv = 16"
  shows "whole_blocks (cbc_encipher E iv ps)" "length (cbc_encipher E iv ps) = length ps"
  using assms(2,3) by (induction ps arbitrary: iv) (simp_all add: Let_def assms(1))

lemma cbc_decipher_blocks:
  assumes "\<And>b. length b = 16 \<Longrightarrow> length (D b) = 16" "whole_blocks cs" "length iv = 16"
  shows "whole_blocks (cbc_decipher D iv cs)" "length (cbc_decipher D iv cs) = length cs"
  using assms(2,3) by (induction cs arbitrary: iv) (simp_all add: assms(1))

text \<open>
  One block read at \<open>src\<close> and one written at \<open>dst\<close>, at or before it: what is left to read stays
  as it was, and what was written before stays written.
\<close>

lemma block_step:
  assumes "dst \<le> src" "take (16 * Suc n) (drop src mem) = b @ rest" "length b = 16" "length rest = 16 * n"
    "length out = 16"
  defines "mem' \<equiv> take dst mem @ out @ drop (dst + 16) mem"
  shows "rd_n mem src 16 = Some b" "wr_n mem dst out = Some mem'" "take (16 * n) (drop (src + 16) mem') = rest"
    "take (dst + 16) mem' = take dst mem @ out" "drop (dst + 16 + k) mem' = drop (dst + 16 + k) mem"
proof -
  have "length (take (16 * Suc n) (drop src mem)) = 16 * Suc n" using assms(2-4) by simp
  then have len: "src + 16 * Suc n \<le> length mem" by simp
  have "take 16 (take (16 * Suc n) (drop src mem)) = b" using assms(2,3) by simp
  then show "rd_n mem src 16 = Some b" using len by (simp add: rd_n_def)
  show "wr_n mem dst out = Some mem'" using len assms by (simp add: wr_n_def)
  have "drop (src + 16) mem' = drop (src + 16) mem" using assms len by simp
  moreover have "drop 16 (take (16 * Suc n) (drop src mem)) = rest" using assms(2,3) by simp
  then have "take (16 * n) (drop (src + 16) mem) = rest" by (simp add: drop_take add.commute)
  ultimately show "take (16 * n) (drop (src + 16) mem') = rest" by simp
  show "take (dst + 16) mem' = take dst mem @ out" "drop (dst + 16 + k) mem' = drop (dst + 16 + k) mem"
    using assms(1,5) len unfolding mem'_def by (simp_all add: add.commute)
qed

lemma u8_up [simp]: "ucast (up b) = b"
  by (rule bit_word_eqI) (auto simp: bit_simps)

lemma cbc_encrypt_loop_blocks:
  assumes "aes_ready aes key" "whole_blocks ps" "length iv = 16" "dst \<le> src"
    "take (16 * length ps) (drop src mem) = concat ps"
  shows "cbc_encrypt_loop aes iv src dst (16 * length ps) mem
    = Some (take dst mem @ concat (cbc_encipher (aes_encipher key) iv ps) @ drop (dst + 16 * length ps) mem)"
  using assms(2-)
proof (induction ps arbitrary: iv src dst mem)
  case Nil
  then show ?case by (subst cbc_encrypt_loop.simps) simp
next
  case (Cons p ps)
  let ?c = "aes_encipher key (map2 (XOR) p iv)"
  let ?mem = "take dst mem @ ?c @ drop (dst + 16) mem"
  have p: "length p = 16" "length (concat ps) = 16 * length ps" using Cons.prems by (simp_all add: whole_blocks_length)
  then have c: "length ?c = 16" using aes_cipher_lengths(1) [OF assms(1)] Cons.prems(2) by simp
  have "aes_encrypt_1 aes (map2 (\<lambda>p v. ucast (p XOR v)) p iv) = Some (map up ?c)"
    using aes_encrypt_1_up [OF assms(1), of "map2 (XOR) p iv"] p Cons.prems(2)
    by (simp add: map_zip_map2 case_prod_unfold o_def)
  moreover have "map ucast (map up ?c) = ?c" by (simp add: o_def u8_up)
  moreover note step = block_step [of dst src "length ps" mem p "concat ps" ?c, OF Cons.prems(3) _ p c]
  ultimately have "cbc_encrypt_loop aes iv src dst (16 * length (p # ps)) mem
      = cbc_encrypt_loop aes ?c (src + 16) (dst + 16) (16 * length ps) ?mem"
    using Cons.prems(4) by (subst cbc_encrypt_loop.simps) (simp add: Let_def)
  also have "\<dots> = Some (take (dst + 16) ?mem @ concat (cbc_encipher (aes_encipher key) ?c ps)
      @ drop (dst + 16 + 16 * length ps) ?mem)"
    using Cons.prems step(3) c by (intro Cons.IH) simp_all
  finally show ?case
    using step(4,5) Cons.prems(4) by (simp add: Let_def add.assoc)
qed

lemma cbc_decrypt_loop_blocks:
  assumes "aes_ready aes key" "whole_blocks cs" "(if b then iv3 else iv2) = iv" "length iv = 16" "dst \<le> src"
    "take (16 * length cs) (drop src mem) = concat cs"
  shows "cbc_decrypt_loop aes b iv2 iv3 src dst (16 * length cs) mem
    = Some (take dst mem @ concat (cbc_decipher (aes_decipher key) iv cs) @ drop (dst + 16 * length cs) mem)"
  using assms(2-)
proof (induction cs arbitrary: b iv iv2 iv3 src dst mem)
  case Nil
  then show ?case by (subst cbc_decrypt_loop.simps) simp
next
  case (Cons c cs)
  let ?p = "map2 (XOR) (aes_decipher key c) iv"
  let ?mem = "take dst mem @ ?p @ drop (dst + 16) mem"
  have c: "length c = 16" "length (concat cs) = 16 * length cs" using Cons.prems by (simp_all add: whole_blocks_length)
  then have p: "length ?p = 16" using aes_cipher_lengths(2) [OF assms(1)] Cons.prems(3) by simp
  have "map2 (\<lambda>a v. ucast a XOR v) (map up (aes_decipher key c)) iv = ?p"
    by (simp add: zip_map1 o_def case_prod_unfold u8_up)
  moreover note step = block_step [of dst src "length cs" mem c "concat cs" ?p, OF Cons.prems(4) _ c p]
  ultimately have "cbc_decrypt_loop aes b iv2 iv3 src dst (16 * length (c # cs)) mem
      = cbc_decrypt_loop aes (\<not> b) (if b then c else iv2) (if b then iv3 else c) (src + 16) (dst + 16) (16 * length cs) ?mem"
    using Cons.prems(2,5) aes_decrypt_1_up [OF assms(1) c(1)] by (subst cbc_decrypt_loop.simps) (simp add: Let_def split: if_splits)
  also have "\<dots> = Some (take (dst + 16) ?mem @ concat (cbc_decipher (aes_decipher key) c cs)
      @ drop (dst + 16 + 16 * length cs) ?mem)"
    using Cons.prems step(3) c by (intro Cons.IH) simp_all
  finally show ?case using step(4,5) Cons.prems(5) by (simp add: add.assoc)
qed

lemma aes_cbc_encrypt_blocks:
  assumes "aes_ready aes key" "whole_blocks ps" "rd_n mem iv 16 = Some v" "dst \<le> src"
    "rd_n mem src (16 * length ps) = Some (concat ps)"
  shows "aes_cbc_encrypt aes iv src (16 * length ps) dst mem
    = Some (take dst mem @ concat (cbc_encipher (aes_encipher key) v ps) @ drop (dst + 16 * length ps) mem)"
  using assms rd_n_length [OF assms(3)]
  by (auto simp: aes_cbc_encrypt_def rd_n_def split: if_splits intro!: cbc_encrypt_loop_blocks)

lemma aes_cbc_decrypt_blocks:
  assumes "aes_ready aes key" "whole_blocks cs" "rd_n mem iv 16 = Some v" "dst \<le> src"
    "rd_n mem src (16 * length cs) = Some (concat cs)"
  shows "aes_cbc_decrypt aes iv src (16 * length cs) dst mem
    = Some (take dst mem @ concat (cbc_decipher (aes_decipher key) v cs) @ drop (dst + 16 * length cs) mem)"
  using assms rd_n_length [OF assms(3)]
  by (auto simp: aes_cbc_decrypt_def rd_n_def split: if_splits intro!: cbc_decrypt_loop_blocks)

section \<open>The S-box\<close>

definition rotl8 :: "nat \<Rightarrow> u8 \<Rightarrow> u8" where "rotl8 k b = push_bit k b OR drop_bit (8 - k) b"

definition affine :: "u8 \<Rightarrow> u8" where
  "affine b = b XOR rotl8 1 b XOR rotl8 2 b XOR rotl8 3 b XOR rotl8 4 b XOR 0x63"

definition unaffine :: "u8 \<Rightarrow> u8" where "unaffine b = rotl8 1 b XOR rotl8 3 b XOR rotl8 6 b XOR 5"

lemma bit_rotl8:
  "0 < k \<Longrightarrow> k < 8 \<Longrightarrow> n < 8 \<Longrightarrow> bit (rotl8 k b) n = (if k \<le> n then bit b (n - k) else bit b (n + 8 - k))"
  by (auto simp: rotl8_def bit_or_iff bit_push_bit_iff bit_drop_bit_eq not_le add.commute
      dest!: u8_bitD)

lemma affine_unaffine: "affine (unaffine b) = b"
  by (rule u8_eqI) (simp_all add: affine_def unaffine_def bit_rotl8 bit_xor_iff, blast+)

text \<open>The powers of 3, which are all bytes but 0.\<close>

definition pow3 :: "u8 list" where
  "pow3 =
   [0x01, 0x03, 0x05, 0x0f, 0x11, 0x33, 0x55, 0xff, 0x1a, 0x2e, 0x72, 0x96, 0xa1, 0xf8, 0x13, 0x35,
    0x5f, 0xe1, 0x38, 0x48, 0xd8, 0x73, 0x95, 0xa4, 0xf7, 0x02, 0x06, 0x0a, 0x1e, 0x22, 0x66, 0xaa,
    0xe5, 0x34, 0x5c, 0xe4, 0x37, 0x59, 0xeb, 0x26, 0x6a, 0xbe, 0xd9, 0x70, 0x90, 0xab, 0xe6, 0x31,
    0x53, 0xf5, 0x04, 0x0c, 0x14, 0x3c, 0x44, 0xcc, 0x4f, 0xd1, 0x68, 0xb8, 0xd3, 0x6e, 0xb2, 0xcd,
    0x4c, 0xd4, 0x67, 0xa9, 0xe0, 0x3b, 0x4d, 0xd7, 0x62, 0xa6, 0xf1, 0x08, 0x18, 0x28, 0x78, 0x88,
    0x83, 0x9e, 0xb9, 0xd0, 0x6b, 0xbd, 0xdc, 0x7f, 0x81, 0x98, 0xb3, 0xce, 0x49, 0xdb, 0x76, 0x9a,
    0xb5, 0xc4, 0x57, 0xf9, 0x10, 0x30, 0x50, 0xf0, 0x0b, 0x1d, 0x27, 0x69, 0xbb, 0xd6, 0x61, 0xa3,
    0xfe, 0x19, 0x2b, 0x7d, 0x87, 0x92, 0xad, 0xec, 0x2f, 0x71, 0x93, 0xae, 0xe9, 0x20, 0x60, 0xa0,
    0xfb, 0x16, 0x3a, 0x4e, 0xd2, 0x6d, 0xb7, 0xc2, 0x5d, 0xe7, 0x32, 0x56, 0xfa, 0x15, 0x3f, 0x41,
    0xc3, 0x5e, 0xe2, 0x3d, 0x47, 0xc9, 0x40, 0xc0, 0x5b, 0xed, 0x2c, 0x74, 0x9c, 0xbf, 0xda, 0x75,
    0x9f, 0xba, 0xd5, 0x64, 0xac, 0xef, 0x2a, 0x7e, 0x82, 0x9d, 0xbc, 0xdf, 0x7a, 0x8e, 0x89, 0x80,
    0x9b, 0xb6, 0xc1, 0x58, 0xe8, 0x23, 0x65, 0xaf, 0xea, 0x25, 0x6f, 0xb1, 0xc8, 0x43, 0xc5, 0x54,
    0xfc, 0x1f, 0x21, 0x63, 0xa5, 0xf4, 0x07, 0x09, 0x1b, 0x2d, 0x77, 0x99, 0xb0, 0xcb, 0x46, 0xca,
    0x45, 0xcf, 0x4a, 0xde, 0x79, 0x8b, 0x86, 0x91, 0xa8, 0xe3, 0x3e, 0x42, 0xc6, 0x51, 0xf3, 0x0e,
    0x12, 0x36, 0x5a, 0xee, 0x29, 0x7b, 0x8d, 0x8c, 0x8f, 0x8a, 0x85, 0x94, 0xa7, 0xf2, 0x0d, 0x17,
    0x39, 0x4b, 0xdd, 0x7c, 0x84, 0x97, 0xa2, 0xfd, 0x1c, 0x24, 0x6c, 0xb4, 0xc7, 0x52, 0xf6, 0x01]"

lemma pow3_step: "map (\<lambda>x. x XOR xtime x) (butlast pow3) = tl pow3"
  by code_simp

lemma pow3_nth: "i < 256 \<Longrightarrow> pow3 ! i = (gf_mul 3 ^^ i) 1"
proof (induction i)
  case (Suc i)
  have len: "length pow3 = 256" by (simp add: pow3_def)
  have "pow3 ! Suc i = tl pow3 ! i" using Suc.prems by (simp add: nth_tl len)
  also have "\<dots> = gf_mul 3 (pow3 ! i)"
    unfolding pow3_step [symmetric] using Suc.prems by (simp add: nth_butlast len gf_mul_small)
  finally show ?case using Suc by simp
qed (simp add: pow3_def)

lemma sbox_pow3: "map S pow3 = map affine (rev pow3)"
  unfolding S_def by code_simp

lemma whole_blocks_exist:
  assumes "length data = 16 * n"
  obtains bs where "whole_blocks bs" "concat bs = data" "length bs = n"
proof -
  have "\<exists>bs. whole_blocks bs \<and> concat bs = data \<and> length bs = n"
    using assms
  proof (induction n arbitrary: data)
    case (Suc n)
    have "length (drop 16 data) = 16 * n" using Suc.prems by simp
    then obtain bs where "whole_blocks bs" "concat bs = drop 16 data" "length bs = n" using Suc.IH by blast
    then show ?case using Suc.prems by (intro exI [of _ "take 16 data # bs"]) simp
  qed simp
  then show ?thesis using that by blast
qed

section \<open>Properties\<close>

text \<open>
  The S-box of the code is the one FIPS 197 describes: the multiplicative inverse under the
  affine map. The non-zero bytes are the powers of the generator 3, the inverse of the \<open>i\<close>-th being
  the \<open>255 - i\<close>-th; zero stands for itself.
\<close>

theorem sbox_is_affine_inverse:
  "S 0 # map (\<lambda>i. S ((gf_mul 3 ^^ i) 1)) [0..<256] = affine 0 # map (\<lambda>i. affine ((gf_mul 3 ^^ (255 - i)) 1)) [0..<256]"
proof -
  have len: "length pow3 = 256" by (simp add: pow3_def)
  have "map (\<lambda>i. S ((gf_mul 3 ^^ i) 1)) [0..<256] = map S pow3"
    by (rule nth_equalityI) (simp_all add: len pow3_nth)
  also have "\<dots> = map (\<lambda>i. affine ((gf_mul 3 ^^ (255 - i)) 1)) [0..<256]"
    unfolding sbox_pow3 by (rule nth_equalityI) (simp_all add: len rev_nth pow3_nth)
  moreover have "S 0 = affine 0" by code_simp
  ultimately show ?thesis by simp
qed

text \<open>
  C17: for every key of 128, 192 or 256 bits and every block, setting the key and encrypting one
  block gives what Cipher of FIPS 197 gives with the key schedule of FIPS 197: the
  word-sized key schedule never leaves its arrays, no table is read outside, and the steps that
  work on 32-bit integers are the steps of the standard on bytes of GF(2^8).
\<close>

theorem aes_encrypts_as_fips197:
  assumes "aes_key_length (length key)" "length (aes_key aes) = 60" "length block = 16"
  shows "do { aes \<leftarrow> aes_setkey aes key (length key); aes_encrypt_one_block aes block } = Some (aes_encipher key block)"
proof -
  obtain aes' where "aes_setkey aes key (length key) = Some aes'" "aes_ready aes' key"
    using aes_setkey_ready [OF assms(1,2)] by blast
  then show ?thesis
    using assms(3) by (simp add: aes_encrypt_one_block_def rd_n_def aes_encrypt_1_up o_def)
qed

theorem aes_encrypts_as_fips197_witness:
  "do { aes \<leftarrow> aes_setkey \<lparr>aes_key = replicate 60 0, aes_rounds = 0\<rparr> (replicate 24 7) 24; aes_encrypt_one_block aes (replicate 16 1) }
    = Some (aes_encipher (replicate 24 7) (replicate 16 1))"
  using aes_encrypts_as_fips197 [of "replicate 24 7" "\<lparr>aes_key = replicate 60 0, aes_rounds = 0\<rparr>" "replicate 16 1"]
  by (simp add: aes_key_length_def)

text \<open>
  CBC as the record layer uses it loses nothing: data of whole blocks, encrypted in place
  behind its initialisation vector and decrypted onto that vector, sixteen bytes below where it lay,
  is the data again, for every key and vector. Neither direction leaves the buffer.
\<close>

theorem aes_cbc_roundtrip:
  assumes "aes_key_length (length key)" "length (aes_key aes) = 60" "length iv = 16" "16 dvd length data"
  shows "do { aes \<leftarrow> aes_setkey aes key (length key);
    mem \<leftarrow> aes_cbc_encrypt aes 0 16 (length data) 16 (iv @ data);
    mem \<leftarrow> aes_cbc_decrypt aes 0 16 (length data) 0 mem;
    rd_n mem 0 (length data) } = Some data"
proof -
  obtain aes' where key: "aes_setkey aes key (length key) = Some aes'" and ready: "aes_ready aes' key"
    using aes_setkey_ready [OF assms(1,2)] by blast
  obtain ps where ps: "whole_blocks ps" "concat ps = data" "length data = 16 * length ps"
    using assms(4) by (elim dvdE whole_blocks_exist) (metis whole_blocks_length)
  let ?cs = "cbc_encipher (aes_encipher key) iv ps"
  note lengths = aes_cipher_lengths [OF ready]
  have cs: "whole_blocks ?cs" "length ?cs = length ps" using cbc_encipher_blocks [of "aes_encipher key" ps iv] lengths ps assms(3) by simp_all
  have "aes_cbc_encrypt aes' 0 16 (length data) 16 (iv @ data) = Some (iv @ concat ?cs)"
    using aes_cbc_encrypt_blocks [OF ready ps(1), of "iv @ data" 0 iv 16 16] ps assms(3) by (simp add: rd_n_def)
  moreover have "aes_cbc_decrypt aes' 0 16 (length data) 0 (iv @ concat ?cs)
      = Some (concat (cbc_decipher (aes_decipher key) iv ?cs) @ drop (length data) (iv @ concat ?cs))"
    using aes_cbc_decrypt_blocks [OF ready cs(1), of "iv @ concat ?cs" 0 iv 0 16] ps assms(3) cs
    by (simp add: rd_n_def whole_blocks_length)
  moreover have "cbc_decipher (aes_decipher key) iv ?cs = ps"
    using aes_decipher_encipher [OF ready] lengths ps(1) assms(3) by (intro cbc_decipher_encipher) simp_all
  ultimately show ?thesis using key ps by (simp add: rd_n_def)
qed

theorem aes_cbc_roundtrip_witness:
  "do { aes \<leftarrow> aes_setkey \<lparr>aes_key = replicate 60 0, aes_rounds = 0\<rparr> (replicate 16 7) 16;
    mem \<leftarrow> aes_cbc_encrypt aes 0 16 48 16 (replicate 16 1 @ replicate 48 2);
    mem \<leftarrow> aes_cbc_decrypt aes 0 16 48 0 mem; rd_n mem 0 48 } = Some (replicate 48 2)"
  using aes_cbc_roundtrip [of "replicate 16 7" "\<lparr>aes_key = replicate 60 0, aes_rounds = 0\<rparr>" "replicate 16 1" "replicate 48 2"]
  by (simp add: aes_key_length_def)

end
