(* ===== verification/TlsGcm.thy ===== *)
theory TlsGcm
  imports ByteOrder
begin

text \<open>
  \<^verbatim>\<open>networking/tls_aesgcm.c\<close>: the universal hash GHASH of the Galois/Counter mode, with the
  buffer helpers of \<^verbatim>\<open>networking/tls.c\<close> it calls. Blocks are sixteen bytes; the code reads
  them as two 64-bit or four 32-bit words of the little-endian target and swaps. The lemmas read a
  block as one word of 128 bits, whose top bit is the coefficient of the power 0, and the code as
  multiplication in the field of NIST SP 800-38D.
\<close>

section \<open>The operations\<close>

text \<open>\<^verbatim>\<open>xorbuf3\<close> and \<^verbatim>\<open>xorbuf\<close>: the first \<open>count\<close> bytes; what lies behind them in \<open>dst\<close> stays.\<close>

definition xorbuf3 :: "u8 list \<Rightarrow> u8 list \<Rightarrow> u8 list \<Rightarrow> nat \<Rightarrow> u8 list option" where
  "xorbuf3 dst src1 src2 count = do {
     s1 \<leftarrow> rd_n src1 0 count;
     s2 \<leftarrow> rd_n src2 0 count;
     wr_n dst 0 (map2 (XOR) s1 s2)
   }"

definition xorbuf :: "u8 list \<Rightarrow> u8 list \<Rightarrow> nat \<Rightarrow> u8 list option" where
  "xorbuf dst src count = xorbuf3 dst dst src count"

definition xorbuf_aligned_AES_BLOCK_SIZE :: "u8 list \<Rightarrow> u8 list \<Rightarrow> u8 list option" where
  "xorbuf_aligned_AES_BLOCK_SIZE dst src = do {
     d0 \<leftarrow> rd_n dst 0 8; s0 \<leftarrow> rd_n src 0 8;
     dst \<leftarrow> wr_n dst 0 (le_bytes 8 (word_of_le d0 XOR word_of_le s0 :: u64));
     d1 \<leftarrow> rd_n dst 8 8; s1 \<leftarrow> rd_n src 8 8;
     wr_n dst 8 (le_bytes 8 (word_of_le d1 XOR word_of_le s1 :: u64))
   }"

text \<open>The 64-bit little-endian branch, the one the target compiles.\<close>

definition RIGHTSHIFTX :: "u8 list \<Rightarrow> u8 list option" where
  "RIGHTSHIFTX x = do {
     b \<leftarrow> rd x 15;
     let carryIn = (if b AND 0x01 \<noteq> 0 then push_bit 56 0xE1 else 0 :: u64);
     l \<leftarrow> rd_n x 0 8;
     let tt = swap64 (word_of_le l);
     let carryOut = push_bit 63 tt;
     let tt = drop_bit 1 tt XOR carryIn;
     x \<leftarrow> wr_n x 0 (le_bytes 8 (swap64 tt));
     l \<leftarrow> rd_n x 8 8;
     let tt = swap64 (word_of_le l);
     let tt = drop_bit 1 tt XOR carryOut;
     wr_n x 8 (le_bytes 8 (swap64 tt))
   }"

text \<open>
  The generic branch the file keeps under \<^verbatim>\<open>#if 0\<close>, one byte at a time: the reference the other
  branches replace.
\<close>

fun RIGHTSHIFTX_generic_loop :: "u8 \<Rightarrow> u8 list \<Rightarrow> u8 list" where
  "RIGHTSHIFTX_generic_loop carryIn [] = []"
| "RIGHTSHIFTX_generic_loop carryIn (x # xs) =
     (drop_bit 1 x XOR carryIn) # RIGHTSHIFTX_generic_loop (push_bit 7 x) xs"

definition RIGHTSHIFTX_generic :: "u8 list \<Rightarrow> u8 list" where
  "RIGHTSHIFTX_generic x = RIGHTSHIFTX_generic_loop (if x ! 15 AND 0x01 \<noteq> 0 then 0xE1 else 0) x"

text \<open>
  The inner loop of \<^verbatim>\<open>GMULT\<close> ends when the marker bit above the eight bits of the byte reaches
  the sign; nothing in the loop itself bounds it.
\<close>

partial_function (option) gmult_bits :: "u32 \<Rightarrow> u8 list \<Rightarrow> u8 list \<Rightarrow> (u8 list \<times> u8 list) option" where
  "gmult_bits y Z X = do {
     Z \<leftarrow> (if y AND 0x80 \<noteq> 0 then xorbuf_aligned_AES_BLOCK_SIZE Z X else Some Z);
     X \<leftarrow> RIGHTSHIFTX X;
     let y = push_bit 1 y;
     (if sint y < 0 then Some (Z, X) else gmult_bits y Z X)
   }"

declare gmult_bits.simps [code]

fun gmult_bytes :: "u8 list \<Rightarrow> u8 list \<Rightarrow> u8 list \<Rightarrow> (u8 list \<times> u8 list) option" where
  "gmult_bytes [] Z X = Some (Z, X)"
| "gmult_bytes (b # Y) Z X = do {
     (Z, X) \<leftarrow> gmult_bits (0x800000 OR ucast b) Z X;
     gmult_bytes Y Z X
   }"

definition GMULT :: "u8 list \<Rightarrow> u8 list \<Rightarrow> u8 list option" where
  "GMULT X Y = do {
     Y \<leftarrow> rd_n Y 0 16;
     (Z, X) \<leftarrow> gmult_bytes Y (replicate 16 0) X;
     wr_n X 0 Z
   }"

text \<open>The loop over the whole blocks of the ciphertext: the state and what is left of \<open>c\<close>.\<close>

fun ghash_blocks :: "u8 list \<Rightarrow> nat \<Rightarrow> u8 list \<Rightarrow> u8 list \<Rightarrow> (u8 list \<times> u8 list) option" where
  "ghash_blocks h 0 x c = Some (x, c)"
| "ghash_blocks h (Suc blocks) x c = do {
     x \<leftarrow> xorbuf_aligned_AES_BLOCK_SIZE x c;
     x \<leftarrow> GMULT x h;
     ghash_blocks h blocks x (drop 16 c)
   }"

definition aSz :: nat where "aSz = 13"

definition xor_word32 :: "u8 list \<Rightarrow> nat \<Rightarrow> u32 \<Rightarrow> u8 list option" where
  "xor_word32 x i v = do {
     w \<leftarrow> rd_n x (4 * i) 4;
     wr_n x (4 * i) (le_bytes 4 (word_of_le w XOR v :: u32))
   }"

definition aesgcm_GHASH :: "u8 list \<Rightarrow> u8 list \<Rightarrow> u8 list \<Rightarrow> nat \<Rightarrow> u8 list option" where
  "aesgcm_GHASH h a c cSz = do {
     x \<leftarrow> rd_n a 0 16;
     x \<leftarrow> GMULT x h;
     x \<leftarrow>
       (if cSz \<noteq> 0 then do {
          let blocks = cSz div 16;
          let partial = cSz mod 16;
          (x, c) \<leftarrow> ghash_blocks h blocks x c;
          (if partial \<noteq> 0 then do { x \<leftarrow> xorbuf x c partial; GMULT x h } else Some x)
        }
        else Some x);
     x \<leftarrow> xor_word32 x 1 (swap32 (of_nat (aSz * 8)));
     x \<leftarrow> xor_word32 x 3 (swap32 (of_nat cSz * 8));
     GMULT x h
   }"

section \<open>Blocks as words of 128 bits\<close>

type_synonym u128 = "128 word"

definition gblock :: "u8 list \<Rightarrow> u128" where "gblock x = word_of_le (rev x)"

text \<open>Multiplication by the power 1 of the field of NIST SP 800-38D.\<close>

definition mulx :: "u128 \<Rightarrow> u128" where
  "mulx v = drop_bit 1 v XOR (if bit v 0 then push_bit 120 0xE1 else 0)"

text \<open>The product: the sum of \<open>y\<close> times the powers \<open>x\<close> has; power \<open>i\<close> is bit \<open>127 - i\<close>.\<close>

definition gmul :: "u128 \<Rightarrow> u128 \<Rightarrow> u128" where
  "gmul x y = foldr (\<lambda>i z. (if bit x (127 - i) then (mulx ^^ i) y else 0) XOR z) [0..<128] 0"

lemma word_of_le_append:
  assumes "length a = 8"
  shows "(word_of_le (a @ b) :: u128) = ucast (word_of_le a :: u64) OR push_bit 64 (word_of_le b)"
proof (rule bit_word_eqI)
  fix n assume n: "n < LENGTH(128)"
  have "(n - 64) div 8 = n div 8 - 8" "(n - 64) mod 8 = n mod 8" if "64 \<le> n"
    using div_mult_self1 [of 8 "n - 64" 8] mod_mult_self1 [of "n - 64" 8 8] that by simp_all
  moreover have "n div 8 < 8 \<longleftrightarrow> n < 64" "n - 64 < 128" "64 \<le> n \<Longrightarrow> 8 \<le> n div 8" using n by auto
  ultimately show "bit (word_of_le (a @ b) :: u128) n = bit (ucast (word_of_le a :: u64) OR push_bit 64 (word_of_le b) :: u128) n"
    using n assms by (cases "n < 64") (simp_all add: bit_or_iff bit_ucast_iff bit_push_bit_iff bit_word_of_le nth_append less_diff_conv2 add.commute)
qed

lemma swap64_word_of_le: "length bs = 8 \<Longrightarrow> swap64 (word_of_le bs) = word_of_le (rev bs)"
  using le_bytes_word_of_le [of bs, where 'a = 64] by (simp add: swap64_def)

lemma le_bytes_8: "word_of_le (le_bytes 8 (w :: u64)) = w" by (rule word_of_le_bytes) simp

lemma swap64_swap64 [simp]: "swap64 (swap64 w) = w"
  using swap64_word_of_le [of "rev (le_bytes 8 w)"] by (simp add: swap64_def [of w] le_bytes_8)

text \<open>A block of bytes is its two halves, swapped.\<close>

lemma block_halves:
  assumes "length x = 16"
  obtains a b where "x = a @ b" "length a = 8" "length b = 8"
  using assms by (intro that [of "take 8 x" "drop 8 x"]) simp_all

lemma gblock_append:
  "length a = 8 \<Longrightarrow> length b = 8 \<Longrightarrow>
    gblock (a @ b) = ucast (swap64 (word_of_le b)) OR push_bit 64 (ucast (swap64 (word_of_le a) :: u64))"
proof -
  assume ab: "length a = 8" "length b = 8"
  have "(word_of_le (rev a) :: u128) = ucast (word_of_le (rev a) :: u64)"
  proof (rule bit_word_eqI)
    fix n assume "n < LENGTH(128)"
    moreover have "n div 8 < 8 \<longleftrightarrow> n < 64" by auto
    ultimately show "bit (word_of_le (rev a) :: u128) n = bit (ucast (word_of_le (rev a) :: u64) :: u128) n"
      using ab by (auto simp: bit_ucast_iff bit_word_of_le)
  qed
  then show ?thesis
    using ab word_of_le_append [of "rev b" "rev a"] by (simp add: gblock_def swap64_word_of_le)
qed

lemma u64_bit_beyond: "64 \<le> n \<Longrightarrow> \<not> bit (w :: u64) n"
  using bit_imp_le_length [of w n] by auto

lemma shift_halves:
  "drop_bit 1 (ucast lo OR push_bit 64 (ucast hi)) XOR push_bit 64 (ucast k) =
    (ucast (drop_bit 1 lo XOR push_bit 63 hi) OR push_bit 64 (ucast (drop_bit 1 hi XOR k)) :: u128)" for lo hi k :: u64
proof (rule bit_word_eqI)
  fix n assume "n < LENGTH(128)"
  moreover have "n < 63 \<or> n = 63 \<or> n = 64 + (n - 64)" by linarith
  ultimately consider "n < 63" | "n = 63" | m where "n = 64 + m" "m < 64" by fastforce
  then show "bit (drop_bit 1 (ucast lo OR push_bit 64 (ucast hi)) XOR push_bit 64 (ucast k) :: u128) n =
    bit (ucast (drop_bit 1 lo XOR push_bit 63 hi) OR push_bit 64 (ucast (drop_bit 1 hi XOR k)) :: u128) n"
    by cases
      (auto simp: bit_or_iff bit_xor_iff bit_ucast_iff bit_push_bit_iff bit_drop_bit_eq Suc_diff_le u64_bit_beyond
        dest: bit_imp_le_length)
qed

lemma RIGHTSHIFTX_mulx:
  assumes "length x = 16"
  shows "\<exists>x'. RIGHTSHIFTX x = Some x' \<and> length x' = 16 \<and> gblock x' = mulx (gblock x)"
proof -
  obtain a b where ab: "x = a @ b" "length a = 8" "length b = 8" using assms by (rule block_halves)
  let ?hi = "swap64 (word_of_le a)" and ?lo = "swap64 (word_of_le b)"
  have odd_b: "x ! 15 AND 1 \<noteq> 0 \<longleftrightarrow> bit ?lo 0"
  proof -
    have "bit ?lo 0 = bit (b ! 7) 0" using ab by (simp add: swap64_word_of_le bit_word_of_le rev_nth)
    then show ?thesis using ab by (auto simp: nth_append and_one_eq odd_iff_mod_2_eq_one bit_0)
  qed
  define hi where "hi = drop_bit 1 ?hi XOR (if bit ?lo 0 then push_bit 56 0xE1 else 0)"
  define lo where "lo = drop_bit 1 ?lo XOR push_bit 63 ?hi"
  have r: "rd x 15 = Some (x ! 15)" using assms by simp
  have "RIGHTSHIFTX x = Some (le_bytes 8 (swap64 hi) @ le_bytes 8 (swap64 lo))"
    unfolding RIGHTSHIFTX_def r bind.bind_lunit Let_def odd_b hi_def lo_def
    using ab(2,3) by (simp add: ab(1) rd_n_def wr_n_def)
  moreover have "gblock (le_bytes 8 (swap64 hi) @ le_bytes 8 (swap64 lo)) = ucast lo OR push_bit 64 (ucast hi)"
    by (simp add: gblock_append le_bytes_8 swap64_swap64)
  moreover have "\<dots> = mulx (ucast ?lo OR push_bit 64 (ucast ?hi))"
  proof -
    have "bit (ucast ?lo OR push_bit 64 (ucast ?hi) :: u128) 0 = bit ?lo 0" by (simp add: bit_or_iff bit_push_bit_iff bit_ucast_iff)
    moreover have "(push_bit 120 0xE1 :: u128) = push_bit 64 (ucast (push_bit 56 0xE1 :: u64))" by simp
    moreover note shift_halves [of ?lo ?hi "push_bit 56 0xE1"] shift_halves [of ?lo ?hi 0]
    ultimately show ?thesis unfolding mulx_def lo_def hi_def by (cases "bit ?lo 0") simp_all
  qed
  ultimately show ?thesis using ab by (simp add: gblock_append)
qed

section \<open>The products\<close>

lemma mulx_xor: "mulx (x XOR y) = mulx x XOR mulx y"
  by (rule bit_word_eqI) (auto simp: mulx_def drop_bit_xor bit_xor_iff)

lemma gblock_xor:
  assumes "length x = 16" "length y = 16"
  shows "gblock (map2 (XOR) x y) = gblock x XOR gblock y"
  using assms
  by (intro bit_word_eqI) (auto simp: gblock_def bit_word_of_le bit_xor_iff rev_nth)

lemma xorbuf_aligned_xor:
  assumes "length x = 16" "16 \<le> length y"
  shows "xorbuf_aligned_AES_BLOCK_SIZE x y = Some (map2 (XOR) x (take 16 y))"
proof -
  have le: "le_bytes 8 (word_of_le a XOR word_of_le b :: u64) = map2 (XOR) a b" if "length a = 8" "length b = 8" for a b
  proof -
    have "word_of_le a XOR word_of_le b = (word_of_le (map2 (XOR) a b) :: u64)"
      using that by (intro bit_word_eqI) (auto simp: bit_word_of_le bit_xor_iff)
    then show ?thesis using le_bytes_word_of_le [of "map2 (XOR) a b", where 'a = 64] that by simp
  qed
  obtain a b where x: "x = a @ b" "length a = 8" "length b = 8" using assms(1) by (rule block_halves)
  have y: "take 16 y = take 8 y @ take 8 (drop 8 y)" by (simp add: take_add [symmetric])
  show ?thesis
    unfolding xorbuf_aligned_AES_BLOCK_SIZE_def y
    using assms(2) x by (simp add: rd_n_def wr_n_def le)
qed

text \<open>Algorithm 1 of the standard over a list of coefficients: the sum so far and the power reached.\<close>

fun mul_bits :: "bool list \<Rightarrow> u128 \<Rightarrow> u128 \<Rightarrow> u128 \<times> u128" where
  "mul_bits [] z v = (z, v)"
| "mul_bits (b # bs) z v = mul_bits bs (if b then z XOR v else z) (mulx v)"

lemma mul_bits_append: "mul_bits (bs @ cs) z v = (let (z, v) = mul_bits bs z v in mul_bits cs z v)"
  by (induction bs arbitrary: z v) simp_all

lemma mul_bits_sum:
  "fst (mul_bits bs z v) = z XOR foldr (\<lambda>i z. (if bs ! i then (mulx ^^ i) v else 0) XOR z) [0..<length bs] 0"
proof (induction bs arbitrary: z v)
  case (Cons b bs)
  have shift: "foldr (\<lambda>i z. (if (b # bs) ! i then (mulx ^^ i) v else 0) XOR z) [Suc 0..<Suc n] 0
      = foldr (\<lambda>i z. (if bs ! i then (mulx ^^ i) (mulx v) else 0) XOR z) [0..<n] 0" for n
    unfolding map_Suc_upt [symmetric] foldr_map o_def nth_Cons_Suc funpow_Suc_right ..
  show ?case
    using Cons.IH [of "if b then z XOR v else z" "mulx v"] shift [of "length bs"]
    by (simp add: upt_conv_Cons xor.assoc del: upt_Suc)
qed simp

definition msb_bits :: "u8 \<Rightarrow> bool list" where "msb_bits b = map (bit b) [7, 6, 5, 4, 3, 2, 1, 0]"

lemma gmult_turn:
  assumes "length Z = 16" "length X = 16"
  shows "\<exists>Z' X'. gmult_bits y Z X =
      (if bit y 30 then Some (Z', X') else gmult_bits (push_bit 1 y) Z' X')
    \<and> length Z' = 16 \<and> length X' = 16 \<and> gblock Z' = (if bit y 7 then gblock Z XOR gblock X else gblock Z)
    \<and> gblock X' = mulx (gblock X)"
proof -
  have and_80: "y AND 0x80 \<noteq> 0 \<longleftrightarrow> bit y 7" using bit_iff_and_push_bit_not_eq_0 [of y 7] by simp
  have neg: "sint (push_bit 1 y) < 0 \<longleftrightarrow> bit y 30"
    using bit_last_iff [of "push_bit 1 y"] bit_push_bit_iff [of 1 y 31] by simp
  define Z' where "Z' = (if bit y 7 then map2 (XOR) Z X else Z)"
  obtain X' where X': "RIGHTSHIFTX X = Some X'" "length X' = 16" "gblock X' = mulx (gblock X)"
    using RIGHTSHIFTX_mulx [OF assms(2)] by blast
  have "gmult_bits y Z X = (if bit y 30 then Some (Z', X') else gmult_bits (push_bit 1 y) Z' X')"
    using assms X'(1) unfolding gmult_bits.simps [of y Z X] and_80 Z'_def Let_def neg
    by (simp add: xorbuf_aligned_xor)
  then show ?thesis
    using assms X'(2,3) by (intro exI [of _ Z'] exI [of _ X']) (simp add: Z'_def gblock_xor)
qed

lemma bit_marker: "n < 32 \<Longrightarrow> bit (0x800000 OR ucast b :: u32) n \<longleftrightarrow> n = 23 \<or> bit (b :: u8) n"
proof -
  have "(0x800000 :: u32) = push_bit 23 1" by simp
  moreover assume "n < 32"
  ultimately show ?thesis by (simp only: bit_or_iff bit_push_bit_iff bit_ucast_iff bit_1_iff) auto
qed

lemma marker_bits:
  assumes "k \<le> 7"
  shows "bit (push_bit k (0x800000 OR ucast b) :: u32) 30 \<longleftrightarrow> k = 7"
    "bit (push_bit k (0x800000 OR ucast (b :: u8)) :: u32) 7 \<longleftrightarrow> bit b (7 - k)"
  using assms unfolding bit_push_bit_iff by (auto simp: bit_marker)

lemma gmult_bits_mul:
  assumes "length Z = 16" "length X = 16" "k < 8"
  shows "\<exists>Z' X'. gmult_bits (push_bit k (0x800000 OR ucast b)) Z X = Some (Z', X') \<and> length Z' = 16 \<and> length X' = 16
    \<and> (gblock Z', gblock X') = mul_bits (map (\<lambda>j. bit (b :: u8) (7 - j)) [k..<8]) (gblock Z) (gblock X)"
  using assms
proof (induction "7 - k" arbitrary: k Z X)
  case 0
  have k: "k = 7" using 0 by simp
  show ?case using 0 gmult_turn [of Z X "push_bit 7 (0x800000 OR ucast b)"] marker_bits [of 7 b]
    unfolding k by (auto simp: upt_conv_Cons simp del: push_bit_or)
next
  case (Suc n)
  let ?y = "push_bit k (0x800000 OR ucast b) :: u32"
  have "\<not> bit ?y 30" "bit ?y 7 = bit b (7 - k)"
    using Suc.hyps(2) marker_bits [of k b] by auto
  then obtain Z' X' where turn: "gmult_bits ?y Z X = gmult_bits (push_bit 1 ?y) Z' X'" and len: "length Z' = 16" "length X' = 16"
    and val: "gblock Z' = (if bit b (7 - k) then gblock Z XOR gblock X else gblock Z)" "gblock X' = mulx (gblock X)"
    using gmult_turn [of Z X ?y] Suc.prems by auto
  have "push_bit 1 ?y = push_bit (Suc k) (0x800000 OR ucast b)" by (simp only: push_bit_push_bit) simp
  moreover have "k < 8" "Suc k < 8" using Suc.hyps(2) by simp_all
  ultimately show ?case
    using Suc.hyps(1) [of "Suc k" Z' X'] Suc.hyps(2) len turn val by (simp add: upt_conv_Cons)
qed

lemma gmult_bytes_mul:
  assumes "length Z = 16" "length X = 16"
  shows "\<exists>Z' X'. gmult_bytes Y Z X = Some (Z', X') \<and> length Z' = 16 \<and> length X' = 16
    \<and> (gblock Z', gblock X') = mul_bits (concat (map msb_bits Y)) (gblock Z) (gblock X)"
  using assms
proof (induction Y arbitrary: Z X)
  case (Cons b Y)
  have bits: "map (\<lambda>j. bit b (7 - j)) [0..<8] = msb_bits b" by (simp add: msb_bits_def upt_rec)
  obtain Z' X' where *: "gmult_bits (0x800000 OR ucast b) Z X = Some (Z', X')" "length Z' = 16" "length X' = 16"
    "(gblock Z', gblock X') = mul_bits (msb_bits b) (gblock Z) (gblock X)"
    using gmult_bits_mul [of Z X 0 b] Cons.prems unfolding bits by auto
  then show ?case using Cons.IH [of Z' X'] by (simp add: mul_bits_append *(4) [symmetric])
qed simp

lemma nth_msb_bits:
  assumes "i < 8 * length Y"
  shows "concat (map msb_bits Y) ! i = bit (Y ! (i div 8)) (7 - i mod 8)"
  using assms
proof (induction Y arbitrary: i)
  case (Cons b Y)
  have len: "length (msb_bits b) = 8" by (simp add: msb_bits_def)
  show ?case
  proof (cases "i < 8")
    case True
    then have "i \<in> {0, 1, 2, 3, 4, 5, 6, 7}" by auto
    then show ?thesis using len by (auto simp: nth_append msb_bits_def)
  next
    case False
    then have "i div 8 = Suc ((i - 8) div 8)" "i mod 8 = (i - 8) mod 8" by (simp_all add: le_div_geq le_mod_geq)
    then show ?thesis using Cons False by (simp add: nth_append len)
  qed
qed simp

lemma bit_gblock:
  assumes "length x = 16" "n < 128"
  shows "bit (gblock x) n \<longleftrightarrow> bit (x ! (15 - n div 8)) (n mod 8)"
proof -
  have "n div 8 < 16" using assms(2) by auto
  then show ?thesis using assms by (simp add: gblock_def bit_word_of_le rev_nth)
qed

lemma gblock_bits:
  assumes "length Y = 16"
  shows "concat (map msb_bits Y) = map (\<lambda>i. bit (gblock Y) (127 - i)) [0..<128]"
proof (rule nth_equalityI)
  have len: "length (concat (map msb_bits Y)) = 8 * length Y" for Y
    by (induction Y) (simp_all add: msb_bits_def)
  then show "length (concat (map msb_bits Y)) = length (map (\<lambda>i. bit (gblock Y) (127 - i)) [0..<128])"
    using assms by simp
  fix i assume "i < length (concat (map msb_bits Y))"
  then have i: "i < 128" using len [of Y] assms by simp
  have "127 - i = 8 * (15 - i div 8) + (7 - i mod 8)" using i mult_div_mod_eq [of 8 i] mod_less_divisor [of 8 i] by linarith
  moreover have lt: "7 - i mod 8 < 8" by simp
  ultimately have "(127 - i) div 8 = 15 - i div 8" "(127 - i) mod 8 = 7 - i mod 8"
    using div_mult_self4 [of 8 "15 - i div 8" "7 - i mod 8"] mod_mult_self4 [of 8 "15 - i div 8" "7 - i mod 8"]
    by (simp_all only: div_less mod_less lt add_0_right)
  moreover have "15 - (15 - i div 8) = i div 8" using i by simp
  ultimately show "concat (map msb_bits Y) ! i = map (\<lambda>i. bit (gblock Y) (127 - i)) [0..<128] ! i"
    using i assms by (simp add: nth_msb_bits bit_gblock)
qed

lemma GMULT_gmul:
  assumes "length X = 16" "length Y = 16"
  shows "\<exists>X'. GMULT X Y = Some X' \<and> length X' = 16 \<and> gblock X' = gmul (gblock Y) (gblock X)"
proof -
  obtain Z' X' where *: "gmult_bytes Y (replicate 16 0) X = Some (Z', X')" "length Z' = 16" "length X' = 16"
    "(gblock Z', gblock X') = mul_bits (concat (map msb_bits Y)) (gblock (replicate 16 0)) (gblock X)"
    using gmult_bytes_mul [of "replicate 16 0" X Y] assms(1) by auto
  have zero: "gblock (replicate 16 0) = 0" by (rule bit_word_eqI) (simp add: gblock_def bit_word_of_le)
  have "gblock Z' = fst (mul_bits (concat (map msb_bits Y)) 0 (gblock X))" using *(4) zero by (metis fst_conv)
  also have "\<dots> = gmul (gblock Y) (gblock X)"
    unfolding mul_bits_sum gblock_bits [OF assms(2)] gmul_def
    by simp (intro foldr_cong, auto)
  finally show ?thesis using * assms by (simp add: GMULT_def rd_n_def wr_n_def)
qed

text \<open>The byte-at-a-time shift the file keeps as the reference does the same.\<close>

lemma bit_odd_byte: "b AND 1 \<noteq> 0 \<longleftrightarrow> bit b 0" for b :: u8
  by (auto simp: and_one_eq odd_iff_mod_2_eq_one bit_0)

lemma generic_loop_nth:
  "i < length x \<Longrightarrow> RIGHTSHIFTX_generic_loop c x ! i = drop_bit 1 (x ! i) XOR (if i = 0 then c else push_bit 7 (x ! (i - 1)))"
  by (induction c x arbitrary: i rule: RIGHTSHIFTX_generic_loop.induct) (auto simp: nth_Cons split: nat.split)

lemma generic_loop_length: "length (RIGHTSHIFTX_generic_loop c x) = length x"
  by (induction c x rule: RIGHTSHIFTX_generic_loop.induct) simp_all

lemma gblock_inject:
  assumes "length x = 16" "length y = 16" "gblock x = gblock y"
  shows "x = y"
proof -
  have "le_bytes (length (rev z)) (gblock z) = rev z" if "length z = 16" for z
    using that le_bytes_word_of_le [of "rev z", where 'a = 128] by (simp add: gblock_def)
  from this [of x] this [of y] show ?thesis using assms by simp
qed

section \<open>GHASH\<close>

text \<open>Algorithm 2 of the standard: Horner's rule over the blocks.\<close>

definition ghash :: "u128 \<Rightarrow> u8 list list \<Rightarrow> u128" where
  "ghash H bs = foldl (\<lambda>y b. gmul H (y XOR gblock b)) 0 bs"

text \<open>The text in blocks, the last one filled with zeros; and the closing block of the two lengths in bits.\<close>

function padded_blocks :: "u8 list \<Rightarrow> u8 list list" where
  "padded_blocks c =
     (if c = [] then []
      else if length c < 16 then [c @ replicate (16 - length c) 0]
      else take 16 c # padded_blocks (drop 16 c))"
  by pat_completeness auto
termination by (relation "measure length") auto

declare padded_blocks.simps [simp del]

definition length_block :: "nat \<Rightarrow> nat \<Rightarrow> u8 list" where
  "length_block a c = be_bytes 8 (of_nat (8 * a) :: u64) @ be_bytes 8 (of_nat (8 * c) :: u64)"

lemma xorbuf_xor:
  assumes "length x = 16" "n \<le> 16" "n \<le> length c"
  shows "xorbuf x c n = Some (map2 (XOR) x (take n c @ replicate (16 - n) 0))"
proof -
  have "map2 (XOR) x (take n c @ replicate (16 - n) 0) = map2 (XOR) (take n x) (take n c) @ drop n x"
    using assms by (intro nth_equalityI) (auto simp: nth_append)
  then show ?thesis using assms by (simp add: xorbuf_def xorbuf3_def rd_n_def wr_n_def)
qed

lemma ghash_blocks_fold:
  assumes "length h = 16" "length x = 16" "16 * n \<le> length c"
  shows "\<exists>x'. ghash_blocks h n x c = Some (x', drop (16 * n) c) \<and> length x' = 16
    \<and> gblock x' = foldl (\<lambda>y b. gmul (gblock h) (y XOR gblock b)) (gblock x) (map (\<lambda>i. take 16 (drop (16 * i) c)) [0..<n])"
  using assms(2,3)
proof (induction n arbitrary: x c)
  case (Suc n)
  have len: "length (map2 (XOR) x (take 16 c)) = 16" using Suc.prems by simp
  obtain x' where x': "GMULT (map2 (XOR) x (take 16 c)) h = Some x'" "length x' = 16"
    "gblock x' = gmul (gblock h) (gblock x XOR gblock (take 16 c))"
    using GMULT_gmul [OF len assms(1)] Suc.prems by (auto simp: gblock_xor)
  have "map (\<lambda>i. take 16 (drop (16 * i) c)) [0..<Suc n]
      = take 16 c # map (\<lambda>i. take 16 (drop (16 * i) (drop 16 c))) [0..<n]"
    by (simp add: upt_conv_Cons map_Suc_upt [symmetric] o_def add.commute del: upt_Suc)
  then show ?case
    using Suc.IH [of x' "drop 16 c"] x' Suc.prems by (auto simp: xorbuf_aligned_xor add.commute simp del: upt_Suc)
qed simp

lemma padded_blocks_split:
  "padded_blocks c = map (\<lambda>i. take 16 (drop (16 * i) c)) [0..<length c div 16]
    @ (if length c mod 16 = 0 then []
       else [drop (16 * (length c div 16)) c @ replicate (16 - length c mod 16) 0])"
proof (induction c rule: padded_blocks.induct)
  case (1 c)
  consider "c = []" | "c \<noteq> []" "length c < 16" | "16 \<le> length c" by linarith
  then show ?case
  proof cases
    case 3
    define d where "d = drop 16 c"
    have d: "length c div 16 = Suc (length d div 16)" "length c mod 16 = length d mod 16"
      using 3 by (simp_all add: d_def le_div_geq le_mod_geq)
    have "map (\<lambda>i. take 16 (drop (16 * i) c)) [0..<Suc n] = take 16 c # map (\<lambda>i. take 16 (drop (16 * i) d)) [0..<n]" for n
      by (simp add: d_def upt_conv_Cons map_Suc_upt [symmetric] o_def add.commute del: upt_Suc)
    moreover have "padded_blocks c = take 16 c # padded_blocks d"
      using 3 by (subst padded_blocks.simps) (auto simp: d_def)
    moreover have "drop (16 * (length d div 16)) d = drop (16 * (length c div 16)) c" by (simp add: d) (simp add: d_def add.commute)
    moreover have "c \<noteq> []" "\<not> length c < 16" using 3 by auto
    ultimately show ?thesis using 1 [folded d_def] by (simp add: d del: upt_Suc)
  qed (subst padded_blocks.simps, auto)+
qed

text \<open>The closing block is added to the state by its two low words alone: the sizes fit 32 bits.\<close>

lemma xor_word32_xor:
  assumes "length x = 16" "i < 4"
  shows "xor_word32 x i v = Some (map2 (XOR) x (replicate (4 * i) 0 @ le_bytes 4 v @ replicate (12 - 4 * i) 0))"
proof -
  define w where "w = take 4 (drop (4 * i) x)"
  have w: "length w = 4" using assms by (simp add: w_def)
  have "le_bytes 4 (word_of_le w XOR v :: u32) = map2 (XOR) w (le_bytes 4 v)"
  proof -
    have "le_bytes 4 (word_of_le w :: u32) = w" using le_bytes_word_of_le [of w, where 'a = 32] w by simp
    moreover have "le_bytes 4 (word_of_le w XOR v :: u32) = map2 (XOR) (le_bytes 4 (word_of_le w :: u32)) (le_bytes 4 v)"
      by (rule nth_equalityI) (simp_all add: le_bytes_def drop_bit_xor unsigned_xor_eq)
    ultimately show ?thesis by simp
  qed
  moreover have "map2 (XOR) x (replicate (4 * i) 0 @ le_bytes 4 v @ replicate (12 - 4 * i) 0)
      = take (4 * i) x @ map2 (XOR) w (le_bytes 4 v) @ drop (4 * i + 4) x"
    using assms by (intro nth_equalityI) (auto simp: nth_append w_def)
  ultimately show ?thesis using assms by (simp add: xor_word32_def rd_n_def wr_n_def w_def [symmetric])
qed

lemma be_bytes_8_small:
  assumes "n < 2 ^ 32"
  shows "be_bytes 8 (of_nat n :: u64) = replicate 4 0 @ le_bytes 4 (swap32 (of_nat n))"
proof -
  have high: "\<not> bit n k" if "32 \<le> k" for k
    using assms that power_increasing [of 32 k "2 :: nat"] by (simp add: bit_iff_odd div_less)
  have "le_bytes 8 (of_nat n :: u64) = le_bytes 4 (of_nat n :: u32) @ replicate 4 0"
  proof (rule nth_equalityI)
    fix i assume "i < length (le_bytes 8 (of_nat n :: u64))"
    then have i: "i < 8" by simp
    show "le_bytes 8 (of_nat n :: u64) ! i = (le_bytes 4 (of_nat n :: u32) @ replicate 4 0) ! i"
    proof (rule bit_word_eqI)
      fix k assume "k < LENGTH(8)"
      then show "bit (le_bytes 8 (of_nat n :: u64) ! i) k = bit ((le_bytes 4 (of_nat n :: u32) @ replicate 4 0) ! i) k"
        using i high [of "8 * i + k"]
        by (auto simp: le_bytes_def nth_append bit_ucast_iff bit_drop_bit_eq bit_of_nat_iff)
    qed
  qed simp
  then show ?thesis unfolding le_bytes_swap(1) by (simp add: be_bytes_def)
qed

lemma xor_length_words:
  assumes "length x = 16" "8 * cSz < 2 ^ 32"
  shows "do { x \<leftarrow> xor_word32 x 1 (swap32 (of_nat (aSz * 8))); xor_word32 x 3 (swap32 (of_nat cSz * 8)) }
    = Some (map2 (XOR) x (length_block aSz cSz))"
proof -
  let ?v1 = "le_bytes 4 (swap32 (of_nat (aSz * 8)))" and ?v3 = "le_bytes 4 (swap32 (of_nat cSz * 8))"
  have b: "length_block aSz cSz = (replicate 4 0 @ ?v1) @ (replicate 4 0 @ ?v3)"
    unfolding length_block_def using assms(2)
    by (subst (1 2) be_bytes_8_small) (simp_all add: aSz_def mult.commute)
  have "map2 (XOR) (map2 (XOR) x (replicate 4 0 @ ?v1 @ replicate 8 0)) (replicate 12 0 @ ?v3)
      = map2 (XOR) x (length_block aSz cSz)"
    unfolding b using assms(1) by (intro nth_equalityI) (auto simp: nth_append)
  then show ?thesis
    using xor_word32_xor [of x 1 "swap32 (of_nat (aSz * 8))"] assms(1)
      xor_word32_xor [of "map2 (XOR) x (replicate 4 0 @ ?v1 @ replicate 8 0)" 3 "swap32 (of_nat cSz * 8)"]
    by simp
qed

lemma GMULT_xor:
  assumes "length x = 16" "length b = 16" "length h = 16"
  shows "\<exists>x'. GMULT (map2 (XOR) x b) h = Some x' \<and> length x' = 16 \<and> gblock x' = gmul (gblock h) (gblock x XOR gblock b)"
  using GMULT_gmul [of "map2 (XOR) x b" h] assms by (simp add: gblock_xor)

text \<open>The ciphertext part: whole blocks, then what is left, as if zeros followed it.\<close>

lemma ghash_ciphertext:
  assumes "length h = 16" "length x = 16" "cSz \<le> length c"
  shows "\<exists>x'. (if cSz \<noteq> 0 then do {
          let blocks = cSz div 16;
          let partial = cSz mod 16;
          (x, c) \<leftarrow> ghash_blocks h blocks x c;
          (if partial \<noteq> 0 then do { x \<leftarrow> xorbuf x c partial; GMULT x h } else Some x)
        }
        else Some x) = Some x' \<and> length x' = 16
    \<and> gblock x' = foldl (\<lambda>y b. gmul (gblock h) (y XOR gblock b)) (gblock x) (padded_blocks (take cSz c))"
proof -
  let ?f = "\<lambda>y b. gmul (gblock h) (y XOR gblock b)"
  have le: "16 * (cSz div 16) + cSz mod 16 = cSz" by simp
  obtain x1 where x1: "ghash_blocks h (cSz div 16) x c = Some (x1, drop (16 * (cSz div 16)) c)" "length x1 = 16"
    "gblock x1 = foldl ?f (gblock x) (map (\<lambda>i. take 16 (drop (16 * i) c)) [0..<cSz div 16])"
    using ghash_blocks_fold [of h x "cSz div 16" c] assms order_trans [of "16 * (cSz div 16)" cSz "length c"] by auto
  have whole: "map (\<lambda>i. take 16 (drop (16 * i) c)) [0..<cSz div 16]
      = map (\<lambda>i. take 16 (drop (16 * i) (take cSz c))) [0..<cSz div 16]"
  proof (rule map_cong [OF refl])
    fix i assume "i \<in> set [0..<cSz div 16]"
    then have "16 * i + 16 \<le> cSz" using le by simp
    then show "take 16 (drop (16 * i) c) = take 16 (drop (16 * i) (take cSz c))" by (simp add: drop_take min_def)
  qed
  have len: "length (take cSz c) = cSz" using assms(3) by simp
  show ?thesis
  proof (cases "cSz mod 16 = 0")
    case True
    then show ?thesis using x1 assms(2) unfolding padded_blocks_split len whole by (cases "cSz = 0") simp_all
  next
    case False
    define p where "p = cSz mod 16"
    define b where "b = drop (16 * (cSz div 16)) (take cSz c) @ replicate (16 - p) 0"
    have "cSz mod 16 \<le> length c - 16 * (cSz div 16)" using le assms(3) by linarith
    then have p: "0 < p" "p < 16" "p \<le> length (drop (16 * (cSz div 16)) c)" using False by (simp_all add: p_def)
    have "take p (drop (16 * (cSz div 16)) c) = drop (16 * (cSz div 16)) (take cSz c)"
      using le by (simp add: drop_take p_def minus_mult_div_eq_mod)
    then have xb: "xorbuf x1 (drop (16 * (cSz div 16)) c) p = Some (map2 (XOR) x1 b)"
      using xorbuf_xor [of x1 p "drop (16 * (cSz div 16)) c"] x1(2) p by (simp add: b_def)
    have "length b = 16" using p assms(3) le by (simp add: b_def p_def minus_mult_div_eq_mod)
    then obtain x' where x': "GMULT (map2 (XOR) x1 b) h = Some x'" "length x' = 16"
      "gblock x' = ?f (gblock x1) b" using GMULT_xor [of x1 b h] x1(2) assms(1) by auto
    have "padded_blocks (take cSz c) = map (\<lambda>i. take 16 (drop (16 * i) c)) [0..<cSz div 16] @ [b]"
      unfolding padded_blocks_split len whole b_def using False by (simp add: p_def)
    moreover have "cSz \<noteq> 0" using False by auto
    ultimately show ?thesis using x1 xb x' p(1) by (simp add: p_def [symmetric])
  qed
qed

lemma aesgcm_GHASH_ghash:
  assumes "length h = 16" "length a = 16" "cSz \<le> length c" "8 * cSz < 2 ^ 32"
  shows "\<exists>s. aesgcm_GHASH h a c cSz = Some s \<and> length s = 16
    \<and> gblock s = ghash (gblock h) (a # padded_blocks (take cSz c) @ [length_block aSz cSz])"
proof -
  let ?f = "\<lambda>y b. gmul (gblock h) (y XOR gblock b)"
  obtain x0 where x0: "GMULT a h = Some x0" "length x0 = 16" "gblock x0 = ?f 0 a"
    using GMULT_gmul [of a h] assms by auto
  note step = ghash_ciphertext [OF assms(1) x0(2) assms(3)]
  then obtain x1 where x1: "length x1 = 16" "gblock x1 = foldl ?f (gblock x0) (padded_blocks (take cSz c))"
    and run: "(if cSz \<noteq> 0 then do {
          let blocks = cSz div 16;
          let partial = cSz mod 16;
          (x, c) \<leftarrow> ghash_blocks h blocks x0 c;
          (if partial \<noteq> 0 then do { x \<leftarrow> xorbuf x c partial; GMULT x h } else Some x)
        }
        else Some x0) = Some x1" by blast
  have "length (length_block aSz cSz) = 16" by (simp add: length_block_def be_bytes_def)
  then obtain s where s: "GMULT (map2 (XOR) x1 (length_block aSz cSz)) h = Some s" "length s = 16"
    "gblock s = ?f (gblock x1) (length_block aSz cSz)" using GMULT_xor [of x1 _ h] x1(1) assms(1) by blast
  have "aesgcm_GHASH h a c cSz = do { x \<leftarrow> do { x \<leftarrow> xor_word32 x1 1 (swap32 (of_nat (aSz * 8)));
      xor_word32 x 3 (swap32 (of_nat cSz * 8)) }; GMULT x h }"
    unfolding aesgcm_GHASH_def using assms(2) by (simp only: rd_n_def add_0 drop_0 take_all order_refl if_True
      bind.bind_lunit x0(1) run bind_assoc)
  then show ?thesis
    unfolding xor_length_words [OF x1(1) assms(4)] using s x0(3) x1(2) by (simp add: ghash_def)
qed

section \<open>Properties\<close>

lemma RIGHTSHIFTX_generic_mulx:
  assumes "length x = 16"
  shows "gblock (RIGHTSHIFTX_generic x) = mulx (gblock x)"
proof (rule bit_word_eqI)
  fix n assume "n < LENGTH(128)"
  then have n: "n < 128" by simp
  define q r where "q = n div 8" and "r = n mod 8"
  have qr: "n = 8 * q + r" "r < 8" "q < 16" using n by (simp_all add: q_def r_def)
  let ?c = "if x ! 15 AND 0x01 \<noteq> 0 then 0xE1 else 0 :: u8"
  have top: "bit (if bit (gblock x) 0 then push_bit 120 0xE1 else 0 :: u128) n \<longleftrightarrow> q = 15 \<and> bit ?c r"
  proof -
    have "(0xE1 :: u128) = ucast (0xE1 :: u8)" by simp
    then have "bit (push_bit 120 0xE1 :: u128) n \<longleftrightarrow> 120 \<le> n \<and> bit (0xE1 :: u8) (n - 120)"
      using n by (simp only: bit_push_bit_iff bit_ucast_iff) auto
    moreover have "120 \<le> n \<longleftrightarrow> q = 15" "q = 15 \<Longrightarrow> n - 120 = r" using qr by auto
    moreover have "bit (gblock x) 0 \<longleftrightarrow> x ! 15 AND 0x01 \<noteq> 0"
      using bit_gblock [OF assms, of 0] bit_odd_byte [of "x ! 15"] by simp
    ultimately show ?thesis by auto
  qed
  have shifted: "bit (gblock x) (Suc n) \<longleftrightarrow> (if r < 7 then bit (x ! (15 - q)) (Suc r) else q < 15 \<and> bit (x ! (14 - q)) 0)"
  proof (cases "Suc n < 128")
    case True
    then show ?thesis
    proof (cases "r < 7")
      case True
      then have "Suc n div 8 = q" "Suc n mod 8 = Suc r" using qr by auto
      then show ?thesis using True bit_gblock [OF assms \<open>Suc n < 128\<close>] by simp
    next
      case False
      then have "Suc n = 8 * Suc q" using qr by auto
      then have "Suc n div 8 = Suc q" "Suc n mod 8 = 0" "q < 15" using True by (simp_all only: nonzero_mult_div_cancel_left mod_mult_self1_is_0) auto
      then show ?thesis using False bit_gblock [OF assms \<open>Suc n < 128\<close>] by simp
    qed
  next
    case False
    then have "q = 15" "r = 7" using qr by auto
    then show ?thesis using bit_imp_le_length [of "gblock x" "Suc n"] False by auto
  qed
  have "bit (gblock (RIGHTSHIFTX_generic x)) n \<longleftrightarrow> bit (RIGHTSHIFTX_generic x ! (15 - q)) r"
    using bit_gblock [of "RIGHTSHIFTX_generic x" n] n assms
    by (simp add: RIGHTSHIFTX_generic_def generic_loop_length q_def r_def)
  also have "\<dots> \<longleftrightarrow> bit (drop_bit 1 (x ! (15 - q)) XOR (if q = 15 then ?c else push_bit 7 (x ! (14 - q)))) r"
  proof -
    have "15 - q - 1 = 14 - q" "(15 - q = 0) = (q = 15)" using qr by auto
    then show ?thesis unfolding RIGHTSHIFTX_generic_def using assms qr by (simp add: generic_loop_nth)
  qed
  also have "\<dots> \<longleftrightarrow> bit (mulx (gblock x)) n"
    unfolding mulx_def bit_xor_iff [of _ _ n] top bit_drop_bit_eq comp_def plus_1_eq_Suc shifted
    using qr by (auto simp: bit_xor_iff bit_drop_bit_eq bit_push_bit_iff)
  finally show "bit (gblock (RIGHTSHIFTX_generic x)) n = bit (mulx (gblock x)) n" .
qed

text \<open>
  The word-sized right shift the little-endian target compiles is, on every block, the
  byte-at-a-time algorithm the file keeps, disabled, as the generic one.
\<close>

theorem RIGHTSHIFTX_is_generic:
  assumes "length x = 16"
  shows "RIGHTSHIFTX x = Some (RIGHTSHIFTX_generic x)"
proof -
  obtain x' where "RIGHTSHIFTX x = Some x'" "length x' = 16" "gblock x' = mulx (gblock x)"
    using RIGHTSHIFTX_mulx [OF assms] by blast
  moreover have "length (RIGHTSHIFTX_generic x) = 16" by (simp add: RIGHTSHIFTX_generic_def generic_loop_length assms)
  ultimately show ?thesis using RIGHTSHIFTX_generic_mulx [OF assms] gblock_inject by auto
qed

theorem RIGHTSHIFTX_is_generic_witness:
  "RIGHTSHIFTX (map of_nat [1..<17]) = Some (RIGHTSHIFTX_generic (map of_nat [1..<17]))"
  by (rule RIGHTSHIFTX_is_generic) simp

text \<open>
  \<^verbatim>\<open>aesgcm_GHASH\<close> returns, for every hash key, every associated data of 13 bytes in its
  sixteen-byte buffer and every ciphertext below 2^29 bytes, GHASH of NIST SP 800-38D over the
  associated data, the ciphertext filled up with zeros and the two lengths in bits. The
  bit loops end, and nothing is read beyond the ciphertext, although its last block is hashed in
  place.
\<close>

theorem aesgcm_GHASH_is_sp800_38d:
  assumes "length h = 16" "length a = 16" "cSz \<le> length c" "8 * cSz < 2 ^ 32"
  shows "map_option gblock (aesgcm_GHASH h a c cSz) =
    Some (ghash (gblock h) (a # padded_blocks (take cSz c) @ [length_block 13 cSz]))"
  using aesgcm_GHASH_ghash [OF assms] by (auto simp: aSz_def)

theorem aesgcm_GHASH_is_sp800_38d_witness:
  "map_option gblock (aesgcm_GHASH (replicate 16 3) (replicate 13 1 @ [0, 0, 0]) (replicate 21 9) 20) =
    Some (ghash (gblock (replicate 16 3)) ((replicate 13 1 @ [0, 0, 0]) # padded_blocks (replicate 20 9) @ [length_block 13 20]))"
  using aesgcm_GHASH_is_sp800_38d [of "replicate 16 3" "replicate 13 1 @ [0, 0, 0]" 20 "replicate 21 9"] by simp

end
