(* ===== verification/TlsHmac.thy ===== *)
theory TlsHmac
  imports HashProofs
begin

text \<open>
  \<^verbatim>\<open>networking/tls.c\<close>: HMAC (RFC 2104) with precomputed states, and the pseudorandom function of
  TLS 1.2 (RFC 5246). A pointer with its size is the list of its bytes, a \<^verbatim>\<open>va_list\<close> of such pairs
  the list of those lists. With \<^verbatim>\<open>FEATURE_TLS_SHA1\<close> off, as configured, every HMAC is over SHA-256;
  the function pointer \<^verbatim>\<open>begin\<close> stays an argument, as in the source.
\<close>

section \<open>The operations\<close>

definition SHA_INSIZE :: nat where "SHA_INSIZE = 64"
definition SHA256_OUTSIZE :: nat where "SHA256_OUTSIZE = 32"

record hmac_precomputed =
  hashed_key_xor_ipad :: md5_ctx
  hashed_key_xor_opad :: md5_ctx

text \<open>\<open>None\<close>: the process ends with \<^verbatim>\<open>HMAC key>64\<close>. \<open>pre\<close> is what the memory held before.\<close>

definition hmac_begin :: "hmac_precomputed \<Rightarrow> u8 list \<Rightarrow> (md5_ctx \<Rightarrow> md5_ctx) \<Rightarrow> hmac_precomputed option" where
  "hmac_begin pre key begin_func =
     (if length key > SHA_INSIZE then None
      else
        let key_xor_ipad = map (\<lambda>k. k XOR 0x36) key @ replicate (SHA_INSIZE - length key) 0x36;
            key_xor_opad = map (\<lambda>k. k XOR 0x5c) key @ replicate (SHA_INSIZE - length key) 0x5c;
            pre = pre\<lparr>hashed_key_xor_ipad := begin_func (hashed_key_xor_ipad pre)\<rparr>;
            pre = pre\<lparr>hashed_key_xor_opad := begin_func (hashed_key_xor_opad pre)\<rparr>;
            pre = pre\<lparr>hashed_key_xor_ipad := md5_hash (hashed_key_xor_ipad pre) key_xor_ipad\<rparr>
        in Some (pre\<lparr>hashed_key_xor_opad := md5_hash (hashed_key_xor_opad pre) key_xor_opad\<rparr>))"

definition hmac_sha_precomputed_v :: "hmac_precomputed \<Rightarrow> u8 list list \<Rightarrow> u8 list" where
  "hmac_sha_precomputed_v pre va =
     (let ipad = foldl md5_hash (hashed_key_xor_ipad pre) va;
          out = sha1_end ipad
      in sha1_end (md5_hash (hashed_key_xor_opad pre) out))"

text \<open>The structure is copied, so the caller's precomputed states stay as they are.\<close>

definition hmac_sha_precomputed :: "hmac_precomputed \<Rightarrow> u8 list list \<Rightarrow> u8 list" where
  "hmac_sha_precomputed pre_init va = (let pre = pre_init in hmac_sha_precomputed_v pre va)"

definition hmac :: "hmac_precomputed \<Rightarrow> u8 list \<Rightarrow> u8 list list \<Rightarrow> u8 list option" where
  "hmac pre key va = do {
     pre \<leftarrow> hmac_begin pre key sha256_begin;
     Some (hmac_sha_precomputed_v pre va)
   }"

text \<open>The loop of \<^verbatim>\<open>prf_hmac_sha256\<close>: the bytes it stores from \<^verbatim>\<open>out_p\<close> on.\<close>

function prf_loop :: "hmac_precomputed \<Rightarrow> u8 list list \<Rightarrow> u8 list \<Rightarrow> nat \<Rightarrow> u8 list" where
  "prf_loop pre SEED a outbuf_size =
     (if outbuf_size \<le> SHA256_OUTSIZE then
        let a = hmac_sha_precomputed pre (a # SEED) in take outbuf_size a
      else
        let out = hmac_sha_precomputed pre (a # SEED);
            outbuf_size = outbuf_size - SHA256_OUTSIZE;
            a = hmac_sha_precomputed pre [a]
        in out @ prf_loop pre SEED a outbuf_size)"
  by pat_completeness auto
termination by (relation "measure (\<lambda>(pre, SEED, a, n). n)") (auto simp: SHA256_OUTSIZE_def)

declare prf_loop.simps [simp del]

definition prf_hmac_sha256 :: "hmac_precomputed \<Rightarrow> nat \<Rightarrow> u8 list \<Rightarrow> u8 list \<Rightarrow> u8 list \<Rightarrow> u8 list option" where
  "prf_hmac_sha256 pre outbuf_size secret label seed = do {
     pre \<leftarrow> hmac_begin pre secret sha256_begin;
     let a = hmac_sha_precomputed pre [label, seed];
     Some (prf_loop pre [label, seed] a outbuf_size)
   }"

section \<open>Keyed hashes over any digest\<close>

text \<open>RFC 2104 for a hash \<open>H\<close> whose block is 64 bytes.\<close>

definition rfc2104 :: "(u8 list \<Rightarrow> u8 list) \<Rightarrow> u8 list \<Rightarrow> u8 list \<Rightarrow> u8 list" where
  "rfc2104 H key data =
     (let k = key @ replicate (64 - length key) 0
      in H (map (\<lambda>b. b XOR 0x5c) k @ H (map (\<lambda>b. b XOR 0x36) k @ data)))"

text \<open>A precomputed state stands for a key.\<close>

definition keyed :: "(md5_ctx \<Rightarrow> md5_ctx) \<Rightarrow> hmac_precomputed \<Rightarrow> u8 list \<Rightarrow> bool" where
  "keyed begin_func pre key \<longleftrightarrow> (\<exists>i o'. length (wbuffer i) = 64 \<and> length (wbuffer o') = 64
     \<and> hashed_key_xor_ipad pre = md5_hash (begin_func i) (map (\<lambda>b. b XOR 0x36) (key @ replicate (64 - length key) 0))
     \<and> hashed_key_xor_opad pre = md5_hash (begin_func o') (map (\<lambda>b. b XOR 0x5c) (key @ replicate (64 - length key) 0)))"

text \<open>Uninitialised memory that is big enough for the contexts.\<close>

definition hmac_memory :: "hmac_precomputed \<Rightarrow> bool" where
  "hmac_memory pre \<longleftrightarrow> length (wbuffer (hashed_key_xor_ipad pre)) = 64 \<and> length (wbuffer (hashed_key_xor_opad pre)) = 64"

lemma hmac_begin_keyed:
  assumes "length key \<le> 64" "hmac_memory pre"
  shows "\<exists>pre'. hmac_begin pre key begin_func = Some pre' \<and> keyed begin_func pre' key"
  using assms by (auto simp: hmac_begin_def keyed_def SHA_INSIZE_def Let_def hmac_memory_def)

text \<open>
  What HMAC needs of a digest: a context begun by \<open>begin_func\<close>, fed with \<^verbatim>\<open>md5_hash\<close> and ended with
  \<^verbatim>\<open>sha1_end\<close>, gives the hash of everything it was fed.
\<close>

locale digest =
  fixes begin_func :: "md5_ctx \<Rightarrow> md5_ctx" and H :: "u8 list \<Rightarrow> u8 list" and outsize :: nat
  assumes digest_of_chunks:
      "length (wbuffer ctx) = 64 \<Longrightarrow> sha1_end (foldl md5_hash (begin_func ctx) chunks) = H (concat chunks)"
    and digest_length: "length (H data) = outsize"
begin

lemma hmac_of_chunks:
  assumes "keyed begin_func pre key"
  shows "hmac_sha_precomputed_v pre va = rfc2104 H key (concat va)"
proof -
  obtain i o' where *: "length (wbuffer i) = 64" "length (wbuffer o') = 64"
    "hashed_key_xor_ipad pre = md5_hash (begin_func i) (map (\<lambda>b. b XOR 0x36) (key @ replicate (64 - length key) 0))"
    "hashed_key_xor_opad pre = md5_hash (begin_func o') (map (\<lambda>b. b XOR 0x5c) (key @ replicate (64 - length key) 0))"
    using assms unfolding keyed_def by blast
  let ?i = "map (\<lambda>b. b XOR 0x36) (key @ replicate (64 - length key) 0)"
  have inner: "sha1_end (foldl md5_hash (hashed_key_xor_ipad pre) va) = H (?i @ concat va)"
    using digest_of_chunks [OF *(1), of "?i # va"] by (simp add: *(3))
  show ?thesis
    unfolding hmac_sha_precomputed_v_def Let_def inner rfc2104_def
    using digest_of_chunks [OF *(2), of "[map (\<lambda>b. b XOR 0x5c) (key @ replicate (64 - length key) 0), H (?i @ concat va)]"]
    by (simp add: *(4))
qed

lemma rfc2104_length: "length (rfc2104 H key data) = outsize"
  by (simp add: rfc2104_def Let_def digest_length)

end

interpretation sha256: digest sha256_begin sha256_message 32
  by unfold_locales (simp_all add: sha256_digest sha_message_lengths)

interpretation sha1: digest sha1_begin sha1_message 20
  by unfold_locales (simp_all add: sha1_digest sha_message_lengths)

section \<open>The pseudorandom function\<close>

definition hmac_sha256 :: "u8 list \<Rightarrow> u8 list \<Rightarrow> u8 list" where "hmac_sha256 = rfc2104 sha256_message"

text \<open>RFC 5246: the chain \<open>A(i)\<close>, the blocks \<open>P_hash\<close> concatenates, and as many of them as \<open>n\<close> bytes take.\<close>

fun prf_A :: "u8 list \<Rightarrow> u8 list \<Rightarrow> nat \<Rightarrow> u8 list" where
  "prf_A secret seed 0 = seed"
| "prf_A secret seed (Suc i) = hmac_sha256 secret (prf_A secret seed i)"

definition P_sha256 :: "u8 list \<Rightarrow> u8 list \<Rightarrow> nat \<Rightarrow> u8 list" where
  "P_sha256 secret seed m = concat (map (\<lambda>i. hmac_sha256 secret (prf_A secret seed i @ seed)) [1..<Suc m])"

definition rfc5246_prf :: "nat \<Rightarrow> u8 list \<Rightarrow> u8 list \<Rightarrow> u8 list \<Rightarrow> u8 list" where
  "rfc5246_prf n secret label seed = take n (P_sha256 secret (label @ seed) (n div 32 + 1))"

lemma hmac_sha256_length [simp]: "length (hmac_sha256 secret data) = 32"
  by (simp add: hmac_sha256_def sha256.rfc2104_length)

lemma prf_loop_blocks:
  assumes "keyed sha256_begin pre secret" "concat SEED = seed" "i \<le> m" "n \<le> 32 * (Suc m - i)"
  shows "prf_loop pre SEED (prf_A secret seed i) n =
    take n (concat (map (\<lambda>i. hmac_sha256 secret (prf_A secret seed i @ seed)) [i..<Suc m]))"
  using assms(3,4)
proof (induction "Suc m - i" arbitrary: i n)
  case (Suc k)
  let ?f = "\<lambda>i. hmac_sha256 secret (prf_A secret seed i @ seed)"
  have out: "hmac_sha_precomputed pre (prf_A secret seed i # SEED) = ?f i"
    "hmac_sha_precomputed pre [prf_A secret seed i] = prf_A secret seed (Suc i)"
    using sha256.hmac_of_chunks [OF assms(1)] assms(2) by (simp_all add: hmac_sha_precomputed_def hmac_sha256_def)
  have list: "[i..<Suc m] = i # [Suc i..<Suc m]" using Suc.prems(1) by (simp add: upt_conv_Cons del: upt_Suc)
  show ?case
  proof (cases "n \<le> 32")
    case True
    then show ?thesis unfolding list by (subst prf_loop.simps) (simp add: SHA256_OUTSIZE_def out Let_def)
  next
    case False
    then have "Suc i \<le> m" "n - 32 \<le> 32 * (Suc m - Suc i)" using Suc.prems Suc.hyps(2) by linarith+
    then have "prf_loop pre SEED (prf_A secret seed (Suc i)) (n - 32) = take (n - 32) (concat (map ?f [Suc i..<Suc m]))"
      using Suc.hyps by (intro Suc.hyps(1)) simp_all
    then show ?thesis unfolding list using False
      by (subst prf_loop.simps) (simp add: SHA256_OUTSIZE_def out Let_def del: upt_Suc prf_A.simps)
  qed
qed simp

lemma prf_hmac_sha256_prf:
  assumes "length secret \<le> 64" "hmac_memory pre"
  shows "prf_hmac_sha256 pre n secret label seed = Some (rfc5246_prf n secret label seed)"
proof -
  obtain pre' where pre': "hmac_begin pre secret sha256_begin = Some pre'" "keyed sha256_begin pre' secret"
    using hmac_begin_keyed [OF assms] by blast
  have "hmac_sha_precomputed pre' [label, seed] = prf_A secret (label @ seed) 1"
    using sha256.hmac_of_chunks [OF pre'(2)] by (simp add: hmac_sha_precomputed_def hmac_sha256_def)
  moreover have "n \<le> 32 * (Suc (n div 32 + 1) - 1)" by simp
  ultimately show ?thesis
    using prf_loop_blocks [OF pre'(2), of "[label, seed]" "label @ seed" 1 "n div 32 + 1" n] pre'(1)
    by (simp add: prf_hmac_sha256_def rfc5246_prf_def P_sha256_def del: prf_A.simps upt_Suc)
qed

lemma hmac_hmac_sha256:
  assumes "length key \<le> 64" "hmac_memory pre"
  shows "hmac pre key va = Some (hmac_sha256 key (concat va))"
  using hmac_begin_keyed [OF assms, of sha256_begin] sha256.hmac_of_chunks by (auto simp: hmac_def hmac_sha256_def)

section \<open>Properties\<close>

text \<open>
  \<^verbatim>\<open>hmac\<close> is HMAC-SHA-256 of RFC 2104 over the concatenation of the texts it is given,
  however they are cut, for every key up to the block size; a longer key ends the process
  instead of being hashed.
\<close>

theorem hmac_is_rfc2104:
  assumes "hmac_memory pre"
  shows "hmac pre key va = (if length key \<le> 64 then Some (rfc2104 sha256_message key (concat va)) else None)"
  using hmac_hmac_sha256 [OF _ assms, of key va] by (auto simp: hmac_sha256_def hmac_def hmac_begin_def SHA_INSIZE_def)

text \<open>Memory before a call, in which nothing matters but its size.\<close>

definition blank_ctx :: md5_ctx where
  "blank_ctx = \<lparr>wbuffer = replicate 64 0, process_block = Md5_process_block64, total64 = 0, hash_words = []\<rparr>"

definition blank_hmac :: hmac_precomputed where
  "blank_hmac = \<lparr>hashed_key_xor_ipad = blank_ctx, hashed_key_xor_opad = blank_ctx\<rparr>"

lemma blank_hmac_memory [simp]: "hmac_memory blank_hmac"
  by (simp add: hmac_memory_def blank_hmac_def blank_ctx_def)

theorem hmac_is_rfc2104_witness:
  "hmac blank_hmac (replicate 32 7) [[1, 2], [3]] = Some (rfc2104 sha256_message (replicate 32 7) [1, 2, 3])"
  using hmac_is_rfc2104 [of blank_hmac "replicate 32 7" "[[1, 2], [3]]"] by simp

text \<open>
  C18: \<^verbatim>\<open>prf_hmac_sha256\<close> fills its buffer, of any size, with the first bytes of
  \<open>P_SHA256(secret, label + seed)\<close> of RFC 5246: block \<open>i\<close> is the HMAC of \<open>A(i)\<close> and the seed, the
  last one cut; the loop ends.
\<close>

theorem prf_is_rfc5246:
  assumes "length secret \<le> 64" "hmac_memory pre"
  shows "prf_hmac_sha256 pre n secret label seed = Some (take n (P_sha256 secret (label @ seed) (n div 32 + 1)))"
  using prf_hmac_sha256_prf [OF assms] by (simp add: rfc5246_prf_def)

theorem prf_is_rfc5246_witness:
  "prf_hmac_sha256 blank_hmac 136 (replicate 48 1) [107, 101, 121] (replicate 64 2)
    = Some (take 136 (P_sha256 (replicate 48 1) ([107, 101, 121] @ replicate 64 2) 5))"
  using prf_is_rfc5246 [of "replicate 48 1" blank_hmac 136 "[107, 101, 121]" "replicate 64 2"] by simp

end
