(* ===== verification/TlsRecord.thy ===== *)
theory TlsRecord
  imports TlsAesProofs TlsGcm TlsHmac
begin

text \<open>
  \<^verbatim>\<open>networking/tls.c\<close>: the record layer of the TLS client. The state is \<^verbatim>\<open>tls_state_t\<close> of
  \<^verbatim>\<open>include/libbb.h\<close> with what the functions do to the world outside: the bytes written to
  \<^verbatim>\<open>ofd\<close>, what reads of \<^verbatim>\<open>ifd\<close> will find, the bytes \<^verbatim>\<open>/dev/urandom\<close> will give. The buffers
  are lists of their allocated sz; pointers into them are offsets. \<open>None\<close> is an access outside an
  object, \<open>Died\<close> the end of the process with an error message.
\<close>

section \<open>The state\<close>

datatype 'a ended = Died string | Going 'a

text \<open>Of an RSA key, what a public one has; its numbers are values.\<close>

record psRsaKey =
  key_e :: nat
  key_N :: nat
  rsa_size :: nat

record handshake_data =
  handshake_hash_ctx :: md5_ctx
  client_and_server_rand32 :: "u8 list"
  master_secret :: "u8 list"
  server_rsa_pub_key :: psRsaKey
  ecc_pub_key32 :: "u8 list"

text \<open>
  \<open>key_area\<close> is the memory from \<^verbatim>\<open>client_write_MAC_key\<close> to \<^verbatim>\<open>server_write_I_\<close>, six arrays that
  follow one another: the key block is written over all of them and the pointers point into it.
\<close>

record tls_state =
  flags :: u32
  min_encrypted_len_on_read :: nat
  cipher_id :: u16
  MAC_size :: nat
  key_size :: nat
  IV_size :: nat
  outbuf :: "u8 list"
  ofs_to_buffered :: nat
  buffered_size :: nat
  inbuf :: "u8 list"
  hsd :: "handshake_data option"
  write_seq64_be :: u64
  client_write_key :: nat
  server_write_key :: nat
  client_write_IV :: nat
  server_write_IV :: nat
  key_area :: "u8 list"
  aes_encrypt :: tls_aes
  aes_decrypt :: tls_aes
  aes_H :: "u8 list"
  sent :: "u8 list list"
  incoming :: "u8 list option list"
  urandom :: "u8 list"
  junk :: u8

definition TLS_MAJ :: u8 where "TLS_MAJ = 3"
definition TLS_MIN :: u8 where "TLS_MIN = 3"
definition RECORD_TYPE_CHANGE_CIPHER_SPEC :: u8 where "RECORD_TYPE_CHANGE_CIPHER_SPEC = 20"
definition RECORD_TYPE_ALERT :: u8 where "RECORD_TYPE_ALERT = 21"
definition RECORD_TYPE_HANDSHAKE :: u8 where "RECORD_TYPE_HANDSHAKE = 22"
definition RECORD_TYPE_APPLICATION_DATA :: u8 where "RECORD_TYPE_APPLICATION_DATA = 23"
definition TLS_MAX_OUTBUF :: nat where "TLS_MAX_OUTBUF = 16384"
definition AES_BLOCK_SIZE :: nat where "AES_BLOCK_SIZE = 16"
definition RECHDR_LEN :: nat where "RECHDR_LEN = 5"
definition OUTBUF_PFX :: nat where "OUTBUF_PFX = 8 + AES_BLOCK_SIZE"
definition OUTBUF_SFX :: nat where "OUTBUF_SFX = 32 + 16"
definition MAX_INBUF :: nat where "MAX_INBUF = RECHDR_LEN + 16384 + 2048"
definition TLS_MAC_SIZE :: nat where "TLS_MAC_SIZE = SHA256_OUTSIZE"
definition NEED_EC_KEY :: u32 where "NEED_EC_KEY = 1"
definition GOT_EC_KEY :: u32 where "GOT_EC_KEY = 8"
definition ENCRYPTION_AESGCM :: u32 where "ENCRYPTION_AESGCM = 16"
definition ENCRYPT_ON_WRITE :: u32 where "ENCRYPT_ON_WRITE = 32"

lemmas tls_sizes = TLS_MAX_OUTBUF_def AES_BLOCK_SIZE_def RECHDR_LEN_def OUTBUF_PFX_def OUTBUF_SFX_def MAX_INBUF_def
  TLS_MAC_SIZE_def SHA256_OUTSIZE_def

text \<open>The two bytes of a length in a header: the low sixteen bits.\<close>

definition len16 :: "nat \<Rightarrow> u8 list" where "len16 n = [of_nat (n div 256), of_nat n AND 0xff]"

section \<open>Writing\<close>

definition tls_get_random :: "tls_state \<Rightarrow> nat \<Rightarrow> (u8 list \<times> tls_state) ended" where
  "tls_get_random tls len =
     (if length (urandom tls) < len then Died ''''
      else Going (take len (urandom tls), tls\<lparr>urandom := drop len (urandom tls)\<rparr>))"

definition xwrite :: "tls_state \<Rightarrow> u8 list \<Rightarrow> tls_state" where
  "xwrite tls bs = tls\<lparr>sent := sent tls @ [bs]\<rparr>"

text \<open>The caller gets \<open>OUTBUF_PFX\<close>, the offset of its data; what \<^verbatim>\<open>xrealloc\<close> adds is unspecified.\<close>

definition tls_get_outbuf :: "tls_state \<Rightarrow> nat \<Rightarrow> tls_state ended" where
  "tls_get_outbuf tls len =
     (if len > TLS_MAX_OUTBUF then Died ''''
      else
        let len = len + OUTBUF_PFX + OUTBUF_SFX
        in Going (if length (outbuf tls) < len
                  then tls\<lparr>outbuf := outbuf tls @ replicate (len - length (outbuf tls)) (junk tls)\<rparr> else tls))"

definition tls_free_outbuf :: "tls_state \<Rightarrow> tls_state" where
  "tls_free_outbuf tls = tls\<lparr>outbuf := []\<rparr>"

definition tls_get_zeroed_outbuf :: "tls_state \<Rightarrow> nat \<Rightarrow> tls_state ended option" where
  "tls_get_zeroed_outbuf tls len =
     (case tls_get_outbuf tls len of
        Died e \<Rightarrow> Some (Died e)
      | Going tls \<Rightarrow> do {
          mem \<leftarrow> wr_n (outbuf tls) OUTBUF_PFX (replicate len 0);
          Some (Going (tls\<lparr>outbuf := mem\<rparr>))
        })"

text \<open>\<^verbatim>\<open>do buf[size++] = padding_length; while ((size & 15) != 0)\<close>: the offset behind it too.\<close>

function pad_loop :: "u8 \<Rightarrow> nat \<Rightarrow> u8 list \<Rightarrow> (nat \<times> u8 list) option" where
  "pad_loop padding_length sz mem = do {
     mem \<leftarrow> wr_n mem (OUTBUF_PFX + sz) [padding_length];
     (if Suc sz mod 16 \<noteq> 0 then pad_loop padding_length (Suc sz) mem else Some (Suc sz, mem))
   }"
  by pat_completeness auto
termination by (relation "measure (\<lambda>(p, sz, mem). 15 - sz mod 16)") (auto simp: mod_Suc split: if_splits)

declare pad_loop.simps [simp del]

definition xwrite_encrypted_and_hmac_signed :: "tls_state \<Rightarrow> nat \<Rightarrow> u8 \<Rightarrow> tls_state ended option" where
  "xwrite_encrypted_and_hmac_signed tls sz type = do {
     let buf = OUTBUF_PFX;
     let xhdr = buf - RECHDR_LEN - AES_BLOCK_SIZE;
     mem \<leftarrow> wr_n (outbuf tls) xhdr ([type, TLS_MAJ, TLS_MIN] @ len16 sz);
     key \<leftarrow> rd_n (key_area tls) 0 TLS_MAC_SIZE;
     hdr \<leftarrow> rd_n mem xhdr RECHDR_LEN;
     body \<leftarrow> rd_n mem buf sz;
     mac \<leftarrow> hmac blank_hmac key [le_bytes 8 (write_seq64_be tls), hdr, body];
     mem \<leftarrow> wr_n mem (buf + sz) mac;
     let tls = tls\<lparr>write_seq64_be := swap64 (1 + swap64 (write_seq64_be tls))\<rparr>;
     let sz = sz + TLS_MAC_SIZE;
     (case tls_get_random tls AES_BLOCK_SIZE of
        Died e \<Rightarrow> Some (Died e)
      | Going (iv, tls) \<Rightarrow> do {
          mem \<leftarrow> wr_n mem (buf - AES_BLOCK_SIZE) iv;
          let padding_length = NOT (of_nat sz) AND 15;
          (sz, mem) \<leftarrow> pad_loop padding_length sz mem;
          mem \<leftarrow> aes_cbc_encrypt (aes_encrypt tls) (buf - AES_BLOCK_SIZE) buf sz buf mem;
          let sz = sz + AES_BLOCK_SIZE;
          mem \<leftarrow> wr_n mem (xhdr + 3) (len16 sz);
          let tls = tls\<lparr>outbuf := mem\<rparr>;
          out \<leftarrow> rd_n mem xhdr (RECHDR_LEN + sz);
          Some (Going (xwrite tls out))
        })
   }"

text \<open>
  The counter loop of the two GCM functions: \<open>nonce\<close> is its first twelve bytes, \<open>off\<close> the pointer
  \<^verbatim>\<open>buf\<close>. The result is where \<^verbatim>\<open>buf\<close> ends and the memory.
\<close>

definition counter_block :: "u8 list \<Rightarrow> u32 \<Rightarrow> u8 list" where
  "counter_block nonce cnt = nonce @ le_bytes 4 (htonl cnt)"

function gcm_encrypt_loop :: "tls_aes \<Rightarrow> u8 list \<Rightarrow> u32 \<Rightarrow> nat \<Rightarrow> nat \<Rightarrow> u8 list \<Rightarrow> (nat \<times> u8 list) option" where
  "gcm_encrypt_loop aes nonce cnt off remaining mem =
     (if remaining \<noteq> 0 then do {
        let cnt = cnt + 1;
        scratch \<leftarrow> aes_encrypt_one_block aes (counter_block nonce cnt);
        let n = (if remaining > AES_BLOCK_SIZE then AES_BLOCK_SIZE else remaining);
        rest \<leftarrow> xorbuf (drop off mem) scratch n;
        gcm_encrypt_loop aes nonce cnt (off + n) (remaining - n) (take off mem @ rest)
      }
      else Some (off, mem))"
  by pat_completeness auto
termination by (relation "measure (\<lambda>(aes, nonce, cnt, off, r, mem). r)") (auto simp: AES_BLOCK_SIZE_def)

declare gcm_encrypt_loop.simps [simp del]

definition xwrite_encrypted_aesgcm :: "tls_state \<Rightarrow> nat \<Rightarrow> u8 \<Rightarrow> tls_state ended option" where
  "xwrite_encrypted_aesgcm tls sz type = do {
     let buf = OUTBUF_PFX;
     let xhdr = buf - 8 - RECHDR_LEN;
     mem \<leftarrow> wr_n (outbuf tls) xhdr [type];
     let t64 = write_seq64_be tls;
     let aad = le_bytes 8 t64 @ [type, TLS_MAJ, TLS_MIN, of_nat (sz div 256)] @ le_bytes 4 (of_nat sz AND 0xff :: u32);
     iv \<leftarrow> rd_n (key_area tls) (client_write_IV tls) 4;
     let nonce = iv @ le_bytes 8 t64;
     mem \<leftarrow> wr_n mem (buf - 8) (le_bytes 8 t64);
     let tls = tls\<lparr>write_seq64_be := swap64 (1 + swap64 t64)\<rparr>;
     (off, mem) \<leftarrow> gcm_encrypt_loop (aes_encrypt tls) nonce 1 buf sz mem;
     authtag \<leftarrow> aesgcm_GHASH (aes_H tls) aad (drop buf mem) sz;
     scratch \<leftarrow> aes_encrypt_one_block (aes_encrypt tls) (counter_block nonce 1);
     authtag \<leftarrow> xorbuf_aligned_AES_BLOCK_SIZE authtag scratch;
     mem \<leftarrow> wr_n mem off authtag;
     let sz = sz + (8 + 16);
     mem \<leftarrow> wr_n mem (xhdr + 1) ([TLS_MAJ, TLS_MIN] @ len16 sz);
     let sz = sz + RECHDR_LEN;
     let tls = tls\<lparr>outbuf := mem\<rparr>;
     out \<leftarrow> rd_n mem xhdr sz;
     Some (Going (xwrite tls out))
   }"

definition xwrite_encrypted :: "tls_state \<Rightarrow> nat \<Rightarrow> u8 \<Rightarrow> tls_state ended option" where
  "xwrite_encrypted tls sz type =
     (if flags tls AND ENCRYPTION_AESGCM = 0 then xwrite_encrypted_and_hmac_signed tls sz type
      else xwrite_encrypted_aesgcm tls sz type)"

definition xwrite_handshake_record :: "tls_state \<Rightarrow> nat \<Rightarrow> tls_state option" where
  "xwrite_handshake_record tls sz = do {
     let buf = OUTBUF_PFX;
     let xhdr = buf - RECHDR_LEN;
     mem \<leftarrow> wr_n (outbuf tls) xhdr ([RECORD_TYPE_HANDSHAKE, TLS_MAJ, TLS_MIN] @ len16 sz);
     out \<leftarrow> rd_n mem xhdr (RECHDR_LEN + sz);
     Some (xwrite (tls\<lparr>outbuf := mem\<rparr>) out)
   }"

text \<open>\<open>None\<close>: the handshake data is gone, and \<^verbatim>\<open>tls->hsd\<close> a null pointer.\<close>

definition hash_handshake :: "tls_state \<Rightarrow> u8 list \<Rightarrow> tls_state option" where
  "hash_handshake tls bs =
     map_option (\<lambda>h. tls\<lparr>hsd := Some (h\<lparr>handshake_hash_ctx := md5_hash (handshake_hash_ctx h) bs\<rparr>)\<rparr>) (hsd tls)"

definition xwrite_and_update_handshake_hash :: "tls_state \<Rightarrow> nat \<Rightarrow> tls_state ended option" where
  "xwrite_and_update_handshake_hash tls sz =
     (if flags tls AND ENCRYPT_ON_WRITE = 0 then do {
        tls \<leftarrow> xwrite_handshake_record tls sz;
        bs \<leftarrow> rd_n (outbuf tls) OUTBUF_PFX sz;
        tls \<leftarrow> hash_handshake tls bs;
        Some (Going tls)
      }
      else xwrite_encrypted tls sz RECORD_TYPE_HANDSHAKE)"

section \<open>Reading\<close>

definition tls_has_buffered_record :: "tls_state \<Rightarrow> nat option" where
  "tls_has_buffered_record tls = do {
     let buffered = buffered_size tls;
     (if buffered < RECHDR_LEN then Some 0
      else do {
        xhdr \<leftarrow> rd_n (inbuf tls) (ofs_to_buffered tls) RECHDR_LEN;
        let rec_size = RECHDR_LEN + (0x100 * unat (xhdr ! 3) + unat (xhdr ! 4));
        Some (if buffered < rec_size then 0 else rec_size)
      })
   }"

definition bad_record_die :: "tls_state \<Rightarrow> nat \<Rightarrow> 'a ended option" where
  "bad_record_die tls len = do {
     bytes \<leftarrow> rd_n (inbuf tls) 0 (if len > 99 then 99 else len);
     Some (Died ''got bad TLS record'')
   }"

text \<open>
  \<^verbatim>\<open>read\<close> of at most \<open>rem\<close> bytes: \<open>Inl\<close> an error; no bytes at the end of the input. A longer chunk
  leaves its rest for the next read.
\<close>

fun safe_read :: "nat \<Rightarrow> u8 list option list \<Rightarrow> (unit + u8 list) \<times> u8 list option list" where
  "safe_read rem [] = (Inr [], [])"
| "safe_read rem (None # chunks) = (Inl (), chunks)"
| "safe_read rem (Some bs # chunks) =
     (if length bs \<le> rem then (Inr bs, chunks) else (Inr (take rem bs), Some (drop rem bs) # chunks))"

text \<open>How the loop that fills the buffer ends: the end of the input, or \<open>tot\<close> bytes of which \<open>target\<close> are the record.\<close>

datatype filled = Fill_died string | Fill_eof | Filled nat nat

text \<open>What reads will still give, with one for each of them: the loop takes from it at every turn.\<close>

definition input_left :: "u8 list option list \<Rightarrow> nat" where
  "input_left chunks = sum_list (map (\<lambda>c. case c of None \<Rightarrow> 1 | Some bs \<Rightarrow> 1 + length bs) chunks)"

lemma safe_read_takes:
  "safe_read rem chunks = (Inr bs, chunks') \<Longrightarrow> bs \<noteq> [] \<Longrightarrow> input_left chunks' < input_left chunks"
  by (cases "(rem, chunks)" rule: safe_read.cases) (auto simp: input_left_def split: if_splits)

text \<open>The header, when enough of it has come and no length is known yet.\<close>

definition fill_target :: "tls_state \<Rightarrow> nat \<Rightarrow> nat \<Rightarrow> nat ended option" where
  "fill_target tls tot target =
     (if tot \<ge> RECHDR_LEN \<and> target = MAX_INBUF then do {
        xhdr \<leftarrow> rd_n (inbuf tls) 0 RECHDR_LEN;
        let target = RECHDR_LEN + (0x100 * unat (xhdr ! 3) + unat (xhdr ! 4));
        (if target > MAX_INBUF \<or> xhdr ! 1 \<noteq> TLS_MAJ \<or> xhdr ! 2 \<noteq> TLS_MIN
         then bad_record_die tls (min tot target)
         else Some (Going target))
      }
      else Some (Going target))"

definition grow_inbuf :: "tls_state \<Rightarrow> nat \<Rightarrow> tls_state" where
  "grow_inbuf tls tot =
     (let inbuf_size = length (inbuf tls) in
      if inbuf_size = tot then
        let inbuf_size' = min (inbuf_size + MAX_INBUF div 8) MAX_INBUF
        in tls\<lparr>inbuf := take inbuf_size' (inbuf tls) @ replicate (inbuf_size' - inbuf_size) (junk tls)\<rparr>
      else tls)"

lemma grow_inbuf_incoming [simp]: "incoming (grow_inbuf tls tot) = incoming tls"
  by (simp add: grow_inbuf_def Let_def)

function fill_inbuf :: "tls_state \<Rightarrow> nat \<Rightarrow> nat \<Rightarrow> (filled \<times> tls_state) option" where
  "fill_inbuf tls tot target = do {
     t \<leftarrow> fill_target tls tot target;
     (case t of
        Died e \<Rightarrow> Some (Fill_died e, tls)
      | Going target \<Rightarrow>
          if tot \<ge> target then Some (Filled tot target, tls)
          else
            let tls = grow_inbuf tls tot;
                rem = length (inbuf tls) - tot
            in case safe_read rem (incoming tls) of
                 (Inl _, chunks) \<Rightarrow> Some (Fill_died ''short read'', tls\<lparr>incoming := chunks\<rparr>)
               | (Inr bs, chunks) \<Rightarrow>
                   let tls = tls\<lparr>incoming := chunks\<rparr>
                   in if bs = [] then
                        if tot = 0 then Some (Fill_eof, tls\<lparr>buffered_size := 0\<rparr>)
                        else Some (Fill_died ''short read'', tls)
                      else do {
                        mem \<leftarrow> wr_n (inbuf tls) tot bs;
                        fill_inbuf (tls\<lparr>inbuf := mem\<rparr>) (tot + length bs) target
                      })
   }"
  by pat_completeness auto
termination
  by (relation "measure (\<lambda>(tls, tot, target). input_left (incoming tls))")
    (auto simp: Let_def dest: safe_read_takes [OF sym])

declare fill_inbuf.simps [simp del]

text \<open>
  The call \<^verbatim>\<open>xorbuf3(buf, scratch, buf + 8, n)\<close> of the decryption: the two buffers overlap, so
  the bytes go one by one, from \<open>s2\<close> down to \<open>d\<close>.
\<close>

fun xorbuf3_overlap :: "nat \<Rightarrow> u8 list \<Rightarrow> nat \<Rightarrow> u8 list \<Rightarrow> u8 list option" where
  "xorbuf3_overlap d [] s2 mem = Some mem"
| "xorbuf3_overlap d (k # s1) s2 mem = do {
     b \<leftarrow> rd mem s2;
     mem \<leftarrow> wr_n mem d [k XOR b];
     xorbuf3_overlap (Suc d) s1 (Suc s2) mem
   }"

function gcm_decrypt_loop :: "tls_aes \<Rightarrow> u8 list \<Rightarrow> u32 \<Rightarrow> nat \<Rightarrow> nat \<Rightarrow> u8 list \<Rightarrow> u8 list option" where
  "gcm_decrypt_loop aes nonce cnt buf remaining mem =
     (if remaining \<noteq> 0 then do {
        let cnt = cnt + 1;
        scratch \<leftarrow> aes_encrypt_one_block aes (counter_block nonce cnt);
        let n = (if remaining > AES_BLOCK_SIZE then AES_BLOCK_SIZE else remaining);
        mem \<leftarrow> xorbuf3_overlap buf (take n scratch) (buf + 8) mem;
        gcm_decrypt_loop aes nonce cnt (buf + n) (remaining - n) mem
      }
      else Some mem)"
  by pat_completeness auto
termination by (relation "measure (\<lambda>(aes, nonce, cnt, buf, r, mem). r)") (auto simp: AES_BLOCK_SIZE_def)

declare gcm_decrypt_loop.simps [simp del]

definition tls_aesgcm_decrypt :: "tls_state \<Rightarrow> nat \<Rightarrow> nat \<Rightarrow> u8 list option" where
  "tls_aesgcm_decrypt tls buf sz = do {
     iv \<leftarrow> rd_n (key_area tls) (server_write_IV tls) 4;
     explicit \<leftarrow> rd_n (inbuf tls) buf 8;
     gcm_decrypt_loop (aes_decrypt tls) (iv @ explicit) 1 buf sz (inbuf tls)
   }"

text \<open>
  The middle of \<^verbatim>\<open>tls_xread_record\<close>: decryption in the buffer. A size that falls below zero is
  reported by the caller.
\<close>

definition decrypt_record :: "tls_state \<Rightarrow> nat \<Rightarrow> (int \<times> tls_state) ended option" where
  "decrypt_record tls sz =
     (if min_encrypted_len_on_read tls \<noteq> 0 then
        if sz < min_encrypted_len_on_read tls then Some (Died ''bad encrypted len'')
        else if flags tls AND ENCRYPTION_AESGCM \<noteq> 0 then
          if sz < 8 + AES_BLOCK_SIZE then None
          else do {
            let sz = sz - (8 + AES_BLOCK_SIZE);
            mem \<leftarrow> tls_aesgcm_decrypt tls RECHDR_LEN sz;
            Some (Going (int sz, tls\<lparr>inbuf := mem\<rparr>))
          }
        else if min_encrypted_len_on_read tls > TLS_MAC_SIZE then
          if sz mod AES_BLOCK_SIZE \<noteq> 0 then Some (Died ''bad encrypted len'')
          else do {
            let p = RECHDR_LEN;
            let sz = sz - AES_BLOCK_SIZE;
            mem \<leftarrow> aes_cbc_decrypt (aes_decrypt tls) p (p + AES_BLOCK_SIZE) sz p (inbuf tls);
            b \<leftarrow> rd mem (p + sz - 1);
            let padding_len = unat b + 1;
            Some (Going (int sz - int (TLS_MAC_SIZE + padding_len), tls\<lparr>inbuf := mem\<rparr>))
          }
        else Some (Going (int sz - int (min_encrypted_len_on_read tls), tls))
      else Some (Going (int sz, tls)))"

text \<open>The end of \<^verbatim>\<open>tls_xread_record\<close>: \<open>None\<close> as the result is \<^verbatim>\<open>goto again\<close>.\<close>

definition handle_record :: "tls_state \<Rightarrow> nat \<Rightarrow> (nat ended option \<times> tls_state) option" where
  "handle_record tls sz = do {
     type \<leftarrow> rd (inbuf tls) 0;
     (if type = RECORD_TYPE_ALERT \<and> sz \<ge> 2 then do {
        level \<leftarrow> rd (inbuf tls) RECHDR_LEN;
        description \<leftarrow> rd (inbuf tls) (RECHDR_LEN + 1);
        (if level = 2 then Some (Some (Died ''TLS error from peer''), tls)
         else if level = 1 then
           if description = 0 then Some (Some (Going 0), tls) else Some (None, tls)
         else Some (Some (Going 0), tls))
      }
      else if type = RECORD_TYPE_HANDSHAKE then do {
        bs \<leftarrow> rd_n (inbuf tls) RECHDR_LEN sz;
        tls \<leftarrow> hash_handshake tls bs;
        Some (Some (Going sz), tls)
      }
      else Some (Some (Going sz), tls))
   }"

definition xread_once :: "tls_state \<Rightarrow> (nat ended option \<times> tls_state) option" where
  "xread_once tls = do {
     let tot = buffered_size tls;
     tls \<leftarrow>
       (if tot \<noteq> 0 then do {
          bs \<leftarrow> rd_n (inbuf tls) (ofs_to_buffered tls) tot;
          mem \<leftarrow> wr_n (inbuf tls) 0 bs;
          Some (tls\<lparr>inbuf := mem\<rparr>)
        }
        else Some tls);
     (f, tls) \<leftarrow> fill_inbuf tls tot MAX_INBUF;
     (case f of
        Fill_died e \<Rightarrow> Some (Some (Died e), tls)
      | Fill_eof \<Rightarrow> Some (Some (Going 0), tls)
      | Filled tot target \<Rightarrow> do {
          let tls = tls\<lparr>buffered_size := tot - target, ofs_to_buffered := target\<rparr>;
          r \<leftarrow> decrypt_record tls (target - RECHDR_LEN);
          (case r of
             Died e \<Rightarrow> Some (Some (Died e), tls)
           | Going (sz, tls) \<Rightarrow>
               if sz < 0 then Some (Some (Died ''encrypted data too short''), tls)
               else handle_record tls (nat sz))
        })
   }"

partial_function (option) tls_xread_record :: "tls_state \<Rightarrow> (nat ended \<times> tls_state) option" where
  "tls_xread_record tls = do {
     (r, tls) \<leftarrow> xread_once tls;
     (if r = None then tls_xread_record tls else Some (the r, tls))
   }"

declare tls_xread_record.simps [code]

definition tls_xread_handshake_block :: "tls_state \<Rightarrow> nat \<Rightarrow> (nat ended \<times> tls_state) option" where
  "tls_xread_handshake_block tls min_len = do {
     (r, tls) \<leftarrow> tls_xread_record tls;
     (case r of
        Died e \<Rightarrow> Some (Died e, tls)
      | Going len \<Rightarrow> do {
          type \<leftarrow> rd (inbuf tls) 0;
          (if len < min_len \<or> type \<noteq> RECORD_TYPE_HANDSHAKE
           then do { d \<leftarrow> bad_record_die tls len; Some (d, tls) }
           else Some (Going len, tls))
        })
   }"

end
