(* ===== verification/TlsRecordProofs.thy ===== *)
theory TlsRecordProofs
  imports TlsRecord
begin

text \<open>
  The record layer of \<^verbatim>\<open>networking/tls.c\<close>: what is written on the wire, how the reader puts a
  record together from whatever pieces arrive, and that a record written is the record read.
\<close>

section \<open>Counter mode\<close>

text \<open>NIST SP 800-38D: the key stream of \<open>n\<close> bytes after counter value \<open>cnt\<close>.\<close>

function gcm_stream :: "u8 list \<Rightarrow> u8 list \<Rightarrow> u32 \<Rightarrow> nat \<Rightarrow> u8 list" where
  "gcm_stream key nonce cnt n =
     (if n = 0 then []
      else take n (aes_encipher key (nonce @ be_bytes 4 (cnt + 1))) @ gcm_stream key nonce (cnt + 1) (n - 16))"
  by pat_completeness auto
termination by (relation "measure (\<lambda>(key, nonce, cnt, n). n)") auto

declare gcm_stream.simps [simp del]

lemma counter_block_be: "counter_block nonce cnt = nonce @ be_bytes 4 cnt"
  by (simp add: counter_block_def htonl_def le_bytes_swap)

lemma aes_encrypt_one_block_encipher:
  assumes "aes_ready aes key" "length b = 16"
  shows "aes_encrypt_one_block aes b = Some (aes_encipher key b)"
  using aes_encrypt_1_up [OF assms] assms(2) by (simp add: aes_encrypt_one_block_def rd_n_def o_def)

lemma gcm_stream_length:
  assumes "aes_ready aes key" "length nonce = 12"
  shows "length (gcm_stream key nonce cnt n) = n"
proof (induction n arbitrary: cnt rule: less_induct)
  case (less n)
  have "length (aes_encipher key (nonce @ be_bytes 4 (cnt + 1))) = 16"
    using aes_cipher_lengths(1) [OF assms(1)] assms(2) by simp
  then show ?case using less.IH [of "n - 16" "cnt + 1"] by (subst gcm_stream.simps) (simp add: min_def)
qed

lemma gcm_encrypt_loop_stream:
  assumes "aes_ready aes key" "length nonce = 12" "off + n \<le> length mem"
  shows "gcm_encrypt_loop aes nonce cnt off n mem =
    Some (off + n, take off mem @ map2 (XOR) (take n (drop off mem)) (gcm_stream key nonce cnt n) @ drop (off + n) mem)"
  using assms(3)
proof (induction n arbitrary: cnt off mem rule: less_induct)
  case (less n)
  show ?case
  proof (cases "n = 0")
    case True
    then show ?thesis by (subst gcm_encrypt_loop.simps) (simp add: gcm_stream.simps)
  next
    case False
    define m where "m = min n 16"
    define s where "s = aes_encipher key (nonce @ be_bytes 4 (cnt + 1))"
    have s: "length s = 16" "aes_encrypt_one_block aes (counter_block nonce (cnt + 1)) = Some s"
      using aes_cipher_lengths(1) [OF assms(1)] aes_encrypt_one_block_encipher [OF assms(1)] assms(2)
      by (simp_all add: s_def counter_block_be)
    have m: "(if n > AES_BLOCK_SIZE then AES_BLOCK_SIZE else n) = m" "m \<le> 16" "m \<le> n" "0 < m"
      using False by (auto simp: m_def AES_BLOCK_SIZE_def)
    have m16: "n - m = n - 16" by (simp add: m_def)
    define x where "x = map2 (XOR) (take m (drop off mem)) (take m s)"
    have x: "length x = m" using less.prems m s(1) by (simp add: x_def)
    have "xorbuf (drop off mem) s m = Some (x @ drop (off + m) mem)"
      using less.prems m s(1) x by (simp add: xorbuf_def xorbuf3_def rd_n_def wr_n_def x_def add.commute)
    then have "gcm_encrypt_loop aes nonce cnt off n mem =
        gcm_encrypt_loop aes nonce (cnt + 1) (off + m) (n - m) (take off mem @ x @ drop (off + m) mem)"
      using False s(2) m(1) by (subst gcm_encrypt_loop.simps) (simp add: Let_def)
    also have "\<dots> = Some (off + n, take off mem @ x
        @ map2 (XOR) (take (n - m) (drop (off + m) mem)) (gcm_stream key nonce (cnt + 1) (n - m)) @ drop (off + n) mem)"
      using less.prems m x by (subst less.IH) (simp_all add: ac_simps)
    also have "\<dots> = Some (off + n, take off mem
        @ (x @ map2 (XOR) (take (n - m) (drop (off + m) mem)) (gcm_stream key nonce (cnt + 1) (n - m))) @ drop (off + n) mem)"
      by simp
    also have "x @ map2 (XOR) (take (n - m) (drop (off + m) mem)) (gcm_stream key nonce (cnt + 1) (n - m))
        = map2 (XOR) (take n (drop off mem)) (gcm_stream key nonce cnt n)"
    proof -
      have "gcm_stream key nonce cnt n = take m s @ gcm_stream key nonce (cnt + 1) (n - m)"
        using False s(1) unfolding m16 by (subst gcm_stream.simps) (simp add: s_def [symmetric] m_def min_def)
      moreover have "take n (drop off mem) = take m (drop off mem) @ take (n - m) (drop (off + m) mem)"
        using m(3) take_add [of m "n - m" "drop off mem"] by (simp add: add.commute)
      ultimately show ?thesis using less.prems m s(1) by (simp add: x_def)
    qed
    finally show ?thesis .
  qed
qed

lemma xorbuf3_overlap_xor:
  assumes "d \<le> s2" "s2 + length ks \<le> length mem"
  shows "xorbuf3_overlap d ks s2 mem = Some (take d mem @ map2 (XOR) ks (take (length ks) (drop s2 mem)) @ drop (d + length ks) mem)"
  using assms
proof (induction ks arbitrary: d s2 mem)
  case (Cons k ks)
  let ?mem = "take d mem @ [k XOR mem ! s2] @ drop (Suc d) mem"
  have "wr_n mem d [k XOR mem ! s2] = Some ?mem" using Cons.prems by (simp add: wr_n_def)
  moreover have "drop (Suc s2) ?mem = drop (Suc s2) mem" "take (Suc d) ?mem = take d mem @ [k XOR mem ! s2]"
    "drop (Suc d + length ks) ?mem = drop (Suc d + length ks) mem"
    using Cons.prems by (simp_all add: Suc_diff_le add.commute)
  moreover have "take (Suc (length ks)) (drop s2 mem) = mem ! s2 # take (length ks) (drop (Suc s2) mem)"
    using Cons.prems by (simp add: Cons_nth_drop_Suc [symmetric])
  ultimately show ?case using Cons.prems Cons.IH [of "Suc d" "Suc s2" ?mem] by simp
qed simp

lemma gcm_decrypt_loop_stream:
  assumes "aes_ready aes key" "length nonce = 12" "buf + 8 + n \<le> length mem"
  shows "gcm_decrypt_loop aes nonce cnt buf n mem =
    Some (take buf mem @ map2 (XOR) (gcm_stream key nonce cnt n) (take n (drop (buf + 8) mem)) @ drop (buf + n) mem)"
  using assms(3)
proof (induction n arbitrary: cnt buf mem rule: less_induct)
  case (less n)
  show ?case
  proof (cases "n = 0")
    case True
    then show ?thesis by (subst gcm_decrypt_loop.simps) (simp add: gcm_stream.simps)
  next
    case False
    define m where "m = min n 16"
    define s where "s = aes_encipher key (nonce @ be_bytes 4 (cnt + 1))"
    have s: "length s = 16" "aes_encrypt_one_block aes (counter_block nonce (cnt + 1)) = Some s"
      using aes_cipher_lengths(1) [OF assms(1)] aes_encrypt_one_block_encipher [OF assms(1)] assms(2)
      by (simp_all add: s_def counter_block_be)
    have m: "(if n > AES_BLOCK_SIZE then AES_BLOCK_SIZE else n) = m" "m \<le> 16" "m \<le> n" "0 < m"
      using False by (auto simp: m_def AES_BLOCK_SIZE_def)
    have m16: "n - m = n - 16" by (simp add: m_def)
    define x where "x = map2 (XOR) (take m s) (take m (drop (buf + 8) mem))"
    define mem' where "mem' = take buf mem @ x @ drop (buf + m) mem"
    have x: "length x = m" using less.prems m s(1) by (simp add: x_def)
    have e: "take (buf + m) mem' = take buf mem @ x" "drop (buf + m + (n - m)) mem' = drop (buf + n) mem"
      "drop (buf + m + 8) mem' = drop (buf + m + 8) mem"
      using less.prems m x by (simp_all add: mem'_def ac_simps)
    have "xorbuf3_overlap buf (take m s) (buf + 8) mem = Some mem'"
      using less.prems m s(1) by (subst xorbuf3_overlap_xor) (simp_all add: x_def mem'_def)
    then have "gcm_decrypt_loop aes nonce cnt buf n mem = gcm_decrypt_loop aes nonce (cnt + 1) (buf + m) (n - m) mem'"
      using False s(2) m(1) by (subst gcm_decrypt_loop.simps) (simp add: Let_def)
    also have "\<dots> = Some (take (buf + m) mem'
        @ map2 (XOR) (gcm_stream key nonce (cnt + 1) (n - m)) (take (n - m) (drop (buf + m + 8) mem')) @ drop (buf + m + (n - m)) mem')"
      using less.prems m x by (intro less.IH) (simp_all add: mem'_def)
    also have "\<dots> = Some ((take buf mem @ x) @ map2 (XOR) (gcm_stream key nonce (cnt + 1) (n - m)) (take (n - m) (drop (buf + m + 8) mem)) @ drop (buf + n) mem)"
      by (simp only: e)
    also have "(take buf mem @ x) @ map2 (XOR) (gcm_stream key nonce (cnt + 1) (n - m)) (take (n - m) (drop (buf + m + 8) mem)) @ drop (buf + n) mem
        = take buf mem @ map2 (XOR) (gcm_stream key nonce cnt n) (take n (drop (buf + 8) mem)) @ drop (buf + n) mem"
    proof -
      have "gcm_stream key nonce cnt n = take m s @ gcm_stream key nonce (cnt + 1) (n - m)"
        using False s(1) unfolding m16 by (subst gcm_stream.simps) (simp add: s_def [symmetric] m_def min_def)
      moreover have "take n (drop (buf + 8) mem) = take m (drop (buf + 8) mem) @ take (n - m) (drop (buf + m + 8) mem)"
        using m(3) take_add [of m "n - m" "drop (buf + 8) mem"] by (simp add: ac_simps)
      ultimately show ?thesis using less.prems m s(1) by (simp add: x_def)
    qed
    finally show ?thesis .
  qed
qed

section \<open>What is written\<close>

lemma split_off:
  assumes "k \<le> length m"
  obtains a b where "m = a @ b" "length a = k" "length b = length m - k"
  using assms by (intro that [of "take k m" "drop k m"]) simp_all

lemma five_parts:
  assumes "i + j + k + l + n \<le> length m"
  obtains a b c d e r where "m = a @ b @ c @ d @ e @ r" "length a = i" "length b = j" "length c = k" "length d = l" "length e = n"
proof -
  have step: "drop p m = take q (drop p m) @ drop (p + q) m" for p q
    using append_take_drop_id [of q "drop p m"] by (simp add: add.commute)
  have "m = take i m @ take j (drop i m) @ take k (drop (i + j) m) @ take l (drop (i + j + k) m)
      @ take n (drop (i + j + k + l) m) @ drop (i + j + k + l + n) m"
    unfolding step [of "i + j + k + l" n, symmetric] step [of "i + j + k" l, symmetric] step [of "i + j" k, symmetric]
      step [of i j, symmetric] by simp
  from that [OF this] show ?thesis using assms by simp
qed

lemma wr_n_mid: "length a = i \<Longrightarrow> length b = length c \<Longrightarrow> wr_n (a @ b @ r) i c = Some (a @ c @ r)"
  by (simp add: wr_n_def)

lemma rd_n_mid: "length a = i \<Longrightarrow> length b = n \<Longrightarrow> rd_n (a @ b @ r) i n = Some b"
  by (simp add: rd_n_def)

lemma len16_length [simp]: "length (len16 n) = 2"
  by (simp add: len16_def)

definition gcm_ciphertext :: "u8 list \<Rightarrow> u8 list \<Rightarrow> u8 list \<Rightarrow> u8 list" where
  "gcm_ciphertext key nonce data = map2 (XOR) data (gcm_stream key nonce 1 (length data))"

text \<open>The associated data of a record, in the buffer of a whole block.\<close>

definition gcm_aad :: "u64 \<Rightarrow> u8 \<Rightarrow> nat \<Rightarrow> u8 list" where
  "gcm_aad seq type n = le_bytes 8 seq @ [type, 3, 3] @ len16 n @ [0, 0, 0]"

text \<open>\<open>tag\<close> is the authentication tag of SP 800-38D for the ciphertext \<open>c\<close>.\<close>

definition gcm_tag :: "u8 list \<Rightarrow> u8 list \<Rightarrow> u8 list \<Rightarrow> u8 list \<Rightarrow> u8 list \<Rightarrow> u8 list \<Rightarrow> bool" where
  "gcm_tag key h nonce aad c tag \<longleftrightarrow> length tag = 16
     \<and> gblock tag = ghash (gblock h) (aad # padded_blocks c @ [length_block 13 (length c)])
         XOR gblock (aes_encipher key (nonce @ [0, 0, 0, 1]))"

text \<open>The record on the wire: header, the explicit nonce, ciphertext, tag.\<close>

definition gcm_wire :: "u64 \<Rightarrow> u8 \<Rightarrow> u8 list \<Rightarrow> u8 list \<Rightarrow> u8 list" where
  "gcm_wire seq type c tag = [type, 3, 3] @ len16 (length c + 24) @ le_bytes 8 seq @ c @ tag"

lemma gcm_aad_code:
  "le_bytes 8 seq @ [type, TLS_MAJ, TLS_MIN, of_nat (n div 256)] @ le_bytes 4 (of_nat n AND 0xff :: u32) = gcm_aad seq type n"
proof -
  define w :: u32 where "w = of_nat n AND 0xff"
  define b :: u8 where "b = of_nat n AND 0xff"
  have masks: "(0xff :: u32) = mask 8" "(0xff :: u8) = mask 8" by (simp_all add: mask_eq_exp_minus_1)
  have w: "bit w k \<longleftrightarrow> k < 8 \<and> bit n k" for k
    unfolding w_def masks by (auto simp: bit_and_iff bit_mask_iff bit_of_nat_iff)
  have b: "bit b k \<longleftrightarrow> k < 8 \<and> bit n k" for k
    unfolding b_def masks by (auto simp: bit_and_iff bit_mask_iff bit_of_nat_iff)
  have "ucast w = b" "ucast (drop_bit 8 w) = (0 :: u8)" "ucast (drop_bit 16 w) = (0 :: u8)" "ucast (drop_bit 24 w) = (0 :: u8)"
    by (rule bit_word_eqI, simp add: bit_ucast_iff bit_drop_bit_eq w b)+
  then have "le_bytes 4 w = [b, 0, 0, 0]" by (simp add: le_bytes_def upt_rec)
  then show ?thesis by (simp add: gcm_aad_def len16_def TLS_MAJ_def TLS_MIN_def w_def b_def)
qed

lemma be_bytes_one: "be_bytes 4 (1 :: u32) = [0, 0, 0, 1]"
  by code_simp

lemma xwrite_encrypted_aesgcm_wire:
  assumes "aes_ready (aes_encrypt tls) key" "length (aes_H tls) = 16" "rd_n (key_area tls) (client_write_IV tls) 4 = Some iv"
    and "rd_n (outbuf tls) 24 (n + 16) = Some (data @ old)" "length data = n" "8 * n < 2 ^ 32"
  defines "nonce \<equiv> iv @ le_bytes 8 (write_seq64_be tls)"
  defines "c \<equiv> gcm_ciphertext key nonce data"
  shows "\<exists>tls' tag. xwrite_encrypted_aesgcm tls n type = Some (Going tls')
    \<and> sent tls' = sent tls @ [gcm_wire (write_seq64_be tls) type c tag]
    \<and> gcm_tag key (aes_H tls) nonce (gcm_aad (write_seq64_be tls) type n) c tag
    \<and> tls' = tls\<lparr>write_seq64_be := swap64 (1 + swap64 (write_seq64_be tls)), outbuf := outbuf tls', sent := sent tls'\<rparr>
    \<and> length (outbuf tls') = length (outbuf tls)"
proof -
  let ?seq = "write_seq64_be tls"
  have iv: "length iv = 4" using rd_n_length [OF assms(3)] .
  then have nonce: "length nonce = 12" by (simp add: nonce_def)
  have "24 + (n + 16) \<le> length (outbuf tls)" using assms(4) by (auto simp: rd_n_def split: if_splits)
  then have "11 + 1 + 4 + 8 + (n + 16) \<le> length (outbuf tls)" by simp
  then obtain a t h q d M5 where out': "outbuf tls = a @ t @ h @ q @ d @ M5" and lens: "length a = 11" "length t = 1"
    "length h = 4" "length q = 8" "length d = n + 16" by (rule five_parts)
  have "rd_n (a @ t @ h @ q @ d @ M5) 24 (n + 16) = Some d"
    using lens rd_n_mid [of "a @ t @ h @ q" 24 d "n + 16" M5] by simp
  then have "d = data @ old" using assms(4) unfolding out' by simp
  then have out: "outbuf tls = a @ t @ h @ q @ data @ old @ M5" and old: "length old = 16"
    using out' lens assms(5) by simp_all
  have c: "length c = n" using gcm_stream_length [OF assms(1) nonce] assms(5) by (simp add: c_def gcm_ciphertext_def)
  have "length ((a @ [type] @ h @ le_bytes 8 ?seq) @ data) = 24 + n" using lens assms(5) by simp
  then have dr: "drop (24 + n) (a @ [type] @ h @ le_bytes 8 ?seq @ data @ old @ M5) = old @ M5"
    using drop_append [of "24 + n" "(a @ [type] @ h @ le_bytes 8 ?seq) @ data" "old @ M5"] by simp
  have loop: "gcm_encrypt_loop (aes_encrypt tls) nonce 1 24 n (a @ [type] @ h @ le_bytes 8 ?seq @ data @ old @ M5) =
      Some (24 + n, a @ [type] @ h @ le_bytes 8 ?seq @ c @ old @ M5)"
    using gcm_encrypt_loop_stream [OF assms(1) nonce, of 24 n "a @ [type] @ h @ le_bytes 8 ?seq @ data @ old @ M5" 1] lens assms(5)
    unfolding dr by (simp add: c_def gcm_ciphertext_def)
  obtain s where s: "aesgcm_GHASH (aes_H tls) (gcm_aad ?seq type n) (c @ old @ M5) n = Some s" "length s = 16"
    "gblock s = ghash (gblock (aes_H tls)) (gcm_aad ?seq type n # padded_blocks c @ [length_block aSz n])"
    using aesgcm_GHASH_ghash [of "aes_H tls" "gcm_aad ?seq type n" n "c @ old @ M5"] assms(2,6) c by (auto simp: gcm_aad_def)
  define e where "e = aes_encipher key (nonce @ be_bytes 4 (1 :: u32))"
  have e: "length e = 16" "aes_encrypt_one_block (aes_encrypt tls) (counter_block nonce 1) = Some e"
    using aes_cipher_lengths(1) [OF assms(1)] aes_encrypt_one_block_encipher [OF assms(1)] nonce
    by (simp_all add: e_def counter_block_be)
  define tag where "tag = map2 (XOR) s e"
  have tag: "xorbuf_aligned_AES_BLOCK_SIZE s e = Some tag" "length tag = 16"
    using xorbuf_aligned_xor [of s e] s(2) e(1) by (simp_all add: tag_def)
  have is_tag: "gcm_tag key (aes_H tls) nonce (gcm_aad ?seq type n) c tag"
    using s e(1) tag(2) c by (simp add: gcm_tag_def tag_def gblock_xor e_def be_bytes_one aSz_def)
  define tls' where "tls' = tls\<lparr>write_seq64_be := swap64 (1 + swap64 ?seq),
      outbuf := a @ [type] @ [3, 3] @ len16 (n + 24) @ le_bytes 8 ?seq @ c @ tag @ M5,
      sent := sent tls @ [gcm_wire ?seq type c tag]\<rparr>"
  have "xwrite_encrypted_aesgcm tls n type = Some (Going tls')"
  proof -
    have w1: "wr_n (outbuf tls) 11 [type] = Some (a @ [type] @ h @ q @ data @ old @ M5)"
      unfolding out using lens by (intro wr_n_mid) simp_all
    have w2: "wr_n (a @ [type] @ h @ q @ data @ old @ M5) 16 (le_bytes 8 ?seq) = Some (a @ [type] @ h @ le_bytes 8 ?seq @ data @ old @ M5)"
      using lens wr_n_mid [of "a @ [type] @ h" 16 q "le_bytes 8 ?seq" "data @ old @ M5"] by simp
    have w3: "wr_n (a @ [type] @ h @ le_bytes 8 ?seq @ c @ old @ M5) (24 + n) tag = Some (a @ [type] @ h @ le_bytes 8 ?seq @ c @ tag @ M5)"
      using lens c old tag(2) wr_n_mid [of "a @ [type] @ h @ le_bytes 8 ?seq @ c" "24 + n" old tag M5] by simp
    have w4: "wr_n (a @ [type] @ h @ le_bytes 8 ?seq @ c @ tag @ M5) 12 ([3, 3] @ len16 (n + 24))
        = Some (a @ [type] @ [3, 3] @ len16 (n + 24) @ le_bytes 8 ?seq @ c @ tag @ M5)"
      using lens wr_n_mid [of "a @ [type]" 12 h "[3, 3] @ len16 (n + 24)" "le_bytes 8 ?seq @ c @ tag @ M5"] by simp
    have r: "rd_n (a @ [type] @ [3, 3] @ len16 (n + 24) @ le_bytes 8 ?seq @ c @ tag @ M5) 11 (n + 24 + 5) = Some (gcm_wire ?seq type c tag)"
      using lens c tag(2) rd_n_mid [of a 11 "gcm_wire ?seq type c tag" "n + 24 + 5" M5] by (simp add: gcm_wire_def)
    have drop24: "drop 24 (a @ [type] @ h @ le_bytes 8 ?seq @ c @ old @ M5) = c @ old @ M5" using lens by simp
    have nums: "24 - 8 - 5 = (11 :: nat)" "24 - 8 = (16 :: nat)" "11 + 1 = (12 :: nat)" "8 + 16 = (24 :: nat)" by simp_all
    show ?thesis
      unfolding xwrite_encrypted_aesgcm_def Let_def OUTBUF_PFX_def RECHDR_LEN_def AES_BLOCK_SIZE_def gcm_aad_code nums
      by (simp add: w1 [simplified] assms(3) w2 [simplified] nonce_def [symmetric] loop [simplified] s(1) e(2) tag(1) w3 [simplified] w4 [simplified] r [simplified] drop24 [simplified] TLS_MAJ_def TLS_MIN_def
          tls'_def xwrite_def)
  qed
  then show ?thesis using is_tag out lens old c tag assms(5)
    by (intro exI [of _ tls'] exI [of _ tag]) (simp add: tls'_def)
qed

text \<open>CBC: content, MAC and padding, encrypted behind a random vector.\<close>

definition pad_size :: "nat \<Rightarrow> nat" where "pad_size n = 16 - n mod 16"

lemma pad_size: "0 < pad_size n" "pad_size n \<le> 16" "16 dvd n + pad_size n"
proof -
  show "0 < pad_size n" "pad_size n \<le> 16" by (simp_all add: pad_size_def)
  have "n + pad_size n = 16 * (n div 16) + 16" using mult_div_mod_eq [of 16 n] mod_less_divisor [of 16 n] unfolding pad_size_def by linarith
  then show "16 dvd n + pad_size n" by simp
qed

definition cbc_plaintext :: "u8 list \<Rightarrow> u64 \<Rightarrow> u8 \<Rightarrow> u8 list \<Rightarrow> u8 list" where
  "cbc_plaintext mac_key seq type data =
     data @ hmac_sha256 mac_key (le_bytes 8 seq @ [type, 3, 3] @ len16 (length data) @ data)
       @ replicate (pad_size (length data)) (of_nat (pad_size (length data) - 1))"

definition cbc_wire :: "u8 \<Rightarrow> u8 list \<Rightarrow> u8 list \<Rightarrow> u8 list" where
  "cbc_wire type iv c = [type, 3, 3] @ len16 (length c + 16) @ iv @ c"

lemma cbc_plaintext_length: "length (cbc_plaintext mac_key seq type data) = length data + 32 + pad_size (length data)"
  by (simp add: cbc_plaintext_def)

lemma padding_byte: "NOT (of_nat n) AND 15 = (of_nat (pad_size n - 1) :: u8)"
proof -
  have "(15 :: u8) = mask 4" by (simp add: mask_eq_exp_minus_1)
  then have "unat (of_nat n AND 15 :: u8) = n mod 16"
    using unat_and_mask_mod [of "of_nat n :: u8" 4] by (simp add: unat_of_nat mod_mod_cancel)
  then have "of_nat n AND 15 = (of_nat (n mod 16) :: u8)" by (metis of_nat_unat ucast_id)
  moreover have "NOT (of_nat n) AND 15 = (of_nat n AND 15) XOR (15 :: u8)"
    by (rule bit_word_eqI) (auto simp: bit_and_iff bit_xor_iff bit_not_iff)
  moreover have "of_nat r XOR 15 = (of_nat (15 - r) :: u8)" if "r < 16" for r :: nat
  proof -
    have "r \<in> {0, 1, 2, 3, 4, 5, 6, 7, 8, 9, 10, 11, 12, 13, 14, 15}" using that by (simp only: insert_iff empty_iff) presburger
    then show ?thesis by auto
  qed
  ultimately show ?thesis by (simp add: pad_size_def)
qed

lemma pad_loop_pads:
  assumes "24 + sz + pad_size sz \<le> length mem"
  shows "pad_loop b sz mem = Some (sz + pad_size sz, take (24 + sz) mem @ replicate (pad_size sz) b @ drop (24 + sz + pad_size sz) mem)"
  using assms
proof (induction b sz mem rule: pad_loop.induct)
  case (1 b sz mem)
  let ?mem = "take (24 + sz) mem @ [b] @ drop (24 + Suc sz) mem"
  have pfx: "OUTBUF_PFX = 24" by (simp add: tls_sizes)
  have wr: "wr_n mem (24 + sz) [b] = Some ?mem" using "1.prems" pad_size(1) [of sz] by (simp add: wr_n_def)
  show ?case
  proof (cases "Suc sz mod 16 = 0")
    case True
    then have "pad_size sz = 1" by (simp add: pad_size_def mod_Suc split: if_splits)
    then show ?thesis using wr True by (subst pad_loop.simps) (simp add: pfx)
  next
    case False
    then have p: "pad_size sz = Suc (pad_size (Suc sz))"
      using mod_less_divisor [of 16 sz] by (simp add: pad_size_def mod_Suc split: if_splits)
    have "pad_loop b (Suc sz) ?mem = Some (Suc sz + pad_size (Suc sz), take (24 + Suc sz) ?mem
        @ replicate (pad_size (Suc sz)) b @ drop (24 + Suc sz + pad_size (Suc sz)) ?mem)"
      using "1.IH" [of ?mem] wr False "1.prems" p by (simp add: pfx)
    moreover have "take (24 + Suc sz) ?mem = take (24 + sz) mem @ [b]" using "1.prems" p by simp
    moreover have "drop (24 + Suc sz + pad_size (Suc sz)) ?mem = drop (24 + sz + pad_size sz) mem"
      using "1.prems" p by (simp add: ac_simps)
    ultimately show ?thesis using wr False p by (subst pad_loop.simps) (simp add: pfx)
  qed
qed

lemma xwrite_encrypted_cbc_wire:
  fixes type :: u8
  assumes "aes_ready (aes_encrypt tls) key" "rd_n (key_area tls) 0 32 = Some mac_key"
    and "rd_n (outbuf tls) 24 n = Some data" "24 + n + 48 \<le> length (outbuf tls)" "16 \<le> length (urandom tls)"
  defines "iv \<equiv> take 16 (urandom tls)"
  defines "text' \<equiv> cbc_plaintext mac_key (write_seq64_be tls) type data"
  shows "\<exists>tls' ps. xwrite_encrypted_and_hmac_signed tls n type = Some (Going tls')
    \<and> whole_blocks ps \<and> concat ps = text'
    \<and> sent tls' = sent tls @ [cbc_wire type iv (concat (cbc_encipher (aes_encipher key) iv ps))]
    \<and> tls' = tls\<lparr>write_seq64_be := swap64 (1 + swap64 (write_seq64_be tls)), urandom := drop 16 (urandom tls),
        outbuf := outbuf tls', sent := sent tls'\<rparr>
    \<and> length (outbuf tls') = length (outbuf tls)"
proof -
  let ?seq = "write_seq64_be tls" and ?p = "pad_size n"
  have n: "length data = n" using rd_n_length [OF assms(3)] .
  have "3 + 5 + 16 + n + (32 + ?p) \<le> length (outbuf tls)" using assms(4) pad_size(2) [of n] by linarith
  then obtain a h v d m r where out': "outbuf tls = a @ h @ v @ d @ m @ r" and lens: "length a = 3" "length h = 5"
    "length v = 16" "length d = n" "length m = 32 + ?p" by (rule five_parts)
  have "rd_n (a @ h @ v @ d @ m @ r) 24 n = Some d" using lens rd_n_mid [of "a @ h @ v" 24 d n "m @ r"] by simp
  then have d: "d = data" using assms(3) unfolding out' by simp
  have "32 \<le> length m" using lens(5) by simp
  then obtain m1 m2 where "m = m1 @ m2" "length m1 = 32" by (rule split_off) (rule that)
  then have m: "m = m1 @ m2" "length m1 = 32" "length m2 = ?p" using lens(5) by simp_all
  have out: "outbuf tls = a @ h @ v @ data @ m1 @ m2 @ r" using out' d m by simp
  have iv: "length iv = 16" using assms(5) by (simp add: iv_def)
  define hdr where "hdr = [type, 3, 3] @ len16 n"
  define mac where "mac = hmac_sha256 mac_key (le_bytes 8 ?seq @ hdr @ data)"
  define pad where "pad = replicate ?p (of_nat (?p - 1) :: u8)"
  have hm: "hmac blank_hmac mac_key [le_bytes 8 ?seq, hdr, data] = Some mac"
    using hmac_hmac_sha256 [of mac_key blank_hmac "[le_bytes 8 ?seq, hdr, data]"] rd_n_length [OF assms(2)] by (simp add: mac_def)
  have text': "text' = data @ mac @ pad" by (simp add: text'_def cbc_plaintext_def mac_def pad_def hdr_def n)
  have p32: "pad_size (n + 32) = ?p" using mod_mult_self1 [of n 2 16] by (simp add: pad_size_def)
  obtain ps where ps: "whole_blocks ps" "concat ps = text'" "length text' = 16 * length ps"
  proof -
    have "16 dvd length text'" using pad_size(3) [of "n + 32"] by (simp add: text'_def cbc_plaintext_length n p32 ac_simps)
    then obtain k where "length text' = 16 * k" by (rule dvdE)
    then show ?thesis using whole_blocks_exist [of text' k] that by metis
  qed
  have lt: "length text' = n + 32 + ?p" by (simp add: text'_def cbc_plaintext_length n)
  let ?cs = "cbc_encipher (aes_encipher key) iv ps"
  have cs: "whole_blocks ?cs" "length (concat ?cs) = length text'"
    using cbc_encipher_blocks [of "aes_encipher key" ps iv] aes_cipher_lengths(1) [OF assms(1)] ps iv whole_blocks_length by auto
  define tls' where "tls' = tls\<lparr>write_seq64_be := swap64 (1 + swap64 ?seq), urandom := drop 16 (urandom tls),
      outbuf := a @ ([type, 3, 3] @ len16 (n + 32 + ?p + 16)) @ iv @ concat ?cs @ r,
      sent := sent tls @ [cbc_wire type iv (concat ?cs)]\<rparr>"
  have "xwrite_encrypted_and_hmac_signed tls n type = Some (Going tls')"
  proof -
    have w1: "wr_n (outbuf tls) 3 hdr = Some (a @ hdr @ v @ data @ m1 @ m2 @ r)"
      unfolding out using lens by (intro wr_n_mid) (simp_all add: hdr_def)
    have r1: "rd_n (a @ hdr @ v @ data @ m1 @ m2 @ r) 3 5 = Some hdr" using lens by (intro rd_n_mid) (simp_all add: hdr_def)
    have r2: "rd_n (a @ hdr @ v @ data @ m1 @ m2 @ r) 24 n = Some data"
      using lens n rd_n_mid [of "a @ hdr @ v" 24 data n "m1 @ m2 @ r"] by (simp add: hdr_def)
    have w2: "wr_n (a @ hdr @ v @ data @ m1 @ m2 @ r) (24 + n) mac = Some (a @ hdr @ v @ data @ mac @ m2 @ r)"
      using lens n m wr_n_mid [of "a @ hdr @ v @ data" "24 + n" m1 mac "m2 @ r"] by (simp add: hdr_def mac_def)
    have w3: "wr_n (a @ hdr @ v @ data @ mac @ m2 @ r) 8 iv = Some (a @ hdr @ iv @ data @ mac @ m2 @ r)"
      using lens iv wr_n_mid [of "a @ hdr" 8 v iv "data @ mac @ m2 @ r"] by (simp add: hdr_def)
    have pl: "pad_loop (NOT (of_nat (n + 32)) AND 15) (n + 32) (a @ hdr @ iv @ data @ mac @ m2 @ r)
        = Some (n + 32 + ?p, a @ hdr @ iv @ text' @ r)"
    proof -
      have l: "length (a @ hdr @ iv @ data @ mac) = 24 + (n + 32)" "length m2 = pad_size (n + 32)"
        using lens iv n m by (simp_all add: hdr_def mac_def p32)
      have tk: "take (24 + (n + 32)) ((a @ hdr @ iv @ data @ mac) @ m2 @ r) = a @ hdr @ iv @ data @ mac"
        unfolding l(1) [symmetric] by simp
      have dp: "drop (24 + (n + 32) + pad_size (n + 32)) (((a @ hdr @ iv @ data @ mac) @ m2) @ r) = r"
        unfolding l(1) [symmetric] l(2) [symmetric] length_append [symmetric] by simp
      have "24 + (n + 32) + pad_size (n + 32) \<le> length ((a @ hdr @ iv @ data @ mac) @ m2 @ r)"
        unfolding l(1) [symmetric] l(2) [symmetric] by simp
      from pad_loop_pads [OF this] show ?thesis
        using tk dp unfolding padding_byte p32 text' pad_def by simp
    qed
    have ar: "rd_n (a @ hdr @ iv @ text' @ r) 8 16 = Some iv" "rd_n (a @ hdr @ iv @ text' @ r) 24 (16 * length ps) = Some (concat ps)"
      using lens iv rd_n_mid [of "a @ hdr" 8 iv 16 "text' @ r"] rd_n_mid [of "a @ hdr @ iv" 24 text' "16 * length ps" r] ps
      by (simp_all add: hdr_def)
    have l: "length (a @ hdr @ iv @ text') = 24 + 16 * length ps" using lens iv ps(3) by (simp add: hdr_def)
    have "drop (24 + 16 * length ps) ((a @ hdr @ iv @ text') @ r) = r" unfolding l [symmetric] by simp
    moreover have "take 24 (a @ hdr @ iv @ text' @ r) = a @ hdr @ iv" using lens iv by (simp add: hdr_def)
    ultimately have enc: "aes_cbc_encrypt (aes_encrypt tls) 8 24 (n + 32 + ?p) 24 (a @ hdr @ iv @ text' @ r) = Some (a @ hdr @ iv @ concat ?cs @ r)"
      using aes_cbc_encrypt_blocks [OF assms(1) ps(1) ar(1), of 24 24] ar(2) ps(3) lt by simp
    have w4: "wr_n (a @ hdr @ iv @ concat ?cs @ r) 6 (len16 (n + 32 + ?p + 16))
        = Some (a @ ([type, 3, 3] @ len16 (n + 32 + ?p + 16)) @ iv @ concat ?cs @ r)"
      using lens wr_n_mid [of "a @ [type, 3, 3]" 6 "len16 n" "len16 (n + 32 + ?p + 16)" "iv @ concat ?cs @ r"] by (simp add: hdr_def)
    have r3: "rd_n (a @ ([type, 3, 3] @ len16 (n + 32 + ?p + 16)) @ iv @ concat ?cs @ r) 3 (5 + (n + 32 + ?p + 16))
        = Some (cbc_wire type iv (concat ?cs))"
      using lens iv cs(2) lt rd_n_mid [of a 3 "cbc_wire type iv (concat ?cs)" "5 + (n + 32 + ?p + 16)" r]
      by (simp add: cbc_wire_def)
    have rnd: "tls_get_random (tls\<lparr>write_seq64_be := s\<rparr>) 16 = Going (iv, tls\<lparr>write_seq64_be := s, urandom := drop 16 (urandom tls)\<rparr>)" for s
      using assms(5) by (simp add: tls_get_random_def iv_def)
    show ?thesis
      unfolding xwrite_encrypted_and_hmac_signed_def Let_def tls_sizes TLS_MAJ_def TLS_MIN_def hdr_def [symmetric]
      by (simp add: w1 r1 r2 assms(2) hm w2 rnd w3 pl [simplified] enc [simplified] w4 [simplified] r3 [simplified] tls'_def xwrite_def
          del: append_assoc)
  qed
  then show ?thesis using out lens m iv cs(2) lt ps n
    by (intro exI [of _ tls'] exI [of _ ps]) (simp add: tls'_def)
qed


section \<open>Putting a record together\<close>

text \<open>A connection that delivers bytes, in pieces of any size.\<close>

definition input_ok :: "u8 list option list \<Rightarrow> bool" where
  "input_ok chunks \<longleftrightarrow> list_all (\<lambda>c. c \<noteq> None \<and> c \<noteq> Some []) chunks"

definition input_bytes :: "u8 list option list \<Rightarrow> u8 list" where
  "input_bytes chunks = concat (map the chunks)"

lemma safe_read_delivers:
  assumes "input_ok chunks" "input_bytes chunks \<noteq> []" "0 < rem"
  shows "\<exists>bs chunks'. safe_read rem chunks = (Inr bs, chunks') \<and> bs \<noteq> [] \<and> length bs \<le> rem \<and> input_ok chunks'
    \<and> input_bytes chunks = bs @ input_bytes chunks'"
proof (cases chunks)
  case Nil
  then show ?thesis using assms(2) by (simp add: input_bytes_def)
next
  case (Cons c chunks')
  then obtain bs where "c = Some bs" "bs \<noteq> []" using assms(1) by (auto simp: input_ok_def)
  then show ?thesis using Cons assms(1,3) by (auto simp: input_ok_def input_bytes_def)
qed

text \<open>A record at the start of a stream: its header announces \<open>l\<close> bytes, which the stream has.\<close>

definition starts_record :: "u8 list \<Rightarrow> nat \<Rightarrow> bool" where
  "starts_record s l \<longleftrightarrow> 5 + l \<le> length s \<and> l = 256 * unat (s ! 3) + unat (s ! 4) \<and> s ! 1 = TLS_MAJ \<and> s ! 2 = TLS_MIN
     \<and> 5 + l \<le> MAX_INBUF"

text \<open>What the loop keeps: the bytes got so far and those to come are the stream.\<close>

definition filling :: "tls_state \<Rightarrow> nat \<Rightarrow> u8 list \<Rightarrow> bool" where
  "filling tls tot s \<longleftrightarrow> input_ok (incoming tls) \<and> tot \<le> length (inbuf tls) \<and> length (inbuf tls) \<le> MAX_INBUF
     \<and> take tot (inbuf tls) @ input_bytes (incoming tls) = s"

lemma fill_target_known:
  assumes "filling tls tot s" "starts_record s l" "target = MAX_INBUF \<or> target = 5 + l"
  shows "\<exists>t. fill_target tls tot target = Some (Going t) \<and> (t = MAX_INBUF \<or> t = 5 + l) \<and> t \<le> MAX_INBUF
    \<and> (5 \<le> tot \<longrightarrow> t = 5 + l)"
proof (cases "RECHDR_LEN \<le> tot \<and> target = MAX_INBUF")
  case True
  have tot: "5 \<le> tot" "tot \<le> length (inbuf tls)" using True assms(1) by (simp_all add: RECHDR_LEN_def filling_def)
  have nth: "take 5 (inbuf tls) ! i = s ! i" if "i < 5" for i
    using assms(1) tot that by (auto simp: filling_def nth_append)
  show ?thesis
    using True tot assms(2) nth [of 1] nth [of 2] nth [of 3] nth [of 4]
    by (auto simp: fill_target_def rd_n_def RECHDR_LEN_def starts_record_def)
next
  case False
  then show ?thesis using assms(2,3) by (auto simp: fill_target_def RECHDR_LEN_def starts_record_def)
qed

lemma grow_inbuf_room:
  assumes "tot \<le> length (inbuf tls)" "length (inbuf tls) \<le> MAX_INBUF" "tot < MAX_INBUF"
  shows "tot < length (inbuf (grow_inbuf tls tot))" "length (inbuf (grow_inbuf tls tot)) \<le> MAX_INBUF"
    "take tot (inbuf (grow_inbuf tls tot)) = take tot (inbuf tls)"
    "grow_inbuf tls tot = tls\<lparr>inbuf := inbuf (grow_inbuf tls tot)\<rparr>"
  using assms by (auto simp: grow_inbuf_def Let_def MAX_INBUF_def RECHDR_LEN_def)

lemma fill_inbuf_fills:
  assumes "filling tls tot s" "starts_record s l" "target = MAX_INBUF \<or> target = 5 + l"
  shows "\<exists>tls' tot'. fill_inbuf tls tot target = Some (Filled tot' (5 + l), tls') \<and> 5 + l \<le> tot' \<and> filling tls' tot' s
    \<and> tls' = tls\<lparr>inbuf := inbuf tls', incoming := incoming tls'\<rparr>"
  using assms(1,3)
proof (induction "input_left (incoming tls)" arbitrary: tls tot target rule: less_induct)
  case less
  obtain t where t: "fill_target tls tot target = Some (Going t)" "t = MAX_INBUF \<or> t = 5 + l" "t \<le> MAX_INBUF"
    "5 \<le> tot \<longrightarrow> t = 5 + l"
    using fill_target_known [OF less.prems(1) assms(2) less.prems(2)] by blast
  note f = less.prems(1) [unfolded filling_def]
  show ?case
  proof (cases "t \<le> tot")
    case True
    have "5 + l \<le> MAX_INBUF" using assms(2) by (simp add: starts_record_def)
    then have "5 \<le> tot" using True t(2) by auto
    then have "t = 5 + l" using t(4) by simp
    then show ?thesis using True t(1) less.prems(1) by (subst fill_inbuf.simps) (auto intro!: exI [of _ tls])
  next
    case False
    define g where "g = grow_inbuf tls tot"
    have "tot < MAX_INBUF" using False t(3) by simp
    then have g: "tot < length (inbuf g)" "length (inbuf g) \<le> MAX_INBUF" "take tot (inbuf g) = take tot (inbuf tls)"
      "g = tls\<lparr>inbuf := inbuf g\<rparr>" using grow_inbuf_room [of tot tls] f by (simp_all add: g_def)
    have inc: "incoming g = incoming tls" by (simp add: g_def)
    have "length (take tot (inbuf tls)) < length s"
    proof -
      have "5 + l \<le> length s" using assms(2) by (simp add: starts_record_def)
      moreover have "tot < 5 + l" using False t(2,4) by (cases "5 \<le> tot") auto
      ultimately show ?thesis by simp
    qed
    then have "input_bytes (incoming tls) \<noteq> []" using f by auto
    then obtain bs chunks where read: "safe_read (length (inbuf g) - tot) (incoming tls) = (Inr bs, chunks)" "bs \<noteq> []"
      "length bs \<le> length (inbuf g) - tot" "input_ok chunks" "input_bytes (incoming tls) = bs @ input_bytes chunks"
      using safe_read_delivers [of "incoming tls" "length (inbuf g) - tot"] f g(1) by auto
    define mem where "mem = take tot (inbuf g) @ bs @ drop (tot + length bs) (inbuf g)"
    have mem: "wr_n (inbuf g) tot bs = Some mem" using read(3) g(1) by (simp add: wr_n_def mem_def)
    define h where "h = g\<lparr>incoming := chunks, inbuf := mem\<rparr>"
    have step: "fill_inbuf tls tot target = fill_inbuf h (tot + length bs) t"
      using t(1) False read(1,2) mem
      by (subst fill_inbuf.simps) (simp add: g_def [symmetric] inc h_def Let_def)
    have "filling h (tot + length bs) s"
      using f g read(3,4,5) by (auto simp: filling_def h_def mem_def)
    then have "\<exists>tls' tot'. fill_inbuf h (tot + length bs) t = Some (Filled tot' (5 + l), tls') \<and> 5 + l \<le> tot' \<and> filling tls' tot' s
        \<and> tls' = h\<lparr>inbuf := inbuf tls', incoming := incoming tls'\<rparr>"
      using safe_read_takes [OF read(1,2)] t(2) by (intro less.hyps) (simp_all add: h_def)
    then obtain tls' tot' where r: "fill_inbuf h (tot + length bs) t = Some (Filled tot' (5 + l), tls')" "5 + l \<le> tot'"
      "filling tls' tot' s" "tls' = h\<lparr>inbuf := inbuf tls', incoming := incoming tls'\<rparr>" by blast
    have "h\<lparr>inbuf := inbuf tls', incoming := incoming tls'\<rparr> = tls\<lparr>inbuf := inbuf tls', incoming := incoming tls'\<rparr>"
      unfolding h_def by (subst g(4)) simp
    then show ?thesis using r step by metis
  qed
qed

section \<open>Reading a record\<close>

text \<open>The reader between two records: what is left of the stream, in the buffer and to come.\<close>

definition reader_ok :: "tls_state \<Rightarrow> bool" where
  "reader_ok tls \<longleftrightarrow> input_ok (incoming tls) \<and> length (inbuf tls) \<le> MAX_INBUF
     \<and> ofs_to_buffered tls + buffered_size tls \<le> length (inbuf tls)"

definition unread :: "tls_state \<Rightarrow> u8 list" where
  "unread tls = take (buffered_size tls) (drop (ofs_to_buffered tls) (inbuf tls)) @ input_bytes (incoming tls)"

text \<open>What \<^verbatim>\<open>tls_xread_record\<close> does with a whole record of \<open>l\<close> bytes in the buffer.\<close>

definition record_read :: "tls_state \<Rightarrow> nat \<Rightarrow> (nat ended option \<times> tls_state) option" where
  "record_read tls l = do {
     r \<leftarrow> decrypt_record tls l;
     (case r of
        Died e \<Rightarrow> Some (Some (Died e), tls)
      | Going (sz, tls) \<Rightarrow>
          if sz < 0 then Some (Some (Died ''encrypted data too short''), tls)
          else handle_record tls (nat sz))
   }"

lemma xread_once_record:
  assumes "reader_ok tls" "starts_record (unread tls) l"
  shows "\<exists>tls'. xread_once tls = record_read tls' l \<and> reader_ok tls' \<and> unread tls' = drop (5 + l) (unread tls)
    \<and> take (5 + l) (inbuf tls') = take (5 + l) (unread tls) \<and> ofs_to_buffered tls' = 5 + l
    \<and> tls' = tls\<lparr>inbuf := inbuf tls', incoming := incoming tls', buffered_size := buffered_size tls',
        ofs_to_buffered := ofs_to_buffered tls'\<rparr>"
proof -
  let ?b = "take (buffered_size tls) (drop (ofs_to_buffered tls) (inbuf tls))"
  define mem where "mem = ?b @ drop (buffered_size tls) (inbuf tls)"
  have ok: "input_ok (incoming tls)" "length (inbuf tls) \<le> MAX_INBUF"
    "ofs_to_buffered tls + buffered_size tls \<le> length (inbuf tls)" using assms(1) by (simp_all add: reader_ok_def)
  have b: "length ?b = buffered_size tls" "buffered_size tls \<le> length (inbuf tls)" using ok(3) by auto
  have moved: "(if buffered_size tls \<noteq> 0 then do {
          bs \<leftarrow> rd_n (inbuf tls) (ofs_to_buffered tls) (buffered_size tls);
          mem \<leftarrow> wr_n (inbuf tls) 0 bs;
          Some (tls\<lparr>inbuf := mem\<rparr>)
        } else Some tls) = Some (tls\<lparr>inbuf := mem\<rparr>)"
  proof -
    have "rd_n (inbuf tls) (ofs_to_buffered tls) (buffered_size tls) = Some ?b" using ok(3) by (simp add: rd_n_def)
    moreover have "wr_n (inbuf tls) 0 ?b = Some mem" using b by (simp add: wr_n_def mem_def del: length_take)
    moreover have "mem = inbuf tls" if "buffered_size tls = 0" using that by (simp add: mem_def)
    ultimately show ?thesis by simp
  qed
  have "filling (tls\<lparr>inbuf := mem\<rparr>) (buffered_size tls) (unread tls)"
    using ok b by (simp add: filling_def mem_def unread_def del: length_take)
  then obtain tls1 tot where fill: "fill_inbuf (tls\<lparr>inbuf := mem\<rparr>) (buffered_size tls) MAX_INBUF = Some (Filled tot (5 + l), tls1)"
    "5 + l \<le> tot" "filling tls1 tot (unread tls)" "tls1 = tls\<lparr>inbuf := inbuf tls1, incoming := incoming tls1\<rparr>"
    using fill_inbuf_fills [OF _ assms(2), of "tls\<lparr>inbuf := mem\<rparr>" "buffered_size tls" MAX_INBUF] by force
  define tls' where "tls' = tls1\<lparr>buffered_size := tot - (5 + l), ofs_to_buffered := 5 + l\<rparr>"
  have f: "tot \<le> length (inbuf tls1)" "take tot (inbuf tls1) @ input_bytes (incoming tls1) = unread tls"
    using fill(3) by (simp_all add: filling_def)
  have u: "drop (5 + l) (unread tls) = drop (5 + l) (take tot (inbuf tls1)) @ input_bytes (incoming tls1)"
    "take (5 + l) (unread tls) = take (5 + l) (inbuf tls1)"
    using f(1) fill(2) unfolding f(2) [symmetric] by (simp_all add: min_def)
  have "unread tls' = drop (5 + l) (unread tls)" unfolding u by (simp add: unread_def tls'_def drop_take)
  moreover have "take (5 + l) (inbuf tls') = take (5 + l) (unread tls)" unfolding u by (simp add: tls'_def)
  moreover have "reader_ok tls'" using fill(2,3) by (simp add: reader_ok_def tls'_def filling_def)
  moreover have "xread_once tls = record_read tls' l"
    unfolding xread_once_def Let_def moved
    by (simp add: fill(1) tls'_def record_read_def RECHDR_LEN_def cong: ended.case_cong)
  moreover have "tls' = tls\<lparr>inbuf := inbuf tls', incoming := incoming tls', buffered_size := buffered_size tls',
      ofs_to_buffered := ofs_to_buffered tls'\<rparr>"
    unfolding tls'_def by (subst fill(4)) simp
  moreover have "ofs_to_buffered tls' = 5 + l" by (simp add: tls'_def)
  ultimately show ?thesis by blast
qed

text \<open>
  \<open>delivers tls type data rest\<close>: the next call of \<^verbatim>\<open>tls_xread_record\<close> returns the size of \<open>data\<close>
  and leaves it behind a header of that type; \<open>rest\<close> stays to be read.
\<close>

definition delivered :: "tls_state \<Rightarrow> u8 \<Rightarrow> u8 list \<Rightarrow> u8 list \<Rightarrow> bool" where
  "delivered tls type data rest \<longleftrightarrow> rd (inbuf tls) 0 = Some type \<and> rd_n (inbuf tls) 5 (length data) = Some data
     \<and> reader_ok tls \<and> unread tls = rest"

text \<open>Two states with the same keys and parameters.\<close>

definition same_keys :: "tls_state \<Rightarrow> tls_state \<Rightarrow> bool" where
  "same_keys tls tls' \<longleftrightarrow> tls' = tls\<lparr>inbuf := inbuf tls', incoming := incoming tls', buffered_size := buffered_size tls',
     ofs_to_buffered := ofs_to_buffered tls', hsd := hsd tls'\<rparr>"

text \<open>A record that is neither an alert nor a stray handshake message.\<close>

definition passes_on :: "tls_state \<Rightarrow> u8 \<Rightarrow> bool" where
  "passes_on tls type \<longleftrightarrow> type \<noteq> 21 \<and> (type = 22 \<longrightarrow> hsd tls \<noteq> None)"

lemma record_delivered:
  assumes "decrypt_record tls l = Some (Going (int (length data), tls\<lparr>inbuf := mem\<rparr>))"
    and "mem = [type] @ h @ data @ r" "length h = 4" "length mem = length (inbuf tls)" "drop (5 + l) mem = drop (5 + l) (inbuf tls)"
    and "reader_ok tls" "ofs_to_buffered tls = 5 + l" "passes_on tls type"
  shows "\<exists>tls'. record_read tls l = Some (Some (Going (length data)), tls') \<and> delivered tls' type data (unread tls)
    \<and> same_keys tls tls' \<and> (type \<noteq> 22 \<longrightarrow> hsd tls' = hsd tls)"
proof -
  let ?tls = "tls\<lparr>inbuf := mem\<rparr>"
  have rd: "rd mem 0 = Some type" using assms(2) by (simp add: rd_def)
  have data: "rd_n mem 5 (length data) = Some data" using rd_n_mid [of "[type] @ h" 5 data "length data" r] assms(2,3) by simp
  have "unread ?tls = unread tls" using assms(5,7) by (simp add: unread_def)
  moreover have "reader_ok ?tls" using assms(4,6) by (simp add: reader_ok_def)
  ultimately have d: "delivered (?tls\<lparr>hsd := x\<rparr>) type data (unread tls)" for x
    using rd data by (simp add: delivered_def reader_ok_def unread_def)
  have s: "same_keys tls (?tls\<lparr>hsd := x\<rparr>)" for x by (simp add: same_keys_def)
  show ?thesis
  proof (cases "type = 22")
    case True
    then obtain x where "hash_handshake ?tls data = Some (?tls\<lparr>hsd := x\<rparr>)"
      using assms(8) by (auto simp: passes_on_def hash_handshake_def)
    then have "record_read tls l = Some (Some (Going (length data)), ?tls\<lparr>hsd := x\<rparr>)"
      using assms(1) rd data True
      by (simp add: record_read_def handle_record_def RECHDR_LEN_def RECORD_TYPE_ALERT_def RECORD_TYPE_HANDSHAKE_def)
    then show ?thesis using d s True by blast
  next
    case False
    then have "record_read tls l = Some (Some (Going (length data)), ?tls\<lparr>hsd := hsd tls\<rparr>)"
      using assms(1,8) rd
      by (simp add: record_read_def handle_record_def RECORD_TYPE_ALERT_def RECORD_TYPE_HANDSHAKE_def passes_on_def)
    then show ?thesis using d s by fastforce
  qed
qed

lemma tls_xread_record_once: "xread_once tls = Some (Some r, tls') \<Longrightarrow> tls_xread_record tls = Some (r, tls')"
  by (subst tls_xread_record.simps) simp


lemma len16_starts_record:
  assumes "length b = n" "5 + n \<le> MAX_INBUF"
  shows "starts_record ([type, 3, 3] @ len16 n @ b @ rest) n"
proof -
  have n: "n < 2 ^ 16" using assms(2) by (simp add: tls_sizes)
  have ff: "(0xff :: u8) = -1" by simp
  have "len16 n = [of_nat (n div 256), of_nat n]" unfolding len16_def ff by simp
  then have "256 * unat (len16 n ! 0) + unat (len16 n ! 1) = n" using n by (simp add: unat_of_nat)
  then show ?thesis using assms by (simp add: starts_record_def TLS_MAJ_def TLS_MIN_def len16_def)
qed

lemma map2_xor_commute: "map2 (XOR) a b = map2 (XOR) b (a :: u8 list)"
  by (rule nth_equalityI) (simp_all add: xor.commute)

text \<open>What the reader needs to decrypt: the two modes with the keys of the peer.\<close>

definition gcm_reader :: "tls_state \<Rightarrow> u8 list \<Rightarrow> u8 list \<Rightarrow> bool" where
  "gcm_reader tls key iv \<longleftrightarrow> aes_ready (aes_decrypt tls) key \<and> rd_n (key_area tls) (server_write_IV tls) 4 = Some iv
     \<and> flags tls AND ENCRYPTION_AESGCM \<noteq> 0 \<and> min_encrypted_len_on_read tls = 8 + AES_BLOCK_SIZE"

definition cbc_reader :: "tls_state \<Rightarrow> u8 list \<Rightarrow> bool" where
  "cbc_reader tls key \<longleftrightarrow> aes_ready (aes_decrypt tls) key \<and> flags tls AND ENCRYPTION_AESGCM = 0
     \<and> min_encrypted_len_on_read tls = 3 * AES_BLOCK_SIZE"

lemma drop_overwritten: "length a = k \<Longrightarrow> k \<le> j \<Longrightarrow> drop j (a @ drop k m) = drop j m"
  by simp

lemma rd_here: "length a = i \<Longrightarrow> rd (a @ [b] @ r) i = Some b"
  by (auto simp: rd_def nth_append)

lemma same_keys_trans:
  assumes "same_keys a b" "same_keys b c"
  shows "same_keys a c"
  unfolding same_keys_def by (subst assms(2) [unfolded same_keys_def], subst assms(1) [unfolded same_keys_def]) simp

lemma same_keys_reader:
  assumes "same_keys tls tls'"
  shows "gcm_reader tls' key iv = gcm_reader tls key iv" "cbc_reader tls' key = cbc_reader tls key"
  by (subst assms [unfolded same_keys_def], simp add: gcm_reader_def cbc_reader_def)+

text \<open>A whole record of \<open>l\<close> bytes at the front of the stream: it is in the buffer when it is decrypted.\<close>

lemma record_in_buffer:
  assumes "reader_ok tls" "unread tls = (([type, 3, 3] @ len16 l) @ body) @ rest" "length body = l" "5 + l \<le> MAX_INBUF"
  obtains tls' r where "xread_once tls = record_read tls' l" "reader_ok tls'" "unread tls' = rest" "ofs_to_buffered tls' = 5 + l"
    "inbuf tls' = (([type, 3, 3] @ len16 l) @ body) @ r" "same_keys tls tls'" "hsd tls' = hsd tls"
proof -
  let ?w = "([type, 3, 3] @ len16 l) @ body"
  have w: "length ?w = 5 + l" using assms(3) by simp
  have "starts_record (unread tls) l" using len16_starts_record [OF assms(3,4), of type rest] by (simp add: assms(2))
  then obtain tls' where t: "xread_once tls = record_read tls' l" "reader_ok tls'" "unread tls' = drop (5 + l) (unread tls)"
    "take (5 + l) (inbuf tls') = take (5 + l) (unread tls)" "ofs_to_buffered tls' = 5 + l"
    "tls' = tls\<lparr>inbuf := inbuf tls', incoming := incoming tls', buffered_size := buffered_size tls',
        ofs_to_buffered := ofs_to_buffered tls'\<rparr>"
    using xread_once_record [OF assms(1)] by blast
  have "unread tls' = rest" unfolding t(3) assms(2) w [symmetric] by simp
  moreover have "take (5 + l) (unread tls) = ?w" unfolding assms(2) w [symmetric] by simp
  then obtain r where "inbuf tls' = ?w @ r" using t(4) by (metis append_take_drop_id)
  moreover have "same_keys tls tls'" "hsd tls' = hsd tls" unfolding same_keys_def by (subst t(6), simp)+
  ultimately show ?thesis using that t(1,2,5) by blast
qed

lemma record_delivered_once:
  assumes "xread_once tls = record_read tls1 l" "reader_ok tls1" "unread tls1 = rest" "ofs_to_buffered tls1 = 5 + l"
    and "inbuf tls1 = (([type, 3, 3] @ len16 l) @ body) @ r" "length body = l" "same_keys tls tls1" "hsd tls1 = hsd tls"
    and "passes_on tls type" "n \<le> l" "length data \<le> length p" "take (length data) p = data" "length p = n"
    and "decrypt_record tls1 l
      = Some (Going (int (length data), tls1\<lparr>inbuf := (take 5 (inbuf tls1) @ p) @ drop (5 + n) (inbuf tls1)\<rparr>))"
  shows "\<exists>tls'. tls_xread_record tls = Some (Going (length data), tls') \<and> delivered tls' type data rest
    \<and> same_keys tls tls' \<and> (type \<noteq> 22 \<longrightarrow> hsd tls' = hsd tls)"
proof -
  let ?h = "[3, 3] @ len16 l"
  define mem where mem: "mem = (take 5 (inbuf tls1) @ p) @ drop (5 + n) (inbuf tls1)"
  have t5: "take 5 (inbuf tls1) = [type] @ ?h" unfolding assms(5) by simp
  have len: "5 + n \<le> length (inbuf tls1)" using assms(6,10) by (simp add: assms(5))
  have "length (take 5 (inbuf tls1) @ p) = 5 + n" using t5 assms(13) by simp
  then have "drop (5 + l) mem = drop (5 + l) (inbuf tls1)" unfolding mem using drop_overwritten assms(10) by (metis add_left_mono)
  moreover have "length mem = length (inbuf tls1)" using len t5 assms(13) by (simp add: mem)
  moreover have "mem = [type] @ ?h @ data @ drop (length data) p @ drop (5 + n) (inbuf tls1)"
    unfolding mem t5 using assms(12) by (metis append_assoc append_take_drop_id)
  moreover have "passes_on tls1 type" using assms(8,9) by (simp add: passes_on_def)
  ultimately obtain tls' where "record_read tls1 l = Some (Some (Going (length data)), tls')" "delivered tls' type data (unread tls1)"
    "same_keys tls1 tls'" "type \<noteq> 22 \<longrightarrow> hsd tls' = hsd tls1"
    using assms(2,4) record_delivered [OF assms(14) [folded mem], of type ?h "drop (length data) p @ drop (5 + n) (inbuf tls1)"] by auto
  then show ?thesis using assms(1,3,7,8) same_keys_trans [of tls tls1 tls'] by (auto intro!: exI [of _ tls'] tls_xread_record_once)
qed

lemma gcm_record_decrypted:
  assumes "gcm_reader tls key iv" "reader_ok tls"
    and "unread tls = gcm_wire seq type c tag @ rest" "length tag = 16" "length c + 29 \<le> MAX_INBUF"
  defines "p \<equiv> gcm_ciphertext key (iv @ le_bytes 8 seq) c"
  obtains tls1 body r where "xread_once tls = record_read tls1 (length c + 24)" "reader_ok tls1" "unread tls1 = rest"
    "ofs_to_buffered tls1 = 5 + (length c + 24)" "inbuf tls1 = (([type, 3, 3] @ len16 (length c + 24)) @ body) @ r"
    "length body = length c + 24" "same_keys tls tls1" "hsd tls1 = hsd tls" "length p = length c"
    "decrypt_record tls1 (length c + 24)
      = Some (Going (int (length p), tls1\<lparr>inbuf := (take 5 (inbuf tls1) @ p) @ drop (5 + length c) (inbuf tls1)\<rparr>))"
proof -
  let ?l = "length c + 24" and ?n = "le_bytes 8 seq" and ?p = p
  have "unread tls = (([type, 3, 3] @ len16 ?l) @ ?n @ c @ tag) @ rest" using assms(3) by (simp add: gcm_wire_def)
  then obtain tls1 r where t: "xread_once tls = record_read tls1 ?l" "reader_ok tls1" "unread tls1 = rest"
    "ofs_to_buffered tls1 = 5 + ?l" "inbuf tls1 = (([type, 3, 3] @ len16 ?l) @ ?n @ c @ tag) @ r" "same_keys tls tls1"
    "hsd tls1 = hsd tls"
    using record_in_buffer [OF assms(2), of type ?l "?n @ c @ tag" rest] assms(4,5) by auto
  note reader = assms(1) [folded same_keys_reader(1) [OF t(6)], unfolded gcm_reader_def]
  have "length iv = 4" using reader rd_n_length [of "key_area tls1" "server_write_IV tls1" 4 iv] by blast
  then have iv: "length (iv @ ?n) = 12" by simp
  have p: "length ?p = length c" "map2 (XOR) (gcm_stream key (iv @ ?n) 1 (length c)) c = ?p"
    using gcm_stream_length [of "aes_decrypt tls1" key, OF _ iv] reader by (simp_all add: p_def gcm_ciphertext_def map2_xor_commute)
  have five: "length ([type, 3, 3] @ len16 ?l) = 5" by simp
  have "rd_n (inbuf tls1) 5 8 = Some ?n" unfolding t(5) append_assoc using five by (intro rd_n_mid [of "_ @ _", simplified]) simp_all
  moreover have "take (length c) (drop (5 + 8) (inbuf tls1)) = c" "5 + 8 + length c \<le> length (inbuf tls1)"
    unfolding t(5) using five by simp_all
  ultimately have "tls_aesgcm_decrypt tls1 5 (length c) = Some ((take 5 (inbuf tls1) @ ?p) @ drop (5 + length c) (inbuf tls1))"
    using gcm_decrypt_loop_stream [OF _ iv, of "aes_decrypt tls1" key 5 "length c" "inbuf tls1" 1] reader p
    by (simp add: tls_aesgcm_decrypt_def)
  then have "decrypt_record tls1 ?l = Some (Going (int (length ?p), tls1\<lparr>inbuf := (take 5 (inbuf tls1) @ ?p) @ drop (5 + length c) (inbuf tls1)\<rparr>))"
    using reader by (simp add: decrypt_record_def AES_BLOCK_SIZE_def RECHDR_LEN_def p(1) Let_def)
  then show ?thesis using that [OF t(1-5) _ t(6,7) p(1)] assms(4) by simp
qed

lemma gcm_record_delivered:
  assumes "gcm_reader tls key iv" "passes_on tls type" "reader_ok tls"
    and "unread tls = gcm_wire seq type c tag @ rest" "length tag = 16" "length c + 29 \<le> MAX_INBUF"
  shows "\<exists>tls'. tls_xread_record tls = Some (Going (length c), tls')
    \<and> delivered tls' type (gcm_ciphertext key (iv @ le_bytes 8 seq) c) rest
    \<and> same_keys tls tls' \<and> (type \<noteq> 22 \<longrightarrow> hsd tls' = hsd tls)"
proof -
  obtain tls1 body r where t: "xread_once tls = record_read tls1 (length c + 24)" "reader_ok tls1" "unread tls1 = rest"
    "ofs_to_buffered tls1 = 5 + (length c + 24)" "inbuf tls1 = (([type, 3, 3] @ len16 (length c + 24)) @ body) @ r"
    "length body = length c + 24" "same_keys tls tls1" "hsd tls1 = hsd tls"
    and p: "length (gcm_ciphertext key (iv @ le_bytes 8 seq) c) = length c"
    and dec: "decrypt_record tls1 (length c + 24) = Some (Going (int (length (gcm_ciphertext key (iv @ le_bytes 8 seq) c)),
      tls1\<lparr>inbuf := (take 5 (inbuf tls1) @ gcm_ciphertext key (iv @ le_bytes 8 seq) c) @ drop (5 + length c) (inbuf tls1)\<rparr>))"
    by (rule gcm_record_decrypted [OF assms(1,3-6)])
  from record_delivered_once [OF t assms(2) _ _ _ p dec] show ?thesis by (simp add: p)
qed

lemma cbc_record_delivered:
  assumes "cbc_reader tls key" "passes_on tls type" "reader_ok tls" "unread tls = cbc_wire type iv (concat cs) @ rest"
    and "whole_blocks cs" "length iv = 16" "length (concat cs) + 21 \<le> MAX_INBUF"
    and "concat (cbc_decipher (aes_decipher key) iv cs) = data @ mac @ replicate (Suc pad) (of_nat pad)" "length mac = 32" "pad < 256"
  shows "\<exists>tls'. tls_xread_record tls = Some (Going (length data), tls') \<and> delivered tls' type data rest
    \<and> same_keys tls tls' \<and> (type \<noteq> 22 \<longrightarrow> hsd tls' = hsd tls)"
proof -
  let ?m = "16 * length cs" and ?p = "data @ mac @ replicate (Suc pad) (of_nat pad :: u8)"
  let ?l = "?m + 16"
  have m: "length (concat cs) = ?m" using whole_blocks_length assms(5) by blast
  have "unread tls = (([type, 3, 3] @ len16 ?l) @ iv @ concat cs) @ rest" using assms(4) m by (simp add: cbc_wire_def)
  then obtain tls1 r where t: "xread_once tls = record_read tls1 ?l" "reader_ok tls1" "unread tls1 = rest"
    "ofs_to_buffered tls1 = 5 + ?l" "inbuf tls1 = (([type, 3, 3] @ len16 ?l) @ iv @ concat cs) @ r" "same_keys tls tls1"
    "hsd tls1 = hsd tls"
    using record_in_buffer [OF assms(3), of type ?l "iv @ concat cs" rest] assms(6,7) m by auto
  note reader = assms(1) [folded same_keys_reader(2) [OF t(6)], unfolded cbc_reader_def]
  have p: "length ?p = ?m"
    using cbc_decipher_blocks [of "aes_decipher key" cs iv] aes_cipher_lengths(2) [of "aes_decrypt tls1" key] reader assms(5,6)
      whole_blocks_length unfolding assms(8) [symmetric] by metis
  have five: "length ([type, 3, 3] @ len16 ?l) = 5" by simp
  have ivs: "rd_n (inbuf tls1) 5 16 = Some iv" "rd_n (inbuf tls1) (5 + 16) ?m = Some (concat cs)"
    unfolding t(5) using five assms(6) m by (simp_all add: rd_n_def)
  let ?mem = "(take 5 (inbuf tls1) @ ?p) @ drop (5 + ?m) (inbuf tls1)"
  have dec: "aes_cbc_decrypt (aes_decrypt tls1) 5 (5 + 16) ?m 5 (inbuf tls1) = Some ?mem"
    using aes_cbc_decrypt_blocks [OF _ assms(5) ivs(1) _ ivs(2), of "aes_decrypt tls1" key 5, unfolded assms(8)] reader
    by (simp del: replicate.simps)
  have pm: "32 + Suc pad + length data = ?m" using p assms(9) by simp
  have "unat (of_nat pad :: u8) = pad" using assms(10) by (simp add: unat_of_nat)
  then have ints: "uint (of_nat pad :: u8) = int pad" "16 * int (length cs) = 33 + int pad + int (length data)"
    using pm by (metis uint_nat, linarith)
  have "rd ?mem (5 + ?m - 1) = Some (of_nat pad)"
  proof -
    have "?mem = (take 5 (inbuf tls1) @ data @ mac @ replicate pad (of_nat pad)) @ [of_nat pad] @ drop (5 + ?m) (inbuf tls1)"
      by (simp add: replicate_append_same)
    moreover have "length (take 5 (inbuf tls1) @ data @ mac @ replicate pad (of_nat pad :: u8)) = 5 + ?m - 1"
      using pm assms(9) by (simp add: t(5))
    ultimately show ?thesis by (metis rd_here)
  qed
  then have "decrypt_record tls1 ?l = Some (Going (int (length data), tls1\<lparr>inbuf := ?mem\<rparr>))"
    using reader dec pm assms(10) ints
    by (simp add: decrypt_record_def AES_BLOCK_SIZE_def RECHDR_LEN_def TLS_MAC_SIZE_def SHA256_OUTSIZE_def unat_of_nat)
  from record_delivered_once [OF t(1-5) _ t(6,7) assms(2) _ _ _ p this] show ?thesis
    using assms(6) m by simp
qed

lemma rd_n_prefix: "rd_n m i (n + k) = Some (a @ b) \<Longrightarrow> length a = n \<Longrightarrow> rd_n m i n = Some a"
  by (auto simp: rd_n_def split: if_splits) (metis append_eq_conv_conj min.absorb1 nat_le_iff_add take_take)

lemma gcm_ciphertext_involutive:
  assumes "aes_ready aes key" "length nonce = 12"
  shows "length (gcm_ciphertext key nonce data) = length data" "gcm_ciphertext key nonce (gcm_ciphertext key nonce data) = data"
  using gcm_stream_length [OF assms, of 1] by (auto simp: gcm_ciphertext_def xor.assoc intro!: nth_equalityI)

section \<open>Properties\<close>

text \<open>
  C16: \<^verbatim>\<open>xwrite_encrypted_aesgcm\<close> writes the record of TLS 1.2 and SP 800-38D: for any message up to the
  outbuf bound and any key it never leaves the buffer, and sends one piece: header, the sequence
  number as explicit nonce, the counter-mode ciphertext and an authentication tag of the
  nonce, the associated data and the ciphertext. The sequence number goes up by one, as big-endian.
\<close>

theorem gcm_record_is_sp800_38d:
  fixes type :: u8
  assumes "aes_ready (aes_encrypt tls) key" "length (aes_H tls) = 16" "rd_n (key_area tls) (client_write_IV tls) 4 = Some iv"
    and "rd_n (outbuf tls) OUTBUF_PFX (length data + 16) = Some (data @ old)" "length data \<le> TLS_MAX_OUTBUF"
  shows "\<exists>tls' tag. xwrite_encrypted_aesgcm tls (length data) type = Some (Going tls')
    \<and> sent tls' = sent tls @ [gcm_wire (write_seq64_be tls) type (gcm_ciphertext key (iv @ le_bytes 8 (write_seq64_be tls)) data) tag]
    \<and> gcm_tag key (aes_H tls) (iv @ le_bytes 8 (write_seq64_be tls)) (gcm_aad (write_seq64_be tls) type (length data))
        (gcm_ciphertext key (iv @ le_bytes 8 (write_seq64_be tls)) data) tag
    \<and> swap64 (write_seq64_be tls') = swap64 (write_seq64_be tls) + 1"
proof -
  have pfx: "OUTBUF_PFX = 24" by (simp add: tls_sizes)
  have "8 * length data < 2 ^ 32" using assms(5) by (simp add: tls_sizes)
  from xwrite_encrypted_aesgcm_wire [OF assms(1-3) assms(4) [unfolded pfx] refl this] obtain tls' tag where
    t: "xwrite_encrypted_aesgcm tls (length data) type = Some (Going tls')"
    "sent tls' = sent tls @ [gcm_wire (write_seq64_be tls) type (gcm_ciphertext key (iv @ le_bytes 8 (write_seq64_be tls)) data) tag]"
    "gcm_tag key (aes_H tls) (iv @ le_bytes 8 (write_seq64_be tls)) (gcm_aad (write_seq64_be tls) type (length data))
        (gcm_ciphertext key (iv @ le_bytes 8 (write_seq64_be tls)) data) tag"
    "tls' = tls\<lparr>write_seq64_be := swap64 (1 + swap64 (write_seq64_be tls)), outbuf := outbuf tls', sent := sent tls'\<rparr>" by blast
  have "write_seq64_be tls' = swap64 (1 + swap64 (write_seq64_be tls))" by (subst t(4)) simp
  then show ?thesis using t(1-3) by (intro exI [of _ tls'] exI [of _ tag]) simp
qed

text \<open>
  C5: a record that \<^verbatim>\<open>xwrite_encrypted\<close> sends with AES-GCM is the record that \<^verbatim>\<open>tls_xread_record\<close> of the
  peer returns: its size, type and content, however the network cuts the stream; what follows
  stays to be read.
\<close>

theorem tls_gcm_record_roundtrip:
  fixes type :: u8
  assumes "aes_ready (aes_encrypt w) key" "length (aes_H w) = 16" "rd_n (key_area w) (client_write_IV w) 4 = Some iv"
    and "flags w AND ENCRYPTION_AESGCM \<noteq> 0" "rd_n (outbuf w) OUTBUF_PFX (length data + 16) = Some (data @ old)"
    and "length data \<le> TLS_MAX_OUTBUF" "gcm_reader r key iv" "passes_on r type" "reader_ok r"
    and "xwrite_encrypted w (length data) type = Some (Going w')"
    and "unread r = concat (drop (length (sent w)) (sent w')) @ rest"
  shows "\<exists>r'. tls_xread_record r = Some (Going (length data), r') \<and> delivered r' type data rest \<and> same_keys r r'"
proof -
  let ?n = "iv @ le_bytes 8 (write_seq64_be w)"
  let ?c = "gcm_ciphertext key ?n data"
  have pfx: "OUTBUF_PFX = 24" by (simp add: tls_sizes)
  have "8 * length data < 2 ^ 32" using assms(6) by (simp add: tls_sizes)
  from xwrite_encrypted_aesgcm_wire [OF assms(1-3) assms(5) [unfolded pfx] refl this, of type]
  obtain tag where wire: "unread r = gcm_wire (write_seq64_be w) type ?c tag @ rest" "length tag = 16"
    using assms(4,10,11) by (auto simp: xwrite_encrypted_def gcm_tag_def)
  have iv: "length ?n = 12" using rd_n_length [OF assms(3)] by simp
  have c: "length ?c = length data" "gcm_ciphertext key ?n ?c = data"
    using gcm_ciphertext_involutive [OF assms(1) iv] by auto
  have "length ?c + 29 \<le> MAX_INBUF" using assms(6) c by (simp add: tls_sizes)
  then show ?thesis using gcm_record_delivered [OF assms(7-9) wire] c by auto
qed

text \<open>
  C6: the same for AES-CBC with HMAC-SHA256: content, MAC and padding are encrypted behind a random
  vector, and the reader of the peer gets the content back.
\<close>

theorem tls_cbc_record_roundtrip:
  fixes type :: u8
  assumes "aes_ready (aes_encrypt w) key" "rd_n (key_area w) 0 32 = Some mac_key"
    and "flags w AND ENCRYPTION_AESGCM = 0" "rd_n (outbuf w) OUTBUF_PFX (length data + OUTBUF_SFX) = Some (data @ old)"
    and "length data \<le> TLS_MAX_OUTBUF" "16 \<le> length (urandom w)" "cbc_reader r key" "passes_on r type" "reader_ok r"
    and "xwrite_encrypted w (length data) type = Some (Going w')"
    and "unread r = concat (drop (length (sent w)) (sent w')) @ rest"
  shows "\<exists>r'. tls_xread_record r = Some (Going (length data), r') \<and> delivered r' type data rest \<and> same_keys r r'"
proof -
  let ?n = "length data" and ?iv = "take 16 (urandom w)" and ?E = "aes_encipher key" and ?D = "aes_decipher key"
  have pfx: "OUTBUF_PFX = 24" "OUTBUF_SFX = 48" by (simp_all add: tls_sizes)
  have buf: "rd_n (outbuf w) 24 ?n = Some data" "24 + ?n + 48 \<le> length (outbuf w)"
    using assms(4) rd_n_prefix [of "outbuf w" 24 ?n 48 data old] unfolding pfx by (auto simp: rd_n_def split: if_splits)
  from xwrite_encrypted_cbc_wire [OF assms(1,2) buf assms(6), of type] obtain ps where ps: "whole_blocks ps"
    "concat ps = cbc_plaintext mac_key (write_seq64_be w) type data"
    and wire: "unread r = cbc_wire type ?iv (concat (cbc_encipher ?E ?iv ps)) @ rest"
    using assms(3,10,11) by (auto simp: xwrite_encrypted_def)
  have iv: "length ?iv = 16" using assms(6) by simp
  have E: "\<And>b. length b = 16 \<Longrightarrow> ?D (?E b) = b \<and> length (?E b) = 16"
    using aes_decipher_encipher [OF assms(1)] aes_cipher_lengths(1) [OF assms(1)] by simp
  define cs where "cs = cbc_encipher ?E ?iv ps"
  have cs: "whole_blocks cs" "length cs = length ps" "cbc_decipher ?D ?iv cs = ps"
    unfolding cs_def using E ps(1) iv by (auto intro!: cbc_encipher_blocks cbc_decipher_encipher)
  define pad where "pad = pad_size ?n - 1"
  have pad: "Suc pad = pad_size ?n" "pad < 256" using pad_size(1,2) [of ?n] by (simp_all add: pad_def)
  define mac where "mac = hmac_sha256 mac_key (le_bytes 8 (write_seq64_be w) @ [type, 3, 3] @ len16 ?n @ data)"
  have plain: "concat (cbc_decipher ?D ?iv cs) = data @ mac @ replicate (Suc pad) (of_nat pad)"
    unfolding cs(3) ps(2) cbc_plaintext_def pad(1) mac_def by (simp add: pad_def)
  have "length (concat cs) = length (concat ps)" using cs ps(1) by (simp add: whole_blocks_length)
  also have "\<dots> = ?n + 32 + pad_size ?n" by (simp add: ps(2) cbc_plaintext_length)
  finally have "length (concat cs) + 21 \<le> MAX_INBUF" using pad_size(2) [of ?n] assms(5) by (simp add: tls_sizes)
  from cbc_record_delivered [OF assms(7-9) wire [folded cs_def] cs(1) iv this plain _ pad(2)] show ?thesis
    by (auto simp: mac_def)
qed

text \<open>
  C27: the authentication tag of a record received is not looked at. The sixteen bytes behind the ciphertext
  can be any: the record is accepted and its content is the ciphertext through the key stream, so
  bits flipped on the way are bits flipped in the plaintext.
\<close>

theorem gcm_tag_is_not_checked:
  fixes type :: u8
  assumes "gcm_reader tls key iv" "passes_on tls type" "reader_ok tls"
    and "unread tls = gcm_wire seq type c tag @ rest" "length tag = 16" "length c + 29 \<le> MAX_INBUF"
  shows "\<exists>tls'. tls_xread_record tls = Some (Going (length c), tls')
    \<and> delivered tls' type (gcm_ciphertext key (iv @ le_bytes 8 seq) c) rest"
  using gcm_record_delivered [OF assms] by blast

text \<open>
  C28: once the handshake is over its data are freed, and a handshake record from the server (a request to
  renegotiate, say) makes \<^verbatim>\<open>tls_xread_record\<close> hash it through a null pointer.
\<close>

theorem late_handshake_record_faults:
  fixes tls :: tls_state
  assumes "gcm_reader tls key iv" "hsd tls = None" "reader_ok tls"
    and "unread tls = gcm_wire seq RECORD_TYPE_HANDSHAKE c tag @ rest" "length tag = 16" "length c + 29 \<le> MAX_INBUF"
  shows "tls_xread_record tls = None"
proof -
  obtain tls1 body r where t: "xread_once tls = record_read tls1 (length c + 24)" "reader_ok tls1" "unread tls1 = rest"
    "ofs_to_buffered tls1 = 5 + (length c + 24)"
    "inbuf tls1 = (([RECORD_TYPE_HANDSHAKE, 3, 3] @ len16 (length c + 24)) @ body) @ r"
    "length body = length c + 24" "same_keys tls tls1" "hsd tls1 = hsd tls"
    and p: "length (gcm_ciphertext key (iv @ le_bytes 8 seq) c) = length c"
    and dec: "decrypt_record tls1 (length c + 24) = Some (Going (int (length (gcm_ciphertext key (iv @ le_bytes 8 seq) c)),
      tls1\<lparr>inbuf := (take 5 (inbuf tls1) @ gcm_ciphertext key (iv @ le_bytes 8 seq) c) @ drop (5 + length c) (inbuf tls1)\<rparr>))"
    by (rule gcm_record_decrypted [OF assms(1,3-6)])
  have "rd ((take 5 (inbuf tls1) @ q) @ s) 0 = Some RECORD_TYPE_HANDSHAKE" for q s unfolding t(5) by (simp add: rd_def)
  then have "record_read tls1 (length c + 24) = None"
    using dec t(8) assms(2)
    by (simp add: record_read_def handle_record_def hash_handshake_def RECORD_TYPE_ALERT_def RECORD_TYPE_HANDSHAKE_def del: append_assoc)
  then show ?thesis by (subst tls_xread_record.simps) (simp add: t(1))
qed

section \<open>A sample\<close>

definition sample_key :: "u8 list" where "sample_key = replicate 16 7"

definition sample_aes :: tls_aes where
  "sample_aes = the (aes_setkey \<lparr>aes_key = replicate 60 0, aes_rounds = 0\<rparr> sample_key 16)"

lemma sample_aes_ready: "aes_ready sample_aes sample_key"
proof -
  have "aes_key_length (length sample_key)" "length sample_key = 16" by (simp_all add: aes_key_length_def sample_key_def)
  then show ?thesis
    using aes_setkey_ready [of sample_key "\<lparr>aes_key = replicate 60 0, aes_rounds = 0\<rparr>"] by (auto simp: sample_aes_def)
qed

definition sample_data :: "u8 list" where "sample_data = [1, 2, 3, 4, 5]"

definition sample_tls :: tls_state where
  "sample_tls =
     \<lparr>flags = ENCRYPTION_AESGCM, min_encrypted_len_on_read = 24, cipher_id = 0x9c, MAC_size = 0, key_size = 16, IV_size = 4,
      outbuf = replicate 24 0 @ sample_data @ replicate 48 0, ofs_to_buffered = 0, buffered_size = 0, inbuf = [], hsd = None,
      write_seq64_be = 0, client_write_key = 0, server_write_key = 16, client_write_IV = 32, server_write_IV = 32,
      key_area = replicate 136 9, aes_encrypt = sample_aes, aes_decrypt = sample_aes, aes_H = replicate 16 5, sent = [],
      incoming = [], urandom = replicate 16 3, junk = 0\<rparr>"

definition sample_cbc :: tls_state where
  "sample_cbc = sample_tls\<lparr>flags := 0, min_encrypted_len_on_read := 48\<rparr>"

lemma sample_tls_facts:
  "aes_ready (aes_encrypt sample_tls) sample_key" "length (aes_H sample_tls) = 16" "flags sample_tls AND ENCRYPTION_AESGCM \<noteq> 0"
  "rd_n (key_area sample_tls) (client_write_IV sample_tls) 4 = Some (replicate 4 9)" "hsd sample_tls = None"
  "rd_n (outbuf sample_tls) OUTBUF_PFX (length sample_data + 16) = Some (sample_data @ replicate 16 0)"
  "length sample_data \<le> TLS_MAX_OUTBUF" "gcm_reader sample_tls sample_key (replicate 4 9)" "sent sample_tls = []"
  using sample_aes_ready
  by (simp_all add: sample_tls_def sample_data_def gcm_reader_def ENCRYPTION_AESGCM_def tls_sizes rd_n_def)

lemma sample_cbc_facts:
  "aes_ready (aes_encrypt sample_cbc) sample_key" "rd_n (key_area sample_cbc) 0 32 = Some (replicate 32 9)"
  "flags sample_cbc AND ENCRYPTION_AESGCM = 0" "hsd sample_cbc = None" "sent sample_cbc = []"
  "rd_n (outbuf sample_cbc) OUTBUF_PFX (length sample_data + OUTBUF_SFX) = Some (sample_data @ replicate 48 0)"
  "16 \<le> length (urandom sample_cbc)" "cbc_reader sample_cbc sample_key"
  using sample_aes_ready
  by (simp_all add: sample_cbc_def sample_tls_def sample_data_def cbc_reader_def tls_sizes rd_n_def)

text \<open>A reader with the bytes in two pieces.\<close>

definition sample_reader :: "tls_state \<Rightarrow> u8 list \<Rightarrow> tls_state" where
  "sample_reader tls bs = tls\<lparr>incoming := [Some (take 3 bs), Some (drop 3 bs)]\<rparr>"

lemma sample_reader_facts:
  assumes "3 < length bs" "tls = sample_tls \<or> tls = sample_cbc"
  shows "reader_ok (sample_reader tls bs)" "unread (sample_reader tls bs) = bs" "hsd (sample_reader tls bs) = None"
    "gcm_reader (sample_reader tls bs) key iv = gcm_reader tls key iv" "cbc_reader (sample_reader tls bs) key = cbc_reader tls key"
    "passes_on (sample_reader tls bs) 23"
  using assms by (auto simp: sample_reader_def reader_ok_def unread_def input_ok_def input_bytes_def gcm_reader_def cbc_reader_def
      passes_on_def sample_tls_def sample_cbc_def)

theorem gcm_record_is_sp800_38d_witness:
  "\<exists>tls' tag. xwrite_encrypted_aesgcm sample_tls (length sample_data) 23 = Some (Going tls')
    \<and> sent tls' = sent sample_tls @ [gcm_wire (write_seq64_be sample_tls) 23
        (gcm_ciphertext sample_key (replicate 4 9 @ le_bytes 8 (write_seq64_be sample_tls)) sample_data) tag]"
  using gcm_record_is_sp800_38d [OF sample_tls_facts(1,2,4,6,7), of 23] by auto

theorem tls_gcm_record_roundtrip_witness:
  "\<exists>w' r'. xwrite_encrypted sample_tls (length sample_data) 23 = Some (Going w')
    \<and> tls_xread_record (sample_reader sample_tls (concat (sent w'))) = Some (Going (length sample_data), r')
    \<and> delivered r' 23 sample_data []"
proof -
  have pfx: "OUTBUF_PFX = 24" by (simp add: tls_sizes)
  have "8 * length sample_data < 2 ^ 32" by (simp add: sample_data_def)
  from xwrite_encrypted_aesgcm_wire [OF sample_tls_facts(1,2,4) sample_tls_facts(6) [unfolded pfx] refl this, of 23]
  obtain w' where w': "xwrite_encrypted sample_tls (length sample_data) 23 = Some (Going w')" "3 < length (concat (sent w'))"
    using sample_tls_facts(3,9) by (auto simp: xwrite_encrypted_def gcm_wire_def)
  note r = sample_reader_facts [OF w'(2), of sample_tls, simplified]
  have "unread (sample_reader sample_tls (concat (sent w'))) = concat (drop (length (sent sample_tls)) (sent w')) @ []"
    using r(2) sample_tls_facts(9) by simp
  from tls_gcm_record_roundtrip [OF sample_tls_facts(1,2,4,3,6,7) _ r(6,1) w'(1) this] show ?thesis
    using w'(1) sample_tls_facts(8) by (auto simp: r(4))
qed

theorem tls_cbc_record_roundtrip_witness:
  "\<exists>w' r'. xwrite_encrypted sample_cbc (length sample_data) 23 = Some (Going w')
    \<and> tls_xread_record (sample_reader sample_cbc (concat (sent w'))) = Some (Going (length sample_data), r')
    \<and> delivered r' 23 sample_data []"
proof -
  have buf: "rd_n (outbuf sample_cbc) 24 (length sample_data) = Some sample_data"
    "24 + length sample_data + 48 \<le> length (outbuf sample_cbc)"
    by (simp_all add: sample_cbc_def sample_tls_def sample_data_def rd_n_def)
  from xwrite_encrypted_cbc_wire [OF sample_cbc_facts(1,2) buf sample_cbc_facts(7), of 23]
  obtain w' where w': "xwrite_encrypted sample_cbc (length sample_data) 23 = Some (Going w')" "3 < length (concat (sent w'))"
    using sample_cbc_facts(3,5) by (auto simp: xwrite_encrypted_def cbc_wire_def)
  note r = sample_reader_facts [OF w'(2), of sample_cbc, simplified]
  have "unread (sample_reader sample_cbc (concat (sent w'))) = concat (drop (length (sent sample_cbc)) (sent w')) @ []"
    using r(2) sample_cbc_facts(5) by simp
  from tls_cbc_record_roundtrip [OF sample_cbc_facts(1,2,3,6) sample_tls_facts(7) sample_cbc_facts(7) _ r(6,1) w'(1) this] show ?thesis
    using w'(1) sample_cbc_facts(8) by (auto simp: r(5))
qed

theorem gcm_tag_is_not_checked_witness:
  "\<exists>r'. tls_xread_record (sample_reader sample_tls (gcm_wire 0 23 [1, 2, 3] (replicate 16 0xee))) = Some (Going 3, r')"
proof -
  let ?bs = "gcm_wire 0 23 [1, 2, 3] (replicate 16 0xee)"
  have "3 < length ?bs" by (simp add: gcm_wire_def)
  note r = sample_reader_facts [OF this, of sample_tls, simplified simp_thms]
  have "unread (sample_reader sample_tls ?bs) = ?bs @ []" using r(2) by simp
  from gcm_tag_is_not_checked [OF _ r(6,1) this] show ?thesis using sample_tls_facts(8) by (auto simp: r(4) tls_sizes numeral_3_eq_3)
qed

theorem late_handshake_record_faults_witness:
  "tls_xread_record (sample_reader sample_tls (gcm_wire 0 RECORD_TYPE_HANDSHAKE [0, 0, 0, 0] (replicate 16 0))) = None"
proof -
  let ?bs = "gcm_wire 0 RECORD_TYPE_HANDSHAKE [0, 0, 0, 0] (replicate 16 0)"
  have "3 < length ?bs" by (simp add: gcm_wire_def)
  note r = sample_reader_facts [OF this, of sample_tls, simplified simp_thms]
  have "unread (sample_reader sample_tls ?bs) = ?bs @ []" using r(2) by simp
  from late_handshake_record_faults [OF _ r(3,1) this] show ?thesis using sample_tls_facts(8) by (auto simp: r(4) tls_sizes)
qed

end
