(* ===== verification/TlsPstm.thy ===== *)
theory TlsPstm
  imports Prelude
begin

text \<open>
  \<^verbatim>\<open>networking/tls_pstm.c\<close> and \<^verbatim>\<open>networking/tls_pstm_montgomery_reduce.c\<close>: the numbers of the RSA
  code, as far as public-key encryption needs them. A \<^verbatim>\<open>pstm_int\<close> is its value, a natural number
  (all signs are positive here); its digits are those of base \<open>2 ^ 32\<close>, without leading zeros.
  Copying, comparing, adding, multiplying and dividing numbers are the operations of \<open>nat\<close>. What
  is modelled is what is built from them: modular exponentiation by a sliding window, with
  Montgomery's reduction. \<open>None\<close> is the end of the process with an error message.
\<close>

section \<open>The operations\<close>

abbreviation DIGIT_BIT :: nat where "DIGIT_BIT \<equiv> 32"

fun pstm_count_bits :: "nat \<Rightarrow> nat" where
  "pstm_count_bits a = (if a = 0 then 0 else Suc (pstm_count_bits (a div 2)))"

declare pstm_count_bits.simps [simp del]

definition pstm_used :: "nat \<Rightarrow> nat" where
  "pstm_used a = (pstm_count_bits a + 31) div DIGIT_BIT"

definition pstm_digit :: "nat \<Rightarrow> nat \<Rightarrow> u32" where
  "pstm_digit a i = of_nat (a div 2 ^ (DIGIT_BIT * i))"

definition PSTM_MAX_SIZE :: nat where "PSTM_MAX_SIZE = 4096"

text \<open>More bytes than fit lose the first of them.\<close>

definition pstm_read_unsigned_bin :: "u8 list \<Rightarrow> nat" where
  "pstm_read_unsigned_bin b = foldl (\<lambda>a x. 256 * a + unat x) 0 (drop (length b - PSTM_MAX_SIZE * 4) b)"

definition pstm_unsigned_bin_size :: "nat \<Rightarrow> nat" where
  "pstm_unsigned_bin_size a =
     (let size = pstm_count_bits a in size div 8 + (if size mod 8 \<noteq> 0 then 1 else 0))"

fun unsigned_bin_loop :: "nat \<Rightarrow> u8 list" where
  "unsigned_bin_loop t = (if t = 0 then [] else of_nat t # unsigned_bin_loop (t div 256))"

declare unsigned_bin_loop.simps [simp del]

definition pstm_to_unsigned_bin :: "nat \<Rightarrow> u8 list" where
  "pstm_to_unsigned_bin a = rev (unsigned_bin_loop a)"

text \<open>A carry out of the last digit there can be is lost.\<close>

definition pstm_mul_2 :: "nat \<Rightarrow> nat" where
  "pstm_mul_2 a =
     (let used = pstm_used a
      in if 2 ^ (DIGIT_BIT * used) \<le> 2 * a \<and> used = PSTM_MAX_SIZE - 1 then 2 * a mod 2 ^ (DIGIT_BIT * used) else 2 * a)"

definition pstm_montgomery_setup :: "nat \<Rightarrow> u32 option" where
  "pstm_montgomery_setup a =
     (let b = pstm_digit a 0
      in if b AND 1 = 0 then None
         else
           let x = push_bit 1 ((b + 2) AND 4) + b;
               x = x * (2 - b * x);
               x = x * (2 - b * x);
               x = x * (2 - b * x)
           in Some (- x))"

fun calc_normalization_loop :: "nat \<Rightarrow> nat \<Rightarrow> nat \<Rightarrow> nat" where
  "calc_normalization_loop b 0 a = a"
| "calc_normalization_loop b (Suc n) a =
     (let a = pstm_mul_2 a
      in calc_normalization_loop b n (if b \<le> a then a - b else a))"

definition pstm_montgomery_calc_normalization :: "nat \<Rightarrow> nat" where
  "pstm_montgomery_calc_normalization b =
     (let bits = pstm_count_bits b mod DIGIT_BIT;
          bits = (if bits = 0 then DIGIT_BIT else bits);
          (a, bits) = (if 1 < pstm_used b then (2 ^ ((pstm_used b - 1) * DIGIT_BIT + bits - 1), bits) else (1, 1))
      in calc_normalization_loop b (DIGIT_BIT - (bits - 1)) a)"

text \<open>One turn adds a multiple of the modulus that clears digit \<open>x\<close>; the digits above \<open>pa\<close> are copied out.\<close>

definition montgomery_turn :: "nat \<Rightarrow> u32 \<Rightarrow> nat \<Rightarrow> nat \<Rightarrow> nat" where
  "montgomery_turn m mp c x =
     (let mu = pstm_digit c x * mp
      in c + unat mu * m * 2 ^ (DIGIT_BIT * x))"

definition pstm_montgomery_reduce :: "nat \<Rightarrow> nat \<Rightarrow> u32 \<Rightarrow> nat" where
  "pstm_montgomery_reduce a m mp =
     (let pa = pstm_used m;
          c = foldl (montgomery_turn m mp) a [0..<pa];
          a = c div 2 ^ (DIGIT_BIT * pa) mod 2 ^ (DIGIT_BIT * (pa + 1))
      in if m \<le> a then a - m else a)"

fun sqr_reduce :: "nat \<Rightarrow> u32 \<Rightarrow> nat \<Rightarrow> nat \<Rightarrow> nat" where
  "sqr_reduce P mp 0 a = a"
| "sqr_reduce P mp (Suc n) a = sqr_reduce P mp n (pstm_montgomery_reduce (a * a) P mp)"

text \<open>The upper half of the table \<^verbatim>\<open>M\<close>, from \<^verbatim>\<open>M[1 << (winsize - 1)]\<close> on.\<close>

fun upper_table :: "nat \<Rightarrow> u32 \<Rightarrow> nat \<Rightarrow> nat \<Rightarrow> nat \<Rightarrow> nat list" where
  "upper_table P mp M1 0 a = []"
| "upper_table P mp M1 (Suc n) a = a # upper_table P mp M1 n (pstm_montgomery_reduce (a * M1) P mp)"

record exptmod_state =
  ex_mode :: nat
  ex_bitcpy :: nat
  ex_bitbuf :: nat
  ex_res :: nat

text \<open>One bit of the exponent. \<open>None\<close> is an entry of the table that was not computed.\<close>

definition exptmod_bit :: "nat \<Rightarrow> u32 \<Rightarrow> nat \<Rightarrow> nat list \<Rightarrow> exptmod_state \<Rightarrow> bool \<Rightarrow> exptmod_state option" where
  "exptmod_bit P mp winsize table s y =
     (if ex_mode s = 0 \<and> \<not> y then Some s
      else if ex_mode s = 1 \<and> \<not> y then Some (s\<lparr>ex_res := sqr_reduce P mp 1 (ex_res s)\<rparr>)
      else
        let s = s\<lparr>ex_bitcpy := ex_bitcpy s + 1\<rparr>;
            s = s\<lparr>ex_bitbuf := ex_bitbuf s OR push_bit (winsize - ex_bitcpy s) (of_bool y), ex_mode := 2\<rparr>
        in if ex_bitcpy s = winsize then
             if ex_bitbuf s < 2 ^ (winsize - 1) then None else do {
               m \<leftarrow> rd table (ex_bitbuf s - 2 ^ (winsize - 1));
               let r = sqr_reduce P mp winsize (ex_res s);
               Some (s\<lparr>ex_res := pstm_montgomery_reduce (r * m) P mp, ex_bitcpy := 0, ex_bitbuf := 0, ex_mode := 1\<rparr>)
             }
           else Some s)"

fun exptmod_loop :: "nat \<Rightarrow> u32 \<Rightarrow> nat \<Rightarrow> nat list \<Rightarrow> bool list \<Rightarrow> exptmod_state \<Rightarrow> exptmod_state option" where
  "exptmod_loop P mp winsize table [] s = Some s"
| "exptmod_loop P mp winsize table (y # ys) s = do {
     s \<leftarrow> exptmod_bit P mp winsize table s y;
     exptmod_loop P mp winsize table ys s
   }"

text \<open>The bits that remain in an unfilled window.\<close>

fun exptmod_tail :: "nat \<Rightarrow> u32 \<Rightarrow> nat \<Rightarrow> nat \<Rightarrow> nat \<Rightarrow> nat \<Rightarrow> nat \<Rightarrow> nat" where
  "exptmod_tail P mp winsize M1 0 bitbuf r = r"
| "exptmod_tail P mp winsize M1 (Suc n) bitbuf r =
     (let r = pstm_montgomery_reduce (r * r) P mp;
          bitbuf = push_bit 1 bitbuf;
          r = (if bitbuf AND push_bit winsize 1 \<noteq> 0 then pstm_montgomery_reduce (r * M1) P mp else r)
      in exptmod_tail P mp winsize M1 n bitbuf r)"

text \<open>The bits of the exponent, digit by digit from the last, each from its most significant bit.\<close>

definition exponent_bits :: "nat \<Rightarrow> bool list" where
  "exponent_bits X = concat (map (\<lambda>d. map (\<lambda>k. bit (pstm_digit X d) k) (rev [0..<DIGIT_BIT])) (rev [0..<pstm_used X]))"

definition pstm_exptmod :: "nat \<Rightarrow> nat \<Rightarrow> nat \<Rightarrow> nat option" where
  "pstm_exptmod G X P = do {
     let winsize = (if pstm_count_bits X < 50 then 2 else 3);
     mp \<leftarrow> pstm_montgomery_setup P;
     let r = pstm_montgomery_calc_normalization P;
     let M1 = (if P \<le> G then G mod P else G);
     let M1 = M1 * r mod P;
     let table = upper_table P mp M1 (2 ^ (winsize - 1)) (sqr_reduce P mp (winsize - 1) M1);
     s \<leftarrow> exptmod_loop P mp winsize table (exponent_bits X) \<lparr>ex_mode = 0, ex_bitcpy = 0, ex_bitbuf = 0, ex_res = r\<rparr>;
     let r = (if ex_mode s = 2 \<and> 0 < ex_bitcpy s then exptmod_tail P mp winsize M1 (ex_bitcpy s) (ex_bitbuf s) (ex_res s) else ex_res s);
     Some (pstm_montgomery_reduce r P mp)
   }"

section \<open>Digits\<close>

lemma pstm_count_bits_bounds: "a < 2 ^ pstm_count_bits a" "0 < a \<Longrightarrow> 0 < pstm_count_bits a \<and> 2 ^ (pstm_count_bits a - 1) \<le> a"
proof (induction a rule: pstm_count_bits.induct)
  case (1 a)
  show "a < 2 ^ pstm_count_bits a"
  proof (cases "a = 0")
    case False
    then have "a div 2 < 2 ^ pstm_count_bits (a div 2)" using 1 by blast
    then show ?thesis using False by (subst pstm_count_bits.simps) auto
  qed (simp add: pstm_count_bits.simps)
  show "0 < pstm_count_bits a \<and> 2 ^ (pstm_count_bits a - 1) \<le> a" if "0 < a"
  proof (cases "a = 1")
    case True
    then show ?thesis by (simp add: pstm_count_bits.simps)
  next
    case False
    then have h: "0 < a div 2" using that by simp
    then have "0 < pstm_count_bits (a div 2)" "2 ^ (pstm_count_bits (a div 2) - 1) \<le> a div 2" using 1 that by auto
    then obtain k where k: "pstm_count_bits (a div 2) = Suc k" "2 ^ k \<le> a div 2" by (metis Suc_pred' diff_Suc_1)
    have "2 ^ Suc k \<le> a" using k(2) by simp
    then show ?thesis using that k(1) by (subst (1 2) pstm_count_bits.simps) simp
  qed
qed

lemma pstm_count_bits_used: "0 < a \<Longrightarrow> pstm_count_bits a = 32 * (pstm_used a - 1) + (pstm_count_bits a - 32 * (pstm_used a - 1))
    \<and> pstm_count_bits a - 32 * (pstm_used a - 1) \<le> 32 \<and> 0 < pstm_used a \<and> 32 * (pstm_used a - 1) < pstm_count_bits a"
  using pstm_count_bits_bounds(2) [of a] unfolding pstm_used_def by auto

lemma pstm_used_bound: "a < 2 ^ (32 * pstm_used a)"
proof -
  have "pstm_count_bits a \<le> 32 * pstm_used a" unfolding pstm_used_def by linarith
  then have "(2 :: nat) ^ pstm_count_bits a \<le> 2 ^ (32 * pstm_used a)" by (rule power_increasing) simp
  then show ?thesis using pstm_count_bits_bounds(1) [of a] by linarith
qed

lemma pstm_count_bits_mono: "a \<le> b \<Longrightarrow> pstm_count_bits a \<le> pstm_count_bits b"
proof (rule ccontr)
  assume *: "a \<le> b" "\<not> pstm_count_bits a \<le> pstm_count_bits b"
  then have "0 < a" using pstm_count_bits.simps [of 0] by (cases "a = 0") auto
  then have "2 ^ (pstm_count_bits a - 1) \<le> a" using pstm_count_bits_bounds(2) by blast
  moreover have "(2 :: nat) ^ pstm_count_bits b \<le> 2 ^ (pstm_count_bits a - 1)" using * by (intro power_increasing) auto
  ultimately show False using pstm_count_bits_bounds(1) [of b] * by linarith
qed

lemma pstm_used_mono: "a \<le> b \<Longrightarrow> pstm_used a \<le> pstm_used b"
  using pstm_count_bits_mono [of a b] by (simp add: pstm_used_def div_le_mono)

section \<open>Montgomery reduction\<close>

lemma newton_step:
  fixes b x :: u32
  assumes "1 - b * x = e * t"
  shows "1 - b * (x * (2 - b * x)) = (e * e) * (t * t)"
proof -
  have "1 - b * (x * (2 - b * x)) = (1 - b * x) * (1 - b * x)" by (simp add: algebra_simps)
  then show ?thesis unfolding assms by (simp add: algebra_simps)
qed

lemma inverse_mod_16:
  fixes n :: nat
  assumes "odd n"
  shows "n * (8 * ((n + 2) div 4 mod 2) + n) mod 16 = 1"
proof -
  have "n mod 8 \<in> {1, 3, 5, 7}" using assms by (simp only: insert_iff empty_iff) presburger
  then obtain r a where r: "r \<in> {1, 3, 5, 7}" "n = 8 * a + r" by (metis mult_div_mod_eq)
  define q where "q = (r + 2) div 4 mod 2"
  have "(n + 2) div 4 = 2 * a + (r + 2) div 4" unfolding r(2) by linarith
  then have q: "(n + 2) div 4 mod 2 = q" by (simp add: q_def)
  have "n * (8 * q + n) = 16 * (4 * a * q + 4 * a * a + a * r) + (r * (8 * q) + r * r)" unfolding r(2) by (simp add: algebra_simps)
  then have "n * (8 * q + n) mod 16 = (r * (8 * q) + r * r) mod 16" by (simp only: mod_mult_self4)
  also have "\<dots> = 1" using r(1) by (auto simp: q_def)
  finally show ?thesis unfolding q .
qed

lemma and_4: "x AND 4 = 4 * (x div 4 mod 2)" for x :: nat
proof -
  have "x AND push_bit 2 1 = push_bit 2 (of_bool (bit x 2))"
    by (rule bit_eqI) (unfold bit_and_iff bit_push_bit_iff bit_1_iff bit_of_bool_iff, auto)
  then show ?thesis by (simp add: bit_iff_odd mod_2_eq_odd push_bit_eq_mult)
qed

lemma odd_word_of_nat: "odd (of_nat n :: u32) \<longleftrightarrow> odd n"
  unfolding bit_0 [symmetric] by (simp add: bit_of_nat_iff)

lemma montgomery_setup_start:
  fixes b :: u32
  assumes "odd b"
  shows "\<exists>t. 1 - b * (push_bit 1 ((b + 2) AND 4) + b) = 16 * t"
proof -
  define n where "n = unat b"
  have b: "b = of_nat n" by (simp add: n_def)
  then have "odd n" using assms by (simp add: odd_word_of_nat)
  define m where "m = n * (8 * ((n + 2) div 4 mod 2) + n)"
  have "(b + 2) AND 4 = of_nat ((n + 2) AND 4)" unfolding b of_nat_and_eq by (simp add: add.commute)
  also have "\<dots> = 4 * of_nat ((n + 2) div 4 mod 2)" unfolding and_4 by simp
  finally have "b * (push_bit 1 ((b + 2) AND 4) + b) = of_nat m"
    unfolding b by (simp add: m_def push_bit_eq_mult)
  moreover have "m = 16 * (m div 16) + 1" using inverse_mod_16 [OF \<open>odd n\<close>] mult_div_mod_eq [of 16 m] by (simp add: m_def)
  then have "(of_nat m :: u32) = 16 * of_nat (m div 16) + 1" by (metis of_nat_1 of_nat_add of_nat_mult of_nat_numeral)
  ultimately have "1 - b * (push_bit 1 ((b + 2) AND 4) + b) = 16 * (- of_nat (m div 16))" by simp
  then show ?thesis by blast
qed

lemma montgomery_setup_correct:
  assumes "odd m"
  shows "\<exists>mp. pstm_montgomery_setup m = Some mp \<and> mp * of_nat m = - 1"
proof -
  let ?b = "pstm_digit m 0"
  have b: "?b = of_nat m" by (simp add: pstm_digit_def)
  have "odd ?b" using assms unfolding b by (simp add: odd_word_of_nat)
  then have "?b AND 1 \<noteq> 0" by (simp add: and_one_eq odd_iff_mod_2_eq_one)
  define x0 where "x0 = push_bit 1 ((?b + 2) AND 4) + ?b"
  define x1 where "x1 = x0 * (2 - ?b * x0)"
  define x2 where "x2 = x1 * (2 - ?b * x1)"
  define x3 where "x3 = x2 * (2 - ?b * x2)"
  obtain t where "1 - ?b * x0 = 16 * t" using montgomery_setup_start [OF \<open>odd ?b\<close>] by (auto simp: x0_def)
  from newton_step [OF this] have "1 - ?b * x1 = 256 * (t * t)" by (simp add: x1_def)
  from newton_step [OF this] have "1 - ?b * x2 = 65536 * (t * t * (t * t))" by (simp add: x2_def)
  from newton_step [OF this] have "1 - ?b * x3 = 4294967296 * (t * t * (t * t) * (t * t * (t * t)))" by (simp add: x3_def)
  also have "(4294967296 :: u32) = 0" by simp
  finally have "?b * x3 = 1" by simp
  moreover have "pstm_montgomery_setup m = Some (- x3)"
    using \<open>?b AND 1 \<noteq> 0\<close> unfolding pstm_montgomery_setup_def Let_def x3_def x2_def x1_def x0_def by simp
  ultimately show ?thesis by (simp add: b mult.commute)
qed

lemma montgomery_turns:
  assumes "mp * of_nat m = (- 1 :: u32)"
  shows "2 ^ (32 * k) dvd foldl (montgomery_turn m mp) a [0..<k]"
    "foldl (montgomery_turn m mp) a [0..<k] mod m = a mod m"
    "foldl (montgomery_turn m mp) a [0..<k] \<le> a + m * (2 ^ (32 * k) - 1)"
proof (induction k)
  case (Suc k)
  define c where "c = foldl (montgomery_turn m mp) a [0..<k]"
  define mu where "mu = pstm_digit c k * mp"
  let ?B = "2 ^ (32 * k) :: nat"
  obtain q where q: "c = ?B * q" using Suc(1) unfolding c_def by (rule dvdE)
  have step: "foldl (montgomery_turn m mp) a [0..<Suc k] = c + unat mu * m * ?B"
    by (simp add: montgomery_turn_def Let_def mu_def c_def)
  have "pstm_digit c k = of_nat q" by (simp add: pstm_digit_def q)
  then have "of_nat (q + unat mu * m) = (of_nat q + of_nat q * (mp * of_nat m) :: u32)"
    by (simp add: mu_def ac_simps)
  then have "of_nat (q + unat mu * m) = (0 :: u32)" unfolding assms by simp
  then have "2 ^ 32 dvd q + unat mu * m" unfolding word_of_nat_eq_0_iff by simp
  then obtain t where t: "q + unat mu * m = 2 ^ 32 * t" by (rule dvdE)
  have "c + unat mu * m * ?B = ?B * (q + unat mu * m)" by (simp add: q algebra_simps)
  also have "\<dots> = 2 ^ (32 * Suc k) * t" unfolding t by (simp add: power_add)
  finally show "2 ^ (32 * Suc k) dvd foldl (montgomery_turn m mp) a [0..<Suc k]" unfolding step by simp
  show "foldl (montgomery_turn m mp) a [0..<Suc k] mod m = a mod m"
    unfolding step using Suc(2) mod_mult_self1 [of c "unat mu * ?B" m] by (simp add: c_def ac_simps)
  have "unat mu < 2 ^ LENGTH(32)" by (rule unsigned_less)
  then have "unat mu \<le> 2 ^ 32 - 1" by simp
  then have "unat mu * (m * ?B) \<le> (2 ^ 32 - 1) * (m * ?B)" by (rule mult_right_mono) simp
  moreover have "m * (2 ^ (32 * Suc k) - 1) = m * (?B - 1) + (2 ^ 32 - 1) * (m * ?B)"
  proof -
    have "(2 ^ (32 * Suc k) - 1 :: nat) = (?B - 1) + (2 ^ 32 - 1) * ?B" by (simp add: power_add algebra_simps)
    then show ?thesis by (simp only: algebra_simps)
  qed
  ultimately show "foldl (montgomery_turn m mp) a [0..<Suc k] \<le> a + m * (2 ^ (32 * Suc k) - 1)"
    unfolding step using Suc(3) unfolding c_def [symmetric] by (simp only: ac_simps)
qed simp_all

lemma pstm_montgomery_reduce_correct:
  assumes "mp * of_nat m = (- 1 :: u32)" "a < m * 2 ^ (32 * pstm_used m)"
  shows "pstm_montgomery_reduce a m mp < m" "pstm_montgomery_reduce a m mp * 2 ^ (32 * pstm_used m) mod m = a mod m"
proof -
  let ?n = "pstm_used m"
  let ?R = "2 ^ (32 * ?n) :: nat"
  define c where "c = foldl (montgomery_turn m mp) a [0..<?n]"
  have "?R dvd c" "c mod m = a mod m" "c \<le> a + m * (?R - 1)"
    unfolding c_def by (rule montgomery_turns [OF assms(1)])+
  then obtain t where t: "c = ?R * t" "?R * t mod m = a mod m" "?R * t \<le> a + m * (?R - 1)" by (auto elim: dvdE)
  have "?R * t < ?R * (2 * m)"
  proof -
    have "m * (?R - 1) \<le> m * ?R" by simp
    moreover have "?R * (2 * m) = m * ?R + m * ?R" by (simp add: algebra_simps)
    ultimately show ?thesis using t(3) assms(2) by linarith
  qed
  then have t2: "t < 2 * m" by simp
  have "m < ?R" by (rule pstm_used_bound)
  moreover have "(2 :: nat) ^ (32 * (?n + 1)) = 4294967296 * ?R" by (simp add: power_add)
  ultimately have "t < 2 ^ (32 * (?n + 1))" using t2 by linarith
  then have "pstm_montgomery_reduce a m mp = (if m \<le> t then t - m else t)"
    unfolding pstm_montgomery_reduce_def Let_def c_def [symmetric] t(1) by simp
  moreover have "(t - m) * ?R mod m = t * ?R mod m" if "m \<le> t"
  proof -
    have "t * ?R = (t - m) * ?R + m * ?R" using that by (simp add: algebra_simps)
    then show ?thesis by simp
  qed
  ultimately show "pstm_montgomery_reduce a m mp < m" "pstm_montgomery_reduce a m mp * ?R mod m = a mod m"
    using t2 t(2) by (auto simp: mult.commute)
qed

text \<open>\<open>mont P x\<close>: the residue of \<open>x\<close> in Montgomery's form.\<close>

definition mont :: "nat \<Rightarrow> nat \<Rightarrow> nat" where "mont P x = x * 2 ^ (32 * pstm_used P) mod P"

lemma mont_less: "0 < P \<Longrightarrow> mont P x < P"
  by (simp add: mont_def)

lemma power_2_cancel:
  assumes "odd P" "a * 2 ^ k mod P = b * 2 ^ k mod P"
  shows "a mod P = (b :: nat) mod P"
proof -
  have "int (a * 2 ^ k) mod int P = int (b * 2 ^ k) mod int P" using assms(2) by (metis of_nat_mod)
  then have "int P dvd (int a - int b) * 2 ^ k" by (simp add: mod_eq_dvd_iff algebra_simps)
  moreover have "coprime (int P) (2 ^ k)" using assms(1) by simp
  ultimately have "int P dvd int a - int b" by (simp add: coprime_dvd_mult_left_iff)
  then show ?thesis by (metis mod_eq_dvd_iff of_nat_eq_iff of_nat_mod)
qed

lemma montgomery_reduce_mult:
  assumes "mp * of_nat P = (- 1 :: u32)" "odd P"
  shows "pstm_montgomery_reduce (mont P x * mont P y) P mp = mont P (x * y)"
proof -
  let ?R = "2 ^ (32 * pstm_used P) :: nat" and ?r = "pstm_montgomery_reduce (mont P x * mont P y) P mp"
  have P: "0 < P" using assms(2) by (cases P) auto
  have "mont P x * mont P y < P * ?R"
    using mont_less [OF P, of x] mont_less [OF P, of y] pstm_used_bound [of P]
    by (intro mult_strict_mono) (auto intro: less_trans)
  note r = pstm_montgomery_reduce_correct [OF assms(1) this]
  have "mont P x * mont P y mod P = (x * ?R) * (y * ?R) mod P" by (simp only: mont_def mod_mult_eq)
  also have "(x * ?R) * (y * ?R) = (x * y * ?R) * ?R" by (simp only: ac_simps)
  finally have "?r * ?R mod P = (x * y * ?R) * ?R mod P" using r(2) by simp
  then have "?r mod P = x * y * ?R mod P" by (rule power_2_cancel [OF assms(2)])
  then show ?thesis using r(1) by (simp add: mont_def)
qed

lemma montgomery_reduce_out:
  assumes "mp * of_nat P = (- 1 :: u32)" "odd P"
  shows "pstm_montgomery_reduce (mont P x) P mp = x mod P"
proof -
  let ?R = "2 ^ (32 * pstm_used P) :: nat"
  have P: "0 < P" using assms(2) by (cases P) auto
  have "mont P x < P * ?R" using mont_less [OF P, of x] by (rule less_le_trans) simp
  note r = pstm_montgomery_reduce_correct [OF assms(1) this]
  have "pstm_montgomery_reduce (mont P x) P mp * ?R mod P = x * ?R mod P" using r(2) by (simp add: mont_def)
  then have "pstm_montgomery_reduce (mont P x) P mp mod P = x mod P" by (rule power_2_cancel [OF assms(2)])
  then show ?thesis using r(1) by simp
qed

lemma calc_normalization_loop_mod:
  assumes "a < b" "pstm_used b < PSTM_MAX_SIZE - 1"
  shows "calc_normalization_loop b n a = a * 2 ^ n mod b"
  using assms(1)
proof (induction n arbitrary: a)
  case (Suc n)
  have "pstm_used a < PSTM_MAX_SIZE - 1" using pstm_used_mono [of a b] Suc.prems assms(2) by simp
  then have two: "pstm_mul_2 a = 2 * a" by (simp add: pstm_mul_2_def Let_def)
  have m: "(if b \<le> 2 * a then 2 * a - b else 2 * a) = 2 * a mod b"
    using Suc.prems by (simp add: le_mod_geq)
  have "2 * a mod b < b" using Suc.prems by simp
  from Suc.IH [OF this] have "calc_normalization_loop b n (2 * a mod b) = 2 * a * 2 ^ n mod b"
    by (simp only: mod_mult_left_eq)
  also have "2 * a * 2 ^ n = a * 2 ^ Suc n" by simp
  finally have "calc_normalization_loop b n (2 * a mod b) = a * 2 ^ Suc n mod b" .
  then show ?case by (simp only: calc_normalization_loop.simps Let_def two m)
qed simp

lemma pstm_montgomery_calc_normalization_correct:
  assumes "odd P" "1 < P" "pstm_used P < PSTM_MAX_SIZE - 1"
  shows "pstm_montgomery_calc_normalization P = mont P 1"
proof -
  define u where "u = pstm_used P"
  define bits where "bits = pstm_count_bits P - 32 * (u - 1)"
  have b: "pstm_count_bits P = 32 * (u - 1) + bits" "bits \<le> 32" "0 < u" "0 < bits"
    using pstm_count_bits_used [of P] assms(2) by (auto simp: u_def bits_def)
  have code_bits: "(let bits = pstm_count_bits P mod 32 in if bits = 0 then 32 else bits) = bits"
    using b(2,4) unfolding b(1) by (cases "bits = 32") simp_all
  show ?thesis
  proof (cases "1 < u")
    case False
    then have "u = 1" using b(3) by simp
    then have "pstm_montgomery_calc_normalization P = calc_normalization_loop P 32 1"
      by (simp add: pstm_montgomery_calc_normalization_def Let_def u_def)
    also have "\<dots> = 1 * 2 ^ 32 mod P" using assms by (intro calc_normalization_loop_mod) simp_all
    finally show ?thesis using \<open>u = 1\<close> by (simp add: mont_def u_def)
  next
    case True
    have le: "2 ^ (pstm_count_bits P - 1) \<le> P" using pstm_count_bits_bounds(2) [of P] assms(2) by simp
    moreover have "2 ^ (pstm_count_bits P - 1) \<noteq> P"
    proof
      assume "2 ^ (pstm_count_bits P - 1) = P"
      moreover have "0 < pstm_count_bits P - 1" using True b(1,4) by simp
      then have "even (2 ^ (pstm_count_bits P - 1) :: nat)" by simp
      ultimately show False using assms(1) by simp
    qed
    ultimately have less: "2 ^ (pstm_count_bits P - 1) < P" by simp
    have e: "(u - 1) * 32 + bits - 1 = pstm_count_bits P - 1" by (simp add: b(1))
    have f: "33 - bits = 32 - (bits - 1)" using b(4) by simp
    have "pstm_montgomery_calc_normalization P = calc_normalization_loop P (32 - (bits - 1)) (2 ^ (pstm_count_bits P - 1))"
      unfolding pstm_montgomery_calc_normalization_def
      using True code_bits e by (simp add: Let_def u_def del: One_nat_def) (simp add: f)
    also have "\<dots> = 2 ^ (pstm_count_bits P - 1) * 2 ^ (32 - (bits - 1)) mod P"
      using less assms(3) by (rule calc_normalization_loop_mod)
    also have "2 ^ (pstm_count_bits P - 1) * 2 ^ (32 - (bits - 1)) = (2 :: nat) ^ (32 * u)"
    proof -
      have "pstm_count_bits P - 1 + (32 - (bits - 1)) = 32 * u" using b by simp
      then show ?thesis by (simp only: power_add [symmetric])
    qed
    finally show ?thesis by (simp add: mont_def u_def)
  qed
qed

section \<open>The exponent\<close>

definition bits_value :: "bool list \<Rightarrow> nat" where "bits_value = foldl (\<lambda>a b. 2 * a + of_bool b) 0"

lemma bits_value_from: "foldl (\<lambda>a b. 2 * a + of_bool b) c bs = c * 2 ^ length bs + bits_value bs"
proof (induction bs rule: rev_induct)
  case (snoc b bs)
  then show ?case by (simp add: bits_value_def algebra_simps)
qed (simp add: bits_value_def)

lemma bits_value_append: "bits_value (as @ bs) = bits_value as * 2 ^ length bs + bits_value bs"
  using bits_value_from [of "bits_value as" bs] by (simp add: bits_value_def)

lemma bits_value_word: "bits_value (map (bit w) (rev [0..<k])) = unat (w :: u32) mod 2 ^ k"
proof (induction k)
  case (Suc k)
  have "bits_value (map (bit w) (rev [0..<Suc k])) = of_bool (bit w k) * 2 ^ k + unat w mod 2 ^ k"
    using Suc bits_value_append [of "[bit w k]" "map (bit w) (rev [0..<k])"] by (simp add: bits_value_def)
  also have "of_bool (bit w k) = unat w div 2 ^ k mod 2"
  proof -
    have "bit w k \<longleftrightarrow> bit (unat w) k" using bit_imp_le_length [of w k] by (auto simp: bit_unsigned_iff)
    then show ?thesis by (simp only: bit_iff_odd mod_2_eq_odd)
  qed
  finally show ?case using mod_mult2_eq [of "unat w" "2 ^ k" 2] by (simp add: mult.commute add.commute)
qed (simp add: bits_value_def)

lemma exponent_bits_value: "bits_value (exponent_bits X) = X"
proof -
  have "bits_value (concat (map (\<lambda>d. map (bit (pstm_digit X d)) (rev [0..<32])) (rev [0..<n]))) = X mod 2 ^ (32 * n)" for n
  proof (induction n)
    case (Suc n)
    let ?f = "\<lambda>d. map (bit (pstm_digit X d)) (rev [0..<32])"
    have len: "length (concat (map ?f (rev [0..<n]))) = 32 * n" by (induction n) simp_all
    have "concat (map ?f (rev [0..<Suc n])) = ?f n @ concat (map ?f (rev [0..<n]))" by simp
    then have "bits_value (concat (map ?f (rev [0..<Suc n]))) = unat (pstm_digit X n) mod 2 ^ 32 * 2 ^ (32 * n) + X mod 2 ^ (32 * n)"
      using Suc len by (simp only: bits_value_append bits_value_word)
    also have "unat (pstm_digit X n) mod 2 ^ 32 = X div 2 ^ (32 * n) mod 2 ^ 32" by (simp add: pstm_digit_def unat_of_nat)
    finally show ?case using mod_mult2_eq [of X "2 ^ (32 * n)" "2 ^ 32"] by (simp add: power_add ac_simps)
  qed (simp add: bits_value_def)
  from this [of "pstm_used X"] show ?thesis using pstm_used_bound [of X] by (simp add: exponent_bits_def)
qed

section \<open>Exponentiation\<close>

text \<open>A modulus that Montgomery's method can do, with what its setup gives.\<close>

definition montgomery_ready :: "nat \<Rightarrow> u32 \<Rightarrow> bool" where
  "montgomery_ready P mp \<longleftrightarrow> odd P \<and> 1 < P \<and> mp * of_nat P = - 1"

lemma montgomery_mult:
  "montgomery_ready P mp \<Longrightarrow> pstm_montgomery_reduce (mont P x * mont P y) P mp = mont P (x * y)"
  by (simp add: montgomery_ready_def montgomery_reduce_mult)

lemma sqr_reduce_power:
  assumes "montgomery_ready P mp"
  shows "sqr_reduce P mp n (mont P (G ^ e)) = mont P (G ^ (e * 2 ^ n))"
proof (induction n arbitrary: e)
  case (Suc n)
  have "G ^ e * G ^ e = G ^ (e * 2)" by (simp add: power_mult power2_eq_square)
  then show ?case using Suc.IH [of "e * 2"] montgomery_mult [OF assms, of "G ^ e" "G ^ e"] by (simp add: ac_simps)
qed simp

lemma upper_table_powers:
  assumes "montgomery_ready P mp" "i < n"
  shows "length (upper_table P mp (mont P G) n (mont P (G ^ e))) = n
    \<and> upper_table P mp (mont P G) n (mont P (G ^ e)) ! i = mont P (G ^ (e + i))"
  using assms(2)
proof (induction n arbitrary: e i)
  case (Suc n)
  have "pstm_montgomery_reduce (mont P (G ^ e) * mont P G) P mp = mont P (G ^ Suc e)"
    using montgomery_mult [OF assms(1), of "G ^ e" G] by (simp add: ac_simps)
  then show ?case
    using Suc.IH [of "i - 1" "Suc e"] Suc.prems by (cases i; cases n) auto
qed simp

text \<open>
  The state after the bits of \<open>e\<close>: nothing but zeros, or a power and an empty window, or a power
  and the first bits \<open>w\<close> of a window.
\<close>

definition exptmod_inv :: "nat \<Rightarrow> nat \<Rightarrow> nat \<Rightarrow> exptmod_state \<Rightarrow> nat \<Rightarrow> bool" where
  "exptmod_inv P G winsize s e \<longleftrightarrow>
     (ex_mode s = 0 \<and> ex_bitcpy s = 0 \<and> ex_bitbuf s = 0 \<and> e = 0 \<and> ex_res s = mont P (G ^ 0)) \<or>
     (ex_mode s = 1 \<and> ex_bitcpy s = 0 \<and> ex_bitbuf s = 0 \<and> ex_res s = mont P (G ^ e)) \<or>
     (ex_mode s = 2 \<and> 0 < ex_bitcpy s \<and> ex_bitcpy s < winsize \<and>
       (\<exists>h w. ex_res s = mont P (G ^ h) \<and> e = h * 2 ^ ex_bitcpy s + w \<and> ex_bitbuf s = w * 2 ^ (winsize - ex_bitcpy s)
          \<and> 2 ^ (ex_bitcpy s - 1) \<le> w \<and> w < 2 ^ ex_bitcpy s))"

lemma or_low_bit: "w * 2 ^ Suc k OR push_bit k (of_bool y) = (2 * w + of_bool y) * 2 ^ k" for w :: nat
proof -
  have "2 * w OR of_bool y = 2 * w + of_bool y" by (cases y) (simp_all add: or_Suc_0_eq)
  moreover have "w * 2 ^ Suc k = push_bit k (2 * w)" by (simp add: push_bit_eq_mult)
  ultimately have "w * 2 ^ Suc k OR push_bit k (of_bool y) = push_bit k (2 * w + of_bool y)" by (metis push_bit_or)
  then show ?thesis by (simp only: push_bit_eq_mult)
qed

lemma exptmod_bit_inv:
  assumes "montgomery_ready P mp" "exptmod_inv P G winsize s e" "1 < winsize"
    and "table = upper_table P mp (mont P G) (2 ^ (winsize - 1)) (mont P (G ^ 2 ^ (winsize - 1)))"
  shows "\<exists>s'. exptmod_bit P mp winsize table s y = Some s' \<and> exptmod_inv P G winsize s' (2 * e + of_bool y)"
proof -
  have zeros: ?thesis if "\<not> y" "ex_mode s = 0 \<or> ex_mode s = 1"
    using that assms(2) sqr_reduce_power [OF assms(1), of 1 G e]
    by (auto simp: exptmod_bit_def exptmod_inv_def mult.commute)
  have window: ?thesis
    if "\<not> (ex_mode s = 0 \<and> \<not> y)" "\<not> (ex_mode s = 1 \<and> \<not> y)" "ex_res s = mont P (G ^ h)" "e = h * 2 ^ b + w" "b < winsize"
      "ex_bitcpy s = b" "ex_bitbuf s = w * 2 ^ (winsize - b)" "w < 2 ^ b" "2 ^ b \<le> 2 * w + of_bool y" for h w b
  proof -
    define v where "v = 2 * w + of_bool y"
    have v: "2 ^ b \<le> v" "v < 2 ^ Suc b" using that(8,9) by (auto simp: v_def of_bool_def)
    have "winsize - b = Suc (winsize - Suc b)" using that(5) by simp
    then have buf: "ex_bitbuf s OR push_bit (winsize - Suc b) (of_bool y) = v * 2 ^ (winsize - Suc b)"
      unfolding that(7) by (simp only: or_low_bit v_def)
    have e: "2 * e + of_bool y = h * 2 ^ Suc b + v" by (simp add: that(4) v_def)
    show ?thesis
    proof (cases "Suc b = winsize")
      case True
      then have b: "winsize - 1 = b" by simp
      have "v - 2 ^ b < 2 ^ b" using v by simp
      note t = upper_table_powers [OF assms(1) this, of G "2 ^ b"]
      have "rd table (v - 2 ^ b) = Some (mont P (G ^ v))"
        using t \<open>v - 2 ^ b < 2 ^ b\<close> v(1) unfolding assms(4) b by (simp add: rd_def)
      moreover have "pstm_montgomery_reduce (sqr_reduce P mp winsize (ex_res s) * mont P (G ^ v)) P mp = mont P (G ^ (h * 2 ^ Suc b + v))"
        unfolding that(3) sqr_reduce_power [OF assms(1)] True [symmetric] by (simp only: montgomery_mult [OF assms(1)] power_add)
      ultimately have "exptmod_bit P mp winsize table s y
          = Some (s\<lparr>ex_bitcpy := 0, ex_bitbuf := 0, ex_mode := 1, ex_res := mont P (G ^ (h * 2 ^ Suc b + v))\<rparr>)"
        using that(1,2,6) buf True v(1) b by (auto simp: exptmod_bit_def Let_def not_less simp del: One_nat_def)
      then show ?thesis unfolding e by (simp add: exptmod_inv_def)
    next
      case False
      then have "exptmod_bit P mp winsize table s y
          = Some (s\<lparr>ex_bitcpy := Suc b, ex_bitbuf := v * 2 ^ (winsize - Suc b), ex_mode := 2\<rparr>)"
        using that(1,2,6) buf by (auto simp: exptmod_bit_def Let_def)
      then show ?thesis using that(3,5) v False unfolding e by (auto simp: exptmod_inv_def)
    qed
  qed
  consider "\<not> y" "ex_mode s = 0 \<or> ex_mode s = 1" | "y" "ex_mode s = 0 \<or> ex_mode s = 1" | "ex_mode s = 2"
    using assms(2) by (auto simp: exptmod_inv_def)
  then show ?thesis
  proof cases
    case 2
    then show ?thesis using assms(2,3) by (intro window [of e 0 0]) (auto simp: exptmod_inv_def)
  next
    case 3
    then obtain h w where hw: "0 < ex_bitcpy s" "ex_bitcpy s < winsize" "ex_res s = mont P (G ^ h)" "e = h * 2 ^ ex_bitcpy s + w"
      "ex_bitbuf s = w * 2 ^ (winsize - ex_bitcpy s)" "2 ^ (ex_bitcpy s - 1) \<le> w" "w < 2 ^ ex_bitcpy s"
      using assms(2) by (auto simp: exptmod_inv_def)
    have "2 ^ ex_bitcpy s = 2 * (2 :: nat) ^ (ex_bitcpy s - 1)" using hw(1) by (simp add: power_eq_if)
    then show ?thesis using hw 3 by (intro window [of h "ex_bitcpy s" w]) simp_all
  qed (rule zeros)
qed

lemma exptmod_loop_inv:
  assumes "montgomery_ready P mp" "1 < winsize"
    and "table = upper_table P mp (mont P G) (2 ^ (winsize - 1)) (mont P (G ^ 2 ^ (winsize - 1)))"
    and "exptmod_inv P G winsize s e"
  shows "\<exists>s'. exptmod_loop P mp winsize table ys s = Some s'
    \<and> exptmod_inv P G winsize s' (foldl (\<lambda>a b. 2 * a + of_bool b) e ys)"
  using assms(4)
proof (induction ys arbitrary: s e)
  case (Cons y ys)
  obtain s1 where s1: "exptmod_bit P mp winsize table s y = Some s1" "exptmod_inv P G winsize s1 (2 * e + of_bool y)"
    using exptmod_bit_inv [OF assms(1) Cons.prems assms(2,3)] by blast
  then show ?case using Cons.IH [OF s1(2)] by simp
qed simp

lemma exptmod_tail_power:
  assumes "montgomery_ready P mp" "n \<le> winsize"
  shows "exptmod_tail P mp winsize (mont P G) n buf (mont P (G ^ h)) = mont P (G ^ (h * 2 ^ n + buf div 2 ^ (winsize - n) mod 2 ^ n))"
  using assms(2)
proof (induction n arbitrary: buf h)
  case (Suc n)
  define top' where "top' = (of_bool (bit buf (winsize - 1)) :: nat)"
  define low where "low = buf div 2 ^ (winsize - Suc n) mod 2 ^ n"
  have w: "Suc (winsize - Suc n) = winsize - n" "winsize - Suc n + n = winsize - 1" using Suc.prems by simp_all
  have r: "pstm_montgomery_reduce (mont P (G ^ h) * mont P (G ^ h)) P mp = mont P (G ^ (2 * h))"
    by (simp add: montgomery_mult [OF assms(1)] mult_2 power_add)
  have "push_bit 1 buf AND push_bit winsize 1 \<noteq> 0 \<longleftrightarrow> bit (push_bit 1 buf) winsize"
    by (simp add: and_exp_eq_0_iff_not_bit push_bit_eq_mult [of winsize])
  also have "\<dots> \<longleftrightarrow> bit buf (winsize - 1)" unfolding bit_push_bit_iff using Suc.prems by simp
  finally have step: "exptmod_tail P mp winsize (mont P G) (Suc n) buf (mont P (G ^ h))
      = exptmod_tail P mp winsize (mont P G) n (push_bit 1 buf) (mont P (G ^ (2 * h + top')))"
    using montgomery_mult [OF assms(1), of "G ^ (2 * h)" G] r
    by (auto simp: Let_def top'_def power_add mult.commute)
  have "push_bit 1 buf div 2 ^ (winsize - n) = buf div 2 ^ (winsize - Suc n)"
    unfolding w(1) [symmetric] by (simp add: push_bit_eq_mult div_mult2_eq mult.commute)
  moreover have "buf div 2 ^ (winsize - Suc n) mod 2 ^ Suc n = 2 ^ n * top' + low"
  proof -
    have "buf div 2 ^ (winsize - Suc n) div 2 ^ n = buf div 2 ^ (winsize - 1)"
      by (simp only: div_mult2_eq [symmetric] power_add [symmetric] w(2))
    then have "buf div 2 ^ (winsize - Suc n) div 2 ^ n mod 2 = top'" by (simp add: top'_def bit_iff_odd mod_2_eq_odd)
    then show ?thesis using mod_mult2_eq [of "buf div 2 ^ (winsize - Suc n)" "2 ^ n" 2] by (simp add: low_def mult.commute)
  qed
  ultimately show ?case
    unfolding step using Suc.IH [of "push_bit 1 buf" "2 * h + top'"] Suc.prems by (simp add: low_def algebra_simps)
qed simp

text \<open>
  The result of \<^verbatim>\<open>pstm_exptmod\<close>, by its sliding window over Montgomery forms, is the power
  modulo \<open>P\<close>, for every odd modulus that leaves room for the doublings, every base and every exponent; an even
  modulus ends the process.
\<close>

lemma pstm_exptmod_correct:
  assumes "1 < P" "pstm_used P < PSTM_MAX_SIZE - 1"
  shows "pstm_exptmod G X P = (if odd P then Some (G ^ X mod P) else None)"
proof (cases "odd P")
  case False
  then have "even (pstm_digit P 0)" by (simp add: pstm_digit_def odd_word_of_nat)
  then have "pstm_digit P 0 AND 1 = 0" by (simp add: and_one_eq even_iff_mod_2_eq_zero)
  then have "pstm_montgomery_setup P = None" by (simp add: pstm_montgomery_setup_def Let_def)
  then show ?thesis using False by (simp add: pstm_exptmod_def Let_def)
next
  case True
  obtain mp where mp: "pstm_montgomery_setup P = Some mp" "mp * of_nat P = - 1" using montgomery_setup_correct [OF True] by blast
  then have ready: "montgomery_ready P mp" using True assms(1) by (simp add: montgomery_ready_def)
  define winsize where "winsize = (if pstm_count_bits X < 50 then 2 else 3 :: nat)"
  have w: "1 < winsize" by (simp add: winsize_def)
  note r = pstm_montgomery_calc_normalization_correct [OF True assms]
  have M1: "(if P \<le> G then G mod P else G) * mont P 1 mod P = mont P G"
    by (auto simp: mont_def mod_simps)
  define table where "table = upper_table P mp (mont P G) (2 ^ (winsize - 1)) (mont P (G ^ 2 ^ (winsize - 1)))"
  have sq: "sqr_reduce P mp (winsize - 1) (mont P G) = mont P (G ^ 2 ^ (winsize - 1))"
    using sqr_reduce_power [OF ready, of "winsize - 1" G 1] by simp
  have "exptmod_inv P G winsize \<lparr>ex_mode = 0, ex_bitcpy = 0, ex_bitbuf = 0, ex_res = mont P 1\<rparr> 0"
    by (simp add: exptmod_inv_def)
  from exptmod_loop_inv [OF ready w table_def this, of "exponent_bits X"]
  obtain s where s: "exptmod_loop P mp winsize table (exponent_bits X) \<lparr>ex_mode = 0, ex_bitcpy = 0, ex_bitbuf = 0, ex_res = mont P 1\<rparr> = Some s"
    "exptmod_inv P G winsize s X" using exponent_bits_value [of X] by (auto simp: bits_value_def)
  have "(if ex_mode s = 2 \<and> 0 < ex_bitcpy s then exptmod_tail P mp winsize (mont P G) (ex_bitcpy s) (ex_bitbuf s) (ex_res s)
      else ex_res s) = mont P (G ^ X)"
    using s(2) exptmod_tail_power [OF ready, of "ex_bitcpy s" winsize] by (auto simp: exptmod_inv_def)
  then show ?thesis
    using True s(1) montgomery_reduce_out [OF mp(2) True, of "G ^ X"]
    unfolding pstm_exptmod_def Let_def winsize_def [symmetric] mp(1) Option.bind_lunit r M1 sq table_def [symmetric] s(1)
    by simp
qed

section \<open>Bytes\<close>

definition be_value :: "u8 list \<Rightarrow> nat" where "be_value = foldl (\<lambda>a x. 256 * a + unat x) 0"

lemma be_value_one [simp]: "be_value [b] = unat b"
  by (simp add: be_value_def)

lemma be_value_from: "foldl (\<lambda>a x. 256 * a + unat x) c bs = c * 256 ^ length bs + be_value bs"
proof (induction bs rule: rev_induct)
  case (snoc b bs)
  then show ?case by (simp add: be_value_def algebra_simps)
qed (simp add: be_value_def)

lemma be_value_append: "be_value (as @ bs) = be_value as * 256 ^ length bs + be_value bs"
  using be_value_from [of "be_value as" bs] by (simp add: be_value_def)

lemma be_value_less: "be_value bs < 256 ^ length bs"
proof (induction bs rule: rev_induct)
  case (snoc b bs)
  have "be_value bs * 256 + unat b < (be_value bs + 1) * 256" using unat_lt_256 [of b] by simp
  also have "\<dots> \<le> 256 ^ length bs * 256" using snoc by (intro mult_right_mono) simp_all
  finally show ?case by (simp add: be_value_append mult.commute)
qed (simp add: be_value_def)

lemma unsigned_bin_loop_value: "be_value (rev (unsigned_bin_loop t)) = t"
proof (induction t rule: unsigned_bin_loop.induct)
  case (1 t)
  show ?case
  proof (cases "t = 0")
    case False
    show ?thesis using 1 False by (subst unsigned_bin_loop.simps) (simp add: be_value_append unat_of_nat)
  qed (simp add: unsigned_bin_loop.simps be_value_def)
qed

lemma pstm_to_unsigned_bin_value: "be_value (pstm_to_unsigned_bin a) = a"
  by (simp add: pstm_to_unsigned_bin_def unsigned_bin_loop_value)

lemma pstm_count_bits_shift: "2 ^ k \<le> t \<Longrightarrow> pstm_count_bits t = k + pstm_count_bits (t div 2 ^ k)"
proof (induction k arbitrary: t)
  case (Suc k)
  have "2 ^ k \<le> t div 2" using Suc.prems by (simp add: less_eq_div_iff_mult_less_eq mult.commute)
  moreover have "0 < t" using Suc.prems by (cases t) simp_all
  ultimately show ?case
    using Suc.IH [of "t div 2"] by (subst pstm_count_bits.simps) (auto simp: div_mult2_eq)
qed simp

lemma pstm_unsigned_bin_size_eq: "pstm_unsigned_bin_size a = (pstm_count_bits a + 7) div 8"
  unfolding pstm_unsigned_bin_size_def Let_def by presburger

lemma pstm_unsigned_bin_size_mono: "a \<le> b \<Longrightarrow> pstm_unsigned_bin_size a \<le> pstm_unsigned_bin_size b"
  by (simp add: pstm_unsigned_bin_size_eq pstm_count_bits_mono div_le_mono)

lemma unsigned_bin_loop_length: "length (unsigned_bin_loop t) = pstm_unsigned_bin_size t"
proof (induction t rule: unsigned_bin_loop.induct)
  case (1 t)
  consider "t = 0" | "0 < t" "t < 256" | "256 \<le> t" by linarith
  then show ?case
  proof cases
    case 2
    have "pstm_count_bits t \<le> pstm_count_bits 255" using 2 by (intro pstm_count_bits_mono) simp
    also have "pstm_count_bits 255 = 8" by (simp add: pstm_count_bits.simps)
    finally have "0 < pstm_count_bits t" "pstm_count_bits t \<le> 8" using 2 pstm_count_bits_bounds(2) by auto
    then have "pstm_unsigned_bin_size t = 1" by (cases "pstm_count_bits t = 8") (simp_all add: pstm_unsigned_bin_size_def)
    then show ?thesis using 2 by (simp add: unsigned_bin_loop.simps)
  next
    case 3
    then have "pstm_unsigned_bin_size t = Suc (pstm_unsigned_bin_size (t div 256))"
      using pstm_count_bits_shift [of 8 t] by (simp add: pstm_unsigned_bin_size_def Let_def)
    then show ?thesis using 1 3 by (subst unsigned_bin_loop.simps) simp
  qed (simp add: unsigned_bin_loop.simps pstm_unsigned_bin_size_def pstm_count_bits.simps)
qed

lemma pstm_to_unsigned_bin_length: "length (pstm_to_unsigned_bin a) = pstm_unsigned_bin_size a"
  by (simp add: pstm_to_unsigned_bin_def unsigned_bin_loop_length)

end
