(* ===== verification/TlsRsa.thy ===== *)
theory TlsRsa
  imports TlsRecordProofs TlsPstm
begin

text \<open>
  \<^verbatim>\<open>networking/tls_rsa.c\<close>: encryption with a public RSA key, with the padding of PKCS #1 version 1.5.
  An output buffer is the list of the bytes the code leaves in it. Every error of this code ends the
  process, as \<^verbatim>\<open>psTraceCrypto\<close> does. The branch for private keys has no caller.
\<close>

section \<open>The operations\<close>

definition PUBKEY_TYPE :: u8 where "PUBKEY_TYPE = 1"
definition PRIVKEY_TYPE :: u8 where "PRIVKEY_TYPE = 2"

definition pkcs1Pad :: "tls_state \<Rightarrow> u8 list \<Rightarrow> nat \<Rightarrow> u8 \<Rightarrow> (u8 list \<times> tls_state) ended" where
  "pkcs1Pad tls inp outlen cryptType =
     (let randomLen = int outlen - 3 - int (length inp)
      in if randomLen < 8 then Died ''pkcs1Pad failure''
         else if cryptType = PUBKEY_TYPE
         then Going ([0, cryptType] @ replicate (nat randomLen) 0xFF @ [0] @ inp, tls)
         else
           case tls_get_random tls (nat randomLen) of
             Died e \<Rightarrow> Died e
           | Going (c, tls) \<Rightarrow>
               Going ([0, cryptType] @ map (\<lambda>c. if c = 0 then 1 else c) c @ [0] @ inp, tls))"

text \<open>With a public key. \<^verbatim>\<open>*outlen\<close> becomes the second part of the result.\<close>

definition psRsaCrypt :: "u8 list \<Rightarrow> nat \<Rightarrow> psRsaKey \<Rightarrow> (u8 list \<times> nat) ended" where
  "psRsaCrypt inp outlen key =
     (let tmp = pstm_read_unsigned_bin inp
      in if key_N key < tmp then Died ''Error performing psRsaEncryptPub''
         else
           case pstm_exptmod tmp (key_e key) (key_N key) of
             None \<Rightarrow> Died ''pstm_montogomery_setup failure''
           | Some tmp \<Rightarrow>
               let x = pstm_unsigned_bin_size (key_N key)
               in if x > outlen then Died ''psRsaCrypt error: pstm_unsigned_bin_size''
                  else
                    let pad = rsa_size key - x;
                        x = x + pad
                    in Going (replicate pad 0 @ replicate (x - pstm_unsigned_bin_size tmp) 0 @ pstm_to_unsigned_bin tmp, x))"

definition psRsaEncryptPub :: "tls_state \<Rightarrow> psRsaKey \<Rightarrow> u8 list \<Rightarrow> nat \<Rightarrow> (u8 list \<times> tls_state) ended" where
  "psRsaEncryptPub tls key inp outlen =
     (let sz = rsa_size key
      in if outlen < sz then Died ''RSA crypt outlen''
         else
           case pkcs1Pad tls inp sz PRIVKEY_TYPE of
             Died e \<Rightarrow> Died e
           | Going (out, tls) \<Rightarrow>
               case psRsaCrypt out outlen key of
                 Died e \<Rightarrow> Died e
               | Going (out, outlen) \<Rightarrow>
                   if outlen \<noteq> sz then Died ''Encrypted size error in psRsaEncryptPub'' else Going (out, tls))"

section \<open>Properties\<close>

lemma pstm_unsigned_bin_size_bounds:
  assumes "0 < a"
  shows "256 ^ (pstm_unsigned_bin_size a - 1) \<le> a" "a < 256 ^ pstm_unsigned_bin_size a" "0 < pstm_unsigned_bin_size a"
proof -
  let ?c = "pstm_count_bits a" and ?s = "pstm_unsigned_bin_size a"
  have c: "0 < ?c" "2 ^ (?c - 1) \<le> a" "a < 2 ^ ?c" using pstm_count_bits_bounds [of a] assms by auto
  have s: "8 * (?s - 1) \<le> ?c - 1" "?c \<le> 8 * ?s" "0 < ?s" using c(1) unfolding pstm_unsigned_bin_size_eq by linarith+
  have "(256 :: nat) ^ (?s - 1) = 2 ^ (8 * (?s - 1))" by (simp add: power_mult)
  also have "\<dots> \<le> 2 ^ (?c - 1)" using s(1) by (rule power_increasing) simp
  finally show "256 ^ (?s - 1) \<le> a" using c(2) by linarith
  have "(2 :: nat) ^ ?c \<le> 2 ^ (8 * ?s)" using s(2) by (rule power_increasing) simp
  then show "a < 256 ^ ?s" using c(3) by (simp add: power_mult)
  show "0 < ?s" by (rule s(3))
qed

lemma pstm_read_unsigned_bin_value:
  assumes "length b \<le> 16384"
  shows "pstm_read_unsigned_bin b = be_value b"
  using assms by (simp add: pstm_read_unsigned_bin_def be_value_def PSTM_MAX_SIZE_def)

lemma pkcs1_value_less:
  assumes "2 \<le> k" "length rest = k - 2"
  shows "be_value ([0, 2] @ rest) < 256 ^ (k - 1)"
proof -
  have "be_value ([0, 2] @ rest) = 2 * 256 ^ (k - 2) + be_value rest"
    unfolding be_value_append assms(2) by (simp add: be_value_def)
  also have "\<dots> < 2 * 256 ^ (k - 2) + 256 ^ (k - 2)" using be_value_less [of rest] by (simp add: assms(2))
  also have "\<dots> \<le> 256 ^ Suc (k - 2)" by simp
  also have "Suc (k - 2) = k - 1" using assms(1) by simp
  finally show ?thesis .
qed

lemma be_value_zeros [simp]: "be_value (replicate n 0 @ bs) = be_value bs"
proof -
  have "be_value (replicate n 0) = 0" by (induction n) (simp_all add: be_value_def)
  then show ?thesis by (simp add: be_value_append)
qed

text \<open>
  C19: \<^verbatim>\<open>psRsaEncryptPub\<close> is RSAES-PKCS1-v1_5: for any odd modulus of \<open>k\<close> bytes and any message at least
  eleven bytes shorter, the output is the \<open>k\<close> big-endian bytes of \<open>EM ^ e mod N\<close>, where \<open>EM\<close> is \<open>00 02\<close>, at
  least eight random bytes none of which is zero, a zero, and the message.
\<close>

theorem rsa_encrypts_as_pkcs1:
  assumes "odd (key_N key)" "rsa_size key = pstm_unsigned_bin_size (key_N key)" "length msg + 11 \<le> rsa_size key"
    and "rsa_size key \<le> outlen" "outlen \<le> 4096" "rsa_size key \<le> length (urandom tls)"
  shows "\<exists>ps out. length ps = rsa_size key - 3 - length msg \<and> 8 \<le> length ps \<and> 0 \<notin> set ps
    \<and> psRsaEncryptPub tls key msg outlen = Going (out, tls\<lparr>urandom := drop (length ps) (urandom tls)\<rparr>)
    \<and> length out = rsa_size key
    \<and> be_value out = be_value ([0, 2] @ ps @ [0] @ msg) ^ key_e key mod key_N key"
proof -
  let ?N = "key_N key" and ?k = "rsa_size key"
  let ?r = "?k - 3 - length msg"
  define ps where "ps = map (\<lambda>c. if c = 0 then 1 else c :: u8) (take ?r (urandom tls))"
  have N: "0 < ?N" using assms(1) by (cases ?N) auto
  note size = pstm_unsigned_bin_size_bounds [OF N, folded assms(2)]
  have k: "11 \<le> ?k" "?k \<le> 4096" using assms(3-5) by simp_all
  have ps: "length ps = ?r" "0 \<notin> set ps" using assms(6) by (auto simp: ps_def)
  define em where "em = [0, 2] @ ps @ [0] @ msg"
  have lem: "length em = ?k" using ps(1) assms(3) by (simp add: em_def)
  have "be_value em < 256 ^ (?k - 1)" unfolding em_def using k ps(1) assms(3) by (intro pkcs1_value_less) simp_all
  then have em: "be_value em < ?N" using size(1) by linarith
  have "(1 :: nat) < 256 ^ (?k - 1)" using k(1) by (intro one_less_power) simp_all
  then have "1 < ?N" using size(1) by linarith
  moreover have "pstm_used ?N < PSTM_MAX_SIZE - 1"
  proof -
    have "pstm_count_bits ?N \<le> 8 * ?k" unfolding assms(2) pstm_unsigned_bin_size_def Let_def by auto
    then show ?thesis using k(2) by (simp add: pstm_used_def PSTM_MAX_SIZE_def)
  qed
  ultimately have exp: "pstm_exptmod (be_value em) (key_e key) ?N = Some (be_value em ^ key_e key mod ?N)"
    using pstm_exptmod_correct assms(1) by simp
  let ?c = "be_value em ^ key_e key mod ?N"
  define out where "out = replicate (?k - pstm_unsigned_bin_size ?c) 0 @ pstm_to_unsigned_bin ?c"
  have read: "pstm_read_unsigned_bin em = be_value em" using lem k(2) by (intro pstm_read_unsigned_bin_value) simp
  have "psRsaCrypt em outlen key = Going (out, ?k)"
    using em exp assms(2,4) by (simp add: psRsaCrypt_def Let_def read out_def)
  moreover have "nat (int ?k - 3 - int (length msg)) = ?r" by linarith
  then have "pkcs1Pad tls msg ?k PRIVKEY_TYPE = Going (em, tls\<lparr>urandom := drop ?r (urandom tls)\<rparr>)"
    using assms(3,6) by (simp add: pkcs1Pad_def Let_def tls_get_random_def em_def ps_def PRIVKEY_TYPE_def PUBKEY_TYPE_def)
  ultimately have enc: "psRsaEncryptPub tls key msg outlen = Going (out, tls\<lparr>urandom := drop ?r (urandom tls)\<rparr>)"
    using assms(4) by (simp add: psRsaEncryptPub_def Let_def)
  have "pstm_unsigned_bin_size ?c \<le> ?k"
    unfolding assms(2) using N by (intro pstm_unsigned_bin_size_mono) (simp add: less_imp_le)
  then have "length out = ?k" by (simp add: out_def pstm_to_unsigned_bin_length)
  moreover have "be_value out = ?c" by (simp add: out_def pstm_to_unsigned_bin_value)
  ultimately show ?thesis using ps enc assms(3) by (intro exI [of _ ps] exI [of _ out]) (simp add: em_def)
qed

definition sample_rsa :: psRsaKey where
  "sample_rsa = \<lparr>key_e = 3, key_N = 2 ^ 80 + 13, rsa_size = 11\<rparr>"

theorem rsa_encrypts_as_pkcs1_witness:
  "\<exists>ps out. psRsaEncryptPub sample_tls sample_rsa [] 4096 = Going (out, sample_tls\<lparr>urandom := drop (length ps) (urandom sample_tls)\<rparr>)
    \<and> length out = 11 \<and> be_value out = be_value ([0, 2] @ ps @ [0]) ^ 3 mod (2 ^ 80 + 13)"
proof -
  have "pstm_unsigned_bin_size (2 ^ 80 + 13) = 11" by (simp add: pstm_unsigned_bin_size_eq pstm_count_bits.simps)
  then show ?thesis
    using rsa_encrypts_as_pkcs1 [of sample_rsa "[]" 4096 sample_tls]
    by (auto simp: sample_rsa_def sample_tls_def)
qed

end
