(* ===== verification/TlsDer.thy ===== *)
theory TlsDer
  imports TlsRsa
begin

text \<open>
  The DER parser of \<^verbatim>\<open>networking/tls.c\<close>, which looks for the public key of a certificate. A
  certificate lies in the input buffer; pointers are offsets into it, \<open>fin\<close> is the code's \<^verbatim>\<open>end\<close>.
\<close>

section \<open>The operations\<close>

definition GOT_CERT_RSA_KEY_ALG :: u32 where "GOT_CERT_RSA_KEY_ALG = 2"

text \<open>The end of \<^verbatim>\<open>get_der_len\<close>: the result is the length and \<^verbatim>\<open>*bodyp\<close>.\<close>

definition der_body :: "nat \<Rightarrow> nat \<Rightarrow> nat \<Rightarrow> (nat \<times> nat) ended option" where
  "der_body len der fin =
     (let der = der + 2
      in if int fin - int der < int len then Some (Died '''') else Some (Going (len, der)))"

definition get_der_len :: "u8 list \<Rightarrow> nat \<Rightarrow> nat \<Rightarrow> (nat \<times> nat) ended option" where
  "get_der_len mem der fin =
     (if int fin - int der < 2 then Some (Died '''') else do {
        b1 \<leftarrow> rd mem (der + 1);
        let len = unat b1;
        (if len \<ge> 0x80 then
           if len = 0x80 \<or> int fin - int der < int (len - 0x7e) then Some (Died '''') else do {
             b2 \<leftarrow> rd mem (der + 2);
             let len1 = unat b2;
             (if len > 0x82 then Some (Died '''')
              else if len = 0x82 then do {
                b3 \<leftarrow> rd mem (der + 3);
                let len1 = 0x100 * len1 + unat b3;
                der_body len1 (der + 2) fin
              }
              else der_body len1 (der + 1) fin)
           }
         else der_body len der fin)
      })"

text \<open>Into an item: its first byte and its end. Over an item: the byte behind it.\<close>

definition enter_der_item :: "u8 list \<Rightarrow> nat \<Rightarrow> nat \<Rightarrow> (nat \<times> nat) ended option" where
  "enter_der_item mem der fin =
     map_option (\<lambda>r. case r of Died e \<Rightarrow> Died e | Going (len, new_der) \<Rightarrow> Going (new_der, new_der + len)) (get_der_len mem der fin)"

definition skip_der_item :: "u8 list \<Rightarrow> nat \<Rightarrow> nat \<Rightarrow> nat ended option" where
  "skip_der_item mem der fin =
     map_option (\<lambda>r. case r of Died e \<Rightarrow> Died e | Going (len, new_der) \<Rightarrow> Going (new_der + len)) (get_der_len mem der fin)"

definition der_binary_to_pstm :: "u8 list \<Rightarrow> nat \<Rightarrow> nat \<Rightarrow> nat ended option" where
  "der_binary_to_pstm mem der fin = do {
     r \<leftarrow> get_der_len mem der fin;
     (case r of
        Died e \<Rightarrow> Some (Died e)
      | Going (len, bin_ptr) \<Rightarrow> do { b \<leftarrow> rd_n mem bin_ptr len; Some (Going (pstm_read_unsigned_bin b)) })
   }"

text \<open>To go on behind a call that may end the process.\<close>

definition next_item :: "'a ended option \<Rightarrow> ('a \<Rightarrow> 'b ended option) \<Rightarrow> 'b ended option" where
  "next_item r f = (case r of None \<Rightarrow> None | Some (Died e) \<Rightarrow> Some (Died e) | Some (Going x) \<Rightarrow> f x)"

definition OID_RSA_KEY_ALG :: "u8 list" where
  "OID_RSA_KEY_ALG = [0x30, 0x0d, 0x06, 0x09, 0x2a, 0x86, 0x48, 0x86, 0xf7, 0x0d, 0x01, 0x01, 0x01]"

definition OID_ECDSA_KEY_ALG :: "u8 list" where
  "OID_ECDSA_KEY_ALG = [0x30, 0x13, 0x06, 0x07, 0x2a, 0x86, 0x48, 0xce, 0x3d, 0x02, 0x01]"

text \<open>\<^verbatim>\<open>memcmp\<close> with a constant, which may read all of its \<open>length oid\<close> bytes.\<close>

definition memcmp_oid :: "u8 list \<Rightarrow> nat \<Rightarrow> u8 list \<Rightarrow> bool option" where
  "memcmp_oid mem der oid = map_option (\<lambda>b. b = oid) (rd_n mem der (length oid))"

definition parse_rsa_key :: "u8 list \<Rightarrow> nat \<Rightarrow> nat \<Rightarrow> psRsaKey ended option" where
  "parse_rsa_key mem der fin =
     next_item (skip_der_item mem der fin) (\<lambda>der.
     next_item (enter_der_item mem der fin) (\<lambda>(der, fin).
       if int fin - int der < 14 then Some (Died '''') else do {
         b \<leftarrow> rd mem der;
         (if b \<noteq> 0 then Some (Died '''')
          else
            next_item (enter_der_item mem (der + 1) fin) (\<lambda>(der, fin).
            next_item (der_binary_to_pstm mem der fin) (\<lambda>N.
            next_item (skip_der_item mem der fin) (\<lambda>der.
            next_item (der_binary_to_pstm mem der fin) (\<lambda>e.
              Some (Going \<lparr>key_e = e, key_N = N, rsa_size = pstm_unsigned_bin_size N\<rparr>))))))
       }))"

text \<open>The algorithm of the key, \<open>True\<close> for RSA, and where the key is looked for.\<close>

definition find_algorithm :: "u8 list \<Rightarrow> nat \<Rightarrow> nat \<Rightarrow> (bool \<times> nat \<times> nat) ended option" where
  "find_algorithm mem der fin =
     next_item (enter_der_item mem der fin) (\<lambda>(der, fin).
     next_item (enter_der_item mem der fin) (\<lambda>(der, fin). do {
       b \<leftarrow> rd mem der;
       next_item (if b = 0xa0 then skip_der_item mem der fin else Some (Going der)) (\<lambda>der.
       next_item (skip_der_item mem der fin) (\<lambda>der.
       next_item (skip_der_item mem der fin) (\<lambda>der.
       next_item (skip_der_item mem der fin) (\<lambda>der.
       next_item (skip_der_item mem der fin) (\<lambda>der.
       next_item (skip_der_item mem der fin) (\<lambda>der.
       next_item (enter_der_item mem der fin) (\<lambda>(der, fin). do {
         rsa \<leftarrow> memcmp_oid mem der OID_RSA_KEY_ALG;
         (if rsa then Some (Going (True, der, fin)) else do {
            ecdsa \<leftarrow> memcmp_oid mem der OID_ECDSA_KEY_ALG;
            Some (if ecdsa then Going (False, der, fin) else Died ''not RSA or ECDSA cert'')
          })
       })))))))
     }))"

text \<open>The flag may be set already; the key is a field of the handshake data.\<close>

definition find_key_in_der_cert :: "tls_state \<Rightarrow> nat \<Rightarrow> nat \<Rightarrow> tls_state ended option" where
  "find_key_in_der_cert tls der len =
     next_item (find_algorithm (inbuf tls) der (der + len)) (\<lambda>(rsa, der, fin).
       let tls = (if rsa then tls\<lparr>flags := flags tls OR GOT_CERT_RSA_KEY_ALG\<rparr> else tls)
       in if flags tls AND GOT_CERT_RSA_KEY_ALG = 0 then Some (Going tls)
          else next_item (parse_rsa_key (inbuf tls) der fin) (\<lambda>key.
            case hsd tls of
              None \<Rightarrow> None
            | Some h \<Rightarrow> Some (Going (tls\<lparr>hsd := Some (h\<lparr>server_rsa_pub_key := key\<rparr>)\<rparr>))))"

section \<open>Items stay inside what holds them\<close>

lemma der_body_cases:
  "der_body len der fin = Some (Died '''') \<or> (der_body len der fin = Some (Going (len, der + 2)) \<and> der + 2 + len \<le> fin)"
  by (auto simp: der_body_def Let_def)

text \<open>What \<^verbatim>\<open>get_der_len\<close> can do inside a buffer.\<close>

lemma get_der_len_inside:
  assumes "fin \<le> length mem"
  obtains "get_der_len mem der fin = Some (Died '''')"
  | len body where "get_der_len mem der fin = Some (Going (len, body))" "der + 2 \<le> body" "body + len \<le> fin"
proof (cases "fin < der + 2")
  case True
  then have "get_der_len mem der fin = Some (Died '''')" by (simp add: get_der_len_def)
  then show ?thesis by (rule that(1))
next
  case False
  then have short: "\<not> int fin - int der < 2" "rd mem (der + 1) = Some (mem ! (der + 1))" using assms by (simp_all add: rd_def)
  define l where "l = unat (mem ! Suc der)"
  then have l: "unat (mem ! Suc der) = l" by simp
  consider "l < 0x80" | "l = 0x80 \<or> int fin - int der < int (l - 0x7e)" "0x80 \<le> l"
    | "0x80 < l" "\<not> int fin - int der < int (l - 0x7e)" by linarith
  then show ?thesis
  proof cases
    case 1
    then have "get_der_len mem der fin = der_body l der fin" using short by (simp add: get_der_len_def l Let_def)
    then show ?thesis using der_body_cases [of l der fin] that by auto
  next
    case 2
    then have "get_der_len mem der fin = Some (Died '''')" using short by (auto simp: get_der_len_def l Let_def)
    then show ?thesis by (rule that(1))
  next
    case 3
    have r2: "rd mem (der + 2) = Some (mem ! (der + 2))" "l = 0x82 \<longrightarrow> rd mem (der + 3) = Some (mem ! (der + 3))"
      using 3 assms by (auto simp: rd_def)
    let ?l1 = "unat (mem ! (der + 2))" and ?l2 = "256 * unat (mem ! (der + 2)) + unat (mem ! (der + 3))"
    have "get_der_len mem der fin = (if l > 0x82 then Some (Died '''') else if l = 0x82 then der_body ?l2 (der + 2) fin
        else der_body ?l1 (der + 1) fin)"
      using short r2 3 by (auto simp: get_der_len_def l Let_def)
    then show ?thesis
      using der_body_cases [of ?l2 "der + 2" fin] der_body_cases [of ?l1 "der + 1" fin] that by (auto split: if_splits)
  qed
qed

lemma enter_der_item_inside:
  assumes "fin \<le> length mem"
  obtains "enter_der_item mem der fin = Some (Died '''')"
  | der' fin' where "enter_der_item mem der fin = Some (Going (der', fin'))" "der + 2 \<le> der'" "der' \<le> fin'" "fin' \<le> fin"
  by (rule get_der_len_inside [OF assms, of der]) (auto simp: enter_der_item_def)

lemma skip_der_item_inside:
  assumes "fin \<le> length mem"
  obtains "skip_der_item mem der fin = Some (Died '''')"
  | der' where "skip_der_item mem der fin = Some (Going der')" "der + 2 \<le> der'" "der' \<le> fin"
  by (rule get_der_len_inside [OF assms, of der]) (auto simp: skip_der_item_def)

text \<open>
  A chain of items inside a buffer: no read out of bounds, and what it ends with fulfils \<open>Q\<close>. The
  rules take a chain apart from its first item on.
\<close>

definition runs_inside :: "('a \<Rightarrow> bool) \<Rightarrow> 'a ended option \<Rightarrow> bool" where
  "runs_inside Q r \<longleftrightarrow> r \<noteq> None \<and> (\<forall>x. r = Some (Going x) \<longrightarrow> Q x)"

lemma runs_inside_simps [simp]:
  "runs_inside Q (Some (Died e))" "runs_inside Q (Some (Going x)) \<longleftrightarrow> Q x" "\<not> runs_inside Q None"
  by (simp_all add: runs_inside_def)

lemma next_item_simps [simp]:
  "next_item (Some (Going x)) f = f x" "next_item (Some (Died e)) f = Some (Died e)" "next_item None f = None"
  by (simp_all add: next_item_def)

lemma runs_inside_next:
  assumes "runs_inside P r" "\<And>x. P x \<Longrightarrow> runs_inside Q (f x)"
  shows "runs_inside Q (next_item r f)"
  using assms by (auto simp: runs_inside_def next_item_def split: option.splits ended.splits)

lemma runs_inside_mono: "runs_inside P r \<Longrightarrow> (\<And>x. P x \<Longrightarrow> Q x) \<Longrightarrow> runs_inside Q r"
  by (auto simp: runs_inside_def)

lemma enter_runs_inside:
  "fin \<le> length mem \<Longrightarrow> runs_inside (\<lambda>(d, f). der + 2 \<le> d \<and> d \<le> f \<and> f \<le> fin) (enter_der_item mem der fin)"
  by (erule enter_der_item_inside [where der = der]) auto

lemma skip_runs_inside:
  "fin \<le> length mem \<Longrightarrow> runs_inside (\<lambda>d. der + 2 \<le> d \<and> d \<le> fin) (skip_der_item mem der fin)"
  by (erule skip_der_item_inside [where der = der]) auto

lemma binary_runs_inside:
  assumes "fin \<le> length mem"
  shows "runs_inside (\<lambda>_. True) (der_binary_to_pstm mem der fin)"
  by (rule get_der_len_inside [OF assms, of der]) (use assms in \<open>auto simp: der_binary_to_pstm_def rd_n_def\<close>)

lemma memcmp_oid_reads: "der + length oid \<le> length mem \<Longrightarrow> \<exists>b. memcmp_oid mem der oid = Some b"
  by (simp add: memcmp_oid_def rd_n_def)

text \<open>The comparisons with the algorithms reach up to thirteen bytes behind the item they look at.\<close>

lemma find_algorithm_inside:
  assumes "fin + 13 \<le> length mem"
  shows "runs_inside (\<lambda>(rsa, d, f). d \<le> f \<and> f \<le> fin) (find_algorithm mem der fin)"
proof -
  have algorithm: "runs_inside (\<lambda>(rsa, d, f). d \<le> f \<and> f \<le> fin) (do {
         rsa \<leftarrow> memcmp_oid mem d OID_RSA_KEY_ALG;
         (if rsa then Some (Going (True, d, f)) else do {
            ecdsa \<leftarrow> memcmp_oid mem d OID_ECDSA_KEY_ALG;
            Some (if ecdsa then Going (False, d, f) else Died ''not RSA or ECDSA cert'')
          })
       })" if "d \<le> f" "f \<le> fin" for d f
    using that assms memcmp_oid_reads [of d OID_RSA_KEY_ALG mem] memcmp_oid_reads [of d OID_ECDSA_KEY_ALG mem]
    by (auto simp: OID_RSA_KEY_ALG_def OID_ECDSA_KEY_ALG_def)
  have skips: "runs_inside (\<lambda>d'. d' \<le> f) (skip_der_item mem d f)" if "f \<le> fin" for d f
    using skip_runs_inside [of f mem d] that assms by (auto elim: runs_inside_mono)
  have enters: "runs_inside (\<lambda>(d', f'). d' \<le> f' \<and> f' \<le> fin) (enter_der_item mem d f)" if "f \<le> fin" for d f
    using enter_runs_inside [of f mem d] that assms by (auto elim!: runs_inside_mono)
  show ?thesis
    unfolding find_algorithm_def
    by (rule runs_inside_next [OF enters], simp, clarify, rule runs_inside_next [OF enters], assumption, clarify)
      (use assms in \<open>auto intro!: runs_inside_next [OF skips] runs_inside_next [OF enters] algorithm
        runs_inside_next [where P = "\<lambda>_. True" and r = "if _ then _ else _"] elim: runs_inside_mono\<close>)
qed

lemma parse_rsa_key_inside:
  assumes "fin \<le> length mem"
  shows "runs_inside (\<lambda>_. True) (parse_rsa_key mem der fin)"
proof -
  have skips: "runs_inside (\<lambda>_. True) (skip_der_item mem d f)" if "f \<le> fin" for d f
    using skip_runs_inside [of f mem d] that assms by (auto elim: runs_inside_mono)
  have enters: "runs_inside (\<lambda>(d', f'). f' \<le> fin) (enter_der_item mem d f)" if "f \<le> fin" for d f
    using enter_runs_inside [of f mem d] that assms by (auto elim!: runs_inside_mono)
  have binaries: "runs_inside (\<lambda>_. True) (der_binary_to_pstm mem d f)" if "f \<le> fin" for d f
    using binary_runs_inside [of f mem d] that assms by simp
  show ?thesis
    unfolding parse_rsa_key_def
    by (rule runs_inside_next [OF skips], simp, rule runs_inside_next [OF enters], simp, clarify)
      (use assms in \<open>auto intro!: runs_inside_next [OF skips] runs_inside_next [OF enters] runs_inside_next [OF binaries]\<close>)
qed

section \<open>Properties\<close>

text \<open>
  C22: the search for the key in a certificate, whatever bytes the server sends, ends with a key, without one or with the
  end of the process, and reads nothing outside the buffer, as long as thirteen bytes of the buffer
  follow the certificate.
\<close>

theorem certificate_search_stays_inside:
  assumes "der + len + 13 \<le> length (inbuf tls)" "hsd tls \<noteq> None"
  shows "find_key_in_der_cert tls der len \<noteq> None"
proof -
  have "runs_inside (\<lambda>_. True) (find_key_in_der_cert tls der len)"
    unfolding find_key_in_der_cert_def
  proof (rule runs_inside_next [OF find_algorithm_inside [OF assms(1)]], clarify)
    fix rsa d f
    assume "d \<le> f" "f \<le> der + len"
    then have "runs_inside (\<lambda>_. True) (parse_rsa_key (inbuf tls) d f)" using assms(1) by (intro parse_rsa_key_inside) simp
    then have "runs_inside (\<lambda>_. True) (next_item (parse_rsa_key (inbuf tls) d f) (\<lambda>key.
        case hsd tls of None \<Rightarrow> None | Some h \<Rightarrow> Some (Going (tls'\<lparr>hsd := Some (h\<lparr>server_rsa_pub_key := key\<rparr>)\<rparr>))))"
      for tls' :: tls_state
      by (rule runs_inside_next) (use assms(2) in auto)
    then show "runs_inside (\<lambda>_. True) (let tls = (if rsa then tls\<lparr>flags := flags tls OR GOT_CERT_RSA_KEY_ALG\<rparr> else tls)
       in if flags tls AND GOT_CERT_RSA_KEY_ALG = 0 then Some (Going tls)
          else next_item (parse_rsa_key (inbuf tls) d f) (\<lambda>key.
            case hsd tls of None \<Rightarrow> None | Some h \<Rightarrow> Some (Going (tls\<lparr>hsd := Some (h\<lparr>server_rsa_pub_key := key\<rparr>)\<rparr>))))"
      by (simp add: Let_def)
  qed
  then show ?thesis by (auto simp: runs_inside_def)
qed

definition sample_hsd :: handshake_data where
  "sample_hsd = \<lparr>handshake_hash_ctx = sha256_begin (hashed_key_xor_ipad blank_hmac), client_and_server_rand32 = replicate 64 0, master_secret = replicate 48 0,
     server_rsa_pub_key = \<lparr>key_e = 0, key_N = 0, rsa_size = 0\<rparr>, ecc_pub_key32 = replicate 32 0\<rparr>"

text \<open>A certificate whose last item, the key, is empty.\<close>

definition sample_certificate :: "u8 list" where
  "sample_certificate = [0x30, 14, 0x30, 12, 2, 0, 2, 0, 2, 0, 2, 0, 2, 0, 0x30, 0]"

theorem certificate_search_stays_inside_witness:
  "find_key_in_der_cert (sample_tls\<lparr>inbuf := sample_certificate @ replicate 13 0, hsd := Some sample_hsd\<rparr>) 0 16 \<noteq> None"
  by (rule certificate_search_stays_inside) (simp_all add: sample_certificate_def)

text \<open>
  without these bytes it reads behind the buffer: the algorithm of the key is compared with a constant of
  thirteen bytes whether or not the item has so many, here in a certificate at the very end of the
  buffer.
\<close>

theorem certificate_search_overreads:
  "find_key_in_der_cert (sample_tls\<lparr>inbuf := sample_certificate, hsd := Some sample_hsd\<rparr>) 0 (length sample_certificate) = None"
proof -
  have "find_algorithm sample_certificate 0 (0 + length sample_certificate) = None" by code_simp
  then show ?thesis by (simp add: find_key_in_der_cert_def)
qed

end
