(* ===== verification/TlsCert.thy ===== *)
theory TlsCert
  imports TlsDer
begin

text \<open>
  What the DER parser of \<^verbatim>\<open>networking/tls.c\<close> finds: certificates as X.509 and DER lay them out, and
  that the key of each is found.
\<close>

section \<open>Encoding\<close>

text \<open>Bytes at a place in a buffer.\<close>

definition lies :: "u8 list \<Rightarrow> nat \<Rightarrow> u8 list \<Rightarrow> bool" where
  "lies mem d bs \<longleftrightarrow> d + length bs \<le> length mem \<and> take (length bs) (drop d mem) = bs"

text \<open>Lengths below \<open>2 ^ 16\<close> and items of DER.\<close>

definition der_length :: "nat \<Rightarrow> u8 list" where
  "der_length n =
     (if n < 128 then [of_nat n] else if n < 256 then [0x81, of_nat n] else [0x82, of_nat (n div 256), of_nat n])"

definition der_item :: "u8 \<Rightarrow> u8 list \<Rightarrow> u8 list" where
  "der_item tag body = tag # der_length (length body) @ body"

text \<open>A certificate: the items of the certificate, of what is signed, of the key; the key of RSA.\<close>

definition x509_rsa_key :: "u8 list \<Rightarrow> u8 list \<Rightarrow> u8 list" where
  "x509_rsa_key N e =
     der_item 0x30 (der_item 0x30 (drop 2 OID_RSA_KEY_ALG @ [5, 0])
       @ der_item 3 (0 # der_item 0x30 (der_item 2 N @ der_item 2 e)))"

record x509 =
  x_version :: "u8 list option"
  x_serial :: "u8 list"
  x_algorithm :: "u8 list"
  x_issuer :: "u8 list"
  x_validity :: "u8 list"
  x_subject :: "u8 list"
  x_modulus :: "u8 list"
  x_exponent :: "u8 list"
  x_extensions :: "u8 list"
  x_signature :: "u8 list"

definition x509_with_key :: "x509 \<Rightarrow> u8 list \<Rightarrow> u8 list" where
  "x509_with_key x key =
     der_item 0x30 (der_item 0x30
       ((case x_version x of None \<Rightarrow> [] | Some v \<Rightarrow> der_item 0xa0 v) @ der_item 2 (x_serial x) @ der_item 0x30 (x_algorithm x)
         @ der_item 0x30 (x_issuer x) @ der_item 0x30 (x_validity x) @ der_item 0x30 (x_subject x) @ key @ x_extensions x)
       @ x_signature x)"

definition x509_certificate :: "x509 \<Rightarrow> u8 list" where
  "x509_certificate x = x509_with_key x (x509_rsa_key (x_modulus x) (x_exponent x))"

text \<open>The key of a certificate that signs with ECDSA: the curve, encoded in ten bytes as the one of
  256 bits is, and a point on it.\<close>

definition x509_ecdsa_key :: "u8 list \<Rightarrow> u8 list \<Rightarrow> u8 list" where
  "x509_ecdsa_key curve point = der_item 0x30 (der_item 0x30 (drop 2 OID_ECDSA_KEY_ALG @ curve) @ der_item 3 point)"

section \<open>Items in a buffer\<close>

lemma lies_append [simp]: "lies mem d (a @ b) \<longleftrightarrow> lies mem d a \<and> lies mem (d + length a) b"
proof
  assume *: "lies mem d (a @ b)"
  then have t: "take (length a + length b) (drop d mem) = a @ b" "d + (length a + length b) \<le> length mem"
    by (simp_all add: lies_def)
  have "take (length a) (take (length a + length b) (drop d mem)) = a"
    "drop (length a) (take (length a + length b) (drop d mem)) = b" by (simp_all add: t(1))
  then show "lies mem d a \<and> lies mem (d + length a) b" using t(2) by (simp add: lies_def drop_take add.commute)
next
  assume "lies mem d a \<and> lies mem (d + length a) b"
  then show "lies mem d (a @ b)" by (auto simp: lies_def take_add add.commute)
qed

lemma lies_Cons: "lies mem d (b # bs) \<longleftrightarrow> rd mem d = Some b \<and> lies mem (Suc d) bs"
proof -
  have "lies mem d [b] \<longleftrightarrow> rd mem d = Some b" by (cases "d < length mem") (auto simp: lies_def rd_def take_Suc hd_drop_conv_nth)
  then show ?thesis using lies_append [of mem d "[b]" bs] by simp
qed

lemma lies_rd_n: "lies mem d bs \<Longrightarrow> length bs = n \<Longrightarrow> rd_n mem d n = Some bs"
  by (auto simp: lies_def rd_n_def)

lemma der_length_bounds: "0 < length (der_length n)" "length (der_length n) \<le> 3"
  by (simp_all add: der_length_def)

lemma get_der_len_item:
  assumes "lies mem d (der_item t body)" "d + length (der_item t body) \<le> fin" "length body < 2 ^ 16"
  shows "get_der_len mem d fin = Some (Going (length body, d + 1 + length (der_length (length body))))"
proof -
  let ?n = "length body"
  have fin: "d + 1 + length (der_length ?n) + ?n \<le> fin" using assms(2) by (simp add: der_item_def)
  have l: "lies mem (Suc d) (der_length ?n)" using assms(1) by (simp add: der_item_def lies_Cons)
  consider "?n < 128" | "128 \<le> ?n" "?n < 256" | "256 \<le> ?n" by linarith
  then show ?thesis
  proof cases
    case 1
    then have "rd mem (Suc d) = Some (of_nat ?n)" "unat (of_nat ?n :: u8) = ?n"
      using l by (simp_all add: der_length_def lies_Cons unat_of_nat)
    then show ?thesis using 1 fin by (simp add: get_der_len_def der_body_def der_length_def Let_def)
  next
    case 2
    then have "rd mem (Suc d) = Some 0x81" "rd mem (d + 2) = Some (of_nat ?n)" and u: "unat (of_nat ?n :: u8) = ?n"
      using l by (simp_all add: der_length_def lies_Cons unat_of_nat)
    moreover have "uint (of_nat ?n :: u8) = int ?n" unfolding uint_nat u ..
    ultimately show ?thesis using 2 fin by (simp add: get_der_len_def der_body_def der_length_def Let_def)
  next
    case 3
    have "?n div 256 < 256" using assms(3) by simp
    then have u: "unat (of_nat (?n div 256) :: u8) = ?n div 256" "unat (of_nat ?n :: u8) = ?n mod 256"
      by (simp_all add: unat_of_nat)
    have "rd mem (Suc d) = Some 0x82" "rd mem (d + 2) = Some (of_nat (?n div 256))" "rd mem (d + 3) = Some (of_nat ?n)"
      using l 3 by (simp_all add: der_length_def lies_Cons numeral_2_eq_2 numeral_3_eq_3)
    moreover have "256 * uint (of_nat (?n div 256) :: u8) + uint (of_nat ?n :: u8) = int ?n"
      unfolding uint_nat u by (metis mult_div_mod_eq of_nat_add of_nat_mult of_nat_numeral)
    ultimately show ?thesis using 3 fin u by (simp add: get_der_len_def der_body_def der_length_def Let_def)
  qed
qed

text \<open>An item that is entered, skipped, or read as a number.\<close>

lemma der_items:
  assumes "lies mem d (der_item t body)" "d + length (der_item t body) \<le> fin" "length (der_item t body) < 2 ^ 16"
  defines "b \<equiv> d + 1 + length (der_length (length body))"
  shows "enter_der_item mem d fin = Some (Going (b, b + length body))"
    and "skip_der_item mem d fin = Some (Going (d + length (der_item t body)))"
    and "length body \<le> 16384 \<Longrightarrow> der_binary_to_pstm mem d fin = Some (Going (be_value body))"
    and "lies mem b body"
proof -
  have g: "get_der_len mem d fin = Some (Going (length body, b))"
    unfolding b_def using assms(1-3) by (intro get_der_len_item) (simp_all add: der_item_def)
  show body: "lies mem b body" using assms(1) by (simp add: der_item_def lies_Cons b_def)
  show "enter_der_item mem d fin = Some (Going (b, b + length body))" by (simp add: enter_der_item_def g)
  show "skip_der_item mem d fin = Some (Going (d + length (der_item t body)))"
    by (simp add: skip_der_item_def g b_def der_item_def)
  show "length body \<le> 16384 \<Longrightarrow> der_binary_to_pstm mem d fin = Some (Going (be_value body))"
    using lies_rd_n [OF body refl] by (simp add: der_binary_to_pstm_def g pstm_read_unsigned_bin_value)
qed

lemma der_item_length: "length (der_item t body) = 1 + length (der_length (length body)) + length body"
  by (simp add: der_item_def)

section \<open>The key\<close>

lemma parse_rsa_key_found:
  fixes N e :: "u8 list"
  defines "alg \<equiv> der_item 0x30 (drop 2 OID_RSA_KEY_ALG @ [5, 0])"
    and "bits \<equiv> der_item 3 (0 # der_item 0x30 (der_item 2 N @ der_item 2 e))"
  assumes "lies mem d (alg @ bits)" "d + length (alg @ bits) \<le> fin" "length (alg @ bits) \<le> 16384" "7 \<le> length N + length e"
  shows "parse_rsa_key mem d fin
    = Some (Going \<lparr>key_e = be_value e, key_N = be_value N, rsa_size = pstm_unsigned_bin_size (be_value N)\<rparr>)"
proof -
  let ?key = "der_item 2 N @ der_item 2 e"
  let ?seq = "der_item 0x30 ?key"
  define d1 where "d1 = d + length alg"
  define d2 where "d2 = d1 + 1 + length (der_length (length (0 # ?seq)))"
  define f2 where "f2 = d2 + length (0 # ?seq)"
  define d3 where "d3 = (d2 + 1) + 1 + length (der_length (length ?key))"
  define f3 where "f3 = d3 + length ?key"
  define d4 where "d4 = d3 + length (der_item 2 N)"
  have l1: "lies mem d alg" "lies mem d1 bits" using assms(3) by (simp_all add: d1_def)
  have n: "length bits \<le> 16384" "length alg \<le> 16384" "d1 + length bits \<le> fin" using assms(4,5) by (simp_all add: d1_def)
  have sizes: "length (0 # ?seq) \<le> 16384" "length ?seq \<le> 16384" "length ?key \<le> 16384" "length (der_item 2 N) \<le> 16384"
    "length (der_item 2 e) \<le> 16384" "length N \<le> 16384" "length e \<le> 16384"
    using n(1) by (simp_all add: bits_def der_item_length)
  have skip: "skip_der_item mem d fin = Some (Going d1)"
    using der_items(2) [OF l1(1) [unfolded alg_def]] n(2) assms(4) by (simp add: d1_def alg_def)
  have enter: "enter_der_item mem d1 fin = Some (Going (d2, f2))" "lies mem d2 (0 # ?seq)"
    using der_items(1,4) [OF l1(2) [unfolded bits_def]] n(1,3) unfolding bits_def [symmetric] by (simp_all add: d2_def f2_def)
  then have zero: "rd mem d2 = Some 0" and seq: "lies mem (d2 + 1) ?seq" by (simp_all add: lies_Cons)
  have enter2: "enter_der_item mem (d2 + 1) f2 = Some (Going (d3, f3))" "lies mem d3 ?key"
    using der_items(1,4) [OF seq, of f2] sizes(2) by (simp_all add: f2_def d3_def f3_def del: lies_append)
  then have num: "lies mem d3 (der_item 2 N)" "lies mem d4 (der_item 2 e)" by (simp_all add: d4_def)
  have key: "der_binary_to_pstm mem d3 f3 = Some (Going (be_value N))" "skip_der_item mem d3 f3 = Some (Going d4)"
    using der_items(2,3) [OF num(1)] sizes by (simp_all add: f3_def d4_def)
  have e: "der_binary_to_pstm mem d4 f3 = Some (Going (be_value e))"
    using der_items(3) [OF num(2)] sizes by (simp add: f3_def d4_def)
  have "14 \<le> length (0 # ?seq)"
    using assms(6) der_length_bounds(1) [of "length ?key"] der_length_bounds(1) [of "length N"] der_length_bounds(1) [of "length e"]
    unfolding der_item_length length_append length_Cons by linarith
  then have "\<not> int f2 - int d2 < 14" by (simp add: f2_def)
  then show ?thesis using skip enter(1) zero enter2(1) key e by (simp add: parse_rsa_key_def)
qed

text \<open>The search comes to what is in the item of the key.\<close>

lemma find_algorithm_reaches:
  assumes "lies mem d (x509_with_key x (der_item 0x30 spki))" "length (x509_with_key x (der_item 0x30 spki)) \<le> 16384"
  obtains d' where "lies mem d' spki"
    "find_algorithm mem d (d + length (x509_with_key x (der_item 0x30 spki))) = do {
       rsa \<leftarrow> memcmp_oid mem d' OID_RSA_KEY_ALG;
       (if rsa then Some (Going (True, d', d' + length spki)) else do {
          ecdsa \<leftarrow> memcmp_oid mem d' OID_ECDSA_KEY_ALG;
          Some (if ecdsa then Going (False, d', d' + length spki) else Died ''not RSA or ECDSA cert'') }) }"
proof -
  define v where "v = (case x_version x of None \<Rightarrow> [] | Some v \<Rightarrow> der_item 0xa0 v)"
  define rest where "rest = der_item 2 (x_serial x) @ der_item 0x30 (x_algorithm x)
         @ der_item 0x30 (x_issuer x) @ der_item 0x30 (x_validity x) @ der_item 0x30 (x_subject x) @ der_item 0x30 spki @ x_extensions x"
  define c where "c = der_item 0x30 (v @ rest) @ x_signature x"
  have x: "x509_with_key x (der_item 0x30 spki) = der_item 0x30 c"
    by (simp add: x509_with_key_def c_def rest_def v_def)
  let ?fin = "d + length (x509_with_key x (der_item 0x30 spki))"
  define d1 where "d1 = d + 1 + length (der_length (length c))"
  define f1 where "f1 = d1 + length c"
  define d2 where "d2 = d1 + 1 + length (der_length (length (v @ rest)))"
  define f2 where "f2 = d2 + length (v @ rest)"
  have sizes: "length (der_item 0x30 c) \<le> 16384" "length (der_item 0x30 (v @ rest)) \<le> 16384" "length (v @ rest) \<le> 16384"
    using assms(2) by (simp_all add: x der_item_length c_def)
  have e1: "enter_der_item mem d ?fin = Some (Going (d1, f1))" "lies mem d1 c"
    using der_items(1,4) [OF assms(1) [unfolded x], of ?fin] sizes(1) by (simp_all add: x d1_def f1_def)
  then have l2: "lies mem d1 (der_item 0x30 (v @ rest))" by (simp add: c_def)
  have e2: "enter_der_item mem d1 f1 = Some (Going (d2, f2))" "lies mem d2 (v @ rest)"
    using der_items(1,4) [OF l2, of f1] sizes(2) by (simp_all add: d2_def f2_def f1_def c_def del: lies_append)
  define d3 where "d3 = d2 + length v"
  have f2: "f2 = d3 + length rest" by (simp add: f2_def d3_def)
  have r: "lies mem d3 rest" using e2(2) by (simp add: d3_def)
  have version: "\<exists>b. rd mem d2 = Some b \<and> (if b = 0xa0 then skip_der_item mem d2 f2 else Some (Going d2)) = Some (Going d3)"
  proof (cases "x_version x")
    case None
    then have "v = []" by (simp add: v_def)
    then show ?thesis using e2(2) by (simp add: rest_def der_item_def lies_Cons d3_def)
  next
    case (Some y)
    then have v: "v = der_item 0xa0 y" by (simp add: v_def)
    then have "rd mem d2 = Some 0xa0" using e2(2) by (simp add: der_item_def lies_Cons)
    moreover have "skip_der_item mem d2 f2 = Some (Going d3)"
      using der_items(2) [of mem d2 "0xa0" y f2] e2(2) sizes(3) by (simp add: v [symmetric] f2_def d3_def)
    ultimately show ?thesis by simp
  qed
  have skip: "skip_der_item mem a f2 = Some (Going (a + length (der_item t b)))"
    if "lies mem a (der_item t b)" "a + length (der_item t b) \<le> f2" "length (der_item t b) \<le> length rest" for a t b
    using der_items(2) [OF that(1,2)] that(3) sizes(3) by simp
  define d4 where "d4 = d3 + length (der_item 2 (x_serial x))"
  define d5 where "d5 = d4 + length (der_item 0x30 (x_algorithm x))"
  define d6 where "d6 = d5 + length (der_item 0x30 (x_issuer x))"
  define d7 where "d7 = d6 + length (der_item 0x30 (x_validity x))"
  define d8 where "d8 = d7 + length (der_item 0x30 (x_subject x))"
  define d9 where "d9 = d8 + 1 + length (der_length (length spki))"
  note ds = d4_def d5_def d6_def d7_def d8_def
  have here: "lies mem d3 (der_item 2 (x_serial x))" "lies mem d4 (der_item 0x30 (x_algorithm x))"
    "lies mem d5 (der_item 0x30 (x_issuer x))" "lies mem d6 (der_item 0x30 (x_validity x))"
    "lies mem d7 (der_item 0x30 (x_subject x))" "lies mem d8 (der_item 0x30 spki)"
    using r by (simp_all add: rest_def ds add.assoc)
  have bounds: "length (der_item 2 (x_serial x)) \<le> length rest" "d4 \<le> f2" "length (der_item 0x30 (x_algorithm x)) \<le> length rest" "d5 \<le> f2"
    "length (der_item 0x30 (x_issuer x)) \<le> length rest" "d6 \<le> f2" "length (der_item 0x30 (x_validity x)) \<le> length rest" "d7 \<le> f2"
    "length (der_item 0x30 (x_subject x)) \<le> length rest" "d8 \<le> f2" "length (der_item 0x30 spki) \<le> length rest"
    "d8 + length (der_item 0x30 spki) \<le> f2"
    unfolding f2 ds by (simp_all add: rest_def)
  have skips: "skip_der_item mem d3 f2 = Some (Going d4)" "skip_der_item mem d4 f2 = Some (Going d5)"
    "skip_der_item mem d5 f2 = Some (Going d6)" "skip_der_item mem d6 f2 = Some (Going d7)" "skip_der_item mem d7 f2 = Some (Going d8)"
    using skip [OF here(1)] skip [OF here(2)] skip [OF here(3)] skip [OF here(4)] skip [OF here(5)] bounds by (simp_all add: ds)
  have e3: "enter_der_item mem d8 f2 = Some (Going (d9, d9 + length spki))" "lies mem d9 spki"
    using der_items(1,4) [OF here(6), of f2] bounds(11,12) sizes(3) by (simp_all add: d9_def del: lies_append)
  show ?thesis by (rule that [OF e3(2)]) (use e1(1) e2(1) version skips e3(1) in \<open>auto simp: find_algorithm_def\<close>)
qed

lemma find_algorithm_found:
  assumes "lies mem d (x509_certificate x)" "length (x509_certificate x) \<le> 16384"
  shows "\<exists>d' f. find_algorithm mem d (d + length (x509_certificate x)) = Some (Going (True, d', f))
    \<and> lies mem d' (der_item 0x30 (drop 2 OID_RSA_KEY_ALG @ [5, 0])
       @ der_item 3 (0 # der_item 0x30 (der_item 2 (x_modulus x) @ der_item 2 (x_exponent x))))
    \<and> d' + length (der_item 0x30 (drop 2 OID_RSA_KEY_ALG @ [5, 0])
       @ der_item 3 (0 # der_item 0x30 (der_item 2 (x_modulus x) @ der_item 2 (x_exponent x)))) \<le> f"
proof -
  define spki where "spki = der_item 0x30 (drop 2 OID_RSA_KEY_ALG @ [5, 0])
       @ der_item 3 (0 # der_item 0x30 (der_item 2 (x_modulus x) @ der_item 2 (x_exponent x)))"
  have x: "x509_certificate x = x509_with_key x (der_item 0x30 spki)"
    by (simp add: x509_certificate_def x509_rsa_key_def spki_def)
  obtain d' where d: "lies mem d' spki" "find_algorithm mem d (d + length (x509_certificate x)) = do {
       rsa \<leftarrow> memcmp_oid mem d' OID_RSA_KEY_ALG;
       (if rsa then Some (Going (True, d', d' + length spki)) else do {
          ecdsa \<leftarrow> memcmp_oid mem d' OID_ECDSA_KEY_ALG;
          Some (if ecdsa then Going (False, d', d' + length spki) else Died ''not RSA or ECDSA cert'') }) }"
    unfolding x by (rule find_algorithm_reaches [OF assms [unfolded x]])
  have alg: "der_item 0x30 (drop 2 OID_RSA_KEY_ALG @ [5, 0]) = OID_RSA_KEY_ALG @ [5, 0]"
    by (simp add: der_item_def der_length_def OID_RSA_KEY_ALG_def)
  have "memcmp_oid mem d' OID_RSA_KEY_ALG = Some True"
    using d(1) lies_rd_n [of mem d' OID_RSA_KEY_ALG] by (simp add: spki_def alg memcmp_oid_def)
  then have "find_algorithm mem d (d + length (x509_certificate x)) = Some (Going (True, d', d' + length spki))" using d(2) by simp
  then show ?thesis using d(1) unfolding spki_def [symmetric] by (intro exI [of _ d'] exI [of _ "d' + length spki"]) simp
qed

text \<open>A certificate with an ECDSA key changes nothing.\<close>

lemma find_key_ecdsa:
  fixes x curve point
  defines "cert \<equiv> x509_with_key x (x509_ecdsa_key curve point)"
  assumes "lies (inbuf tls) d cert" "length cert \<le> 16384" "length curve = 10" "flags tls AND GOT_CERT_RSA_KEY_ALG = 0"
  shows "find_key_in_der_cert tls d (length cert) = Some (Going tls)"
proof -
  define spki where "spki = der_item 0x30 (drop 2 OID_ECDSA_KEY_ALG @ curve) @ der_item 3 point"
  have c: "cert = x509_with_key x (der_item 0x30 spki)" by (simp add: cert_def x509_ecdsa_key_def spki_def)
  obtain d' where d: "lies (inbuf tls) d' spki" "find_algorithm (inbuf tls) d (d + length cert) = do {
       rsa \<leftarrow> memcmp_oid (inbuf tls) d' OID_RSA_KEY_ALG;
       (if rsa then Some (Going (True, d', d' + length spki)) else do {
          ecdsa \<leftarrow> memcmp_oid (inbuf tls) d' OID_ECDSA_KEY_ALG;
          Some (if ecdsa then Going (False, d', d' + length spki) else Died ''not RSA or ECDSA cert'') }) }"
    unfolding c by (rule find_algorithm_reaches [OF assms(2,3) [unfolded c]])
  have "der_item 0x30 (drop 2 OID_ECDSA_KEY_ALG @ curve) = OID_ECDSA_KEY_ALG @ curve"
    using assms(4) by (simp add: der_item_def der_length_def OID_ECDSA_KEY_ALG_def)
  then have l: "lies (inbuf tls) d' (OID_ECDSA_KEY_ALG @ curve)" using d(1) by (simp add: spki_def)
  define a where "a = take 2 curve"
  define b where "b = drop 2 curve"
  have ab: "curve = a @ b" "length a = 2" using assms(4) by (simp_all add: a_def b_def)
  have n: "length OID_ECDSA_KEY_ALG = 11" by (simp add: OID_ECDSA_KEY_ALG_def)
  have r: "length OID_RSA_KEY_ALG = 13" "OID_ECDSA_KEY_ALG @ a \<noteq> OID_RSA_KEY_ALG"
    by (simp_all add: OID_RSA_KEY_ALG_def OID_ECDSA_KEY_ALG_def)
  have "lies (inbuf tls) d' (OID_ECDSA_KEY_ALG @ a)" "lies (inbuf tls) d' OID_ECDSA_KEY_ALG" using l unfolding ab(1) by simp_all
  from lies_rd_n [OF this(1)] lies_rd_n [OF this(2)]
  have "rd_n (inbuf tls) d' 13 = Some (OID_ECDSA_KEY_ALG @ a)" "rd_n (inbuf tls) d' 11 = Some OID_ECDSA_KEY_ALG"
    by (simp_all add: n ab(2))
  then have "memcmp_oid (inbuf tls) d' OID_RSA_KEY_ALG = Some False" "memcmp_oid (inbuf tls) d' OID_ECDSA_KEY_ALG = Some True"
    using r by (simp_all add: memcmp_oid_def n)
  then show ?thesis using d(2) assms(5) by (simp add: find_key_in_der_cert_def)
qed

lemma x509_key_length:
  "length (der_item 0x30 (drop 2 OID_RSA_KEY_ALG @ [5, 0])
       @ der_item 3 (0 # der_item 0x30 (der_item 2 (x_modulus x) @ der_item 2 (x_exponent x)))) \<le> length (x509_certificate x)"
  unfolding x509_certificate_def x509_with_key_def x509_rsa_key_def der_item_length length_append by linarith

lemma find_key_found:
  assumes "lies (inbuf tls) der (x509_certificate x)" "length (x509_certificate x) \<le> 16384"
    and "7 \<le> length (x_modulus x) + length (x_exponent x)" "hsd tls = Some h"
  shows "find_key_in_der_cert tls der (length (x509_certificate x))
    = Some (Going (tls\<lparr>flags := flags tls OR GOT_CERT_RSA_KEY_ALG, hsd := Some (h\<lparr>server_rsa_pub_key :=
        \<lparr>key_e = be_value (x_exponent x), key_N = be_value (x_modulus x),
         rsa_size = pstm_unsigned_bin_size (be_value (x_modulus x))\<rparr>\<rparr>)\<rparr>))"
proof -
  obtain d f where found: "find_algorithm (inbuf tls) der (der + length (x509_certificate x)) = Some (Going (True, d, f))"
    and key: "parse_rsa_key (inbuf tls) d f = Some (Going \<lparr>key_e = be_value (x_exponent x), key_N = be_value (x_modulus x),
      rsa_size = pstm_unsigned_bin_size (be_value (x_modulus x))\<rparr>)"
    using find_algorithm_found [OF assms(1,2)] parse_rsa_key_found [OF _ _ order_trans [OF x509_key_length assms(2)] assms(3)]
    by blast
  have "(flags tls OR GOT_CERT_RSA_KEY_ALG) AND GOT_CERT_RSA_KEY_ALG = GOT_CERT_RSA_KEY_ALG"
    by (rule bit_word_eqI) (auto simp: bit_simps)
  then have "(flags tls OR GOT_CERT_RSA_KEY_ALG) AND GOT_CERT_RSA_KEY_ALG \<noteq> 0" by (simp add: GOT_CERT_RSA_KEY_ALG_def)
  then show ?thesis using found key assms(4) by (simp add: find_key_in_der_cert_def)
qed

section \<open>Properties\<close>

text \<open>
  C20: the search finds the key of every certificate: whatever its version, names, validity, extensions
  and signature, of one or two bytes of length at each level, \<^verbatim>\<open>find_key_in_der_cert\<close> takes
  modulus and exponent from where X.509 has them, and notes that there is an RSA key.
\<close>

theorem certificate_key_is_found:
  assumes "rd_n (inbuf tls) der (length (x509_certificate x)) = Some (x509_certificate x)" "length (x509_certificate x) \<le> 16384"
    and "7 \<le> length (x_modulus x) + length (x_exponent x)" "hsd tls = Some h"
  shows "find_key_in_der_cert tls der (length (x509_certificate x))
    = Some (Going (tls\<lparr>flags := flags tls OR GOT_CERT_RSA_KEY_ALG, hsd := Some (h\<lparr>server_rsa_pub_key :=
        \<lparr>key_e = be_value (x_exponent x), key_N = be_value (x_modulus x),
         rsa_size = pstm_unsigned_bin_size (be_value (x_modulus x))\<rparr>\<rparr>)\<rparr>))"
  by (rule find_key_found [OF _ assms(2-4)]) (use assms(1) in \<open>auto simp: lies_def rd_n_def split: if_splits\<close>)

definition sample_x509 :: x509 where
  "sample_x509 = \<lparr>x_version = Some [2, 1, 2], x_serial = [1], x_algorithm = [], x_issuer = replicate 130 7, x_validity = [], x_subject = [],
     x_modulus = replicate 11 255, x_exponent = [3], x_extensions = [], x_signature = [3, 1, 0]\<rparr>"

theorem certificate_key_is_found_witness:
  "find_key_in_der_cert (sample_tls\<lparr>inbuf := x509_certificate sample_x509, hsd := Some sample_hsd\<rparr>) 0 (length (x509_certificate sample_x509))
    = Some (Going (sample_tls\<lparr>inbuf := x509_certificate sample_x509, flags := flags sample_tls OR GOT_CERT_RSA_KEY_ALG,
        hsd := Some (sample_hsd\<lparr>server_rsa_pub_key :=
          \<lparr>key_e = 3, key_N = be_value (replicate 11 255), rsa_size = pstm_unsigned_bin_size (be_value (replicate 11 255))\<rparr>\<rparr>)\<rparr>))"
proof -
  have v: "be_value (x_exponent sample_x509) = 3" "x_modulus sample_x509 = replicate 11 255"
    by (simp_all add: sample_x509_def be_value_def)
  have "length (x509_certificate sample_x509) \<le> 16384" "7 \<le> length (x_modulus sample_x509) + length (x_exponent sample_x509)" by code_simp+
  then show ?thesis
    using certificate_key_is_found [of "sample_tls\<lparr>inbuf := x509_certificate sample_x509, hsd := Some sample_hsd\<rparr>" 0 sample_x509 sample_hsd]
    by (simp add: v rd_n_def)
qed

end
