(* ===== verification/TlsHandshake.thy ===== *)
theory TlsHandshake
  imports TlsCert TlsFe
begin

text \<open>
  \<^verbatim>\<open>networking/tls.c\<close>: the handshake of the client, in the order of the file. A record that is built
  lies at \<open>OUTBUF_PFX\<close> in the output buffer, one that was read at 0 in the input buffer. Functions that
  return nothing return the state. Messages on the standard error output are left out.
\<close>

section \<open>Building records\<close>

text \<open>All zero; the last three are the world: what reads will give, the random bytes, the contents of new memory.\<close>

definition new_tls_state :: "u8 list option list \<Rightarrow> u8 list \<Rightarrow> u8 \<Rightarrow> tls_state" where
  "new_tls_state input random fill =
     \<lparr>flags = 0, min_encrypted_len_on_read = 0, cipher_id = 0, MAC_size = 0, key_size = 0, IV_size = 0, outbuf = [],
      ofs_to_buffered = 0, buffered_size = 0, inbuf = [], hsd = None, write_seq64_be = 0, client_write_key = 0,
      server_write_key = 0, client_write_IV = 0, server_write_IV = 0, key_area = replicate 136 0,
      aes_encrypt = \<lparr>aes_key = replicate 60 0, aes_rounds = 0\<rparr>, aes_decrypt = \<lparr>aes_key = replicate 60 0, aes_rounds = 0\<rparr>,
      aes_H = replicate 16 0, sent = [], incoming = input, urandom = random, junk = fill\<rparr>"

definition HANDSHAKE_CLIENT_HELLO :: u8 where "HANDSHAKE_CLIENT_HELLO = 1"
definition HANDSHAKE_SERVER_HELLO :: u8 where "HANDSHAKE_SERVER_HELLO = 2"
definition HANDSHAKE_CERTIFICATE :: u8 where "HANDSHAKE_CERTIFICATE = 11"
definition HANDSHAKE_SERVER_KEY_EXCHANGE :: u8 where "HANDSHAKE_SERVER_KEY_EXCHANGE = 12"
definition HANDSHAKE_CERTIFICATE_REQUEST :: u8 where "HANDSHAKE_CERTIFICATE_REQUEST = 13"
definition HANDSHAKE_SERVER_HELLO_DONE :: u8 where "HANDSHAKE_SERVER_HELLO_DONE = 14"
definition HANDSHAKE_CLIENT_KEY_EXCHANGE :: u8 where "HANDSHAKE_CLIENT_KEY_EXCHANGE = 16"
definition HANDSHAKE_FINISHED :: u8 where "HANDSHAKE_FINISHED = 20"
definition AES128_KEYSIZE :: nat where "AES128_KEYSIZE = 16"
definition AES256_KEYSIZE :: nat where "AES256_KEYSIZE = 32"
definition RSA_PREMASTER_SIZE :: nat where "RSA_PREMASTER_SIZE = 48"
definition CURVE25519_KEYSIZE :: nat where "CURVE25519_KEYSIZE = 32"

definition get24be :: "u8 list \<Rightarrow> nat \<Rightarrow> nat option" where
  "get24be mem p = do {
     b \<leftarrow> rd_n mem p 3;
     Some (0x100 * (0x100 * unat (b ! 0) + unat (b ! 1)) + unat (b ! 2))
   }"

definition fill_handshake_record_hdr :: "u8 list \<Rightarrow> nat \<Rightarrow> u8 \<Rightarrow> nat \<Rightarrow> u8 list option" where
  "fill_handshake_record_hdr mem buf type len =
     (let len = len - 4
      in wr_n mem buf [type, of_nat (len div 2 ^ 16), of_nat (len div 2 ^ 8), of_nat len AND 0xff])"

text \<open>To go on behind a read that gave a record.\<close>

definition run_read :: "(nat ended \<times> tls_state) option \<Rightarrow> (nat \<Rightarrow> tls_state \<Rightarrow> 'b ended option) \<Rightarrow> 'b ended option" where
  "run_read r f =
     (case r of None \<Rightarrow> None | Some (Died e, tls) \<Rightarrow> Some (Died e) | Some (Going n, tls) \<Rightarrow> f n tls)"

text \<open>The list of ciphers of this configuration, with its length before and the compression methods behind it.\<close>

definition NUM_CIPHERS :: nat where "NUM_CIPHERS = 7"

definition ciphers :: "u8 list" where
  "ciphers = [0x00, of_nat (2 + NUM_CIPHERS * 2), 0x00, 0xFF,
     0xC0, 0x23, 0xC0, 0x27, 0xC0, 0x2B, 0xC0, 0x2F, 0x00, 0x3C, 0x00, 0x3D, 0x00, 0x9C, 0x01, 0x00]"

definition supported_groups :: "u8 list" where
  "supported_groups = [0x00, 0x0a, 0x00, 0x04, 0x00, 0x02, 0x00, 0x1d]"

text \<open>What \<^verbatim>\<open>xzalloc\<close> gives.\<close>

definition zero_hsd :: handshake_data where
  "zero_hsd = \<lparr>handshake_hash_ctx = blank_ctx, client_and_server_rand32 = replicate 64 0, master_secret = replicate 48 0,
     server_rsa_pub_key = \<lparr>key_e = 0, key_N = 0, rsa_size = 0\<rparr>, ecc_pub_key32 = replicate 32 0\<rparr>"

text \<open>The fixed part of a client hello has 59 bytes. \<open>sni\<close> is the text before its terminating zero.\<close>

definition send_client_hello_and_alloc_hsd :: "tls_state \<Rightarrow> u8 list option \<Rightarrow> tls_state ended option" where
  "send_client_hello_and_alloc_hsd tls sni =
     (let sni_len = (case sni of None \<Rightarrow> 0 | Some s \<Rightarrow> min (length s) (127 - 5));
          ext_len = length supported_groups;
          ext_len = (if sni_len \<noteq> 0 then ext_len + 9 + sni_len else ext_len);
          len = 59 + 2 + ext_len
      in next_item (tls_get_zeroed_outbuf tls len) (\<lambda>tls.
         let record = OUTBUF_PFX in do {
           mem \<leftarrow> fill_handshake_record_hdr (outbuf tls) record HANDSHAKE_CLIENT_HELLO len;
           mem \<leftarrow> wr_n mem (record + 4) [TLS_MAJ, TLS_MIN];
           next_item (Some (tls_get_random tls 32)) (\<lambda>(rand32, tls). do {
             mem \<leftarrow> wr_n mem (record + 6) rand32;
             mem \<leftarrow> wr_n mem (record + 39) ciphers;
             let ptr = record + 59;
             mem \<leftarrow> wr_n mem ptr [of_nat (ext_len div 2 ^ 8), of_nat ext_len];
             let ptr = ptr + 2;
             (ptr, mem) \<leftarrow>
               (if sni_len \<noteq> 0 then do {
                  mem \<leftarrow> wr_n mem (ptr + 3) [of_nat (sni_len + 5)];
                  mem \<leftarrow> wr_n mem (ptr + 5) [of_nat (sni_len + 3)];
                  mem \<leftarrow> wr_n mem (ptr + 8) [of_nat sni_len];
                  mem \<leftarrow> wr_n mem (ptr + 9) (take sni_len (the sni));
                  Some (ptr + 9 + sni_len, mem)
                }
                else Some (ptr, mem));
             mem \<leftarrow> wr_n mem ptr supported_groups;
             rands \<leftarrow> wr_n (client_and_server_rand32 zero_hsd) 0 rand32;
             let h = zero_hsd\<lparr>client_and_server_rand32 := rands\<rparr>;
             let h = h\<lparr>handshake_hash_ctx := sha256_begin (handshake_hash_ctx h)\<rparr>;
             xwrite_and_update_handshake_hash (tls\<lparr>outbuf := mem, hsd := Some h\<rparr>) len
           })
         }))"

text \<open>
  The parameters the cipher of the server's choice stands for; its number has its two bytes in the
  order of the wire. The branches for SHA-1 are not compiled.
\<close>

definition choose_cipher :: "tls_state \<Rightarrow> u8 \<Rightarrow> u8 \<Rightarrow> tls_state" where
  "choose_cipher tls cipherid0 cipherid1 =
     (let tls = tls\<lparr>cipher_id := 0x100 * ucast cipherid0 + ucast cipherid1, key_size := AES256_KEYSIZE, MAC_size := SHA256_OUTSIZE\<rparr>;
          gcm = (\<lambda>tls. tls\<lparr>flags := flags tls OR ENCRYPTION_AESGCM, MAC_size := 0, IV_size := 4\<rparr>)
      in if cipherid0 = 0xC0 then
           let tls = tls\<lparr>flags := flags tls OR NEED_EC_KEY\<rparr>;
               tls = (if cipherid1 AND 1 \<noteq> 0 then tls\<lparr>key_size := AES128_KEYSIZE\<rparr> else tls)
           in if cipherid1 \<ge> 0x2B \<and> cipherid1 \<le> 0x30 then gcm tls else tls
         else
           let tls = (if cipherid1 = 0x3C \<or> cipherid1 = 0x9C then tls\<lparr>key_size := AES128_KEYSIZE\<rparr> else tls)
           in if cipherid1 = 0x9C then gcm tls else tls)"

text \<open>
  \<^verbatim>\<open>struct server_hello\<close> behind the record header: type at 0, length at 1, version at 4, random at 6,
  the length of the session id at 38, the id, the cipher. Without a session id what follows is 32
  bytes before its place in the structure.
\<close>

definition get_server_hello :: "tls_state \<Rightarrow> tls_state ended option" where
  "get_server_hello tls =
     run_read (tls_xread_handshake_block tls (74 - 32)) (\<lambda>len tls. do {
       hp \<leftarrow> rd_n (inbuf tls) RECHDR_LEN 39;
       let session_id_len = hp ! 38;
       (if hp ! 0 \<noteq> HANDSHAKE_SERVER_HELLO \<or> hp ! 1 \<noteq> 0 \<or> hp ! 2 \<noteq> 0 \<or> hp ! 4 \<noteq> TLS_MAJ \<or> hp ! 5 \<noteq> TLS_MIN
        then bad_record_die tls len
        else if session_id_len \<noteq> 32 \<and> session_id_len \<noteq> 0 then bad_record_die tls len
        else
          let cipherid = (if session_id_len = 32 then RECHDR_LEN + 71 else RECHDR_LEN + 71 - 32);
              len24 = (if session_id_len = 32 then unat (hp ! 3) else unat (hp ! 3) + 32)
          in if len24 < 70 then bad_record_die tls len
             else do {
               h \<leftarrow> hsd tls;
               rands \<leftarrow> wr_n (client_and_server_rand32 h) 32 (take 32 (drop 6 hp));
               id \<leftarrow> rd_n (inbuf tls) cipherid 2;
               Some (Going (choose_cipher (tls\<lparr>hsd := Some (h\<lparr>client_and_server_rand32 := rands\<rparr>)\<rparr>) (id ! 0) (id ! 1)))
             })
     })"

definition tls_error_die :: "'a ended option" where "tls_error_die = Some (Died ''tls error'')"

definition get_server_cert :: "tls_state \<Rightarrow> tls_state ended option" where
  "get_server_cert tls =
     run_read (tls_xread_handshake_block tls 10) (\<lambda>len tls.
       let certbuf = RECHDR_LEN in do {
         type \<leftarrow> rd (inbuf tls) certbuf;
         (if type \<noteq> HANDSHAKE_CERTIFICATE then bad_record_die tls len
          else do {
            len1 \<leftarrow> get24be (inbuf tls) (certbuf + 1);
            (if int len1 > int len - 4 then tls_error_die
             else do {
               len2 \<leftarrow> get24be (inbuf tls) (certbuf + 4);
               (if int len2 > int len1 - 3 then tls_error_die
                else do {
                  len3 \<leftarrow> get24be (inbuf tls) (certbuf + 7);
                  (if int len3 > int len2 - 3 then tls_error_die
                   else if len3 \<noteq> 0 then find_key_in_der_cert tls (certbuf + 10) len3
                   else Some (Going tls))
                })
             })
          })
       })"

definition process_server_key :: "tls_state \<Rightarrow> nat \<Rightarrow> tls_state ended option" where
  "process_server_key tls len =
     (let keybuf = RECHDR_LEN in do {
        len1 \<leftarrow> get24be (inbuf tls) (keybuf + 1);
        (if int len1 > int len - 4 then tls_error_die
         else if len1 < 1 + 2 + 1 + 32 then tls_error_die
         else do {
           let keybuf = keybuf + 4;
           t32 \<leftarrow> rd_n (inbuf tls) keybuf 4;
           (if word_of_le t32 \<noteq> htonl 0x03001d20 then Some (Died ''elliptic curve is not x25519'')
            else do {
              key \<leftarrow> rd_n (inbuf tls) (keybuf + 4) 32;
              h \<leftarrow> hsd tls;
              Some (Going (tls\<lparr>hsd := Some (h\<lparr>ecc_pub_key32 := key\<rparr>), flags := flags tls OR GOT_EC_KEY\<rparr>))
            })
         })
      })"

definition send_empty_client_cert :: "tls_state \<Rightarrow> tls_state ended option" where
  "send_empty_client_cert tls =
     next_item (tls_get_zeroed_outbuf tls 7) (\<lambda>tls. do {
       mem \<leftarrow> wr_n (outbuf tls) OUTBUF_PFX [HANDSHAKE_CERTIFICATE];
       mem \<leftarrow> wr_n mem (OUTBUF_PFX + 3) [3];
       xwrite_and_update_handshake_hash (tls\<lparr>outbuf := mem\<rparr>) 7
     })"

section \<open>Keys\<close>

text \<open>The two kinds of key exchange: the premaster secret, and the bytes that carry it in \<^verbatim>\<open>record->key\<close>.\<close>

definition rsa_premaster_secret :: "tls_state \<Rightarrow> handshake_data \<Rightarrow> (u8 list \<times> u8 list \<times> tls_state) ended" where
  "rsa_premaster_secret tls h =
     (case tls_get_random tls RSA_PREMASTER_SIZE of
        Died e \<Rightarrow> Died e
      | Going (rsa_premaster, tls) \<Rightarrow>
          let rsa_premaster = rsa_premaster[0 := TLS_MAJ, 1 := TLS_MIN]
          in case psRsaEncryptPub tls (server_rsa_pub_key h) rsa_premaster (4 * 1024) of
               Died e \<Rightarrow> Died e
             | Going (out, tls) \<Rightarrow> Going (rsa_premaster, len16 (length out) @ out, tls))"

definition basepoint9 :: "u8 list" where "basepoint9 = 9 # replicate (CURVE25519_KEYSIZE - 1) 0"

definition ecdhe_premaster_secret :: "tls_state \<Rightarrow> handshake_data \<Rightarrow> (u8 list \<times> u8 list \<times> tls_state) ended" where
  "ecdhe_premaster_secret tls h =
     (case tls_get_random tls CURVE25519_KEYSIZE of
        Died e \<Rightarrow> Died e
      | Going (privkey, tls) \<Rightarrow>
          let privkey = privkey[0 := privkey ! 0 AND 0xf8];
              privkey = privkey[CURVE25519_KEYSIZE - 1 := (privkey ! (CURVE25519_KEYSIZE - 1) AND 0x7f) OR 0x40];
              key = curve25519 privkey basepoint9;
              x25519_premaster = curve25519 privkey (ecc_pub_key32 h)
          in Going (x25519_premaster, of_nat CURVE25519_KEYSIZE # key, tls))"

definition tls_text :: "string \<Rightarrow> u8 list" where "tls_text s = map (\<lambda>c. of_nat (of_char c)) s"

text \<open>From the premaster secret to the keys of the two directions, and the hash key of GCM.\<close>

definition derive_keys :: "tls_state \<Rightarrow> u8 list \<Rightarrow> tls_state option" where
  "derive_keys tls premaster = do {
     h \<leftarrow> hsd tls;
     master \<leftarrow> prf_hmac_sha256 blank_hmac 48 premaster (tls_text ''master secret'') (client_and_server_rand32 h);
     let tls = tls\<lparr>hsd := Some (h\<lparr>master_secret := master\<rparr>)\<rparr>;
     srand \<leftarrow> rd_n (client_and_server_rand32 h) 32 32;
     crand \<leftarrow> rd_n (client_and_server_rand32 h) 0 32;
     let tmp64 = srand @ crand;
     block \<leftarrow> prf_hmac_sha256 blank_hmac (2 * (MAC_size tls + key_size tls + IV_size tls)) master (tls_text ''key expansion'') tmp64;
     mem \<leftarrow> wr_n (key_area tls) 0 block;
     let tls = tls\<lparr>key_area := mem\<rparr>;
     let tls = tls\<lparr>client_write_key := 2 * MAC_size tls\<rparr>;
     let tls = tls\<lparr>server_write_key := client_write_key tls + key_size tls\<rparr>;
     let tls = tls\<lparr>client_write_IV := server_write_key tls + key_size tls\<rparr>;
     let tls = tls\<lparr>server_write_IV := client_write_IV tls + IV_size tls\<rparr>;
     skey \<leftarrow> rd_n (key_area tls) (server_write_key tls) (key_size tls);
     dec \<leftarrow> aes_setkey (aes_decrypt tls) skey (key_size tls);
     ckey \<leftarrow> rd_n (key_area tls) (client_write_key tls) (key_size tls);
     enc \<leftarrow> aes_setkey (aes_encrypt tls) ckey (key_size tls);
     H \<leftarrow> aes_encrypt_one_block enc (replicate AES_BLOCK_SIZE 0);
     Some (tls\<lparr>aes_decrypt := dec, aes_encrypt := enc, aes_H := H\<rparr>)
   }"

definition send_client_key_exchange :: "tls_state \<Rightarrow> tls_state ended option" where
  "send_client_key_exchange tls =
     next_item (tls_get_zeroed_outbuf tls (4 + (2 + 4 * 1024))) (\<lambda>tls. do {
       h \<leftarrow> hsd tls;
       next_item (Some (if flags tls AND NEED_EC_KEY = 0 then rsa_premaster_secret tls h else ecdhe_premaster_secret tls h))
         (\<lambda>(premaster, key, tls). do {
            mem \<leftarrow> wr_n (outbuf tls) (OUTBUF_PFX + 4) key;
            let len = length key;
            mem \<leftarrow> wr_n mem OUTBUF_PFX [HANDSHAKE_CLIENT_KEY_EXCHANGE];
            mem \<leftarrow> wr_n mem (OUTBUF_PFX + 2) (len16 len);
            let len = len + 4;
            next_item (xwrite_and_update_handshake_hash (tls\<lparr>outbuf := mem\<rparr>) len) (\<lambda>tls.
              map_option Going (derive_keys tls premaster))
          })
     })"

definition rec_CHANGE_CIPHER_SPEC :: "u8 list" where
  "rec_CHANGE_CIPHER_SPEC = [RECORD_TYPE_CHANGE_CIPHER_SPEC, TLS_MAJ, TLS_MIN, 0, 1, 1]"

definition send_change_cipher_spec :: "tls_state \<Rightarrow> tls_state" where
  "send_change_cipher_spec tls = xwrite tls rec_CHANGE_CIPHER_SPEC"

text \<open>The context \<^verbatim>\<open>sha_end\<close> leaves: the record that follows is still hashed into it.\<close>

definition sha1_ended :: "md5_ctx \<Rightarrow> md5_ctx" where
  "sha1_ended ctx = (let ctx = common64_end True ctx in ctx\<lparr>hash_words := map swap32 (hash_words ctx)\<rparr>)"

definition send_client_finished :: "tls_state \<Rightarrow> tls_state ended option" where
  "send_client_finished tls =
     next_item (Some (tls_get_outbuf tls 16)) (\<lambda>tls. do {
       mem \<leftarrow> fill_handshake_record_hdr (outbuf tls) OUTBUF_PFX HANDSHAKE_FINISHED 16;
       h \<leftarrow> hsd tls;
       let handshake_hash = sha1_end (handshake_hash_ctx h);
       let tls = tls\<lparr>hsd := Some (h\<lparr>handshake_hash_ctx := sha1_ended (handshake_hash_ctx h)\<rparr>)\<rparr>;
       prf_result \<leftarrow> prf_hmac_sha256 blank_hmac 12 (master_secret h) (tls_text ''client finished'') handshake_hash;
       mem \<leftarrow> wr_n mem (OUTBUF_PFX + 4) prf_result;
       xwrite_encrypted (tls\<lparr>outbuf := mem\<rparr>) 16 RECORD_TYPE_HANDSHAKE
     })"

section \<open>The handshake\<close>

text \<open>The messages from the server after its certificate, up to \<^verbatim>\<open>ServerHelloDone\<close>: whether it wants a certificate.\<close>

definition read_server_messages :: "tls_state \<Rightarrow> (bool \<times> tls_state) ended option" where
  "read_server_messages tls =
     run_read (tls_xread_handshake_block tls 4) (\<lambda>len tls. do {
       type \<leftarrow> rd (inbuf tls) RECHDR_LEN;
       let cert_req = (\<lambda>len tls. do {
         type \<leftarrow> rd (inbuf tls) RECHDR_LEN;
         let hello_done = (\<lambda>got_cert_req len tls. do {
           type \<leftarrow> rd (inbuf tls) RECHDR_LEN;
           (if type \<noteq> HANDSHAKE_SERVER_HELLO_DONE then bad_record_die tls len else Some (Going (got_cert_req, tls)))
         });
         (if type = HANDSHAKE_CERTIFICATE_REQUEST
          then run_read (tls_xread_handshake_block tls 4) (hello_done True)
          else hello_done False len tls)
       });
       (if type = HANDSHAKE_SERVER_KEY_EXCHANGE then
          next_item (if flags tls AND NEED_EC_KEY \<noteq> 0 then process_server_key tls len else Some (Going tls)) (\<lambda>tls.
            run_read (tls_xread_handshake_block tls 4) cert_req)
        else cert_req len tls)
     })"

text \<open>The end: the server's change of cipher, the sizes of its records from now on, its last message.\<close>

definition finish_handshake :: "tls_state \<Rightarrow> tls_state ended option" where
  "finish_handshake tls =
     run_read (tls_xread_record tls) (\<lambda>len tls. do {
       bs \<leftarrow> (if len = 1 then rd_n (inbuf tls) 0 6 else Some []);
       (if bs \<noteq> rec_CHANGE_CIPHER_SPEC then bad_record_die tls len
        else
          let tls =
            (if flags tls AND ENCRYPTION_AESGCM = 0 then
               let mac_blocks = (TLS_MAC_SIZE + AES_BLOCK_SIZE - 1) div AES_BLOCK_SIZE
               in tls\<lparr>min_encrypted_len_on_read := AES_BLOCK_SIZE + mac_blocks * AES_BLOCK_SIZE\<rparr>
             else tls\<lparr>min_encrypted_len_on_read := 8 + AES_BLOCK_SIZE\<rparr>)
          in run_read (tls_xread_record tls) (\<lambda>len tls. do {
               type \<leftarrow> rd (inbuf tls) RECHDR_LEN;
               (if len < 4 \<or> type \<noteq> HANDSHAKE_FINISHED then bad_record_die tls len
                else Some (Going (tls\<lparr>hsd := None\<rparr>)))
             }))
     })"

definition tls_handshake :: "tls_state \<Rightarrow> u8 list option \<Rightarrow> tls_state ended option" where
  "tls_handshake tls sni =
     next_item (send_client_hello_and_alloc_hsd tls sni) (\<lambda>tls.
     next_item (get_server_hello tls) (\<lambda>tls.
     next_item (get_server_cert tls) (\<lambda>tls.
     next_item (read_server_messages tls) (\<lambda>(got_cert_req, tls).
     next_item (if got_cert_req then send_empty_client_cert tls else Some (Going tls)) (\<lambda>tls.
     next_item (send_client_key_exchange tls) (\<lambda>tls.
       let tls = send_change_cipher_spec tls;
           tls = tls\<lparr>flags := flags tls OR ENCRYPT_ON_WRITE\<rparr>
       in next_item (send_client_finished tls) finish_handshake))))))"


end
