(* ===== verification/TlsHandshakeProofs.thy ===== *)
theory TlsHandshakeProofs
  imports TlsHandshake
begin

text \<open>
  What the handshake of \<^verbatim>\<open>networking/tls.c\<close> does with a server that uses ECDHE with AES-128-GCM and sends each
  message in a record of its own (\<open>server_ok\<close>): the messages the client sends, the keys both sides end with, and
  the hash over everything that was said. And what it does not check.
\<close>

section \<open>Records in the clear\<close>

definition plain_wire :: "u8 \<Rightarrow> u8 list \<Rightarrow> u8 list" where
  "plain_wire type m = [type, 3, 3] @ len16 (length m) @ m"

text \<open>The state without its buffers, and what only reading changes.\<close>

definition core :: "tls_state \<Rightarrow> tls_state" where
  "core tls = tls\<lparr>inbuf := [], incoming := [], buffered_size := 0, ofs_to_buffered := 0, outbuf := []\<rparr>"

definition same_reading :: "tls_state \<Rightarrow> tls_state \<Rightarrow> bool" where
  "same_reading tls tls' \<longleftrightarrow> inbuf tls' = inbuf tls \<and> incoming tls' = incoming tls \<and> buffered_size tls' = buffered_size tls
     \<and> ofs_to_buffered tls' = ofs_to_buffered tls"

text \<open>Between two records of the handshake: what is still to be read.\<close>

definition reads :: "tls_state \<Rightarrow> u8 list \<Rightarrow> bool" where
  "reads tls rest \<longleftrightarrow> reader_ok tls \<and> unread tls = rest"

lemma same_reading_reads: "same_reading tls tls' \<Longrightarrow> reads tls rest \<Longrightarrow> reads tls' rest"
  by (simp add: same_reading_def reads_def reader_ok_def unread_def)

lemma same_reading_trans: "same_reading a b \<Longrightarrow> same_reading b c \<Longrightarrow> same_reading a c"
  by (simp add: same_reading_def)

lemma core_fields [simp]:
  "flags (core tls) = flags tls" "min_encrypted_len_on_read (core tls) = min_encrypted_len_on_read tls"
  "cipher_id (core tls) = cipher_id tls" "MAC_size (core tls) = MAC_size tls" "key_size (core tls) = key_size tls"
  "IV_size (core tls) = IV_size tls" "hsd (core tls) = hsd tls" "write_seq64_be (core tls) = write_seq64_be tls"
  "client_write_key (core tls) = client_write_key tls" "server_write_key (core tls) = server_write_key tls"
  "client_write_IV (core tls) = client_write_IV tls" "server_write_IV (core tls) = server_write_IV tls"
  "key_area (core tls) = key_area tls" "aes_encrypt (core tls) = aes_encrypt tls" "aes_decrypt (core tls) = aes_decrypt tls"
  "aes_H (core tls) = aes_H tls" "sent (core tls) = sent tls" "urandom (core tls) = urandom tls"
  by (simp_all add: core_def)

lemma core_update [simp]:
  "core (tls\<lparr>outbuf := a\<rparr>) = core tls" "core (tls\<lparr>inbuf := b\<rparr>) = core tls" "core (tls\<lparr>incoming := c\<rparr>) = core tls"
  "core (tls\<lparr>buffered_size := n\<rparr>) = core tls" "core (tls\<lparr>ofs_to_buffered := n\<rparr>) = core tls"
  "core (tls\<lparr>hsd := h\<rparr>) = (core tls)\<lparr>hsd := h\<rparr>" "core (tls\<lparr>sent := s\<rparr>) = (core tls)\<lparr>sent := s\<rparr>"
  "core (tls\<lparr>urandom := u\<rparr>) = (core tls)\<lparr>urandom := u\<rparr>" "core (tls\<lparr>flags := f\<rparr>) = (core tls)\<lparr>flags := f\<rparr>"
  by (simp_all add: core_def)

text \<open>Fields of a state whose core is known.\<close>

lemma core_eq_fields:
  assumes "core tls = s"
  shows "flags tls = flags s" "min_encrypted_len_on_read tls = min_encrypted_len_on_read s"
    "cipher_id tls = cipher_id s" "MAC_size tls = MAC_size s" "key_size tls = key_size s"
    "IV_size tls = IV_size s" "hsd tls = hsd s" "write_seq64_be tls = write_seq64_be s"
    "key_area tls = key_area s" "aes_encrypt tls = aes_encrypt s" "aes_decrypt tls = aes_decrypt s"
    "aes_H tls = aes_H s" "sent tls = sent s" "urandom tls = urandom s"
  using assms by auto

lemma plain_record_read:
  assumes "reads tls (plain_wire type m @ rest)" "min_encrypted_len_on_read tls = 0" "length m + 5 \<le> MAX_INBUF" "passes_on tls type"
  obtains tls' r where "tls_xread_record tls = Some (Going (length m), tls')" "inbuf tls' = plain_wire type m @ r" "reads tls' rest"
    "core tls' = (core tls)\<lparr>hsd := if type = 22 then map_option (\<lambda>h. h\<lparr>handshake_hash_ctx := md5_hash (handshake_hash_ctx h) m\<rparr>) (hsd tls)
       else hsd tls\<rparr>"
proof -
  let ?l = "length m"
  let ?h = "if type = 22 then map_option (\<lambda>h. h\<lparr>handshake_hash_ctx := md5_hash (handshake_hash_ctx h) m\<rparr>) (hsd tls) else hsd tls"
  have ok: "reader_ok tls" "unread tls = (([type, 3, 3] @ len16 ?l) @ m) @ rest" using assms(1) by (simp_all add: reads_def plain_wire_def)
  have "5 + ?l \<le> MAX_INBUF" using assms(3) by simp
  from record_in_buffer [OF ok refl this] obtain tls1 r where t: "xread_once tls = record_read tls1 ?l" "reader_ok tls1" "unread tls1 = rest"
    "inbuf tls1 = (([type, 3, 3] @ len16 ?l) @ m) @ r" "same_keys tls tls1" "hsd tls1 = hsd tls" by metis
  have same: "tls1 = tls\<lparr>inbuf := inbuf tls1, incoming := incoming tls1, buffered_size := buffered_size tls1,
     ofs_to_buffered := ofs_to_buffered tls1\<rparr>"
  proof -
    have "tls\<lparr>inbuf := a, incoming := b, buffered_size := c, ofs_to_buffered := d, hsd := hsd tls\<rparr>
      = tls\<lparr>inbuf := a, incoming := b, buffered_size := c, ofs_to_buffered := d\<rparr>" for a b c d by (cases tls) simp
    then show ?thesis using t(5) [unfolded same_keys_def t(6)] by (rule_tac trans)
  qed
  have min: "min_encrypted_len_on_read tls1 = 0" by (subst same) (simp add: assms(2))
  have "core tls1 = core tls" by (subst same) (simp add: core_def)
  moreover have in1: "inbuf tls1 = plain_wire type m @ r" using t(4) by (simp add: plain_wire_def)
  moreover have "rd (inbuf tls1) 0 = Some type" using t(4) by (simp add: rd_def)
  moreover have "rd_n (inbuf tls1) 5 ?l = Some m" using rd_n_mid [of "[type, 3, 3] @ len16 ?l" 5 m ?l r] t(4) by simp
  ultimately have "xread_once tls = Some (Some (Going ?l), tls1\<lparr>hsd := ?h\<rparr>)"
    using assms(4) t(1,6) min
    by (auto simp: record_read_def decrypt_record_def handle_record_def hash_handshake_def passes_on_def RECHDR_LEN_def
        RECORD_TYPE_ALERT_def RECORD_TYPE_HANDSHAKE_def)
  then have "tls_xread_record tls = Some (Going ?l, tls1\<lparr>hsd := ?h\<rparr>)" by (rule tls_xread_record_once)
  moreover have "reads (tls1\<lparr>hsd := ?h\<rparr>) rest" using t(2,3) by (simp add: reads_def reader_ok_def unread_def)
  moreover have "inbuf (tls1\<lparr>hsd := ?h\<rparr>) = plain_wire type m @ r" using in1 by simp
  moreover have "core (tls1\<lparr>hsd := ?h\<rparr>) = (core tls)\<lparr>hsd := ?h\<rparr>" by (simp add: \<open>core tls1 = core tls\<close>)
  ultimately show ?thesis using that by blast
qed

lemma plain_wire_parts:
  assumes "mem = plain_wire type m @ r"
  shows "rd mem 0 = Some type" "i + n \<le> length m \<Longrightarrow> rd_n mem (RECHDR_LEN + i) n = Some (take n (drop i m))"
    "i < length m \<Longrightarrow> rd mem (RECHDR_LEN + i) = Some (m ! i)"
proof -
  define hdr where "hdr = [type, 3, 3] @ len16 (length m)"
  have five: "mem = hdr @ m @ r" "length hdr = 5" by (simp_all add: assms plain_wire_def hdr_def)
  show "rd mem 0 = Some type" by (simp add: five(1) hdr_def rd_def)
  have d: "drop (5 + i) mem = drop i (m @ r)" "5 + length m \<le> length mem" unfolding five(1) using five(2) by simp_all
  show "i + n \<le> length m \<Longrightarrow> rd_n mem (RECHDR_LEN + i) n = Some (take n (drop i m))"
    using d by (simp add: rd_n_def RECHDR_LEN_def)
  show "rd mem (RECHDR_LEN + i) = Some (m ! i)" if "i < length m"
  proof -
    have "mem ! (5 + i) = drop (5 + i) mem ! 0" using that d(2) by simp
    then show ?thesis using that d by (simp add: RECHDR_LEN_def nth_append)
  qed
qed

text \<open>A handshake message is read, and hashed.\<close>

lemma handshake_block_read:
  assumes "reads tls (plain_wire 22 m @ rest)" "min_encrypted_len_on_read tls = 0" "length m + 5 \<le> MAX_INBUF" "hsd tls = Some h"
    and "min_len \<le> length m"
  obtains tls' r where "tls_xread_handshake_block tls min_len = Some (Going (length m), tls')" "inbuf tls' = plain_wire 22 m @ r"
    "reads tls' rest" "core tls' = (core tls)\<lparr>hsd := Some (h\<lparr>handshake_hash_ctx := md5_hash (handshake_hash_ctx h) m\<rparr>)\<rparr>"
proof -
  have "passes_on tls 22" using assms(4) by (simp add: passes_on_def)
  from plain_record_read [OF assms(1-3) this] obtain tls' r where t: "tls_xread_record tls = Some (Going (length m), tls')"
    "inbuf tls' = plain_wire 22 m @ r" "reads tls' rest"
    "core tls' = (core tls)\<lparr>hsd := Some (h\<lparr>handshake_hash_ctx := md5_hash (handshake_hash_ctx h) m\<rparr>)\<rparr>"
    using assms(4) by auto
  have "tls_xread_handshake_block tls min_len = Some (Going (length m), tls')"
    using t(1) plain_wire_parts(1) [OF t(2)] assms(5) by (simp add: tls_xread_handshake_block_def RECORD_TYPE_HANDSHAKE_def)
  then show ?thesis using t that by blast
qed

section \<open>Messages in the clear\<close>

text \<open>A buffer with room for a message of \<open>n\<close> bytes.\<close>

lemma zeroed_outbuf:
  assumes "n \<le> TLS_MAX_OUTBUF"
  obtains p s where "tls_get_zeroed_outbuf tls n = Some (Going (tls\<lparr>outbuf := p @ replicate n 0 @ s\<rparr>))" "length p = 24" "48 \<le> length s"
proof -
  define len where "len = n + OUTBUF_PFX + OUTBUF_SFX"
  define b where "b = (if length (outbuf tls) < len then outbuf tls @ replicate (len - length (outbuf tls)) (junk tls) else outbuf tls)"
  have get: "tls_get_outbuf tls n = Going (tls\<lparr>outbuf := b\<rparr>)" using assms by (simp add: tls_get_outbuf_def b_def len_def Let_def)
  have b: "24 + n + 48 \<le> length b" by (auto simp: b_def len_def tls_sizes)
  have "wr_n b 24 (replicate n 0) = Some (take 24 b @ replicate n 0 @ drop (24 + n) b)" using b by (simp add: wr_n_def)
  then have "tls_get_zeroed_outbuf tls n = Some (Going (tls\<lparr>outbuf := take 24 b @ replicate n 0 @ drop (24 + n) b\<rparr>))"
    by (simp add: tls_get_zeroed_outbuf_def get OUTBUF_PFX_def AES_BLOCK_SIZE_def)
  then show ?thesis using that b by simp
qed

text \<open>A message in the buffer is sent as one record, and hashed.\<close>

lemma handshake_message_sent:
  assumes "outbuf tls = p @ m @ s" "length p = 24" "length m = n" "flags tls AND ENCRYPT_ON_WRITE = 0" "hsd tls = Some h"
  obtains tls' where "xwrite_and_update_handshake_hash tls n = Some (Going tls')" "same_reading tls tls'"
    "core tls' = (core tls)\<lparr>sent := sent tls @ [plain_wire 22 m], hsd := Some (h\<lparr>handshake_hash_ctx := md5_hash (handshake_hash_ctx h) m\<rparr>)\<rparr>"
proof -
  let ?hdr = "[22, 3, 3] @ len16 n"
  define a where "a = take 19 p"
  define b where "b = drop 19 p"
  have p: "p = a @ b" "length a = 19" "length b = 5" using assms(2) by (simp_all add: a_def b_def)
  have hdr: "length ?hdr = 5" by simp
  have w: "wr_n (p @ m @ s) 19 ?hdr = Some (a @ ?hdr @ m @ s)" using wr_n_mid [OF p(2), of b ?hdr "m @ s"] p(3) hdr unfolding p(1) by simp
  have r: "rd_n (a @ ?hdr @ m @ s) 19 (5 + n) = Some (plain_wire 22 m)"
    using rd_n_mid [of a 19 "?hdr @ m" "5 + n" s] p(2) assms(3) hdr by (simp add: plain_wire_def)
  have r2: "rd_n (a @ ?hdr @ m @ s) 24 n = Some m" using rd_n_mid [of "a @ ?hdr" 24 m n s] p(2) assms(3) hdr by simp
  let ?tls = "tls\<lparr>outbuf := a @ ?hdr @ m @ s, sent := sent tls @ [plain_wire 22 m]\<rparr>"
  have "xwrite_handshake_record tls n = Some ?tls"
    using w r unfolding xwrite_handshake_record_def Let_def assms(1)
    by (simp add: OUTBUF_PFX_def AES_BLOCK_SIZE_def RECHDR_LEN_def RECORD_TYPE_HANDSHAKE_def TLS_MAJ_def TLS_MIN_def xwrite_def)
  then have "xwrite_and_update_handshake_hash tls n
      = Some (Going (?tls\<lparr>hsd := Some (h\<lparr>handshake_hash_ctx := md5_hash (handshake_hash_ctx h) m\<rparr>)\<rparr>))"
    using r2 assms(4,5) by (simp add: xwrite_and_update_handshake_hash_def hash_handshake_def OUTBUF_PFX_def AES_BLOCK_SIZE_def)
  then show ?thesis using that by (simp add: same_reading_def)
qed

text \<open>A handshake message with its header.\<close>

definition be24 :: "nat \<Rightarrow> u8 list" where "be24 n = [of_nat (n div 2 ^ 16), of_nat (n div 2 ^ 8), of_nat n]"

definition handshake_message :: "u8 \<Rightarrow> u8 list \<Rightarrow> u8 list" where
  "handshake_message type body = type # be24 (length body) @ body"

lemma be24_length [simp]: "length (be24 n) = 3" by (simp add: be24_def)

lemma handshake_message_length [simp]: "length (handshake_message type body) = 4 + length body"
  by (simp add: handshake_message_def)

lemma and_ff: "(w AND 0xff :: u8) = w"
proof -
  have "(0xff :: u8) = -1" by simp
  then show ?thesis by (simp only: and.right_neutral)
qed

lemma fill_handshake_record_hdr_fills:
  assumes "length p = 24" "length z = 4" "length body + 4 = n"
  shows "fill_handshake_record_hdr (p @ z @ r) 24 type n = Some (p @ (type # be24 (length body)) @ r)"
proof -
  have "n - 4 = length body" using assms(3) by simp
  then show ?thesis
    using wr_n_mid [OF assms(1), of z "type # be24 (length body)" r] assms(2)
    by (simp add: fill_handshake_record_hdr_def and_ff be24_def Let_def)
qed

lemma get24be_be24: "n < 2 ^ 24 \<Longrightarrow> rd_n mem d 3 = Some (be24 n) \<Longrightarrow> get24be mem d = Some n"
proof -
  assume n: "n < 2 ^ 24" and r: "rd_n mem d 3 = Some (be24 n)"
  have "n div 2 ^ 16 < 256" using n by simp
  then have "256 * (256 * (n div 2 ^ 16) + n div 2 ^ 8 mod 256) + n mod 256 = n"
  proof -
    have "n div 2 ^ 8 = 256 * (n div 2 ^ 16) + n div 2 ^ 8 mod 256" using mult_div_mod_eq [of 256 "n div 2 ^ 8"] by (simp add: div_mult2_eq [symmetric])
    moreover have "n = 256 * (n div 2 ^ 8) + n mod 256" using mult_div_mod_eq [of 256 n] by simp
    ultimately show ?thesis by presburger
  qed
  moreover have "unat (of_nat (n div 2 ^ 16) :: u8) = n div 2 ^ 16" "unat (of_nat (n div 2 ^ 8) :: u8) = n div 2 ^ 8 mod 256"
    "unat (of_nat n :: u8) = n mod 256" using n by (simp_all add: unat_of_nat)
  ultimately show "get24be mem d = Some n" using r by (simp add: get24be_def be24_def)
qed

section \<open>The client hello\<close>

definition be16 :: "nat \<Rightarrow> u8 list" where "be16 n = [of_nat (n div 2 ^ 8), of_nat n]"

text \<open>The name the code takes, and the extension of RFC 6066 that carries it.\<close>

definition sni_name :: "u8 list option \<Rightarrow> u8 list" where
  "sni_name sni = (case sni of None \<Rightarrow> [] | Some s \<Rightarrow> take 122 s)"

definition sni_extension :: "u8 list \<Rightarrow> u8 list" where
  "sni_extension name =
     (if name = [] then [] else [0, 0] @ be16 (length name + 5) @ be16 (length name + 3) @ [0] @ be16 (length name) @ name)"

definition client_hello :: "u8 list \<Rightarrow> u8 list option \<Rightarrow> u8 list" where
  "client_hello rand32 sni =
     (let exts = sni_extension (sni_name sni) @ supported_groups
      in handshake_message HANDSHAKE_CLIENT_HELLO ([TLS_MAJ, TLS_MIN] @ rand32 @ [0] @ ciphers @ be16 (length exts) @ exts))"

lemma hello_sizes: "length ciphers = 20" "length supported_groups = 8" "length (be16 n) = 2"
  "length (sni_extension name) = (if name = [] then 0 else 9 + length name)"
  by (simp_all add: ciphers_def supported_groups_def be16_def sni_extension_def)

lemma replicate_parts: "replicate (a + b) x = replicate a x @ replicate b x"
  by (rule replicate_add)

lemma sni_written:
  assumes "length f = 85" "name \<noteq> []" "length name \<le> 122"
  shows "(do {
      mem \<leftarrow> wr_n (f @ replicate (9 + length name) 0 @ r) 88 [of_nat (length name + 5)];
      mem \<leftarrow> wr_n mem 90 [of_nat (length name + 3)];
      mem \<leftarrow> wr_n mem 93 [of_nat (length name)];
      wr_n mem 94 name
    }) = Some (f @ sni_extension name @ r)"
proof -
  let ?n = "length name"
  define a b c :: u8 where "a = of_nat (?n + 5)" and "b = of_nat (?n + 3)" and "c = of_nat ?n"
  have small: "(?n + 5) div 256 = 0" "(?n + 3) div 256 = 0" "?n div 256 = 0" using assms(3) by simp_all
  have e: "sni_extension name = [0, 0, 0, a, 0, b, 0, 0, c] @ name"
    using assms(2) by (simp add: sni_extension_def be16_def small a_def b_def c_def)
  have z: "replicate (9 + ?n) 0 = [0, 0, 0, 0, 0, 0, 0, 0, 0] @ replicate ?n (0 :: u8)" by (simp add: numeral_eq_Suc)
  have w: "wr_n (f @ [0, 0, 0, 0, 0, 0, 0, 0, 0] @ q) 88 [a] = Some (f @ [0, 0, 0, a, 0, 0, 0, 0, 0] @ q)"
    "wr_n (f @ [0, 0, 0, a, 0, 0, 0, 0, 0] @ q) 90 [b] = Some (f @ [0, 0, 0, a, 0, b, 0, 0, 0] @ q)"
    "wr_n (f @ [0, 0, 0, a, 0, b, 0, 0, 0] @ q) 93 [c] = Some (f @ [0, 0, 0, a, 0, b, 0, 0, c] @ q)" for q
    using wr_n_mid [of "f @ [0, 0, 0]" 88 "[0]" "[a]" "[0, 0, 0, 0, 0] @ q"]
      wr_n_mid [of "f @ [0, 0, 0, a, 0]" 90 "[0]" "[b]" "[0, 0, 0] @ q"]
      wr_n_mid [of "f @ [0, 0, 0, a, 0, b, 0, 0]" 93 "[0]" "[c]" q] assms(1) by simp_all
  have w4: "wr_n (f @ [0, 0, 0, a, 0, b, 0, 0, c] @ replicate ?n 0 @ r) 94 name = Some (f @ [0, 0, 0, a, 0, b, 0, 0, c] @ name @ r)"
    using wr_n_mid [of "f @ [0, 0, 0, a, 0, b, 0, 0, c]" 94 "replicate ?n 0" name r] assms(1) by simp
  show ?thesis
    unfolding z e append_assoc a_def [symmetric] b_def [symmetric] c_def [symmetric] w bind.bind_lunit w4 ..
qed

lemma client_hello_sent:
  assumes "32 \<le> length (urandom tls)" "flags tls AND ENCRYPT_ON_WRITE = 0"
  defines "rand \<equiv> take 32 (urandom tls)"
  obtains tls' where "send_client_hello_and_alloc_hsd tls sni = Some (Going tls')" "same_reading tls tls'"
    "core tls' = (core tls)\<lparr>urandom := drop 32 (urandom tls), sent := sent tls @ [plain_wire 22 (client_hello rand sni)],
       hsd := Some (zero_hsd\<lparr>client_and_server_rand32 := rand @ replicate 32 0,
         handshake_hash_ctx := md5_hash (sha256_begin blank_ctx) (client_hello rand sni)\<rparr>)\<rparr>"
proof -
  define name where "name = sni_name sni"
  define ext where "ext = sni_extension name @ supported_groups"
  define n where "n = length name"
  have n: "(case sni of None \<Rightarrow> 0 | Some s \<Rightarrow> min (length s) (127 - 5)) = n" "n \<le> 122"
    by (simp_all add: n_def name_def sni_name_def split: option.split)
  have ext_len: "(if n \<noteq> 0 then length supported_groups + 9 + n else length supported_groups) = length ext"
    by (simp add: ext_def hello_sizes n_def)
  have ext_small: "length ext \<le> 139" using n(2) by (auto simp: ext_def hello_sizes n_def)
  let ?len = "59 + 2 + length ext"
  obtain p s where z: "tls_get_zeroed_outbuf tls ?len = Some (Going (tls\<lparr>outbuf := p @ replicate ?len 0 @ s\<rparr>))" "length p = 24" "48 \<le> length s"
    by (rule zeroed_outbuf [of ?len tls]) (use ext_small in \<open>simp_all add: TLS_MAX_OUTBUF_def\<close>)
  have rand: "length rand = 32" using assms(1) by (simp add: rand_def)
  have random: "tls_get_random (tls\<lparr>outbuf := b\<rparr>) 32 = Going (rand, tls\<lparr>outbuf := b, urandom := drop 32 (urandom tls)\<rparr>)" for b
    using assms(1) by (simp add: tls_get_random_def rand_def)
  define hdr where "hdr = HANDSHAKE_CLIENT_HELLO # be24 (57 + length ext)"
  have hdr: "length hdr = 4" by (simp add: hdr_def)
  define f1 where "f1 = (p @ hdr) @ [TLS_MAJ, TLS_MIN]"
  define f2 where "f2 = (f1 @ rand) @ [0]"
  define f3 where "f3 = (f2 @ ciphers) @ be16 (length ext)"
  have f: "length f1 = 30" "length f2 = 63" "length f3 = 85"
    using z(2) hdr rand by (simp_all add: f1_def f2_def f3_def hello_sizes)
  let ?z = "\<lambda>k. replicate k (0 :: u8)"
  let ?x = "length (sni_extension name)"
  have xs: "length ext = ?x + 8" by (simp add: ext_def hello_sizes)
  have one: "[0] = ?z 1" by simp
  have zeros: "?z ?len = ?z 4 @ ?z 2 @ ?z 32 @ [0] @ ?z 20 @ ?z 2 @ ?z ?x @ ?z 8"
    unfolding xs one replicate_add [symmetric] by simp
  have w0: "fill_handshake_record_hdr (p @ ?z ?len @ s) 24 HANDSHAKE_CLIENT_HELLO ?len
      = Some ((p @ hdr) @ ?z 2 @ ?z 32 @ 0 # ?z 20 @ ?z 2 @ ?z ?x @ ?z 8 @ s)"
    using fill_handshake_record_hdr_fills [of p "?z 4" "?z (57 + length ext)" ?len _ HANDSHAKE_CLIENT_HELLO] z(2)
    unfolding zeros append_assoc by (simp add: hdr_def)
  have w1: "wr_n ((p @ hdr) @ ?z 2 @ q) 28 [TLS_MAJ, TLS_MIN] = Some (f1 @ q)" for q
    using wr_n_mid [of "p @ hdr" 28 "?z 2" "[TLS_MAJ, TLS_MIN]" q] z(2) hdr by (simp add: f1_def)
  have w2: "wr_n (f1 @ ?z 32 @ 0 # q) 30 rand = Some (f2 @ q)" for q
    using wr_n_mid [of f1 30 "?z 32" rand "[0] @ q"] f rand by (simp add: f2_def)
  have w3: "wr_n (f2 @ ?z 20 @ q) 63 ciphers = Some ((f2 @ ciphers) @ q)" for q
    using wr_n_mid [of f2 63 "?z 20" ciphers q] f by (simp add: hello_sizes)
  have w4: "wr_n ((f2 @ ciphers) @ ?z 2 @ q) 83 [of_nat (length ext div 256), of_nat (length ext)] = Some (f3 @ q)" for q
    using wr_n_mid [of "f2 @ ciphers" 83 "?z 2" "be16 (length ext)" q] f by (simp add: hello_sizes f3_def be16_def)
  have w5: "wr_n (f3 @ sni_extension name @ ?z 8 @ s) (85 + ?x) supported_groups = Some (f3 @ ext @ s)"
    using wr_n_mid [of "f3 @ sni_extension name" "85 + ?x" "?z 8" supported_groups s] f by (simp add: hello_sizes ext_def)
  have sni: "\<exists>m1 m2 m3. wr_n (f3 @ ?z ?x @ q) 88 [of_nat n + 5] = Some m1 \<and> wr_n m1 90 [of_nat n + 3] = Some m2
      \<and> wr_n m2 93 [of_nat n] = Some m3 \<and> wr_n m3 94 (take n (the sni)) = Some (f3 @ sni_extension name @ q) \<and> ?x = 9 + n"
    if "n \<noteq> 0" for q
  proof -
    have x: "name \<noteq> []" "length name \<le> 122" "?x = 9 + length name" using n(2) that by (simp_all add: n_def hello_sizes)
    have t: "take n (the sni) = name" using x(1) by (auto simp: n_def name_def sni_name_def min_def split: option.splits)
    from sni_written [OF f(3) x(1,2), of q] show ?thesis using t unfolding x(3)
      by (auto simp: bind_eq_Some_conv n_def)
  qed
  have no_sni: "?x = 0" "sni_extension name = []" if "n = 0" using that by (simp_all add: n_def hello_sizes sni_extension_def)
  have hsd: "wr_n (client_and_server_rand32 zero_hsd) 0 rand = Some (rand @ replicate 32 0)"
    using wr_n_mid [of "[]" 0 "replicate 32 0" rand "replicate 32 0"] rand by (simp add: zero_hsd_def replicate_add [symmetric])
  have ctx: "handshake_hash_ctx zero_hsd = blank_ctx" by (simp add: zero_hsd_def)
  let ?h = "zero_hsd\<lparr>client_and_server_rand32 := rand @ replicate 32 0, handshake_hash_ctx := sha256_begin blank_ctx\<rparr>"
  let ?tls = "tls\<lparr>urandom := drop 32 (urandom tls), outbuf := f3 @ ext @ s, hsd := Some ?h\<rparr>"
  have m: "f3 @ ext @ s = p @ client_hello rand sni @ s"
    by (simp add: client_hello_def Let_def handshake_message_def f3_def f2_def f1_def hdr_def ext_def name_def hello_sizes rand)
  have len: "length (client_hello rand sni) = ?len"
    by (simp add: client_hello_def Let_def handshake_message_def ext_def name_def hello_sizes rand)
  have "send_client_hello_and_alloc_hsd tls sni = xwrite_and_update_handshake_hash ?tls ?len"
  proof (cases "n = 0")
    case True
    then show ?thesis
      unfolding send_client_hello_and_alloc_hsd_def Let_def n(1) ext_len z(1) OUTBUF_PFX_def AES_BLOCK_SIZE_def
      using w0 w5 no_sni by (simp add: random w1 w2 w3 w4 hsd ctx del: append_assoc)
  next
    case False
    then obtain m1 m2 m3 where "wr_n (f3 @ ?z ?x @ ?z 8 @ s) 88 [of_nat n + 5] = Some m1" "wr_n m1 90 [of_nat n + 3] = Some m2"
      "wr_n m2 93 [of_nat n] = Some m3" "wr_n m3 94 (take n (the sni)) = Some (f3 @ sni_extension name @ ?z 8 @ s)" "?x = 9 + n"
      using sni by blast
    then show ?thesis
      unfolding send_client_hello_and_alloc_hsd_def Let_def n(1) ext_len z(1) OUTBUF_PFX_def AES_BLOCK_SIZE_def
      using w0 w5 False by (simp add: random w1 w2 w3 w4 hsd ctx del: append_assoc)
  qed
  moreover obtain tls' where "xwrite_and_update_handshake_hash ?tls ?len = Some (Going tls')" "same_reading ?tls tls'"
    "core tls' = (core ?tls)\<lparr>sent := sent ?tls @ [plain_wire 22 (client_hello rand sni)],
      hsd := Some (?h\<lparr>handshake_hash_ctx := md5_hash (handshake_hash_ctx ?h) (client_hello rand sni)\<rparr>)\<rparr>"
    by (rule handshake_message_sent [of ?tls p "client_hello rand sni" s ?len ?h]) (use m z(2) len assms(2) in simp_all)
  ultimately show ?thesis using that by (simp add: same_reading_def)
qed

section \<open>The messages of the server\<close>

definition server_hello :: "u8 list \<Rightarrow> u8 list \<Rightarrow> u8 \<Rightarrow> u8 \<Rightarrow> u8 list \<Rightarrow> u8 list" where
  "server_hello rand32 session_id c0 c1 rest =
     handshake_message HANDSHAKE_SERVER_HELLO ([TLS_MAJ, TLS_MIN] @ rand32 @ [of_nat (length session_id)] @ session_id @ [c0, c1] @ rest)"

definition server_certificate :: "u8 list \<Rightarrow> u8 list \<Rightarrow> u8 list" where
  "server_certificate cert issuers =
     handshake_message HANDSHAKE_CERTIFICATE (be24 (length (be24 (length cert) @ cert @ issuers)) @ be24 (length cert) @ cert @ issuers)"

definition server_key_exchange :: "u8 list \<Rightarrow> u8 list \<Rightarrow> u8 list" where
  "server_key_exchange pub signature = handshake_message HANDSHAKE_SERVER_KEY_EXCHANGE ([3, 0, 29, 32] @ pub @ signature)"

definition certificate_request :: "u8 list \<Rightarrow> u8 list" where
  "certificate_request body = handshake_message HANDSHAKE_CERTIFICATE_REQUEST body"

definition server_hello_done :: "u8 list" where
  "server_hello_done = handshake_message HANDSHAKE_SERVER_HELLO_DONE []"

lemma core_choose_cipher: "core (choose_cipher tls a b) = choose_cipher (core tls) a b"
  by (simp add: choose_cipher_def Let_def core_def)

lemma choose_cipher_reads: "same_reading tls (choose_cipher tls a b)"
  by (simp add: choose_cipher_def Let_def same_reading_def)

lemma same_reading_updates [simp]:
  "same_reading tls (tls\<lparr>hsd := h\<rparr>)" "same_reading tls (tls\<lparr>flags := f\<rparr>)" "same_reading tls (tls\<lparr>sent := s\<rparr>)"
  "same_reading tls (tls\<lparr>outbuf := b\<rparr>)" "same_reading tls (tls\<lparr>urandom := u\<rparr>)" "same_reading tls (tls\<lparr>min_encrypted_len_on_read := n\<rparr>)"
  by (simp_all add: same_reading_def)

lemma server_hello_got:
  fixes rand32 sid exts :: "u8 list" and c0 c1 :: u8
  defines "m \<equiv> server_hello rand32 sid c0 c1 exts"
  assumes "reads tls (plain_wire 22 m @ rest)" "min_encrypted_len_on_read tls = 0" "hsd tls = Some h"
    and "length rand32 = 32" "length sid \<in> {0, 32}" "exts \<noteq> []" "length exts \<le> 180" "client_and_server_rand32 h = crand @ old"
    and "length crand = 32" "length old = 32"
  obtains tls' where "get_server_hello tls = Some (Going tls')" "reads tls' rest"
    "core tls' = choose_cipher ((core tls)\<lparr>hsd := Some (h\<lparr>handshake_hash_ctx := md5_hash (handshake_hash_ctx h) m,
        client_and_server_rand32 := crand @ rand32\<rparr>)\<rparr>) c0 c1"
proof -
  let ?n = "length sid"
  define body where "body = [TLS_MAJ, TLS_MIN] @ rand32 @ [of_nat ?n] @ sid @ [c0, c1] @ exts"
  have m: "m = HANDSHAKE_SERVER_HELLO # be24 (length body) @ body" by (simp add: m_def server_hello_def handshake_message_def body_def)
  have len: "length body = 37 + ?n + length exts" using assms(5) by (simp add: body_def)
  then have lens: "42 \<le> length m" "length m + 5 \<le> MAX_INBUF" "length body < 256" "38 + ?n \<le> length body"
    using assms(6,7,8) by (auto simp: m MAX_INBUF_def RECHDR_LEN_def Suc_le_eq)
  define h' where "h' = h\<lparr>handshake_hash_ctx := md5_hash (handshake_hash_ctx h) m\<rparr>"
  obtain t r where t: "tls_xread_handshake_block tls 42 = Some (Going (length m), t)" "inbuf t = plain_wire 22 m @ r" "reads t rest"
    "core t = (core tls)\<lparr>hsd := Some h'\<rparr>"
    by (rule handshake_block_read [OF assms(2,3) lens(2) assms(4) lens(1)]) (simp add: h'_def)
  have front: "take 39 m = [HANDSHAKE_SERVER_HELLO, 0, 0, of_nat (length body), TLS_MAJ, TLS_MIN] @ rand32 @ [of_nat ?n]"
    using assms(5) lens(3) by (simp add: m be24_def body_def)
  have hp: "rd_n (inbuf t) RECHDR_LEN 39 = Some ([HANDSHAKE_SERVER_HELLO, 0, 0, of_nat (length body), TLS_MAJ, TLS_MIN] @ rand32 @ [of_nat ?n])"
    using plain_wire_parts(2) [OF t(2), of 0 39] lens(1) by (simp add: front)
  define a where "a = HANDSHAKE_SERVER_HELLO # be24 (length body) @ [TLS_MAJ, TLS_MIN] @ rand32 @ [of_nat ?n] @ sid"
  have "m = a @ [c0, c1] @ exts" "length a = 39 + ?n" using assms(5) by (simp_all add: m a_def body_def)
  then have "take 2 (drop (39 + ?n) m) = [c0, c1]" by simp
  moreover have "39 + ?n + 2 \<le> length m" using len by (simp add: m)
  ultimately have cid: "rd_n (inbuf t) (RECHDR_LEN + (39 + ?n)) 2 = Some [c0, c1]" using plain_wire_parts(2) [OF t(2), of "39 + ?n" 2] by simp
  have off: "(if (of_nat ?n :: u8) = 32 then RECHDR_LEN + 71 else RECHDR_LEN + 71 - 32) = RECHDR_LEN + (39 + ?n)"
    using assms(6) by auto
  have ub: "unat (of_nat (length body) :: u8) = length body" using lens(3) by (simp add: unat_of_nat)
  have len24: "(of_nat ?n :: u8) = 32 \<and> \<not> unat (of_nat (length body) :: u8) < 70
      \<or> (of_nat ?n :: u8) = 0 \<and> \<not> unat (of_nat (length body) :: u8) < 38"
    unfolding ub using assms(6) lens(4) by auto
  have nth: "(rand32 @ [x]) ! 32 = x" for x using assms(5) by (simp add: nth_append)
  have rands: "wr_n (client_and_server_rand32 h') 32 rand32 = Some (crand @ rand32)"
    using wr_n_mid [of crand 32 old rand32 "[]"] assms(5,9-11) by (simp add: h'_def)
  have hsd: "hsd t = Some h'" using core_eq_fields(7) [OF t(4)] by simp
  let ?t = "t\<lparr>hsd := Some (h'\<lparr>client_and_server_rand32 := crand @ rand32\<rparr>)\<rparr>"
  have "get_server_hello tls = Some (Going (choose_cipher ?t c0 c1))"
    unfolding get_server_hello_def run_read_def using len24
    by (elim disjE conjE) (use t(1) hp hsd rands cid off assms(5) in \<open>simp_all add: nth Let_def RECHDR_LEN_def\<close>)
  moreover have "reads (choose_cipher ?t c0 c1) rest"
    using same_reading_reads [OF choose_cipher_reads same_reading_reads [OF _ t(3)]] by simp
  moreover have "core (choose_cipher ?t c0 c1) = choose_cipher ((core tls)\<lparr>hsd := Some (h'\<lparr>client_and_server_rand32 := crand @ rand32\<rparr>)\<rparr>) c0 c1"
    by (simp add: core_choose_cipher t(4))
  ultimately show ?thesis using that by (simp add: h'_def)
qed

text \<open>The certificates of a server, and what the client has of them: the flag and the RSA key.\<close>

datatype server_cert = RSA_cert x509 | ECDSA_cert x509 "u8 list" "u8 list"

fun cert_bytes :: "server_cert \<Rightarrow> u8 list" where
  "cert_bytes (RSA_cert x) = x509_certificate x"
| "cert_bytes (ECDSA_cert x curve point) = x509_with_key x (x509_ecdsa_key curve point)"

fun cert_ok :: "server_cert \<Rightarrow> bool" where
  "cert_ok (RSA_cert x) = (7 \<le> length (x_modulus x) + length (x_exponent x))"
| "cert_ok (ECDSA_cert x curve point) = (length curve = 10)"

fun cert_flag :: "server_cert \<Rightarrow> u32" where
  "cert_flag (RSA_cert x) = GOT_CERT_RSA_KEY_ALG"
| "cert_flag (ECDSA_cert x curve point) = 0"

fun cert_known :: "server_cert \<Rightarrow> handshake_data \<Rightarrow> handshake_data" where
  "cert_known (RSA_cert x) h = h\<lparr>server_rsa_pub_key := \<lparr>key_e = be_value (x_exponent x), key_N = be_value (x_modulus x),
     rsa_size = pstm_unsigned_bin_size (be_value (x_modulus x))\<rparr>\<rparr>"
| "cert_known (ECDSA_cert x curve point) h = h"

lemma cert_known_keeps [simp]:
  "handshake_hash_ctx (cert_known c h) = handshake_hash_ctx h" "client_and_server_rand32 (cert_known c h) = client_and_server_rand32 h"
  by (cases c; simp)+

lemma cert_found:
  assumes "lies (inbuf tls) d (cert_bytes c)" "length (cert_bytes c) \<le> 16384" "cert_ok c" "flags tls AND GOT_CERT_RSA_KEY_ALG = 0" "hsd tls = Some h"
  shows "find_key_in_der_cert tls d (length (cert_bytes c)) = Some (Going (tls\<lparr>flags := flags tls OR cert_flag c, hsd := Some (cert_known c h)\<rparr>))"
proof (cases c)
  case (RSA_cert x)
  then show ?thesis using find_key_found [of tls d x] assms by simp
next
  case (ECDSA_cert x curve point)
  then have "find_key_in_der_cert tls d (length (cert_bytes c)) = Some (Going tls)" using find_key_ecdsa [of tls d x] assms by simp
  moreover have "tls\<lparr>flags := flags tls OR cert_flag c, hsd := Some (cert_known c h)\<rparr> = tls" using ECDSA_cert assms(5) by (cases tls) simp
  ultimately show ?thesis by simp
qed

lemma server_certificate_got:
  fixes c issuers
  defines "m \<equiv> server_certificate (cert_bytes c) issuers"
  assumes "reads tls (plain_wire 22 m @ rest)" "min_encrypted_len_on_read tls = 0" "hsd tls = Some h"
    and "length m \<le> 16384" "cert_ok c" "flags tls AND GOT_CERT_RSA_KEY_ALG = 0"
  obtains tls' where "get_server_cert tls = Some (Going tls')" "reads tls' rest"
    "core tls' = (core tls)\<lparr>flags := flags tls OR cert_flag c,
       hsd := Some (cert_known c (h\<lparr>handshake_hash_ctx := md5_hash (handshake_hash_ctx h) m\<rparr>))\<rparr>"
proof -
  let ?cert = "cert_bytes c"
  define chain where "chain = be24 (length ?cert) @ ?cert @ issuers"
  have m: "m = HANDSHAKE_CERTIFICATE # be24 (3 + length chain) @ be24 (length chain) @ chain"
    by (simp add: m_def server_certificate_def handshake_message_def chain_def)
  have lens: "10 \<le> length m" "length m + 5 \<le> MAX_INBUF" "length ?cert \<le> 16384" "length m = 7 + length chain" "length ?cert + 3 \<le> length chain"
    using assms(5) by (simp_all add: m chain_def MAX_INBUF_def RECHDR_LEN_def)
  define h' where "h' = h\<lparr>handshake_hash_ctx := md5_hash (handshake_hash_ctx h) m\<rparr>"
  obtain t r where t: "tls_xread_handshake_block tls 10 = Some (Going (length m), t)" "inbuf t = plain_wire 22 m @ r" "reads t rest"
    "core t = (core tls)\<lparr>hsd := Some h'\<rparr>"
    by (rule handshake_block_read [OF assms(2,3) lens(2) assms(4) lens(1)]) (simp add: h'_def)
  have type: "rd (inbuf t) 5 = Some HANDSHAKE_CERTIFICATE" using plain_wire_parts(3) [OF t(2), of 0] by (simp add: m RECHDR_LEN_def)
  have "rd_n (inbuf t) 6 3 = Some (be24 (3 + length chain))" "rd_n (inbuf t) 9 3 = Some (be24 (length chain))"
    "rd_n (inbuf t) 12 3 = Some (be24 (length ?cert))"
    using plain_wire_parts(2) [OF t(2), of 1 3] plain_wire_parts(2) [OF t(2), of 4 3] plain_wire_parts(2) [OF t(2), of 7 3] lens(1)
    by (simp_all add: m chain_def RECHDR_LEN_def)
  then have len: "get24be (inbuf t) 6 = Some (3 + length chain)" "get24be (inbuf t) 9 = Some (length chain)"
    "get24be (inbuf t) 12 = Some (length ?cert)" using assms(5) lens(4,5) by (simp_all add: get24be_be24)
  have "rd_n (inbuf t) (5 + 10) (length ?cert) = Some ?cert"
    using plain_wire_parts(2) [OF t(2), of 10 "length ?cert"] lens by (simp add: m chain_def RECHDR_LEN_def)
  then have lies: "lies (inbuf t) 15 ?cert" by (auto simp: lies_def rd_n_def split: if_splits)
  have hsd: "hsd t = Some h'" using core_eq_fields(7) [OF t(4)] by simp
  have "?cert \<noteq> []" by (cases c) (simp_all add: x509_certificate_def x509_with_key_def der_item_def)
  then have "get_server_cert tls = find_key_in_der_cert t 15 (length ?cert)"
    unfolding get_server_cert_def run_read_def using t(1) type len lens(4,5) by (simp add: Let_def RECHDR_LEN_def)
  moreover have flags: "flags t = flags tls" using core_eq_fields(1) [OF t(4)] by simp
  moreover note cert_found [OF lies lens(3) assms(6) _ hsd] assms(7)
  ultimately show ?thesis using that [of "t\<lparr>flags := _, hsd := _\<rparr>"] t(3) same_reading_reads
    by (simp add: t(4) h'_def same_reading_def reads_def reader_ok_def unread_def)
qed

lemma process_server_key_got:
  fixes pub sig
  defines "m \<equiv> server_key_exchange pub sig"
  assumes "inbuf tls = plain_wire 22 m @ r" "hsd tls = Some h" "length pub = 32" "length m \<le> 16384"
  shows "process_server_key tls (length m) = Some (Going (tls\<lparr>hsd := Some (h\<lparr>ecc_pub_key32 := pub\<rparr>), flags := flags tls OR GOT_EC_KEY\<rparr>))"
proof -
  let ?n = "36 + length sig"
  have m: "m = HANDSHAKE_SERVER_KEY_EXCHANGE # be24 ?n @ [3, 0, 29, 32] @ pub @ sig"
    using assms(4) by (simp add: m_def server_key_exchange_def handshake_message_def)
  have len: "length m = 4 + ?n" using assms(4) by (simp add: m)
  have r: "rd_n (inbuf tls) 6 3 = Some (be24 ?n)" "rd_n (inbuf tls) 9 4 = Some [3, 0, 29, 32]" "rd_n (inbuf tls) 13 32 = Some pub"
    using plain_wire_parts(2) [OF assms(2), of 1 3] plain_wire_parts(2) [OF assms(2), of 4 4] plain_wire_parts(2) [OF assms(2), of 8 32] len
    by (simp_all add: m RECHDR_LEN_def assms(4))
  have "get24be (inbuf tls) 6 = Some ?n" using get24be_be24 [OF _ r(1)] assms(5) len by simp
  moreover have "word_of_le [3, 0, 29, 32] = htonl 0x03001d20" by code_simp
  ultimately show ?thesis using r(2,3) len assms(3) by (simp add: process_server_key_def RECHDR_LEN_def Let_def)
qed

text \<open>What the server may say between its certificate and \<^verbatim>\<open>ServerHelloDone\<close>: its key, and possibly that it wants a certificate.\<close>

lemma server_messages_got:
  fixes pub sig :: "u8 list" and request :: "u8 list option"
  defines "ske \<equiv> server_key_exchange pub sig" and "crs \<equiv> map certificate_request (case request of None \<Rightarrow> [] | Some b \<Rightarrow> [b])"
  assumes "reads tls (plain_wire 22 ske @ concat (map (plain_wire 22) crs) @ plain_wire 22 server_hello_done @ rest)"
    and "min_encrypted_len_on_read tls = 0" "hsd tls = Some h" "flags tls AND NEED_EC_KEY \<noteq> 0"
    and "length pub = 32" "length ske \<le> 16384" "\<forall>m \<in> set crs. length m \<le> 16384"
  obtains tls' where "read_server_messages tls = Some (Going (request \<noteq> None, tls'))" "reads tls' rest"
    "core tls' = (core tls)\<lparr>flags := flags tls OR GOT_EC_KEY, hsd := Some (h\<lparr>ecc_pub_key32 := pub,
       handshake_hash_ctx := foldl md5_hash (handshake_hash_ctx h) ([ske] @ crs @ [server_hello_done])\<rparr>)\<rparr>"
proof -
  define h1 where "h1 = h\<lparr>handshake_hash_ctx := md5_hash (handshake_hash_ctx h) ske\<rparr>"
  have l: "4 \<le> length ske" "length ske + 5 \<le> MAX_INBUF" using assms(8) by (simp_all add: ske_def server_key_exchange_def MAX_INBUF_def RECHDR_LEN_def)
  obtain t1 r1 where t1: "tls_xread_handshake_block tls 4 = Some (Going (length ske), t1)" "inbuf t1 = plain_wire 22 ske @ r1"
    "reads t1 (concat (map (plain_wire 22) crs) @ plain_wire 22 server_hello_done @ rest)" "core t1 = (core tls)\<lparr>hsd := Some h1\<rparr>"
    by (rule handshake_block_read [OF assms(3,4) l(2) assms(5) l(1)]) (simp add: h1_def)
  have ty1: "rd (inbuf t1) 5 = Some 12"
    using plain_wire_parts(3) [OF t1(2), of 0] l(1)
    by (simp add: RECHDR_LEN_def ske_def server_key_exchange_def handshake_message_def HANDSHAKE_SERVER_KEY_EXCHANGE_def)
  have f1: "hsd t1 = Some h1" "flags t1 = flags tls" "min_encrypted_len_on_read t1 = 0" using core_eq_fields [OF t1(4)] assms(4) by simp_all
  define h2 where "h2 = h1\<lparr>ecc_pub_key32 := pub\<rparr>"
  define t2 where "t2 = t1\<lparr>hsd := Some h2, flags := flags t1 OR GOT_EC_KEY\<rparr>"
  have key: "process_server_key t1 (length ske) = Some (Going t2)"
    unfolding t2_def h2_def ske_def
    by (rule process_server_key_got [OF t1(2) [unfolded ske_def] f1(1) assms(7) assms(8) [unfolded ske_def]])
  have t2: "reads t2 (concat (map (plain_wire 22) crs) @ plain_wire 22 server_hello_done @ rest)" "min_encrypted_len_on_read t2 = 0" "hsd t2 = Some h2"
    "core t2 = (core tls)\<lparr>flags := flags tls OR GOT_EC_KEY, hsd := Some h2\<rparr>"
    using same_reading_reads [OF _ t1(3), of t2] f1 t1(4) by (simp_all add: t2_def same_reading_def)
  have d: "length server_hello_done = 4" "(4 :: nat) + 5 \<le> MAX_INBUF" by (simp_all add: server_hello_done_def MAX_INBUF_def RECHDR_LEN_def)
  have fin: "\<exists>t4. tls_xread_handshake_block t 4 = Some (Going 4, t4) \<and> rd (inbuf t4) 5 = Some 14 \<and> reads t4 rest
      \<and> core t4 = (core t)\<lparr>hsd := Some (g\<lparr>handshake_hash_ctx := md5_hash (handshake_hash_ctx g) server_hello_done\<rparr>)\<rparr>"
    if t: "reads t (plain_wire 22 server_hello_done @ rest)" "min_encrypted_len_on_read t = 0" "hsd t = Some g" for t g
  proof -
    obtain t4 r4 where t4: "tls_xread_handshake_block t 4 = Some (Going (length server_hello_done), t4)"
      "inbuf t4 = plain_wire 22 server_hello_done @ r4" "reads t4 rest"
      "core t4 = (core t)\<lparr>hsd := Some (g\<lparr>handshake_hash_ctx := md5_hash (handshake_hash_ctx g) server_hello_done\<rparr>)\<rparr>"
      by (rule handshake_block_read [OF t(1,2) _ t(3), of 4]) (use d in simp_all)
    have "rd (inbuf t4) 5 = Some 14"
      using plain_wire_parts(3) [OF t4(2), of 0] d by (simp add: RECHDR_LEN_def server_hello_done_def handshake_message_def HANDSHAKE_SERVER_HELLO_DONE_def)
    then show ?thesis using t4 d(1) by auto
  qed
  show ?thesis
  proof (cases request)
    case None
    then have crs: "crs = []" by (simp add: crs_def)
    from fin [OF t2(1) [unfolded crs, simplified] t2(2,3)] obtain t4 where t4: "tls_xread_handshake_block t2 4 = Some (Going 4, t4)"
      "rd (inbuf t4) 5 = Some 14" "reads t4 rest" "core t4 = (core t2)\<lparr>hsd := Some (h2\<lparr>handshake_hash_ctx := md5_hash (handshake_hash_ctx h2) server_hello_done\<rparr>)\<rparr>"
      by blast
    have "read_server_messages tls = Some (Going (False, t4))"
      unfolding read_server_messages_def run_read_def using t1(1) ty1 f1(2) assms(6) key t4(1,2)
      by (simp add: RECHDR_LEN_def HANDSHAKE_SERVER_KEY_EXCHANGE_def HANDSHAKE_CERTIFICATE_REQUEST_def HANDSHAKE_SERVER_HELLO_DONE_def Let_def)
    then show ?thesis using that [of t4] t4(3,4) None by (simp add: t2(4) h2_def h1_def crs)
  next
    case (Some b)
    define cr where "cr = certificate_request b"
    have crs: "crs = [cr]" using Some by (simp add: crs_def cr_def)
    have l3: "4 \<le> length cr" "length cr + 5 \<le> MAX_INBUF" using assms(9) by (simp_all add: crs cr_def certificate_request_def MAX_INBUF_def RECHDR_LEN_def)
    define h3 where "h3 = h2\<lparr>handshake_hash_ctx := md5_hash (handshake_hash_ctx h2) cr\<rparr>"
    have "reads t2 (plain_wire 22 cr @ plain_wire 22 server_hello_done @ rest)" using t2(1) by (simp add: crs)
    then obtain t3 r3 where t3: "tls_xread_handshake_block t2 4 = Some (Going (length cr), t3)" "inbuf t3 = plain_wire 22 cr @ r3"
      "reads t3 (plain_wire 22 server_hello_done @ rest)" "core t3 = (core t2)\<lparr>hsd := Some h3\<rparr>"
      by (rule handshake_block_read [OF _ t2(2) l3(2) t2(3) l3(1)]) (simp add: h3_def)
    have ty3: "rd (inbuf t3) 5 = Some 13"
      using plain_wire_parts(3) [OF t3(2), of 0] l3(1)
      by (simp add: RECHDR_LEN_def cr_def certificate_request_def handshake_message_def HANDSHAKE_CERTIFICATE_REQUEST_def)
    have f3: "hsd t3 = Some h3" "min_encrypted_len_on_read t3 = 0" using core_eq_fields [OF t3(4)] t2(2) by simp_all
    from fin [OF t3(3) f3(2,1)] obtain t4 where t4: "tls_xread_handshake_block t3 4 = Some (Going 4, t4)"
      "rd (inbuf t4) 5 = Some 14" "reads t4 rest" "core t4 = (core t3)\<lparr>hsd := Some (h3\<lparr>handshake_hash_ctx := md5_hash (handshake_hash_ctx h3) server_hello_done\<rparr>)\<rparr>"
      by blast
    have "read_server_messages tls = Some (Going (True, t4))"
      unfolding read_server_messages_def run_read_def using t1(1) ty1 f1(2) assms(6) key t3(1) ty3 t4(1,2)
      by (simp add: RECHDR_LEN_def HANDSHAKE_SERVER_KEY_EXCHANGE_def HANDSHAKE_CERTIFICATE_REQUEST_def HANDSHAKE_SERVER_HELLO_DONE_def Let_def)
    then show ?thesis using that [of t4] t4(3,4) Some by (simp add: t3(4) t2(4) h3_def h2_def h1_def crs)
  qed
qed

section \<open>The messages of the client\<close>

definition empty_certificate :: "u8 list" where
  "empty_certificate = handshake_message HANDSHAKE_CERTIFICATE (be24 0)"

definition client_key_exchange :: "u8 list \<Rightarrow> u8 list" where
  "client_key_exchange key = handshake_message HANDSHAKE_CLIENT_KEY_EXCHANGE key"

lemma empty_certificate_sent:
  assumes "hsd tls = Some h" "flags tls AND ENCRYPT_ON_WRITE = 0"
  obtains tls' where "send_empty_client_cert tls = Some (Going tls')" "same_reading tls tls'"
    "core tls' = (core tls)\<lparr>sent := sent tls @ [plain_wire 22 empty_certificate],
       hsd := Some (h\<lparr>handshake_hash_ctx := md5_hash (handshake_hash_ctx h) empty_certificate\<rparr>)\<rparr>"
proof -
  obtain p s where z: "tls_get_zeroed_outbuf tls 7 = Some (Going (tls\<lparr>outbuf := p @ replicate 7 0 @ s\<rparr>))" "length p = 24" "48 \<le> length s"
    by (rule zeroed_outbuf [of 7 tls]) (simp_all add: TLS_MAX_OUTBUF_def)
  have e: "empty_certificate = [HANDSHAKE_CERTIFICATE, 0, 0, 3, 0, 0, 0]"
    by (simp add: empty_certificate_def handshake_message_def be24_def)
  have r7: "replicate 7 0 = [0, 0, 0, 0, 0, 0, 0 :: u8]" by (simp add: numeral_eq_Suc)
  have w: "wr_n (p @ replicate 7 0 @ s) 24 [HANDSHAKE_CERTIFICATE] = Some (p @ [HANDSHAKE_CERTIFICATE, 0, 0, 0, 0, 0, 0] @ s)"
    "wr_n (p @ [HANDSHAKE_CERTIFICATE, 0, 0, 0, 0, 0, 0] @ s) 27 [3] = Some (p @ empty_certificate @ s)"
    using wr_n_mid [of p 24 "[0]" "[HANDSHAKE_CERTIFICATE]" "[0, 0, 0, 0, 0, 0] @ s"]
      wr_n_mid [of "p @ [HANDSHAKE_CERTIFICATE, 0, 0]" 27 "[0]" "[3]" "[0, 0, 0] @ s"] z(2) by (simp_all add: e r7)
  let ?tls = "tls\<lparr>outbuf := p @ empty_certificate @ s\<rparr>"
  have "send_empty_client_cert tls = xwrite_and_update_handshake_hash ?tls 7"
    unfolding send_empty_client_cert_def z(1) OUTBUF_PFX_def AES_BLOCK_SIZE_def using w by simp
  moreover obtain tls' where "xwrite_and_update_handshake_hash ?tls 7 = Some (Going tls')" "same_reading ?tls tls'"
    "core tls' = (core ?tls)\<lparr>sent := sent ?tls @ [plain_wire 22 empty_certificate],
       hsd := Some (h\<lparr>handshake_hash_ctx := md5_hash (handshake_hash_ctx h) empty_certificate\<rparr>)\<rparr>"
    by (rule handshake_message_sent [of ?tls p empty_certificate s 7 h]) (use z(2) assms in \<open>simp_all add: e\<close>)
  ultimately show ?thesis using that by (simp add: same_reading_def)
qed

section \<open>Keys\<close>

text \<open>RFC 5246, 8.1 and 6.3: the master secret, and the key block cut into keys.\<close>

definition master_secret_of :: "u8 list \<Rightarrow> u8 list \<Rightarrow> u8 list \<Rightarrow> u8 list" where
  "master_secret_of premaster crand srand = rfc5246_prf 48 premaster (tls_text ''master secret'') (crand @ srand)"

definition key_block :: "nat \<Rightarrow> u8 list \<Rightarrow> u8 list \<Rightarrow> u8 list \<Rightarrow> u8 list" where
  "key_block n master crand srand = rfc5246_prf n master (tls_text ''key expansion'') (srand @ crand)"

record key_material =
  client_MAC_key :: "u8 list"
  server_MAC_key :: "u8 list"
  client_key :: "u8 list"
  server_key :: "u8 list"
  client_IV :: "u8 list"
  server_IV :: "u8 list"

definition partition_keys :: "nat \<Rightarrow> nat \<Rightarrow> nat \<Rightarrow> u8 list \<Rightarrow> key_material" where
  "partition_keys mac ks iv block =
     \<lparr>client_MAC_key = take mac block, server_MAC_key = take mac (drop mac block),
      client_key = take ks (drop (2 * mac) block), server_key = take ks (drop (2 * mac + ks) block),
      client_IV = take iv (drop (2 * mac + 2 * ks) block), server_IV = take iv (drop (2 * mac + 2 * ks + iv) block)\<rparr>"

definition session_keys :: "tls_state \<Rightarrow> u8 list \<Rightarrow> u8 list \<Rightarrow> u8 list \<Rightarrow> key_material" where
  "session_keys tls premaster crand srand =
     partition_keys (MAC_size tls) (key_size tls) (IV_size tls)
       (key_block (2 * (MAC_size tls + key_size tls + IV_size tls)) (master_secret_of premaster crand srand) crand srand)"

lemma rfc5246_prf_length [simp]: "length (rfc5246_prf n secret label seed) = n"
proof -
  have "length (P_sha256 secret seed m) = 32 * m" for secret seed m
    by (induction m) (simp_all add: P_sha256_def del: prf_A.simps)
  moreover have "n \<le> 32 * (n div 32 + 1)" by simp
  ultimately show ?thesis by (simp add: rfc5246_prf_def)
qed

text \<open>The parameters of a cipher whose keys fit.\<close>

definition cipher_fits :: "tls_state \<Rightarrow> bool" where
  "cipher_fits tls \<longleftrightarrow> key_size tls \<in> {16, 32} \<and> 2 * (MAC_size tls + key_size tls + IV_size tls) \<le> length (key_area tls)
     \<and> length (aes_key (aes_encrypt tls)) = 60 \<and> length (aes_key (aes_decrypt tls)) = 60"

text \<open>The keys are in place: for MACs, for both directions of AES, for the nonces of GCM.\<close>

definition keys_installed :: "tls_state \<Rightarrow> key_material \<Rightarrow> bool" where
  "keys_installed tls k \<longleftrightarrow> rd_n (key_area tls) 0 (MAC_size tls) = Some (client_MAC_key k)
     \<and> aes_ready (aes_encrypt tls) (client_key k) \<and> aes_ready (aes_decrypt tls) (server_key k)
     \<and> rd_n (key_area tls) (client_write_IV tls) (IV_size tls) = Some (client_IV k)
     \<and> rd_n (key_area tls) (server_write_IV tls) (IV_size tls) = Some (server_IV k)
     \<and> aes_H tls = aes_encipher (client_key k) (replicate 16 0)"

lemma derive_keys_derives:
  assumes "hsd tls = Some h" "client_and_server_rand32 h = crand @ srand" "length crand = 32" "length srand = 32"
    and "length premaster \<le> 64" "cipher_fits tls"
  obtains tls' where "derive_keys tls premaster = Some tls'" "keys_installed tls' (session_keys tls premaster crand srand)"
    "tls' = tls\<lparr>hsd := Some (h\<lparr>master_secret := master_secret_of premaster crand srand\<rparr>), key_area := key_area tls',
       client_write_key := client_write_key tls', server_write_key := server_write_key tls', client_write_IV := client_write_IV tls',
       server_write_IV := server_write_IV tls', aes_decrypt := aes_decrypt tls', aes_encrypt := aes_encrypt tls', aes_H := aes_H tls'\<rparr>"
proof -
  let ?mac = "MAC_size tls" and ?ks = "key_size tls" and ?iv = "IV_size tls"
  let ?n = "2 * (?mac + ?ks + ?iv)"
  define master where "master = master_secret_of premaster crand srand"
  define block where "block = key_block ?n master crand srand"
  have b: "length block = ?n" by (simp add: block_def key_block_def)
  note fits = assms(6) [unfolded cipher_fits_def]
  have r: "rd_n (client_and_server_rand32 h) 32 32 = Some srand" "rd_n (client_and_server_rand32 h) 0 32 = Some crand"
    using assms(2-4) by (simp_all add: rd_n_def)
  have prfs: "prf_hmac_sha256 blank_hmac 48 premaster (tls_text ''master secret'') (client_and_server_rand32 h) = Some master"
    "prf_hmac_sha256 blank_hmac ?n master (tls_text ''key expansion'') (srand @ crand) = Some block"
    using prf_hmac_sha256_prf assms(2,5) by (simp_all add: master_def master_secret_of_def block_def key_block_def)
  define mem where "mem = block @ drop ?n (key_area tls)"
  have w: "wr_n (key_area tls) 0 block = Some mem" using fits b by (simp add: wr_n_def mem_def)
  have rd: "rd_n mem i n = Some (take n (drop i block))" if "i + n \<le> ?n" for i n
    using that b by (simp add: rd_n_def mem_def)
  define k where "k = partition_keys ?mac ?ks ?iv block"
  have keys: "rd_n mem (2 * ?mac + ?ks) ?ks = Some (server_key k)" "rd_n mem (2 * ?mac) ?ks = Some (client_key k)"
    "length (server_key k) = ?ks" "length (client_key k) = ?ks"
    using b by (simp_all add: rd k_def partition_keys_def)
  have kl: "aes_key_length (length (server_key k))" "aes_key_length (length (client_key k))"
    using fits keys(3,4) by (auto simp: aes_key_length_def)
  obtain dec where dec: "aes_setkey (aes_decrypt tls) (server_key k) ?ks = Some dec" "aes_ready dec (server_key k)"
    using aes_setkey_ready [OF kl(1), of "aes_decrypt tls"] fits keys(3) by auto
  obtain enc where enc: "aes_setkey (aes_encrypt tls) (client_key k) ?ks = Some enc" "aes_ready enc (client_key k)"
    using aes_setkey_ready [OF kl(2), of "aes_encrypt tls"] fits keys(4) by auto
  define tls' where "tls' = tls\<lparr>hsd := Some (h\<lparr>master_secret := master\<rparr>), key_area := mem, client_write_key := 2 * ?mac,
    server_write_key := 2 * ?mac + ?ks, client_write_IV := 2 * ?mac + 2 * ?ks, server_write_IV := 2 * ?mac + 2 * ?ks + ?iv,
    aes_decrypt := dec, aes_encrypt := enc, aes_H := aes_encipher (client_key k) (replicate 16 0)\<rparr>"
  have H: "aes_encrypt_one_block enc (replicate AES_BLOCK_SIZE 0) = Some (aes_encipher (client_key k) (replicate 16 0))"
    using aes_encrypt_one_block_encipher [OF enc(2), of "replicate 16 0"] by (simp add: AES_BLOCK_SIZE_def)
  have "derive_keys tls premaster = Some tls'"
    unfolding derive_keys_def Let_def assms(1) using prfs w r keys(1,2) dec(1) enc(1) H
    by (simp add: tls'_def mult_2 [symmetric] add.assoc)
  moreover have "keys_installed tls' k"
    unfolding keys_installed_def using dec(2) enc(2) b by (simp add: tls'_def rd k_def partition_keys_def)
  moreover have "k = session_keys tls premaster crand srand" by (simp add: k_def session_keys_def block_def master_def)
  ultimately show ?thesis using that by (simp add: tls'_def master_def)
qed

lemma client_key_exchange_sent:
  assumes kx: "\<And>b. (if flags tls AND NEED_EC_KEY = 0 then rsa_premaster_secret (tls\<lparr>outbuf := b\<rparr>) h
      else ecdhe_premaster_secret (tls\<lparr>outbuf := b\<rparr>) h) = Going (premaster, key, tls\<lparr>outbuf := b, urandom := u\<rparr>)"
    and "length key \<le> 4098" "length premaster \<le> 64" "hsd tls = Some h" "client_and_server_rand32 h = crand @ srand"
    and "length crand = 32" "length srand = 32" "flags tls AND ENCRYPT_ON_WRITE = 0" "cipher_fits tls"
  obtains tls' where "send_client_key_exchange tls = Some (Going tls')" "same_reading tls tls'"
    "keys_installed tls' (session_keys tls premaster crand srand)"
    "core tls' = (core tls)\<lparr>urandom := u, sent := sent tls @ [plain_wire 22 (client_key_exchange key)],
       hsd := Some (h\<lparr>handshake_hash_ctx := md5_hash (handshake_hash_ctx h) (client_key_exchange key),
         master_secret := master_secret_of premaster crand srand\<rparr>), key_area := key_area tls',
       client_write_key := client_write_key tls', server_write_key := server_write_key tls', client_write_IV := client_write_IV tls',
       server_write_IV := server_write_IV tls', aes_decrypt := aes_decrypt tls', aes_encrypt := aes_encrypt tls', aes_H := aes_H tls'\<rparr>"
proof -
  let ?n = "length key"
  define z :: "nat \<Rightarrow> u8 list" where "z k = replicate k 0" for k
  have zl: "length (z k) = k" for k by (simp add: z_def)
  obtain p s where o: "tls_get_zeroed_outbuf tls 4102 = Some (Going (tls\<lparr>outbuf := p @ z 4102 @ s\<rparr>))" "length p = 24" "48 \<le> length s"
    unfolding z_def by (rule zeroed_outbuf [of 4102 tls]) (simp_all add: TLS_MAX_OUTBUF_def)
  have zs: "z 4102 = z 1 @ z 1 @ z 2 @ z ?n @ z (4098 - ?n)" unfolding z_def replicate_add [symmetric] using assms(2) by simp
  let ?r = "z (4098 - ?n) @ s"
  have w1: "wr_n (p @ z 4102 @ s) 28 key = Some (p @ z 1 @ z 1 @ z 2 @ key @ ?r)"
    using wr_n_mid [of "p @ z 1 @ z 1 @ z 2" 28 "z ?n" key ?r] o(2) by (simp add: zs zl)
  have w2: "wr_n (p @ z 1 @ q) 24 [HANDSHAKE_CLIENT_KEY_EXCHANGE] = Some (p @ HANDSHAKE_CLIENT_KEY_EXCHANGE # q)" for q
    using wr_n_mid [of p 24 "z 1" "[HANDSHAKE_CLIENT_KEY_EXCHANGE]" q] o(2) by (simp add: zl)
  define m where "m = client_key_exchange key"
  have "?n div 65536 = 0" using assms(2) by simp
  then have m: "m = HANDSHAKE_CLIENT_KEY_EXCHANGE # z 1 @ len16 ?n @ key"
    by (simp add: m_def client_key_exchange_def handshake_message_def be24_def len16_def and_ff z_def)
  have w3: "wr_n (p @ HANDSHAKE_CLIENT_KEY_EXCHANGE # z 1 @ z 2 @ key @ ?r) 26 (len16 ?n) = Some (p @ m @ ?r)"
    using wr_n_mid [of "p @ HANDSHAKE_CLIENT_KEY_EXCHANGE # z 1" 26 "z 2" "len16 ?n" "key @ ?r"] o(2) by (simp add: zl m)
  let ?t = "tls\<lparr>urandom := u, outbuf := p @ m @ ?r\<rparr>"
  obtain t1 where t1: "xwrite_and_update_handshake_hash ?t (?n + 4) = Some (Going t1)" "same_reading ?t t1"
    "core t1 = (core ?t)\<lparr>sent := sent ?t @ [plain_wire 22 m], hsd := Some (h\<lparr>handshake_hash_ctx := md5_hash (handshake_hash_ctx h) m\<rparr>)\<rparr>"
    by (rule handshake_message_sent [of ?t p m ?r "?n + 4" h]) (use o(2) assms(4,8) in \<open>simp_all add: m_def client_key_exchange_def\<close>)
  define h1 where "h1 = h\<lparr>handshake_hash_ctx := md5_hash (handshake_hash_ctx h) m\<rparr>"
  note f = core_eq_fields [OF t1(3), simplified]
  have fits: "cipher_fits t1" using assms(9) by (simp add: cipher_fits_def f)
  have r: "client_and_server_rand32 h1 = crand @ srand" by (simp add: h1_def assms(5))
  have same: "session_keys t1 premaster crand srand = session_keys tls premaster crand srand" by (simp add: session_keys_def f)
  obtain tls' where t: "derive_keys t1 premaster = Some tls'" "keys_installed tls' (session_keys tls premaster crand srand)"
    "tls' = t1\<lparr>hsd := Some (h1\<lparr>master_secret := master_secret_of premaster crand srand\<rparr>), key_area := key_area tls',
       client_write_key := client_write_key tls', server_write_key := server_write_key tls', client_write_IV := client_write_IV tls',
       server_write_IV := server_write_IV tls', aes_decrypt := aes_decrypt tls', aes_encrypt := aes_encrypt tls', aes_H := aes_H tls'\<rparr>"
    by (rule derive_keys_derives [OF _ r assms(6,7,3) fits, unfolded same]) (simp add: f h1_def)
  have "send_client_key_exchange tls = Some (Going tls')"
    unfolding send_client_key_exchange_def
    using o(1) assms(4) kx [of "p @ z 4102 @ s"] w1 w2 w3 t1(1) t(1)
    by (simp add: OUTBUF_PFX_def AES_BLOCK_SIZE_def Let_def)
  moreover have "same_reading tls tls'"
  proof -
    have "same_reading t1 tls'" by (subst t(3)) (simp add: same_reading_def)
    then show ?thesis using t1(2) by (simp add: same_reading_def)
  qed
  moreover have "core (t1\<lparr>hsd := a, key_area := b, client_write_key := c, server_write_key := d, client_write_IV := e, server_write_IV := f,
      aes_decrypt := g, aes_encrypt := i, aes_H := j\<rparr>) = (core tls)\<lparr>urandom := u, sent := sent tls @ [plain_wire 22 m],
       hsd := a, key_area := b, client_write_key := c, server_write_key := d, client_write_IV := e, server_write_IV := f,
      aes_decrypt := g, aes_encrypt := i, aes_H := j\<rparr>" for a b c d e f g i j
  proof -
    have "core (t1\<lparr>hsd := a, key_area := b, client_write_key := c, server_write_key := d, client_write_IV := e, server_write_IV := f,
      aes_decrypt := g, aes_encrypt := i, aes_H := j\<rparr>) = (core t1)\<lparr>hsd := a, key_area := b, client_write_key := c, server_write_key := d,
      client_write_IV := e, server_write_IV := f, aes_decrypt := g, aes_encrypt := i, aes_H := j\<rparr>" by (simp add: core_def)
    then show ?thesis by (simp add: t1(3))
  qed
  then have "core tls' = (core tls)\<lparr>urandom := u, sent := sent tls @ [plain_wire 22 m],
       hsd := Some (h1\<lparr>master_secret := master_secret_of premaster crand srand\<rparr>), key_area := key_area tls',
       client_write_key := client_write_key tls', server_write_key := server_write_key tls', client_write_IV := client_write_IV tls',
       server_write_IV := server_write_IV tls', aes_decrypt := aes_decrypt tls', aes_encrypt := aes_encrypt tls', aes_H := aes_H tls'\<rparr>"
    by (subst t(3)) blast
  ultimately show ?thesis using that t(2) by (simp add: m_def h1_def)
qed

text \<open>RFC 7748: the bits of a private key that are fixed.\<close>

definition x25519_clamp :: "u8 list \<Rightarrow> u8 list" where
  "x25519_clamp k = k[0 := k ! 0 AND 0xf8, 31 := (k ! 31 AND 0x7f) OR 0x40]"

lemma ecdhe_premaster_secret_is_x25519:
  assumes "32 \<le> length (urandom tls)"
  defines "priv \<equiv> x25519_clamp (take 32 (urandom tls))"
  shows "ecdhe_premaster_secret tls h = Going (curve25519 priv (ecc_pub_key32 h), 32 # curve25519 priv basepoint9,
     tls\<lparr>urandom := drop 32 (urandom tls)\<rparr>)"
  using assms by (simp add: ecdhe_premaster_secret_def tls_get_random_def CURVE25519_KEYSIZE_def x25519_clamp_def Let_def)

lemma outbuf_got:
  assumes "n \<le> TLS_MAX_OUTBUF"
  obtains p z s where "tls_get_outbuf tls n = Going (tls\<lparr>outbuf := p @ z @ s\<rparr>)" "length p = 24" "length z = n" "length s \<ge> 48"
proof -
  define len where "len = n + OUTBUF_PFX + OUTBUF_SFX"
  define b where "b = (if length (outbuf tls) < len then outbuf tls @ replicate (len - length (outbuf tls)) (junk tls) else outbuf tls)"
  have get: "tls_get_outbuf tls n = Going (tls\<lparr>outbuf := b\<rparr>)" using assms by (simp add: tls_get_outbuf_def b_def len_def Let_def)
  have b: "24 + n + 48 \<le> length b" by (auto simp: b_def len_def tls_sizes)
  have "b = take 24 b @ take n (drop 24 b) @ drop (24 + n) b" by (metis append_take_drop_id drop_drop add.commute)
  then show ?thesis using that [of "take 24 b" "take n (drop 24 b)" "drop (24 + n) b"] get b by simp
qed

definition client_finished :: "u8 list \<Rightarrow> u8 list list \<Rightarrow> u8 list" where
  "client_finished master messages =
     handshake_message HANDSHAKE_FINISHED (rfc5246_prf 12 master (tls_text ''client finished'') (sha256_message (concat messages)))"

lemma client_finished_sent:
  assumes "hsd tls = Some h" "handshake_hash_ctx h = foldl md5_hash (sha256_begin c) ms" "length (wbuffer c) = 64"
    and "length (master_secret h) \<le> 64" "flags tls AND ENCRYPTION_AESGCM \<noteq> 0" "keys_installed tls k" "IV_size tls = 4"
  defines "fin \<equiv> client_finished (master_secret h) ms"
  obtains tls' tag where "send_client_finished tls = Some (Going tls')" "same_reading tls tls'"
    "core tls' = (core tls)\<lparr>hsd := Some (h\<lparr>handshake_hash_ctx := sha1_ended (handshake_hash_ctx h)\<rparr>),
       write_seq64_be := swap64 (1 + swap64 (write_seq64_be tls)),
       sent := sent tls @ [gcm_wire (write_seq64_be tls) 22 (gcm_ciphertext (client_key k) (client_IV k @ le_bytes 8 (write_seq64_be tls)) fin) tag]\<rparr>"
    "gcm_tag (client_key k) (aes_encipher (client_key k) (replicate 16 0)) (client_IV k @ le_bytes 8 (write_seq64_be tls))
       (gcm_aad (write_seq64_be tls) 22 16) (gcm_ciphertext (client_key k) (client_IV k @ le_bytes 8 (write_seq64_be tls)) fin) tag"
proof -
  note k = assms(6) [unfolded keys_installed_def]
  have "(16 :: nat) \<le> TLS_MAX_OUTBUF" by (simp add: TLS_MAX_OUTBUF_def)
  then obtain p z s where o: "tls_get_outbuf tls 16 = Going (tls\<lparr>outbuf := p @ z @ s\<rparr>)" "length p = 24" "length z = 16" "length s \<ge> 48"
    by (rule outbuf_got)
  define a where "a = take 4 z"
  define b where "b = drop 4 z"
  have z: "z = a @ b" "length a = 4" "length b = 12" using o(3) by (simp_all add: a_def b_def)
  define v where "v = rfc5246_prf 12 (master_secret h) (tls_text ''client finished'') (sha256_message (concat ms))"
  have v: "length v = 12" by (simp add: v_def)
  have fin: "fin = (HANDSHAKE_FINISHED # be24 12) @ v" "length fin = 16" by (simp_all add: fin_def client_finished_def handshake_message_def v_def)
  have w1: "fill_handshake_record_hdr (p @ z @ s) 24 HANDSHAKE_FINISHED 16 = Some (p @ (HANDSHAKE_FINISHED # be24 12) @ b @ s)"
    using fill_handshake_record_hdr_fills [of p a v 16 "b @ s" HANDSHAKE_FINISHED] o(2) z v by simp
  have w2: "wr_n (p @ (HANDSHAKE_FINISHED # be24 12) @ b @ s) 28 v = Some (p @ fin @ s)"
    using wr_n_mid [of "p @ HANDSHAKE_FINISHED # be24 12" 28 b v s] o(2) z v by (simp add: fin)
  have hash: "sha1_end (handshake_hash_ctx h) = sha256_message (concat ms)" using sha256_digest [OF assms(3)] by (simp add: assms(2))
  have prfs: "prf_hmac_sha256 blank_hmac 12 (master_secret h) (tls_text ''client finished'') (sha256_message (concat ms)) = Some v"
    using prf_hmac_sha256_prf [OF assms(4)] by (simp add: v_def)
  define t where "t = tls\<lparr>hsd := Some (h\<lparr>handshake_hash_ctx := sha1_ended (handshake_hash_ctx h)\<rparr>), outbuf := p @ fin @ s\<rparr>"
  have t: "aes_ready (aes_encrypt t) (client_key k)" "length (aes_H t) = 16" "rd_n (key_area t) (client_write_IV t) 4 = Some (client_IV k)"
    "rd_n (outbuf t) 24 (16 + 16) = Some (fin @ take 16 s)" "(8 :: nat) * 16 < 2 ^ 32"
    using k assms(7) aes_cipher_lengths(1) [of "aes_encrypt tls" "client_key k" "replicate 16 0"] fin(2) o(2,4)
    by (simp_all add: t_def rd_n_def)
  obtain t' tag where t': "xwrite_encrypted_aesgcm t 16 22 = Some (Going t')"
    "sent t' = sent t @ [gcm_wire (write_seq64_be t) 22 (gcm_ciphertext (client_key k) (client_IV k @ le_bytes 8 (write_seq64_be t)) fin) tag]"
    "gcm_tag (client_key k) (aes_H t) (client_IV k @ le_bytes 8 (write_seq64_be t)) (gcm_aad (write_seq64_be t) 22 16)
      (gcm_ciphertext (client_key k) (client_IV k @ le_bytes 8 (write_seq64_be t)) fin) tag"
    "t' = t\<lparr>write_seq64_be := swap64 (1 + swap64 (write_seq64_be t)), outbuf := outbuf t', sent := sent t'\<rparr>"
    using xwrite_encrypted_aesgcm_wire [OF t(1-4) fin(2) t(5), of 22] by blast
  have "send_client_finished tls = Some (Going t')"
    unfolding send_client_finished_def o(1)
    using w1 w2 prfs assms(1,5) t'(1)
    by (simp add: hash OUTBUF_PFX_def AES_BLOCK_SIZE_def Let_def xwrite_encrypted_def t_def RECORD_TYPE_HANDSHAKE_def)
  moreover have "same_reading tls t'" by (subst t'(4)) (simp add: t_def same_reading_def)
  moreover have "core t' = (core t)\<lparr>write_seq64_be := swap64 (1 + swap64 (write_seq64_be t)), sent := sent t'\<rparr>"
    by (subst t'(4)) (simp add: core_def)
  ultimately show ?thesis using that [of t' tag] t'(2,3) k by (simp add: t_def)
qed

lemma ccs_wire: "rec_CHANGE_CIPHER_SPEC = plain_wire 20 [1]"
  by (simp add: rec_CHANGE_CIPHER_SPEC_def plain_wire_def len16_def RECORD_TYPE_CHANGE_CIPHER_SPEC_def TLS_MAJ_def TLS_MIN_def)

text \<open>The end of the handshake: whatever the last message of the server says behind its type.\<close>

lemma handshake_finished:
  assumes "reads tls (rec_CHANGE_CIPHER_SPEC @ gcm_wire seq 22 c tag @ rest)" "min_encrypted_len_on_read tls = 0"
    and "flags tls AND ENCRYPTION_AESGCM \<noteq> 0" "hsd tls = Some h" "keys_installed tls k" "IV_size tls = 4"
    and "length tag = 16" "4 \<le> length c" "length c + 29 \<le> MAX_INBUF"
    and "gcm_ciphertext (server_key k) (server_IV k @ le_bytes 8 seq) c = HANDSHAKE_FINISHED # content"
  obtains tls' where "finish_handshake tls = Some (Going tls')" "reads tls' rest"
    "core tls' = (core tls)\<lparr>min_encrypted_len_on_read := 8 + AES_BLOCK_SIZE, hsd := None\<rparr>"
proof -
  have one: "length [1 :: u8] + 5 \<le> MAX_INBUF" "passes_on tls 20" by (simp_all add: MAX_INBUF_def RECHDR_LEN_def passes_on_def)
  obtain t r where t: "tls_xread_record tls = Some (Going 1, t)" "inbuf t = plain_wire 20 [1] @ r"
    "reads t (gcm_wire seq 22 c tag @ rest)" "core t = core tls"
    by (rule plain_record_read [OF assms(1) [unfolded ccs_wire] assms(2) one]) (simp add: core_def)
  have ccs: "rd_n (inbuf t) 0 6 = Some rec_CHANGE_CIPHER_SPEC"
    by (simp add: t(2) ccs_wire plain_wire_def rd_n_def)
  note f = core_eq_fields [OF t(4)]
  define t2 where "t2 = t\<lparr>min_encrypted_len_on_read := 8 + AES_BLOCK_SIZE\<rparr>"
  have ct2: "core t2 = (core tls)\<lparr>min_encrypted_len_on_read := 8 + AES_BLOCK_SIZE\<rparr>"
  proof -
    have "core t2 = (core t)\<lparr>min_encrypted_len_on_read := 8 + AES_BLOCK_SIZE\<rparr>" by (simp add: t2_def core_def)
    then show ?thesis by (simp only: t(4))
  qed
  have "server_write_IV t = server_write_IV tls" using arg_cong [OF t(4), of server_write_IV] by simp
  then have "gcm_reader t2 (server_key k) (server_IV k)"
    using assms(3,5,6) by (simp add: gcm_reader_def t2_def f keys_installed_def)
  moreover have "passes_on t2 22" using assms(4) by (simp add: passes_on_def t2_def f)
  moreover have "reader_ok t2" "unread t2 = gcm_wire seq 22 c tag @ rest"
    using t(3) by (simp_all add: t2_def reads_def reader_ok_def unread_def)
  ultimately obtain t3 where t3: "tls_xread_record t2 = Some (Going (length c), t3)"
    "delivered t3 22 (HANDSHAKE_FINISHED # content) rest" "same_keys t2 t3"
    using gcm_record_delivered [of t2 "server_key k" "server_IV k" 22 seq c tag rest] assms(7,9,10) by auto
  have type: "rd (inbuf t3) 5 = Some HANDSHAKE_FINISHED"
  proof -
    have "rd_n (inbuf t3) 5 (Suc (length content)) = Some (HANDSHAKE_FINISHED # content)" using t3(2) by (simp add: delivered_def)
    then have "5 < length (inbuf t3)" "take 1 (drop 5 (inbuf t3)) = [HANDSHAKE_FINISHED]"
      by (auto simp: rd_n_def take_Suc split: if_splits)
    then show ?thesis by (simp add: rd_def take_Suc hd_drop_conv_nth)
  qed
  let ?t3 = "t3\<lparr>hsd := None\<rparr>"
  have "finish_handshake tls = Some (Going ?t3)"
    unfolding finish_handshake_def run_read_def
    using t(1) ccs t3(1) type assms(3,8) f(1) by (simp add: t2_def [symmetric] RECHDR_LEN_def)
  moreover have "reads ?t3 rest" using t3(2) by (simp add: delivered_def reads_def reader_ok_def unread_def)
  moreover have "core ?t3 = (core t2)\<lparr>hsd := None\<rparr>"
    by (subst t3(3) [unfolded same_keys_def]) (simp add: core_def)
  ultimately show ?thesis using that [of ?t3] by (simp add: ct2)
qed

section \<open>The whole handshake\<close>

text \<open>What a server says that uses ECDHE over X25519 with AES-128-GCM, each message to be sent in a record of its
  own. \<open>server_ok\<close> has the limits of the code, which ends the process for a session id that has neither 0 nor
  32 bytes, for a \<open>ServerHello\<close> of 256 bytes or more, and for a curve whose name has not eight bytes, and of a
  record; seven bytes are fewer than any key has.\<close>

record server_side =
  s_random :: "u8 list"
  s_session_id :: "u8 list"
  s_cipher :: u8
  s_hello_rest :: "u8 list"
  s_certificate :: server_cert
  s_issuers :: "u8 list"
  s_public_key :: "u8 list"
  s_signature :: "u8 list"
  s_request :: "u8 list option"

definition request_messages :: "server_side \<Rightarrow> u8 list list" where
  "request_messages s = map certificate_request (case s_request s of None \<Rightarrow> [] | Some b \<Rightarrow> [b])"

definition server_messages :: "server_side \<Rightarrow> u8 list list" where
  "server_messages s =
     [server_hello (s_random s) (s_session_id s) 0xC0 (s_cipher s) (s_hello_rest s),
      server_certificate (cert_bytes (s_certificate s)) (s_issuers s),
      server_key_exchange (s_public_key s) (s_signature s)] @ request_messages s @ [server_hello_done]"

definition server_ok :: "server_side \<Rightarrow> bool" where
  "server_ok s \<longleftrightarrow> length (s_random s) = 32 \<and> length (s_session_id s) \<in> {0, 32} \<and> s_cipher s \<in> {0x2B, 0x2F}
     \<and> s_hello_rest s \<noteq> [] \<and> length (s_hello_rest s) \<le> 180
     \<and> cert_ok (s_certificate s) \<and> length (s_public_key s) = 32
     \<and> list_all (\<lambda>m. length m \<le> 16384) (server_messages s)"

text \<open>A state as \<^verbatim>\<open>new_tls_state\<close> gives it, with enough randomness; what the client draws from it.\<close>

definition tls_fresh :: "tls_state \<Rightarrow> bool" where
  "tls_fresh tls \<longleftrightarrow> flags tls = 0 \<and> min_encrypted_len_on_read tls = 0 \<and> length (key_area tls) = 136 \<and> write_seq64_be tls = 0
     \<and> length (aes_key (aes_encrypt tls)) = 60 \<and> length (aes_key (aes_decrypt tls)) = 60 \<and> 64 \<le> length (urandom tls)"

lemma new_tls_state_fresh:
  assumes "64 \<le> length random" "input_ok input"
  shows "tls_fresh (new_tls_state input random fill)" "reads (new_tls_state input random fill) (input_bytes input)"
  using assms by (simp_all add: tls_fresh_def new_tls_state_def reads_def reader_ok_def unread_def)

definition client_random :: "tls_state \<Rightarrow> u8 list" where "client_random tls = take 32 (urandom tls)"

definition client_private_key :: "tls_state \<Rightarrow> u8 list" where
  "client_private_key tls = x25519_clamp (take 32 (drop 32 (urandom tls)))"

definition client_reply :: "tls_state \<Rightarrow> server_side \<Rightarrow> u8 list list" where
  "client_reply tls s =
     (if s_request s = None then [] else [empty_certificate]) @ [client_key_exchange (32 # curve25519 (client_private_key tls) basepoint9)]"

definition handshake_master :: "tls_state \<Rightarrow> server_side \<Rightarrow> u8 list" where
  "handshake_master tls s = master_secret_of (curve25519 (client_private_key tls) (s_public_key s)) (client_random tls) (s_random s)"

definition handshake_keys :: "tls_state \<Rightarrow> server_side \<Rightarrow> key_material" where
  "handshake_keys tls s = partition_keys 0 16 4 (key_block 40 (handshake_master tls s) (client_random tls) (s_random s))"

lemma choose_ecdhe_gcm:
  assumes "c \<in> {0x2B, 0x2F}"
  shows "choose_cipher tls 0xC0 c = tls\<lparr>cipher_id := 0xC000 + ucast c, key_size := 16, MAC_size := 0, IV_size := 4,
    flags := flags tls OR NEED_EC_KEY OR ENCRYPTION_AESGCM\<rparr>"
  using assms by (auto simp: choose_cipher_def Let_def AES128_KEYSIZE_def or.assoc)

text \<open>Up to \<^verbatim>\<open>ServerHelloDone\<close>: everything said is in the hash, the key of the server is known.\<close>

lemma server_heard:
  fixes tls s sni
  defines "hello \<equiv> client_hello (client_random tls) sni"
  assumes "tls_fresh tls" "server_ok s" "reads tls (concat (map (plain_wire 22) (server_messages s)) @ rest)"
  obtains t1 t2 t3 t4 h where "send_client_hello_and_alloc_hsd tls sni = Some (Going t1)" "get_server_hello t1 = Some (Going t2)"
    "get_server_cert t2 = Some (Going t3)" "read_server_messages t3 = Some (Going (s_request s \<noteq> None, t4))" "reads t4 rest"
    "core t4 = (core tls)\<lparr>urandom := drop 32 (urandom tls), sent := sent tls @ [plain_wire 22 hello], hsd := Some h,
       cipher_id := 0xC000 + ucast (s_cipher s), key_size := 16, MAC_size := 0, IV_size := 4,
       flags := NEED_EC_KEY OR ENCRYPTION_AESGCM OR cert_flag (s_certificate s) OR GOT_EC_KEY\<rparr>"
    "handshake_hash_ctx h = foldl md5_hash (sha256_begin blank_ctx) (hello # server_messages s)"
    "client_and_server_rand32 h = client_random tls @ s_random s" "ecc_pub_key32 h = s_public_key s"
proof -
  note fresh = assms(2) [unfolded tls_fresh_def]
  note ok = assms(3) [unfolded server_ok_def]
  define sh where "sh = server_hello (s_random s) (s_session_id s) 0xC0 (s_cipher s) (s_hello_rest s)"
  define sc where "sc = server_certificate (cert_bytes (s_certificate s)) (s_issuers s)"
  define ske where "ske = server_key_exchange (s_public_key s) (s_signature s)"
  have msgs: "server_messages s = [sh, sc, ske] @ request_messages s @ [server_hello_done]"
    by (simp add: server_messages_def sh_def sc_def ske_def)
  have lens: "length sc \<le> 16384" "length ske \<le> 16384" "\<forall>m \<in> set (request_messages s). length m \<le> 16384"
    using ok by (simp_all add: msgs list_all_iff)
  define r3 where "r3 = concat (map (plain_wire 22) (request_messages s)) @ plain_wire 22 server_hello_done @ rest"
  have unread: "reads tls (plain_wire 22 sh @ plain_wire 22 sc @ plain_wire 22 ske @ r3)" using assms(4) by (simp add: msgs r3_def)
  have crand: "length (client_random tls) = 32" using fresh by (simp add: client_random_def)
  define h1 where "h1 = zero_hsd\<lparr>client_and_server_rand32 := client_random tls @ replicate 32 0,
         handshake_hash_ctx := md5_hash (sha256_begin blank_ctx) hello\<rparr>"
  have "32 \<le> length (urandom tls)" "flags tls AND ENCRYPT_ON_WRITE = 0" using fresh by simp_all
  then obtain t1 where t1: "send_client_hello_and_alloc_hsd tls sni = Some (Going t1)" "same_reading tls t1"
    "core t1 = (core tls)\<lparr>urandom := drop 32 (urandom tls), sent := sent tls @ [plain_wire 22 hello], hsd := Some h1\<rparr>"
    unfolding h1_def hello_def client_random_def by (rule client_hello_sent)
  note f1 = core_eq_fields [OF t1(3), simplified]
  define h2 where "h2 = h1\<lparr>handshake_hash_ctx := md5_hash (handshake_hash_ctx h1) sh, client_and_server_rand32 := client_random tls @ s_random s\<rparr>"
  have min1: "min_encrypted_len_on_read t1 = 0" using fresh by (simp add: f1)
  have old: "client_and_server_rand32 h1 = client_random tls @ replicate 32 0" by (simp add: h1_def)
  have rnd: "length (s_random s) = 32" "length (s_session_id s) \<in> {0, 32}" "s_hello_rest s \<noteq> []" "length (s_hello_rest s) \<le> 180"
    "s_cipher s \<in> {0x2B, 0x2F}" "cert_ok (s_certificate s)"
    "length (s_public_key s) = 32" using ok by simp_all
  obtain t2 where t2: "get_server_hello t1 = Some (Going t2)" "reads t2 (plain_wire 22 sc @ plain_wire 22 ske @ r3)"
    "core t2 = choose_cipher ((core t1)\<lparr>hsd := Some h2\<rparr>) 0xC0 (s_cipher s)"
    unfolding h2_def sh_def
    by (rule server_hello_got [OF same_reading_reads [OF t1(2) unread, unfolded sh_def] min1 f1(7) rnd(1-4) old crand]) simp_all
  note t2c = t2(3) [unfolded choose_ecdhe_gcm [OF rnd(5)], simplified]
  note f2 = core_eq_fields [OF t2c, simplified]
  have min2: "min_encrypted_len_on_read t2 = 0" by (simp add: f2 min1)
  define h3 where "h3 = cert_known (s_certificate s) (h2\<lparr>handshake_hash_ctx := md5_hash (handshake_hash_ctx h2) sc\<rparr>)"
  have no_rsa: "flags t2 AND GOT_CERT_RSA_KEY_ALG = 0" using fresh
    by (simp add: f2 f1 NEED_EC_KEY_def ENCRYPTION_AESGCM_def GOT_CERT_RSA_KEY_ALG_def)
  obtain t3 where t3: "get_server_cert t2 = Some (Going t3)" "reads t3 (plain_wire 22 ske @ r3)"
    "core t3 = (core t2)\<lparr>flags := flags t2 OR cert_flag (s_certificate s), hsd := Some h3\<rparr>"
    unfolding h3_def sc_def
    by (rule server_certificate_got [OF t2(2) [unfolded sc_def] min2 f2(7) lens(1) [unfolded sc_def] rnd(6) no_rsa]) simp
  note f3 = core_eq_fields [OF t3(3), simplified]
  have min3: "min_encrypted_len_on_read t3 = 0" by (simp add: f3 min2)
  have need: "flags t3 AND NEED_EC_KEY \<noteq> 0" using fresh
    by (cases "s_certificate s") (simp_all add: f3 f2 f1 NEED_EC_KEY_def ENCRYPTION_AESGCM_def GOT_CERT_RSA_KEY_ALG_def)
  define h4 where "h4 = h3\<lparr>ecc_pub_key32 := s_public_key s,
       handshake_hash_ctx := foldl md5_hash (handshake_hash_ctx h3) ([ske] @ request_messages s @ [server_hello_done])\<rparr>"
  obtain t4 where t4: "read_server_messages t3 = Some (Going (s_request s \<noteq> None, t4))" "reads t4 rest"
    "core t4 = (core t3)\<lparr>flags := flags t3 OR GOT_EC_KEY, hsd := Some h4\<rparr>"
    unfolding h4_def ske_def request_messages_def
    by (rule server_messages_got [OF t3(2) [unfolded ske_def r3_def request_messages_def] min3 f3(7) need rnd(7) lens(2) [unfolded ske_def]
          lens(3) [unfolded request_messages_def]]) simp
  have "core t4 = (core tls)\<lparr>urandom := drop 32 (urandom tls), sent := sent tls @ [plain_wire 22 hello], hsd := Some h4,
       cipher_id := 0xC000 + ucast (s_cipher s), key_size := 16, MAC_size := 0, IV_size := 4,
       flags := NEED_EC_KEY OR ENCRYPTION_AESGCM OR cert_flag (s_certificate s) OR GOT_EC_KEY\<rparr>"
    unfolding t4(3) f3(1) t3(3) f2(1) t2c f1(1) t1(3) using fresh by (simp add: or.assoc)
  moreover have "handshake_hash_ctx h4 = foldl md5_hash (sha256_begin blank_ctx) (hello # server_messages s)"
    by (simp add: h4_def h3_def h2_def h1_def msgs)
  moreover have "client_and_server_rand32 h4 = client_random tls @ s_random s" "ecc_pub_key32 h4 = s_public_key s"
    by (simp_all add: h4_def h3_def h2_def)
  ultimately show ?thesis using that t1(1) t2(1) t3(1) t4(1,2) by blast
qed

text \<open>The client's answer, after its possibly empty certificate.\<close>

lemma answer_sent:
  assumes "hsd t = Some h" "flags t AND ENCRYPT_ON_WRITE = 0"
  obtains t' where "(if req then send_empty_client_cert t else Some (Going t)) = Some (Going t')" "same_reading t t'"
    "core t' = (core t)\<lparr>sent := sent t @ map (plain_wire 22) (if req then [empty_certificate] else []),
       hsd := Some (h\<lparr>handshake_hash_ctx := foldl md5_hash (handshake_hash_ctx h) (if req then [empty_certificate] else [])\<rparr>)\<rparr>"
proof (cases req)
  case True
  show ?thesis
    by (rule empty_certificate_sent [OF assms]) (use that True in simp)
next
  case False
  have "core t = (core t)\<lparr>sent := sent t @ [], hsd := Some (h\<lparr>handshake_hash_ctx := handshake_hash_ctx h\<rparr>)\<rparr>"
    using assms(1) by (cases t) (simp add: core_def)
  then show ?thesis using that [of t] False by (simp add: same_reading_def)
qed

lemma swap64_zero: "swap64 0 = 0"
  by code_simp

definition handshake_done :: "tls_state \<Rightarrow> u8 list option \<Rightarrow> server_side \<Rightarrow> u8 list \<Rightarrow> tls_state \<Rightarrow> bool" where
  "handshake_done tls sni s rest tls' \<longleftrightarrow>
     (let k = handshake_keys tls s; hello = client_hello (client_random tls) sni; nonce = client_IV k @ le_bytes 8 (0 :: u64);
          fin = client_finished (handshake_master tls s) (hello # server_messages s @ client_reply tls s)
      in (\<exists>tag. gcm_tag (client_key k) (aes_encipher (client_key k) (replicate 16 0)) nonce (gcm_aad 0 22 16) (gcm_ciphertext (client_key k) nonce fin) tag
           \<and> sent tls' = sent tls @ map (plain_wire 22) (hello # client_reply tls s)
               @ [rec_CHANGE_CIPHER_SPEC, gcm_wire 0 22 (gcm_ciphertext (client_key k) nonce fin) tag])
         \<and> keys_installed tls' k \<and> gcm_reader tls' (server_key k) (server_IV k) \<and> reads tls' rest \<and> hsd tls' = None
         \<and> swap64 (write_seq64_be tls') = 1)"

text \<open>The client's answer: from \<^verbatim>\<open>ServerHelloDone\<close> to the keys.\<close>

lemma client_answers:
  fixes tls s
  defines "k \<equiv> handshake_keys tls s" and "fl \<equiv> NEED_EC_KEY OR ENCRYPTION_AESGCM OR cert_flag (s_certificate s) OR GOT_EC_KEY"
  assumes "tls_fresh tls" "server_ok s"
    and t4: "core t4 = (core tls)\<lparr>urandom := drop 32 (urandom tls), sent := sent tls @ [plain_wire 22 hello], hsd := Some h,
       cipher_id := 0xC000 + ucast (s_cipher s), key_size := 16, MAC_size := 0, IV_size := 4, flags := fl\<rparr>"
    and h: "handshake_hash_ctx h = foldl md5_hash (sha256_begin blank_ctx) (hello # server_messages s)"
    "client_and_server_rand32 h = client_random tls @ s_random s" "ecc_pub_key32 h = s_public_key s"
  obtains t5 t6 h6 where "(if s_request s \<noteq> None then send_empty_client_cert t4 else Some (Going t4)) = Some (Going t5)"
    "send_client_key_exchange t5 = Some (Going t6)" "same_reading t4 t6" "keys_installed t6 k" "hsd t6 = Some h6"
    "handshake_hash_ctx h6 = foldl md5_hash (sha256_begin blank_ctx) (hello # server_messages s @ client_reply tls s)"
    "master_secret h6 = handshake_master tls s" "flags t6 = fl" "min_encrypted_len_on_read t6 = 0" "IV_size t6 = 4" "write_seq64_be t6 = 0"
    "sent t6 = sent tls @ map (plain_wire 22) (hello # client_reply tls s)"
proof -
  note fresh = assms(3) [unfolded tls_fresh_def]
  note f4 = core_eq_fields [OF t4, simplified]
  have fl: "fl AND ENCRYPT_ON_WRITE = 0" "fl AND NEED_EC_KEY \<noteq> 0"
    by (cases "s_certificate s"; simp add: fl_def NEED_EC_KEY_def ENCRYPTION_AESGCM_def GOT_CERT_RSA_KEY_ALG_def GOT_EC_KEY_def ENCRYPT_ON_WRITE_def)+
  define certs where "certs = (if s_request s \<noteq> None then [empty_certificate] else [])"
  define h5 where "h5 = h\<lparr>handshake_hash_ctx := foldl md5_hash (handshake_hash_ctx h) certs\<rparr>"
  have w4: "flags t4 AND ENCRYPT_ON_WRITE = 0" using fl(1) by (simp add: f4)
  obtain t5 where t5: "(if s_request s \<noteq> None then send_empty_client_cert t4 else Some (Going t4)) = Some (Going t5)" "same_reading t4 t5"
    "core t5 = (core t4)\<lparr>sent := sent t4 @ map (plain_wire 22) certs, hsd := Some h5\<rparr>"
    unfolding h5_def certs_def by (rule answer_sent [OF f4(7) w4])
  note f5 = core_eq_fields [OF t5(3), simplified]
  note f45 = f5 [unfolded f4]
  define priv where "priv = client_private_key tls"
  define premaster where "premaster = curve25519 priv (s_public_key s)"
  define key where "key = 32 # curve25519 priv basepoint9"
  have len: "length priv = 32" "length (s_public_key s) = 32" "length basepoint9 = 32" "length (client_random tls) = 32" "length (s_random s) = 32"
    using fresh assms(4) by (auto simp: priv_def client_private_key_def x25519_clamp_def server_ok_def basepoint9_def CURVE25519_KEYSIZE_def
      client_random_def min_def)
  have lens: "length premaster \<le> 64" "length key \<le> 4098"
    using curve25519_value [OF len(1,2)] curve25519_value [OF len(1,3)] by (simp_all add: premaster_def key_def)
  have kx: "(if flags t5 AND NEED_EC_KEY = 0 then rsa_premaster_secret (t5\<lparr>outbuf := b\<rparr>) h5
      else ecdhe_premaster_secret (t5\<lparr>outbuf := b\<rparr>) h5) = Going (premaster, key, t5\<lparr>outbuf := b, urandom := drop 64 (urandom tls)\<rparr>)" for b
  proof -
    have "32 \<le> length (urandom tls) - 32" using fresh by linarith
    then show ?thesis using ecdhe_premaster_secret_is_x25519 [of "t5\<lparr>outbuf := b\<rparr>" h5] fl(2) h(3)
      by (simp add: f45 premaster_def key_def priv_def client_private_key_def h5_def)
  qed
  have r5: "client_and_server_rand32 h5 = client_random tls @ s_random s" by (simp add: h5_def h(2))
  have w5: "flags t5 AND ENCRYPT_ON_WRITE = 0" using fl(1) by (simp add: f45)
  have fits: "cipher_fits t5" using fresh by (simp add: cipher_fits_def f45)
  have keys: "session_keys t5 premaster (client_random tls) (s_random s) = k"
    by (simp add: session_keys_def f45 k_def handshake_keys_def handshake_master_def premaster_def priv_def)
  have master: "master_secret_of premaster (client_random tls) (s_random s) = handshake_master tls s"
    by (simp add: handshake_master_def premaster_def priv_def)
  define h6 where "h6 = h5\<lparr>handshake_hash_ctx := md5_hash (handshake_hash_ctx h5) (client_key_exchange key), master_secret := handshake_master tls s\<rparr>"
  obtain t6 where t6: "send_client_key_exchange t5 = Some (Going t6)" "same_reading t5 t6" "keys_installed t6 k"
    "core t6 = (core t5)\<lparr>urandom := drop 64 (urandom tls), sent := sent t5 @ [plain_wire 22 (client_key_exchange key)], hsd := Some h6,
       key_area := key_area t6, client_write_key := client_write_key t6, server_write_key := server_write_key t6,
       client_write_IV := client_write_IV t6, server_write_IV := server_write_IV t6, aes_decrypt := aes_decrypt t6,
       aes_encrypt := aes_encrypt t6, aes_H := aes_H t6\<rparr>"
    unfolding h6_def by (rule client_key_exchange_sent [OF kx lens(2,1) f5(7) r5 len(4,5) w5 fits, unfolded keys master])
  note f6 = core_eq_fields(1-8,13,14) [OF t6(4), simplified, unfolded f45]
  have reply: "client_reply tls s = certs @ [client_key_exchange key]" by (simp add: client_reply_def certs_def key_def priv_def)
  show ?thesis
    by (rule that [OF t5(1) t6(1) same_reading_trans [OF t5(2) t6(2)] t6(3) f6(7)])
      (use fresh in \<open>simp_all add: f6 h6_def h5_def h(1) reply\<close>)
qed

lemma handshake_completes:
  fixes tls s sni
  defines "k \<equiv> handshake_keys tls s"
  assumes "tls_fresh tls" "server_ok s"
    and "reads tls (concat (map (plain_wire 22) (server_messages s)) @ rec_CHANGE_CIPHER_SPEC @ gcm_wire seq 22 c tag @ rest)"
    and "length tag = 16" "4 \<le> length c" "length c + 29 \<le> MAX_INBUF"
    and "gcm_ciphertext (server_key k) (server_IV k @ le_bytes 8 seq) c = HANDSHAKE_FINISHED # content"
  obtains tls' where "tls_handshake tls sni = Some (Going tls')" "handshake_done tls sni s rest tls'"
proof -
  define hello where "hello = client_hello (client_random tls) sni"
  define crest where "crest = rec_CHANGE_CIPHER_SPEC @ gcm_wire seq 22 c tag @ rest"
  define fl where "fl = NEED_EC_KEY OR ENCRYPTION_AESGCM OR cert_flag (s_certificate s) OR GOT_EC_KEY"
  obtain t1 t2 t3 t4 h where t: "send_client_hello_and_alloc_hsd tls sni = Some (Going t1)" "get_server_hello t1 = Some (Going t2)"
    "get_server_cert t2 = Some (Going t3)" "read_server_messages t3 = Some (Going (s_request s \<noteq> None, t4))" "reads t4 crest"
    and t4: "core t4 = (core tls)\<lparr>urandom := drop 32 (urandom tls), sent := sent tls @ [plain_wire 22 hello], hsd := Some h,
       cipher_id := 0xC000 + ucast (s_cipher s), key_size := 16, MAC_size := 0, IV_size := 4, flags := fl\<rparr>"
    "handshake_hash_ctx h = foldl md5_hash (sha256_begin blank_ctx) (hello # server_messages s)"
    "client_and_server_rand32 h = client_random tls @ s_random s" "ecc_pub_key32 h = s_public_key s"
    unfolding hello_def fl_def by (rule server_heard [OF assms(2,3) assms(4) [folded crest_def]])
  define ms where "ms = hello # server_messages s @ client_reply tls s"
  define master where "master = handshake_master tls s"
  obtain t5 t6 h6 where t6: "(if s_request s \<noteq> None then send_empty_client_cert t4 else Some (Going t4)) = Some (Going t5)"
    "send_client_key_exchange t5 = Some (Going t6)" "same_reading t4 t6" "keys_installed t6 k" "hsd t6 = Some h6"
    "handshake_hash_ctx h6 = foldl md5_hash (sha256_begin blank_ctx) ms" "master_secret h6 = master"
    and f6: "flags t6 = fl" "min_encrypted_len_on_read t6 = 0" "IV_size t6 = 4" "write_seq64_be t6 = 0"
    "sent t6 = sent tls @ map (plain_wire 22) (hello # client_reply tls s)"
    unfolding k_def ms_def master_def fl_def by (rule client_answers [OF assms(2,3) t4 [unfolded fl_def]])
  define t7 where "t7 = send_change_cipher_spec t6\<lparr>flags := flags (send_change_cipher_spec t6) OR ENCRYPT_ON_WRITE\<rparr>"
  have t7: "hsd t7 = Some h6" "flags t7 AND ENCRYPTION_AESGCM \<noteq> 0" "keys_installed t7 k" "IV_size t7 = 4" "same_reading t6 t7"
    "write_seq64_be t7 = 0" "sent t7 = sent t6 @ [rec_CHANGE_CIPHER_SPEC]" "min_encrypted_len_on_read t7 = 0"
    using f6 t6(4,5) by (cases "s_certificate s"; simp add: t7_def send_change_cipher_spec_def xwrite_def keys_installed_def same_reading_def fl_def
      NEED_EC_KEY_def ENCRYPTION_AESGCM_def GOT_CERT_RSA_KEY_ALG_def GOT_EC_KEY_def ENCRYPT_ON_WRITE_def)+
  have blank: "length (wbuffer blank_ctx) = 64" by (simp add: blank_ctx_def)
  have m6: "length master \<le> 64" by (simp add: master_def handshake_master_def master_secret_of_def)
  let ?nonce = "client_IV k @ le_bytes 8 (0 :: u64)" and ?fin = "client_finished master ms"
  obtain t8 tag8 where t8: "send_client_finished t7 = Some (Going t8)" "same_reading t7 t8"
    "core t8 = (core t7)\<lparr>hsd := Some (h6\<lparr>handshake_hash_ctx := sha1_ended (handshake_hash_ctx h6)\<rparr>), write_seq64_be := swap64 (1 + swap64 0),
       sent := sent t7 @ [gcm_wire 0 22 (gcm_ciphertext (client_key k) ?nonce ?fin) tag8]\<rparr>"
    and tag8: "gcm_tag (client_key k) (aes_encipher (client_key k) (replicate 16 0)) ?nonce (gcm_aad 0 22 16)
      (gcm_ciphertext (client_key k) ?nonce ?fin) tag8"
    by (rule client_finished_sent [OF t7(1) t6(6) blank _ t7(2,3,4), unfolded t7(6) t6(7)]) (use m6 in simp_all)
  note f8 = core_eq_fields [OF t8(3), simplified]
  have reads8: "reads t8 crest" using same_reading_reads [OF _ t(5)] same_reading_trans t6(3) t7(5) t8(2) by metis
  have inst8: "keys_installed t8 k"
    using t7(3,4) arg_cong [OF t8(3), of client_write_IV] arg_cong [OF t8(3), of server_write_IV] by (simp add: keys_installed_def f8)
  have more8: "min_encrypted_len_on_read t8 = 0" "flags t8 AND ENCRYPTION_AESGCM \<noteq> 0" "IV_size t8 = 4"
    using t7(2,4,8) by (simp_all add: f8)
  obtain t9 where t9: "finish_handshake t8 = Some (Going t9)" "reads t9 rest"
    "core t9 = (core t8)\<lparr>min_encrypted_len_on_read := 8 + AES_BLOCK_SIZE, hsd := None\<rparr>"
    by (rule handshake_finished [OF reads8 [unfolded crest_def] more8(1,2) f8(7) inst8 more8(3) assms(5-8)])
  note f9 = core_eq_fields [OF t9(3), simplified]
  have IVs: "client_write_IV t9 = client_write_IV t8" "server_write_IV t9 = server_write_IV t8"
    using arg_cong [OF t9(3), of client_write_IV] arg_cong [OF t9(3), of server_write_IV] by simp_all
  have "sent t9 = sent tls @ map (plain_wire 22) (hello # client_reply tls s)
      @ [rec_CHANGE_CIPHER_SPEC, gcm_wire 0 22 (gcm_ciphertext (client_key k) ?nonce ?fin) tag8]" by (simp add: f9 f8 t7(7) f6)
  moreover have "keys_installed t9 k" using inst8 by (simp add: keys_installed_def f9 IVs)
  moreover have "gcm_reader t9 (server_key k) (server_IV k)"
    using inst8 more8 by (simp add: gcm_reader_def keys_installed_def f9 IVs)
  moreover have "swap64 (write_seq64_be t9) = 1" by (simp add: f9 f8 swap64_zero)
  ultimately have "handshake_done tls sni s rest t9"
    unfolding handshake_done_def Let_def k_def [symmetric] hello_def [symmetric] ms_def [symmetric] master_def [symmetric]
    using tag8 t9(2) f9(7) by auto
  moreover have "tls_handshake tls sni = Some (Going t9)"
    unfolding tls_handshake_def using t(1-4) t6(1,2) t8(1) t9(1) by (simp add: t7_def Let_def)
  ultimately show ?thesis using that by blast
qed

section \<open>A missing key\<close>

lemma ladder_of_zero:
  "ladder_step_spec 0 b (P, P1) = (R, R1) \<Longrightarrow> fst P * snd P = 0 \<Longrightarrow> fst R * snd R = 0 \<and> fst R1 * snd R1 = 0"
  by (cases P; cases P1) (auto simp: ladder_step_spec_def diffadd_spec_def double_spec_def Let_def split: if_splits)

lemma curve25519_of_zero:
  assumes "length e = 32"
  shows "curve25519 e (replicate 32 0) = replicate 32 0"
proof -
  have loop: "\<exists>P P1. foldl (\<lambda>s i. ladder_step_spec 0 (bit m i) s) ((0, 1), (1, 0)) is = (P, P1) \<and> fst P * snd P = 0" for m :: nat and "is"
  proof (induction "is" rule: rev_induct)
    case (snoc i "is")
    then obtain P P1 where "foldl (\<lambda>s i. ladder_step_spec 0 (bit m i) s) ((0, 1), (1, 0)) is = (P, P1)" "fst P * snd P = 0" by blast
    then show ?case using ladder_of_zero [of "bit m i" P P1] by (cases "ladder_step_spec 0 (bit m i) (P, P1)") simp
  qed simp
  obtain X Z P1 where l: "ladder_spec (fe_val e) 0 = ((X, Z), P1)" "X * Z = 0"
    using loop [of "fe_val e" "rev [0..<254]"] by (auto simp: ladder_spec_def simp del: upt_rec_numeral)
  have "0 < p25519 - 2" by (simp add: p25519_def)
  then have zero: "X * Z ^ (p25519 - 2) = 0" using l(2) by (auto simp: zero_power)
  have "length (curve25519 e (replicate 32 0)) = 32 \<and> int (fe_val (curve25519 e (replicate 32 0))) = X * Z ^ (p25519 - 2) mod int p25519"
    using curve25519_value [OF assms, of "replicate 32 0"] by (simp add: l(1))
  then have v: "length (curve25519 e (replicate 32 0)) = 32" "fe_val (curve25519 e (replicate 32 0)) = 0"
    unfolding zero by simp_all
  then show ?thesis using fe_val_inject [of "curve25519 e (replicate 32 0)" "replicate 32 0"] by simp
qed

section \<open>Properties\<close>

text \<open>
  C1: the handshake completes with a server that chooses one of the two offered suites of ECDHE with AES-128-GCM
  (C02B, C02F), has an X25519 key, an RSA certificate or an ECDSA certificate with a curve name of eight bytes,
  a session id of 0 or 32 bytes, and sends every handshake message in exactly one record of its own (the client
  accepts no other division, although the protocol allows it). For any names, extensions within
  180 bytes, issuers and signatures, with or without a request for a certificate, and however the network cuts
  the stream of bytes: the messages sent are those of RFC 5246, the \<open>Finished\<close> message is the
  pseudorandom function of master secret and hash of all messages both sides sent, the keys of both
  directions are the RFC's parts of the key block, and the state is ready to read and write records.
\<close>

theorem tls_handshake_completes:
  assumes "tls_fresh tls" "server_ok s"
    and "reads tls (concat (map (plain_wire 22) (server_messages s)) @ rec_CHANGE_CIPHER_SPEC @ gcm_wire seq 22 c tag @ rest)"
    and "length tag = 16" "4 \<le> length c" "length c + 29 \<le> MAX_INBUF"
    and "gcm_ciphertext (server_key (handshake_keys tls s)) (server_IV (handshake_keys tls s) @ le_bytes 8 seq) c = HANDSHAKE_FINISHED # content"
  shows "\<exists>tls'. tls_handshake tls sni = Some (Going tls') \<and> handshake_done tls sni s rest tls'"
  using handshake_completes [OF assms] by blast

text \<open>
  C25: what the server's \<open>Finished\<close> message says is not looked at: any content behind the first byte, and any
  authentication tag, end the handshake. The comment in the source quotes that recipients must verify it.
\<close>

theorem server_finished_is_not_checked:
  assumes "reads tls (rec_CHANGE_CIPHER_SPEC @ gcm_wire seq 22 c tag @ rest)" "min_encrypted_len_on_read tls = 0"
    and "flags tls AND ENCRYPTION_AESGCM \<noteq> 0" "hsd tls = Some h" "keys_installed tls k" "IV_size tls = 4"
    and "length tag = 16" "4 \<le> length c" "length c + 29 \<le> MAX_INBUF"
    and "gcm_ciphertext (server_key k) (server_IV k @ le_bytes 8 seq) c = HANDSHAKE_FINISHED # content"
  shows "\<exists>tls'. finish_handshake tls = Some (Going tls') \<and> reads tls' rest \<and> hsd tls' = None"
proof -
  obtain tls' where t: "finish_handshake tls = Some (Going tls')" "reads tls' rest"
    "core tls' = (core tls)\<lparr>min_encrypted_len_on_read := 8 + AES_BLOCK_SIZE, hsd := None\<rparr>"
    by (rule handshake_finished [OF assms])
  then show ?thesis using core_eq_fields(7) [OF t(3)] by auto
qed

text \<open>
  C24: a server that chooses an ECDHE suite and leaves out its key is only reported: the code goes on with
  the zeros of the allocation as the key of the server. The premaster secret is then zero whatever the client's
  private key, and all keys follow from what was sent in the clear.
\<close>

theorem missing_server_key_makes_keys_public:
  assumes "hsd tls = Some h" "client_and_server_rand32 h = crand @ srand" "length crand = 32" "length srand = 32"
    and "ecc_pub_key32 h = ecc_pub_key32 zero_hsd" "flags tls AND NEED_EC_KEY \<noteq> 0" "flags tls AND GOT_EC_KEY = 0"
    and "flags tls AND ENCRYPT_ON_WRITE = 0" "cipher_fits tls" "min_encrypted_len_on_read tls = 0" "32 \<le> length (urandom tls)"
    and "reads tls (plain_wire 22 server_hello_done @ rest)"
  shows "\<exists>tls'. next_item (read_server_messages tls) (\<lambda>(got_cert_req, tls). send_client_key_exchange tls) = Some (Going tls')
    \<and> keys_installed tls' (session_keys tls (replicate 32 0) crand srand)"
proof -
  have d: "length server_hello_done = 4" "length server_hello_done + 5 \<le> MAX_INBUF" "4 \<le> length server_hello_done"
    by (simp_all add: server_hello_done_def MAX_INBUF_def RECHDR_LEN_def)
  obtain t r where t: "tls_xread_handshake_block tls 4 = Some (Going (length server_hello_done), t)" "inbuf t = plain_wire 22 server_hello_done @ r"
    "core t = (core tls)\<lparr>hsd := Some (h\<lparr>handshake_hash_ctx := md5_hash (handshake_hash_ctx h) server_hello_done\<rparr>)\<rparr>"
    by (rule handshake_block_read [OF assms(12,10) d(2) assms(1) d(3)])
  note f = core_eq_fields [OF t(3), simplified]
  have "rd (inbuf t) 5 = Some 14"
    using plain_wire_parts(3) [OF t(2), of 0] d by (simp add: RECHDR_LEN_def server_hello_done_def handshake_message_def HANDSHAKE_SERVER_HELLO_DONE_def)
  then have msgs: "read_server_messages tls = Some (Going (False, t))"
    unfolding read_server_messages_def run_read_def using t(1) d(1)
    by (simp add: RECHDR_LEN_def HANDSHAKE_SERVER_KEY_EXCHANGE_def HANDSHAKE_CERTIFICATE_REQUEST_def HANDSHAKE_SERVER_HELLO_DONE_def Let_def)
  define h' where "h' = h\<lparr>handshake_hash_ctx := md5_hash (handshake_hash_ctx h) server_hello_done\<rparr>"
  define priv where "priv = x25519_clamp (take 32 (urandom tls))"
  have priv: "length priv = 32" "length basepoint9 = 32" using assms(11)
    by (simp_all add: priv_def x25519_clamp_def basepoint9_def CURVE25519_KEYSIZE_def)
  have zero: "curve25519 priv (ecc_pub_key32 h') = replicate 32 0"
    using curve25519_of_zero [OF priv(1)] assms(5) by (simp add: h'_def zero_hsd_def)
  let ?key = "32 # curve25519 priv basepoint9"
  have key: "length ?key \<le> 4098" "length (replicate 32 (0 :: u8)) \<le> 64" using curve25519_value [OF priv] by simp_all
  have kx: "(if flags t AND NEED_EC_KEY = 0 then rsa_premaster_secret (t\<lparr>outbuf := b\<rparr>) h' else ecdhe_premaster_secret (t\<lparr>outbuf := b\<rparr>) h')
      = Going (replicate 32 0, ?key, t\<lparr>outbuf := b, urandom := drop 32 (urandom tls)\<rparr>)" for b
    using ecdhe_premaster_secret_is_x25519 [of "t\<lparr>outbuf := b\<rparr>" h'] assms(6,11) zero by (simp add: f priv_def)
  have more: "hsd t = Some h'" "client_and_server_rand32 h' = crand @ srand" "flags t AND ENCRYPT_ON_WRITE = 0" "cipher_fits t"
    "session_keys t (replicate 32 0) crand srand = session_keys tls (replicate 32 0) crand srand"
    using assms(2,8,9) by (simp_all add: f h'_def cipher_fits_def session_keys_def)
  obtain t' where "send_client_key_exchange t = Some (Going t')" "keys_installed t' (session_keys tls (replicate 32 0) crand srand)"
    by (rule client_key_exchange_sent [OF kx key more(1,2) assms(3,4) more(3,4), unfolded more(5)])
  then show ?thesis using msgs by (intro exI [of _ t']) simp
qed

text \<open>
  C26: the cipher the server chooses is not compared with those offered: a hello with any two bytes in its place is
  accepted, among them suites this client cannot do and the null suite.
\<close>

theorem server_hello_accepts_any_cipher:
  assumes "reads tls (plain_wire 22 (server_hello srand sid c0 c1 exts) @ rest)" "min_encrypted_len_on_read tls = 0" "hsd tls = Some h"
    and "length srand = 32" "length sid \<in> {0, 32}" "exts \<noteq> []" "length exts \<le> 180" "length (client_and_server_rand32 h) = 64"
  shows "\<exists>tls'. get_server_hello tls = Some (Going tls') \<and> cipher_id tls' = 0x100 * ucast c0 + ucast c1 \<and> reads tls' rest"
proof -
  define a where "a = take 32 (client_and_server_rand32 h)"
  define b where "b = drop 32 (client_and_server_rand32 h)"
  have r: "client_and_server_rand32 h = a @ b" "length a = 32" "length b = 32" using assms(8) by (simp_all add: a_def b_def)
  obtain tls' where t: "get_server_hello tls = Some (Going tls')" "reads tls' rest"
    "core tls' = choose_cipher ((core tls)\<lparr>hsd := Some (h\<lparr>handshake_hash_ctx := md5_hash (handshake_hash_ctx h) (server_hello srand sid c0 c1 exts),
        client_and_server_rand32 := a @ srand\<rparr>)\<rparr>) c0 c1"
    by (rule server_hello_got [OF assms(1-7) r])
  have "cipher_id tls' = 0x100 * ucast c0 + ucast c1" using core_eq_fields(3) [OF t(3)] by (simp add: choose_cipher_def Let_def)
  then show ?thesis using t(1,2) by blast
qed

section \<open>A sample\<close>

definition sample_server :: server_side where
  "sample_server = \<lparr>s_random = replicate 32 1, s_session_id = [], s_cipher = 0x2F, s_hello_rest = [0], s_certificate = RSA_cert sample_x509,
     s_issuers = [], s_public_key = replicate 32 2, s_signature = [1, 2, 3], s_request = Some [1]\<rparr>"

definition sample_client :: tls_state where
  "sample_client = new_tls_state [] (replicate 64 3) 0"

definition sample_finished :: "u8 list" where
  "sample_finished = gcm_ciphertext (server_key (handshake_keys sample_client sample_server))
     (server_IV (handshake_keys sample_client sample_server) @ le_bytes 8 (0 :: u64)) (HANDSHAKE_FINISHED # replicate 15 0)"

definition sample_stream :: "u8 list" where
  "sample_stream = concat (map (plain_wire 22) (server_messages sample_server)) @ rec_CHANGE_CIPHER_SPEC @ gcm_wire 0 22 sample_finished (replicate 16 0)"

lemma handshake_keys_lengths:
  "length (server_key (handshake_keys tls s)) = 16" "length (server_IV (handshake_keys tls s)) = 4"
  by (simp_all add: handshake_keys_def partition_keys_def key_block_def)

lemma sample_server_ok: "server_ok sample_server"
proof -
  have "length (x509_certificate sample_x509) \<le> 16000" by code_simp
  then have "list_all (\<lambda>m. length m \<le> 16384) (server_messages sample_server)"
    by (simp add: server_messages_def request_messages_def sample_server_def server_hello_def server_certificate_def
        server_key_exchange_def certificate_request_def server_hello_done_def)
  then show ?thesis by (simp add: server_ok_def sample_server_def sample_x509_def)
qed

lemma sample_client_facts:
  "tls_fresh (sample_client\<lparr>incoming := i\<rparr>)" "handshake_keys (sample_client\<lparr>incoming := i\<rparr>) s = handshake_keys sample_client s"
  "sample_stream \<noteq> [] \<Longrightarrow> reads (sample_client\<lparr>incoming := [Some sample_stream]\<rparr>) sample_stream"
  by (auto simp: tls_fresh_def sample_client_def new_tls_state_def handshake_keys_def handshake_master_def client_random_def
      client_private_key_def reads_def reader_ok_def unread_def input_ok_def input_bytes_def)

theorem tls_handshake_completes_witness:
  "\<exists>tls'. tls_handshake (sample_client\<lparr>incoming := [Some sample_stream]\<rparr>) (Some [108, 104]) = Some (Going tls')
    \<and> handshake_done (sample_client\<lparr>incoming := [Some sample_stream]\<rparr>) (Some [108, 104]) sample_server [] tls'"
proof -
  let ?k = "handshake_keys sample_client sample_server"
  have "aes_key_length (length (server_key ?k))" by (simp add: handshake_keys_lengths aes_key_length_def)
  then obtain aes where aes: "aes_ready aes (server_key ?k)"
    using aes_setkey_ready [of "server_key ?k" "\<lparr>aes_key = replicate 60 0, aes_rounds = 0\<rparr>"] by auto
  have n: "length (server_IV ?k @ le_bytes 8 (0 :: u64)) = 12" by (simp add: handshake_keys_lengths)
  have c: "length sample_finished = 16"
    "gcm_ciphertext (server_key ?k) (server_IV ?k @ le_bytes 8 (0 :: u64)) sample_finished = HANDSHAKE_FINISHED # replicate 15 0"
    using gcm_ciphertext_involutive [OF aes n, of "HANDSHAKE_FINISHED # replicate 15 0"] by (simp_all add: sample_finished_def)
  have "sample_stream \<noteq> []" by (simp add: sample_stream_def rec_CHANGE_CIPHER_SPEC_def)
  from sample_client_facts(3) [OF this]
  have r: "reads (sample_client\<lparr>incoming := [Some sample_stream]\<rparr>) (concat (map (plain_wire 22) (server_messages sample_server))
      @ rec_CHANGE_CIPHER_SPEC @ gcm_wire 0 22 sample_finished (replicate 16 0) @ [])" by (simp add: sample_stream_def)
  show ?thesis
    by (rule tls_handshake_completes [OF sample_client_facts(1) sample_server_ok r _ _ _ c(2) [folded sample_client_facts(2) [of "[Some sample_stream]" sample_server]]])
      (simp_all add: c(1) MAX_INBUF_def RECHDR_LEN_def)
qed

text \<open>A state before the end: the keys of \<open>sample_key\<close>, nothing more to send.\<close>

definition sample_keys :: key_material where
  "sample_keys = \<lparr>client_MAC_key = [], server_MAC_key = [], client_key = sample_key, server_key = sample_key,
     client_IV = replicate 4 9, server_IV = replicate 4 9\<rparr>"

definition sample_ending :: "u8 list \<Rightarrow> tls_state" where
  "sample_ending bs = sample_tls\<lparr>min_encrypted_len_on_read := 0, hsd := Some sample_hsd, aes_H := aes_encipher sample_key (replicate 16 0),
     incoming := [Some bs]\<rparr>"

theorem server_finished_is_not_checked_witness:
  "\<exists>c tls'. finish_handshake (sample_ending (rec_CHANGE_CIPHER_SPEC @ gcm_wire 0 22 c (replicate 16 0xee))) = Some (Going tls') \<and> hsd tls' = None"
proof -
  define c where "c = gcm_ciphertext sample_key (replicate 4 9 @ le_bytes 8 (0 :: u64)) [HANDSHAKE_FINISHED, 1, 2, 3]"
  have c: "length c = 4" "gcm_ciphertext sample_key (replicate 4 9 @ le_bytes 8 (0 :: u64)) c = HANDSHAKE_FINISHED # [1, 2, 3]"
    using gcm_ciphertext_involutive [OF sample_aes_ready, of "replicate 4 9 @ le_bytes 8 (0 :: u64)" "[HANDSHAKE_FINISHED, 1, 2, 3]"]
    by (simp_all add: c_def)
  let ?t = "sample_ending (rec_CHANGE_CIPHER_SPEC @ gcm_wire 0 22 c (replicate 16 0xee))"
  have "reads ?t (rec_CHANGE_CIPHER_SPEC @ gcm_wire 0 22 c (replicate 16 0xee) @ [])"
    by (simp add: sample_ending_def reads_def reader_ok_def unread_def input_ok_def input_bytes_def sample_tls_def rec_CHANGE_CIPHER_SPEC_def)
  moreover have "keys_installed ?t sample_keys" using sample_aes_ready
    by (simp add: keys_installed_def sample_keys_def sample_ending_def sample_tls_def rd_n_def)
  moreover have "flags ?t AND ENCRYPTION_AESGCM \<noteq> 0" "hsd ?t = Some sample_hsd" "IV_size ?t = 4" "min_encrypted_len_on_read ?t = 0"
    by (simp_all add: sample_ending_def sample_tls_def ENCRYPTION_AESGCM_def)
  ultimately show ?thesis
    using server_finished_is_not_checked [of ?t 0 c "replicate 16 0xee" "[]" sample_hsd sample_keys "[1, 2, 3]"] c
    by (auto simp: sample_keys_def MAX_INBUF_def RECHDR_LEN_def)
qed

theorem missing_server_key_makes_keys_public_witness:
  "\<exists>tls'. next_item (read_server_messages (sample_client\<lparr>flags := NEED_EC_KEY, MAC_size := 32, key_size := 16, hsd := Some sample_hsd, incoming := [Some (plain_wire 22 server_hello_done)]\<rparr>))
      (\<lambda>(got_cert_req, tls). send_client_key_exchange tls) = Some (Going tls')
    \<and> keys_installed tls' (session_keys (sample_client\<lparr>MAC_size := 32, key_size := 16\<rparr>) (replicate 32 0) (replicate 32 0) (replicate 32 0))"
proof -
  let ?t = "sample_client\<lparr>flags := NEED_EC_KEY, MAC_size := 32, key_size := 16, hsd := Some sample_hsd, incoming := [Some (plain_wire 22 server_hello_done)]\<rparr>"
  have "reads ?t (plain_wire 22 server_hello_done @ [])"
    by (simp add: sample_client_def reads_def reader_ok_def unread_def input_ok_def input_bytes_def new_tls_state_def plain_wire_def)
  moreover have "client_and_server_rand32 sample_hsd = replicate 32 0 @ replicate 32 0" "ecc_pub_key32 sample_hsd = ecc_pub_key32 zero_hsd"
    by (simp_all add: sample_hsd_def zero_hsd_def replicate_add [symmetric])
  moreover have "flags ?t AND NEED_EC_KEY \<noteq> 0" "flags ?t AND GOT_EC_KEY = 0" "flags ?t AND ENCRYPT_ON_WRITE = 0"
    by (simp_all add: NEED_EC_KEY_def GOT_EC_KEY_def ENCRYPT_ON_WRITE_def)
  moreover have "cipher_fits ?t" "min_encrypted_len_on_read ?t = 0" "32 \<le> length (urandom ?t)" "hsd ?t = Some sample_hsd"
    by (simp_all add: cipher_fits_def sample_client_def new_tls_state_def)
  moreover have "session_keys ?t a b c = session_keys (sample_client\<lparr>MAC_size := 32, key_size := 16\<rparr>) a b c" for a b c by (simp add: session_keys_def)
  ultimately show ?thesis
    using missing_server_key_makes_keys_public [of ?t sample_hsd "replicate 32 0" "replicate 32 0" "[]"] by simp
qed

theorem server_hello_accepts_any_cipher_witness:
  "\<exists>tls'. get_server_hello (sample_client\<lparr>hsd := Some sample_hsd, incoming := [Some (plain_wire 22 (server_hello (replicate 32 1) [] 0 0 [0]))]\<rparr>)
    = Some (Going tls') \<and> cipher_id tls' = 0"
proof -
  let ?m = "server_hello (replicate 32 1) [] 0 0 [0]"
  let ?t = "sample_client\<lparr>hsd := Some sample_hsd, incoming := [Some (plain_wire 22 ?m)]\<rparr>"
  have "reads ?t (plain_wire 22 ?m @ [])"
    by (simp add: sample_client_def reads_def reader_ok_def unread_def input_ok_def input_bytes_def new_tls_state_def plain_wire_def)
  then show ?thesis
    using server_hello_accepts_any_cipher [of ?t "replicate 32 1" "[]" 0 0 "[0]" "[]" sample_hsd]
    by (simp add: sample_client_def new_tls_state_def sample_hsd_def) blast
qed

end
