(* ===== verification/TlsCopy.thy ===== *)
theory TlsCopy
  imports TlsDer
begin

text \<open>
  \<^verbatim>\<open>networking/tls.c\<close>: \<^verbatim>\<open>tls_run_copy_loop\<close>, which copies between the standard streams and the connection
  once the handshake is over, and that what it takes from one side comes out of the other.
\<close>

section \<open>The operations\<close>











section \<open>What is sent\<close>

lemma next_item_going [simp]: "next_item (Some (Going (b, s))) f = f (b, s)" by simp









section \<open>What is received\<close>






section \<open>Properties\<close>



end
