(* ===== verification/Spec2Isabelle.thy ===== *)
theory Spec2Isabelle
  imports Kvisual DomainCodec Base64 TlsFe ShellEval HashProofs DhcpExchange TlsHandshakeProofs TlsCopy
begin

text \<open>
  A verification library for the kernel-debugging workbench.

  The repository boots a kernel under a debugger with a small root file system. Its own code is the
  kernel module \<^verbatim>\<open>extra_module/kvisual\<close>, which prints what passes through the write path; the
  programs of the root file system are those of busybox 1.32.1 under \<^verbatim>\<open>build_ramdisk\<close>, in the
  configuration of its \<^verbatim>\<open>include/autoconf.h\<close> (64-bit, little-endian). Modelled are the module and
  parts of busybox with logic of their own. File names below are relative to
  \<^verbatim>\<open>build_ramdisk/busybox-1.32.1\<close> except for kvisual.

  \<^bold>\<open>Theories and sources.\<close>

  \<^item> \<open>Prelude\<close>: integer types of the target, checked reads and writes of buffers (\<open>rd\<close>, \<open>rd_n\<close>,
    \<open>wr_n\<close>), lemmas on words shared by the components.
  \<^item> \<open>Kvisual\<close>: \<^verbatim>\<open>extra_module/kvisual/*.c\<close>. The kernel's memory is a partial map from addresses to
    the structures the handlers read (an unmapped one is an oops), the kernel's registration calls
    are a parameter (\<open>kapi\<close>), the log and the registered probes are the state. Each probe handler
    and trace function is one definition of its name; \<open>kvisual_init\<close> and \<open>kvisual_exit\<close> compose the
    registration loops.
  \<^item> \<open>DomainCodec\<close>: \<^verbatim>\<open>networking/udhcp/domain_codec.c\<close>. \<open>dname_step\<close> is one turn of the decoder's loop,
    \<open>dname_pass\<close> the loop, \<open>dname_dec\<close> its two passes; \<open>Fault\<close> is an access out of bounds.
  \<^item> \<open>Base64\<close>: \<^verbatim>\<open>libbb/uuencode.c\<close>. Encoder, decoder of quads, and the buffered reader of streams.
  \<^item> \<open>TlsFe\<close>: \<^verbatim>\<open>networking/tls_fe.c\<close>. Field elements are lists of 32 bytes; the abstraction \<open>fe_rep\<close>
    reads them modulo \<open>2^255 - 19\<close>. The locale \<open>represented_product\<close> is what inversion by
    repeated squaring needs of a product.
  \<^item> \<open>ShellMath\<close>: \<^verbatim>\<open>shell/math.c\<close>, the evaluator of \<^verbatim>\<open>$((...))\<close>, with \<^verbatim>\<open>libbb/endofname.c\<close> and
    \<^verbatim>\<open>libbb/skip_whitespace.c\<close>. \<open>eval_turn\<close> is one turn of \<^verbatim>\<open>while (1)\<close>, \<open>arith\<close> the entry point; the
    variable store is a parameter (\<open>arith_state\<close>). \<open>ShellGrammar\<close> has the grammar, the printing
    and the meaning of trees; \<open>ShellArith\<close> the properties.
  \<^item> \<open>ShellVars\<close>: the variable table of \<^verbatim>\<open>shell/ash.c\<close> (\<^verbatim>\<open>initvar\<close>, \<^verbatim>\<open>lookupvar\<close>, \<^verbatim>\<open>setvar\<close>,
    \<^verbatim>\<open>setvareq\<close>, export, local variables, the callbacks of variables) and \<^verbatim>\<open>shell/random.c\<close>. The
    locale \<open>callbacks\<close> is what an assignment needs of the functions it calls. \<open>ShellEval\<close> puts the
    evaluator over this table, through the locale \<open>variable_store\<close>.
  \<^item> \<open>HashStream\<close>, \<open>HashMd5Sha\<close>, \<open>HashProofs\<close>: \<^verbatim>\<open>libbb/hash_md5_sha.c\<close> and the choice of sizes in
    \<^verbatim>\<open>coreutils/md5_sha1_sum.c\<close>. The locale \<open>streaming\<close> is the contract of a context that buffers
    an incomplete block; MD5, SHA-1 and SHA-256, SHA-512, and SHA-3 are its interpretations.
  \<^item> \<open>ByteOrder\<close>: words as bytes and the byte swaps of \<^verbatim>\<open>include/platform.h\<close>, for digests and packets.
  \<^item> \<open>DhcpOptions\<close>: \<^verbatim>\<open>networking/udhcp/common.c\<close>, \<^verbatim>\<open>common.h\<close> and the header of \<^verbatim>\<open>packet.c\<close>. A packet
    is a record whose fields are byte lists of fixed lengths (\<open>packet_ok\<close>); \<open>get_option_loop\<close> is the
    search for an option through the fields that an overload option names.
  \<^item> \<open>DhcpServer\<close>: \<^verbatim>\<open>networking/udhcp/dhcpd.c\<close>. The state \<open>server\<close> is the table of leases, the packets
    sent and the lease file; the clock, the ARP probe and the opening of the file are parameters
    (\<open>env\<close>), the configuration is \<open>server_data\<close>. \<open>dhcpd_packet\<close> is what the main loop does with a
    packet, \<open>dhcpd_run\<close> its runs. \<open>DhcpProofs\<close> has the invariant of the table (\<open>table_ok\<close>) and what
    every handler does to it (\<open>handled\<close>).
  \<^item> \<open>DhcpWire\<close>: \<^verbatim>\<open>networking/udhcp/packet.c\<close>, \<^verbatim>\<open>udhcp_recv_raw_packet\<close> of \<^verbatim>\<open>dhcpc.c\<close> and \<^verbatim>\<open>libbb/inet_cksum.c\<close>.
    A packet as the bytes of a frame with IP and UDP header, and back; \<open>same_packet\<close> is what arrives of it.
  \<^item> \<open>DhcpClient\<close>: \<^verbatim>\<open>networking/udhcp/dhcpc.c\<close>. The state \<open>client\<close> is \<^verbatim>\<open>client_data\<close> with the variables of
    \<^verbatim>\<open>udhcpc_main\<close>, the packets that left and the scripts that ran; clock, random numbers, interface, ARP
    probe and \<^verbatim>\<open>sendto\<close> are parameters (\<open>cenv\<close>). \<open>client_turn\<close> is a turn of the main loop for an event,
    \<open>client_run\<close> the runs over any events. \<open>DhcpClientProofs\<close> has the invariant of the states,
    \<open>DhcpClientPackets\<close> the packets it builds (\<open>has\<close>) and that a turn is defined (\<open>step_safe\<close>),
    \<open>DhcpClientLease\<close> what happens when no server answers, \<open>DhcpClientSample\<close> an evaluated start.
  \<^item> \<open>DhcpExchange\<close>: client and server together over the wire: \<open>asks\<close> is a request of the client with the
    server's answer, \<open>owns\<close> that the server holds an address for a client.

  \<^item> \<open>TlsAes\<close>, \<open>TlsAesProofs\<close>: \<^verbatim>\<open>networking/tls_aes.c\<close>, and FIPS 197 over columns and the field of 256
    elements; \<open>aes_ready\<close> is a key schedule for a key, \<open>cbc_encipher\<close> and \<open>cbc_decipher\<close> the two loops.
  \<^item> \<open>TlsGcm\<close>: \<^verbatim>\<open>networking/tls_aesgcm.c\<close> against the field of SP 800-38D, whose elements are words of 128 bits.
  \<^item> \<open>TlsHmac\<close>: HMAC and the pseudorandom function of \<^verbatim>\<open>networking/tls.c\<close>. The locale \<open>digest\<close> is what HMAC
    needs of a hash; SHA-256 and SHA-1 are its interpretations.
  \<^item> \<open>TlsRecord\<close>, \<open>TlsRecordProofs\<close>: the record layer of \<^verbatim>\<open>networking/tls.c\<close>. The state is \<^verbatim>\<open>tls_state_t\<close> with
    what was written and what reads will give; \<open>xread_once\<close> is a turn of \<^verbatim>\<open>tls_xread_record\<close>. \<open>gcm_wire\<close> and
    \<open>cbc_wire\<close> are records on the wire, \<open>unread\<close> what is left of the stream, \<open>delivered\<close> what a caller gets.
  \<^item> \<open>TlsPstm\<close>, \<open>TlsRsa\<close>: \<^verbatim>\<open>networking/tls_pstm.c\<close> with \<^verbatim>\<open>tls_pstm_montgomery_reduce.c\<close>, as far as encryption with
    a public key needs it, and \<^verbatim>\<open>networking/tls_rsa.c\<close>. Numbers are their values; \<open>mont\<close> is Montgomery's form.
  \<^item> \<open>TlsDer\<close>, \<open>TlsCert\<close>: the search for the key in a certificate, in \<^verbatim>\<open>networking/tls.c\<close>; \<open>runs_inside\<close> is a
    chain of items that stays in the buffer, \<open>x509_with_key\<close> the encoding of a certificate with a key of RSA or ECDSA.
  \<^item> \<open>TlsHandshake\<close>, \<open>TlsHandshakeProofs\<close>: the handshake of \<^verbatim>\<open>networking/tls.c\<close>, one definition per function, with
    \<open>choose_cipher\<close> and \<open>derive_keys\<close> cut out of long ones. \<open>server_messages\<close> is what a server says, \<open>core\<close> a
    state without its buffers, \<open>keys_installed\<close> that the parts of a key block are in place.
  \<^item> \<open>TlsCopy\<close>: \<^verbatim>\<open>tls_run_copy_loop\<close>; the answers of \<^verbatim>\<open>poll\<close> are a list, \<open>copy_turn\<close> is a turn for one of them.

  \<^bold>\<open>What is shown.\<close> Refinements of abstract descriptions: X25519 against the ladder over the
  integers, the shell's table against a map, expression evaluation against the value of a tree,
  digests against the whole padded message, the options of a packet against an association list.
  Memory safety with every access checked: the domain name decoder and the DHCP server on hostile
  packets, the evaluator's stacks. Invariants: the table of variables, the table of leases in every
  run of the server, that an address given to a client is no running lease of another one unless it is reserved
  for the client, and the states of the client. Round
  trips: domain names, base64, numbers stored by the evaluator, packets on the wire. Termination and its failures:
  evaluation over the shell's variables ends, the base64 reader can hang; a client without a server asks
  again in every turn and gives its address up in time. Composition: the four messages of an exchange give client and server the same
  lease. The TLS client: AES is FIPS 197, the records are those of SP 800-38D, the pseudorandom function is
  RFC 5246, RSA encryption is PKCS #1; a record written in either mode is the record read by the peer,
  however the network cuts the stream; the search through a certificate stays in the buffer and finds the key; the
  handshake completes with the messages and keys of the RFC for a server that chooses ECDHE with AES-128-GCM and sends
  each handshake message in one record of its own, with an RSA or ECDSA certificate; what goes
  into the copy loop of one side comes out of the other. Where the code breaks its promise, the property says so and is listed as a finding.

  \<^bold>\<open>Bounds and fuel.\<close> \<open>evaluate_string\<close> has fuel for evaluations nested through variables:
  \<open>shell_arithmetic_ends\<close> proves that a little more than the number of names with non-decimal texts is
  enough. \<open>read_base64\<close> has fuel for its loop: enough is proved where the text ends, and none is
  enough where the reader hangs. \<open>xs_loop\<close> and the other loops end by a measure. The operator and
  number stacks of the evaluator have the sizes that the code allocates. Lengths of chunks of
  SHA-512 are below \<open>2^64\<close>, as a \<^verbatim>\<open>size_t\<close> is.

  \<^bold>\<open>Not modelled.\<close> The other applets of busybox: most are drivers of system calls. Of the parts above:
  what is under \<^verbatim>\<open>#if 0\<close> or not compiled in this configuration; allocation and its failure, except
  where a size is part of a property; in \<^verbatim>\<open>ash.c\<close> the parser, expansion, job control, the freeing of
  variable texts, \<^verbatim>\<open>optschanged\<close> and \<^verbatim>\<open>poplocalvars(1)\<close>; in udhcp the command line, the parsing of the
  configuration, the environment of the script, the sockets, DHCPv6 and zcip; in \<^verbatim>\<open>tls*.c\<close> the
  loops over the digits of a \<^verbatim>\<open>pstm_int\<close> (a number is its value), the
  private-key branch of \<^verbatim>\<open>psRsaCrypt\<close>, the dumps for debugging, error messages that do not end the process
  and writes that fail.
\<close>

end
